(* ===== verification/Prelude.thy ===== *)
theory Prelude
  imports Main "HOL-Library.Word" "HOL-Library.List_Lexorder"
begin

text \<open>
  What every component of the development shares: the names of the machine types, the
  result monad that stands for Rust's \<^verbatim>\<open>?\<close> operator, checked and saturating
  arithmetic of the standard library, and generic facts on lists of bytes and their
  lexicographic order (the order of \<^verbatim>\<open>[u8]\<close> in Rust and of keys in FoundationDB).
\<close>

type_synonym byte = "8 word"
type_synonym bytes = "byte list"
type_synonym u16 = "16 word"
type_synonym u32 = "32 word"
type_synonym u64 = "64 word"

section \<open>Results\<close>

text \<open>\<^verbatim>\<open>Result<A, E>\<close> is the sum type, with the error on the left.\<close>

definition bind_result :: "'e + 'a \<Rightarrow> ('a \<Rightarrow> 'e + 'b) \<Rightarrow> 'e + 'b" where
  "bind_result r f = (case r of Inl e \<Rightarrow> Inl e | Inr a \<Rightarrow> f a)"

definition map_err :: "('e \<Rightarrow> 'f) \<Rightarrow> 'e + 'a \<Rightarrow> 'f + 'a" where
  "map_err g r = (case r of Inl e \<Rightarrow> Inl (g e) | Inr a \<Rightarrow> Inr a)"

definition ok_or :: "'e \<Rightarrow> 'a option \<Rightarrow> 'e + 'a" where
  "ok_or e x = (case x of None \<Rightarrow> Inl e | Some a \<Rightarrow> Inr a)"

lemma bind_result_simps [simp]:
  "bind_result (Inl e) f = Inl e"
  "bind_result (Inr a) f = f a"
  by (simp_all add: bind_result_def)

lemma map_err_simps [simp]:
  "map_err g (Inl e) = Inl (g e)"
  "map_err g (Inr a) = Inr a"
  by (simp_all add: map_err_def)

lemma ok_or_simps [simp]:
  "ok_or e None = Inl e"
  "ok_or e (Some a) = Inr a"
  by (simp_all add: ok_or_def)

lemma bind_result_cong [fundef_cong]:
  assumes "r = r'" and "\<And>a. r' = Inr a \<Longrightarrow> f a = g a"
  shows "bind_result r f = bind_result r' g"
  using assms by (cases r') auto

lemma bind_result_eq_Inr:
  "bind_result r f = Inr b \<longleftrightarrow> (\<exists>a. r = Inr a \<and> f a = Inr b)"
  by (cases r) auto

lemma bind_result_eq_Inl:
  "bind_result r f = Inl e \<longleftrightarrow> r = Inl e \<or> (\<exists>a. r = Inr a \<and> f a = Inl e)"
  by (cases r) auto

lemma map_err_eq_Inr [simp]: "map_err g r = Inr a \<longleftrightarrow> r = Inr a"
  by (cases r) auto

lemma ok_or_eq_Inr [simp]: "ok_or e x = Inr a \<longleftrightarrow> x = Some a"
  by (cases x) auto

lemma bind_result_assoc:
  "bind_result (bind_result r f) g = bind_result r (\<lambda>a. bind_result (f a) g)"
  by (cases r) auto

section \<open>Lists\<close>

lemma all_nth_append_drop: "n \<le> length xs \<Longrightarrow> take n xs @ drop n xs = xs"
  by simp

lemma take_drop_append [simp]:
  "length xs = n \<Longrightarrow> take n (xs @ ys) = xs"
  "length xs = n \<Longrightarrow> drop n (xs @ ys) = ys"
  by auto

section \<open>The lexicographic order on byte strings\<close>

lemma less_append_cancel [simp]:
  fixes xs ys zs :: "'a::linorder list"
  shows "xs @ ys < xs @ zs \<longleftrightarrow> ys < zs"
  by (induction xs) auto

lemma less_append_prefix [simp]:
  fixes xs ys :: "'a::linorder list"
  shows "xs < xs @ ys \<longleftrightarrow> ys \<noteq> []"
  using less_append_cancel [of xs "[]" ys] by (cases ys) auto

lemma not_append_less_prefix [simp]:
  fixes xs ys :: "'a::linorder list"
  shows "\<not> xs @ ys < xs"
  using less_append_cancel [of xs ys "[]"] by simp

text \<open>Two strings of one length that differ keep their order whatever follows them.\<close>

lemma less_same_length_append:
  fixes xs ys :: "'a::linorder list"
  assumes "length xs = length ys" and "xs < ys"
  shows "xs @ us < ys @ vs"
  using assms by (induction xs ys rule: list_induct2) auto

end
