(* ===== verification/Big_Endian.thy ===== *)
theory Big_Endian
  imports Prelude
begin

text \<open>
  Machine integers as byte strings: what the tuple layer and the register code use of the
  standard library (\<^verbatim>\<open>to_be_bytes\<close>, \<^verbatim>\<open>from_be_bytes\<close>, \<^verbatim>\<open>to_le_bytes\<close>,
  \<^verbatim>\<open>leading_zeros\<close>), at every width, with the facts the codecs need: the two
  directions are inverse, big-endian strings of one length are ordered as the numbers they
  stand for, and dropping the leading zero bytes of an integer loses nothing.
\<close>

section \<open>Numbers and big-endian strings\<close>

definition be_nat :: "bytes \<Rightarrow> nat" where
  "be_nat bs = foldl (\<lambda>n b. n * 256 + unat b) 0 bs"

fun nat_be :: "nat \<Rightarrow> nat \<Rightarrow> bytes" where
  "nat_be 0 n = []"
| "nat_be (Suc k) n = nat_be k (n div 256) @ [word_of_nat (n mod 256)]"

lemma nat_be_numeral [simp]:
  "nat_be (numeral k) n = nat_be (pred_numeral k) (n div 256) @ [word_of_nat (n mod 256)]"
  by (simp only: numeral_eq_Suc [of k] nat_be.simps)

lemma length_nat_be [simp]: "length (nat_be k n) = k"
  by (induction k arbitrary: n) auto

lemma be_nat_Nil [simp]: "be_nat [] = 0"
  by (simp add: be_nat_def)

lemma be_nat_snoc [simp]: "be_nat (bs @ [b]) = be_nat bs * 256 + unat b"
  by (simp add: be_nat_def)

lemma be_nat_append: "be_nat (as @ bs) = be_nat as * 256 ^ length bs + be_nat bs"
  by (induction bs rule: rev_induct) (simp_all add: append_assoc [symmetric] algebra_simps
      del: append_assoc)

lemma be_nat_Cons: "be_nat (b # bs) = unat b * 256 ^ length bs + be_nat bs"
  using be_nat_append [of "[b]" bs] be_nat_snoc [of "[]" b] by simp

lemma unat_byte_less [simp]: "unat (b :: byte) < 256"
  by (rule less_le_trans [OF unsigned_less]) simp

lemma byte_less_ff: "b \<noteq> 255 \<Longrightarrow> b < (255 :: byte)"
  by (simp add: word_less_nat_alt word_unat_eq_iff, use unat_byte_less [of b] in linarith)

lemma be_nat_less: "be_nat bs < 256 ^ length bs"
proof (induction bs)
  case (Cons b bs)
  have "unat b * 256 ^ length bs + be_nat bs < (unat b + 1) * 256 ^ length bs"
    using Cons by simp
  also have "\<dots> \<le> 256 * 256 ^ length bs"
    by (intro mult_right_mono) (use unat_byte_less [of b] in linarith, simp)
  finally show ?case by (simp add: be_nat_Cons)
qed simp

lemma unat_word_of_nat_byte: "n < 256 \<Longrightarrow> unat (word_of_nat n :: byte) = n"
  by (simp add: unat_of_nat)

lemma be_nat_nat_be: "be_nat (nat_be k n) = n mod 256 ^ k"
proof (induction k arbitrary: n)
  case (Suc k)
  have "n mod 256 ^ Suc k = 256 * (n div 256 mod 256 ^ k) + n mod 256"
    by (simp add: mod_mult2_eq)
  then show ?case using Suc by (simp add: unat_word_of_nat_byte)
qed simp

lemma nat_be_be_nat: "nat_be (length bs) (be_nat bs) = bs"
proof (induction bs rule: rev_induct)
  case (snoc b bs)
  have "(be_nat bs * 256 + unat b) div 256 = be_nat bs"
    using unat_byte_less [of b] by simp
  moreover have "(be_nat bs * 256 + unat b) mod 256 = unat b"
    using unat_byte_less [of b] by simp
  ultimately show ?case using snoc by simp
qed simp

lemma be_nat_inject: "length as = length bs \<Longrightarrow> be_nat as = be_nat bs \<Longrightarrow> as = bs"
  by (metis nat_be_be_nat)

lemma nat_be_mod: "nat_be k (n mod 256 ^ k) = nat_be k n"
  by (rule be_nat_inject) (simp_all add: be_nat_nat_be)

text \<open>Strings of one length are ordered as numbers.\<close>

lemma be_nat_strict_mono:
  assumes "length as = length bs" and "as < bs"
  shows "be_nat as < be_nat bs"
  using assms
proof (induction as bs rule: list_induct2)
  case (Cons a as b bs)
  show ?case
  proof (cases "a = b")
    case True
    with Cons show ?thesis by (simp add: be_nat_Cons)
  next
    case False
    with Cons.prems have "unat a + 1 \<le> unat b"
      by (simp add: word_less_nat_alt)
    then have "(unat a + 1) * 256 ^ length bs \<le> unat b * 256 ^ length bs"
      by (rule mult_right_mono) simp
    moreover have "be_nat as < 256 ^ length bs"
      using be_nat_less [of as] Cons.hyps by simp
    ultimately show ?thesis using Cons.hyps by (simp add: be_nat_Cons)
  qed
qed simp

lemma be_nat_less_iff:
  assumes "length as = length bs"
  shows "as < bs \<longleftrightarrow> be_nat as < be_nat bs"
  using assms be_nat_strict_mono [of as bs] be_nat_strict_mono [of bs as]
  by (metis linorder_neq_iff order_less_asym)

lemma nat_be_less_iff:
  "m < 256 ^ k \<Longrightarrow> n < 256 ^ k \<Longrightarrow> nat_be k m < nat_be k n \<longleftrightarrow> m < n"
  by (simp add: be_nat_less_iff be_nat_nat_be)

text \<open>Dropping the high bytes keeps the low part; they are zero when the number is small.\<close>

lemma drop_nat_be: "i \<le> k \<Longrightarrow> drop i (nat_be k n) = nat_be (k - i) n"
proof (rule be_nat_inject)
  assume i: "i \<le> k"
  show "length (drop i (nat_be k n)) = length (nat_be (k - i) n)"
    by simp
  have "be_nat (nat_be k n) =
      be_nat (take i (nat_be k n)) * 256 ^ (k - i) + be_nat (drop i (nat_be k n))"
    using be_nat_append [of "take i (nat_be k n)" "drop i (nat_be k n)"] by simp
  then have "(n mod 256 ^ k) mod 256 ^ (k - i) = be_nat (drop i (nat_be k n)) mod 256 ^ (k - i)"
    by (simp only: be_nat_nat_be mod_mult_self3)
  moreover have "be_nat (drop i (nat_be k n)) < 256 ^ (k - i)"
    using be_nat_less [of "drop i (nat_be k n)"] by simp
  moreover have "(256 :: nat) ^ (k - i) dvd 256 ^ k"
    by (simp add: le_imp_power_dvd)
  ultimately show "be_nat (drop i (nat_be k n)) = be_nat (nat_be (k - i) n)"
    by (simp add: be_nat_nat_be mod_mod_cancel)
qed

lemma be_nat_replicate_0 [simp]: "be_nat (replicate k 0 @ bs) = be_nat bs"
  by (induction k) (simp_all add: be_nat_Cons)

lemma be_nat_replicate_ff: "be_nat (replicate k 255) = 256 ^ k - 1"
proof (induction k)
  case (Suc k)
  have "(256 :: nat) ^ k \<ge> 1" by simp
  then show ?case using Suc by (simp add: be_nat_Cons)
qed simp

section \<open>Fixed-width integers\<close>

definition size_of :: "'a::len word \<Rightarrow> nat" where
  "size_of w = LENGTH('a) div 8"

definition to_be_bytes :: "'a::len word \<Rightarrow> bytes" where
  "to_be_bytes w = nat_be (size_of w) (unat w)"

definition from_be_bytes :: "bytes \<Rightarrow> 'a::len word" where
  "from_be_bytes bs = word_of_nat (be_nat bs)"

definition to_le_bytes :: "'a::len word \<Rightarrow> bytes" where
  "to_le_bytes w = rev (to_be_bytes w)"

definition from_le_bytes :: "bytes \<Rightarrow> 'a::len word" where
  "from_le_bytes bs = from_be_bytes (rev bs)"

lemma length_to_be_bytes [simp]: "length (to_be_bytes w) = size_of w"
  by (simp add: to_be_bytes_def)

lemma length_to_le_bytes [simp]: "length (to_le_bytes w) = size_of w"
  by (simp add: to_le_bytes_def)

lemma pow_256_length: "8 dvd n \<Longrightarrow> (256 :: nat) ^ (n div 8) = 2 ^ n"
  using power_mult [of "2 :: nat" 8] by auto

lemma from_to_be_bytes:
  fixes w :: "'a::len word"
  assumes "8 dvd LENGTH('a)"
  shows "from_be_bytes (to_be_bytes w) = w"
proof -
  from assms have "(256 :: nat) ^ (LENGTH('a) div 8) = 2 ^ LENGTH('a)"
    by (rule pow_256_length)
  then have "be_nat (to_be_bytes w) = unat w"
    by (simp add: to_be_bytes_def size_of_def be_nat_nat_be)
  then show ?thesis by (simp add: from_be_bytes_def)
qed

lemma from_to_le_bytes:
  fixes w :: "'a::len word"
  shows "8 dvd LENGTH('a) \<Longrightarrow> from_le_bytes (to_le_bytes w) = w"
  by (simp add: from_le_bytes_def to_le_bytes_def from_to_be_bytes)

section \<open>The number of significant bytes\<close>

fun bit_len :: "nat \<Rightarrow> nat" where
  "bit_len n = (if n = 0 then 0 else Suc (bit_len (n div 2)))"

declare bit_len.simps [simp del]

lemma bit_len_eval [simp]:
  "bit_len 0 = 0" "bit_len (Suc 0) = Suc 0" "bit_len (numeral k) = Suc (bit_len (numeral k div 2))"
  by (simp_all add: bit_len.simps [of 0] bit_len.simps [of "Suc 0"] bit_len.simps [of "numeral k"])

definition leading_zeros :: "'a::len word \<Rightarrow> nat" where
  "leading_zeros w = LENGTH('a) - bit_len (unat w)"

lemma bit_len_le: "bit_len n \<le> k \<longleftrightarrow> n < 2 ^ k"
proof (induction n arbitrary: k rule: bit_len.induct)
  case (1 n)
  show ?case
  proof (cases "n = 0 \<or> k = 0")
    case True
    then show ?thesis by (subst bit_len.simps) auto
  next
    case False
    then obtain j where "k = Suc j" by (cases k) auto
    with False "1" [of j] show ?thesis by (subst bit_len.simps) auto
  qed
qed

definition byte_len :: "nat \<Rightarrow> nat" where
  "byte_len n = (bit_len n + 7) div 8"

lemma byte_len_le: "byte_len n \<le> k \<longleftrightarrow> n < 256 ^ k"
proof -
  have "byte_len n \<le> k \<longleftrightarrow> bit_len n \<le> 8 * k"
    unfolding byte_len_def by arith
  then show ?thesis by (simp add: bit_len_le power_mult)
qed

lemma less_byte_len: "n < 256 ^ byte_len n"
  using byte_len_le [of n "byte_len n"] by simp

lemma byte_len_ge: "k < byte_len n \<Longrightarrow> 256 ^ k \<le> n"
  using byte_len_le [of n k] by linarith

lemma byte_len_0 [simp]: "byte_len n = 0 \<longleftrightarrow> n = 0"
  using byte_len_le [of n 0] by simp

lemma byte_len_mono: "m \<le> n \<Longrightarrow> byte_len m \<le> byte_len n"
  using less_byte_len [of n] by (simp add: byte_len_le)

lemma unat_le_256_size:
  fixes w :: "'a::len word"
  assumes "8 dvd LENGTH('a)"
  shows "unat w < 256 ^ size_of w"
proof -
  from assms have "(256 :: nat) ^ (LENGTH('a) div 8) = 2 ^ LENGTH('a)"
    by (rule pow_256_length)
  then show ?thesis by (simp add: size_of_def)
qed

text \<open>
  \<^verbatim>\<open>SZ - leading_zeros / 8\<close>, the length the tuple codes use, is the least number of
  bytes that hold the value.
\<close>

lemma significant_bytes:
  fixes w :: "'a::len word"
  assumes "8 dvd LENGTH('a)"
  shows "size_of w - leading_zeros w div 8 = byte_len (unat w)"
proof -
  have "bit_len (unat w) \<le> LENGTH('a)"
    by (simp add: bit_len_le)
  moreover obtain s where "LENGTH('a) = 8 * s"
    using assms by (auto simp: dvd_def)
  ultimately show ?thesis
    unfolding size_of_def leading_zeros_def byte_len_def by simp
qed

end
