(* ===== verification/Tuple_Codes.thy ===== *)
theory Tuple_Codes
  imports Big_Endian
begin

text \<open>
  The base of the tuple layer (\<^verbatim>\<open>foundationdb-tuple/src/lib.rs\<close> and the first part of
  \<^verbatim>\<open>pack.rs\<close>): type codes, errors, the accounting of incomplete versionstamps, and the
  primitive readers and writers.  A packer is a function that returns the bytes it writes to
  the output together with its \<^verbatim>\<open>VersionstampOffset\<close>; an unpacker takes the input and
  returns what is left of it together with the value.  Sizes and offsets are \<^verbatim>\<open>u32\<close> words and
  wrap, as they do in a release build.  Whether bytes are borrowed or owned
  (\<^verbatim>\<open>Cow\<close>) makes no difference to the value and is not represented.
\<close>

section \<open>Type codes, errors, offsets\<close>

definition NIL :: byte where "NIL = 0x00"
definition BYTES :: byte where "BYTES = 0x01"
definition STRING :: byte where "STRING = 0x02"
definition NESTED :: byte where "NESTED = 0x05"
definition NEGINTSTART :: byte where "NEGINTSTART = 0x0b"
definition INTZERO :: byte where "INTZERO = 0x14"
definition POSINTEND :: byte where "POSINTEND = 0x1d"
definition FLOAT :: byte where "FLOAT = 0x20"
definition DOUBLE :: byte where "DOUBLE = 0x21"
definition FALSE :: byte where "FALSE = 0x26"
definition TRUE :: byte where "TRUE = 0x27"
definition UUID :: byte where "UUID = 0x30"
definition VERSIONSTAMP :: byte where "VERSIONSTAMP = 0x33"
definition ESCAPE :: byte where "ESCAPE = 0xff"

lemmas code_defs = NIL_def BYTES_def STRING_def NESTED_def NEGINTSTART_def INTZERO_def
  POSINTEND_def FLOAT_def DOUBLE_def FALSE_def TRUE_def UUID_def VERSIONSTAMP_def ESCAPE_def

datatype io_error = InvalidData | InvalidInput

datatype pack_error =
    Message string
  | IoError io_error
  | TrailingBytes
  | MissingBytes
  | BadStringFormat
  | BadCode byte "byte option"
  | BadPrefix
  | BadUuid
  | UnsupportedIntLength

type_synonym depth = nat

text \<open>\<^verbatim>\<open>VersionstampOffset\<close> and its two \<^verbatim>\<open>AddAssign\<close> instances.\<close>

datatype versionstamp_offset = VNone u32 | OneIncomplete u32 | MultipleIncomplete

fun add_size :: "versionstamp_offset \<Rightarrow> u32 \<Rightarrow> versionstamp_offset" where
  "add_size (VNone sz) r = VNone (sz + r)"
| "add_size v r = v"

fun add_offset :: "versionstamp_offset \<Rightarrow> versionstamp_offset \<Rightarrow> versionstamp_offset" where
  "add_offset (VNone sz) (VNone r) = VNone (sz + r)"
| "add_offset (VNone sz) (OneIncomplete offset) = OneIncomplete (sz + offset)"
| "add_offset (OneIncomplete _) (OneIncomplete _) = MultipleIncomplete"
| "add_offset (VNone _) MultipleIncomplete = MultipleIncomplete"
| "add_offset (OneIncomplete _) MultipleIncomplete = MultipleIncomplete"
| "add_offset v _ = v"

lemma add_offset_assoc: "add_offset (add_offset a b) c = add_offset a (add_offset b c)"
  by (cases a; cases b; cases c) (simp_all add: add.assoc)

lemma add_offset_0 [simp]: "add_offset (VNone 0) v = v" "add_offset v (VNone 0) = v"
  by (cases v; auto)+

lemma add_size_eq: "add_size v r = add_offset v (VNone r)"
  by (cases v) auto

text \<open>\<^verbatim>\<open>append_key_offset\<close>; \<open>None\<close> is a panic.\<close>

definition append_key_offset :: "versionstamp_offset \<Rightarrow> bytes \<Rightarrow> int \<Rightarrow> bytes option" where
  "append_key_offset v output api_version =
     (case v of
        OneIncomplete offset \<Rightarrow>
          if api_version < 520
          then (if unat offset < 2 ^ 16
                then Some (output @ to_le_bytes (ucast offset :: u16)) else None)
          else Some (output @ to_le_bytes offset)
      | MultipleIncomplete \<Rightarrow> None
      | VNone _ \<Rightarrow> Some output)"

type_synonym packed = "io_error + bytes \<times> versionstamp_offset"
type_synonym 'a packer = "depth \<Rightarrow> 'a \<Rightarrow> packed"
type_synonym 'a unpacker = "depth \<Rightarrow> bytes \<Rightarrow> pack_error + bytes \<times> 'a"

section \<open>Primitive readers\<close>

definition parse_bytes :: "bytes \<Rightarrow> nat \<Rightarrow> pack_error + bytes \<times> bytes" where
  "parse_bytes input num =
     (if length input < num then Inl MissingBytes else Inr (drop num input, take num input))"

definition parse_byte :: "bytes \<Rightarrow> pack_error + bytes \<times> byte" where
  "parse_byte input = (case input of [] \<Rightarrow> Inl MissingBytes | b # rest \<Rightarrow> Inr (rest, b))"

definition parse_code :: "bytes \<Rightarrow> byte \<Rightarrow> pack_error + bytes" where
  "parse_code input expected =
     bind_result (parse_byte input) (\<lambda>(input, found).
       if found = expected then Inr input else Inl (BadCode found (Some expected)))"

lemma parse_byte_Cons [simp]: "parse_byte (b # bs) = Inr (bs, b)"
  by (simp add: parse_byte_def)

lemma parse_byte_eq_Inr: "parse_byte input = Inr (rest, b) \<longleftrightarrow> input = b # rest"
  by (cases input) (auto simp: parse_byte_def)

lemma parse_code_Cons [simp]: "parse_code (c # bs) c = Inr bs"
  by (simp add: parse_code_def)

lemma parse_code_eq_Inr: "parse_code input c = Inr rest \<longleftrightarrow> input = c # rest"
  by (auto simp: parse_code_def bind_result_eq_Inr parse_byte_eq_Inr split: if_splits)

lemma parse_bytes_append [simp]: "length bs = n \<Longrightarrow> parse_bytes (bs @ rest) n = Inr (rest, bs)"
  by (simp add: parse_bytes_def)

lemma parse_bytes_eq_Inr:
  "parse_bytes input n = Inr (rest, bs) \<longleftrightarrow> input = bs @ rest \<and> length bs = n"
  by (auto simp: parse_bytes_def)

section \<open>Byte strings with their zero bytes escaped\<close>

text \<open>\<^verbatim>\<open>memchr_iter(b, v)\<close>: the positions of \<^verbatim>\<open>b\<close> in \<^verbatim>\<open>v\<close>, in ascending order.\<close>

fun memchr_from :: "nat \<Rightarrow> byte \<Rightarrow> bytes \<Rightarrow> nat list" where
  "memchr_from i b [] = []"
| "memchr_from i b (x # xs) =
     (if x = b then i # memchr_from (Suc i) b xs else memchr_from (Suc i) b xs)"

definition memchr_iter :: "byte \<Rightarrow> bytes \<Rightarrow> nat list" where
  "memchr_iter b v = memchr_from 0 b v"

definition slice :: "bytes \<Rightarrow> nat \<Rightarrow> nat \<Rightarrow> bytes" where
  "slice v i j = take (j - i) (drop i v)"

text \<open>The loop of \<^verbatim>\<open>write_bytes\<close> over the positions: (\<open>pos\<close>, \<open>sz\<close>, written so far).\<close>

fun write_bytes_loop :: "bytes \<Rightarrow> nat list \<Rightarrow> nat \<Rightarrow> u32 \<Rightarrow> bytes \<Rightarrow> nat \<times> u32 \<times> bytes" where
  "write_bytes_loop v [] pos sz w = (pos, sz, w)"
| "write_bytes_loop v (idx # idxs) pos sz w =
     (let next_idx = idx + 1
      in write_bytes_loop v idxs next_idx (sz + 1) (w @ slice v pos next_idx @ [ESCAPE]))"

definition write_bytes :: "bytes \<Rightarrow> packed" where
  "write_bytes v =
     (if length v < 2 ^ 32
      then let (pos, sz, w) = write_bytes_loop v (memchr_iter NIL v) 0 (of_nat (length v)) []
           in Inr (w @ drop pos v @ [NIL], VNone (sz + 2))
      else Inl InvalidData)"

text \<open>The loop of \<^verbatim>\<open>parse_slice\<close>.\<close>

fun parse_slice_loop ::
    "bytes \<Rightarrow> nat list \<Rightarrow> nat \<Rightarrow> bytes \<Rightarrow> pack_error + bytes \<times> bytes" where
  "parse_slice_loop input [] pos bytes = Inl MissingBytes"
| "parse_slice_loop input (idx # idxs) pos bytes =
     (let next_idx = idx + 1
      in if next_idx < length input \<and> input ! next_idx = ESCAPE
         then parse_slice_loop input idxs (next_idx + 1) (bytes @ slice input pos next_idx)
         else let sl = slice input pos idx
              in Inr (drop next_idx input, if pos = 0 then sl else bytes @ sl))"

definition parse_slice :: "bytes \<Rightarrow> pack_error + bytes \<times> bytes" where
  "parse_slice input = parse_slice_loop input (memchr_iter NIL input) 0 []"

text \<open>What the two loops compute, by recursion on the string.\<close>

definition escape :: "bytes \<Rightarrow> bytes" where
  "escape v = concat (map (\<lambda>b. if b = NIL then [NIL, ESCAPE] else [b]) v)"

fun unescape :: "bytes \<Rightarrow> pack_error + bytes \<times> bytes" where
  "unescape [] = Inl MissingBytes"
| "unescape (b # rest) =
     (if b = NIL
      then (case rest of
              e # rest' \<Rightarrow>
                if e = ESCAPE
                then bind_result (unescape rest') (\<lambda>(r, bs). Inr (r, NIL # bs))
                else Inr (rest, [])
            | [] \<Rightarrow> Inr (rest, []))
      else bind_result (unescape rest) (\<lambda>(r, bs). Inr (r, b # bs)))"

lemma escape_simps [simp]:
  "escape [] = []"
  "escape (b # v) = (if b = NIL then NIL # ESCAPE # escape v else b # escape v)"
  by (simp_all add: escape_def)

lemma escape_append: "escape (u @ v) = escape u @ escape v"
  by (simp add: escape_def)

lemma slice_snoc:
  "pos \<le> j \<Longrightarrow> drop j v = b # zs \<Longrightarrow> slice v pos (Suc j) = slice v pos j @ [b]"
proof -
  assume pos: "pos \<le> j" and dj: "drop j v = b # zs"
  then have j: "j < length v" by (metis drop_all list.distinct(1) not_le)
  with dj have "v ! j = b" by (metis nth_via_drop)
  with pos j show ?thesis
    by (simp add: slice_def Suc_diff_le take_Suc_conv_app_nth)
qed

lemma slice_same [simp]: "slice v i i = []"
  by (simp add: slice_def)

lemma drop_Suc_Cons: "drop j v = b # zs \<Longrightarrow> drop (Suc j) v = zs"
  by (metis drop_Suc list.sel(3) tl_drop)

lemma write_bytes_loop_spec:
  assumes "drop j v = zs" and "pos \<le> j"
  shows "\<exists>pos' w'. write_bytes_loop v (memchr_from j NIL zs) pos sz w =
           (pos', sz + of_nat (count_list zs NIL), w') \<and>
         w' @ drop pos' v = w @ slice v pos j @ escape zs"
  using assms
proof (induction zs arbitrary: j pos sz w)
  case Nil
  then show ?case by (simp add: slice_def)
next
  case (Cons b zs)
  have d: "drop (Suc j) v = zs" using Cons.prems(1) by (rule drop_Suc_Cons)
  show ?case
  proof (cases "b = NIL")
    case True
    then show ?thesis
      using Cons.IH [OF d order_refl, of "sz + 1" "w @ slice v pos (Suc j) @ [ESCAPE]"] Cons.prems
      by (auto simp: Let_def slice_snoc add.assoc)
  next
    case False
    then show ?thesis
      using Cons.IH [OF d, of pos sz w] Cons.prems
      by (auto simp: slice_snoc)
  qed
qed

lemma length_escape: "length (escape v) = length v + count_list v NIL"
  by (induction v) auto

lemma write_bytes_eq:
  "write_bytes v =
     (if length v < 2 ^ 32
      then Inr (escape v @ [NIL], VNone (of_nat (length (escape v) + 2)))
      else Inl InvalidData)"
proof -
  obtain pos' w' where "write_bytes_loop v (memchr_from 0 NIL v) 0 (of_nat (length v)) [] =
      (pos', of_nat (length v) + of_nat (count_list v NIL), w')" and "w' @ drop pos' v = escape v"
    using write_bytes_loop_spec [of 0 v v 0 "of_nat (length v)" "[]"] by auto
  then show ?thesis
    by (simp add: write_bytes_def memchr_iter_def length_escape append_assoc [symmetric]
        del: append_assoc)
qed

lemma parse_slice_loop_spec:
  assumes "drop j input = zs" and "pos \<le> j" and "pos = 0 \<longrightarrow> bytes = []"
  shows "parse_slice_loop input (memchr_from j NIL zs) pos bytes =
           bind_result (unescape zs) (\<lambda>(r, bs). Inr (r, bytes @ slice input pos j @ bs))"
  using assms
proof (induction zs arbitrary: j pos bytes rule: unescape.induct)
  case 1
  then show ?case by simp
next
  case (2 b rest)
  have d: "drop (Suc j) input = rest" using "2.prems"(1) by (rule drop_Suc_Cons)
  show ?case
  proof (cases "b = NIL")
    case False
    with "2.IH"(2) [OF False d] "2.prems" show ?thesis
      by (simp add: slice_snoc bind_result_assoc case_prod_beta)
  next
    case nil: True
    show ?thesis
    proof (cases "\<exists>rest'. rest = ESCAPE # rest'")
      case True
      then obtain rest' where r: "rest = ESCAPE # rest'" ..
      have d2: "drop (Suc (Suc j)) input = rest'" using d r by (metis drop_Suc_Cons)
      have "Suc j < length input" using d r by (metis drop_all list.distinct(1) not_le)
      moreover have "input ! Suc j = ESCAPE" using d r by (metis nth_via_drop)
      moreover have "memchr_from (Suc j) NIL rest = memchr_from (Suc (Suc j)) NIL rest'"
        using r by (simp add: code_defs)
      ultimately show ?thesis
        using "2.IH"(1) [OF nil r refl d2, of "Suc (Suc j)"] nil r "2.prems"
        by (simp add: Let_def slice_snoc bind_result_assoc case_prod_beta)
    next
      case False
      then have "\<not> (Suc j < length input \<and> input ! Suc j = ESCAPE)"
        using d by (metis Cons_nth_drop_Suc)
      with False nil d "2.prems" show ?thesis
        by (auto simp: Let_def split: list.splits)
    qed
  qed
qed

lemma parse_slice_eq: "parse_slice input = unescape input"
  using parse_slice_loop_spec [of 0 input input 0 "[]"]
  by (cases "unescape input") (auto simp: parse_slice_def memchr_iter_def)

text \<open>A string can be followed by anything that does not start with the escape byte.\<close>

definition no_escape :: "bytes \<Rightarrow> bool" where
  "no_escape rest \<longleftrightarrow> (case rest of [] \<Rightarrow> True | b # _ \<Rightarrow> b \<noteq> ESCAPE)"

lemma no_escape_simps [simp]:
  "no_escape []"
  "no_escape (b # bs) \<longleftrightarrow> b \<noteq> ESCAPE"
  by (simp_all add: no_escape_def)

lemma unescape_escape:
  "no_escape rest \<Longrightarrow> unescape (escape v @ NIL # rest) = Inr (rest, v)"
  by (induction v) (auto split: list.splits)

lemma unescape_Inr_iff:
  "unescape input = Inr (rest, v) \<longleftrightarrow> input = escape v @ NIL # rest \<and> no_escape rest"
proof
  show "unescape input = Inr (rest, v) \<Longrightarrow> input = escape v @ NIL # rest \<and> no_escape rest"
    by (induction input arbitrary: rest v rule: unescape.induct)
      (fastforce simp: bind_result_eq_Inr split: if_splits list.splits)+
qed (auto simp: unescape_escape)

lemma unescape_Inl_iff:
  "unescape input = Inl e \<longleftrightarrow>
     e = MissingBytes \<and> \<not> (\<exists>v rest. input = escape v @ NIL # rest \<and> no_escape rest)"
proof -
  have "unescape input = Inl e \<Longrightarrow> e = MissingBytes" for e
    by (induction input rule: unescape.induct)
      (auto simp: bind_result_def split: if_splits list.splits sum.splits)
  then show ?thesis
    by (cases "unescape input") (auto simp flip: unescape_Inr_iff)
qed

lemma unescape_shrinks: "unescape input = Inr (rest, v) \<Longrightarrow> length rest < length input"
  by (induction input arbitrary: rest v rule: unescape.induct)
    (fastforce simp: bind_result_eq_Inr split: if_splits list.splits)+

section \<open>Strings\<close>

text \<open>
  A \<^verbatim>\<open>str\<close> is its UTF-8 bytes.  \<^verbatim>\<open>str::from_utf8\<close> accepts the well-formed
  sequences of the Unicode standard: no overlong form, no surrogate, nothing above U+10FFFF.
\<close>

definition in_range :: "byte \<Rightarrow> byte \<Rightarrow> byte \<Rightarrow> bool" where
  "in_range lo hi b \<longleftrightarrow> lo \<le> b \<and> b \<le> hi"

fun valid_utf8 :: "bytes \<Rightarrow> bool" where
  "valid_utf8 [] = True"
| "valid_utf8 (a # bs) =
     (if a < 0x80 then valid_utf8 bs
      else if in_range 0xc2 0xdf a then
        (case bs of b # cs \<Rightarrow> in_range 0x80 0xbf b \<and> valid_utf8 cs | _ \<Rightarrow> False)
      else if in_range 0xe0 0xef a then
        (case bs of
           b # c # cs \<Rightarrow>
             in_range (if a = 0xe0 then 0xa0 else 0x80) (if a = 0xed then 0x9f else 0xbf) b \<and>
             in_range 0x80 0xbf c \<and> valid_utf8 cs
         | _ \<Rightarrow> False)
      else if in_range 0xf0 0xf4 a then
        (case bs of
           b # c # d # cs \<Rightarrow>
             in_range (if a = 0xf0 then 0x90 else 0x80) (if a = 0xf4 then 0x8f else 0xbf) b \<and>
             in_range 0x80 0xbf c \<and> in_range 0x80 0xbf d \<and> valid_utf8 cs
         | _ \<Rightarrow> False)
      else False)"

definition parse_string :: "bytes \<Rightarrow> pack_error + bytes \<times> bytes" where
  "parse_string input =
     bind_result (parse_slice input) (\<lambda>(input, sl).
       if valid_utf8 sl then Inr (input, sl) else Inl BadStringFormat)"

end
