(* ===== verification/Tuple_Ints.thy ===== *)
theory Tuple_Ints
  imports Tuple_Codes
begin

text \<open>
  Integers in the tuple layer (\<^verbatim>\<open>pack.rs\<close>, the macros \<^verbatim>\<open>impl_ux\<close> and
  \<^verbatim>\<open>impl_ix\<close> with their readers \<^verbatim>\<open>unpack_ux\<close>, \<^verbatim>\<open>unpack_px\<close>,
  \<^verbatim>\<open>unpack_nx\<close>).  The macros are instantiated at every width, so the model is
  polymorphic in the word length: \<open>'a word\<close> is \<^verbatim>\<open>u16\<close> \<dots> \<^verbatim>\<open>u128\<close>, read as signed
  for \<^verbatim>\<open>i16\<close> \<dots> \<^verbatim>\<open>i128\<close>.  All of them write one encoding of the mathematical
  integer, \<open>int_enc\<close>, which is the format of the FoundationDB tuple specification.
\<close>

definition MAX_SZ :: nat where "MAX_SZ = 8"

text \<open>The argument \<^verbatim>\<open>$max_sz\<close> of the macros: the type's size, or \<open>MAX_SZ\<close> for 128 bits.\<close>

definition max_sz_of :: "nat \<Rightarrow> nat" where
  "max_sz_of SZ = (if SZ \<le> MAX_SZ then SZ else MAX_SZ)"

section \<open>Packing\<close>

definition pack_ux :: "depth \<Rightarrow> 'a::len word \<Rightarrow> packed" where
  "pack_ux depth u =
     (let SZ = size_of u;
          n = SZ - leading_zeros u div 8;
          offset = VNone (of_nat n + 1);
          (code, offset) =
            (if SZ \<le> MAX_SZ \<or> n \<le> MAX_SZ then ([INTZERO + of_nat n], offset)
             else ([POSINTEND, of_nat n], add_size offset 1))
      in Inr (code @ drop (SZ - n) (to_be_bytes u), offset))"

definition wrapping_abs :: "'a::len word \<Rightarrow> 'a word" where
  "wrapping_abs i = (if sint i < 0 then - i else i)"

definition pack_ix :: "depth \<Rightarrow> 'a::len word \<Rightarrow> packed" where
  "pack_ix depth i =
     (let SZ = size_of i;
          u = wrapping_abs i;
          n = SZ - leading_zeros u div 8;
          offset = VNone (of_nat n + 1);
          (code, offset, arr) =
            (if 0 \<le> sint i
             then if SZ \<le> MAX_SZ \<or> n \<le> MAX_SZ
                  then ([INTZERO + of_nat n], offset, to_be_bytes u)
                  else ([POSINTEND, of_nat n], add_size offset 1, to_be_bytes u)
             else if SZ \<le> MAX_SZ \<or> n \<le> MAX_SZ
                  then ([INTZERO - of_nat n], offset, to_be_bytes (i - 1))
                  else ([NEGINTSTART, xor (of_nat n) 0xff], add_size offset 1, to_be_bytes (i - 1)))
      in Inr (code @ drop (SZ - n) arr, offset))"

section \<open>Unpacking\<close>

definition read_ux :: "bytes \<Rightarrow> nat \<Rightarrow> pack_error + bytes \<times> 'a::len word" where
  "read_ux input n =
     bind_result (parse_bytes input n) (\<lambda>(input, bytes).
       Inr (input, from_be_bytes (replicate (LENGTH('a) div 8 - n) 0 @ bytes)))"

definition read_px :: "bytes \<Rightarrow> nat \<Rightarrow> pack_error + bytes \<times> 'a::len word" where
  "read_px input n =
     bind_result (parse_bytes input n) (\<lambda>(input, bytes).
       let x = from_be_bytes (replicate (LENGTH('a) div 8 - n) 0 @ bytes) :: 'a word
       in if sint x < 0 then Inl UnsupportedIntLength else Inr (input, x))"

definition read_nx :: "bytes \<Rightarrow> nat \<Rightarrow> pack_error + bytes \<times> 'a::len word" where
  "read_nx input n =
     bind_result (parse_bytes input n) (\<lambda>(input, bytes).
       let x = from_be_bytes (replicate (LENGTH('a) div 8 - n) 0xff @ bytes) + 1 :: 'a word
       in if sint x > 0 then Inl UnsupportedIntLength else Inr (input, x))"

definition unpack_ux :: "depth \<Rightarrow> bytes \<Rightarrow> pack_error + bytes \<times> 'a::len word" where
  "unpack_ux depth input =
     (let SZ = LENGTH('a) div 8; max_sz = max_sz_of SZ
      in bind_result (parse_byte input) (\<lambda>(input, found).
        if INTZERO \<le> found \<and> found \<le> INTZERO + of_nat max_sz
        then read_ux input (unat (found - INTZERO))
        else if found = POSINTEND
        then bind_result (parse_byte input) (\<lambda>(input, raw_length).
               let n = unat raw_length
               in if n > SZ then Inl UnsupportedIntLength else read_ux input n)
        else Inl (BadCode found None)))"

definition unpack_ix :: "depth \<Rightarrow> bytes \<Rightarrow> pack_error + bytes \<times> 'a::len word" where
  "unpack_ix depth input =
     (let SZ = LENGTH('a) div 8; max_sz = max_sz_of SZ
      in bind_result (parse_byte input) (\<lambda>(input, found).
        if INTZERO \<le> found \<and> found \<le> INTZERO + of_nat max_sz
        then read_px input (unat (found - INTZERO))
        else if INTZERO - of_nat max_sz \<le> found \<and> found < INTZERO
        then read_nx input (unat (INTZERO - found))
        else if found = NEGINTSTART
        then bind_result (parse_byte input) (\<lambda>(input, raw_length).
               let n = unat (xor raw_length 0xff)
               in if n > SZ then Inl UnsupportedIntLength else read_nx input n)
        else if found = POSINTEND
        then bind_result (parse_byte input) (\<lambda>(input, raw_length).
               let n = unat raw_length
               in if n > SZ then Inl UnsupportedIntLength else read_px input n)
        else Inl (BadCode found None)))"

section \<open>The encoding of a mathematical integer\<close>

definition int_len :: "int \<Rightarrow> nat" where
  "int_len z = byte_len (nat \<bar>z\<bar>)"

definition int_head :: "int \<Rightarrow> bytes" where
  "int_head z =
     (let n = int_len z
      in if 0 \<le> z
         then (if n \<le> MAX_SZ then [INTZERO + of_nat n] else [POSINTEND, of_nat n])
         else (if n \<le> MAX_SZ then [INTZERO - of_nat n] else [NEGINTSTART, xor (of_nat n) 0xff]))"

definition int_enc :: "int \<Rightarrow> bytes" where
  "int_enc z =
     int_head z @
     nat_be (int_len z) (if 0 \<le> z then nat z else 256 ^ int_len z - 1 - nat (- z))"

lemma int_len_0 [simp]: "int_len z = 0 \<longleftrightarrow> z = 0"
  by (simp add: int_len_def)

lemma int_len_gt_0 [simp]: "0 < int_len z \<longleftrightarrow> z \<noteq> 0"
  using int_len_0 [of z] by linarith

lemma nat_abs_less_int_len: "nat \<bar>z\<bar> < 256 ^ int_len z"
  by (simp add: int_len_def less_byte_len)

subsection \<open>Both packers write it\<close>

definition byte_sized :: "'a::len word \<Rightarrow> bool" where
  "byte_sized w \<longleftrightarrow> 8 dvd LENGTH('a) \<and> LENGTH('a) \<le> 128"

lemma drop_to_be_bytes:
  assumes "n \<le> size_of w"
  shows "drop (size_of w - n) (to_be_bytes w) = nat_be n (unat w)"
  using assms by (simp add: to_be_bytes_def drop_nat_be)

lemma byte_len_le_size_of:
  fixes w :: "'a::len word"
  assumes "8 dvd LENGTH('a)"
  shows "byte_len (unat w) \<le> size_of w"
  using unat_le_256_size [OF assms, of w] by (simp add: byte_len_le)

lemma pack_ux_eq:
  fixes u :: "'a::len word"
  assumes "byte_sized u"
  shows "pack_ux d u = Inr (int_enc (uint u), VNone (of_nat (length (int_enc (uint u)))))"
proof -
  have d: "8 dvd LENGTH('a)" using assms by (simp add: byte_sized_def)
  have n: "size_of u - leading_zeros u div 8 = byte_len (unat u)"
    using d by (rule significant_bytes)
  have le: "byte_len (unat u) \<le> size_of u"
    using d by (rule byte_len_le_size_of)
  have len: "int_len (uint u) = byte_len (unat u)"
    by (simp add: int_len_def)
  show ?thesis
    using le by (auto simp: pack_ux_def n Let_def int_enc_def int_head_def len
        drop_to_be_bytes unat_eq_nat_uint [symmetric] not_le)
qed

lemma unat_word_of_int:
  "0 \<le> z \<Longrightarrow> z < 2 ^ LENGTH('a) \<Longrightarrow> unat (word_of_int z :: 'a::len word) = nat z"
  by (simp add: unsigned_of_int take_bit_int_eq_self)

lemma double_half: "(2 :: int) ^ LENGTH('a::len) = 2 * 2 ^ (LENGTH('a) - 1)"
  by (metis One_nat_def Suc_pred len_gt_0 power_Suc)

lemma abs_sint_le:
  fixes i :: "'a::len word"
  shows "\<bar>sint i\<bar> \<le> 2 ^ (LENGTH('a) - 1)"
  using sint_greater_eq [of i] sint_less [of i] by simp

lemma half_less: "(2 :: int) ^ (LENGTH('a::len) - 1) < 2 ^ LENGTH('a)"
  by (rule power_strict_increasing) auto

lemma unat_wrapping_abs:
  fixes i :: "'a::len word"
  shows "unat (wrapping_abs i) = nat \<bar>sint i\<bar>"
proof -
  have "wrapping_abs i = word_of_int \<bar>sint i\<bar>"
    by (simp add: wrapping_abs_def word_of_int_minus [symmetric])
  moreover have "\<bar>sint i\<bar> < 2 ^ LENGTH('a)"
    using abs_sint_le [of i] half_less [where 'a = 'a] by linarith
  ultimately show ?thesis by (simp add: unat_word_of_int)
qed

lemma unat_minus_1_neg:
  fixes i :: "'a::len word"
  assumes "sint i < 0"
  shows "unat (i - 1) = 2 ^ LENGTH('a) - 1 - nat (- sint i)"
proof -
  have le: "- sint i \<le> 2 ^ (LENGTH('a) - 1)" "2 ^ (LENGTH('a) - 1) < (2 :: int) ^ LENGTH('a)"
    using abs_sint_le [of i] half_less [where 'a = 'a] assms by auto
  have "unat (i - 1) = unat (word_of_int (sint i - 1 + 2 ^ LENGTH('a)) :: 'a word)"
    by simp
  also have "\<dots> = nat (sint i - 1 + 2 ^ LENGTH('a))"
    using order_le_less_trans [OF le] assms by (intro unat_word_of_int) simp_all
  also have "sint i - 1 + 2 ^ LENGTH('a) = int (2 ^ LENGTH('a) - 1 - nat (- sint i))"
  proof -
    have "Suc (nat (- sint i)) \<le> 2 ^ LENGTH('a)"
      using order_le_less_trans [OF le] by (simp add: nat_less_iff Suc_le_eq)
    from of_nat_diff [OF this, where 'a = int] assms show ?thesis by simp
  qed
  also have "nat (int (2 ^ LENGTH('a) - 1 - nat (- sint i))) = 2 ^ LENGTH('a) - 1 - nat (- sint i)"
    by (rule nat_int)
  finally show ?thesis .
qed

text \<open>The low bytes of the complement.\<close>

lemma nat_be_complement:
  assumes "n \<le> k" and "a < 256 ^ n"
  shows "nat_be n (256 ^ k - 1 - a) = nat_be n (256 ^ n - 1 - a)"
proof -
  obtain q :: nat where q: "256 ^ k = 256 ^ n * Suc q"
    using assms(1) by (metis le_imp_power_dvd dvd_def mult_0_right nat.exhaust power_not_zero
        zero_neq_numeral)
  then have "256 ^ k - 1 - a = q * 256 ^ n + (256 ^ n - 1 - a)"
    using assms(2) by (simp add: mult.commute)
  then show ?thesis
    by (metis mod_mult_self3 nat_be_mod)
qed

lemma pack_ix_eq:
  fixes i :: "'a::len word"
  assumes "byte_sized i"
  shows "pack_ix d i = Inr (int_enc (sint i), VNone (of_nat (length (int_enc (sint i)))))"
proof -
  have d: "8 dvd LENGTH('a)" using assms by (simp add: byte_sized_def)
  have n: "size_of i - leading_zeros (wrapping_abs i) div 8 = int_len (sint i)"
    using significant_bytes [OF d, of "wrapping_abs i"]
    by (simp add: unat_wrapping_abs int_len_def size_of_def)
  have le: "int_len (sint i) \<le> size_of i"
    using byte_len_le_size_of [OF d, of "wrapping_abs i"]
    by (simp add: unat_wrapping_abs int_len_def size_of_def)
  have pos: "drop (size_of i - int_len (sint i)) (to_be_bytes (wrapping_abs i)) =
      nat_be (int_len (sint i)) (nat \<bar>sint i\<bar>)"
    using drop_to_be_bytes [of "int_len (sint i)" "wrapping_abs i"] le
    by (simp add: unat_wrapping_abs size_of_def)
  have neg: "drop (size_of i - int_len (sint i)) (to_be_bytes (i - 1)) =
      nat_be (int_len (sint i)) (256 ^ int_len (sint i) - 1 - nat (- sint i))" if "sint i < 0"
  proof -
    have "nat (- sint i) < 256 ^ int_len (sint i)"
      using nat_abs_less_int_len [of "sint i"] that by simp
    moreover have "unat (i - 1) = 256 ^ size_of i - 1 - nat (- sint i)"
      using unat_minus_1_neg [OF that] pow_256_length [OF d] by (simp add: size_of_def)
    ultimately show ?thesis
      using drop_to_be_bytes [of "int_len (sint i)" "i - 1"] le
        nat_be_complement [of "int_len (sint i)" "size_of i" "nat (- sint i)"]
      by (simp add: size_of_def)
  qed
  show ?thesis
    using le pos neg by (auto simp: pack_ix_def n Let_def int_enc_def int_head_def not_le)
qed

subsection \<open>Both unpackers read it\<close>

lemma unat_codes:
  "n \<le> 8 \<Longrightarrow> unat (INTZERO + of_nat n) = 20 + n"
  "n \<le> 8 \<Longrightarrow> unat (INTZERO - of_nat n) = 20 - n"
  "n < 256 \<Longrightarrow> unat (of_nat n :: byte) = n"
  by (simp_all add: INTZERO_def unat_word_ariths unat_of_nat unat_sub_if')

lemmas code_nums = INTZERO_def [THEN arg_cong [where f = unat], simplified]
  POSINTEND_def [THEN arg_cong [where f = unat], simplified]
  NEGINTSTART_def [THEN arg_cong [where f = unat], simplified]

lemmas code_order = word_le_nat_alt word_less_nat_alt word_unat_eq_iff unat_codes code_nums

lemma max_sz_le [simp]: "max_sz_of SZ \<le> 8" "max_sz_of SZ \<le> SZ" "\<not> 9 \<le> max_sz_of SZ"
  "\<not> 20 - max_sz_of SZ \<le> 11"
  by (auto simp: max_sz_of_def MAX_SZ_def)

lemma code_sub:
  "n \<le> 8 \<Longrightarrow> m \<le> 8 \<Longrightarrow> (20 :: nat) - m \<le> 20 - n \<longleftrightarrow> n \<le> m"
  "n \<le> 8 \<Longrightarrow> (20 :: nat) - n \<noteq> 11"
  "n \<le> 8 \<Longrightarrow> (20 :: nat) - n \<noteq> 29"
  "0 < n \<Longrightarrow> \<not> (20 :: nat) \<le> 20 - n"
  "0 < n \<Longrightarrow> (20 :: nat) - n < 20"
  by arith+

lemma code_minus:
  "n \<le> 8 \<Longrightarrow> unat (INTZERO + of_nat n - INTZERO) = n"
  "n \<le> 8 \<Longrightarrow> unat (INTZERO - (INTZERO - of_nat n)) = n"
  by (simp_all add: unat_of_nat)

lemma xor_ff [simp]: "xor (xor b 0xff) (0xff :: byte) = b"
  by (simp add: ac_simps flip: xor.assoc)

lemma read_ux_nat_be:
  assumes "m < 256 ^ n"
  shows "read_ux (nat_be n m @ rest) n = Inr (rest, of_nat m :: 'a::len word)"
  using assms by (simp add: read_ux_def from_be_bytes_def be_nat_nat_be)

text \<open>Reading a number in the range of the unsigned type as a signed one.\<close>

lemma sint_word_of_int_cases:
  assumes "- (2 ^ LENGTH('a)) < z" and "z < 2 ^ LENGTH('a)"
  shows "sint (word_of_int z :: 'a::len word) =
    (if z < - (2 ^ (LENGTH('a) - 1)) then z + 2 ^ LENGTH('a)
     else if z < 2 ^ (LENGTH('a) - 1) then z else z - 2 ^ LENGTH('a))"
proof -
  define h :: int where "h = 2 ^ (LENGTH('a) - Suc 0)"
  have L: "(2 :: int) ^ LENGTH('a) = 2 * h" and "0 < h"
    using double_half [where 'a = 'a] by (simp_all add: h_def)
  have "sint (word_of_int z :: 'a word) = (z + h) mod (2 * h) - h"
    by (simp only: int_word_sint L) (simp add: h_def)
  moreover have "(z + h) mod (2 * h) =
      (if z < - h then z + h + 2 * h else if z < h then z + h else z + h - 2 * h)"
  proof -
    have eq: "x mod (2 * h) = x + 2 * h" if "- (2 * h) \<le> x" "x < 0" for x
      using that \<open>0 < h\<close> mod_pos_pos_trivial [of "x + 2 * h" "2 * h"] by simp
    have eq': "x mod (2 * h) = x - 2 * h" if "2 * h \<le> x" "x < 4 * h" for x
      using that \<open>0 < h\<close> mod_pos_pos_trivial [of "x - 2 * h" "2 * h"]
        minus_mod_self2 [of x "2 * h"] by simp
    show ?thesis
      using assms \<open>0 < h\<close> by (simp add: L eq eq')
  qed
  ultimately show ?thesis by (simp add: L h_def [symmetric])
qed

lemma from_be_bytes_nat_be:
  assumes "m < 256 ^ n"
  shows "from_be_bytes (replicate k 0 @ nat_be n m) = (of_nat m :: 'a::len word)"
  using assms by (simp add: from_be_bytes_def be_nat_nat_be)

lemma read_px_nat_be:
  assumes "m < 256 ^ n" and "m < 2 ^ LENGTH('a::len)"
  shows "read_px (nat_be n m @ rest) n =
    (if m < 2 ^ (LENGTH('a) - 1) then Inr (rest, of_nat m :: 'a word) else Inl UnsupportedIntLength)"
proof -
  have "int m < 2 ^ LENGTH('a)" using assms(2) by (metis of_nat_less_iff of_nat_numeral of_nat_power)
  moreover have "- (2 ^ LENGTH('a)) < int m" "\<not> int m < - (2 ^ (LENGTH('a) - 1))"
    by (smt (verit) of_nat_0_le_iff zero_less_power)+
  ultimately have "sint (of_nat m :: 'a word) < 0 \<longleftrightarrow> \<not> m < 2 ^ (LENGTH('a) - 1)"
    using sint_word_of_int_cases [where 'a = 'a, of "int m"]
    by (simp add: of_nat_less_iff [symmetric] del: of_nat_less_iff)
  then show ?thesis
    using assms(1) by (simp add: read_px_def from_be_bytes_nat_be)
qed

lemma read_nx_nat_be:
  assumes "a < 256 ^ n" and "n \<le> LENGTH('a::len) div 8" and "8 dvd LENGTH('a)"
  shows "read_nx (nat_be n (256 ^ n - 1 - a) @ rest) n =
    (if a \<le> 2 ^ (LENGTH('a) - 1) then Inr (rest, word_of_int (- int a) :: 'a word)
     else Inl UnsupportedIntLength)"
proof -
  let ?SZ = "LENGTH('a) div 8"
  have pow: "(256 :: nat) ^ ?SZ = 2 ^ LENGTH('a)" using assms(3) by (rule pow_256_length)
  have split: "(256 :: nat) ^ ?SZ = 256 ^ (?SZ - n) * 256 ^ n"
    using assms(2) by (simp add: power_add [symmetric])
  have le: "256 ^ n \<le> (256 :: nat) ^ ?SZ" using assms(2) by (rule power_increasing) simp
  have "be_nat (replicate (?SZ - n) 255 @ nat_be n (256 ^ n - 1 - a)) =
      (256 ^ (?SZ - n) - 1) * 256 ^ n + (256 ^ n - 1 - a)"
    using assms(1) by (simp add: be_nat_append be_nat_replicate_ff be_nat_nat_be)
  also have "\<dots> = 2 ^ LENGTH('a) - Suc a"
    using assms(1) le by (simp add: pow [symmetric] split diff_mult_distrib)
  finally have "from_be_bytes (replicate (?SZ - n) 255 @ nat_be n (256 ^ n - 1 - a)) + 1 =
      (of_nat (2 ^ LENGTH('a) - Suc a) + 1 :: 'a word)"
    by (simp add: from_be_bytes_def)
  also have "\<dots> = word_of_int (- int a)"
    using assms(1) le by (subst of_nat_diff) (simp_all add: pow)
  finally have x: "from_be_bytes (replicate (?SZ - n) 255 @ nat_be n (256 ^ n - 1 - a)) + 1 =
      (word_of_int (- int a) :: 'a word)" .
  have "a < 2 ^ LENGTH('a)" using assms(1) le pow by linarith
  then have "int a < 2 ^ LENGTH('a)"
    by (metis of_nat_less_iff of_nat_numeral of_nat_power)
  moreover have neg: "- int a < 2 ^ k" for k
    by (rule order_le_less_trans [of _ 0]) simp_all
  ultimately have "0 < sint (word_of_int (- int a) :: 'a word) \<longleftrightarrow> 2 ^ (LENGTH('a) - 1) < int a"
    using neg by (subst sint_word_of_int_cases) auto
  also have "\<dots> \<longleftrightarrow> \<not> a \<le> 2 ^ (LENGTH('a) - 1)"
    by (metis not_le of_nat_less_iff of_nat_numeral of_nat_power)
  finally show ?thesis using x by (simp add: read_nx_def)
qed

lemma int_len_le_iff: "int_len z \<le> k \<longleftrightarrow> \<bar>z\<bar> < 256 ^ k"
  by (simp add: int_len_def byte_len_le nat_less_iff)

text \<open>The header of an encoded integer, as the readers take it apart.\<close>

lemma int_head_cases:
  assumes "int_len z < 256"
  obtains (small_pos) "0 \<le> z" "int_len z \<le> 8" "int_head z = [INTZERO + of_nat (int_len z)]"
  | (big_pos) "0 \<le> z" "8 < int_len z" "int_head z = [POSINTEND, of_nat (int_len z)]"
  | (small_neg) "z < 0" "0 < int_len z" "int_len z \<le> 8"
      "int_head z = [INTZERO - of_nat (int_len z)]"
  | (big_neg) "z < 0" "8 < int_len z" "int_head z = [NEGINTSTART, xor (of_nat (int_len z)) 0xff]"
  using that by (cases "0 \<le> z"; cases "int_len z \<le> 8")
    (auto simp: int_head_def Let_def MAX_SZ_def not_le)

lemma int_len_le_size:
  assumes "8 dvd n" and "\<bar>z\<bar> < 2 ^ n"
  shows "int_len z \<le> n div 8"
proof -
  have "(2 :: int) ^ n = 256 ^ (n div 8)"
    using pow_256_length [OF assms(1)] by (metis of_nat_numeral of_nat_power)
  with assms(2) show ?thesis by (simp add: int_len_le_iff)
qed

lemma int_len_gt_size:
  assumes "8 dvd n" and "2 ^ n \<le> \<bar>z\<bar>"
  shows "n div 8 < int_len z"
proof -
  have "(2 :: int) ^ n = 256 ^ (n div 8)"
    using pow_256_length [OF assms(1)] by (metis of_nat_numeral of_nat_power)
  with assms(2) show ?thesis using int_len_le_iff [of z "n div 8"] by linarith
qed

lemma max_sz_of_cases: "n \<le> 8 \<Longrightarrow> n \<le> max_sz_of SZ \<longleftrightarrow> n \<le> SZ"
  by (auto simp: max_sz_of_def MAX_SZ_def)

lemma unpack_ux_int_enc:
  assumes dvd: "8 dvd LENGTH('a::len)" and len: "int_len z < 256"
  shows "0 \<le> z \<Longrightarrow> z < 2 ^ LENGTH('a) \<Longrightarrow>
      unpack_ux d (int_enc z @ rest) = Inr (rest, word_of_int z :: 'a word)"
    and "z < 0 \<or> 2 ^ LENGTH('a) \<le> z \<Longrightarrow>
      \<exists>e. (unpack_ux d (int_enc z @ rest) :: pack_error + bytes \<times> 'a word) = Inl e"
proof -
  have rd: "read_ux (nat_be (int_len z) (nat z) @ rest) (int_len z) = Inr (rest, word_of_int z :: 'a word)"
    if "0 \<le> z"
    using read_ux_nat_be [of "nat z" "int_len z" rest] that nat_abs_less_int_len [of z] by simp
  have m: "max_sz_of (LENGTH('a) div 8) \<le> 8" by simp
  show "unpack_ux d (int_enc z @ rest) = Inr (rest, word_of_int z :: 'a word)"
    if "0 \<le> z" "z < 2 ^ LENGTH('a)"
    using len
  proof (cases rule: int_head_cases)
    case small_pos
    then show ?thesis using that int_len_le_size [OF dvd, of z] m
      by (simp add: unpack_ux_def int_enc_def rd code_order code_sub code_minus
          max_sz_of_cases Let_def)
  next
    case big_pos
    then show ?thesis using that int_len_le_size [OF dvd, of z] m len
      by (simp add: unpack_ux_def int_enc_def rd code_order code_sub max_sz_of_cases Let_def)
  qed (use that in simp_all)
  show "\<exists>e. (unpack_ux d (int_enc z @ rest) :: pack_error + bytes \<times> 'a word) = Inl e"
    if "z < 0 \<or> 2 ^ LENGTH('a) \<le> z"
    using len
  proof (cases rule: int_head_cases)
    case small_pos
    then show ?thesis using that int_len_gt_size [OF dvd, of z] m
      by (auto simp: unpack_ux_def int_enc_def code_order code_sub max_sz_of_cases Let_def)
  next
    case big_pos
    then show ?thesis using that int_len_gt_size [OF dvd, of z] m len
      by (auto simp: unpack_ux_def int_enc_def code_order code_sub Let_def)
  next
    case small_neg
    then show ?thesis using m by (auto simp: unpack_ux_def int_enc_def code_order code_sub Let_def)
  next
    case big_neg
    then show ?thesis using m by (auto simp: unpack_ux_def int_enc_def code_order code_sub Let_def)
  qed
qed

lemma unpack_ix_int_enc:
  assumes dvd: "8 dvd LENGTH('a::len)" and len: "int_len z < 256"
  shows "- (2 ^ (LENGTH('a) - 1)) \<le> z \<Longrightarrow> z < 2 ^ (LENGTH('a) - 1) \<Longrightarrow>
      unpack_ix d (int_enc z @ rest) = Inr (rest, word_of_int z :: 'a word)"
    and "z < - (2 ^ (LENGTH('a) - 1)) \<or> 2 ^ (LENGTH('a) - 1) \<le> z \<Longrightarrow>
      \<exists>e. (unpack_ix d (int_enc z @ rest) :: pack_error + bytes \<times> 'a word) = Inl e"
proof -
  let ?read = "unpack_ix d (int_enc z @ rest) :: pack_error + bytes \<times> 'a word"
  let ?half = "2 ^ (LENGTH('a) - 1) :: int"
  have m: "max_sz_of (LENGTH('a) div 8) \<le> 8" by simp
  have eq: "?read = (if - ?half \<le> z \<and> z < ?half then Inr (rest, word_of_int z)
      else Inl UnsupportedIntLength)" if small: "\<bar>z\<bar> < 2 ^ LENGTH('a)"
  proof -
    have le: "int_len z \<le> LENGTH('a) div 8" using dvd small by (rule int_len_le_size)
    have rp: "read_px (nat_be (int_len z) (nat z) @ rest) (int_len z) =
        (if z < ?half then Inr (rest, word_of_int z :: 'a word) else Inl UnsupportedIntLength)"
      if "0 \<le> z"
      using read_px_nat_be [where 'a = 'a, of "nat z" "int_len z" rest] that small
        nat_abs_less_int_len [of z] by (simp add: nat_less_iff)
    have rn: "read_nx (nat_be (int_len z) (256 ^ int_len z - 1 - nat (- z)) @ rest) (int_len z) =
        (if - ?half \<le> z then Inr (rest, word_of_int z :: 'a word) else Inl UnsupportedIntLength)"
      if "z < 0"
      using read_nx_nat_be [where 'a = 'a, of "nat (- z)" "int_len z" rest, OF _ le dvd] that
        nat_abs_less_int_len [of z] by (simp add: nat_le_iff)
    have neg: "- ?half \<le> z" if "0 \<le> z" using that by (rule order_trans [rotated]) simp
    have pos: "z < ?half" if "z < 0" using that by (rule less_trans) simp
    show ?thesis
      using len
    proof (cases rule: int_head_cases)
      case small_pos
      then show ?thesis using rp neg le m
        by (simp add: unpack_ix_def int_enc_def code_order code_sub code_minus max_sz_of_cases Let_def)
    next
      case big_pos
      then show ?thesis using rp neg le m len
        by (simp add: unpack_ix_def int_enc_def code_order code_sub Let_def)
    next
      case small_neg
      then show ?thesis using rn pos le m
        by (simp add: unpack_ix_def int_enc_def code_order code_sub code_minus max_sz_of_cases Let_def)
    next
      case big_neg
      then show ?thesis using rn pos le m len
        by (simp add: unpack_ix_def int_enc_def code_order code_sub Let_def)
    qed
  qed
  have half: "?half < 2 ^ LENGTH('a)" by (rule half_less)
  show "?read = Inr (rest, word_of_int z)" if "- ?half \<le> z" "z < ?half"
    using eq that half by (simp add: abs_less_iff)
  show "\<exists>e. ?read = Inl e" if out: "z < - ?half \<or> ?half \<le> z"
  proof (cases "\<bar>z\<bar> < 2 ^ LENGTH('a)")
    case True
    then show ?thesis using eq out by auto
  next
    case False
    then have gt: "LENGTH('a) div 8 < int_len z"
      using dvd by (intro int_len_gt_size) auto
    show ?thesis
      using len
      by (cases rule: int_head_cases)
        (use gt m len in \<open>auto simp: unpack_ix_def int_enc_def code_order code_sub max_sz_of_cases Let_def\<close>)
  qed
qed

section \<open>The encoding keeps the order\<close>

lemma unat_xor_ff: "unat (xor b (0xff :: byte)) = 255 - unat b"
proof -
  have ff: "(0xff :: byte) = - 1" by simp
  have "xor b (0xff :: byte) = - 1 - b"
    unfolding ff by (simp add: not_eq_complement)
  moreover have "unat (- 1 - b) = unat (- 1 :: byte) - unat b"
    by (rule unat_sub) simp
  moreover have "unat (- 1 :: byte) = 255" unfolding ff [symmetric] by simp
  ultimately show ?thesis by simp
qed

lemma int_head_less:
  assumes "z < z'" and "int_len z < 256" and "int_len z' < 256"
    and "z < 0 \<longrightarrow> z' < 0 \<longrightarrow> int_len z' < int_len z"
    and "0 \<le> z \<longrightarrow> 0 \<le> z' \<longrightarrow> int_len z < int_len z'"
  shows "int_head z @ us < int_head z' @ vs"
  using assms(2)
proof (cases rule: int_head_cases)
  case small_pos
  with assms(3) show ?thesis
    by (cases rule: int_head_cases) (use small_pos assms in \<open>simp_all add: code_order\<close>)
next
  case big_pos
  with assms(3) show ?thesis
    by (cases rule: int_head_cases) (use big_pos assms in \<open>simp_all add: code_order\<close>)
next
  case small_neg
  with assms(3) show ?thesis
    by (cases rule: int_head_cases)
      (use small_neg assms in \<open>simp_all add: code_order unat_xor_ff, linarith+\<close>)
next
  case big_neg
  with assms(3) show ?thesis
    by (cases rule: int_head_cases)
      (use big_neg assms in \<open>simp_all add: code_order unat_xor_ff, linarith+\<close>)
qed

lemma int_len_mono: "\<bar>z\<bar> \<le> \<bar>z'\<bar> \<Longrightarrow> int_len z \<le> int_len z'"
  by (simp add: int_len_def byte_len_mono nat_mono)

lemma int_enc_less:
  assumes less: "z < z'" and len: "int_len z < 256" "int_len z' < 256"
  shows "int_enc z @ us < int_enc z' @ vs"
proof (cases "(0 \<le> z \<longleftrightarrow> 0 \<le> z') \<and> int_len z = int_len z'")
  case True
  define n where "n = int_len z"
  have n: "n = int_len z'" using True n_def by simp
  have bounds: "nat \<bar>z\<bar> < 256 ^ n" "nat \<bar>z'\<bar> < 256 ^ n"
    using nat_abs_less_int_len [of z] nat_abs_less_int_len [of z'] n n_def by auto
  have heads: "int_head z = int_head z'"
    using True by (simp add: int_head_def Let_def)
  have "nat_be n (if 0 \<le> z then nat z else 256 ^ n - 1 - nat (- z)) <
      nat_be n (if 0 \<le> z' then nat z' else 256 ^ n - 1 - nat (- z'))"
  proof (cases "0 \<le> z")
    case pos: True
    then show ?thesis using True less bounds by (simp add: nat_be_less_iff)
  next
    case neg: False
    have lt: "nat (- z') < nat (- z)" using neg True less by simp
    moreover have "nat (- z) < 256 ^ n" using bounds neg by simp
    ultimately have "256 ^ n - 1 - nat (- z) < 256 ^ n - 1 - nat (- z')" by linarith
    then show ?thesis using neg True by (simp add: nat_be_less_iff)
  qed
  then show ?thesis
    unfolding int_enc_def n [symmetric] n_def [symmetric] heads append_assoc less_append_cancel
    by (rule less_same_length_append [rotated]) simp
next
  case False
  have "int_len z' \<le> int_len z" if "z' < 0" using that less by (intro int_len_mono) auto
  then have "z < 0 \<longrightarrow> z' < 0 \<longrightarrow> int_len z' < int_len z" using False by force
  moreover have "int_len z \<le> int_len z'" if "0 \<le> z" using that less by (intro int_len_mono) auto
  then have "0 \<le> z \<longrightarrow> 0 \<le> z' \<longrightarrow> int_len z < int_len z'" using False by force
  ultimately show ?thesis
    unfolding int_enc_def append_assoc by (rule int_head_less [OF less len])
qed

lemma hd_int_enc:
  assumes "int_len z < 256"
  shows "int_enc z \<noteq> []" and "hd (int_enc z) \<in> {NEGINTSTART..POSINTEND}"
proof -
  from assms have "int_head z \<noteq> [] \<and> 11 \<le> unat (hd (int_head z)) \<and> unat (hd (int_head z)) \<le> 29"
    by (cases rule: int_head_cases) (simp_all add: code_order, linarith?)
  then show "int_enc z \<noteq> []" and "hd (int_enc z) \<in> {NEGINTSTART..POSINTEND}"
    by (simp_all add: int_enc_def code_order)
qed

end
