(* ===== verification/Tuple_Scalars.thy ===== *)
theory Tuple_Scalars
  imports Tuple_Ints
begin

text \<open>
  The remaining scalar types of the tuple layer: floating-point numbers (\<^verbatim>\<open>impl_fx\<close>),
  booleans, byte strings and strings, versionstamps (\<^verbatim>\<open>versionstamp.rs\<close> and their codec
  in \<^verbatim>\<open>pack.rs\<close>), UUIDs, the unit and \<^verbatim>\<open>Option\<close>.  A float is its bit pattern
  (\<^verbatim>\<open>to_bits\<close>); a UUID is its sixteen bytes.
\<close>

section \<open>Floating-point numbers\<close>

definition sign_bit :: "'a::len word" where
  "sign_bit = push_bit (LENGTH('a) - 1) 1"

definition is_sign_negative :: "'a::len word \<Rightarrow> bool" where
  "is_sign_negative f = bit f (LENGTH('a) - 1)"

text \<open>\<^verbatim>\<open>f32_to_u32_be_bytes\<close> and \<^verbatim>\<open>f64_to_u64_be_bytes\<close>.\<close>

definition fx_to_ux :: "'a::len word \<Rightarrow> 'a word" where
  "fx_to_ux f = (if is_sign_negative f then xor f (- 1) else xor f sign_bit)"

definition fx_to_ux_be_bytes :: "'a::len word \<Rightarrow> bytes" where
  "fx_to_ux_be_bytes f = to_be_bytes (fx_to_ux f)"

definition pack_fx :: "byte \<Rightarrow> depth \<Rightarrow> 'a::len word \<Rightarrow> packed" where
  "pack_fx code depth f =
     Inr (code # fx_to_ux_be_bytes f, VNone (of_nat (size_of f) + 1))"

definition parse_ux :: "bytes \<Rightarrow> pack_error + bytes \<times> 'a::len word" where
  "parse_ux input =
     bind_result (parse_bytes input (LENGTH('a) div 8)) (\<lambda>(input, bytes).
       Inr (input, from_be_bytes bytes))"

definition ux_to_fx :: "'a::len word \<Rightarrow> 'a word" where
  "ux_to_fx u = (if and u sign_bit = 0 then xor u (- 1) else xor u sign_bit)"

definition unpack_fx :: "byte \<Rightarrow> depth \<Rightarrow> bytes \<Rightarrow> pack_error + bytes \<times> 'a::len word" where
  "unpack_fx code depth input =
     bind_result (parse_code input code) (\<lambda>input.
     bind_result (parse_ux input) (\<lambda>(input, u). Inr (input, ux_to_fx u)))"

lemma bit_sign_bit: "bit (sign_bit :: 'a::len word) n \<longleftrightarrow> n = LENGTH('a) - 1"
  by (auto simp: sign_bit_def bit_push_bit_iff bit_1_iff simp del: push_bit_of_1)

lemma and_sign_bit_eq_0: "and u sign_bit = 0 \<longleftrightarrow> \<not> bit (u :: 'a::len word) (LENGTH('a) - 1)"
  by (simp add: sign_bit_def and_exp_eq_0_iff_not_bit)

lemma xor_same [simp]: "xor (xor a b) b = (a :: 'a::len word)"
  by (simp add: xor.assoc)

lemma bit_fx_to_ux:
  fixes f :: "'a::len word"
  assumes "n < LENGTH('a)"
  shows "bit (fx_to_ux f) n \<longleftrightarrow>
    (if bit f (LENGTH('a) - 1) then \<not> bit f n else bit f n \<noteq> (n = LENGTH('a) - 1))"
  using assms by (simp add: fx_to_ux_def is_sign_negative_def bit_xor_iff bit_sign_bit bit_not_iff)

lemma ux_to_fx_inverse [simp]: "ux_to_fx (fx_to_ux f) = f"
  by (rule bit_word_eqI)
    (auto simp: ux_to_fx_def and_sign_bit_eq_0 bit_fx_to_ux bit_xor_iff bit_sign_bit bit_not_iff)

lemma unpack_pack_fx:
  assumes "8 dvd LENGTH('a::len)" and "pack_fx c d (f :: 'a word) = Inr (bs, off)"
  shows "unpack_fx c d' (bs @ rest) = Inr (rest, f)"
  using assms from_to_be_bytes [OF assms(1), of "fx_to_ux f"]
  by (auto simp: pack_fx_def unpack_fx_def parse_ux_def fx_to_ux_be_bytes_def size_of_def)

text \<open>
  The IEEE total order of two bit patterns: negative numbers below positive ones, magnitudes
  reversed among the negative.
\<close>

definition total_order_key :: "'a::len word \<Rightarrow> int" where
  "total_order_key f =
     (if is_sign_negative f then - int (unat (take_bit (LENGTH('a) - 1) f)) - 1
      else int (unat (take_bit (LENGTH('a) - 1) f)))"

lemma to_be_bytes_less_iff:
  fixes a b :: "'a::len word"
  assumes "8 dvd LENGTH('a)"
  shows "to_be_bytes a < to_be_bytes b \<longleftrightarrow> a < b"
  using unat_le_256_size [OF assms, of a] unat_le_256_size [OF assms, of b]
  by (simp add: to_be_bytes_def nat_be_less_iff word_less_nat_alt size_of_def)

lemma unat_split_top:
  fixes w :: "'a::len word"
  shows "unat w = of_bool (bit w (LENGTH('a) - 1)) * 2 ^ (LENGTH('a) - 1) +
    unat (take_bit (LENGTH('a) - 1) w)"
proof -
  obtain n where n: "LENGTH('a) = Suc n" by (metis Suc_pred len_gt_0)
  have "unat w = take_bit (Suc n) (unat w)"
    by (simp add: n [symmetric] take_bit_nat_eq_self)
  also have "\<dots> = of_bool (bit (unat w) n) * 2 ^ n + take_bit n (unat w)"
    by (simp add: take_bit_Suc_from_most add.commute)
  finally show ?thesis
    by (simp add: n unsigned_take_bit_eq bit_unsigned_iff)
qed

lemma unat_not_word: "unat (not (w :: 'a::len word)) = 2 ^ LENGTH('a) - 1 - unat w"
proof -
  have "unat (- 1 - w) = unat (- 1 :: 'a word) - unat w" by (rule unat_sub) simp
  moreover have "unat (- 1 :: 'a word) = 2 ^ LENGTH('a) - 1"
    by (simp add: unsigned_minus_1_eq_mask mask_eq_exp_minus_1)
  moreover have "not w = - 1 - w" by (simp add: not_eq_complement)
  ultimately show ?thesis by (simp only:)
qed

lemma unat_fx_to_ux:
  fixes f :: "'a::len word"
  shows "int (unat (fx_to_ux f)) = total_order_key f + 2 ^ (LENGTH('a) - 1)"
proof -
  obtain n where n: "LENGTH('a) = Suc n" by (metis Suc_pred len_gt_0)
  have low: "unat (take_bit n f) < 2 ^ n"
    by (simp add: unsigned_take_bit_eq)
  show ?thesis
  proof (cases "bit f n")
    case True
    then have "fx_to_ux f = not f" by (simp add: fx_to_ux_def is_sign_negative_def n)
    then have "unat (fx_to_ux f) = 2 ^ n - 1 - unat (take_bit n f)"
      using unat_not_word [of f] unat_split_top [of f] True by (simp add: n)
    then show ?thesis
      using low True by (simp add: total_order_key_def is_sign_negative_def n of_nat_diff Suc_le_eq)
  next
    case False
    then have "take_bit n (fx_to_ux f) = take_bit n f"
      by (intro bit_word_eqI) (auto simp: bit_take_bit_iff bit_fx_to_ux n)
    moreover have "bit (fx_to_ux f) n" using False by (simp add: bit_fx_to_ux n)
    ultimately show ?thesis
      using unat_split_top [of "fx_to_ux f"] False
      by (simp add: total_order_key_def is_sign_negative_def n)
  qed
qed

lemma fx_bytes_less_iff:
  fixes f g :: "'a::len word"
  assumes "8 dvd LENGTH('a)"
  shows "fx_to_ux_be_bytes f < fx_to_ux_be_bytes g \<longleftrightarrow> total_order_key f < total_order_key g"
proof -
  have "fx_to_ux_be_bytes f < fx_to_ux_be_bytes g \<longleftrightarrow> unat (fx_to_ux f) < unat (fx_to_ux g)"
    using assms by (simp add: fx_to_ux_be_bytes_def to_be_bytes_less_iff word_less_nat_alt)
  also have "\<dots> \<longleftrightarrow> int (unat (fx_to_ux f)) < int (unat (fx_to_ux g))"
    by (rule of_nat_less_iff [symmetric])
  finally show ?thesis by (simp only: unat_fx_to_ux add_less_cancel_right)
qed

section \<open>Booleans, byte strings and strings\<close>

definition pack_bool :: "bool packer" where
  "pack_bool depth b = Inr ([if b then TRUE else FALSE], VNone 1)"

definition unpack_bool :: "bool unpacker" where
  "unpack_bool depth input =
     bind_result (parse_byte input) (\<lambda>(input, v).
       if v = FALSE then Inr (input, False)
       else if v = TRUE then Inr (input, True)
       else Inl (Message ''not a valid bool value''))"

definition prefix_packed :: "bytes \<Rightarrow> packed \<Rightarrow> packed" where
  "prefix_packed w r = bind_result r (\<lambda>(bs, offset). Inr (w @ bs, offset))"

definition pack_bytes :: "bytes packer" where
  "pack_bytes depth v = prefix_packed [BYTES] (write_bytes v)"

definition unpack_bytes :: "bytes unpacker" where
  "unpack_bytes depth input =
     bind_result (parse_code input BYTES) (\<lambda>input. parse_slice input)"

definition pack_str :: "bytes packer" where
  "pack_str depth v = prefix_packed [STRING] (write_bytes v)"

definition unpack_str :: "bytes unpacker" where
  "unpack_str depth input =
     bind_result (parse_code input STRING) (\<lambda>input. parse_string input)"

lemma pack_bytes_eq:
  "pack_bytes d v = (if length v < 2 ^ 32
     then Inr (BYTES # escape v @ [NIL], VNone (of_nat (length (BYTES # escape v @ [NIL]))))
     else Inl InvalidData)"
  by (simp add: pack_bytes_def prefix_packed_def write_bytes_eq)

lemma pack_str_eq:
  "pack_str d v = (if length v < 2 ^ 32
     then Inr (STRING # escape v @ [NIL], VNone (of_nat (length (STRING # escape v @ [NIL]))))
     else Inl InvalidData)"
  by (simp add: pack_str_def prefix_packed_def write_bytes_eq)

lemma unpack_pack_bytes:
  "pack_bytes d v = Inr (bs, off) \<Longrightarrow> no_escape rest \<Longrightarrow> unpack_bytes d' (bs @ rest) = Inr (rest, v)"
  by (auto simp: pack_bytes_eq unpack_bytes_def parse_slice_eq unescape_escape split: if_splits)

lemma unpack_pack_str:
  "pack_str d v = Inr (bs, off) \<Longrightarrow> no_escape rest \<Longrightarrow> valid_utf8 v \<Longrightarrow>
   unpack_str d' (bs @ rest) = Inr (rest, v)"
  by (auto simp: pack_str_eq unpack_str_def parse_string_def parse_slice_eq unescape_escape
      split: if_splits)

text \<open>Escaping keeps the lexicographic order, whatever follows the terminators.\<close>

lemma escape_less:
  assumes "u < v" and "no_escape us" and "no_escape vs"
  shows "escape u @ NIL # us < escape v @ NIL # vs"
  using assms(1)
proof (induction u arbitrary: v)
  case Nil
  then obtain b v' where v: "v = b # v'" by (cases v) auto
  show ?case
  proof (cases "b = NIL")
    case True
    have "us < ESCAPE # escape v' @ NIL # vs"
      using assms(2) by (cases us) (auto simp: ESCAPE_def byte_less_ff)
    with True show ?thesis by (simp add: v)
  next
    case False
    then have "NIL < b" by (simp add: NIL_def word_neq_0_conv)
    with False show ?thesis by (simp add: v)
  qed
next
  case (Cons a u)
  then obtain b v' where v: "v = b # v'" by (cases v) auto
  show ?case
  proof (cases "a = b")
    case True
    with Cons v have "escape u @ NIL # us < escape v' @ NIL # vs" by simp
    with True show ?thesis by (simp add: v)
  next
    case False
    with Cons.prems v have "a < b" by simp
    then show ?thesis by (auto simp: v NIL_def word_neq_0_conv)
  qed
qed

section \<open>Versionstamps and UUIDs\<close>

record versionstamp =
  vs_bytes :: bytes

definition incomplete :: "u16 \<Rightarrow> versionstamp" where
  "incomplete user_version = \<lparr>vs_bytes = replicate 10 0xff @ to_be_bytes user_version\<rparr>"

definition complete :: "bytes \<Rightarrow> u16 \<Rightarrow> versionstamp" where
  "complete tr_version user_version = \<lparr>vs_bytes = tr_version @ to_be_bytes user_version\<rparr>"

definition transaction_version :: "versionstamp \<Rightarrow> bytes" where
  "transaction_version v = take 10 (vs_bytes v)"

definition user_version :: "versionstamp \<Rightarrow> u16" where
  "user_version v = from_be_bytes (take 2 (drop 10 (vs_bytes v)))"

definition is_complete :: "versionstamp \<Rightarrow> bool" where
  "is_complete v \<longleftrightarrow> take 10 (vs_bytes v) \<noteq> replicate 10 0xff"

text \<open>The field is an array of twelve bytes.\<close>

definition wf_versionstamp :: "versionstamp \<Rightarrow> bool" where
  "wf_versionstamp v \<longleftrightarrow> length (vs_bytes v) = 12"

definition pack_versionstamp :: "versionstamp packer" where
  "pack_versionstamp depth v =
     Inr (VERSIONSTAMP # vs_bytes v, if is_complete v then VNone (1 + 12) else OneIncomplete 1)"

definition unpack_versionstamp :: "versionstamp unpacker" where
  "unpack_versionstamp depth input =
     bind_result (parse_code input VERSIONSTAMP) (\<lambda>input.
     bind_result (parse_bytes input 12) (\<lambda>(input, bs). Inr (input, \<lparr>vs_bytes = bs\<rparr>)))"

definition pack_uuid :: "bytes packer" where
  "pack_uuid depth u = Inr (UUID # u, VNone (1 + 16))"

text \<open>\<^verbatim>\<open>Uuid::from_slice\<close> accepts exactly sixteen bytes.\<close>

definition unpack_uuid :: "bytes unpacker" where
  "unpack_uuid depth input =
     bind_result (parse_code input UUID) (\<lambda>input.
     bind_result (parse_bytes input 16) (\<lambda>(input, sl).
       if length sl = 16 then Inr (input, sl) else Inl BadUuid))"

lemma size_of_16 [simp]: "size_of (w :: 16 word) = 2"
  by (simp add: size_of_def)

lemma wf_incomplete [simp]: "wf_versionstamp (incomplete u)"
  by (simp add: wf_versionstamp_def incomplete_def)

lemma wf_complete [simp]: "wf_versionstamp (complete t u) \<longleftrightarrow> length t = 10"
  by (simp add: wf_versionstamp_def complete_def)

lemma not_complete_incomplete [simp]: "\<not> is_complete (incomplete u)"
  by (simp add: is_complete_def incomplete_def)

lemma transaction_version_complete [simp]:
  "length t = 10 \<Longrightarrow> transaction_version (complete t u) = t"
  by (simp add: transaction_version_def complete_def)

lemma user_version_complete [simp]: "length t = 10 \<Longrightarrow> user_version (complete t u) = u"
  using from_to_be_bytes [of u] by (simp add: user_version_def complete_def)

lemma user_version_incomplete [simp]: "user_version (incomplete u) = u"
  using from_to_be_bytes [of u] by (simp add: user_version_def incomplete_def)

lemma versionstamp_eta:
  assumes "wf_versionstamp v"
  shows "v = (if is_complete v then complete (transaction_version v) (user_version v)
              else incomplete (user_version v))"
proof -
  have "to_be_bytes (user_version v) = drop 10 (vs_bytes v)"
    using assms nat_be_be_nat [of "drop 10 (vs_bytes v)"] be_nat_less [of "drop 10 (vs_bytes v)"]
    by (simp add: user_version_def from_be_bytes_def to_be_bytes_def wf_versionstamp_def
        unat_of_nat)
  then show ?thesis
    by (cases v) (auto simp: is_complete_def incomplete_def complete_def transaction_version_def,
        metis append_take_drop_id)
qed

lemma unpack_pack_versionstamp:
  "pack_versionstamp d v = Inr (bs, off) \<Longrightarrow> wf_versionstamp v \<Longrightarrow>
   unpack_versionstamp d' (bs @ rest) = Inr (rest, v)"
  by (auto simp: pack_versionstamp_def unpack_versionstamp_def wf_versionstamp_def)

lemma unpack_pack_uuid:
  "pack_uuid d u = Inr (bs, off) \<Longrightarrow> length u = 16 \<Longrightarrow> unpack_uuid d' (bs @ rest) = Inr (rest, u)"
  by (auto simp: pack_uuid_def unpack_uuid_def)

lemma unpack_pack_bool:
  "pack_bool d b = Inr (bs, off) \<Longrightarrow> unpack_bool d' (bs @ rest) = Inr (rest, b)"
  by (auto simp: pack_bool_def unpack_bool_def code_defs)

section \<open>The unit and \<open>Option\<close>\<close>

definition pack_unit :: "unit packer" where
  "pack_unit depth u = (if depth > 0 then Inr ([NESTED, NIL], VNone 2) else Inr ([], VNone 0))"

definition unpack_unit :: "unit unpacker" where
  "unpack_unit depth input =
     (if depth > 0
      then bind_result (parse_code input NESTED) (\<lambda>input.
           bind_result (parse_code input NIL) (\<lambda>input. Inr (input, ())))
      else Inr (input, ()))"

definition pack_option :: "'a packer \<Rightarrow> 'a option packer" where
  "pack_option pack depth x =
     (case x of
        None \<Rightarrow> if depth > 1 then Inr ([NIL, ESCAPE], VNone 2) else Inr ([NIL], VNone 1)
      | Some v \<Rightarrow> pack depth v)"

definition unpack_option :: "'a unpacker \<Rightarrow> 'a option unpacker" where
  "unpack_option unpack depth input =
     (if input \<noteq> [] \<and> hd input = NIL
      then bind_result (parse_code input NIL) (\<lambda>input.
           bind_result (if depth > 1 then parse_code input ESCAPE else Inr input) (\<lambda>input.
             Inr (input, None)))
      else bind_result (unpack depth input) (\<lambda>(input, v). Inr (input, Some v)))"

lemma unpack_pack_unit: "pack_unit d () = Inr (bs, off) \<Longrightarrow> unpack_unit d (bs @ rest) = Inr (rest, ())"
  by (auto simp: pack_unit_def unpack_unit_def split: if_splits)

end
