(* ===== verification/Tuple_Seq.thy ===== *)
theory Tuple_Seq
  imports Tuple_Scalars
begin

text \<open>
  Sequences in the tuple layer (\<^verbatim>\<open>pack.rs\<close>: the macro \<^verbatim>\<open>tuple_impls\<close>, the
  instances for slices and \<^verbatim>\<open>Vec\<close>, and the entry points of \<^verbatim>\<open>TuplePack\<close> and
  \<^verbatim>\<open>TupleUnpack\<close>).  The locale \<open>codec\<close> is the contract a component type keeps so that
  sequences of it can be packed and unpacked: its encoding is not empty, does not start like an
  end marker, is read back whatever follows, and accounts for its incomplete versionstamps.  What
  sequences need is proved once there and instantiated for every type of the library.
\<close>

section \<open>Accounting for incomplete versionstamps\<close>

text \<open>An incomplete versionstamp of \<open>bs\<close> at position \<open>p\<close>: its code, then ten bytes \<open>0xff\<close>.\<close>

definition stamp_at :: "bytes \<Rightarrow> nat \<Rightarrow> bool" where
  "stamp_at bs p \<longleftrightarrow>
     0 < p \<and> p + 12 \<le> length bs \<and> bs ! (p - 1) = VERSIONSTAMP \<and>
     take 10 (drop p bs) = replicate 10 0xff"

definition offset_of :: "nat \<Rightarrow> nat list \<Rightarrow> versionstamp_offset" where
  "offset_of n ps =
     (case ps of [] \<Rightarrow> VNone (of_nat n) | [p] \<Rightarrow> OneIncomplete (of_nat p) | _ \<Rightarrow> MultipleIncomplete)"

text \<open>
  \<open>off\<close> is what the code should return for an output \<open>bs\<close> with \<open>n\<close> incomplete
  versionstamps: the size, the position of the only one, or the mark that there are several.
\<close>

definition accounts :: "nat \<Rightarrow> bytes \<Rightarrow> versionstamp_offset \<Rightarrow> bool" where
  "accounts n bs off \<longleftrightarrow>
     (\<exists>ps. length ps = n \<and> off = offset_of (length bs) ps \<and> (\<forall>p \<in> set ps. stamp_at bs p))"

lemma add_offset_of:
  "add_offset (offset_of n ps) (offset_of m qs) = offset_of (n + m) (ps @ map ((+) n) qs)"
  by (cases ps; cases qs; cases "tl ps"; cases "tl qs") (auto simp: offset_of_def)

lemma stamp_at_append1: "stamp_at bs p \<Longrightarrow> stamp_at (bs @ cs) p"
  by (auto simp: stamp_at_def nth_append)

lemma stamp_at_append2: "stamp_at cs p \<Longrightarrow> stamp_at (bs @ cs) (length bs + p)"
  by (auto simp: stamp_at_def nth_append)

lemma accounts_append:
  assumes "accounts n bs off" and "accounts m cs off'"
  shows "accounts (n + m) (bs @ cs) (add_offset off off')"
proof -
  obtain ps qs where ps: "length ps = n" "off = offset_of (length bs) ps" "\<forall>p \<in> set ps. stamp_at bs p"
    and qs: "length qs = m" "off' = offset_of (length cs) qs" "\<forall>p \<in> set qs. stamp_at cs p"
    using assms by (auto simp: accounts_def)
  then have "add_offset off off' = offset_of (length (bs @ cs)) (ps @ map ((+) (length bs)) qs)"
    by (simp add: add_offset_of)
  moreover have "\<forall>p \<in> set (ps @ map ((+) (length bs)) qs). stamp_at (bs @ cs) p"
    using ps qs by (auto intro: stamp_at_append1 stamp_at_append2)
  ultimately show ?thesis
    unfolding accounts_def using ps(1) qs(1) by (intro exI [of _ "ps @ map ((+) (length bs)) qs"]) simp
qed

lemma accounts_0: "accounts 0 bs off \<longleftrightarrow> off = VNone (of_nat (length bs))"
  by (auto simp: accounts_def offset_of_def)

lemma accounts_plain [simp]: "accounts 0 bs (VNone (of_nat (length bs)))"
  by (simp add: accounts_0)

section \<open>Packing sequences\<close>

text \<open>The loop \<^verbatim>\<open>for v in self.iter() { offset += v.pack(w, tuple_depth.increment())?; }\<close>,
  unrolled by the macro for tuples; the state is what has been written, and the offset.\<close>

fun pack_items :: "packed list \<Rightarrow> bytes \<Rightarrow> versionstamp_offset \<Rightarrow> packed" where
  "pack_items [] w offset = Inr (w, offset)"
| "pack_items (item # items) w offset =
     bind_result item (\<lambda>(bs, off). pack_items items (w @ bs) (add_offset offset off))"

text \<open>A tuple type is the list of its components, each waiting for the depth.\<close>

definition pack_tuple :: "(depth \<Rightarrow> packed) list packer" where
  "pack_tuple depth items =
     (let offset = VNone 0;
          (w, offset) = (if depth > 0 then ([NESTED], add_size offset 1) else ([], offset))
      in bind_result (pack_items (map (\<lambda>item. item (depth + 1)) items) w offset) (\<lambda>(w, offset).
           if depth > 0 then Inr (w @ [NIL], add_size offset 1) else Inr (w, offset)))"

definition pack_slice :: "'a packer \<Rightarrow> 'a list packer" where
  "pack_slice pack depth vs =
     (let offset = VNone 0;
          (w, offset) = (if depth > 0 then ([NESTED], add_size offset 1) else ([], offset))
      in bind_result (pack_items (map (pack (depth + 1)) vs) w offset) (\<lambda>(w, offset).
           if depth > 0 then Inr (w @ [NIL], add_size offset 1) else Inr (w, offset)))"

lemma pack_slice_tuple: "pack_slice pack d vs = pack_tuple d (map (\<lambda>v d. pack d v) vs)"
  by (simp add: pack_slice_def pack_tuple_def comp_def)

section \<open>Unpacking sequences\<close>

definition is_end_of_tuple :: "bytes \<Rightarrow> bool \<Rightarrow> bool" where
  "is_end_of_tuple input nested =
     (case input of
        [] \<Rightarrow> True
      | b # rest \<Rightarrow>
          if \<not> nested then False
          else if b = NIL then \<not> (\<exists>rest'. rest = ESCAPE # rest')
          else False)"

lemma is_end_of_tuple_code [code]:
  "is_end_of_tuple [] nested = True"
  "is_end_of_tuple (b # rest) nested =
     (nested \<and> b = NIL \<and> (case rest of [] \<Rightarrow> True | e # _ \<Rightarrow> e \<noteq> ESCAPE))"
  by (auto simp: is_end_of_tuple_def split: list.splits)

lemma is_end_of_tuple_simps [simp]:
  "is_end_of_tuple [] nested"
  "\<not> is_end_of_tuple (b # bs) False"
  "is_end_of_tuple (NIL # bs) True \<longleftrightarrow> no_escape bs"
  "b \<noteq> NIL \<Longrightarrow> \<not> is_end_of_tuple (b # bs) True"
  by (auto simp: is_end_of_tuple_def no_escape_def split: list.splits)

lemma NIL_neq_ESCAPE [simp]: "NIL \<noteq> ESCAPE" "ESCAPE \<noteq> NIL"
  by (simp_all add: code_defs)

text \<open>
  The loop of \<^verbatim>\<open>Vec<T>::unpack\<close>.  It stops returning exactly when the component's unpacker
  succeeds without consuming anything, since then the next round sees the same input; that is
  \<open>None\<close>.
\<close>

function unpack_vec_loop ::
    "(bytes \<Rightarrow> pack_error + bytes \<times> 'a) \<Rightarrow> bool \<Rightarrow> bytes \<Rightarrow> 'a list \<Rightarrow>
     (pack_error + bytes \<times> 'a list) option" where
  "unpack_vec_loop unpack nested input vec =
     (if is_end_of_tuple input nested then Some (Inr (input, vec))
      else case unpack input of
             Inl e \<Rightarrow> Some (Inl e)
           | Inr (rem, v) \<Rightarrow>
               if length rem < length input
               then unpack_vec_loop unpack nested rem (vec @ [v]) else None)"
  by pat_completeness auto
termination
  by (relation "measure (\<lambda>(_, _, input, _). length input)") auto

declare unpack_vec_loop.simps [simp del]

definition unpack_vec ::
    "'a unpacker \<Rightarrow> depth \<Rightarrow> bytes \<Rightarrow> (pack_error + bytes \<times> 'a list) option" where
  "unpack_vec unpack depth input =
     (let nested = depth > 0
      in case (if nested then parse_code input NESTED else Inr input) of
           Inl e \<Rightarrow> Some (Inl e)
         | Inr input \<Rightarrow>
             map_option (\<lambda>r. bind_result r (\<lambda>(input, vec).
                 bind_result (if nested then parse_code input NIL else Inr input) (\<lambda>input.
                   Inr (input, vec))))
               (unpack_vec_loop (unpack (depth + 1)) nested input []))"

text \<open>
  The macro's \<^verbatim>\<open>unpack\<close>: \<open>items\<close> reads the components one after the other, every one at
  the incremented depth; \<open>field_last\<close> and \<open>field_cons\<close> build it as the macro does.
\<close>

definition field_last :: "'a unpacker \<Rightarrow> 'a unpacker" where
  "field_last unpack depth input = unpack depth input"

definition field_cons :: "'a unpacker \<Rightarrow> 'b unpacker \<Rightarrow> ('a \<times> 'b) unpacker" where
  "field_cons unpack others depth input =
     bind_result (unpack depth input) (\<lambda>(input, t).
     bind_result (others depth input) (\<lambda>(input, ts). Inr (input, (t, ts))))"

definition unpack_tuple :: "'a unpacker \<Rightarrow> 'a unpacker" where
  "unpack_tuple items depth input =
     bind_result (if depth > 0 then parse_code input NESTED else Inr input) (\<lambda>input.
     bind_result (items (depth + 1) input) (\<lambda>(input, tuple).
     bind_result (if depth > 0 then parse_code input NIL else Inr input) (\<lambda>input.
       Inr (input, tuple))))"

section \<open>Entry points\<close>

text \<open>\<^verbatim>\<open>unpack_root\<close> and the free function \<^verbatim>\<open>unpack\<close>.\<close>

definition unpack_root :: "'a unpacker \<Rightarrow> bytes \<Rightarrow> pack_error + 'a" where
  "unpack_root unpack input =
     bind_result (unpack 0 input) (\<lambda>(input, this).
       if input \<noteq> [] then Inl TrailingBytes else Inr this)"

text \<open>
  The packing entry points work on an output buffer and panic (\<open>None\<close>) on an error of the
  writer, and on several incomplete versionstamps where those are not allowed.
\<close>

definition pack_into_vec :: "'a packer \<Rightarrow> 'a \<Rightarrow> bytes \<Rightarrow> (bytes \<times> versionstamp_offset) option" where
  "pack_into_vec pack v output =
     (case pack 0 v of Inl e \<Rightarrow> None | Inr (bs, offset) \<Rightarrow> Some (output @ bs, offset))"

definition pack_to_vec :: "'a packer \<Rightarrow> 'a \<Rightarrow> bytes option" where
  "pack_to_vec pack v = map_option fst (pack_into_vec pack v [])"

definition pack_into_vec_with_versionstamp ::
    "'a packer \<Rightarrow> 'a \<Rightarrow> bytes \<Rightarrow> (bytes \<times> versionstamp_offset) option" where
  "pack_into_vec_with_versionstamp pack v output =
     (if length output < 2 ^ 32
      then case pack 0 v of
             Inl e \<Rightarrow> None
           | Inr (bs, off) \<Rightarrow>
               let offset = add_offset (VNone (of_nat (length output))) off;
                   output = output @ bs
               in (case offset of
                     OneIncomplete p \<Rightarrow> Some (output @ to_le_bytes p, offset)
                   | _ \<Rightarrow> Some (output, offset))
      else None)"

definition pack_to_vec_with_versionstamp :: "'a packer \<Rightarrow> 'a \<Rightarrow> bytes option" where
  "pack_to_vec_with_versionstamp pack v =
     (case pack_into_vec_with_versionstamp pack v [] of
        None \<Rightarrow> None
      | Some (vec, offset) \<Rightarrow> if offset = MultipleIncomplete then None else Some vec)"

definition pack_into_with_versionstamp :: "'a packer \<Rightarrow> 'a \<Rightarrow> bytes \<Rightarrow> bytes option" where
  "pack_into_with_versionstamp pack v output =
     (case pack_into_vec_with_versionstamp pack v output of
        None \<Rightarrow> None
      | Some (output, offset) \<Rightarrow> if offset = MultipleIncomplete then None else Some output)"

definition pack_with_versionstamp_for_key :: "'a packer \<Rightarrow> 'a \<Rightarrow> int \<Rightarrow> bytes option" where
  "pack_with_versionstamp_for_key pack v api_version =
     (case pack_into_vec pack v [] of
        None \<Rightarrow> None
      | Some (output, offset) \<Rightarrow> append_key_offset offset output api_version)"

section \<open>The contract of a component type\<close>

locale codec =
  fixes pack :: "'a packer" and unpack :: "'a unpacker"
    and wf :: "'a \<Rightarrow> bool" and stamps :: "'a \<Rightarrow> nat"
  assumes item_head: "wf x \<Longrightarrow> pack (Suc d) x = Inr (bs, off) \<Longrightarrow> bs \<noteq> [] \<and> hd bs \<noteq> ESCAPE"
    and item_not_end: "wf x \<Longrightarrow> pack (Suc (Suc d)) x = Inr (bs, off) \<Longrightarrow>
      \<not> is_end_of_tuple (bs @ rest) True"
    and item_read: "wf x \<Longrightarrow> pack (Suc d) x = Inr (bs, off) \<Longrightarrow> no_escape rest \<Longrightarrow>
      unpack (Suc d) (bs @ rest) = Inr (rest, x)"
    and item_accounts: "wf x \<Longrightarrow> pack (Suc d) x = Inr (bs, off) \<Longrightarrow> accounts (stamps x) bs off"
begin

lemma items_read:
  assumes "list_all wf vs"
    and "pack_items (map (pack (Suc d)) vs) w off = Inr (w', off')"
    and "nested \<longrightarrow> 0 < d" and "is_end_of_tuple tail nested" and "no_escape tail"
  shows "\<exists>body. w' = w @ body \<and> no_escape (body @ tail) \<and>
    (\<forall>vec. unpack_vec_loop (unpack (Suc d)) nested (body @ tail) vec = Some (Inr (tail, vec @ vs)))"
  using assms(1,2)
proof (induction vs arbitrary: w off)
  case Nil
  then show ?case using assms(4,5) by (simp add: unpack_vec_loop.simps)
next
  case (Cons v vs)
  then obtain bs o1 where p: "pack (Suc d) v = Inr (bs, o1)"
    and ps: "pack_items (map (pack (Suc d)) vs) (w @ bs) (add_offset off o1) = Inr (w', off')"
    by (auto simp: bind_result_eq_Inr)
  have wfv: "wf v" using Cons.prems by simp
  from Cons.IH [OF _ ps] Cons.prems obtain body where body: "w' = w @ bs @ body"
    "no_escape (body @ tail)"
    "\<And>vec. unpack_vec_loop (unpack (Suc d)) nested (body @ tail) vec = Some (Inr (tail, vec @ vs))"
    by auto
  obtain b bs' where bs: "bs = b # bs'" "b \<noteq> ESCAPE"
    using item_head [OF wfv p] by (cases bs) auto
  have "\<not> is_end_of_tuple (bs @ body @ tail) nested"
  proof (cases nested)
    case True
    then show ?thesis using item_not_end [OF wfv, of "d - 1" bs o1 "body @ tail"] p assms(3) by simp
  next
    case False
    then show ?thesis by (simp add: bs is_end_of_tuple_def)
  qed
  moreover have "unpack (Suc d) (bs @ body @ tail) = Inr (body @ tail, v)"
    using wfv p body(2) by (rule item_read)
  ultimately have "unpack_vec_loop (unpack (Suc d)) nested ((bs @ body) @ tail) vec =
      Some (Inr (tail, vec @ v # vs))" for vec
    using bs by (simp add: unpack_vec_loop.simps [of _ _ "_ # _"] body(3))
  then show ?case using body(1) bs by (intro exI [of _ "bs @ body"]) simp
qed

lemma items_account:
  assumes "list_all wf vs" and "pack_items (map (pack (Suc d)) vs) w off = Inr (w', off')"
    and "accounts n w off"
  shows "accounts (n + sum_list (map stamps vs)) w' off'"
  using assms
proof (induction vs arbitrary: n w off)
  case (Cons v vs)
  then obtain bs o1 where p: "pack (Suc d) v = Inr (bs, o1)"
    and ps: "pack_items (map (pack (Suc d)) vs) (w @ bs) (add_offset off o1) = Inr (w', off')"
    by (auto simp: bind_result_eq_Inr)
  have "accounts (n + stamps v) (w @ bs) (add_offset off o1)"
    using Cons.prems p by (intro accounts_append item_accounts) auto
  from Cons.IH [OF _ ps this] Cons.prems show ?case by (simp add: add.assoc)
qed simp

lemma slice_read:
  assumes "list_all wf vs" and "pack_slice pack d vs = Inr (bs, off)"
    and "if d = 0 then rest = [] else no_escape rest"
  shows "unpack_vec unpack d (bs @ rest) = Some (Inr (rest, vs))"
proof (cases d)
  case 0
  with assms(2) have "pack_items (map (pack (Suc 0)) vs) [] (VNone 0) = Inr (bs, off)"
    by (auto simp: pack_slice_def bind_result_eq_Inr)
  from items_read [OF assms(1) this, of False "[]"] 0 assms(3) show ?thesis
    by (simp add: unpack_vec_def is_end_of_tuple_def)
next
  case (Suc e)
  with assms(2) obtain w off' where "pack_items (map (pack (Suc d)) vs) [NESTED] (VNone 1) = Inr (w, off')"
    and bs: "bs = w @ [NIL]"
    by (auto simp: pack_slice_def bind_result_eq_Inr)
  from items_read [OF assms(1) this(1), of True "NIL # rest"] Suc assms(3) obtain body where
    "w = NESTED # body"
    "unpack_vec_loop (unpack (Suc d)) True (body @ NIL # rest) [] = Some (Inr (NIL # rest, vs))"
    by auto
  with Suc bs show ?thesis by (simp add: unpack_vec_def)
qed

lemma slice_accounts:
  assumes "list_all wf vs" and "pack_slice pack d vs = Inr (bs, off)"
  shows "accounts (sum_list (map stamps vs)) bs off"
proof (cases d)
  case 0
  with assms(2) have "pack_items (map (pack (Suc 0)) vs) [] (VNone 0) = Inr (bs, off)"
    by (auto simp: pack_slice_def bind_result_eq_Inr)
  from items_account [OF assms(1) this, of 0] show ?thesis by (simp add: accounts_0)
next
  case (Suc e)
  with assms(2) obtain w off' where w: "pack_items (map (pack (Suc d)) vs) [NESTED] (VNone 1) = Inr (w, off')"
    and bs: "bs = w @ [NIL]" "off = add_offset off' (VNone (of_nat (length [NIL])))"
    by (auto simp: pack_slice_def bind_result_eq_Inr add_size_eq)
  have "accounts (sum_list (map stamps vs)) w off'"
    using items_account [OF assms(1) w, of 0] by (simp add: accounts_0)
  from accounts_append [OF this accounts_plain [of "[NIL]"]] bs show ?thesis by simp
qed

lemma slice_head:
  assumes "pack_slice pack (Suc d) vs = Inr (bs, off)" and "list_all wf vs"
  shows "\<exists>bs'. bs = NESTED # bs'"
proof -
  from assms(1) obtain w off' where
    w: "pack_items (map (pack (Suc (Suc d))) vs) [NESTED] (VNone 1) = Inr (w, off')" "bs = w @ [NIL]"
    by (auto simp: pack_slice_def bind_result_eq_Inr)
  from items_read [OF assms(2) w(1), of False "[]"] w(2) show ?thesis
    by (auto simp: is_end_of_tuple_def)
qed

end

text \<open>
  Heterogeneous tuples.  \<open>seq_reads items p x\<close>: what the items write, one after the other, is
  read by \<open>p\<close> as \<open>x\<close>.
\<close>

definition seq_reads :: "packed list \<Rightarrow> (bytes \<Rightarrow> pack_error + bytes \<times> 't) \<Rightarrow> 't \<Rightarrow> bool" where
  "seq_reads items p x \<longleftrightarrow>
     (\<forall>w off w' off'. pack_items items w off = Inr (w', off') \<longrightarrow>
        (\<exists>body. w' = w @ body \<and> body \<noteq> [] \<and> hd body \<noteq> ESCAPE \<and>
           (\<forall>rest. no_escape rest \<longrightarrow> p (body @ rest) = Inr (rest, x))))"

lemma tuple_read:
  assumes "seq_reads (map (\<lambda>item. item (Suc d)) items) (reader (Suc d)) x"
    and "pack_tuple d items = Inr (bs, off)"
    and "if d = 0 then rest = [] else no_escape rest"
  shows "unpack_tuple reader d (bs @ rest) = Inr (rest, x)"
proof (cases d)
  case 0
  with assms(2) have "pack_items (map (\<lambda>item. item (Suc 0)) items) [] (VNone 0) = Inr (bs, off)"
    by (auto simp: pack_tuple_def bind_result_eq_Inr)
  with assms(1) 0 obtain body where "bs = [] @ body"
    "\<forall>rest. no_escape rest \<longrightarrow> reader (Suc d) (body @ rest) = Inr (rest, x)"
    unfolding seq_reads_def by blast
  with assms(3) 0 show ?thesis by (auto simp: unpack_tuple_def dest: spec [of _ "[]"])
next
  case (Suc e)
  with assms(2) obtain w off' where w: "pack_items (map (\<lambda>item. item (Suc d)) items) [NESTED] (VNone 1) = Inr (w, off')"
    and bs: "bs = w @ [NIL]"
    by (auto simp: pack_tuple_def bind_result_eq_Inr)
  from assms(1) w obtain body where "w = [NESTED] @ body"
    "\<forall>rest. no_escape rest \<longrightarrow> reader (Suc d) (body @ rest) = Inr (rest, x)"
    unfolding seq_reads_def by blast
  with Suc bs show ?thesis by (simp add: unpack_tuple_def)
qed

context codec begin

lemma seq_last: "wf x \<Longrightarrow> seq_reads [pack (Suc d) x] (field_last unpack (Suc d)) x"
  by (auto simp: seq_reads_def field_last_def bind_result_eq_Inr dest: item_head item_read)

lemma seq_cons:
  assumes "wf x" and "seq_reads items (others (Suc d)) xs"
  shows "seq_reads (pack (Suc d) x # items) (field_cons unpack others (Suc d)) (x, xs)"
  unfolding seq_reads_def
proof (intro allI impI)
  fix w off w' off'
  assume "pack_items (pack (Suc d) x # items) w off = Inr (w', off')"
  then obtain bs o1 where p: "pack (Suc d) x = Inr (bs, o1)"
    and ps: "pack_items items (w @ bs) (add_offset off o1) = Inr (w', off')"
    by (auto simp: bind_result_eq_Inr)
  from assms(2) ps obtain body where body: "w' = (w @ bs) @ body" "body \<noteq> []" "hd body \<noteq> ESCAPE"
    "\<And>rest. no_escape rest \<Longrightarrow> others (Suc d) (body @ rest) = Inr (rest, xs)"
    unfolding seq_reads_def by blast
  have "no_escape (body @ rest)" for rest using body(2,3) by (cases body) auto
  then have "unpack (Suc d) (bs @ body @ rest) = Inr (body @ rest, x)" for rest
    using item_read [OF assms(1) p] by blast
  then have "field_cons unpack others (Suc d) ((bs @ body) @ rest) = Inr (rest, (x, xs))"
    if "no_escape rest" for rest
    using body(4) that by (simp add: field_cons_def)
  then show "\<exists>body. w' = w @ body \<and> body \<noteq> [] \<and> hd body \<noteq> ESCAPE \<and>
      (\<forall>rest. no_escape rest \<longrightarrow> field_cons unpack others (Suc d) (body @ rest) = Inr (rest, (x, xs)))"
    using body(1) item_head [OF assms(1) p] by (intro exI [of _ "bs @ body"]) auto
qed

end

text \<open>
  Most component types never start with the code \<open>NIL\<close>; they meet a simpler contract, and
  \<^verbatim>\<open>Option\<close> of such a type is a component type again.
\<close>

locale scalar_codec =
  fixes pack :: "'a packer" and unpack :: "'a unpacker"
    and wf :: "'a \<Rightarrow> bool" and stamps :: "'a \<Rightarrow> nat"
  assumes scalar_head: "wf x \<Longrightarrow> pack (Suc d) x = Inr (bs, off) \<Longrightarrow>
      bs \<noteq> [] \<and> hd bs \<noteq> NIL \<and> hd bs \<noteq> ESCAPE"
    and scalar_read: "wf x \<Longrightarrow> pack (Suc d) x = Inr (bs, off) \<Longrightarrow> no_escape rest \<Longrightarrow>
      unpack (Suc d) (bs @ rest) = Inr (rest, x)"
    and scalar_accounts: "wf x \<Longrightarrow> pack (Suc d) x = Inr (bs, off) \<Longrightarrow> accounts (stamps x) bs off"

sublocale scalar_codec \<subseteq> plain: codec pack unpack wf stamps
proof unfold_locales
  fix x d bs off rest
  assume x: "wf x" and p: "pack (Suc (Suc d)) x = Inr (bs, off)"
  from scalar_head [OF x p] show "\<not> is_end_of_tuple (bs @ rest) True"
    by (cases bs) auto
qed (use scalar_head scalar_read scalar_accounts in auto)

sublocale scalar_codec \<subseteq> opt: codec "pack_option pack" "unpack_option unpack" "pred_option wf"
  "\<lambda>x. case x of None \<Rightarrow> 0 | Some v \<Rightarrow> stamps v"
proof unfold_locales
  fix x :: "'a option" and d bs off
  assume x: "pred_option wf x" and p: "pack_option pack (Suc d) x = Inr (bs, off)"
  show "bs \<noteq> [] \<and> hd bs \<noteq> ESCAPE"
    using x p scalar_head by (cases x) (auto simp: pack_option_def split: if_splits)
  show "accounts (case x of None \<Rightarrow> 0 | Some v \<Rightarrow> stamps v) bs off"
    using x p scalar_accounts
    by (cases x) (auto simp: pack_option_def accounts_0 split: if_splits)
next
  fix x :: "'a option" and d bs off rest
  assume x: "pred_option wf x" and p: "pack_option pack (Suc d) x = Inr (bs, off)"
    and "no_escape rest"
  then show "unpack_option unpack (Suc d) (bs @ rest) = Inr (rest, x)"
    using scalar_head scalar_read
    by (cases x) (auto simp: pack_option_def unpack_option_def split: if_splits)
next
  fix x :: "'a option" and d bs off rest
  assume x: "pred_option wf x" and p: "pack_option pack (Suc (Suc d)) x = Inr (bs, off)"
  show "\<not> is_end_of_tuple (bs @ rest) True"
  proof (cases x)
    case None
    with p show ?thesis by (auto simp: pack_option_def)
  next
    case (Some v)
    with x p scalar_head [of v "Suc d" bs off] show ?thesis
      by (cases bs) (auto simp: pack_option_def)
  qed
qed

section \<open>The component types of the library\<close>

lemma codes_neq [simp]:
  "BYTES \<noteq> NIL" "STRING \<noteq> NIL" "NESTED \<noteq> NIL" "FLOAT \<noteq> NIL" "DOUBLE \<noteq> NIL" "FALSE \<noteq> NIL"
  "TRUE \<noteq> NIL" "UUID \<noteq> NIL" "VERSIONSTAMP \<noteq> NIL"
  "BYTES \<noteq> ESCAPE" "STRING \<noteq> ESCAPE" "NESTED \<noteq> ESCAPE" "FLOAT \<noteq> ESCAPE" "DOUBLE \<noteq> ESCAPE"
  "FALSE \<noteq> ESCAPE" "TRUE \<noteq> ESCAPE" "UUID \<noteq> ESCAPE" "VERSIONSTAMP \<noteq> ESCAPE"
  by (simp_all add: code_defs)

lemma int_len_word_less:
  fixes w :: "'a::len word"
  assumes "byte_sized w"
  shows "int_len (uint w) < 256" and "int_len (sint w) < 256"
proof -
  have d: "8 dvd LENGTH('a)" "LENGTH('a) div 8 \<le> 16"
    using assms by (auto simp: byte_sized_def)
  have "\<bar>sint w\<bar> < 2 ^ LENGTH('a)"
    using abs_sint_le [of w] half_less [where 'a = 'a] by linarith
  from int_len_le_size [OF d(1) this] d(2) show "int_len (sint w) < 256" by linarith
  have "\<bar>uint w\<bar> < 2 ^ LENGTH('a)" by simp
  from int_len_le_size [OF d(1) this] d(2) show "int_len (uint w) < 256" by linarith
qed

lemma hd_int_enc_neq:
  assumes "int_len z < 256"
  shows "hd (int_enc z) \<noteq> NIL" and "hd (int_enc z) \<noteq> ESCAPE"
  using hd_int_enc [OF assms]
  by (auto simp: NEGINTSTART_def POSINTEND_def NIL_def ESCAPE_def word_le_nat_alt)

lemma scalar_codec_ux:
  assumes "byte_sized (0 :: 'a::len word)"
  shows "scalar_codec (pack_ux :: 'a word packer) unpack_ux (\<lambda>_. True) (\<lambda>_. 0)"
proof unfold_locales
  fix x :: "'a word" and d bs off rest
  have b: "byte_sized x" "8 dvd LENGTH('a)" using assms by (auto simp: byte_sized_def)
  assume "pack_ux (Suc d) x = Inr (bs, off)"
  then have bs: "bs = int_enc (uint x)" "off = VNone (of_nat (length (int_enc (uint x))))"
    using pack_ux_eq [OF b(1)] by auto
  show "bs \<noteq> [] \<and> hd bs \<noteq> NIL \<and> hd bs \<noteq> ESCAPE"
    using hd_int_enc(1) hd_int_enc_neq int_len_word_less(1) [OF b(1)] bs by auto
  show "accounts 0 bs off" by (simp add: bs accounts_0)
  show "unpack_ux (Suc d) (bs @ rest) = Inr (rest, x)"
    using unpack_ux_int_enc(1) [OF b(2) int_len_word_less(1) [OF b(1)], of "Suc d" rest] bs
    by simp
qed

lemma scalar_codec_ix:
  assumes "byte_sized (0 :: 'a::len word)"
  shows "scalar_codec (pack_ix :: 'a word packer) unpack_ix (\<lambda>_. True) (\<lambda>_. 0)"
proof unfold_locales
  fix x :: "'a word" and d bs off rest
  have b: "byte_sized x" "8 dvd LENGTH('a)" using assms by (auto simp: byte_sized_def)
  assume "pack_ix (Suc d) x = Inr (bs, off)"
  then have bs: "bs = int_enc (sint x)" "off = VNone (of_nat (length (int_enc (sint x))))"
    using pack_ix_eq [OF b(1)] by auto
  show "bs \<noteq> [] \<and> hd bs \<noteq> NIL \<and> hd bs \<noteq> ESCAPE"
    using hd_int_enc(1) hd_int_enc_neq int_len_word_less(2) [OF b(1)] bs by auto
  show "accounts 0 bs off" by (simp add: bs accounts_0)
  show "unpack_ix (Suc d) (bs @ rest) = Inr (rest, x)"
    using unpack_ix_int_enc(1) [OF b(2) int_len_word_less(2) [OF b(1)], of "Suc d" rest] bs
      sint_ge [of x] sint_lt [of x] by simp
qed

lemma scalar_codec_fx:
  assumes "8 dvd LENGTH('a::len)" and "c \<noteq> NIL" and "c \<noteq> ESCAPE"
  shows "scalar_codec (pack_fx c :: 'a word packer) (unpack_fx c) (\<lambda>_. True) (\<lambda>_. 0)"
proof unfold_locales
  fix x :: "'a word" and d bs off rest
  assume p: "pack_fx c (Suc d) x = Inr (bs, off)"
  then show "bs \<noteq> [] \<and> hd bs \<noteq> NIL \<and> hd bs \<noteq> ESCAPE"
    using assms by (auto simp: pack_fx_def)
  show "accounts 0 bs off"
    using p by (auto simp: pack_fx_def accounts_0 fx_to_ux_be_bytes_def size_of_def)
  show "unpack_fx c (Suc d) (bs @ rest) = Inr (rest, x)"
    using unpack_pack_fx [OF assms(1) p] .
qed

interpretation u16: scalar_codec "pack_ux :: u16 packer" unpack_ux "\<lambda>_. True" "\<lambda>_. 0"
  by (rule scalar_codec_ux) (simp add: byte_sized_def)

interpretation u32: scalar_codec "pack_ux :: u32 packer" unpack_ux "\<lambda>_. True" "\<lambda>_. 0"
  by (rule scalar_codec_ux) (simp add: byte_sized_def)

interpretation u64: scalar_codec "pack_ux :: u64 packer" unpack_ux "\<lambda>_. True" "\<lambda>_. 0"
  by (rule scalar_codec_ux) (simp add: byte_sized_def)

interpretation u128: scalar_codec "pack_ux :: 128 word packer" unpack_ux "\<lambda>_. True" "\<lambda>_. 0"
  by (rule scalar_codec_ux) (simp add: byte_sized_def)

interpretation i16: scalar_codec "pack_ix :: u16 packer" unpack_ix "\<lambda>_. True" "\<lambda>_. 0"
  by (rule scalar_codec_ix) (simp add: byte_sized_def)

interpretation i32: scalar_codec "pack_ix :: u32 packer" unpack_ix "\<lambda>_. True" "\<lambda>_. 0"
  by (rule scalar_codec_ix) (simp add: byte_sized_def)

interpretation i64: scalar_codec "pack_ix :: u64 packer" unpack_ix "\<lambda>_. True" "\<lambda>_. 0"
  by (rule scalar_codec_ix) (simp add: byte_sized_def)

interpretation i128: scalar_codec "pack_ix :: 128 word packer" unpack_ix "\<lambda>_. True" "\<lambda>_. 0"
  by (rule scalar_codec_ix) (simp add: byte_sized_def)

interpretation f32: scalar_codec "pack_fx FLOAT :: u32 packer" "unpack_fx FLOAT" "\<lambda>_. True" "\<lambda>_. 0"
  by (rule scalar_codec_fx) simp_all

interpretation f64: scalar_codec "pack_fx DOUBLE :: u64 packer" "unpack_fx DOUBLE" "\<lambda>_. True" "\<lambda>_. 0"
  by (rule scalar_codec_fx) simp_all

interpretation bool_codec: scalar_codec pack_bool unpack_bool "\<lambda>_. True" "\<lambda>_. 0"
  by unfold_locales (auto simp: unpack_pack_bool, auto simp: pack_bool_def accounts_0 split: if_splits)

interpretation byte_string: scalar_codec pack_bytes unpack_bytes "\<lambda>_. True" "\<lambda>_. 0"
  by unfold_locales (auto simp: unpack_pack_bytes, auto simp: pack_bytes_eq accounts_0 split: if_splits)

interpretation str: scalar_codec pack_str unpack_str valid_utf8 "\<lambda>_. 0"
  by unfold_locales (auto simp: unpack_pack_str, auto simp: pack_str_eq accounts_0 split: if_splits)

interpretation uuid: scalar_codec pack_uuid unpack_uuid "\<lambda>u. length u = 16" "\<lambda>_. 0"
  by unfold_locales (auto simp: unpack_pack_uuid, auto simp: pack_uuid_def accounts_0)

interpretation unit_codec: scalar_codec pack_unit unpack_unit "\<lambda>_. True" "\<lambda>_. 0"
  by unfold_locales (auto simp: unpack_pack_unit, auto simp: pack_unit_def accounts_0)

interpretation stamp: scalar_codec pack_versionstamp unpack_versionstamp wf_versionstamp
  "\<lambda>v. if is_complete v then 0 else 1"
proof unfold_locales
  fix x d bs off
  assume "wf_versionstamp x" and "pack_versionstamp (Suc d) x = Inr (bs, off)"
  then show "accounts (if is_complete x then 0 else 1) bs off"
    by (auto simp: pack_versionstamp_def accounts_0 wf_versionstamp_def accounts_def offset_of_def
        stamp_at_def is_complete_def intro!: exI [of _ "[1]"])
qed (auto simp: unpack_pack_versionstamp, auto simp: pack_versionstamp_def)

end
