(* ===== verification/Tuple_Element.thy ===== *)
theory Tuple_Element
  imports Tuple_Seq
begin

text \<open>
  Dynamically typed values of the tuple layer: the enum \<^verbatim>\<open>Element\<close>
  (\<^verbatim>\<open>element.rs\<close>) and its codec (\<^verbatim>\<open>pack.rs\<close>), with the default features of the crate
  (UUIDs, no big integers).
\<close>

datatype element =
    ENil
  | EBytes bytes
  | EString bytes
  | ETuple "element list"
  | EInt u64
  | EFloat u32
  | EDouble u64
  | EBool bool
  | EUuid bytes
  | EVersionstamp versionstamp

section \<open>Packing\<close>

lemma pack_slice_cong [fundef_cong]:
  assumes "d = d'" and "vs = vs'" and "\<And>v. v \<in> set vs' \<Longrightarrow> pack (Suc d') v = pack' (Suc d') v"
  shows "pack_slice pack d vs = pack_slice pack' d' vs'"
proof -
  have "map (pack (Suc d')) vs' = map (pack' (Suc d')) vs'" using assms(3) by auto
  then show ?thesis by (simp only: pack_slice_def assms(1,2) Suc_eq_plus1 [symmetric])
qed

fun pack_element :: "element packer" where
  "pack_element depth ENil = pack_option pack_unit depth None"
| "pack_element depth (EBool b) = pack_bool depth b"
| "pack_element depth (EInt i) = pack_ix depth i"
| "pack_element depth (EFloat f) = pack_fx FLOAT depth f"
| "pack_element depth (EDouble f) = pack_fx DOUBLE depth f"
| "pack_element depth (EString c) = pack_str depth c"
| "pack_element depth (EBytes b) = pack_bytes depth b"
| "pack_element depth (EVersionstamp b) = pack_versionstamp depth b"
| "pack_element depth (ETuple v) = pack_slice pack_element depth v"
| "pack_element depth (EUuid v) = pack_uuid depth v"

fun count_incomplete_versionstamp :: "element \<Rightarrow> nat" where
  "count_incomplete_versionstamp (EVersionstamp v) = (if \<not> is_complete v then 1 else 0)"
| "count_incomplete_versionstamp (ETuple v) = sum_list (map count_incomplete_versionstamp v)"
| "count_incomplete_versionstamp _ = 0"

text \<open>What the Rust types guarantee of a value: strings are UTF-8, arrays have their length.\<close>

fun wf_element :: "element \<Rightarrow> bool" where
  "wf_element (EString c) = valid_utf8 c"
| "wf_element (EUuid u) = (length u = 16)"
| "wf_element (EVersionstamp v) = wf_versionstamp v"
| "wf_element (ETuple v) = list_all wf_element v"
| "wf_element _ = True"

section \<open>Unpacking\<close>

definition map_value :: "('a \<Rightarrow> 'b) \<Rightarrow> pack_error + bytes \<times> 'a \<Rightarrow> pack_error + bytes \<times> 'b" where
  "map_value f r = bind_result r (\<lambda>(input, v). Inr (input, f v))"

text \<open>The arms of the \<^verbatim>\<open>match\<close> on the first byte that are not \<^verbatim>\<open>NESTED\<close>.\<close>

definition unpack_scalar_arm :: "depth \<Rightarrow> byte \<Rightarrow> bytes \<Rightarrow> pack_error + bytes \<times> element" where
  "unpack_scalar_arm depth first input =
     (if first = NIL then map_value (\<lambda>_. ENil) (unpack_option unpack_unit depth input)
      else if first = BYTES then map_value EBytes (unpack_bytes depth input)
      else if first = STRING then map_value EString (unpack_str depth input)
      else if INTZERO - 8 \<le> first \<and> first \<le> INTZERO + 8 then map_value EInt (unpack_ix depth input)
      else if first = NEGINTSTART then map_value EInt (unpack_ix depth input)
      else if first = POSINTEND then map_value EInt (unpack_ix depth input)
      else if first = FLOAT then map_value EFloat (unpack_fx FLOAT depth input)
      else if first = DOUBLE then map_value EDouble (unpack_fx DOUBLE depth input)
      else if first = FALSE \<or> first = TRUE then map_value EBool (unpack_bool depth input)
      else if first = VERSIONSTAMP then map_value EVersionstamp (unpack_versionstamp depth input)
      else if first = UUID then map_value EUuid (unpack_uuid depth input)
      else Inl (BadCode first None))"

text \<open>Every arm consumes at least the first byte.\<close>

lemma parse_bytes_shrinks: "parse_bytes input n = Inr (rest, bs) \<Longrightarrow> length rest \<le> length input"
  by (auto simp: parse_bytes_eq_Inr)

lemma parse_slice_shrinks: "parse_slice input = Inr (rest, v) \<Longrightarrow> length rest < length input"
  by (simp add: parse_slice_eq unescape_shrinks)

lemma read_ix_shrinks:
  "read_px input n = Inr (rest, x) \<Longrightarrow> length rest \<le> length input"
  "read_nx input n = Inr (rest, x) \<Longrightarrow> length rest \<le> length input"
  by (auto simp: read_px_def read_nx_def bind_result_eq_Inr Let_def dest: parse_bytes_shrinks
      split: if_splits)

lemma unpack_ix_shrinks: "unpack_ix d input = Inr (rest, x) \<Longrightarrow> length rest < length input"
  by (fastforce simp: unpack_ix_def bind_result_eq_Inr Let_def parse_byte_eq_Inr less_Suc_eq_le
      dest: read_ix_shrinks split: if_splits)

lemma unpack_fx_shrinks: "unpack_fx c d input = Inr (rest, x) \<Longrightarrow> length rest < length input"
  by (auto simp: unpack_fx_def parse_ux_def bind_result_eq_Inr parse_code_eq_Inr
      dest: parse_bytes_shrinks)

lemma unpack_scalar_arm_shrinks:
  assumes "unpack_scalar_arm d first (first # more_input) = Inr (rest, v)"
  shows "length rest \<le> length more_input"
proof -
  have "length rest < length (first # more_input)"
    using assms
    by (auto simp: unpack_scalar_arm_def map_value_def bind_result_eq_Inr unpack_option_def
        unpack_bytes_def unpack_str_def parse_string_def unpack_bool_def unpack_versionstamp_def
        unpack_uuid_def parse_code_eq_Inr parse_byte_eq_Inr less_Suc_eq_le
        dest: unpack_ix_shrinks unpack_fx_shrinks parse_slice_shrinks parse_bytes_shrinks
        split: if_splits)
  then show ?thesis by simp
qed

text \<open>
  The \<^verbatim>\<open>match\<close> itself: a nested tuple is \<^verbatim>\<open>Vec::<Element>::unpack\<close>, whose loop over
  the elements is the parameter.
\<close>

abbreviation match_first ::
    "(depth \<Rightarrow> bool \<Rightarrow> bytes \<Rightarrow> pack_error + bytes \<times> element list) \<Rightarrow>
     depth \<Rightarrow> byte \<Rightarrow> bytes \<Rightarrow> pack_error + bytes \<times> element" where
  "match_first elements depth first more_input \<equiv>
     (if first = NESTED
      then bind_result (if depth > 0 then parse_code (first # more_input) NESTED
                        else Inr (first # more_input)) (\<lambda>input.
           bind_result (elements (depth + 1) (depth > 0) input) (\<lambda>(input, v).
           bind_result (if depth > 0 then parse_code input NIL else Inr input) (\<lambda>input.
             Inr (input, ETuple v))))
      else unpack_scalar_arm depth first (first # more_input))"

function (sequential) unpack_element :: "depth \<Rightarrow> bytes \<Rightarrow> pack_error + bytes \<times> element"
  and unpack_elements :: "depth \<Rightarrow> bool \<Rightarrow> bytes \<Rightarrow> pack_error + bytes \<times> element list"
where
  "unpack_element depth [] = (if depth = 0 then Inr ([], ETuple []) else Inl MissingBytes)"
| "unpack_element depth (first # more_input) =
     bind_result
       (match_first unpack_elements depth first more_input)
       (\<lambda>(input, v).
          if depth = 0 \<and> input \<noteq> []
          then bind_result (unpack_elements (depth + 1) False input) (\<lambda>(input, vs).
                 Inr (input, ETuple (v # vs)))
          else Inr (input, v))"
| "unpack_elements depth nested input =
     (if is_end_of_tuple input nested then Inr (input, [])
      else bind_result (unpack_element depth input) (\<lambda>(rem, v).
           bind_result (unpack_elements depth nested rem) (\<lambda>(rem, vs). Inr (rem, v # vs))))"
  by pat_completeness auto

lemma unpack_shrinks_partial:
  "unpack_element_unpack_elements_dom (Inl (d, input)) \<Longrightarrow>
     \<forall>rest v. input \<noteq> [] \<longrightarrow> unpack_element d input = Inr (rest, v) \<longrightarrow> length rest < length input"
  "unpack_element_unpack_elements_dom (Inr (d, nested, input)) \<Longrightarrow>
     \<forall>rest vs. unpack_elements d nested input = Inr (rest, vs) \<longrightarrow>
       length rest \<le> length input \<and>
       (\<not> is_end_of_tuple input nested \<longrightarrow> length rest < length input)"
proof (induction rule: unpack_element_unpack_elements.pinduct)
  case (1 depth)
  then show ?case by simp
next
  case (2 depth first more_input)
  have arm: "length input \<le> length more_input"
    if "match_first unpack_elements depth first more_input = Inr (input, v)" for input v
  proof (cases "first = NESTED")
    case False
    with that show ?thesis by (auto dest: unpack_scalar_arm_shrinks)
  next
    case True
    with that obtain vs where "if depth > 0
        then unpack_elements (depth + 1) True more_input = Inr (NIL # input, vs)
        else unpack_elements (depth + 1) False (first # more_input) = Inr (input, vs)"
      by (auto simp: bind_result_eq_Inr parse_code_eq_Inr split: if_splits)
    with "2.IH"(1) [OF True, of more_input] "2.IH"(1) [OF True, of "first # more_input"] True
    show ?thesis by (fastforce split: if_splits)
  qed
  show ?case
  proof (intro allI impI)
    fix rest v
    assume "unpack_element depth (first # more_input) = Inr (rest, v)"
    with "2.hyps" obtain input v' where
      "match_first unpack_elements depth first more_input = Inr (input, v')"
      "(if depth = 0 \<and> input \<noteq> []
        then bind_result (unpack_elements (depth + 1) False input) (\<lambda>(input, vs).
                 Inr (input, ETuple (v' # vs)))
        else Inr (input, v')) = Inr (rest, v)"
      unfolding unpack_element.psimps(2) [OF "2.hyps"] bind_result_eq_Inr by auto
    with arm [OF this(1)] "2.IH"(2) [OF this(1) refl] show "length rest < length (first # more_input)"
      by (fastforce simp: bind_result_eq_Inr split: if_splits)
  qed
next
  case (3 depth nested input)
  then show ?case
    by (fastforce simp: unpack_elements.psimps bind_result_eq_Inr split: if_splits)
qed

lemma unpack_total: "All unpack_element_unpack_elements_dom"
proof (relation "measures [\<lambda>x. case x of Inl (d, input) \<Rightarrow> length input
       | Inr (d, nested, input) \<Rightarrow> length input,
     \<lambda>x. case x of Inl (d, input) \<Rightarrow> if d = 0 then 2 else 0
       | Inr (d, nested, input) \<Rightarrow> if d = 0 then 3 else (1 :: nat)]", goal_cases)
  case (3 depth first more_input x a b)
  then show ?case
    by (auto simp: bind_result_eq_Inr dest: unpack_scalar_arm_shrinks
        dest!: unpack_shrinks_partial(2) [rule_format] split: if_splits)
next
  case (5 depth nested input x a b)
  then show ?case by (auto dest: unpack_shrinks_partial(1) [rule_format])
qed (auto simp: parse_code_eq_Inr split: if_splits)

termination unpack_element by (rule unpack_total)

declare unpack_elements.simps [simp del]

lemma unpack_element_shrinks:
  "input \<noteq> [] \<Longrightarrow> unpack_element d input = Inr (rest, v) \<Longrightarrow> length rest < length input"
  using unpack_shrinks_partial(1) unpack_total by blast

section \<open>Reading back what was written\<close>

lemma bind_result_pair_id [simp]: "bind_result r (\<lambda>(a, b). Inr (a, b)) = r"
  by (cases r) auto

lemma bind_result_Inr [simp]: "bind_result r Inr = r"
  by (cases r) auto

lemma unpack_element_Suc:
  "unpack_element (Suc d) (first # more_input) =
     match_first unpack_elements (Suc d) first more_input"
  unfolding unpack_element.simps(2) by simp

declare unpack_element.simps(2) [simp del]

text \<open>The generic loop of \<^verbatim>\<open>Vec<T>\<close> at \<open>T = Element\<close> returns on every input.\<close>

lemma unpack_vec_loop_element:
  "unpack_vec_loop (unpack_element d) nested input vec =
     Some (map_value (\<lambda>vs. vec @ vs) (unpack_elements d nested input))"
proof (induction "length input" arbitrary: input vec rule: less_induct)
  case less
  show ?case
  proof (cases "is_end_of_tuple input nested")
    case True
    then show ?thesis
      by (simp add: unpack_vec_loop.simps unpack_elements.simps map_value_def)
  next
    case False
    then have "input \<noteq> []" by auto
    show ?thesis
    proof (cases "unpack_element d input")
      case (Inl e)
      with False show ?thesis
        by (simp add: unpack_vec_loop.simps unpack_elements.simps map_value_def)
    next
      case (Inr p)
      obtain rem v where p: "p = (rem, v)" by (cases p)
      have "length rem < length input"
        using unpack_element_shrinks [OF \<open>input \<noteq> []\<close>] Inr p by simp
      with less [OF this, of "vec @ [v]"] False Inr p show ?thesis
        by (cases "unpack_elements d nested rem")
          (auto simp: unpack_vec_loop.simps [of _ _ input] unpack_elements.simps [of _ _ input]
            map_value_def)
    qed
  qed
qed

lemma unpack_vec_element:
  "unpack_vec unpack_element (Suc d) (NESTED # more_input) = Some (Inr (rest, vs)) \<Longrightarrow>
   unpack_element (Suc d) (NESTED # more_input) = Inr (rest, ETuple vs)"
  by (auto simp: unpack_vec_def unpack_vec_loop_element unpack_element_Suc map_value_def
      bind_result_eq_Inr)

lemma unpack_vec_element_root:
  "unpack_vec unpack_element 0 input = Some (Inr (rest, vs)) \<longleftrightarrow>
   unpack_elements (Suc 0) False input = Inr (rest, vs)"
  by (auto simp: unpack_vec_def unpack_vec_loop_element map_value_def bind_result_eq_Inr)

text \<open>What the contract of a component type says of one element.\<close>

definition element_ok :: "element \<Rightarrow> bool" where
  "element_ok e \<longleftrightarrow>
     (\<forall>d bs off. pack_element (Suc d) e = Inr (bs, off) \<longrightarrow>
        bs \<noteq> [] \<and> hd bs \<noteq> ESCAPE \<and>
        (0 < d \<longrightarrow> (\<forall>rest. \<not> is_end_of_tuple (bs @ rest) True)) \<and>
        (\<forall>rest. no_escape rest \<longrightarrow> unpack_element (Suc d) (bs @ rest) = Inr (rest, e)) \<and>
        accounts (count_incomplete_versionstamp e) bs off)"

lemma codec_elements:
  assumes "\<forall>e \<in> A. element_ok e"
  shows "codec pack_element unpack_element (\<lambda>e. e \<in> A) count_incomplete_versionstamp"
  using assms by unfold_locales (auto simp: element_ok_def)

text \<open>A type that meets the contract of a scalar, read by its own arm of the \<^verbatim>\<open>match\<close>.\<close>

lemma element_ok_scalar:
  assumes c: "scalar_codec pack unpack ok stamps" and w: "ok x"
    and pack: "\<And>d. pack_element d e = pack d x"
    and stamps: "count_incomplete_versionstamp e = stamps x"
    and arm: "\<And>d bs off rest. pack (Suc d) x = Inr (bs, off) \<Longrightarrow> hd bs \<noteq> NESTED \<and>
      (unpack (Suc d) (bs @ rest) = Inr (rest, x) \<longrightarrow>
        unpack_scalar_arm (Suc d) (hd bs) (bs @ rest) = Inr (rest, e))"
  shows "element_ok e"
  unfolding element_ok_def
proof (intro allI impI)
  fix d bs off
  assume "pack_element (Suc d) e = Inr (bs, off)"
  then have p: "pack (Suc d) x = Inr (bs, off)" by (simp add: pack)
  from scalar_codec.scalar_head [OF c w p] obtain b bs' where bs: "bs = b # bs'" "b \<noteq> NIL" "b \<noteq> ESCAPE"
    by (cases bs) auto
  have "unpack_element (Suc d) (bs @ rest) = Inr (rest, e)" if "no_escape rest" for rest
    using scalar_codec.scalar_read [OF c w p that] arm [OF p, of rest] bs
    by (simp add: unpack_element_Suc)
  then show "bs \<noteq> [] \<and> hd bs \<noteq> ESCAPE \<and>
        (0 < d \<longrightarrow> (\<forall>rest. \<not> is_end_of_tuple (bs @ rest) True)) \<and>
        (\<forall>rest. no_escape rest \<longrightarrow> unpack_element (Suc d) (bs @ rest) = Inr (rest, e)) \<and>
        accounts (count_incomplete_versionstamp e) bs off"
    using bs scalar_codec.scalar_accounts [OF c w p] by (simp add: stamps)
qed

lemma int_arm:
  assumes "NEGINTSTART \<le> first" and "first \<le> POSINTEND"
  shows "unpack_scalar_arm d first input = map_value EInt (unpack_ix d input)" and "first \<noteq> NESTED"
proof -
  have "unat first \<in> {11..29}" using assms by (simp add: code_order)
  then have "unat first = 11 \<or> unat first = 29 \<or> unat first \<in> {12..28}" by auto
  then show "unpack_scalar_arm d first input = map_value EInt (unpack_ix d input)"
    by (auto simp: unpack_scalar_arm_def code_defs word_le_nat_alt word_unat_eq_iff)
  show "first \<noteq> NESTED" using assms by (auto simp: code_defs word_le_nat_alt)
qed

lemma unpack_element_eq_arm [simp]:
  "unpack_scalar_arm d BYTES input = map_value EBytes (unpack_bytes d input)"
  "unpack_scalar_arm d STRING input = map_value EString (unpack_str d input)"
  "unpack_scalar_arm d FLOAT input = map_value EFloat (unpack_fx FLOAT d input)"
  "unpack_scalar_arm d DOUBLE input = map_value EDouble (unpack_fx DOUBLE d input)"
  "unpack_scalar_arm d FALSE input = map_value EBool (unpack_bool d input)"
  "unpack_scalar_arm d TRUE input = map_value EBool (unpack_bool d input)"
  "unpack_scalar_arm d VERSIONSTAMP input = map_value EVersionstamp (unpack_versionstamp d input)"
  "unpack_scalar_arm d UUID input = map_value EUuid (unpack_uuid d input)"
  "unpack_scalar_arm d NIL input = map_value (\<lambda>_. ENil) (unpack_option unpack_unit d input)"
  by (simp_all add: unpack_scalar_arm_def code_defs word_le_nat_alt)

lemma codes_neq_NESTED [simp]:
  "BYTES \<noteq> NESTED" "STRING \<noteq> NESTED" "FLOAT \<noteq> NESTED" "DOUBLE \<noteq> NESTED" "FALSE \<noteq> NESTED"
  "TRUE \<noteq> NESTED" "UUID \<noteq> NESTED" "VERSIONSTAMP \<noteq> NESTED" "NIL \<noteq> NESTED" "NESTED \<noteq> NIL"
  by (simp_all add: code_defs)

lemma element_ok_plain:
  shows "element_ok ENil" and "element_ok (EBytes b)" and "valid_utf8 c \<Longrightarrow> element_ok (EString c)"
    and "element_ok (EInt i)" and "element_ok (EFloat f)" and "element_ok (EDouble g)"
    and "element_ok (EBool t)" and "length u = 16 \<Longrightarrow> element_ok (EUuid u)"
    and "wf_versionstamp v \<Longrightarrow> element_ok (EVersionstamp v)"
proof -
  show "element_ok (EBytes b)"
    by (rule element_ok_scalar [OF byte_string.scalar_codec_axioms, where x = b])
      (auto simp: pack_bytes_def prefix_packed_def map_value_def bind_result_eq_Inr)
  show "element_ok (EString c)" if "valid_utf8 c"
    by (rule element_ok_scalar [OF str.scalar_codec_axioms, where x = c])
      (use that in \<open>auto simp: pack_str_def prefix_packed_def map_value_def bind_result_eq_Inr\<close>)
  show "element_ok (EFloat f)"
    by (rule element_ok_scalar [OF f32.scalar_codec_axioms, where x = f])
      (auto simp: pack_fx_def map_value_def)
  show "element_ok (EDouble g)"
    by (rule element_ok_scalar [OF f64.scalar_codec_axioms, where x = g])
      (auto simp: pack_fx_def map_value_def)
  show "element_ok (EBool t)"
    by (rule element_ok_scalar [OF bool_codec.scalar_codec_axioms, where x = t])
      (auto simp: pack_bool_def map_value_def split: if_splits)
  show "element_ok (EUuid u)" if "length u = 16"
    by (rule element_ok_scalar [OF uuid.scalar_codec_axioms, where x = u])
      (use that in \<open>auto simp: pack_uuid_def map_value_def\<close>)
  show "element_ok (EVersionstamp v)" if "wf_versionstamp v"
    by (rule element_ok_scalar [OF stamp.scalar_codec_axioms, where x = v])
      (use that in \<open>auto simp: pack_versionstamp_def map_value_def\<close>)
  show "element_ok (EInt i)"
  proof (rule element_ok_scalar [OF i64.scalar_codec_axioms, where x = i])
    fix d bs off rest
    assume "pack_ix (Suc d) i = Inr (bs, off)"
    then have "bs = int_enc (sint i)" using pack_ix_eq [of i] by (auto simp: byte_sized_def)
    moreover have "int_len (sint i) < 256" by (rule int_len_word_less) (simp add: byte_sized_def)
    ultimately have "NEGINTSTART \<le> hd bs" "hd bs \<le> POSINTEND" using hd_int_enc by auto
    from int_arm [OF this] show "hd bs \<noteq> NESTED \<and> (unpack_ix (Suc d) (bs @ rest) = Inr (rest, i) \<longrightarrow>
        unpack_scalar_arm (Suc d) (hd bs) (bs @ rest) = Inr (rest, EInt i))"
      by (simp add: map_value_def)
  qed auto
  show "element_ok ENil"
    unfolding element_ok_def
    by (auto simp: pack_option_def unpack_option_def map_value_def accounts_0 unpack_element_Suc)
qed

lemma element_ok_tuple:
  assumes "\<And>e. e \<in> set vs \<Longrightarrow> element_ok e"
  shows "element_ok (ETuple vs)"
proof -
  have codec: "codec pack_element unpack_element (\<lambda>e. e \<in> set vs) count_incomplete_versionstamp"
    using assms by (intro codec_elements) simp
  have all: "list_all (\<lambda>e. e \<in> set vs) vs" by (simp add: list_all_iff)
  show ?thesis
    unfolding element_ok_def pack_element.simps count_incomplete_versionstamp.simps
  proof (intro allI impI)
    fix d bs off
    assume p: "pack_slice pack_element (Suc d) vs = Inr (bs, off)"
    from codec.slice_head [OF codec p all] obtain bs' where bs: "bs = NESTED # bs'" ..
    have "unpack_element (Suc d) (bs @ rest) = Inr (rest, ETuple vs)" if "no_escape rest" for rest
      using codec.slice_read [OF codec all p, of rest] that bs
      by (simp add: unpack_vec_element)
    with bs codec.slice_accounts [OF codec all p]
    show "bs \<noteq> [] \<and> hd bs \<noteq> ESCAPE \<and>
        (0 < d \<longrightarrow> (\<forall>rest. \<not> is_end_of_tuple (bs @ rest) True)) \<and>
        (\<forall>rest. no_escape rest \<longrightarrow> unpack_element (Suc d) (bs @ rest) = Inr (rest, ETuple vs)) \<and>
        accounts (sum_list (map count_incomplete_versionstamp vs)) bs off"
      by simp
  qed
qed

lemma element_ok_wf: "wf_element e \<Longrightarrow> element_ok e"
  by (induction e) (auto simp: list_all_iff intro: element_ok_plain element_ok_tuple)

interpretation element: codec pack_element unpack_element wf_element count_incomplete_versionstamp
  by unfold_locales (use element_ok_wf [unfolded element_ok_def] in blast)+

section \<open>Elements at the root\<close>

text \<open>
  At the root a tuple is written without its brackets, so a tuple of one element that is not
  itself a tuple is read back as that element; the order of \<^verbatim>\<open>element.rs\<close> identifies them.
\<close>

fun root_form :: "element \<Rightarrow> element" where
  "root_form (ETuple [e]) = (case e of ETuple _ \<Rightarrow> ETuple [e] | _ \<Rightarrow> e)"
| "root_form e = e"

lemma scalar_arm_depth:
  "unpack_scalar_arm 0 first (first # more_input) = unpack_scalar_arm (Suc 0) first (first # more_input)"
proof -
  have d: "unpack_bytes 0 = unpack_bytes 1" "unpack_str 0 = unpack_str 1"
    "(unpack_ix 0 :: bytes \<Rightarrow> pack_error + bytes \<times> u64) = unpack_ix 1"
    "\<And>c. (unpack_fx c 0 :: bytes \<Rightarrow> pack_error + bytes \<times> u32) = unpack_fx c 1"
    "\<And>c. (unpack_fx c 0 :: bytes \<Rightarrow> pack_error + bytes \<times> u64) = unpack_fx c 1"
    "unpack_bool 0 = unpack_bool 1" "unpack_versionstamp 0 = unpack_versionstamp 1"
    "unpack_uuid 0 = unpack_uuid 1"
    by (rule ext, simp only: unpack_bytes_def unpack_str_def unpack_ix_def unpack_fx_def
      unpack_bool_def unpack_versionstamp_def unpack_uuid_def)+
  have "unpack_option unpack_unit 0 (first # more_input) = unpack_option unpack_unit 1 (first # more_input)"
    if "first = NIL"
    using that by (simp add: unpack_option_def)
  then show ?thesis by (simp only: unpack_scalar_arm_def One_nat_def [symmetric] d cong: if_cong)
qed

lemma unpack_elements_Nil [simp]: "unpack_elements d nested [] = Inr ([], [])"
  by (simp add: unpack_elements.simps)

lemma unpack_elements_Cons [simp]:
  "unpack_elements d False (b # bs) = bind_result (unpack_element d (b # bs)) (\<lambda>(rem, v).
     bind_result (unpack_elements d False rem) (\<lambda>(rem, vs). Inr (rem, v # vs)))"
  by (simp add: unpack_elements.simps [of _ _ "b # bs"])

lemma unpack_elements_end:
  "unpack_elements d False input = Inr (rest, vs) \<Longrightarrow> rest = [] \<and> (vs = [] \<longrightarrow> input = [])"
proof (induction "length input" arbitrary: input vs rule: less_induct)
  case less
  show ?case
  proof (cases input)
    case (Cons b bs)
    with less.prems obtain rem v vs' where "unpack_element d input = Inr (rem, v)"
      and "unpack_elements d False rem = Inr (rest, vs')" and "vs = v # vs'"
      by (auto simp: bind_result_eq_Inr)
    with less.hyps [of rem vs'] unpack_element_shrinks [of input d rem v] Cons show ?thesis by simp
  qed (use less.prems in simp)
qed

lemma unpack_scalar_arm_not_tuple: "unpack_scalar_arm d first input \<noteq> Inr (rest, ETuple vs)"
  by (auto simp: unpack_scalar_arm_def map_value_def bind_result_eq_Inr)

lemma root_form_scalar: "\<forall>us. v \<noteq> ETuple us \<Longrightarrow> root_form (ETuple [v]) = v"
  by (cases v) auto

lemma unpack_element_root:
  "unpack_element 0 input = map_value (\<lambda>vs. root_form (ETuple vs)) (unpack_elements (Suc 0) False input)"
proof (cases input)
  case Nil
  then show ?thesis by (simp add: unpack_elements.simps map_value_def)
next
  case (Cons first more_input)
  show ?thesis
  proof (cases "first = NESTED")
    case True
    show ?thesis
    proof (cases "unpack_elements (Suc 0) False input")
      case (Inr p)
      then obtain rest vs where p: "unpack_elements (Suc 0) False input = Inr (rest, vs)"
        by (cases p) simp
      from p Cons True obtain us vs' where "vs = ETuple us # vs'"
        by (auto simp: unpack_element_Suc bind_result_eq_Inr)
      with p Cons True unpack_elements_end [OF p] show ?thesis
        by (cases vs') (simp_all add: unpack_element.simps(2) map_value_def)
    qed (simp add: Cons True unpack_element.simps(2) map_value_def)
  next
    case False
    let ?arm = "unpack_scalar_arm (Suc 0) first input"
    show ?thesis
    proof (cases ?arm)
      case (Inl e)
      with Cons False show ?thesis
        by (simp add: unpack_element.simps(2) unpack_element_Suc scalar_arm_depth map_value_def)
    next
      case (Inr p)
      then obtain rem v where arm: "?arm = Inr (rem, v)" by (cases p) simp
      then have v: "\<forall>us. v \<noteq> ETuple us" by (auto simp: unpack_scalar_arm_not_tuple)
      have "unpack_elements (Suc 0) False input = bind_result (unpack_elements (Suc 0) False rem)
          (\<lambda>(rem, vs). Inr (rem, v # vs))"
        using Cons False arm by (simp add: unpack_element_Suc)
      moreover have "unpack_element 0 input = (if rem \<noteq> [] then bind_result
          (unpack_elements (Suc 0) False rem) (\<lambda>(input, vs). Inr (input, ETuple (v # vs)))
          else Inr (rem, v))"
        using Cons False arm by (simp add: unpack_element.simps(2) scalar_arm_depth)
      moreover have "root_form (ETuple (v # vs)) = ETuple (v # vs)" if "vs \<noteq> []" for vs
        using that by (cases vs) auto
      ultimately show ?thesis
        using v unpack_elements_end [of "Suc 0" rem]
        by (cases "unpack_elements (Suc 0) False rem"; cases "rem = []")
          (auto simp: map_value_def split: element.split)
    qed
  qed
qed

lemma pack_element_root:
  "\<forall>us. e \<noteq> ETuple us \<Longrightarrow> pack_element 0 e = pack_slice pack_element 0 [e]"
  by (cases e) (auto simp: pack_slice_def pack_option_def pack_bool_def pack_ix_def pack_fx_def
      pack_str_def pack_bytes_def pack_versionstamp_def pack_uuid_def)

lemma element_root_read:
  assumes "wf_element e" and "pack_element 0 e = Inr (bs, off)"
  shows "unpack_root unpack_element bs = Inr (root_form e)"
proof -
  have read: "unpack_element 0 bs = Inr ([], root_form (ETuple vs))"
    if "pack_slice pack_element 0 vs = Inr (bs, off)" and "list_all wf_element vs" for vs
    using element.slice_read [OF that(2,1), of "[]"]
    by (simp add: unpack_vec_element_root unpack_element_root map_value_def)
  have "unpack_element 0 bs = Inr ([], root_form e)"
  proof (cases "\<exists>us. e = ETuple us")
    case True
    with assms read show ?thesis by auto
  next
    case False
    with assms read [of "[e]"] show ?thesis
      by (simp add: pack_element_root root_form_scalar del: root_form.simps)
        (cases e, auto)
  qed
  then show ?thesis by (simp add: unpack_root_def)
qed

text \<open>Evaluation of the packers on concrete values.\<close>

lemma pack_int_eval:
  "pack_ix d (i :: u64) = Inr (int_enc (sint i), VNone (of_nat (length (int_enc (sint i)))))"
  "pack_ux d (u :: u64) = Inr (int_enc (uint u), VNone (of_nat (length (int_enc (uint u)))))"
  by (simp_all add: pack_ix_eq pack_ux_eq byte_sized_def)

lemmas pack_eval = pack_slice_def pack_option_def pack_unit_def pack_bool_def pack_str_eq
  pack_bytes_eq pack_fx_def pack_versionstamp_def pack_uuid_def pack_int_eval int_enc_def
  int_head_def int_len_def byte_len_def MAX_SZ_def code_defs

end
