(* ===== verification/Tuple_Order.thy ===== *)
theory Tuple_Order
  imports Tuple_Element
begin

text \<open>
  The order of \<^verbatim>\<open>Element\<close> (\<^verbatim>\<open>element.rs\<close>) and its agreement with the order of keys:
  the packed bytes compare like the values.  The locale \<open>ordered_codec\<close> extends the contract of a
  component type with an order; that sequences keep it is proved once there.
\<close>

section \<open>Comparison\<close>

text \<open>\<^verbatim>\<open>cmp::Ordering\<close> and the operations of the standard library on it.\<close>

datatype ordering = Less | Equal | Greater

fun then_with :: "ordering \<Rightarrow> ordering \<Rightarrow> ordering" where
  "then_with Equal f = f"
| "then_with o' f = o'"

fun reverse :: "ordering \<Rightarrow> ordering" where
  "reverse Less = Greater"
| "reverse Equal = Equal"
| "reverse Greater = Less"

definition cmp_ord :: "'a::linorder \<Rightarrow> 'a \<Rightarrow> ordering" where
  "cmp_ord a b = (if a < b then Less else if a = b then Equal else Greater)"

fun iter_cmp :: "('a \<Rightarrow> 'b \<Rightarrow> ordering) \<Rightarrow> 'a list \<Rightarrow> 'b list \<Rightarrow> ordering" where
  "iter_cmp cmp [] [] = Equal"
| "iter_cmp cmp [] (y # ys) = Less"
| "iter_cmp cmp (x # xs) [] = Greater"
| "iter_cmp cmp (x # xs) (y # ys) = then_with (cmp x y) (iter_cmp cmp xs ys)"

lemma iter_cmp_cong [fundef_cong]:
  assumes "xs = xs'" and "ys = ys'" and "\<And>x y. x \<in> set xs' \<Longrightarrow> y \<in> set ys' \<Longrightarrow> cmp x y = cmp' x y"
  shows "iter_cmp cmp xs ys = iter_cmp cmp' xs' ys'"
  unfolding assms(1,2) using assms(3)
  by (induction cmp xs' ys' rule: iter_cmp.induct) auto

lemma cmp_ord_simps [simp]:
  "cmp_ord a b = Less \<longleftrightarrow> a < b" "cmp_ord a b = Equal \<longleftrightarrow> a = b"
  "reverse (cmp_ord a b) = cmp_ord b a"
  by (auto simp: cmp_ord_def)

lemma then_with_eq:
  "then_with a b = Less \<longleftrightarrow> a = Less \<or> a = Equal \<and> b = Less"
  "then_with a b = Equal \<longleftrightarrow> a = Equal \<and> b = Equal"
  "reverse (then_with a b) = then_with (reverse a) (reverse b)"
  by (cases a; auto)+

lemma reverse_reverse [simp]: "reverse (reverse a) = a"
  by (cases a) auto

lemma reverse_eq [simp]: "reverse a = Less \<longleftrightarrow> a = Greater" "reverse a = Equal \<longleftrightarrow> a = Equal"
  by (cases a; auto)+

lemma iter_cmp_reverse:
  "(\<And>x y. x \<in> set xs \<Longrightarrow> y \<in> set ys \<Longrightarrow> reverse (cmp x y) = cmp y x) \<Longrightarrow>
   reverse (iter_cmp cmp xs ys) = iter_cmp cmp ys xs"
  by (induction cmp xs ys rule: iter_cmp.induct) (auto simp: then_with_eq)

lemma iter_cmp_Equal:
  "(\<And>x y. x \<in> set xs \<Longrightarrow> y \<in> set ys \<Longrightarrow> cmp x y = Equal \<longleftrightarrow> x = y) \<Longrightarrow>
   iter_cmp cmp xs ys = Equal \<longleftrightarrow> xs = ys"
  by (induction cmp xs ys rule: iter_cmp.induct) (auto simp: then_with_eq)

section \<open>The order of elements\<close>

fun code :: "element \<Rightarrow> byte" where
  "code ENil = NIL"
| "code (EBytes _) = BYTES"
| "code (EString _) = STRING"
| "code (ETuple _) = NESTED"
| "code (EInt _) = INTZERO"
| "code (EFloat _) = FLOAT"
| "code (EDouble _) = DOUBLE"
| "code (EBool v) = (if v then TRUE else FALSE)"
| "code (EUuid _) = UUID"
| "code (EVersionstamp _) = VERSIONSTAMP"

fun cmp_element :: "element \<Rightarrow> element \<Rightarrow> ordering" where
  "cmp_element a b =
     then_with (cmp_ord (code a) (code b))
       (case (a, b) of
          (EBytes a, EBytes b) \<Rightarrow> cmp_ord a b
        | (EString a, EString b) \<Rightarrow> cmp_ord a b
        | (ETuple a, ETuple b) \<Rightarrow> iter_cmp cmp_element a b
        | (EInt a, EInt b) \<Rightarrow> cmp_ord (sint a) (sint b)
        | (EFloat a, EFloat b) \<Rightarrow> cmp_ord (fx_to_ux_be_bytes a) (fx_to_ux_be_bytes b)
        | (EDouble a, EDouble b) \<Rightarrow> cmp_ord (fx_to_ux_be_bytes a) (fx_to_ux_be_bytes b)
        | (EUuid a, EUuid b) \<Rightarrow> cmp_ord a b
        | (EVersionstamp a, EVersionstamp b) \<Rightarrow> cmp_ord (vs_bytes a) (vs_bytes b)
        | _ \<Rightarrow> Equal)"

declare cmp_element.simps [simp del]

fun cmp_values :: "element \<Rightarrow> element list" where
  "cmp_values (ETuple v) = v"
| "cmp_values v = [v]"

definition cmp_at_root :: "element \<Rightarrow> element \<Rightarrow> ordering" where
  "cmp_at_root a b = iter_cmp cmp_element (cmp_values a) (cmp_values b)"

lemma cmp_element_tuple [simp]:
  "cmp_element (ETuple xs) (ETuple ys) = iter_cmp cmp_element xs ys"
  by (subst cmp_element.simps) (simp add: cmp_ord_def)

lemma fx_bytes_inj: "8 dvd LENGTH('a) \<Longrightarrow> fx_to_ux_be_bytes f = fx_to_ux_be_bytes g \<longleftrightarrow> f = (g :: 'a::len word)"
  by (metis fx_to_ux_be_bytes_def from_to_be_bytes ux_to_fx_inverse)

lemma code_neq [simp]: "TRUE \<noteq> FALSE" "FALSE \<noteq> TRUE"
  by (simp_all add: code_defs)

lemma cmp_element_Equal: "cmp_element a b = Equal \<longleftrightarrow> a = b"
proof (induction "size a" arbitrary: a b rule: less_induct)
  case less
  show ?case
  proof (cases "\<exists>xs ys. a = ETuple xs \<and> b = ETuple ys")
    case True
    then obtain xs ys where "a = ETuple xs" "b = ETuple ys" by auto
    moreover have "iter_cmp cmp_element xs ys = Equal \<longleftrightarrow> xs = ys"
      using \<open>a = ETuple xs\<close> by (intro iter_cmp_Equal less) (simp add: size_list_estimation' less_Suc_eq_le)
    ultimately show ?thesis by simp
  next
    case False
    have "code a = code b" if "a = b" using that by simp
    show ?thesis
      by (subst cmp_element.simps) (cases a; cases b; insert False; auto simp: then_with_eq fx_bytes_inj
        code_defs versionstamp.equality intro: signed_word_eqI split: if_splits)
  qed
qed

lemma cmp_element_reverse: "reverse (cmp_element a b) = cmp_element b a"
proof (induction "size a" arbitrary: a b rule: less_induct)
  case less
  show ?case
  proof (cases "\<exists>xs ys. a = ETuple xs \<and> b = ETuple ys")
    case True
    then obtain xs ys where "a = ETuple xs" "b = ETuple ys" by auto
    moreover have "reverse (iter_cmp cmp_element xs ys) = iter_cmp cmp_element ys xs"
      using \<open>a = ETuple xs\<close> by (intro iter_cmp_reverse less) (simp add: size_list_estimation' less_Suc_eq_le)
    ultimately show ?thesis by simp
  next
    case False
    then show ?thesis
      by (subst (1 2) cmp_element.simps) (cases a; cases b; simp add: then_with_eq)
  qed
qed

text \<open>An end marker sorts before any further component.\<close>

lemma end_of_tuple_less:
  assumes "is_end_of_tuple r nested" and "\<not> is_end_of_tuple t nested"
  shows "r < t"
proof -
  obtain h t' where t: "t = h # t'" using assms(2) by (cases t) auto
  show ?thesis
  proof (cases r)
    case (Cons b r')
    with assms(1) have r: "nested" "b = NIL" "no_escape r'"
      by (auto simp: is_end_of_tuple_def no_escape_def split: if_splits list.splits)
    show ?thesis
    proof (cases "h = NIL")
      case True
      with assms(2) t r(1) obtain u where "t' = ESCAPE # u"
        by (auto simp: no_escape_def split: list.splits)
      with r(3) have "r' < t'" by (cases r') (auto simp: ESCAPE_def byte_less_ff)
      with True t r(2) Cons show ?thesis by simp
    next
      case False
      then have "NIL < h" by (simp add: NIL_def word_neq_0_conv)
      with t r(2) Cons show ?thesis by simp
    qed
  qed (simp add: t)
qed

text \<open>Two values with one code have one constructor; the comparison of each pair.\<close>

lemma cmp_element_same [simp]:
  "cmp_element ENil ENil = Equal"
  "cmp_element (EBytes x) (EBytes y) = cmp_ord x y"
  "cmp_element (EString x) (EString y) = cmp_ord x y"
  "cmp_element (EInt i) (EInt j) = cmp_ord (sint i) (sint j)"
  "cmp_element (EFloat f) (EFloat g) = cmp_ord (fx_to_ux_be_bytes f) (fx_to_ux_be_bytes g)"
  "cmp_element (EDouble k) (EDouble l) = cmp_ord (fx_to_ux_be_bytes k) (fx_to_ux_be_bytes l)"
  "cmp_element (EBool c) (EBool c) = Equal"
  "cmp_element (EUuid x) (EUuid y) = cmp_ord x y"
  "cmp_element (EVersionstamp v) (EVersionstamp w) = cmp_ord (vs_bytes v) (vs_bytes w)"
  by (subst cmp_element.simps, simp add: cmp_ord_def)+

lemma code_eqE:
  assumes "code a = code b"
  obtains "a = ENil" "b = ENil"
  | x y where "a = EBytes x" "b = EBytes y"
  | x y where "a = EString x" "b = EString y"
  | xs ys where "a = ETuple xs" "b = ETuple ys"
  | i j where "a = EInt i" "b = EInt j"
  | f g where "a = EFloat f" "b = EFloat g"
  | k l where "a = EDouble k" "b = EDouble l"
  | c where "a = EBool c" "b = EBool c"
  | x y where "a = EUuid x" "b = EUuid y"
  | v w where "a = EVersionstamp v" "b = EVersionstamp w"
  using assms by (cases a; cases b) (auto simp: code_defs split: if_splits)

section \<open>An ordered component type\<close>

locale ordered_codec = codec +
  fixes cmp :: "'a \<Rightarrow> 'a \<Rightarrow> ordering"
  assumes item_less: "wf x \<Longrightarrow> wf y \<Longrightarrow> cmp x y = Less \<Longrightarrow>
      pack (Suc d) x = Inr (bs, o1) \<Longrightarrow> pack (Suc d) y = Inr (cs, o2) \<Longrightarrow>
      no_escape r \<Longrightarrow> no_escape s \<Longrightarrow> bs @ r < cs @ s"
    and item_equal: "wf x \<Longrightarrow> wf y \<Longrightarrow> cmp x y = Equal \<Longrightarrow> x = y"
begin

lemma items_less:
  assumes "list_all wf xs" and "list_all wf ys" and "iter_cmp cmp xs ys = Less"
    and "pack_items (map (pack (Suc d)) xs) w o1 = Inr (bs, p1)"
    and "pack_items (map (pack (Suc d)) ys) w o2 = Inr (cs, p2)"
    and "nested \<longrightarrow> 0 < d"
    and "is_end_of_tuple r nested" and "is_end_of_tuple s nested" and "no_escape r" and "no_escape s"
  shows "bs @ r < cs @ s"
  using assms(1-5)
proof (induction xs arbitrary: ys w o1 o2)
  case Nil
  then obtain y ys' where ys: "ys = y # ys'" by (cases ys) auto
  with Nil obtain b o3 where b: "pack (Suc d) y = Inr (b, o3)" and wfs: "wf y" "list_all wf ys'"
    and cs: "pack_items (map (pack (Suc d)) ys') (w @ b) (add_offset o2 o3) = Inr (cs, p2)"
    by (auto simp: bind_result_eq_Inr)
  from items_read [OF wfs(2) cs assms(6,8,10)] obtain body where body: "cs = w @ b @ body" by auto
  have "\<not> is_end_of_tuple (b @ body @ s) nested"
    using item_head [OF wfs(1) b] item_not_end [OF wfs(1), of "d - 1" b o3 "body @ s"] b assms(6)
    by (cases nested; cases b) (auto simp: is_end_of_tuple_def)
  with end_of_tuple_less [OF assms(7)] Nil body show ?case by simp
next
  case (Cons x xs)
  then obtain y ys' where ys: "ys = y # ys'" by (cases ys) auto
  with Cons.prems obtain a b o3 o4 where wfs: "wf x" "list_all wf xs" "wf y" "list_all wf ys'"
    and x: "pack (Suc d) x = Inr (a, o3)" and y: "pack (Suc d) y = Inr (b, o4)"
    and bs: "pack_items (map (pack (Suc d)) xs) (w @ a) (add_offset o1 o3) = Inr (bs, p1)"
    and cs: "pack_items (map (pack (Suc d)) ys') (w @ b) (add_offset o2 o4) = Inr (cs, p2)"
    by (auto simp: bind_result_eq_Inr)
  from items_read [OF wfs(2) bs assms(6,7,9)] items_read [OF wfs(4) cs assms(6,8,10)]
  obtain body body' where b: "bs = w @ a @ body" "cs = w @ b @ body'"
    "no_escape (body @ r)" "no_escape (body' @ s)" by auto
  from Cons.prems(3) ys consider "cmp x y = Less" | "cmp x y = Equal" "iter_cmp cmp xs ys' = Less"
    by (auto simp: then_with_eq)
  then show ?case
  proof cases
    case 1
    from item_less [OF wfs(1,3) 1 x y b(3,4)] b show ?thesis by simp
  next
    case 2
    from item_equal [OF wfs(1,3) 2(1)] x y have "a = b" by simp
    with Cons.IH [OF wfs(2,4) 2(2) bs] cs show ?thesis by simp
  qed
qed

lemma slice_less:
  assumes "list_all wf xs" and "list_all wf ys" and "iter_cmp cmp xs ys = Less"
    and "pack_slice pack d xs = Inr (bs, o1)" and "pack_slice pack d ys = Inr (cs, o2)"
    and "if d = 0 then r = [] \<and> s = [] else no_escape r \<and> no_escape s"
  shows "bs @ r < cs @ s"
proof (cases d)
  case 0
  with assms(4,5) have "pack_items (map (pack (Suc 0)) xs) [] (VNone 0) = Inr (bs, o1)"
    "pack_items (map (pack (Suc 0)) ys) [] (VNone 0) = Inr (cs, o2)"
    by (auto simp: pack_slice_def bind_result_eq_Inr)
  from items_less [OF assms(1-3) this, of False "[]" "[]"] 0 assms(6) show ?thesis by simp
next
  case (Suc e)
  with assms(4,5) obtain b c p1 p2
    where "pack_items (map (pack (Suc d)) xs) [NESTED] (VNone 1) = Inr (b, p1)"
    "pack_items (map (pack (Suc d)) ys) [NESTED] (VNone 1) = Inr (c, p2)" "bs = b @ [NIL]" "cs = c @ [NIL]"
    by (auto simp: pack_slice_def bind_result_eq_Inr)
  with items_less [OF assms(1-3) this(1,2), of True "NIL # r" "NIL # s"] Suc assms(6)
  show ?thesis by simp
qed

end

section \<open>Elements keep the contract\<close>

lemma pack_element_head:
  assumes "\<forall>us. e \<noteq> ETuple us" and "pack_element (Suc d) e = Inr (bs, off)"
  shows "\<exists>b bs'. bs = b # bs' \<and> (if code e = INTZERO then b \<in> {NEGINTSTART..POSINTEND} else b = code e)"
proof (cases e)
  case (EInt i)
  have "int_len (sint i) < 256" by (rule int_len_word_less) (simp add: byte_sized_def)
  from hd_int_enc [OF this] EInt assms show ?thesis
    by (cases bs) (auto simp: pack_int_eval)
qed (use assms in \<open>auto simp: pack_option_def pack_bool_def pack_fx_def pack_str_eq pack_bytes_eq
    pack_versionstamp_def pack_uuid_def code_defs split: if_splits\<close>)

lemma pack_tuple_head:
  assumes "pack_element (Suc d) (ETuple us) = Inr (bs, off)" and "wf_element (ETuple us)"
  shows "\<exists>bs'. bs = NESTED # bs'"
  using assms element.slice_head by simp

lemma code_less:
  assumes "code a < code b"
    and "if code a = INTZERO then x \<in> {NEGINTSTART..POSINTEND} else x = code a"
    and "if code b = INTZERO then y \<in> {NEGINTSTART..POSINTEND} else y = code b"
  shows "x < y"
proof -
  have ints: "NEGINTSTART \<le> INTZERO" "INTZERO \<le> POSINTEND"
    by (simp_all add: code_defs word_le_nat_alt)
  have outside: "code e < NEGINTSTART \<or> code e = INTZERO \<or> POSINTEND < code e" for e
    by (cases e) (simp_all add: code_defs word_less_nat_alt)
  consider "code a = INTZERO" "code b \<noteq> INTZERO" | "code a \<noteq> INTZERO" "code b = INTZERO"
    | "code a \<noteq> INTZERO" "code b \<noteq> INTZERO"
    using assms(1) by fastforce
  then show ?thesis
  proof cases
    case 1
    with assms have "x \<le> POSINTEND" "y = code b" by simp_all
    from outside [of b] show ?thesis
      by (elim disjE) (use 1 assms(1) ints \<open>x \<le> POSINTEND\<close> \<open>y = code b\<close> in order)+
  next
    case 2
    with assms have "NEGINTSTART \<le> y" "x = code a" by simp_all
    from outside [of a] show ?thesis
      by (elim disjE) (use 2 assms(1) ints \<open>NEGINTSTART \<le> y\<close> \<open>x = code a\<close> in order)+
  next
    case 3
    with assms show ?thesis by simp
  qed
qed

lemma heads_less:
  assumes "wf_element a" and "wf_element b" and "code a < code b"
    and "pack_element (Suc d) a = Inr (bs, o1)" and "pack_element (Suc d) b = Inr (cs, o2)"
  shows "bs @ r < cs @ s"
proof -
  have head: "\<exists>x bs'. bs = x # bs' \<and> (if code e = INTZERO then x \<in> {NEGINTSTART..POSINTEND} else x = code e)"
    if "wf_element e" and "pack_element (Suc d) e = Inr (bs, off)" for e bs off
  proof (cases "\<exists>us. e = ETuple us")
    case True
    then obtain us where e: "e = ETuple us" ..
    with that have "\<exists>bs'. bs = NESTED # bs'" by (intro pack_tuple_head) auto
    moreover have "NESTED \<noteq> INTZERO" by (simp add: code_defs)
    ultimately show ?thesis by (simp add: e)
  next
    case False
    with that(2) show ?thesis by (intro pack_element_head) auto
  qed
  obtain x bs' where x: "bs = x # bs'"
    "if code a = INTZERO then x \<in> {NEGINTSTART..POSINTEND} else x = code a"
    using head [OF assms(1,4)] by auto
  obtain y cs' where y: "cs = y # cs'"
    "if code b = INTZERO then y \<in> {NEGINTSTART..POSINTEND} else y = code b"
    using head [OF assms(2,5)] by auto
  from code_less [OF assms(3) x(2) y(2)] x(1) y(1) show ?thesis by simp
qed

lemma scalar_less:
  assumes "wf_element a" and "wf_element b" and "cmp_element a b = Less" and "code a = code b"
    and "\<forall>us. a \<noteq> ETuple us"
    and "pack_element (Suc d) a = Inr (bs, o1)" and "pack_element (Suc d) b = Inr (cs, o2)"
    and "no_escape r" and "no_escape s"
  shows "bs @ r < cs @ s"
proof -
  have int: "int_enc (sint i) @ r < int_enc (sint j) @ s" if "sint i < sint j" for i j :: u64
    using that by (rule int_enc_less) (simp_all add: int_len_word_less byte_sized_def)
  from assms(4) show ?thesis
  proof (cases rule: code_eqE)
    case 5
    with assms show ?thesis by (auto simp: pack_int_eval int)
  qed (use assms in \<open>auto simp: pack_fx_def pack_str_eq pack_bytes_eq escape_less
      pack_versionstamp_def pack_uuid_def wf_versionstamp_def fx_to_ux_be_bytes_def
      less_same_length_append size_of_def split: if_splits\<close>)
qed

lemma element_less_bounded:
  "size a < n \<Longrightarrow> size b < n \<Longrightarrow> wf_element a \<Longrightarrow> wf_element b \<Longrightarrow> cmp_element a b = Less \<Longrightarrow>
   pack_element (Suc d) a = Inr (bs, o1) \<Longrightarrow> pack_element (Suc d) b = Inr (cs, o2) \<Longrightarrow>
   no_escape r \<Longrightarrow> no_escape s \<Longrightarrow> bs @ r < cs @ s"
proof (induction n arbitrary: a b d bs cs o1 o2 r s)
  case (Suc n)
  define ok where "ok e \<longleftrightarrow> wf_element e \<and> size e < n" for e
  have ordered: "ordered_codec pack_element unpack_element ok count_incomplete_versionstamp cmp_element"
  proof (intro ordered_codec.intro ordered_codec_axioms.intro)
    show "codec pack_element unpack_element ok count_incomplete_versionstamp"
      using codec_elements [of "Collect ok"] element_ok_wf by (auto simp: ok_def [abs_def])
  qed (use Suc.IH cmp_element_Equal in \<open>auto simp: ok_def\<close>)
  from Suc.prems(5) consider "code a < code b" | "code a = code b"
    by (subst (asm) cmp_element.simps) (auto simp: then_with_eq)
  then show ?case
  proof cases
    case 1
    with Suc.prems(3,4,6,7) show ?thesis by (intro heads_less)
  next
    case 2
    show ?thesis
    proof (cases "\<exists>us. a = ETuple us")
      case False
      with 2 Suc.prems show ?thesis by (intro scalar_less) auto
    next
      case True
      then obtain xs where a: "a = ETuple xs" by auto
      with 2 obtain ys where b: "b = ETuple ys" by - (rule code_eqE [OF 2], auto)
      have all: "list_all ok xs" "list_all ok ys"
        using Suc.prems(1-4) size_list_estimation' [of _ xs _ size] size_list_estimation' [of _ ys _ size]
        by (fastforce simp: a b ok_def list_all_iff)+
      show ?thesis
        using ordered_codec.slice_less [OF ordered all, of "Suc d"] Suc.prems by (simp add: a b)
    qed
  qed
qed simp

lemma element_less:
  "wf_element a \<Longrightarrow> wf_element b \<Longrightarrow> cmp_element a b = Less \<Longrightarrow>
   pack_element (Suc d) a = Inr (bs, o1) \<Longrightarrow> pack_element (Suc d) b = Inr (cs, o2) \<Longrightarrow>
   no_escape r \<Longrightarrow> no_escape s \<Longrightarrow> bs @ r < cs @ s"
  by (rule element_less_bounded [of a "Suc (max (size a) (size b))" b]) auto

interpretation element: ordered_codec pack_element unpack_element wf_element
  count_incomplete_versionstamp cmp_element
  by unfold_locales (use element_less cmp_element_Equal in blast)+

section \<open>The order at the root\<close>

lemma pack_cmp_values:
  "pack_element 0 e = pack_slice pack_element 0 (cmp_values e)"
  using pack_element_root [of e] by (cases e) auto

lemma wf_cmp_values: "wf_element e \<Longrightarrow> list_all wf_element (cmp_values e)"
  by (cases e) auto

lemma cmp_at_root_reverse: "reverse (cmp_at_root a b) = cmp_at_root b a"
  unfolding cmp_at_root_def by (intro iter_cmp_reverse cmp_element_reverse)

lemma cmp_values_root_form:
  "root_form e = root_form (ETuple (cmp_values e))" "cmp_values (root_form e) = cmp_values e"
  by (cases e rule: root_form.cases; auto split: element.splits)+

lemma cmp_at_root_Equal: "cmp_at_root a b = Equal \<longleftrightarrow> root_form a = root_form b"
proof -
  have "cmp_values a = cmp_values b \<longleftrightarrow> root_form a = root_form b"
    using cmp_values_root_form by metis
  moreover have "cmp_at_root a b = Equal \<longleftrightarrow> cmp_values a = cmp_values b"
    unfolding cmp_at_root_def by (intro iter_cmp_Equal cmp_element_Equal)
  ultimately show ?thesis by simp
qed

lemma root_less:
  assumes "wf_element a" and "wf_element b" and "cmp_at_root a b = Less"
    and "pack_element 0 a = Inr (bs, o1)" and "pack_element 0 b = Inr (cs, o2)"
  shows "bs < cs"
  using element.slice_less [of "cmp_values a" "cmp_values b" 0 bs o1 cs o2 "[]" "[]"] assms
  by (simp add: wf_cmp_values pack_cmp_values cmp_at_root_def)

end
