(* ===== verification/Tuple_Subspace.thy ===== *)
theory Tuple_Subspace
  imports Tuple_Order
begin

text \<open>
  Subspaces (\<^verbatim>\<open>foundationdb-tuple/src/subspace.rs\<close>): a prefix of keys together with the
  accounting of its incomplete versionstamps.  Operations that can panic return \<open>None\<close> then.
\<close>

section \<open>Operations\<close>

record subspace =
  prefix :: bytes
  versionstamp_offset :: versionstamp_offset

definition subspace_from :: "'a packer \<Rightarrow> 'a \<Rightarrow> subspace option" where
  "subspace_from pack e =
     map_option (\<lambda>(p, offset). \<lparr>prefix = p, versionstamp_offset = offset\<rparr>)
       (pack_into_vec pack e [])"

definition subspace_all :: subspace where
  "subspace_all = \<lparr>prefix = [], versionstamp_offset = VNone 0\<rparr>"

definition from_bytes :: "bytes \<Rightarrow> subspace option" where
  "from_bytes p =
     (if length p < 2 ^ 32
      then Some \<lparr>prefix = p, versionstamp_offset = VNone (of_nat (length p))\<rparr> else None)"

definition subspace :: "'a packer \<Rightarrow> subspace \<Rightarrow> 'a \<Rightarrow> subspace option" where
  "subspace pack s t =
     map_option (\<lambda>(p, offset).
         \<lparr>prefix = p, versionstamp_offset = add_offset (versionstamp_offset s) offset\<rparr>)
       (pack_into_vec pack t (prefix s))"

definition subspace_pack :: "'a packer \<Rightarrow> subspace \<Rightarrow> 'a \<Rightarrow> bytes option" where
  "subspace_pack pack s t = map_option fst (pack_into_vec pack t (prefix s))"

definition subspace_pack_with_versionstamp :: "'a packer \<Rightarrow> subspace \<Rightarrow> 'a \<Rightarrow> bytes option" where
  "subspace_pack_with_versionstamp pack s t =
     Option.bind (pack_into_vec pack t (prefix s)) (\<lambda>(output, off).
       case add_offset (versionstamp_offset s) off of
         OneIncomplete offset \<Rightarrow> Some (output @ to_le_bytes offset)
       | MultipleIncomplete \<Rightarrow> None
       | _ \<Rightarrow> Some output)"

definition subspace_pack_with_versionstamp_for_key ::
    "'a packer \<Rightarrow> subspace \<Rightarrow> 'a \<Rightarrow> int \<Rightarrow> bytes option" where
  "subspace_pack_with_versionstamp_for_key pack s t api_version =
     Option.bind (pack_into_vec pack t (prefix s)) (\<lambda>(output, off).
       append_key_offset (add_offset (versionstamp_offset s) off) output api_version)"

definition starts_with :: "bytes \<Rightarrow> bytes \<Rightarrow> bool" where
  "starts_with key p \<longleftrightarrow> take (length p) key = p"

definition is_start_of :: "subspace \<Rightarrow> bytes \<Rightarrow> bool" where
  "is_start_of s key \<longleftrightarrow> starts_with key (prefix s)"

definition subspace_unpack :: "'a unpacker \<Rightarrow> subspace \<Rightarrow> bytes \<Rightarrow> pack_error + 'a" where
  "subspace_unpack unpack s key =
     (if \<not> is_start_of s key then Inl BadPrefix
      else unpack_root unpack (drop (length (prefix s)) key))"

definition subspace_range :: "subspace \<Rightarrow> bytes \<times> bytes" where
  "subspace_range s = (prefix s @ [0x00], prefix s @ [0xff])"

text \<open>The two \<^verbatim>\<open>Display\<close> instances write ASCII; \<^verbatim>\<open>{b:02x}\<close> is two lower-case digits.\<close>

definition hex_digit :: "nat \<Rightarrow> byte" where
  "hex_digit n = (if n < 10 then of_nat (48 + n) else of_nat (87 + n))"

definition fmt_hex :: "byte \<Rightarrow> bytes" where
  "fmt_hex b = [hex_digit (unat b div 16), hex_digit (unat b mod 16)]"

definition fmt_subspace_byte :: "byte \<Rightarrow> bytes" where
  "fmt_subspace_byte b =
     (if 32 \<le> b \<and> b < 127 \<and> b \<noteq> 92 then [b]
      else if b = 92 then [92, 92]
      else [92, 120] @ fmt_hex b)"

definition fmt_subspace :: "subspace \<Rightarrow> bytes" where
  "fmt_subspace s = concat (map fmt_subspace_byte (prefix s))"

definition is_ascii_alphanumeric :: "byte \<Rightarrow> bool" where
  "is_ascii_alphanumeric b \<longleftrightarrow> 48 \<le> b \<and> b \<le> 57 \<or> 65 \<le> b \<and> b \<le> 90 \<or> 97 \<le> b \<and> b \<le> 122"

definition fmt_bytes_byte :: "byte \<Rightarrow> bytes" where
  "fmt_bytes_byte b =
     (if b = 92 then [92, 92]
      else if is_ascii_alphanumeric b then [b]
      else [92, 120] @ fmt_hex b)"

definition fmt_bytes :: "bytes \<Rightarrow> bytes" where
  "fmt_bytes bs = [98, 34] @ concat (map fmt_bytes_byte bs) @ [34]"

section \<open>The subspace as a key prefix\<close>

lemma starts_with_append: "starts_with key p \<longleftrightarrow> (\<exists>rest. key = p @ rest)"
  unfolding starts_with_def by (metis append_eq_conv_conj append_take_drop_id)

lemma pack_into_vec_eq:
  "pack_into_vec pack v out = Some (out', off) \<longleftrightarrow> (\<exists>bs. pack 0 v = Inr (bs, off) \<and> out' = out @ bs)"
  by (auto simp: pack_into_vec_def split: sum.splits)

lemma pack_into_vec_Inr: "pack 0 v = Inr (bs, off) \<Longrightarrow> pack_into_vec pack v out = Some (out @ bs, off)"
  by (simp add: pack_into_vec_def)

lemma subspace_range_iff:
  assumes "subspace_range s = (lo, hi)"
  shows "lo \<le> key \<and> key < hi \<longleftrightarrow>
    (\<exists>b rest. key = prefix s @ b # rest \<and> b \<noteq> 0xff)"
proof -
  have "p @ [0x00] \<le> key \<and> key < p @ [0xff] \<longleftrightarrow> (\<exists>b rest. key = p @ b # rest \<and> b \<noteq> 0xff)" for p
  proof (induction p arbitrary: key)
    case Nil
    then show ?case
      by (cases key) (auto simp: byte_less_ff word_neq_0_conv)
  next
    case (Cons a p)
    show ?case
    proof (cases key)
      case (Cons b k)
      then show ?thesis using Cons.IH [of k] by auto
    qed simp
  qed
  with assms show ?thesis by (auto simp: subspace_range_def)
qed

lemma element_root_accounts:
  assumes "wf_element e" and "pack_element 0 e = Inr (bs, off)"
  shows "accounts (count_incomplete_versionstamp e) bs off"
proof -
  have "sum_list (map count_incomplete_versionstamp (cmp_values e)) = count_incomplete_versionstamp e"
    by (cases e) auto
  with element.slice_accounts [OF wf_cmp_values [OF assms(1)], of 0 bs off] assms(2) show ?thesis
    by (simp add: pack_cmp_values)
qed

text \<open>The accounting of a subspace, and that every way to make one keeps it.\<close>

definition wf_subspace :: "nat \<Rightarrow> subspace \<Rightarrow> bool" where
  "wf_subspace n s \<longleftrightarrow> accounts n (prefix s) (versionstamp_offset s)"

lemma wf_subspace_all: "wf_subspace 0 subspace_all"
  by (simp add: wf_subspace_def subspace_all_def accounts_0)

lemma wf_from_bytes: "from_bytes p = Some s \<Longrightarrow> wf_subspace 0 s"
  by (auto simp: wf_subspace_def from_bytes_def accounts_0 split: if_splits)

lemma wf_subspace_from:
  "wf_element e \<Longrightarrow> subspace_from pack_element e = Some s \<Longrightarrow>
   wf_subspace (count_incomplete_versionstamp e) s"
  by (auto simp: wf_subspace_def subspace_from_def pack_into_vec_eq intro: element_root_accounts)

lemma wf_subspace_subspace:
  "wf_subspace n s \<Longrightarrow> wf_element e \<Longrightarrow> subspace pack_element s e = Some s' \<Longrightarrow>
   wf_subspace (n + count_incomplete_versionstamp e) s'"
  using accounts_append [OF _ element_root_accounts]
  by (fastforce simp: wf_subspace_def subspace_def pack_into_vec_eq)

lemma accounts_1:
  assumes "accounts 1 bs off" and "length bs < 2 ^ 32"
  obtains p where "off = OneIncomplete (of_nat p)" and "stamp_at bs p" and "p < length bs"
    and "unat (of_nat p :: u32) = p"
proof -
  from assms(1) obtain p where p: "off = OneIncomplete (of_nat p)" "stamp_at bs p"
    unfolding accounts_def by (cases "\<exists>q. off = OneIncomplete q") (auto simp: offset_of_def length_Suc_conv)
  then have "p < length bs" by (simp add: stamp_at_def)
  with assms(2) have "unat (of_nat p :: u32) = p" by (simp add: unat_of_nat)
  with p \<open>p < length bs\<close> that show ?thesis by blast
qed

text \<open>The key that \<^verbatim>\<open>SetVersionstampedKey\<close> expects: the position, little-endian.\<close>

lemma stamped_key:
  assumes "wf_subspace n s" and "wf_element e" and "pack_element 0 e = Inr (bs, off)"
    and "n + count_incomplete_versionstamp e = 1"
    and "length (prefix s @ bs) < (if api_version < 520 then 2 ^ 16 else 2 ^ 32)"
  shows "\<exists>p. stamp_at (prefix s @ bs) p \<and>
    subspace_pack_with_versionstamp_for_key pack_element s e api_version =
      Some (prefix s @ bs @ rev (nat_be (if api_version < 520 then 2 else 4) p))"
proof -
  let ?out = "prefix s @ bs"
  have acc: "accounts 1 ?out (add_offset (versionstamp_offset s) off)"
    using accounts_append [OF _ element_root_accounts [OF assms(2,3)]] assms(1,4)
    by (fastforce simp: wf_subspace_def)
  have "length ?out < 2 ^ 32" using assms(5) by (auto split: if_splits)
  from accounts_1 [OF acc this] obtain p
    where p: "add_offset (versionstamp_offset s) off = OneIncomplete (of_nat p)" "stamp_at ?out p"
      "p < length ?out" "unat (of_nat p :: u32) = p" by blast
  have "unat (ucast (of_nat p :: u32) :: u16) = p" if "api_version < 520"
    using that assms(5) p(3) by (simp add: unsigned_ucast_eq p(4) take_bit_nat_eq_self)
  then show ?thesis
    using p(1,2,4) assms(5) p(3) pack_into_vec_Inr [where pack = pack_element, OF assms(3), of "prefix s"]
    by (intro exI [of _ p]) (auto simp: subspace_pack_with_versionstamp_for_key_def
        append_key_offset_def to_le_bytes_def to_be_bytes_def size_of_def)
qed

lemma unpack_pack_subspace:
  assumes "wf_element e" and "subspace_pack pack_element s e = Some key"
  shows "subspace_unpack unpack_element s key = Inr (root_form e)"
  using assms by (auto simp: subspace_pack_def subspace_unpack_def pack_into_vec_eq is_start_of_def
      starts_with_def element_root_read)

text \<open>A subspace of a subspace is the subspace of the joined tuples.\<close>

lemma pack_items_append:
  "pack_items (xs @ ys) w off =
     bind_result (pack_items xs w off) (\<lambda>(w, off). pack_items ys w off)"
proof (induction xs arbitrary: w off)
  case (Cons x xs)
  then show ?case by (cases x) auto
qed simp

lemma pack_items_from:
  "pack_items xs w off =
     bind_result (pack_items xs [] (VNone 0)) (\<lambda>(bs, o'). Inr (w @ bs, add_offset off o'))"
proof (induction xs arbitrary: w off)
  case (Cons x xs)
  show ?case
  proof (cases x)
    case (Inr p)
    obtain bs o1 where p: "p = (bs, o1)" by (cases p)
    show ?thesis
      using Cons [of "w @ bs" "add_offset off o1"] Cons [of bs o1] Inr p
      by (cases "pack_items xs [] (VNone 0)") (auto simp: add_offset_assoc)
  qed simp
qed simp

lemma pack_slice_root_append:
  "pack_slice pack 0 (xs @ ys) =
     bind_result (pack_slice pack 0 xs) (\<lambda>(bs, o1).
     bind_result (pack_slice pack 0 ys) (\<lambda>(cs, o2). Inr (bs @ cs, add_offset o1 o2)))"
proof (cases "pack_items (map (pack (Suc 0)) xs) [] (VNone 0)")
  case (Inr p)
  obtain bs o1 where "p = (bs, o1)" by (cases p)
  with Inr show ?thesis
    by (cases "pack_items (map (pack (Suc 0)) ys) [] (VNone 0)")
      (auto simp: pack_slice_def pack_items_append pack_items_from [of "map (pack (Suc 0)) ys" bs o1])
qed (simp add: pack_slice_def pack_items_append)

lemma subspace_nested:
  assumes "subspace_from pack_element (ETuple xs) = Some s"
    and "subspace pack_element s (ETuple ys) = Some s'"
  shows "subspace_from pack_element (ETuple (xs @ ys)) = Some s'"
  using assms
  by (auto simp: subspace_from_def subspace_def pack_into_vec_def pack_slice_root_append
      split: sum.splits)

lemma subspace_pack_nested:
  assumes "subspace_from pack_element (ETuple xs) = Some s"
  shows "subspace_pack pack_element s (ETuple ys) = pack_to_vec pack_element (ETuple (xs @ ys))"
  using assms
  by (auto simp: subspace_from_def subspace_pack_def pack_to_vec_def pack_into_vec_def
      pack_slice_root_append split: sum.splits)

section \<open>The printed form\<close>

lemma unat_hex_digit: "n < 16 \<Longrightarrow> unat (hex_digit n) = (if n < 10 then 48 + n else 87 + n)"
  by (simp add: hex_digit_def unat_of_nat del: of_nat_add of_nat_numeral)

lemma hex_digit_inj:
  assumes "m < 16" and "n < 16"
  shows "hex_digit m = hex_digit n \<longleftrightarrow> m = n"
proof
  assume "hex_digit m = hex_digit n"
  then have "(if m < 10 then 48 + m else 87 + m) = (if n < 10 then 48 + n else 87 + n)"
    using unat_hex_digit [OF assms(1)] unat_hex_digit [OF assms(2)] by metis
  then show "m = n" by (simp split: if_splits)
qed simp

lemma fmt_hex_append: "fmt_hex a @ u = fmt_hex b @ v \<longleftrightarrow> a = b \<and> u = v"
proof -
  have "unat b div 16 < 16" for b :: byte
    using unat_byte_less [of b] by (intro less_mult_imp_div_less) simp
  moreover have "a = b" if "unat a div 16 = unat b div 16" "unat a mod 16 = unat b mod 16"
    using that by (metis div_mult_mod_eq unsigned_word_eqI)
  ultimately show ?thesis by (auto simp: fmt_hex_def hex_digit_inj)
qed

text \<open>Both instances escape the backslash and what is not plain, so the text can be read back.\<close>

definition fmt_byte :: "(byte \<Rightarrow> bool) \<Rightarrow> byte \<Rightarrow> bytes" where
  "fmt_byte plain b = (if b = 92 then [92, 92] else if plain b then [b] else [92, 120] @ fmt_hex b)"

lemma fmt_byte_append: "fmt_byte plain a @ u = fmt_byte plain b @ v \<longleftrightarrow> a = b \<and> u = v"
  by (auto simp: fmt_byte_def fmt_hex_append)

lemma fmt_byte_not_Nil: "fmt_byte plain a \<noteq> []"
  by (simp add: fmt_byte_def)

lemma concat_prefix_free:
  assumes "\<And>a b u v. f a @ u = f b @ v \<longleftrightarrow> a = b \<and> u = v" and "\<And>a. f a \<noteq> []"
  shows "concat (map f xs) = concat (map f ys) \<longleftrightarrow> xs = ys"
proof (induction xs arbitrary: ys)
  case Nil
  then show ?case using assms(2) by (cases ys) auto
next
  case (Cons x xs)
  then show ?case using assms by (cases ys) auto
qed

lemma concat_fmt_byte: "concat (map (fmt_byte plain) xs) = concat (map (fmt_byte plain) ys) \<longleftrightarrow> xs = ys"
  by (rule concat_prefix_free) (rule fmt_byte_append, rule fmt_byte_not_Nil)

lemma fmt_byte_instances:
  "fmt_subspace_byte = fmt_byte (\<lambda>b. 32 \<le> b \<and> b < 127)"
  "fmt_bytes_byte = fmt_byte is_ascii_alphanumeric"
  by (rule ext, simp add: fmt_subspace_byte_def fmt_bytes_byte_def fmt_byte_def)+

lemma fmt_subspace_inj: "fmt_subspace s = fmt_subspace s' \<longleftrightarrow> prefix s = prefix s'"
  unfolding fmt_subspace_def fmt_byte_instances(1) by (rule concat_fmt_byte)

lemma fmt_bytes_inj: "fmt_bytes bs = fmt_bytes cs \<longleftrightarrow> bs = cs"
  unfolding fmt_bytes_def fmt_byte_instances(2) by (simp only: same_append_eq append_same_eq concat_fmt_byte)

end
