(* ===== verification/Tuple_Fields.thy ===== *)
theory Tuple_Fields
  imports Tuple_Subspace
begin

text \<open>
  Component types of tuples.  The tuple layer is generic: which instance of \<^verbatim>\<open>TuplePack\<close>
  and \<^verbatim>\<open>TupleUnpack\<close> (\<^verbatim>\<open>pack.rs\<close>) runs is decided by the Rust type.  The types are
  the data of \<open>field_type\<close>, the values of all of them those of \<open>field_value\<close>, and
  \<open>pack_field\<close> and \<open>unpack_field\<close> call the instance of the type.  So a statement can speak
  of tuples of any component types, with options, vectors and tuples nested in each other.
\<close>

datatype field_type =
    TU16 | TU32 | TU64 | TU128 | TI16 | TI32 | TI64 | TI128 | TF32 | TF64
  | TBool | TBytes | TString | TUuid | TVersionstamp | TUnit | TElement
  | TOption field_type
  | TVec field_type
  | TTuple "field_type list"

datatype field_value =
    FU16 u16 | FU32 u32 | FU64 u64 | FU128 "128 word"
  | FI16 u16 | FI32 u32 | FI64 u64 | FI128 "128 word" | FF32 u32 | FF64 u64
  | FBool bool | FBytes bytes | FString bytes | FUuid bytes | FVersionstamp versionstamp | FUnit
  | FElement element
  | FOption "field_value option"
  | FVec "field_value list"
  | FTuple "field_value list"

section \<open>The instances\<close>

text \<open>A component waits for its depth, as in \<open>pack_tuple\<close>.\<close>

primrec pack_field :: "field_value \<Rightarrow> depth \<Rightarrow> packed" where
  "pack_field (FU16 u) = (\<lambda>d. pack_ux d u)"
| "pack_field (FU32 u) = (\<lambda>d. pack_ux d u)"
| "pack_field (FU64 u) = (\<lambda>d. pack_ux d u)"
| "pack_field (FU128 u) = (\<lambda>d. pack_ux d u)"
| "pack_field (FI16 i) = (\<lambda>d. pack_ix d i)"
| "pack_field (FI32 i) = (\<lambda>d. pack_ix d i)"
| "pack_field (FI64 i) = (\<lambda>d. pack_ix d i)"
| "pack_field (FI128 i) = (\<lambda>d. pack_ix d i)"
| "pack_field (FF32 f) = (\<lambda>d. pack_fx FLOAT d f)"
| "pack_field (FF64 f) = (\<lambda>d. pack_fx DOUBLE d f)"
| "pack_field (FBool b) = (\<lambda>d. pack_bool d b)"
| "pack_field (FBytes v) = (\<lambda>d. pack_bytes d v)"
| "pack_field (FString v) = (\<lambda>d. pack_str d v)"
| "pack_field (FUuid u) = (\<lambda>d. pack_uuid d u)"
| "pack_field (FVersionstamp v) = (\<lambda>d. pack_versionstamp d v)"
| "pack_field FUnit = (\<lambda>d. pack_unit d ())"
| "pack_field (FElement e) = (\<lambda>d. pack_element d e)"
| "pack_field (FOption x) = (\<lambda>d. pack_option (\<lambda>d item. item d) d (map_option pack_field x))"
| "pack_field (FVec vs) = (\<lambda>d. pack_slice (\<lambda>d item. item d) d (map pack_field vs))"
| "pack_field (FTuple vs) = (\<lambda>d. pack_tuple d (map pack_field vs))"

text \<open>The bindings of the macro's \<^verbatim>\<open>unpack\<close>, one component after the other.\<close>

fun unpack_fields :: "field_value unpacker list \<Rightarrow> field_value list unpacker" where
  "unpack_fields [] = (\<lambda>depth input. Inr (input, []))"
| "unpack_fields [t] = (\<lambda>depth input. map_value (\<lambda>v. [v]) (field_last t depth input))"
| "unpack_fields (t # ts) =
     (\<lambda>depth input. map_value (\<lambda>(v, vs). v # vs) (field_cons t (unpack_fields ts) depth input))"

text \<open>The \<open>the\<close> is of a value that is never \<open>None\<close>: lemma \<open>unpack_vec_field\<close> below.\<close>

primrec unpack_field :: "field_type \<Rightarrow> field_value unpacker" where
  "unpack_field TU16 = (\<lambda>d input. map_value FU16 (unpack_ux d input))"
| "unpack_field TU32 = (\<lambda>d input. map_value FU32 (unpack_ux d input))"
| "unpack_field TU64 = (\<lambda>d input. map_value FU64 (unpack_ux d input))"
| "unpack_field TU128 = (\<lambda>d input. map_value FU128 (unpack_ux d input))"
| "unpack_field TI16 = (\<lambda>d input. map_value FI16 (unpack_ix d input))"
| "unpack_field TI32 = (\<lambda>d input. map_value FI32 (unpack_ix d input))"
| "unpack_field TI64 = (\<lambda>d input. map_value FI64 (unpack_ix d input))"
| "unpack_field TI128 = (\<lambda>d input. map_value FI128 (unpack_ix d input))"
| "unpack_field TF32 = (\<lambda>d input. map_value FF32 (unpack_fx FLOAT d input))"
| "unpack_field TF64 = (\<lambda>d input. map_value FF64 (unpack_fx DOUBLE d input))"
| "unpack_field TBool = (\<lambda>d input. map_value FBool (unpack_bool d input))"
| "unpack_field TBytes = (\<lambda>d input. map_value FBytes (unpack_bytes d input))"
| "unpack_field TString = (\<lambda>d input. map_value FString (unpack_str d input))"
| "unpack_field TUuid = (\<lambda>d input. map_value FUuid (unpack_uuid d input))"
| "unpack_field TVersionstamp = (\<lambda>d input. map_value FVersionstamp (unpack_versionstamp d input))"
| "unpack_field TUnit = (\<lambda>d input. map_value (\<lambda>_. FUnit) (unpack_unit d input))"
| "unpack_field TElement = (\<lambda>d input. map_value FElement (unpack_element d input))"
| "unpack_field (TOption t) = (\<lambda>d input. map_value FOption (unpack_option (unpack_field t) d input))"
| "unpack_field (TVec t) = (\<lambda>d input. map_value FVec (the (unpack_vec (unpack_field t) d input)))"
| "unpack_field (TTuple ts) =
     (\<lambda>d input. map_value FTuple (unpack_tuple (unpack_fields (map unpack_field ts)) d input))"

section \<open>Types of values\<close>

text \<open>What a value of the Rust type is, with what the type guarantees of it.\<close>

primrec has_type :: "field_type \<Rightarrow> field_value \<Rightarrow> bool" where
  "has_type TU16 v = (case v of FU16 _ \<Rightarrow> True | _ \<Rightarrow> False)"
| "has_type TU32 v = (case v of FU32 _ \<Rightarrow> True | _ \<Rightarrow> False)"
| "has_type TU64 v = (case v of FU64 _ \<Rightarrow> True | _ \<Rightarrow> False)"
| "has_type TU128 v = (case v of FU128 _ \<Rightarrow> True | _ \<Rightarrow> False)"
| "has_type TI16 v = (case v of FI16 _ \<Rightarrow> True | _ \<Rightarrow> False)"
| "has_type TI32 v = (case v of FI32 _ \<Rightarrow> True | _ \<Rightarrow> False)"
| "has_type TI64 v = (case v of FI64 _ \<Rightarrow> True | _ \<Rightarrow> False)"
| "has_type TI128 v = (case v of FI128 _ \<Rightarrow> True | _ \<Rightarrow> False)"
| "has_type TF32 v = (case v of FF32 _ \<Rightarrow> True | _ \<Rightarrow> False)"
| "has_type TF64 v = (case v of FF64 _ \<Rightarrow> True | _ \<Rightarrow> False)"
| "has_type TBool v = (case v of FBool _ \<Rightarrow> True | _ \<Rightarrow> False)"
| "has_type TBytes v = (case v of FBytes _ \<Rightarrow> True | _ \<Rightarrow> False)"
| "has_type TString v = (case v of FString s \<Rightarrow> valid_utf8 s | _ \<Rightarrow> False)"
| "has_type TUuid v = (case v of FUuid u \<Rightarrow> length u = 16 | _ \<Rightarrow> False)"
| "has_type TVersionstamp v = (case v of FVersionstamp s \<Rightarrow> wf_versionstamp s | _ \<Rightarrow> False)"
| "has_type TUnit v = (case v of FUnit \<Rightarrow> True | _ \<Rightarrow> False)"
| "has_type TElement v = (case v of FElement e \<Rightarrow> wf_element e | _ \<Rightarrow> False)"
| "has_type (TOption t) v = (case v of FOption x \<Rightarrow> pred_option (has_type t) x | _ \<Rightarrow> False)"
| "has_type (TVec t) v = (case v of FVec vs \<Rightarrow> list_all (has_type t) vs | _ \<Rightarrow> False)"
| "has_type (TTuple ts) v =
     (case v of FTuple vs \<Rightarrow> list_all2 (\<lambda>ok x. ok x) (map has_type ts) vs | _ \<Rightarrow> False)"

text \<open>
  The types that can be read back.  \<^verbatim>\<open>None\<close> of an \<^verbatim>\<open>Option<T>\<close> is written like the
  \<^verbatim>\<open>Nil\<close> of an \<^verbatim>\<open>Element\<close> and like the \<^verbatim>\<open>None\<close> of another \<^verbatim>\<open>Option\<close>, so \<^verbatim>\<open>T\<close>
  is neither.  The macro makes tuples of one to twelve components.
\<close>

fun plain_type :: "field_type \<Rightarrow> bool" where
  "plain_type (TOption t) = False"
| "plain_type TElement = False"
| "plain_type _ = True"

primrec wf_type :: "field_type \<Rightarrow> bool" where
  "wf_type TU16 = True" | "wf_type TU32 = True" | "wf_type TU64 = True" | "wf_type TU128 = True"
| "wf_type TI16 = True" | "wf_type TI32 = True" | "wf_type TI64 = True" | "wf_type TI128 = True"
| "wf_type TF32 = True" | "wf_type TF64 = True" | "wf_type TBool = True" | "wf_type TBytes = True"
| "wf_type TString = True" | "wf_type TUuid = True" | "wf_type TVersionstamp = True"
| "wf_type TUnit = True" | "wf_type TElement = True"
| "wf_type (TOption t) = (plain_type t \<and> wf_type t)"
| "wf_type (TVec t) = wf_type t"
| "wf_type (TTuple ts) = (0 < length ts \<and> length ts \<le> 12 \<and> list_all id (map wf_type ts))"

lemma option_of_option_ambiguous:
  "pack_option (pack_option p) d (Some None) = pack_option (pack_option p) d None"
  by (simp add: pack_option_def)

text \<open>The incomplete versionstamps of a value.\<close>

primrec field_stamps :: "field_value \<Rightarrow> nat" where
  "field_stamps (FU16 u) = 0" | "field_stamps (FU32 u) = 0" | "field_stamps (FU64 u) = 0"
| "field_stamps (FU128 u) = 0" | "field_stamps (FI16 u) = 0" | "field_stamps (FI32 u) = 0"
| "field_stamps (FI64 u) = 0" | "field_stamps (FI128 u) = 0" | "field_stamps (FF32 u) = 0"
| "field_stamps (FF64 u) = 0" | "field_stamps (FBool u) = 0" | "field_stamps (FBytes u) = 0"
| "field_stamps (FString u) = 0" | "field_stamps (FUuid u) = 0"
| "field_stamps (FVersionstamp v) = (if is_complete v then 0 else 1)"
| "field_stamps FUnit = 0"
| "field_stamps (FElement e) = count_incomplete_versionstamp e"
| "field_stamps (FOption x) = (case map_option field_stamps x of None \<Rightarrow> 0 | Some n \<Rightarrow> n)"
| "field_stamps (FVec vs) = sum_list (map field_stamps vs)"
| "field_stamps (FTuple vs) = sum_list (map field_stamps vs)"

section \<open>Vectors always end\<close>

lemma read_ux_shrinks: "read_ux input n = Inr (rest, x) \<Longrightarrow> length rest \<le> length input"
  by (auto simp: read_ux_def bind_result_eq_Inr dest: parse_bytes_shrinks split: if_splits)

lemma unpack_ux_shrinks: "unpack_ux d input = Inr (rest, x) \<Longrightarrow> length rest < length input"
  by (fastforce simp: unpack_ux_def bind_result_eq_Inr Let_def parse_byte_eq_Inr less_Suc_eq_le
      dest: read_ux_shrinks split: if_splits)

lemma unpack_vec_loop_ends:
  assumes "\<And>i r v. unpack i = Inr (r, v) \<Longrightarrow> length r < length i"
  shows "unpack_vec_loop unpack nested input vec \<noteq> None \<and>
    (\<forall>r vs. unpack_vec_loop unpack nested input vec = Some (Inr (r, vs)) \<longrightarrow> length r \<le> length input)"
proof (induction "length input" arbitrary: input vec rule: less_induct)
  case less
  show ?case
  proof (cases "is_end_of_tuple input nested")
    case False
    show ?thesis
    proof (cases "unpack input")
      case (Inr p)
      then obtain rem v where p: "p = (rem, v)" "length rem < length input"
        using assms by (cases p) auto
      with less [of rem "vec @ [v]"] False Inr show ?thesis
        by (fastforce simp: unpack_vec_loop.simps [of _ _ input])
    qed (simp add: unpack_vec_loop.simps False)
  qed (simp add: unpack_vec_loop.simps)
qed

lemma unpack_vec_ends:
  assumes "\<And>i r v. unpack (Suc d) i = Inr (r, v) \<Longrightarrow> length r < length i"
  shows "unpack_vec unpack d input \<noteq> None"
    and "unpack_vec unpack d input = Some (Inr (r, vs)) \<Longrightarrow> 0 < d \<Longrightarrow> length r < length input"
proof -
  have ends: "unpack_vec_loop (unpack (Suc d)) nested i vec \<noteq> None \<and>
      (\<forall>r vs. unpack_vec_loop (unpack (Suc d)) nested i vec = Some (Inr (r, vs)) \<longrightarrow> length r \<le> length i)"
    for nested i vec
    by (rule unpack_vec_loop_ends) (rule assms)
  show "unpack_vec unpack d input \<noteq> None"
    using ends by (cases d) (auto simp: unpack_vec_def split: sum.split)
  assume "unpack_vec unpack d input = Some (Inr (r, vs))" and "0 < d"
  then obtain more_input where "input = NESTED # more_input"
    and "unpack_vec_loop (unpack (Suc d)) True more_input [] = Some (Inr (NIL # r, vs))"
    by (auto simp: unpack_vec_def bind_result_eq_Inr parse_code_eq_Inr split: sum.splits)
  with ends [of True more_input "[]"] show "length r < length input" by fastforce
qed

lemma map_value_eq_Inr: "map_value f r = Inr (rest, y) \<longleftrightarrow> (\<exists>x. r = Inr (rest, x) \<and> y = f x)"
  by (auto simp: map_value_def bind_result_eq_Inr)

lemma field_cons_eq_Inr:
  "field_cons t ts d input = Inr (rest, x) \<longleftrightarrow>
     (\<exists>r v vs. t d input = Inr (r, v) \<and> ts d r = Inr (rest, vs) \<and> x = (v, vs))"
  by (auto simp: field_cons_def bind_result_eq_Inr)

lemmas unpack_fields_Cons = unpack_fields.simps(3)

lemma unpack_fields_shrinks:
  assumes "\<And>t i r v. t \<in> set ts \<Longrightarrow> t d i = Inr (r, v) \<Longrightarrow> length r < length i"
    and "unpack_fields ts d input = Inr (rest, vs)"
  shows "length rest \<le> length input"
  using assms
proof (induction ts arbitrary: input vs rule: unpack_fields.induct)
  case (2 t)
  then show ?case by (fastforce simp: map_value_eq_Inr field_last_def)
next
  case (3 t t' ts)
  from "3.prems"(2) obtain r v vs' where "t d input = Inr (r, v)"
    and "unpack_fields (t' # ts) d r = Inr (rest, vs')"
    by (auto simp only: unpack_fields_Cons map_value_eq_Inr field_cons_eq_Inr)
  with "3.IH" [of r vs'] "3.prems"(1) [of t input r v] "3.prems"(1) show ?case by fastforce
qed simp

lemma unpack_field_shrinks:
  "unpack_field t (Suc d) input = Inr (rest, v) \<Longrightarrow> length rest < length input"
proof (induction t arbitrary: d input rest v)
  case (TOption t)
  then show ?case
    by (fastforce simp: map_value_eq_Inr unpack_option_def bind_result_eq_Inr parse_code_eq_Inr
        split: if_splits)
next
  case (TVec t)
  then obtain vs where "the (unpack_vec (unpack_field t) (Suc d) input) = Inr (rest, vs)"
    by (auto simp: map_value_eq_Inr)
  moreover have "unpack_vec (unpack_field t) (Suc d) input \<noteq> None"
    using unpack_vec_ends(1) [of "unpack_field t", OF TVec.IH] .
  ultimately show ?case using unpack_vec_ends(2) [of "unpack_field t" "Suc d" input, OF TVec.IH] by auto
next
  case (TTuple ts)
  then obtain i vs where "input = NESTED # i"
    and "unpack_fields (map unpack_field ts) (Suc (Suc d)) i = Inr (NIL # rest, vs)"
    by (auto simp: map_value_eq_Inr unpack_tuple_def bind_result_eq_Inr parse_code_eq_Inr)
  with unpack_fields_shrinks [OF _ this(2)] TTuple.IH show ?case by fastforce
qed (auto simp: map_value_eq_Inr unpack_bytes_def unpack_str_def parse_string_def unpack_bool_def
      unpack_versionstamp_def unpack_uuid_def unpack_unit_def bind_result_eq_Inr
      parse_code_eq_Inr parse_byte_eq_Inr
    dest: unpack_ux_shrinks unpack_ix_shrinks unpack_fx_shrinks parse_slice_shrinks
      parse_bytes_shrinks intro: unpack_element_shrinks split: if_splits)

lemma unpack_vec_field: "unpack_vec (unpack_field t) d input \<noteq> None"
  using unpack_field_shrinks by (rule unpack_vec_ends(1))

section \<open>Every component type keeps the contract\<close>

text \<open>The contracts carry over from a type of the library to its constructor of the values.\<close>

lemma codec_wrap:
  assumes c: "codec pack unpack ok stamps"
    and of_type: "\<And>v. has v \<Longrightarrow> \<exists>x. v = C x \<and> ok x"
    and pack: "\<And>d x. pack' d (C x) = pack d x" and stamps: "\<And>x. stamps' (C x) = stamps x"
  shows "codec pack' (\<lambda>d input. map_value C (unpack d input)) has stamps'"
proof
  fix v d bs off
  assume v: "has v" and p: "pack' (Suc d) v = Inr (bs, off)"
  from of_type [OF v] obtain x where x: "v = C x" "ok x" by blast
  with p have px: "pack (Suc d) x = Inr (bs, off)" by (simp add: pack)
  show "bs \<noteq> [] \<and> hd bs \<noteq> ESCAPE" by (rule codec.item_head [OF c x(2) px])
  show "accounts (stamps' v) bs off" using codec.item_accounts [OF c x(2) px] x by (simp add: stamps)
  show "map_value C (unpack (Suc d) (bs @ rest)) = Inr (rest, v)" if "no_escape rest" for rest
    using codec.item_read [OF c x(2) px that] x by (simp add: map_value_def)
next
  fix v d bs off rest
  assume v: "has v" and p: "pack' (Suc (Suc d)) v = Inr (bs, off)"
  from of_type [OF v] obtain x where x: "v = C x" "ok x" by blast
  with p codec.item_not_end [OF c x(2), of d bs off rest] show "\<not> is_end_of_tuple (bs @ rest) True"
    by (simp add: pack)
qed

lemma scalar_codec_wrap:
  assumes c: "scalar_codec pack unpack ok stamps"
    and of_type: "\<And>v. has v \<Longrightarrow> \<exists>x. v = C x \<and> ok x"
    and pack: "\<And>d x. pack' d (C x) = pack d x" and stamps: "\<And>x. stamps' (C x) = stamps x"
  shows "scalar_codec pack' (\<lambda>d input. map_value C (unpack d input)) has stamps'"
proof
  fix v d bs off
  assume v: "has v" and p: "pack' (Suc d) v = Inr (bs, off)"
  from of_type [OF v] obtain x where x: "v = C x" "ok x" by blast
  with p have px: "pack (Suc d) x = Inr (bs, off)" by (simp add: pack)
  show "bs \<noteq> [] \<and> hd bs \<noteq> NIL \<and> hd bs \<noteq> ESCAPE" by (rule scalar_codec.scalar_head [OF c x(2) px])
  show "accounts (stamps' v) bs off"
    using scalar_codec.scalar_accounts [OF c x(2) px] x by (simp add: stamps)
  show "map_value C (unpack (Suc d) (bs @ rest)) = Inr (rest, v)" if "no_escape rest" for rest
    using scalar_codec.scalar_read [OF c x(2) px that] x by (simp add: map_value_def)
qed

abbreviation field_codec :: "field_type \<Rightarrow> bool" where
  "field_codec t \<equiv> codec (\<lambda>d v. pack_field v d) (unpack_field t) (has_type t) field_stamps"

abbreviation plain_codec :: "field_type \<Rightarrow> bool" where
  "plain_codec t \<equiv> scalar_codec (\<lambda>d v. pack_field v d) (unpack_field t) (has_type t) field_stamps"

lemma plain_codec_scalars:
  shows "plain_codec TU16" and "plain_codec TU32" and "plain_codec TU64" and "plain_codec TU128"
    and "plain_codec TI16" and "plain_codec TI32" and "plain_codec TI64" and "plain_codec TI128"
    and "plain_codec TF32" and "plain_codec TF64" and "plain_codec TBool" and "plain_codec TBytes"
    and "plain_codec TString" and "plain_codec TUuid" and "plain_codec TVersionstamp"
    and "plain_codec TUnit"
proof -
  show "plain_codec TU16" unfolding unpack_field.simps
    by (rule scalar_codec_wrap [OF u16.scalar_codec_axioms]) (auto split: field_value.splits)
  show "plain_codec TU32" unfolding unpack_field.simps
    by (rule scalar_codec_wrap [OF u32.scalar_codec_axioms]) (auto split: field_value.splits)
  show "plain_codec TU64" unfolding unpack_field.simps
    by (rule scalar_codec_wrap [OF u64.scalar_codec_axioms]) (auto split: field_value.splits)
  show "plain_codec TU128" unfolding unpack_field.simps
    by (rule scalar_codec_wrap [OF u128.scalar_codec_axioms]) (auto split: field_value.splits)
  show "plain_codec TI16" unfolding unpack_field.simps
    by (rule scalar_codec_wrap [OF i16.scalar_codec_axioms]) (auto split: field_value.splits)
  show "plain_codec TI32" unfolding unpack_field.simps
    by (rule scalar_codec_wrap [OF i32.scalar_codec_axioms]) (auto split: field_value.splits)
  show "plain_codec TI64" unfolding unpack_field.simps
    by (rule scalar_codec_wrap [OF i64.scalar_codec_axioms]) (auto split: field_value.splits)
  show "plain_codec TI128" unfolding unpack_field.simps
    by (rule scalar_codec_wrap [OF i128.scalar_codec_axioms]) (auto split: field_value.splits)
  show "plain_codec TF32" unfolding unpack_field.simps
    by (rule scalar_codec_wrap [OF f32.scalar_codec_axioms]) (auto split: field_value.splits)
  show "plain_codec TF64" unfolding unpack_field.simps
    by (rule scalar_codec_wrap [OF f64.scalar_codec_axioms]) (auto split: field_value.splits)
  show "plain_codec TBool" unfolding unpack_field.simps
    by (rule scalar_codec_wrap [OF bool_codec.scalar_codec_axioms]) (auto split: field_value.splits)
  show "plain_codec TBytes" unfolding unpack_field.simps
    by (rule scalar_codec_wrap [OF byte_string.scalar_codec_axioms]) (auto split: field_value.splits)
  show "plain_codec TString" unfolding unpack_field.simps
    by (rule scalar_codec_wrap [OF str.scalar_codec_axioms]) (auto split: field_value.splits)
  show "plain_codec TUuid" unfolding unpack_field.simps
    by (rule scalar_codec_wrap [OF uuid.scalar_codec_axioms]) (auto split: field_value.splits)
  show "plain_codec TVersionstamp" unfolding unpack_field.simps
    by (rule scalar_codec_wrap [OF stamp.scalar_codec_axioms]) (auto split: field_value.splits)
  show "plain_codec TUnit" unfolding unpack_field.simps
    by (rule scalar_codec_wrap [OF unit_codec.scalar_codec_axioms]) (auto split: field_value.splits)
qed

lemma field_codec_element: "field_codec TElement"
  unfolding unpack_field.simps
  by (rule codec_wrap [OF element.codec_axioms]) (auto split: field_value.splits)

context scalar_codec begin

lemma as_codec: "codec pack unpack wf stamps"
  by (rule plain.codec_axioms)

lemma option_codec: "codec (pack_option pack) (unpack_option unpack) (pred_option wf)
    (\<lambda>x. case x of None \<Rightarrow> 0 | Some v \<Rightarrow> stamps v)"
  by (rule opt.codec_axioms)

end

lemma field_codec_option:
  assumes "plain_codec t"
  shows "field_codec (TOption t)"
  unfolding unpack_field.simps
  by (rule codec_wrap [OF scalar_codec.option_codec [OF assms]])
    (auto simp: pack_option_def split: field_value.splits option.splits)

lemma pack_slice_map: "pack_slice (\<lambda>d item. item d) d (map pack_field vs) =
    pack_slice (\<lambda>d v. pack_field v d) d vs"
  by (simp add: pack_slice_def comp_def)

lemma plain_codec_vec:
  assumes c: "field_codec t"
  shows "plain_codec (TVec t)"
proof
  fix v d bs off
  assume "has_type (TVec t) v" and "pack_field v (Suc d) = Inr (bs, off)"
  then obtain vs where v: "v = FVec vs" and vs: "list_all (has_type t) vs"
    and p: "pack_slice (\<lambda>d v. pack_field v d) (Suc d) vs = Inr (bs, off)"
    by (auto simp: pack_slice_map split: field_value.splits)
  show "bs \<noteq> [] \<and> hd bs \<noteq> NIL \<and> hd bs \<noteq> ESCAPE" using codec.slice_head [OF c p vs] by auto
  show "accounts (field_stamps v) bs off" using codec.slice_accounts [OF c vs p] v by simp
  show "unpack_field (TVec t) (Suc d) (bs @ rest) = Inr (rest, v)" if "no_escape rest" for rest
    using codec.slice_read [OF c vs p, of rest] that v by (simp add: map_value_def)
qed

text \<open>The components of a tuple, one by one.\<close>

lemma seq_reads_map_value:
  "seq_reads items reader x \<Longrightarrow> seq_reads items (\<lambda>input. map_value f (reader input)) (f x)"
  unfolding seq_reads_def map_value_def by fastforce

lemma fields_read:
  assumes "\<And>t. t \<in> set ts \<Longrightarrow> field_codec t" and "list_all2 has_type ts vs" and "ts \<noteq> []"
  shows "seq_reads (map (\<lambda>v. pack_field v (Suc d)) vs) (unpack_fields (map unpack_field ts) (Suc d)) vs"
  using assms
proof (induction ts arbitrary: vs rule: induct_list012)
  case (2 t)
  then obtain v where "vs = [v]" "has_type t v" by (auto simp: list_all2_Cons1)
  with codec.seq_last [OF "2.prems"(1), of t v d] show ?case
    by (auto intro: seq_reads_map_value [where f = "\<lambda>v. [v]"])
next
  case (3 t t' ts)
  then obtain v vs' where vs: "vs = v # vs'" "has_type t v" "list_all2 has_type (t' # ts) vs'"
    by (auto simp: list_all2_Cons1)
  have "seq_reads (map (\<lambda>v. pack_field v (Suc d)) vs') (unpack_fields (map unpack_field (t' # ts)) (Suc d)) vs'"
    by (rule "3.IH"(2)) (use "3.prems"(1) vs(3) in auto)
  moreover have "field_codec t" using "3.prems"(1) by simp
  ultimately
  have "seq_reads (map (\<lambda>v. pack_field v (Suc d)) vs)
      (field_cons (unpack_field t) (unpack_fields (map unpack_field (t' # ts))) (Suc d)) (v, vs')"
    using codec.seq_cons [of "\<lambda>d v. pack_field v d" "unpack_field t" "has_type t" field_stamps v
        "map (\<lambda>v. pack_field v (Suc d)) vs'" "unpack_fields (map unpack_field (t' # ts))" d vs'] vs
    by simp
  from seq_reads_map_value [OF this, of "\<lambda>(v, vs). v # vs"] show ?case
    by (simp add: vs(1))
qed simp

lemma pack_items_accounts:
  assumes "\<And>v bs off. v \<in> set vs \<Longrightarrow> pack v = Inr (bs, off) \<Longrightarrow> accounts (stamps v) bs off"
    and "pack_items (map pack vs) w off = Inr (w', off')" and "accounts n w off"
  shows "accounts (n + sum_list (map stamps vs)) w' off'"
  using assms
proof (induction vs arbitrary: n w off)
  case (Cons v vs)
  then obtain bs o1 where p: "pack v = Inr (bs, o1)"
    and ps: "pack_items (map pack vs) (w @ bs) (add_offset off o1) = Inr (w', off')"
    by (auto simp: bind_result_eq_Inr)
  have "accounts (n + stamps v) (w @ bs) (add_offset off o1)"
    using Cons.prems p by (intro accounts_append) auto
  from Cons.IH [OF _ ps this] Cons.prems(1) show ?case by (simp add: add.assoc)
qed simp

lemma pack_tuple_Suc:
  assumes "pack_tuple (Suc d) items = Inr (bs, off)"
  obtains w off' where "pack_items (map (\<lambda>item. item (Suc (Suc d))) items) [NESTED] (VNone 1) = Inr (NESTED # w, off')"
    and "bs = NESTED # w @ [NIL]" and "off = add_offset off' (VNone 1)"
  using assms pack_items_from [of "map (\<lambda>item. item (Suc (Suc d))) items" "[NESTED]" "VNone 1"]
  by (auto simp: pack_tuple_def bind_result_eq_Inr add_size_eq)

lemma plain_codec_tuple:
  assumes "\<And>t. t \<in> set ts \<Longrightarrow> field_codec t" and "ts \<noteq> []"
  shows "plain_codec (TTuple ts)"
proof
  fix v d bs off
  assume "has_type (TTuple ts) v" and p: "pack_field v (Suc d) = Inr (bs, off)"
  then obtain vs where v: "v = FTuple vs" and vs: "list_all2 has_type ts vs"
    by (auto simp: list_all2_map1 split: field_value.splits)
  from p v have p: "pack_tuple (Suc d) (map pack_field vs) = Inr (bs, off)" by simp
  then obtain w off' where w: "pack_items (map (\<lambda>v. pack_field v (Suc (Suc d))) vs) [NESTED] (VNone 1) =
      Inr (NESTED # w, off')" "bs = NESTED # w @ [NIL]" "off = add_offset off' (VNone 1)"
    by (rule pack_tuple_Suc) (simp add: comp_def)
  then show "bs \<noteq> [] \<and> hd bs \<noteq> NIL \<and> hd bs \<noteq> ESCAPE" by simp
  have stamps: "accounts (field_stamps x) b o'"
    if x: "x \<in> set vs" and px: "pack_field x (Suc (Suc d)) = Inr (b, o')" for x b o'
  proof -
    from x vs obtain t where "t \<in> set ts" "has_type t x"
      by (fastforce simp: list_all2_conv_all_nth in_set_conv_nth)
    with codec.item_accounts [OF assms(1) _ px] show ?thesis by blast
  qed
  have "accounts (0 + sum_list (map field_stamps vs)) (NESTED # w) off'"
    by (rule pack_items_accounts [OF stamps w(1)]) (simp_all add: accounts_0)
  from accounts_append [OF this accounts_plain [of "[NIL]"]]
  show "accounts (field_stamps v) bs off" by (simp add: v w)
  show "unpack_field (TTuple ts) (Suc d) (bs @ rest) = Inr (rest, v)" if "no_escape rest" for rest
    using tuple_read [OF _ p, of "unpack_fields (map unpack_field ts)" vs rest]
      fields_read [OF assms(1) vs assms(2)] that
    by (simp add: v map_value_def comp_def)
qed

lemma field_contracts:
  "wf_type t \<Longrightarrow> field_codec t \<and> (plain_type t \<longrightarrow> plain_codec t)"
proof (induction t)
  case (TOption t)
  then have "field_codec (TOption t)" by (intro field_codec_option) simp
  then show ?case by (simp only: plain_type.simps simp_thms)
next
  case (TVec t)
  then have "plain_codec (TVec t)" using plain_codec_vec by simp
  then show ?case using scalar_codec.as_codec by blast
next
  case (TTuple ts)
  then have "plain_codec (TTuple ts)"
    by (intro plain_codec_tuple) (auto simp: list_all_iff)
  then show ?case using scalar_codec.as_codec by blast
qed (simp_all add: plain_codec_scalars field_codec_element scalar_codec.as_codec
    del: unpack_field.simps has_type.simps)

text \<open>Tuples of component types, at any depth.\<close>

lemma typed_tuple_read:
  assumes "wf_type (TTuple ts)" and "list_all2 has_type ts vs"
    and "pack_tuple d (map pack_field vs) = Inr (bs, off)"
    and "if d = 0 then rest = [] else no_escape rest"
  shows "unpack_tuple (unpack_fields (map unpack_field ts)) d (bs @ rest) = Inr (rest, vs)"
proof (rule tuple_read [OF _ assms(3,4)])
  have "field_codec t" if "t \<in> set ts" for t
    using assms(1) that field_contracts by (auto simp: list_all_iff)
  from fields_read [OF this assms(2), of d] assms(1)
  show "seq_reads (map (\<lambda>item. item (Suc d)) (map pack_field vs))
      (unpack_fields (map unpack_field ts) (Suc d)) vs" by (simp add: comp_def)
qed

end
