(* ===== verification/Tuple_Properties.thy ===== *)
theory Tuple_Properties
  imports Tuple_Fields
begin

text \<open>The properties of the tuple layer, over the lemmas of its theories.\<close>

section \<open>Values and their encodings\<close>

text \<open>
  C14.  Every dynamically typed value that is packed at the root is read back, with nothing left
  over: the result is the value itself, up to a tuple around one value that is not a tuple, which
  has the same encoding as the value.
\<close>

theorem element_round_trip:
  assumes "wf_element e" and "pack_element 0 e = Inr (bs, off)"
  shows "unpack_root unpack_element bs = Inr (root_form e)"
  using assms by (rule element_root_read)

theorem element_round_trip_witness:
  "unpack_root unpack_element [0x15, 5, 0x05, 0x01, 0, 0xff, 0xff, 0, 0, 0xff, 0, 0x02, 0x41, 0] =
     Inr (ETuple [EInt 5, ETuple [EBytes [0, 0xff], ENil], EString [0x41]])"
proof -
  have "pack_element 0 (ETuple [EInt 5, ETuple [EBytes [0, 0xff], ENil], EString [0x41]]) =
      Inr ([0x15, 5, 0x05, 0x01, 0, 0xff, 0xff, 0, 0, 0xff, 0, 0x02, 0x41, 0], VNone 14)"
    by (simp add: pack_eval)
  from element_round_trip [OF _ this] show ?thesis by simp
qed

text \<open>
  C15.  The order of the keys is the order of the values: for any two dynamically typed values
  packed at the root, the byte strings compare exactly as \<^verbatim>\<open>Element::cmp\<close> compares the
  values.
\<close>

theorem element_order:
  assumes "wf_element a" and "wf_element b"
    and "pack_element 0 a = Inr (bs, o1)" and "pack_element 0 b = Inr (cs, o2)"
  shows "(bs < cs \<longleftrightarrow> cmp_at_root a b = Less) \<and> (bs = cs \<longleftrightarrow> cmp_at_root a b = Equal)"
proof (cases "cmp_at_root a b")
  case Less
  with root_less [OF assms(1,2) _ assms(3,4)] show ?thesis by auto
next
  case Equal
  then have "root_form a = root_form b" by (simp only: cmp_at_root_Equal)
  then have "cmp_values a = cmp_values b" using cmp_values_root_form by metis
  with assms(3,4) Equal show ?thesis by (simp add: pack_cmp_values)
next
  case Greater
  then have "cmp_at_root b a = Less" using cmp_at_root_reverse [of a b] by simp
  with root_less [OF assms(2,1) _ assms(4,3)] Greater show ?thesis by auto
qed

theorem element_order_witness:
  "(([0x05, 0x15, 5, 0, 0x02, 0x41, 0] :: bytes) < [0x14] \<longleftrightarrow>
      cmp_at_root (ETuple [ETuple [EInt 5], EString [0x41]]) (EInt 0) = Less) \<and>
   (([0x05, 0x15, 5, 0, 0x02, 0x41, 0] :: bytes) = [0x14] \<longleftrightarrow>
      cmp_at_root (ETuple [ETuple [EInt 5], EString [0x41]]) (EInt 0) = Equal)"
  by (rule element_order [where ?o1.0 = "VNone 7" and ?o2.0 = "VNone 1"]) (simp_all add: pack_eval)

text \<open>
  Signed integers are written by value: at every width (16 to 128 bits) the reader of any
  other width gives back the same number when it is representable there and an error otherwise,
  whatever follows.
\<close>

theorem integer_round_trip:
  fixes x :: "'a::len word"
  assumes "byte_sized x" and "8 dvd LENGTH('b::len)" and "pack_ix d x = Inr (bs, off)"
  shows "(if - (2 ^ (LENGTH('b) - 1)) \<le> sint x \<and> sint x < 2 ^ (LENGTH('b) - 1)
          then (unpack_ix d' (bs @ rest) :: pack_error + bytes \<times> 'b word) = Inr (rest, word_of_int (sint x))
          else (\<exists>e. (unpack_ix d' (bs @ rest) :: pack_error + bytes \<times> 'b word) = Inl e)) \<and>
         off = VNone (of_nat (length bs))"
proof -
  have bs: "bs = int_enc (sint x)" "off = VNone (of_nat (length bs))"
    using assms(3) pack_ix_eq [OF assms(1)] by auto
  note len = int_len_word_less(2) [OF assms(1)]
  show ?thesis
    using unpack_ix_int_enc(1) [OF assms(2) len, of d' rest]
      unpack_ix_int_enc(2) [OF assms(2) len, of d' rest] bs by auto
qed

theorem integer_round_trip_witness:
  "(unpack_ix 0 [0x13, 0xd5] :: pack_error + bytes \<times> u16) = Inr ([], -42)"
proof -
  have "pack_ix 0 (-42 :: u64) = Inr ([0x13, 0xd5], VNone 2)" by (simp add: pack_eval)
  from integer_round_trip [where ?'b = 16, OF _ _ this, of 0 "[]"] show ?thesis
    by (simp add: byte_sized_def)
qed

text \<open>
  Integer encodings of all widths, signed and unsigned, are ordered as the numbers they
  stand for, whatever follows them.
\<close>

theorem integer_order:
  fixes x :: "'a::len word" and y :: "'b::len word"
  assumes "byte_sized x" and "byte_sized y"
    and "pack_ix d x = Inr (bs, o1)" and "pack_ux d' y = Inr (cs, o2)"
  shows "(sint x < uint y \<longrightarrow> bs @ r < cs @ s) \<and> (uint y < sint x \<longrightarrow> cs @ s < bs @ r)"
  using assms int_enc_less [OF _ int_len_word_less(2) [OF assms(1)] int_len_word_less(1) [OF assms(2)]]
    int_enc_less [OF _ int_len_word_less(1) [OF assms(2)] int_len_word_less(2) [OF assms(1)]]
  by (auto simp: pack_ix_eq pack_ux_eq)

theorem integer_order_witness:
  "[0x13, 0xd5] @ [1] < [0x15, 7 :: byte] @ []"
proof -
  have 1: "pack_ix 0 (-42 :: u64) = Inr ([0x13, 0xd5], VNone 2)" by (simp add: pack_eval)
  have 2: "pack_ux 0 (7 :: u16) = Inr ([0x15, 7], VNone 2)"
    by (subst pack_ux_eq) (simp_all add: byte_sized_def pack_eval)
  from integer_order [OF _ _ 1 2, of "[1]" "[]"] show ?thesis by (simp add: byte_sized_def)
qed

text \<open>
  Floating-point numbers are read back bit for bit, NaN payloads included, and their
  encodings are ordered by the total order of IEEE 754: negative numbers below positive ones,
  by magnitude within each.
\<close>

theorem float_round_trip_and_order:
  fixes f g :: "'a::len word"
  assumes "8 dvd LENGTH('a)" and "pack_fx c d f = Inr (bs, o1)" and "pack_fx c d g = Inr (cs, o2)"
  shows "unpack_fx c d' (bs @ r) = Inr (r, f) \<and>
    (total_order_key f < total_order_key g \<longrightarrow> bs @ r < cs @ s)"
  using unpack_pack_fx [OF assms(1,2)] fx_bytes_less_iff [OF assms(1), of f g] assms(2,3)
  by (auto simp: pack_fx_def fx_to_ux_be_bytes_def size_of_def less_same_length_append)

theorem float_round_trip_and_order_witness:
  "unpack_fx FLOAT 0 [0x20, 0x7f, 0xff, 0xff, 0xff] = Inr ([], 0x80000000 :: u32) \<and>
   ([0x20, 0x7f, 0xff, 0xff, 0xff] :: bytes) < [0x20, 0x80, 0, 0, 0]"
proof -
  have 1: "pack_fx FLOAT 0 (0x80000000 :: u32) = Inr ([0x20, 0x7f, 0xff, 0xff, 0xff], VNone 5)"
    by (simp add: pack_fx_def FLOAT_def fx_to_ux_be_bytes_def fx_to_ux_def is_sign_negative_def
        to_be_bytes_def size_of_def bit_simps)
  have 2: "pack_fx FLOAT 0 (0 :: u32) = Inr ([0x20, 0x80, 0, 0, 0], VNone 5)"
    by (simp add: pack_fx_def FLOAT_def fx_to_ux_be_bytes_def fx_to_ux_def is_sign_negative_def
        to_be_bytes_def size_of_def sign_bit_def)
  from float_round_trip_and_order [OF _ 1 2, of 0 "[]" "[]"] show ?thesis by simp
qed

text \<open>
  C25.  The writer of byte strings, which copies the input between the positions that
  \<^verbatim>\<open>memchr\<close> finds, writes every byte with each zero byte escaped and then the terminator;
  it fails exactly when the length is not a \<^verbatim>\<open>u32\<close>.  The reader succeeds exactly on
  the inputs that start with such an encoding which no escape byte follows: it returns the
  string that was written and everything after its terminator.  Every other input, one without
  a terminator among them, is refused with \<^verbatim>\<open>MissingBytes\<close>.
\<close>

theorem byte_string_codec:
  "write_bytes v = (if length v < 2 ^ 32
      then Inr (concat (map (\<lambda>b. if b = NIL then [NIL, ESCAPE] else [b]) v) @ [NIL],
                VNone (of_nat (length (concat (map (\<lambda>b. if b = NIL then [NIL, ESCAPE] else [b]) v)) + 2)))
      else Inl InvalidData) \<and>
   (parse_slice input = Inr (rest, u) \<longleftrightarrow>
      input = concat (map (\<lambda>b. if b = NIL then [NIL, ESCAPE] else [b]) u) @ NIL # rest \<and>
      no_escape rest) \<and>
   (parse_slice input = Inl e \<longleftrightarrow> e = MissingBytes \<and>
      (\<nexists>u rest. input = concat (map (\<lambda>b. if b = NIL then [NIL, ESCAPE] else [b]) u) @ NIL # rest \<and>
        no_escape rest))"
  using write_bytes_eq [of v] unescape_Inr_iff [of input rest u] unescape_Inl_iff [of input e]
  by (simp only: parse_slice_eq escape_def)

text \<open>
  C16.  A tuple of one to twelve components of any of the library's types (integers, floats,
  booleans, byte strings, strings, UUIDs, versionstamps, the unit, dynamically typed elements,
  and options, vectors and tuples of them nested in each other) is read back by the macro's
  \<^verbatim>\<open>unpack\<close>, at the root and at every nesting depth, with everything that follows it
  left over.  An \<^verbatim>\<open>Option\<close> is of a type that is not itself an \<^verbatim>\<open>Option\<close> or
  \<^verbatim>\<open>Element\<close>: those have a \<^verbatim>\<open>None\<close> of their own that is written like the outer one.  The
  decoder of \<^verbatim>\<open>Vec<T>\<close> returns on every input, for every such \<^verbatim>\<open>T\<close>.
\<close>

theorem tuple_round_trip:
  assumes "wf_type (TTuple ts)" and "list_all2 has_type ts vs"
    and "pack_tuple d (map pack_field vs) = Inr (bs, off)"
    and "if d = 0 then rest = [] else no_escape rest"
  shows "unpack_tuple (unpack_fields (map unpack_field ts)) d (bs @ rest) = Inr (rest, vs) \<and>
    unpack_vec (unpack_field t) d' input \<noteq> None"
  using typed_tuple_read [OF assms] unpack_vec_field by (rule conjI)

text \<open>The types \<^verbatim>\<open>(u64, Option<String>, Vec<Element>, (bool, Option<i64>))\<close>.\<close>

theorem tuple_round_trip_witness:
  "unpack_tuple (unpack_fields (map unpack_field
      [TU64, TOption TString, TVec TElement, TTuple [TBool, TOption TI64]])) 0
      [0x15, 7, 0x00, 0x05, 0x00, 0xff, 0x27, 0x00, 0x05, 0x26, 0x00, 0xff, 0x00] =
    Inr ([], [FU64 7, FOption None, FVec [FElement ENil, FElement (EBool True)],
      FTuple [FBool False, FOption None]])"
proof -
  let ?ts = "[TU64, TOption TString, TVec TElement, TTuple [TBool, TOption TI64]]"
  let ?vs = "[FU64 7, FOption None, FVec [FElement ENil, FElement (EBool True)],
      FTuple [FBool False, FOption None]]"
  have "pack_tuple 0 (map pack_field ?vs) =
    Inr ([0x15, 7, 0x00, 0x05, 0x00, 0xff, 0x27, 0x00, 0x05, 0x26, 0x00, 0xff, 0x00], VNone 13)"
    by (simp add: pack_tuple_def pack_eval)
  from tuple_round_trip [OF _ _ this, of ?ts "[]"] show ?thesis by simp
qed

text \<open>
  Decoding never runs forever: \<^verbatim>\<open>Vec<Element>\<close> is decided on every input at every
  depth, and decoding one \<^verbatim>\<open>Element\<close> at the root is decoding the sequence of elements, with
  the same errors, up to the form of the result.
\<close>

theorem element_decoder_total:
  "unpack_vec unpack_element d input \<noteq> None \<and>
   Some (unpack_root unpack_element input) =
     map_option (map_sum id (\<lambda>vs. root_form (ETuple vs)))
       (map_option (\<lambda>r. bind_result r (\<lambda>(input, vs). if input \<noteq> [] then Inl TrailingBytes else Inr vs))
         (unpack_vec unpack_element 0 input))"
proof
  show "unpack_vec unpack_element d input \<noteq> None"
    by (simp add: unpack_vec_def unpack_vec_loop_element Let_def split: sum.splits)
  show "Some (unpack_root unpack_element input) =
     map_option (map_sum id (\<lambda>vs. root_form (ETuple vs)))
       (map_option (\<lambda>r. bind_result r (\<lambda>(input, vs). if input \<noteq> [] then Inl TrailingBytes else Inr vs))
         (unpack_vec unpack_element 0 input))"
    by (cases "unpack_elements (Suc 0) False input")
      (auto simp: unpack_root_def unpack_vec_def unpack_vec_loop_element unpack_element_root map_value_def)
qed

section \<open>Subspaces\<close>

text \<open>
  A key with one incomplete versionstamp, wherever it is, in the prefix or in nested tuples
  of the value: what is appended is the position of the stamp's ten bytes, in two bytes before
  API 520 and in four afterwards.
\<close>

theorem subspace_versionstamp_key:
  assumes "wf_subspace n s" and "wf_element e" and "pack_element 0 e = Inr (bs, off)"
    and "n + count_incomplete_versionstamp e = 1"
    and "length (prefix s @ bs) < (if api_version < 520 then 2 ^ 16 else 2 ^ 32)"
  shows "\<exists>p. stamp_at (prefix s @ bs) p \<and>
    subspace_pack_with_versionstamp_for_key pack_element s e api_version =
      Some (prefix s @ bs @ rev (nat_be (if api_version < 520 then 2 else 4) p))"
  using assms by (rule stamped_key)

theorem subspace_versionstamp_key_witness:
  "\<exists>p. stamp_at ([0x02, 0x41, 0] @ [0x33] @ replicate 10 0xff @ [0, 9]) p \<and>
    subspace_pack_with_versionstamp_for_key pack_element
      \<lparr>prefix = [0x02, 0x41, 0], versionstamp_offset = VNone 3\<rparr> (EVersionstamp (incomplete 9)) 510 =
      Some ([0x02, 0x41, 0] @ ([0x33] @ replicate 10 0xff @ [0, 9]) @ rev (nat_be 2 p))"
proof -
  have "pack_element 0 (EVersionstamp (incomplete 9)) =
      Inr ([0x33] @ replicate 10 0xff @ [0, 9], OneIncomplete 1)"
    by (simp add: pack_versionstamp_def)
      (simp add: incomplete_def to_be_bytes_def size_of_def VERSIONSTAMP_def)
  from subspace_versionstamp_key [OF _ _ this, of 0 "\<lparr>prefix = [0x02, 0x41, 0], versionstamp_offset = VNone 3\<rparr>" 510]
  show ?thesis by (simp add: wf_subspace_def accounts_0)
qed

text \<open>
  C26.  The accounting behind it, as an invariant: packing at the root always returns the exact
  account of the incomplete versionstamps of the output (none and the size, the position of the
  only one, or the mark that there are several), and every way to make a subspace keeps it.
\<close>

theorem versionstamp_accounting:
  assumes "wf_element e"
  shows "(pack_element 0 e = Inr (bs, off) \<longrightarrow> accounts (count_incomplete_versionstamp e) bs off) \<and>
    wf_subspace 0 subspace_all \<and>
    (from_bytes p = Some s \<longrightarrow> wf_subspace 0 s) \<and>
    (subspace_from pack_element e = Some s \<longrightarrow> wf_subspace (count_incomplete_versionstamp e) s) \<and>
    (wf_subspace n s0 \<longrightarrow> subspace pack_element s0 e = Some s \<longrightarrow>
       wf_subspace (n + count_incomplete_versionstamp e) s)"
  using assms element_root_accounts wf_subspace_all wf_from_bytes wf_subspace_from
    wf_subspace_subspace by blast

theorem versionstamp_accounting_witness:
  "accounts 0 [0x15, 5] (VNone 2)"
  using versionstamp_accounting [of "EInt 5" "[0x15, 5]" "VNone 2"] by (simp add: pack_eval)

text \<open>
  C27.  A subspace gives back what was packed in it, and refuses every key that does not start
  with its prefix.
\<close>

theorem subspace_round_trip:
  assumes "wf_element e" and "subspace_pack pack_element s e = Some key"
  shows "subspace_unpack unpack_element s key = Inr (root_form e) \<and> is_start_of s key \<and>
    (\<forall>k. \<not> (\<exists>rest. k = prefix s @ rest) \<longrightarrow> subspace_unpack unpack_element s k = Inl BadPrefix)"
  using unpack_pack_subspace [OF assms] assms(2)
  by (auto simp: subspace_unpack_def is_start_of_def starts_with_append subspace_pack_def pack_into_vec_eq)

theorem subspace_round_trip_witness:
  "subspace_unpack unpack_element \<lparr>prefix = [0x61], versionstamp_offset = VNone 1\<rparr> [0x61, 0x15, 5] =
     Inr (EInt 5)"
  using subspace_round_trip [of "EInt 5" "\<lparr>prefix = [0x61], versionstamp_offset = VNone 1\<rparr>" "[0x61, 0x15, 5]"]
  by (simp add: subspace_pack_def pack_into_vec_def pack_eval)

text \<open>
  A child subspace, and a key packed in a subspace, are the ones of the joined tuple: tuple
  prefixes nest by concatenation.
\<close>

theorem subspace_joins_tuples:
  assumes "subspace_from pack_element (ETuple xs) = Some s"
  shows "(subspace pack_element s (ETuple ys) = Some s' \<longrightarrow>
      subspace_from pack_element (ETuple (xs @ ys)) = Some s') \<and>
    subspace_pack pack_element s (ETuple ys) = pack_to_vec pack_element (ETuple (xs @ ys))"
  using subspace_nested [OF assms] subspace_pack_nested [OF assms] by blast

theorem subspace_joins_tuples_witness:
  "subspace_pack pack_element \<lparr>prefix = [0x15, 5], versionstamp_offset = VNone 2\<rparr> (ETuple [EInt 6]) =
     pack_to_vec pack_element (ETuple [EInt 5, EInt 6])"
  using subspace_joins_tuples [of "[EInt 5]" "\<lparr>prefix = [0x15, 5], versionstamp_offset = VNone 2\<rparr>"]
  by (simp add: subspace_from_def pack_into_vec_def pack_eval)

text \<open>
  The range of a subspace holds exactly the keys that extend its prefix by at least one
  byte, the first of them not \<^verbatim>\<open>0xff\<close>; every non-empty tuple packed in the subspace is
  such a key.
\<close>

theorem subspace_range_keys:
  assumes "subspace_range s = (lo, hi)"
  shows "(lo \<le> key \<and> key < hi \<longleftrightarrow> (\<exists>b rest. key = prefix s @ b # rest \<and> b \<noteq> 0xff)) \<and>
    (list_all wf_element (e # es) \<longrightarrow> subspace_pack pack_element s (ETuple (e # es)) = Some k \<longrightarrow>
       lo \<le> k \<and> k < hi)"
proof (intro conjI [OF subspace_range_iff [OF assms]] impI)
  assume wf: "list_all wf_element (e # es)"
    and "subspace_pack pack_element s (ETuple (e # es)) = Some k"
  then obtain bs off where bs: "pack_slice pack_element 0 (e # es) = Inr (bs, off)" "k = prefix s @ bs"
    by (auto simp: subspace_pack_def pack_into_vec_eq)
  from bs(1) obtain b o1 where b: "pack_element (Suc 0) e = Inr (b, o1)"
    and items: "pack_items (map (pack_element (Suc 0)) es) b o1 = Inr (bs, off)"
    by (auto simp: pack_slice_def bind_result_eq_Inr)
  from items obtain b' where bs': "bs = b @ b'"
    using pack_items_from [of "map (pack_element (Suc 0)) es" b o1] by (auto simp: bind_result_eq_Inr)
  from element.item_head [OF _ b] wf have "b \<noteq> []" "hd b \<noteq> 0xff" by (auto simp: ESCAPE_def)
  then show "lo \<le> k \<and> k < hi"
    unfolding subspace_range_iff [OF assms] bs(2) bs' by (cases b) auto
qed

theorem subspace_range_keys_witness:
  "([0x61, 0] :: bytes) \<le> [0x61, 0x15, 5] \<and> ([0x61, 0x15, 5] :: bytes) < [0x61, 0xff]"
  using subspace_range_keys [of "\<lparr>prefix = [0x61], versionstamp_offset = VNone 1\<rparr>" "[0x61, 0]"
      "[0x61, 0xff]" "[0x61, 0x15, 5]" "EInt 5" "[]" "[0x61, 0x15, 5]"]
  by (simp add: subspace_range_def subspace_pack_def pack_into_vec_def pack_eval)

text \<open>
  The printed forms of subspaces and of byte strings are unambiguous: different prefixes
  and different byte strings print differently.
\<close>

theorem display_injective:
  "(fmt_subspace s = fmt_subspace s' \<longleftrightarrow> prefix s = prefix s') \<and>
   (fmt_bytes bs = fmt_bytes cs \<longleftrightarrow> bs = cs)"
  by (simp add: fmt_subspace_inj fmt_bytes_inj)

end
