(* ===== verification/Range_Scan.thy ===== *)
theory Range_Scan
  imports Tuple_Subspace
begin

text \<open>
  Key selectors (\<^verbatim>\<open>keyselector.rs\<close>), range options and the paging of range reads
  (\<^verbatim>\<open>transaction.rs\<close>).  The native client is not part of the repository: its operations
  on a transaction are the fields of \<open>'s kv\<close>, for a type \<open>'s\<close> of transaction states, and what
  its documentation promises of them is the locale \<open>kv_store\<close>.
\<close>

section \<open>Key selectors and range options\<close>

text \<open>\<^verbatim>\<open>FdbError\<close>: the code of the native client, an \<^verbatim>\<open>i32\<close>.\<close>

datatype fdb_error = FdbError (error_code: u32)

record key_selector =
  ks_key :: bytes
  or_equal :: bool
  offset :: int

definition ks_new :: "bytes \<Rightarrow> bool \<Rightarrow> int \<Rightarrow> key_selector" where
  "ks_new key eq off = \<lparr>ks_key = key, or_equal = eq, offset = off\<rparr>"

definition last_less_than :: "bytes \<Rightarrow> key_selector" where
  "last_less_than key = ks_new key False 0"

definition last_less_or_equal :: "bytes \<Rightarrow> key_selector" where
  "last_less_or_equal key = ks_new key True 0"

definition first_greater_than :: "bytes \<Rightarrow> key_selector" where
  "first_greater_than key = ks_new key True 1"

definition first_greater_or_equal :: "bytes \<Rightarrow> key_selector" where
  "first_greater_or_equal key = ks_new key False 1"

definition make_first_greater_or_equal :: "bytes \<Rightarrow> key_selector \<Rightarrow> key_selector" where
  "make_first_greater_or_equal key ks = ks\<lparr>ks_key := key, or_equal := False, offset := 1\<rparr>"

definition make_first_greater_than :: "bytes \<Rightarrow> key_selector \<Rightarrow> key_selector" where
  "make_first_greater_than key ks = ks\<lparr>ks_key := key, or_equal := True, offset := 1\<rparr>"

text \<open>\<^verbatim>\<open>target_bytes\<close> and \<^verbatim>\<open>mode\<close> are only handed to the native client; the mode is its code.\<close>

record range_option =
  ro_begin :: key_selector
  ro_end :: key_selector
  limit :: "nat option"
  target_bytes :: nat
  mode :: int
  rev_order :: bool

definition default_range :: range_option where
  "default_range = \<lparr>ro_begin = first_greater_or_equal [], ro_end = first_greater_or_equal [],
     limit = None, target_bytes = 0, mode = -1, rev_order = False\<rparr>"

definition range_from_selectors :: "key_selector \<times> key_selector \<Rightarrow> range_option" where
  "range_from_selectors = (\<lambda>(b, e). default_range\<lparr>ro_begin := b, ro_end := e\<rparr>)"

definition range_from_keys :: "bytes \<times> bytes \<Rightarrow> range_option" where
  "range_from_keys = (\<lambda>(b, e).
     default_range\<lparr>ro_begin := first_greater_or_equal b, ro_end := first_greater_or_equal e\<rparr>)"

definition range_from_inclusive :: "bytes \<times> bytes \<Rightarrow> range_option" where
  "range_from_inclusive = (\<lambda>(b, e).
     range_from_selectors (first_greater_or_equal b, first_greater_than e))"

definition range_rev :: "range_option \<Rightarrow> range_option" where
  "range_rev opt = opt\<lparr>rev_order := \<not> rev_order opt\<rparr>"

text \<open>\<^verbatim>\<open>FdbValues\<close>: the key-value pairs of one batch, and whether there are more.\<close>

type_synonym page = "(bytes \<times> bytes) list \<times> bool"

definition next_range :: "range_option \<Rightarrow> page \<Rightarrow> range_option option" where
  "next_range self kvs =
     (if \<not> snd kvs then None
      else if fst kvs = [] then None
      else
        let last_key = fst (last (fst kvs));
            continue = (\<lambda>self. if rev_order self
             then Some (self\<lparr>ro_end := make_first_greater_or_equal last_key (ro_end self)\<rparr>)
             else Some (self\<lparr>ro_begin := make_first_greater_than last_key (ro_begin self)\<rparr>))
        in case limit self of
             None \<Rightarrow> continue self
           | Some l \<Rightarrow>
               if l = 0 then continue self
               else let l' = l - length (fst kvs)
                    in if l' = 0 then None else continue (self\<lparr>limit := Some l'\<rparr>))"

section \<open>The native transaction\<close>

record 's kv =
  kv_get :: "'s \<Rightarrow> bytes \<Rightarrow> fdb_error + bytes option"
  kv_get_range :: "'s \<Rightarrow> range_option \<Rightarrow> nat \<Rightarrow> fdb_error + page"
  kv_set :: "bytes \<Rightarrow> bytes \<Rightarrow> 's \<Rightarrow> 's"
  kv_clear :: "bytes \<Rightarrow> 's \<Rightarrow> 's"
  kv_clear_range :: "bytes \<Rightarrow> bytes \<Rightarrow> 's \<Rightarrow> 's"

text \<open>
  \<^verbatim>\<open>get_ranges\<close>: the batches until the options run out; an error is the last item.
  \<open>None\<close> stands for a stream that never ends.
\<close>

partial_function (option) get_ranges ::
    "'s kv \<Rightarrow> 's \<Rightarrow> nat \<Rightarrow> range_option option \<Rightarrow> (fdb_error + page) list option" where
  "get_ranges kv s iteration maybe_opt =
     (case maybe_opt of
        None \<Rightarrow> Some []
      | Some opt \<Rightarrow>
          let maybe_values = kv_get_range kv s opt iteration;
              next_opt = (case maybe_values of
                  Inr values \<Rightarrow> next_range opt values
                | Inl _ \<Rightarrow> None)
          in Option.bind (get_ranges kv s (iteration + 1) next_opt) (\<lambda>rest.
               Some (maybe_values # rest)))"

text \<open>\<^verbatim>\<open>map_ok\<close> and \<^verbatim>\<open>try_flatten\<close>: the pairs of every batch, one by one.\<close>

definition get_ranges_keyvalues ::
    "'s kv \<Rightarrow> 's \<Rightarrow> range_option \<Rightarrow> (fdb_error + bytes \<times> bytes) list option" where
  "get_ranges_keyvalues kv s opt =
     map_option
       (\<lambda>batches. concat (map (\<lambda>b. case b of Inl e \<Rightarrow> [Inl e] | Inr values \<Rightarrow> map Inr (fst values)) batches))
       (get_ranges kv s 1 (Some opt))"

definition clear_subspace_range :: "'s kv \<Rightarrow> subspace \<Rightarrow> 's \<Rightarrow> 's" where
  "clear_subspace_range kv sub s = (let (b, e) = subspace_range sub in kv_clear_range kv b e s)"

definition range_of_subspace :: "subspace \<Rightarrow> range_option" where
  "range_of_subspace sub = range_from_keys (subspace_range sub)"

section \<open>What the client promises\<close>

text \<open>
  A selector with offset one names the first key that is greater than, or greater than or equal
  to, its anchor; a range of two such selectors holds the keys between them.
\<close>

definition plain :: "range_option \<Rightarrow> bool" where
  "plain opt \<longleftrightarrow> offset (ro_begin opt) = 1 \<and> offset (ro_end opt) = 1"

definition selected :: "range_option \<Rightarrow> bytes \<Rightarrow> bool" where
  "selected opt k \<longleftrightarrow>
     (if or_equal (ro_begin opt) then ks_key (ro_begin opt) < k else ks_key (ro_begin opt) \<le> k) \<and>
     (if or_equal (ro_end opt) then k \<le> ks_key (ro_end opt) else k < ks_key (ro_end opt))"

definition rows :: "(bytes \<rightharpoonup> bytes) \<Rightarrow> range_option \<Rightarrow> (bytes \<times> bytes) list" where
  "rows m opt = map (\<lambda>k. (k, the (m k)))
     ((if rev_order opt then rev else id) (sorted_list_of_set {k \<in> dom m. selected opt k}))"

text \<open>
  The state of a transaction is seen as a map (its snapshot with its own writes).  Reads return
  what the map holds or an error; a batch is a first part of the rows that are left, not empty
  when it announces more, and complete when it does not and the limit is not reached.
\<close>

locale kv_store =
  fixes kv :: "'s kv" and view :: "'s \<Rightarrow> bytes \<rightharpoonup> bytes"
  assumes view_finite: "finite (dom (view s))"
    and get_ok: "kv_get kv s k = Inr found \<Longrightarrow> found = view s k"
    and view_set: "view (kv_set kv k v s) = (view s)(k \<mapsto> v)"
    and view_clear: "view (kv_clear kv k s) = (view s)(k := None)"
    and view_clear_range: "view (kv_clear_range kv lo hi s) =
      (\<lambda>k. if lo \<le> k \<and> k < hi then None else view s k)"
    and range_ok: "plain opt \<Longrightarrow> kv_get_range kv s opt i = Inr (kvs, has_more) \<Longrightarrow>
      \<exists>rest. rows (view s) opt = kvs @ rest \<and> (has_more \<longrightarrow> kvs \<noteq> []) \<and>
        (\<forall>l. limit opt = Some l \<longrightarrow> l \<noteq> 0 \<longrightarrow> length kvs \<le> l) \<and>
        (rest \<noteq> [] \<longrightarrow> \<not> has_more \<longrightarrow> kvs \<noteq> [] \<and> limit opt = Some (length kvs))"

lemma sorted_list_of_set_split:
  fixes A :: "'a::linorder set"
  assumes "finite A" and "sorted_list_of_set A = xs @ ys"
  shows "xs \<noteq> [] \<Longrightarrow> sorted_list_of_set {k \<in> A. last xs < k} = ys"
    and "ys \<noteq> [] \<Longrightarrow> sorted_list_of_set {k \<in> A. k < hd ys} = xs"
proof -
  have s: "sorted_wrt (<) (xs @ ys)" and A: "A = set xs \<union> set ys"
    using strict_sorted_list_of_set [of A] set_sorted_list_of_set [OF assms(1)] assms(2) by auto
  from s have sx: "sorted_wrt (<) xs" "sorted_wrt (<) ys" "\<forall>x \<in> set xs. \<forall>y \<in> set ys. x < y"
    by (auto simp: sorted_wrt_append)
  show "sorted_list_of_set {k \<in> A. last xs < k} = ys" if "xs \<noteq> []"
  proof -
    have "x \<le> last xs" if "x \<in> set xs" for x
      using sx(1) that by (induction xs) (auto simp: less_imp_le)
    then have "{k \<in> A. last xs < k} = set ys" using A sx(3) that by (auto simp: not_less [symmetric])
    with sx(2) show ?thesis
      by (simp add: strict_sorted_iff sorted_list_of_set.idem_if_sorted_distinct)
  qed
  show "sorted_list_of_set {k \<in> A. k < hd ys} = xs" if "ys \<noteq> []"
  proof -
    have "hd ys \<le> y" if "y \<in> set ys" for y
      using sx(2) that by (cases ys) (auto simp: less_imp_le)
    then have "{k \<in> A. k < hd ys} = set xs" using A sx(3) that by (auto simp: not_less [symmetric])
    with sx(1) show ?thesis
      by (simp add: strict_sorted_iff sorted_list_of_set.idem_if_sorted_distinct)
  qed
qed

text \<open>The options that \<^verbatim>\<open>next_range\<close> returns select exactly what is left.\<close>

lemma rows_rest:
  assumes "finite (dom m)" and "rows m opt = kvs @ rest" and "kvs \<noteq> []"
  shows "\<not> rev_order opt \<Longrightarrow>
      rows m (opt\<lparr>ro_begin := make_first_greater_than (fst (last kvs)) b\<rparr>) = rest"
    and "rev_order opt \<Longrightarrow>
      rows m (opt\<lparr>ro_end := make_first_greater_or_equal (fst (last kvs)) e\<rparr>) = rest"
proof -
  let ?A = "{k \<in> dom m. selected opt k}" and ?row = "\<lambda>k. (k, the (m k))"
  define ks where "ks = (if rev_order opt then rev else id) (sorted_list_of_set ?A)"
  have "map ?row ks = kvs @ rest" using assms(2) by (simp add: rows_def ks_def)
  then obtain xs ys where ks: "ks = xs @ ys" and kvs: "kvs = map ?row xs" and rest: "rest = map ?row ys"
    unfolding map_eq_append_conv by blast
  from kvs assms(3) have xs: "xs \<noteq> []" "fst (last kvs) = last xs" by (auto simp: last_map)
  have fin: "finite ?A" using assms(1) by simp
  have "set ks = ?A" using fin by (simp add: ks_def)
  moreover have "last xs \<in> set ks" using ks xs(1) by simp
  ultimately have last: "last xs \<in> dom m" "selected opt (last xs)" by auto
  show "rows m (opt\<lparr>ro_begin := make_first_greater_than (fst (last kvs)) b\<rparr>) = rest"
    if "\<not> rev_order opt"
  proof -
    let ?opt = "opt\<lparr>ro_begin := make_first_greater_than (fst (last kvs)) b\<rparr>"
    have "{k \<in> dom m. selected ?opt k} = {k \<in> ?A. last xs < k}"
      using last(2) by (auto simp: selected_def make_first_greater_than_def xs(2) split: if_splits)
    with sorted_list_of_set_split(1) [OF fin _ xs(1), of ys] that ks show ?thesis
      by (simp add: rows_def ks_def rest)
  qed
  show "rows m (opt\<lparr>ro_end := make_first_greater_or_equal (fst (last kvs)) e\<rparr>) = rest"
    if "rev_order opt"
  proof -
    let ?opt = "opt\<lparr>ro_end := make_first_greater_or_equal (fst (last kvs)) e\<rparr>"
    have A: "{k \<in> dom m. selected ?opt k} = {k \<in> ?A. k < last xs}"
      using last(2) by (auto simp: selected_def make_first_greater_or_equal_def xs(2) split: if_splits)
    have "sorted_list_of_set ?A = rev ys @ rev xs"
      using ks that by (simp add: ks_def rev_swap)
    from sorted_list_of_set_split(2) [OF fin this] xs(1) A that show ?thesis
      by (simp add: rows_def rest hd_rev)
  qed
qed

text \<open>What a scan delivers: the first rows up to the limit, in order.\<close>

definition scan_rows :: "(bytes \<rightharpoonup> bytes) \<Rightarrow> range_option \<Rightarrow> (bytes \<times> bytes) list" where
  "scan_rows m opt =
     (case limit opt of Some l \<Rightarrow> if l = 0 then rows m opt else take l (rows m opt)
      | None \<Rightarrow> rows m opt)"

text \<open>All of it, or a part of it and then an error.\<close>

definition delivers :: "(bytes \<times> bytes) list \<Rightarrow> (fdb_error + bytes \<times> bytes) list \<Rightarrow> bool" where
  "delivers rs items \<longleftrightarrow>
     items = map Inr rs \<or> (\<exists>n e. items = map Inr (take n rs) @ [Inl e])"

lemma delivers_append:
  assumes "delivers rs items"
  shows "delivers (xs @ rs) (map Inr xs @ items)"
proof -
  have "map Inr xs @ map Inr (take n rs) @ [Inl e] =
      map Inr (take (length xs + n) (xs @ rs)) @ [Inl e]" for n e by simp
  with assms show ?thesis unfolding delivers_def by (metis append.assoc map_append)
qed

abbreviation batch_items :: "fdb_error + page \<Rightarrow> (fdb_error + bytes \<times> bytes) list" where
  "batch_items b \<equiv> (case b of Inl e \<Rightarrow> [Inl e] | Inr values \<Rightarrow> map Inr (fst values))"

context kv_store
begin

lemma next_range_scan:
  assumes "plain opt" and "kv_get_range kv s opt i = Inr (kvs, has_more)"
  shows "case next_range opt (kvs, has_more) of
      None \<Rightarrow> scan_rows (view s) opt = kvs
    | Some opt' \<Rightarrow> plain opt' \<and> scan_rows (view s) opt = kvs @ scan_rows (view s) opt' \<and>
        length (rows (view s) opt') < length (rows (view s) opt)"
proof -
  obtain rest where rest: "rows (view s) opt = kvs @ rest" "has_more \<longrightarrow> kvs \<noteq> []"
    "\<And>l. limit opt = Some l \<Longrightarrow> l \<noteq> 0 \<Longrightarrow> length kvs \<le> l"
    "rest \<noteq> [] \<longrightarrow> \<not> has_more \<longrightarrow> kvs \<noteq> [] \<and> limit opt = Some (length kvs)"
    using range_ok [OF assms] by auto
  note left = rows_rest [OF view_finite rest(1)]
  have limited: "rows (view s) (opt\<lparr>limit := l, ro_begin := k\<rparr>) = rows (view s) (opt\<lparr>ro_begin := k\<rparr>)"
    "rows (view s) (opt\<lparr>limit := l, ro_end := k\<rparr>) = rows (view s) (opt\<lparr>ro_end := k\<rparr>)" for l k
    by (simp_all add: rows_def selected_def)
  show ?thesis
  proof (cases "has_more")
    case False
    then have "rest = [] \<or> kvs \<noteq> [] \<and> limit opt = Some (length kvs)" using rest(4) by blast
    with False rest(1,3) show ?thesis
      by (cases "limit opt") (auto simp: next_range_def scan_rows_def)
  next
    case True
    with rest(2) have "kvs \<noteq> []" by blast
    with True left rest(1,3) assms(1) show ?thesis
      by (cases "rev_order opt"; cases "limit opt")
        (auto simp: next_range_def scan_rows_def plain_def make_first_greater_than_def
          make_first_greater_or_equal_def Let_def limited split: if_splits)
  qed
qed

text \<open>The stream ends, and it delivers the rows of the scan.\<close>

lemma get_ranges_scan:
  assumes "plain opt"
  shows "\<exists>batches. get_ranges kv s i (Some opt) = Some batches \<and>
    delivers (scan_rows (view s) opt) (concat (map batch_items batches))"
  using assms
proof (induction "length (rows (view s) opt)" arbitrary: opt i rule: less_induct)
  case less
  show ?case
  proof (cases "kv_get_range kv s opt i")
    case (Inl e)
    have "delivers (scan_rows (view s) opt) (map Inr (take 0 (scan_rows (view s) opt)) @ [Inl e])"
      unfolding delivers_def by blast
    with Inl show ?thesis by (simp add: get_ranges.simps [of _ _ _ "Some opt"] get_ranges.simps [of _ _ _ None])
  next
    case (Inr vals)
    obtain kvs has_more where vals: "vals = (kvs, has_more)" by (cases vals)
    note step = next_range_scan [OF less.prems Inr [unfolded vals]]
    show ?thesis
    proof (cases "next_range opt (kvs, has_more)")
      case None
      with step Inr vals show ?thesis
        by (simp add: get_ranges.simps [of _ _ _ "Some opt"] get_ranges.simps [of _ _ _ None] delivers_def)
    next
      case (Some opt')
      with step have "plain opt'" "length (rows (view s) opt') < length (rows (view s) opt)"
        and eq: "scan_rows (view s) opt = kvs @ scan_rows (view s) opt'" by auto
      from less.hyps [OF this(2,1), of "i + 1"] obtain batches where
        "get_ranges kv s (i + 1) (Some opt') = Some batches"
        "delivers (scan_rows (view s) opt') (concat (map batch_items batches))" by blast
      with Some Inr vals delivers_append [of _ _ kvs] show ?thesis
        by (simp add: get_ranges.simps [of _ _ _ "Some opt"] eq)
    qed
  qed
qed

lemma get_ranges_keyvalues_scan:
  assumes "plain opt"
  shows "\<exists>items. get_ranges_keyvalues kv s opt = Some items \<and> delivers (scan_rows (view s) opt) items"
  using get_ranges_scan [OF assms, of s 1] by (auto simp: get_ranges_keyvalues_def)

end

section \<open>A client in memory\<close>

text \<open>
  A store that keeps its promises: an association list read in batches of \<open>Suc n\<close> rows.  It is
  the instance on which the properties that assume a client are exercised.
\<close>

definition mem_rows :: "(bytes \<times> bytes) list \<Rightarrow> range_option \<Rightarrow> (bytes \<times> bytes) list" where
  "mem_rows s opt = map (\<lambda>k. (k, the (map_of s k)))
     ((if rev_order opt then rev else id) (sort (remdups (filter (selected opt) (map fst s)))))"

definition mem_get_range :: "nat \<Rightarrow> (bytes \<times> bytes) list \<Rightarrow> range_option \<Rightarrow> nat \<Rightarrow> fdb_error + page" where
  "mem_get_range n s opt i =
     (let found = mem_rows s opt;
          cap = (case limit opt of Some l \<Rightarrow> if l = 0 then Suc n else min l (Suc n) | None \<Rightarrow> Suc n)
      in Inr (take cap found, cap < length found))"

definition mem_kv :: "nat \<Rightarrow> (bytes \<times> bytes) list kv" where
  "mem_kv n = \<lparr>kv_get = (\<lambda>s k. Inr (map_of s k)), kv_get_range = mem_get_range n,
     kv_set = (\<lambda>k v s. (k, v) # s), kv_clear = (\<lambda>k. filter (\<lambda>p. fst p \<noteq> k)),
     kv_clear_range = (\<lambda>lo hi. filter (\<lambda>p. \<not> (lo \<le> fst p \<and> fst p < hi)))\<rparr>"

lemma map_of_filter_key: "map_of (filter (\<lambda>p. P (fst p)) s) = (\<lambda>k. if P k then map_of s k else None)"
  by (induction s) auto

lemma map_of_filter_range:
  "map_of (filter (\<lambda>p. lo \<le> fst p \<longrightarrow> \<not> fst p < hi) s) =
   (\<lambda>k. if lo \<le> k \<and> k < hi then None else map_of s k)"
  using map_of_filter_key [of "\<lambda>k. lo \<le> k \<longrightarrow> \<not> k < hi" s] by auto

lemma mem_rows_eq: "mem_rows s opt = rows (map_of s) opt"
proof -
  have "{k \<in> dom (map_of s). selected opt k} = set (filter (selected opt) (map fst s))"
    by (auto simp: dom_map_of_conv_image_fst)
  then show ?thesis
    unfolding mem_rows_def rows_def by (simp only: sorted_list_of_set_sort_remdups)
qed

lemma mem_kv_store: "kv_store (mem_kv n) map_of"
proof
  fix s opt i kvs has_more
  assume get: "kv_get_range (mem_kv n) s opt i = Inr (kvs, has_more)"
  define cap where "cap = (case limit opt of Some l \<Rightarrow> if l = 0 then Suc n else min l (Suc n) | None \<Rightarrow> Suc n)"
  have kvs: "kvs = take cap (rows (map_of s) opt)" "has_more \<longleftrightarrow> cap < length (rows (map_of s) opt)"
    using get by (auto simp: mem_kv_def mem_get_range_def mem_rows_eq Let_def cap_def)
  have "0 < cap" and cap: "\<forall>l. limit opt = Some l \<longrightarrow> l \<noteq> 0 \<longrightarrow> cap \<le> l"
    by (auto simp: cap_def split: option.splits)
  show "\<exists>rest. rows (map_of s) opt = kvs @ rest \<and> (has_more \<longrightarrow> kvs \<noteq> []) \<and>
      (\<forall>l. limit opt = Some l \<longrightarrow> l \<noteq> 0 \<longrightarrow> length kvs \<le> l) \<and>
      (rest \<noteq> [] \<longrightarrow> \<not> has_more \<longrightarrow> kvs \<noteq> [] \<and> limit opt = Some (length kvs))"
    using \<open>0 < cap\<close> cap
    by (intro exI [of _ "drop cap (rows (map_of s) opt)"]) (auto simp: kvs)
qed (auto simp: mem_kv_def map_of_filter_key [where P = "\<lambda>x. x \<noteq> _"] map_of_filter_range
    finite_dom_map_of fun_upd_def)

interpretation mem: kv_store "mem_kv n" map_of for n
  by (rule mem_kv_store)

section \<open>Property\<close>

text \<open>
  C17.  Reading a range page by page is reading it: however the client cuts the batches, forward
  or in reverse and with any limit, the stream ends, and it delivers the rows of the range in
  order, each once, up to the limit, or a first part of them followed by the client's error.
\<close>

theorem range_scan_delivers:
  assumes "kv_store kv view" and "plain opt"
  shows "\<exists>items. get_ranges_keyvalues kv s opt = Some items \<and>
    (items = map Inr (scan_rows (view s) opt) \<or>
     (\<exists>n e. items = map Inr (take n (scan_rows (view s) opt)) @ [Inl e]))"
  using kv_store.get_ranges_keyvalues_scan [OF assms, of s] by (auto simp: delivers_def)

theorem range_scan_delivers_witness:
  "\<exists>items. get_ranges_keyvalues (mem_kv 0) [([1], [5]), ([3], [7]), ([2], [6])]
      (range_rev (range_from_keys ([1], [9]))) = Some items \<and>
    (items = map Inr [([3], [7]), ([2], [6]), ([1], [5])] \<or>
     (\<exists>n e. items = map Inr (take n [([3], [7]), ([2], [6]), ([1], [5])]) @ [Inl e]))"
proof -
  have "scan_rows (map_of [([1], [5]), ([3], [7]), ([2], [6])]) (range_rev (range_from_keys ([1], [9]))) =
      [([3], [7]), ([2], [6]), ([1], [5])]"
    unfolding scan_rows_def mem_rows_eq [symmetric]
    by (simp add: mem_rows_def range_rev_def range_from_keys_def
        default_range_def selected_def first_greater_or_equal_def ks_new_def)
  with range_scan_delivers [OF mem_kv_store, of "range_rev (range_from_keys ([1], [9]))" 0
      "[([1], [5]), ([3], [7]), ([2], [6])]"]
  show ?thesis
    by (simp add: plain_def range_rev_def range_from_keys_def default_range_def
        first_greater_or_equal_def ks_new_def)
qed

end
