(* ===== verification/Ranked_Register.thy ===== *)
theory Ranked_Register
  imports Range_Scan
begin

text \<open>
  The ranked register (\<^verbatim>\<open>foundationdb/src/recipes/ranked_register\<close>): ranks, the durable
  metadata and the chunks of the value, and the operations \<^verbatim>\<open>read\<close>, \<^verbatim>\<open>write\<close> and
  \<^verbatim>\<open>value\<close> on a transaction.  An operation returns the new state of the transaction with its
  result; on an error the caller does not commit.
\<close>

unbundle bit_operations_syntax

section \<open>Ranks\<close>

datatype rank = Rank (as_u64: u64)

instantiation rank :: linorder
begin

definition less_eq_rank :: "rank \<Rightarrow> rank \<Rightarrow> bool" where
  "less_eq_rank a b \<longleftrightarrow> as_u64 a \<le> as_u64 b"

definition less_rank :: "rank \<Rightarrow> rank \<Rightarrow> bool" where
  "less_rank a b \<longleftrightarrow> as_u64 a < as_u64 b"

instance
  by intro_classes (auto simp: less_eq_rank_def less_rank_def rank.expand)

end

definition ZERO :: rank where
  "ZERO = Rank 0"

definition rank_new :: "u32 \<Rightarrow> u32 \<Rightarrow> rank" where
  "rank_new process_id sequence = Rank (push_bit 32 (ucast sequence) OR ucast process_id)"

definition process_id :: "rank \<Rightarrow> u32" where
  "process_id r = ucast (as_u64 r)"

definition sequence :: "rank \<Rightarrow> u32" where
  "sequence r = ucast (drop_bit 32 (as_u64 r))"

section \<open>State and errors\<close>

record metadata_state =
  max_read_rank :: rank
  max_write_rank :: rank

text \<open>\<^verbatim>\<open>RegisterState\<close>: the logical state, ranks and value.\<close>

record register_state = metadata_state +
  reg_value :: "bytes option"

definition bottom :: metadata_state where
  "bottom = \<lparr>max_read_rank = ZERO, max_write_rank = ZERO\<rparr>"

record read_result =
  write_rank :: rank
  result_value :: "bytes option"

datatype write_result = Committed | Aborted

definition is_committed :: "write_result \<Rightarrow> bool" where
  "is_committed r \<longleftrightarrow> r = Committed"

text \<open>The messages of \<^verbatim>\<open>InvalidState\<close>, as the conditions they report.\<close>

datatype invalid_state =
    MetadataSchema pack_error
  | UnknownSchemaVersion u64
  | ChunksWithoutMetadata
  | ChunkSequenceTooLong
  | MalformedChunkKey pack_error
  | NonContiguousIndex u64 u64

text \<open>\<^verbatim>\<open>Binding\<close>, the error of the retry loop around the operations, does not arise in them.\<close>

datatype register_error =
    Fdb fdb_error
  | PackError pack_error
  | InvalidState invalid_state
  | ValueTooLarge nat nat

definition STATE_SCHEMA_VERSION :: u64 where
  "STATE_SCHEMA_VERSION = 1"

definition MAX_VALUE_CHUNK_BYTES :: nat where
  "MAX_VALUE_CHUNK_BYTES = 100000"

section \<open>Keys\<close>

definition STATE_PREFIX :: bytes where
  "STATE_PREFIX = [115, 116, 97, 116, 101]"

definition VALUE_PREFIX :: bytes where
  "VALUE_PREFIX = [118, 97, 108, 117, 101]"

text \<open>Packing these small tuples does not panic (see \<open>state_key_ok\<close> and \<open>value_key_ok\<close>).\<close>

definition state_key :: "subspace \<Rightarrow> bytes" where
  "state_key s = the (subspace_pack pack_tuple s [\<lambda>d. pack_str d STATE_PREFIX])"

definition value_subspace :: "subspace \<Rightarrow> subspace" where
  "value_subspace s = the (subspace pack_tuple s [\<lambda>d. pack_str d VALUE_PREFIX])"

definition value_key :: "subspace \<Rightarrow> u64 \<Rightarrow> bytes" where
  "value_key s index = the (subspace_pack pack_tuple (value_subspace s) [\<lambda>d. pack_ux d index])"

section \<open>Durable metadata\<close>

definition decode_metadata :: "bytes \<Rightarrow> register_error + metadata_state" where
  "decode_metadata v =
     bind_result (map_err (\<lambda>error. InvalidState (MetadataSchema error))
       (unpack_root (unpack_tuple (field_cons unpack_ux (field_cons unpack_ux (field_last unpack_ux)))) v))
     (\<lambda>(schema_version, read, written).
       if schema_version \<noteq> STATE_SCHEMA_VERSION
       then Inl (InvalidState (UnknownSchemaVersion schema_version))
       else Inr \<lparr>max_read_rank = Rank read, max_write_rank = Rank written\<rparr>)"

definition encode_metadata :: "'a metadata_state_scheme \<Rightarrow> bytes" where
  "encode_metadata state = the (pack_to_vec pack_tuple
     [\<lambda>d. pack_ux d STATE_SCHEMA_VERSION, \<lambda>d. pack_ux d (as_u64 (max_read_rank state)),
      \<lambda>d. pack_ux d (as_u64 (max_write_rank state))])"

definition read_metadata :: "'s kv \<Rightarrow> 's \<Rightarrow> bytes \<Rightarrow> register_error + metadata_state option" where
  "read_metadata kv txn key =
     bind_result (map_err Fdb (kv_get kv txn key)) (\<lambda>found.
       case found of
         None \<Rightarrow> Inr None
       | Some v \<Rightarrow> bind_result (decode_metadata v) (\<lambda>state. Inr (Some state)))"

definition write_metadata :: "'s kv \<Rightarrow> bytes \<Rightarrow> metadata_state \<Rightarrow> 's \<Rightarrow> 's" where
  "write_metadata kv key state txn = kv_set kv key (encode_metadata state) txn"

section \<open>Value chunks\<close>

definition decode_value_index :: "subspace \<Rightarrow> bytes \<Rightarrow> register_error + u64" where
  "decode_value_index value_sub key =
     map_err (\<lambda>error. InvalidState (MalformedChunkKey error))
       (subspace_unpack (unpack_tuple (field_last unpack_ux)) value_sub key)"

definition validate_value_index :: "u64 \<Rightarrow> u64 \<Rightarrow> register_error + unit" where
  "validate_value_index expected actual =
     (if actual \<noteq> expected then Inl (InvalidState (NonContiguousIndex actual expected)) else Inr ())"

definition checked_add :: "'a::len word \<Rightarrow> 'a word \<Rightarrow> 'a word option" where
  "checked_add a b = (if unat a + unat b < 2 ^ LENGTH('a) then Some (a + b) else None)"

text \<open>The loop over the chunks: what the stream still delivers, then the loop's variables.\<close>

fun read_chunks ::
    "subspace \<Rightarrow> bool \<Rightarrow> (fdb_error + bytes \<times> bytes) list \<Rightarrow> u64 \<Rightarrow> bytes \<Rightarrow> bool \<Rightarrow>
     register_error + bytes option" where
  "read_chunks value_sub has_metadata [] expected_index val has_chunks =
     Inr (if has_chunks then Some val else None)"
| "read_chunks value_sub has_metadata (Inl e # chunks) expected_index val has_chunks = Inl (Fdb e)"
| "read_chunks value_sub has_metadata (Inr chunk # chunks) expected_index val has_chunks =
     (if \<not> has_metadata then Inl (InvalidState ChunksWithoutMetadata)
      else bind_result (decode_value_index value_sub (fst chunk)) (\<lambda>index.
           bind_result (validate_value_index expected_index index) (\<lambda>_.
           bind_result (ok_or (InvalidState ChunkSequenceTooLong) (checked_add expected_index 1))
             (\<lambda>expected_index.
               read_chunks value_sub has_metadata chunks expected_index (val @ snd chunk) True))))"

text \<open>\<open>None\<close>: the stream of chunks does not end.\<close>

definition read_value :: "'s kv \<Rightarrow> 's \<Rightarrow> subspace \<Rightarrow> bool \<Rightarrow> (register_error + bytes option) option" where
  "read_value kv txn s has_metadata =
     (let value_sub = value_subspace s
      in map_option (\<lambda>items. read_chunks value_sub has_metadata items 0 [] False)
           (get_ranges_keyvalues kv txn (range_of_subspace value_sub)))"

function chunks :: "nat \<Rightarrow> 'a list \<Rightarrow> 'a list list" where
  "chunks n xs = (if xs = [] \<or> n = 0 then [] else take n xs # chunks n (drop n xs))"
  by pat_completeness auto
termination by (relation "measure (\<lambda>(n, xs). length xs)") auto

declare chunks.simps [simp del]

definition value_chunk_count :: "nat \<Rightarrow> nat" where
  "value_chunk_count value_len =
     (if value_len = 0 then 1
      else value_len div MAX_VALUE_CHUNK_BYTES + (if value_len mod MAX_VALUE_CHUNK_BYTES \<noteq> 0 then 1 else 0))"

text \<open>\<^verbatim>\<open>u64::try_from(index)\<close> cannot fail for a \<^verbatim>\<open>usize\<close> of at most 64 bits.\<close>

fun write_chunks :: "'s kv \<Rightarrow> subspace \<Rightarrow> nat \<Rightarrow> bytes list \<Rightarrow> 's \<Rightarrow> 's" where
  "write_chunks kv s index [] txn = txn"
| "write_chunks kv s index (chunk # rest) txn =
     write_chunks kv s (Suc index) rest (kv_set kv (value_key s (of_nat index)) chunk txn)"

definition write_value :: "'s kv \<Rightarrow> subspace \<Rightarrow> bytes \<Rightarrow> 's \<Rightarrow> nat \<times> 's" where
  "write_value kv s val txn =
     (let txn = clear_subspace_range kv (value_subspace s) txn
      in if val = [] then (1, kv_set kv (value_key s 0) val txn)
         else (value_chunk_count (length val),
               write_chunks kv s 0 (chunks MAX_VALUE_CHUNK_BYTES val) txn))"

section \<open>Operations\<close>

definition reg_read :: "'s kv \<Rightarrow> subspace \<Rightarrow> rank \<Rightarrow> 's \<Rightarrow> (register_error + read_result \<times> 's) option" where
  "reg_read kv s rank txn =
     (let metadata_key = state_key s
      in case read_metadata kv txn metadata_key of
           Inl e \<Rightarrow> Some (Inl e)
         | Inr maybe_state \<Rightarrow>
             let state = (case maybe_state of None \<Rightarrow> bottom | Some state \<Rightarrow> state)
             in map_option (\<lambda>r. bind_result r (\<lambda>val.
                    let (state, txn) =
                      (if max_read_rank state < rank
                       then let state = state\<lparr>max_read_rank := rank\<rparr>
                            in (state, write_metadata kv metadata_key state txn)
                       else (state, txn))
                    in Inr (\<lparr>write_rank = max_write_rank state, result_value = val\<rparr>, txn)))
                  (read_value kv txn s (maybe_state \<noteq> None)))"

definition reg_write ::
    "'s kv \<Rightarrow> subspace \<Rightarrow> rank \<Rightarrow> bytes \<Rightarrow> nat option \<Rightarrow> 's \<Rightarrow> register_error + write_result \<times> 's" where
  "reg_write kv s rank val max_value_bytes txn =
     bind_result
       (case max_value_bytes of
          Some lim \<Rightarrow>
            if lim < length val then Inl (ValueTooLarge (length val) lim) else Inr ()
        | None \<Rightarrow> Inr ())
     (\<lambda>_.
      let metadata_key = state_key s
      in bind_result (read_metadata kv txn metadata_key) (\<lambda>maybe_state.
           let state = (case maybe_state of None \<Rightarrow> bottom | Some state \<Rightarrow> state)
           in if rank < max_read_rank state \<or> rank \<le> max_write_rank state
              then Inr (Aborted, txn)
              else let state = state\<lparr>max_write_rank := rank\<rparr>;
                       txn = write_metadata kv metadata_key state txn;
                       (_, txn) = write_value kv s val txn
                   in Inr (Committed, txn)))"

definition reg_value_of :: "'s kv \<Rightarrow> subspace \<Rightarrow> 's \<Rightarrow> (register_error + bytes option) option" where
  "reg_value_of kv s txn =
     (case read_metadata kv txn (state_key s) of
        Inl e \<Rightarrow> Some (Inl e)
      | Inr maybe_state \<Rightarrow> read_value kv txn s (maybe_state \<noteq> None))"

section \<open>Ranks are ordered by sequence, then by process\<close>

lemma unat_u32_less: "unat (w :: u32) < 4294967296"
  using unsigned_less [of w, where ?'a = nat] by simp

lemma unat_rank_new: "unat (as_u64 (rank_new p q)) = 2 ^ 32 * unat q + unat p"
proof -
  have p: "unat (ucast p :: u64) = unat p" and q: "unat (ucast q :: u64) = unat q"
    by (simp_all add: unsigned_ucast_eq take_bit_nat_eq_self order_less_trans [OF unsigned_less])
  have "2 ^ 32 * unat q < 2 ^ 64" using unsigned_less [of q] by simp
  then have push: "unat (push_bit 32 (ucast q :: u64)) = push_bit 32 (unat q)"
    by (subst unsigned_push_bit_eq) (simp add: q push_bit_eq_mult take_bit_nat_eq_self mult.commute)
  have "push_bit 32 (unat q) AND unat p = 0"
  proof (rule bit_eqI)
    fix n
    have "\<not> bit (unat p) n" if "32 \<le> n" using that bit_imp_le_length [of p n] by (auto simp: bit_simps)
    then show "bit (push_bit 32 (unat q) AND unat p) n = bit 0 n" by (auto simp: bit_simps)
  qed
  from disjunctive_add_eq_or [OF this] have "unat (as_u64 (rank_new p q)) = push_bit 32 (unat q) + unat p"
    by (simp only: rank_new_def rank.sel unsigned_or_eq push p)
  then show ?thesis by (simp add: push_bit_eq_mult mult.commute)
qed

lemma rank_new_order:
  "rank_new p q < rank_new p' q' \<longleftrightarrow> q < q' \<or> q = q' \<and> p < p'"
proof -
  have "2 ^ 32 * unat q + unat p < 2 ^ 32 * unat q' + unat p' \<longleftrightarrow>
      unat q < unat q' \<or> unat q = unat q' \<and> unat p < unat p'"
    using unat_u32_less [of p] unat_u32_less [of p'] by (simp; linarith)
  then show ?thesis
    by (simp only: less_rank_def word_less_nat_alt unat_rank_new word_unat_eq_iff)
qed

lemma rank_new_parts: "process_id (rank_new p q) = p" "sequence (rank_new p q) = q"
proof -
  have "unat (process_id (rank_new p q)) = unat p"
    using unat_u32_less [of p]
    by (simp add: process_id_def unsigned_ucast_eq unat_rank_new take_bit_eq_mod)
  then show "process_id (rank_new p q) = p" by (simp add: word_unat_eq_iff)
  have "unat (sequence (rank_new p q)) = unat q"
    using unat_u32_less [of p] unat_u32_less [of q]
    by (simp only: sequence_def unsigned_ucast_eq unsigned_drop_bit_eq unat_rank_new)
      (simp add: take_bit_eq_mod drop_bit_eq_div)
  then show "sequence (rank_new p q) = q" by (simp add: word_unat_eq_iff)
qed

section \<open>Keys of a register\<close>

lemma pack_prefix_tuple:
  assumes "length p < 4294967296"
  shows "pack_tuple 0 [\<lambda>d. pack_str d p] = Inr (STRING # escape p @ [NIL], VNone (of_nat (length (STRING # escape p @ [NIL]))))"
  using assms by (simp add: pack_tuple_def pack_str_eq)

lemma prefixes:
  "escape STATE_PREFIX = STATE_PREFIX" "escape VALUE_PREFIX = VALUE_PREFIX"
  "length STATE_PREFIX = 5" "length VALUE_PREFIX = 5"
  by (simp_all add: STATE_PREFIX_def VALUE_PREFIX_def NIL_def)

lemma state_key_ok:
  "subspace_pack pack_tuple s [\<lambda>d. pack_str d STATE_PREFIX] = Some (state_key s)"
  and state_key_eq: "state_key s = prefix s @ STRING # STATE_PREFIX @ [NIL]"
  by (simp_all add: state_key_def subspace_pack_def pack_into_vec_def pack_prefix_tuple prefixes)

lemma value_subspace_ok:
  "subspace pack_tuple s [\<lambda>d. pack_str d VALUE_PREFIX] = Some (value_subspace s)"
  and prefix_value_subspace: "prefix (value_subspace s) = prefix s @ STRING # VALUE_PREFIX @ [NIL]"
  by (simp_all add: value_subspace_def subspace_def pack_into_vec_def pack_prefix_tuple prefixes)

lemma pack_index:
  "pack_tuple 0 [\<lambda>d. pack_ux d (i :: u64)] = Inr (int_enc (uint i), VNone (of_nat (length (int_enc (uint i)))))"
  by (simp add: pack_tuple_def pack_int_eval)

lemma value_key_ok:
  "subspace_pack pack_tuple (value_subspace s) [\<lambda>d. pack_ux d i] = Some (value_key s i)"
  and value_key_eq: "value_key s i = prefix (value_subspace s) @ int_enc (uint i)"
  by (simp_all add: value_key_def subspace_pack_def pack_into_vec_def pack_index)

lemma int_len_u64: "int_len (uint (i :: u64)) < 256"
  by (rule int_len_word_less) (simp add: byte_sized_def)

lemma value_key_less: "i < j \<Longrightarrow> value_key s i < value_key s j"
  using int_enc_less [of "uint i" "uint j" "[]" "[]"] int_len_u64
  by (simp add: value_key_eq word_less_def)

lemma value_key_in_range:
  "\<exists>b rest. value_key s i = prefix (value_subspace s) @ b # rest \<and> b \<noteq> 0xff"
  using hd_int_enc(1) [OF int_len_u64, of i] hd_int_enc_neq(2) [OF int_len_u64, of i]
  by (cases "int_enc (uint i)") (auto simp: value_key_eq ESCAPE_def)

lemma state_key_not_in_range: "state_key s \<noteq> prefix (value_subspace s) @ rest"
  by (simp add: state_key_eq prefix_value_subspace STATE_PREFIX_def VALUE_PREFIX_def)

lemma decode_value_index_key: "decode_value_index (value_subspace s) (value_key s i) = Inr i"
proof -
  have "seq_reads (map (\<lambda>item. item (Suc 0)) [\<lambda>d. pack_ux d i]) (field_last unpack_ux (Suc 0)) i"
    using u64.plain.seq_last [where x = i and d = 0] by simp
  from tuple_read [where d = 0 and rest = "[]" and items = "[\<lambda>d. pack_ux d i]" and reader = "field_last unpack_ux",
      OF this pack_index [of i]] show ?thesis
    by (simp add: decode_value_index_def subspace_unpack_def is_start_of_def starts_with_def
        value_key_eq unpack_root_def)
qed

lemma decode_encode_metadata: "decode_metadata (encode_metadata st) = Inr (metadata_state.truncate st)"
proof -
  let ?items = "[\<lambda>d. pack_ux d STATE_SCHEMA_VERSION, \<lambda>d. pack_ux d (as_u64 (max_read_rank st)),
      \<lambda>d. pack_ux d (as_u64 (max_write_rank st))]"
  obtain bs off where p: "pack_tuple 0 ?items = Inr (bs, off)"
    by (simp add: pack_tuple_def pack_int_eval)
  have "seq_reads [pack_ux (Suc 0) (as_u64 (max_write_rank st))] (field_last unpack_ux (Suc 0))
      (as_u64 (max_write_rank st))" by (rule u64.plain.seq_last) simp
  note this = u64.plain.seq_cons [where others = "field_last unpack_ux", OF TrueI this,
      where x = "as_u64 (max_read_rank st)"]
  note this = u64.plain.seq_cons [where others = "field_cons unpack_ux (field_last unpack_ux)", OF TrueI this,
      where x = STATE_SCHEMA_VERSION]
  with tuple_read [OF _ p, of "field_cons unpack_ux (field_cons unpack_ux (field_last unpack_ux))" _ "[]"]
  have "unpack_tuple (field_cons unpack_ux (field_cons unpack_ux (field_last unpack_ux))) 0 bs =
      Inr ([], (STATE_SCHEMA_VERSION, as_u64 (max_read_rank st), as_u64 (max_write_rank st)))"
    by simp
  then show ?thesis
    using p by (simp add: decode_metadata_def encode_metadata_def pack_to_vec_def pack_into_vec_def
        unpack_root_def metadata_state.defs)
qed

section \<open>Chunks\<close>

lemma chunks_simps:
  "chunks n [] = []" "0 < n \<Longrightarrow> xs \<noteq> [] \<Longrightarrow> chunks n xs = take n xs # chunks n (drop n xs)"
  by (simp_all add: chunks.simps [of n "[]"] chunks.simps [of n xs])

lemma concat_chunks: "0 < n \<Longrightarrow> concat (chunks n xs) = xs"
  by (induction n xs rule: chunks.induct) (case_tac "xs = []"; simp add: chunks_simps)

lemma length_chunks:
  assumes "0 < n"
  shows "length (chunks n xs) = length xs div n + (if length xs mod n \<noteq> 0 then 1 else 0)"
  using assms
proof (induction n xs rule: chunks.induct)
  case (1 n xs)
  consider "xs = []" | "xs \<noteq> []" "length xs < n" | "xs \<noteq> []" "n \<le> length xs" by fastforce
  then show ?case
  proof cases
    case 3
    with "1" show ?thesis by (simp add: chunks_simps le_div_geq le_mod_geq)
  qed (use "1.prems" in \<open>simp_all add: chunks_simps\<close>)
qed

lemma chunk_sizes: "c \<in> set (chunks n xs) \<Longrightarrow> length c \<le> n"
proof (induction n xs rule: chunks.induct)
  case (1 n xs)
  then show ?case by (cases "xs = [] \<or> n = 0") (auto simp: chunks.simps [of n xs])
qed

definition chunk_list :: "bytes \<Rightarrow> bytes list" where
  "chunk_list v = (if v = [] then [[]] else chunks MAX_VALUE_CHUNK_BYTES v)"

lemma concat_chunk_list [simp]: "concat (chunk_list v) = v"
  by (simp add: chunk_list_def concat_chunks MAX_VALUE_CHUNK_BYTES_def)

lemma length_chunk_list: "length (chunk_list v) = value_chunk_count (length v)"
  by (simp add: chunk_list_def value_chunk_count_def length_chunks MAX_VALUE_CHUNK_BYTES_def)

lemma length_chunks_le: "length (chunks n xs) \<le> length xs"
proof (induction n xs rule: chunks.induct)
  case (1 n xs)
  show ?case
  proof (cases "xs = [] \<or> n = 0")
    case False
    with "1.IH" have "length (chunks n (drop n xs)) \<le> length (drop n xs)" by simp
    also have "\<dots> < length xs" using False by simp
    finally show ?thesis using False by (simp add: chunks.simps [of n xs])
  qed (simp add: chunks.simps [of n xs])
qed

lemma length_chunk_list_le: "length (chunk_list v) \<le> max 1 (length v)"
  using length_chunks_le [of MAX_VALUE_CHUNK_BYTES v] by (simp add: chunk_list_def le_max_iff_disj)

lemma chunk_list_not_Nil: "chunk_list v \<noteq> []"
  by (simp add: chunk_list_def MAX_VALUE_CHUNK_BYTES_def chunks_simps)

definition value_rows :: "subspace \<Rightarrow> bytes \<Rightarrow> (bytes \<times> bytes) list" where
  "value_rows s v = map (\<lambda>(i, c). (value_key s (of_nat i), c)) (enumerate 0 (chunk_list v))"

lemma of_nat_less_u64: "i < j \<Longrightarrow> j < 2 ^ 64 \<Longrightarrow> (of_nat i :: u64) < of_nat j"
  by (simp add: word_less_nat_alt unat_of_nat)

lemma value_rows_sorted:
  assumes "length v < 2 ^ 64"
  shows "sorted_wrt (<) (map fst (value_rows s v))"
  using length_chunk_list_le [of v] assms
  by (auto simp: value_rows_def sorted_wrt_iff_nth_less nth_enumerate_eq intro!: value_key_less of_nat_less_u64)

lemma take_enumerate: "take n (enumerate i xs) = enumerate i (take n xs)"
proof (induction xs arbitrary: n i)
  case (Cons x xs)
  then show ?case by (cases n) auto
qed simp

lemma read_chunks_rows:
  assumes "i + length cs < 2 ^ 64"
  shows "read_chunks (value_subspace s) True
      (map Inr (map (\<lambda>(i, c). (value_key s (of_nat i), c)) (enumerate i cs)) @ tail) (of_nat i) val has_chunks =
    read_chunks (value_subspace s) True tail (of_nat (i + length cs)) (val @ concat cs) (has_chunks \<or> cs \<noteq> [])"
  using assms
proof (induction cs arbitrary: i val has_chunks)
  case (Cons c cs)
  have "checked_add (of_nat i :: u64) 1 = Some (of_nat (Suc i))"
    using Cons.prems by (simp add: checked_add_def unat_of_nat)
  with Cons.IH [of "Suc i" "val @ c" True] Cons.prems show ?case
    by (simp add: decode_value_index_key validate_value_index_def)
qed simp

section \<open>What the store holds of a register\<close>

definition in_value_range :: "subspace \<Rightarrow> bytes \<Rightarrow> bool" where
  "in_value_range s k \<longleftrightarrow> (\<exists>b rest. k = prefix (value_subspace s) @ b # rest \<and> b \<noteq> 0xff)"

text \<open>The store \<open>m\<close> represents the logical state \<open>st\<close> of the register in \<open>s\<close>.\<close>

definition represents :: "subspace \<Rightarrow> (bytes \<rightharpoonup> bytes) \<Rightarrow> register_state \<Rightarrow> bool" where
  "represents s m st \<longleftrightarrow>
     (m (state_key s) = Some (encode_metadata st) \<or>
      m (state_key s) = None \<and> metadata_state.truncate st = bottom \<and> reg_value st = None) \<and>
     (\<forall>k. in_value_range s k \<longrightarrow>
        m k = (case reg_value st of None \<Rightarrow> None | Some v \<Rightarrow> map_of (value_rows s v) k)) \<and>
     (\<forall>v. reg_value st = Some v \<longrightarrow> length v < 2 ^ 64)"

lemma in_value_range_keys:
  "in_value_range s (value_key s i)" "\<not> in_value_range s (state_key s)" "state_key s \<noteq> value_key s i"
  using value_key_in_range [of s i] state_key_not_in_range
  by (auto simp: in_value_range_def value_key_eq)

lemma value_range_iff:
  "in_value_range s k \<longleftrightarrow> prefix (value_subspace s) @ [0] \<le> k \<and> k < prefix (value_subspace s) @ [0xff]"
  using subspace_range_iff [of "value_subspace s", OF refl [THEN trans, OF subspace_range_def]]
  by (simp add: in_value_range_def)

lemma plain_value_range [simp]: "plain (range_of_subspace sub)"
  by (simp add: plain_def range_of_subspace_def range_from_keys_def subspace_range_def
      default_range_def first_greater_or_equal_def ks_new_def)

lemma dom_value_rows: "k \<in> fst ` set (value_rows s v) \<Longrightarrow> in_value_range s k"
  using in_value_range_keys(1) by (auto simp: value_rows_def)

lemma rows_represented:
  assumes "represents s m st"
  shows "scan_rows m (range_of_subspace (value_subspace s)) =
    (case reg_value st of None \<Rightarrow> [] | Some v \<Rightarrow> value_rows s v)"
proof -
  let ?opt = "range_of_subspace (value_subspace s)"
  have sel: "selected ?opt k \<longleftrightarrow> in_value_range s k" for k
    unfolding value_range_iff
    by (simp add: selected_def range_of_subspace_def range_from_keys_def subspace_range_def
        default_range_def first_greater_or_equal_def ks_new_def)
  have opt: "limit ?opt = None" "\<not> rev_order ?opt"
    by (simp_all add: range_of_subspace_def range_from_keys_def subspace_range_def default_range_def)
  have m: "in_value_range s k \<Longrightarrow>
      m k = (case reg_value st of None \<Rightarrow> None | Some v \<Rightarrow> map_of (value_rows s v) k)" for k
    using assms by (simp add: represents_def)
  show ?thesis
  proof (cases "reg_value st")
    case None
    then have "{k \<in> dom m. selected ?opt k} = {}" using m sel by auto
    then have "sorted_list_of_set {k \<in> dom m. selected ?opt k} = sorted_list_of_set {}"
      by (rule arg_cong)
    with None opt show ?thesis by (simp add: scan_rows_def rows_def)
  next
    case (Some v)
    let ?keys = "map fst (value_rows s v)"
    have sorted: "sorted_wrt (<) ?keys"
      using assms Some by (intro value_rows_sorted) (simp add: represents_def)
    have "{k \<in> dom m. selected ?opt k} = set ?keys"
      using m sel Some dom_value_rows by (force simp: dom_map_of_conv_image_fst [symmetric] domIff)
    with sorted have keys: "sorted_list_of_set {k \<in> dom m. selected ?opt k} = ?keys"
      by (simp only: strict_sorted_iff sorted_list_of_set.idem_if_sorted_distinct)
    have "the (m (fst p)) = snd p" if "p \<in> set (value_rows s v)" for p
    proof -
      have "map_of (value_rows s v) (fst p) = Some (snd p)"
        using that sorted by (intro map_of_is_SomeI) (simp_all add: strict_sorted_iff)
      moreover have "in_value_range s (fst p)" using that by (intro dom_value_rows [of _ s v]) simp
      ultimately show ?thesis using m Some by simp
    qed
    then have "map (\<lambda>k. (k, the (m k))) ?keys = value_rows s v"
      by (auto simp: comp_def intro: map_idI)
    with keys opt Some show ?thesis by (simp add: scan_rows_def rows_def)
  qed
qed

context kv_store
begin

lemma read_metadata_represents:
  assumes "represents s (view t) st"
  shows "case read_metadata kv t (state_key s) of
      Inl e \<Rightarrow> \<exists>f. e = Fdb f
    | Inr None \<Rightarrow> metadata_state.truncate st = bottom \<and> reg_value st = None
    | Inr (Some md) \<Rightarrow> md = metadata_state.truncate st"
proof (cases "kv_get kv t (state_key s)")
  case (Inr found)
  from get_ok [OF this] assms Inr show ?thesis
    by (auto simp: read_metadata_def represents_def decode_encode_metadata)
qed (simp add: read_metadata_def)

lemma read_value_represents:
  assumes "represents s (view t) st" and "has_metadata \<or> reg_value st = None"
  shows "(\<exists>f. read_value kv t s has_metadata = Some (Inl (Fdb f))) \<or>
    read_value kv t s has_metadata = Some (Inr (reg_value st))"
proof -
  let ?sub = "value_subspace s"
  obtain items where items: "get_ranges_keyvalues kv t (range_of_subspace ?sub) = Some items"
    and del: "delivers (case reg_value st of None \<Rightarrow> [] | Some v \<Rightarrow> value_rows s v) items"
    using get_ranges_keyvalues_scan [OF plain_value_range, of t ?sub] rows_represented [OF assms(1)] by auto
  have "(\<exists>f. read_chunks ?sub has_metadata items 0 [] False = Inl (Fdb f)) \<or>
    read_chunks ?sub has_metadata items 0 [] False = Inr (reg_value st)"
  proof (cases "reg_value st")
    case None
    with del show ?thesis by (auto simp: delivers_def)
  next
    case (Some v)
    have len: "length (chunk_list v) < 2 ^ 64"
      using assms(1) Some length_chunk_list_le [of v] by (auto simp: represents_def)
    have part: "read_chunks ?sub True (map Inr (take n (value_rows s v)) @ tail) 0 [] False =
        read_chunks ?sub True tail (of_nat (length (take n (chunk_list v)))) (concat (take n (chunk_list v)))
          (take n (chunk_list v) \<noteq> [])" for n tail
      using read_chunks_rows [of 0 "take n (chunk_list v)" s tail "[]" False] len
      by (simp add: value_rows_def take_map take_enumerate)
    from del Some consider n e where "items = map Inr (take n (value_rows s v)) @ [Inl e]"
      | "items = map Inr (take (length (value_rows s v)) (value_rows s v)) @ []"
      by (auto simp: delivers_def)
    then show ?thesis
    proof cases
      case 1
      with part [of n "[Inl e]"] Some assms(2) show ?thesis by simp
    next
      case 2
      then have "read_chunks ?sub True items 0 [] False = Inr (Some v)"
        using part [of "length (value_rows s v)" "[]"] chunk_list_not_Nil [of v]
        by (simp add: value_rows_def)
      with Some assms(2) show ?thesis by simp
    qed
  qed
  with items show ?thesis by (simp add: read_value_def)
qed

lemma view_write_chunks:
  assumes "i + length cs \<le> 2 ^ 64"
  shows "view (write_chunks kv s i cs t) =
    view t ++ map_of (map (\<lambda>(i, c). (value_key s (of_nat i), c)) (enumerate i cs))"
  using assms
proof (induction cs arbitrary: i t)
  case (Cons c cs)
  have "value_key s (of_nat i) \<noteq> value_key s (of_nat j)" if "i < j" "j < 2 ^ 64" for j
    using value_key_less [OF of_nat_less_u64 [OF that], of s] by simp
  with Cons.prems have "\<forall>p \<in> set (enumerate (Suc i) cs). value_key s (of_nat i) \<noteq> value_key s (of_nat (fst p))"
    by (auto simp: in_set_enumerate_eq)
  then have "value_key s (of_nat i) \<notin>
      fst ` set (map (\<lambda>(i, c). (value_key s (of_nat i), c)) (enumerate (Suc i) cs))"
    by (auto simp del: map_map)
  then have "map_of (map (\<lambda>(i, c). (value_key s (of_nat i), c)) (enumerate (Suc i) cs)) (value_key s (of_nat i)) = None"
    by (simp only: map_of_eq_None_iff not_False_eq_True)
  with Cons.IH [of "Suc i"] Cons.prems show ?case
    by (auto simp: view_set fun_eq_iff map_add_def split: option.splits)
qed simp

lemma view_write_value:
  assumes "length v < 2 ^ 64"
  shows "view (snd (write_value kv s v t)) k =
    (if in_value_range s k then map_of (value_rows s v) k else view t k)"
proof -
  let ?t = "clear_subspace_range kv (value_subspace s) t"
  have "length (chunk_list v) \<le> 2 ^ 64" using assms length_chunk_list_le [of v] by auto
  then have rows: "view (write_chunks kv s 0 (chunk_list v) ?t) = view ?t ++ map_of (value_rows s v)"
    by (simp add: view_write_chunks value_rows_def)
  have "snd (write_value kv s v t) = write_chunks kv s 0 (chunk_list v) ?t"
    by (simp add: write_value_def chunk_list_def Let_def)
  with rows have "view (snd (write_value kv s v t)) k =
      (case map_of (value_rows s v) k of None \<Rightarrow> view ?t k | Some c \<Rightarrow> Some c)"
    by (simp add: map_add_def)
  moreover have "view ?t k = (if in_value_range s k then None else view t k)"
    by (simp add: clear_subspace_range_def subspace_range_def view_clear_range value_range_iff)
  moreover have "in_value_range s k" if "map_of (value_rows s v) k = Some c" for c
    using map_of_SomeD [OF that] by (intro dom_value_rows [of _ s v]) force
  ultimately show ?thesis by (auto split: option.splits)
qed

end

section \<open>The logical register\<close>

text \<open>The paper's operations on the logical state, which the durable ones refine.\<close>

definition spec_read :: "rank \<Rightarrow> register_state \<Rightarrow> read_result \<times> register_state" where
  "spec_read rank st =
     (\<lparr>write_rank = max_write_rank st, result_value = reg_value st\<rparr>,
      st\<lparr>max_read_rank := max (max_read_rank st) rank\<rparr>)"

definition spec_write :: "rank \<Rightarrow> bytes \<Rightarrow> register_state \<Rightarrow> write_result \<times> register_state" where
  "spec_write rank val st =
     (if max_read_rank st \<le> rank \<and> max_write_rank st < rank
      then (Committed, st\<lparr>max_write_rank := rank, reg_value := Some val\<rparr>)
      else (Aborted, st))"

definition bottom_register :: register_state where
  "bottom_register = \<lparr>max_read_rank = ZERO, max_write_rank = ZERO, reg_value = None\<rparr>"

definition own_key :: "subspace \<Rightarrow> bytes \<Rightarrow> bool" where
  "own_key s k \<longleftrightarrow> k = state_key s \<or> in_value_range s k"

text \<open>The new store represents the new state, and other keys are untouched.\<close>

definition refines :: "subspace \<Rightarrow> (bytes \<rightharpoonup> bytes) \<Rightarrow> (bytes \<rightharpoonup> bytes) \<Rightarrow> register_state \<Rightarrow> bool" where
  "refines s m m' st' \<longleftrightarrow> represents s m' st' \<and> (\<forall>k. \<not> own_key s k \<longrightarrow> m' k = m k)"

context kv_store
begin

lemma write_metadata_represents:
  assumes "represents s (view t) st" and "reg_value st' = reg_value st"
  shows "refines s (view t) (view (write_metadata kv (state_key s) (metadata_state.truncate st') t)) st'"
proof -
  have "encode_metadata (metadata_state.truncate st') = encode_metadata st'"
    by (simp add: encode_metadata_def metadata_state.defs)
  moreover have "k \<noteq> state_key s" if "in_value_range s k" for k
    using that in_value_range_keys(2) by auto
  ultimately show ?thesis
    using assms by (auto simp: refines_def represents_def write_metadata_def view_set own_key_def)
qed

lemma read_represents:
  assumes "represents s (view t) st"
  shows "(\<exists>f. reg_read kv s rank t = Some (Inl (Fdb f))) \<or>
    (\<exists>t'. reg_read kv s rank t = Some (Inr (fst (spec_read rank st), t')) \<and>
       refines s (view t) (view t') (snd (spec_read rank st)))"
proof (cases "read_metadata kv t (state_key s)")
  case (Inl e)
  with read_metadata_represents [OF assms] show ?thesis by (auto simp: reg_read_def)
next
  case (Inr maybe)
  let ?md = "case maybe of None \<Rightarrow> bottom | Some state \<Rightarrow> state"
  have md: "?md = metadata_state.truncate st" and has: "maybe \<noteq> None \<or> reg_value st = None"
    using read_metadata_represents [OF assms] Inr by (auto split: option.splits)
  show ?thesis
    using read_value_represents [OF assms has]
  proof (elim disjE exE)
    fix f
    assume "read_value kv t s (maybe \<noteq> None) = Some (Inl (Fdb f))"
    with Inr show ?thesis by (simp add: reg_read_def)
  next
    assume val: "read_value kv t s (maybe \<noteq> None) = Some (Inr (reg_value st))"
    let ?st = "st\<lparr>max_read_rank := rank\<rparr>"
    have "refines s (view t) (view (write_metadata kv (state_key s) (metadata_state.truncate ?st) t)) ?st"
      using assms by (intro write_metadata_represents) simp_all
    moreover have "refines s (view t) (view t) st" using assms by (simp add: refines_def)
    ultimately show ?thesis
      using Inr val md
      by (auto simp: reg_read_def spec_read_def metadata_state.defs Let_def max_def)
  qed
qed

lemma write_represents:
  assumes "represents s (view t) st" and "length v < 2 ^ 64"
    and "\<forall>lim. max_bytes = Some lim \<longrightarrow> length v \<le> lim"
  shows "(\<exists>f. reg_write kv s rank v max_bytes t = Inl (Fdb f)) \<or>
    (\<exists>t'. reg_write kv s rank v max_bytes t = Inr (fst (spec_write rank v st), t') \<and>
       refines s (view t) (view t') (snd (spec_write rank v st)))"
proof (cases "read_metadata kv t (state_key s)")
  case (Inl e)
  with read_metadata_represents [OF assms(1)] assms(3) show ?thesis
    by (auto simp: reg_write_def split: option.splits)
next
  case (Inr maybe)
  let ?md = "case maybe of None \<Rightarrow> bottom | Some state \<Rightarrow> state"
  have md: "?md = metadata_state.truncate st"
    using read_metadata_represents [OF assms(1)] Inr by (auto split: option.splits)
  have check: "(case max_bytes of Some lim \<Rightarrow>
      if lim < length v then Inl (ValueTooLarge (length v) lim) else Inr () | None \<Rightarrow> Inr ()) = Inr ()"
    using assms(3) by (auto split: option.splits)
  show ?thesis
  proof (cases "max_read_rank st \<le> rank \<and> max_write_rank st < rank")
    case False
    with Inr md check assms(1) show ?thesis
      by (auto simp: reg_write_def spec_write_def metadata_state.defs refines_def not_less not_le)
  next
    case True
    let ?st = "st\<lparr>max_write_rank := rank\<rparr>"
    let ?t = "write_metadata kv (state_key s) (metadata_state.truncate ?st) t"
    have "refines s (view t) (view ?t) ?st"
      using assms(1) by (intro write_metadata_represents) simp_all
    moreover have "view ?t (state_key s) = Some (encode_metadata ?st)"
      by (simp add: write_metadata_def view_set encode_metadata_def metadata_state.defs)
    moreover have "encode_metadata (?st\<lparr>reg_value := Some v\<rparr>) = encode_metadata ?st"
      by (simp add: encode_metadata_def)
    ultimately have "refines s (view t) (view (snd (write_value kv s v ?t))) (?st\<lparr>reg_value := Some v\<rparr>)"
      using assms(2) in_value_range_keys(2) [of s]
      by (auto simp: refines_def represents_def view_write_value own_key_def)
    with True Inr md check show ?thesis
      by (auto simp: reg_write_def spec_write_def metadata_state.defs Let_def not_less not_le
          split: prod.splits)
  qed
qed

lemma value_represents:
  assumes "represents s (view t) st"
  shows "(\<exists>f. reg_value_of kv s t = Some (Inl (Fdb f))) \<or> reg_value_of kv s t = Some (Inr (reg_value st))"
proof (cases "read_metadata kv t (state_key s)")
  case (Inl e)
  with read_metadata_represents [OF assms] show ?thesis by (auto simp: reg_value_of_def)
next
  case (Inr maybe)
  have "maybe \<noteq> None \<or> reg_value st = None"
    using read_metadata_represents [OF assms] Inr by (auto split: option.splits)
  from read_value_represents [OF assms this] Inr show ?thesis by (simp add: reg_value_of_def)
qed

end

section \<open>Histories\<close>

text \<open>
  Transactions commit one after the other.  An event is a committed operation with its answer, a
  transaction that failed and left no trace, or one that did not touch the register's keys.
\<close>

datatype register_event =
    ReadEvent rank read_result
  | WriteEvent rank bytes write_result
  | ValueEvent "bytes option"
  | FailEvent
  | OtherEvent

inductive register_step ::
    "'s kv \<Rightarrow> ('s \<Rightarrow> bytes \<rightharpoonup> bytes) \<Rightarrow> subspace \<Rightarrow> 's \<Rightarrow> register_event \<Rightarrow> 's \<Rightarrow> bool"
  for kv view s where
  step_read: "reg_read kv s rank t = Some (Inr (res, t')) \<Longrightarrow>
    register_step kv view s t (ReadEvent rank res) t'"
| step_write: "reg_write kv s rank v max_bytes t = Inr (res, t') \<Longrightarrow> length v < 2 ^ 64 \<Longrightarrow>
    register_step kv view s t (WriteEvent rank v res) t'"
| step_value: "reg_value_of kv s t = Some (Inr found) \<Longrightarrow> register_step kv view s t (ValueEvent found) t"
| step_fail: "register_step kv view s t FailEvent t"
| step_other: "\<forall>k. own_key s k \<longrightarrow> view t' k = view t k \<Longrightarrow> register_step kv view s t OtherEvent t'"

inductive_cases register_stepE: "register_step kv view s t e t'"

inductive register_history ::
    "'s kv \<Rightarrow> ('s \<Rightarrow> bytes \<rightharpoonup> bytes) \<Rightarrow> subspace \<Rightarrow> 's \<Rightarrow> register_event list \<Rightarrow> 's \<Rightarrow> bool"
  for kv view s t where
  history_nil: "register_history kv view s t [] t"
| history_snoc: "register_history kv view s t es t' \<Longrightarrow> register_step kv view s t' e t'' \<Longrightarrow>
    register_history kv view s t (es @ [e]) t''"

fun committed_write :: "register_event \<Rightarrow> (rank \<times> bytes) option" where
  "committed_write (WriteEvent rank v Committed) = Some (rank, v)"
| "committed_write _ = None"

definition written :: "register_event list \<Rightarrow> (rank \<times> bytes) list" where
  "written es = List.map_filter committed_write es"

definition read_ranks :: "register_event list \<Rightarrow> rank list" where
  "read_ranks es = List.map_filter (\<lambda>e. case e of ReadEvent rank _ \<Rightarrow> Some rank | _ \<Rightarrow> None) es"

text \<open>What an answer must be after the history \<open>es\<close>: the last committed write.\<close>

definition last_rank :: "register_event list \<Rightarrow> rank" where
  "last_rank es = (if written es = [] then ZERO else fst (last (written es)))"

definition last_value :: "register_event list \<Rightarrow> bytes option" where
  "last_value es = (if written es = [] then None else Some (snd (last (written es))))"

definition event_ok :: "register_event list \<Rightarrow> register_event \<Rightarrow> bool" where
  "event_ok es e \<longleftrightarrow>
     (case e of
        ReadEvent rank res \<Rightarrow> write_rank res = last_rank es \<and> result_value res = last_value es
      | WriteEvent rank v Committed \<Rightarrow> last_rank es < rank \<and> (\<forall>r \<in> set (read_ranks es). r \<le> rank)
      | WriteEvent rank v Aborted \<Rightarrow> rank \<le> last_rank es \<or> (\<exists>r \<in> set (read_ranks es). rank < r)
      | ValueEvent found \<Rightarrow> found = last_value es
      | _ \<Rightarrow> True)"

definition history_ok :: "register_event list \<Rightarrow> bool" where
  "history_ok es \<longleftrightarrow> (\<forall>i < length es. event_ok (take i es) (es ! i))"

text \<open>The invariant: the logical state sums up the history.\<close>

definition sums_up :: "register_event list \<Rightarrow> register_state \<Rightarrow> bool" where
  "sums_up es st \<longleftrightarrow>
     max_write_rank st = last_rank es \<and> reg_value st = last_value es \<and>
     (\<forall>r \<in> set (read_ranks es). r \<le> max_read_rank st) \<and>
     (max_read_rank st = ZERO \<or> max_read_rank st \<in> set (read_ranks es))"

lemma ZERO_least [simp]: "ZERO \<le> r" "\<not> r < ZERO"
  by (simp_all add: ZERO_def less_eq_rank_def less_rank_def)

lemma history_ok_snoc: "history_ok (es @ [e]) \<longleftrightarrow> history_ok es \<and> event_ok es e"
  by (auto simp: history_ok_def nth_append less_Suc_eq)

lemma history_simps [simp]:
  "written [] = []" "read_ranks [] = []"
  "written (es @ [e]) = written es @ (case committed_write e of None \<Rightarrow> [] | Some w \<Rightarrow> [w])"
  "read_ranks (es @ [e]) = read_ranks es @ (case e of ReadEvent rank _ \<Rightarrow> [rank] | _ \<Rightarrow> [])"
  by (simp_all add: written_def read_ranks_def map_filter_def split: option.splits register_event.splits)

lemma represents_cong:
  assumes "represents s m st" and "\<forall>k. own_key s k \<longrightarrow> m' k = m k"
  shows "represents s m' st"
  using assms by (simp add: represents_def own_key_def)

context kv_store
begin

lemma step_sums_up:
  assumes "register_step kv view s t e t'" and "represents s (view t) st" and "sums_up es st"
  shows "event_ok es e \<and> (\<exists>st'. represents s (view t') st' \<and> sums_up (es @ [e]) st')"
  using assms(1)
proof cases
  case (step_read rank res)
  with read_represents [OF assms(2), of rank]
  have res: "res = fst (spec_read rank st)" "represents s (view t') (snd (spec_read rank st))"
    by (auto simp: refines_def)
  with assms(3) step_read(1) show ?thesis
    by (intro conjI exI [of _ "snd (spec_read rank st)"])
      (auto simp: spec_read_def event_ok_def sums_up_def last_rank_def last_value_def max_def
        intro: order_trans [OF _ ZERO_least(1)])
next
  case (step_write rank v max_bytes res)
  have "\<forall>lim. max_bytes = Some lim \<longrightarrow> length v \<le> lim"
    using step_write(2) by (auto simp: reg_write_def split: if_splits)
  with write_represents [OF assms(2) step_write(3), of max_bytes rank] step_write(2)
  have res: "res = fst (spec_write rank v st)" "represents s (view t') (snd (spec_write rank v st))"
    by (auto simp: refines_def)
  with assms(3) step_write(1) show ?thesis
    by (intro conjI exI [of _ "snd (spec_write rank v st)"])
      (auto simp: spec_write_def event_ok_def sums_up_def last_rank_def last_value_def not_le not_less
        split: if_splits intro: order_trans)
next
  case (step_value found)
  with value_represents [OF assms(2)] assms(2,3) show ?thesis
    by (intro conjI exI [of _ st]) (auto simp: event_ok_def sums_up_def last_rank_def last_value_def)
next
  case step_fail
  with assms(2,3) show ?thesis
    by (intro conjI exI [of _ st]) (auto simp: event_ok_def sums_up_def last_rank_def last_value_def)
next
  case step_other
  with represents_cong [OF assms(2)] assms(3) show ?thesis
    by (intro conjI exI [of _ st]) (auto simp: event_ok_def sums_up_def last_rank_def last_value_def)
qed

lemma history_sums_up:
  assumes "register_history kv view s t es t'" and "represents s (view t) bottom_register"
  shows "history_ok es \<and> (\<exists>st. represents s (view t') st \<and> sums_up es st)"
  using assms
proof (induction rule: register_history.induct)
  case history_nil
  then show ?case
    by (intro conjI exI [of _ bottom_register])
      (auto simp: history_ok_def sums_up_def bottom_register_def last_rank_def last_value_def)
next
  case (history_snoc es t' e t'')
  then show ?case using step_sums_up [of s t' e t''] by (auto simp: history_ok_snoc)
qed

end

lemma history_ok_sorted: "history_ok es \<Longrightarrow> sorted_wrt (<) (map fst (written es))"
proof (induction es rule: rev_induct)
  case (snoc e es)
  then have IH: "sorted_wrt (<) (map fst (written es))" and ok: "event_ok es e"
    by (auto simp: history_ok_snoc)
  show ?case
  proof (cases "committed_write e")
    case (Some w)
    then obtain rank v where e: "e = WriteEvent rank v Committed" "w = (rank, v)"
      by (cases e rule: committed_write.cases) auto
    have "fst x \<le> last_rank es" if "x \<in> set (written es)" for x
      using IH that by (cases "written es" rule: rev_cases) (auto simp: last_rank_def sorted_wrt_append less_imp_le)
    moreover have "last_rank es < rank" using ok e by (simp add: event_ok_def)
    ultimately have "\<forall>x \<in> set (written es). fst x < rank" by (meson le_less_trans)
    with IH e show ?thesis by (auto simp: sorted_wrt_append)
  qed (use IH in simp)
qed simp

text \<open>The client in memory does not fail, so on it the answers are the logical ones.\<close>

lemma mem_get_ranges: "get_ranges (mem_kv n) s i opt = Some bs \<Longrightarrow> \<forall>b \<in> set bs. \<exists>v. b = Inr v"
proof -
  have "get_ranges kv s i opt = Some bs \<Longrightarrow> kv = mem_kv n \<longrightarrow> (\<forall>b \<in> set bs. \<exists>v. b = Inr v)" for kv
    by (rule get_ranges.raw_induct [where P = "\<lambda>kv s i opt bs. kv = mem_kv n \<longrightarrow> (\<forall>b \<in> set bs. \<exists>v. b = Inr v)"])
      (auto simp: mem_kv_def mem_get_range_def Let_def bind_eq_Some_conv split: option.splits)
  then show "get_ranges (mem_kv n) s i opt = Some bs \<Longrightarrow> \<forall>b \<in> set bs. \<exists>v. b = Inr v" by blast
qed

lemma read_chunks_no_fail:
  "\<forall>x \<in> set items. \<exists>v. x = Inr v \<Longrightarrow> read_chunks sub md items i val has_chunks \<noteq> Inl (Fdb f)"
  by (induction sub md items i val has_chunks rule: read_chunks.induct)
    (auto simp: bind_result_def decode_value_index_def validate_value_index_def map_err_def ok_or_def
      split: sum.splits option.splits)

lemma mem_no_fail:
  "reg_read (mem_kv n) s rank t \<noteq> Some (Inl (Fdb f))"
  "reg_write (mem_kv n) s rank v max_bytes t \<noteq> Inl (Fdb f)"
  "reg_value_of (mem_kv n) s t \<noteq> Some (Inl (Fdb f))"
proof -
  have md: "read_metadata (mem_kv n) t k \<noteq> Inl (Fdb f)" for k
    by (auto simp: read_metadata_def mem_kv_def decode_metadata_def bind_result_def map_err_def
        split: option.splits sum.splits prod.splits if_splits)
  have items: "get_ranges_keyvalues (mem_kv n) t opt = Some items \<Longrightarrow> \<forall>x \<in> set items. \<exists>v. x = Inr v" for opt items
    by (fastforce simp: get_ranges_keyvalues_def dest: mem_get_ranges)
  have val: "read_value (mem_kv n) t s has_md \<noteq> Some (Inl (Fdb f))" for has_md
    using read_chunks_no_fail [OF items] by (auto simp: read_value_def Let_def)
  show "reg_read (mem_kv n) s rank t \<noteq> Some (Inl (Fdb f))"
    using md val by (auto simp: reg_read_def bind_result_def Let_def split: sum.splits if_splits)
  show "reg_write (mem_kv n) s rank v max_bytes t \<noteq> Inl (Fdb f)"
    using md by (auto simp: reg_write_def bind_result_def Let_def split: sum.splits option.splits if_splits prod.splits)
  show "reg_value_of (mem_kv n) s t \<noteq> Some (Inl (Fdb f))"
    using md val by (auto simp: reg_value_of_def split: sum.splits)
qed

lemma represents_empty: "represents s (map_of []) bottom_register"
  by (simp add: represents_def bottom_register_def bottom_def metadata_state.defs)

text \<open>A write and then a read by a higher rank, on the client in memory.\<close>

lemma write_then_read:
  "\<exists>t. register_history (mem_kv 0) map_of subspace_all []
     [WriteEvent (Rank 7) [1, 2, 3] Committed,
      ReadEvent (Rank 9) \<lparr>write_rank = Rank 7, result_value = Some [1, 2, 3]\<rparr>] t"
proof -
  let ?st = "\<lparr>max_read_rank = ZERO, max_write_rank = Rank 7, reg_value = Some [1, 2, 3]\<rparr>"
  have spec: "spec_write (Rank 7) [1, 2, 3] bottom_register = (Committed, ?st)"
    by (simp add: spec_write_def bottom_register_def ZERO_def less_rank_def less_eq_rank_def)
  from mem.write_represents [where n = 0 and v = "[1, 2, 3]" and max_bytes = None and rank = "Rank 7",
      OF represents_empty [of subspace_all]] mem_no_fail(2)
  obtain t1 where w: "reg_write (mem_kv 0) subspace_all (Rank 7) [1, 2, 3] None [] = Inr (Committed, t1)"
    and t1: "represents subspace_all (map_of t1) ?st"
    by (auto simp: spec refines_def)
  from mem.read_represents [where n = 0 and rank = "Rank 9", OF t1] mem_no_fail(1)
  obtain t2 where "reg_read (mem_kv 0) subspace_all (Rank 9) t1 =
      Some (Inr (\<lparr>write_rank = Rank 7, result_value = Some [1, 2, 3]\<rparr>, t2))"
    by (auto simp: spec_read_def)
  from history_snoc [OF history_snoc [OF history_nil step_write [OF w]] step_read [OF this]]
  show ?thesis by auto
qed

section \<open>Properties\<close>

text \<open>
  C1.  The durable operations refine the logical register.  On a store that represents a logical
  state, a ranked read, a ranked write within the handle's limit and a plain read return, unless
  the client fails, exactly the answers of the logical operations; the new store represents the
  new logical state and every other key is as before.  Corrupted state is never reported.
\<close>

theorem register_refinement:
  assumes "kv_store kv view" and "represents s (view t) st" and "length v < 2 ^ 64"
    and "\<forall>lim. max_bytes = Some lim \<longrightarrow> length v \<le> lim"
  shows "((\<exists>f. reg_read kv s rank t = Some (Inl (Fdb f))) \<or>
      (\<exists>t'. reg_read kv s rank t = Some (Inr (fst (spec_read rank st), t')) \<and>
         refines s (view t) (view t') (snd (spec_read rank st)))) \<and>
    ((\<exists>f. reg_write kv s rank v max_bytes t = Inl (Fdb f)) \<or>
      (\<exists>t'. reg_write kv s rank v max_bytes t = Inr (fst (spec_write rank v st), t') \<and>
         refines s (view t) (view t') (snd (spec_write rank v st)))) \<and>
    ((\<exists>f. reg_value_of kv s t = Some (Inl (Fdb f))) \<or>
      reg_value_of kv s t = Some (Inr (reg_value st)))"
  using kv_store.read_represents [OF assms(1,2)] kv_store.write_represents [OF assms]
    kv_store.value_represents [OF assms(1,2)] by blast

theorem register_refinement_witness:
  "\<exists>t'. reg_write (mem_kv 0) subspace_all (Rank 7) [1, 2, 3] None [] = Inr (Committed, t') \<and>
     represents subspace_all (map_of t')
       \<lparr>max_read_rank = ZERO, max_write_rank = Rank 7, reg_value = Some [1, 2, 3]\<rparr>"
proof -
  have "spec_write (Rank 7) [1, 2, 3] bottom_register =
      (Committed, \<lparr>max_read_rank = ZERO, max_write_rank = Rank 7, reg_value = Some [1, 2, 3]\<rparr>)"
    by (simp add: spec_write_def bottom_register_def ZERO_def less_rank_def less_eq_rank_def)
  with register_refinement [OF mem_kv_store [of 0] represents_empty [of subspace_all],
      of "[1, 2, 3]" None "Rank 7"] mem_no_fail(2)
  show ?thesis by (auto simp: refines_def)
qed

text \<open>
  C2.  Histories of a register are safe.  In every sequence of committed transactions that starts
  on an unused register, each answer is the one the history demands: a read returns the rank and
  the value of the last committed write; a write commits only with a rank above that of every
  committed write and not below that of any earlier read, and is refused only when one of those
  fences it.
\<close>

theorem register_history_safe:
  assumes "kv_store kv view" and "represents s (view t) bottom_register"
    and "register_history kv view s t es t'"
  shows "history_ok es"
  using kv_store.history_sums_up [OF assms(1,3,2)] by blast

theorem register_history_safe_witness:
  "history_ok [WriteEvent (Rank 7) [1, 2, 3] Committed,
     ReadEvent (Rank 9) \<lparr>write_rank = Rank 7, result_value = Some [1, 2, 3]\<rparr>]"
proof -
  obtain t1 where "register_history (mem_kv 0) map_of subspace_all []
      [WriteEvent (Rank 7) [1, 2, 3] Committed,
       ReadEvent (Rank 9) \<lparr>write_rank = Rank 7, result_value = Some [1, 2, 3]\<rparr>] t1"
    using write_then_read by blast
  from register_history_safe [OF mem_kv_store represents_empty this] show ?thesis .
qed

text \<open>
  A committed write under a rank fences every lower or equal one: committed ranks strictly
  increase along a history, so one rank commits at most once.
\<close>

theorem committed_ranks_increase:
  assumes "kv_store kv view" and "represents s (view t) bottom_register"
    and "register_history kv view s t es t'"
  shows "sorted_wrt (<) (map fst (written es)) \<and> distinct (map fst (written es))"
  using kv_store.history_sums_up [OF assms(1,3,2)] history_ok_sorted [of es]
  by (auto simp: strict_sorted_iff)

theorem committed_ranks_increase_witness:
  "sorted_wrt (<) [Rank 7] \<and> distinct [Rank 7]"
proof -
  obtain t1 where "register_history (mem_kv 0) map_of subspace_all []
      [WriteEvent (Rank 7) [1, 2, 3] Committed,
       ReadEvent (Rank 9) \<lparr>write_rank = Rank 7, result_value = Some [1, 2, 3]\<rparr>] t1"
    using write_then_read by blast
  from committed_ranks_increase [OF mem_kv_store represents_empty this] show ?thesis
    by (simp add: written_def map_filter_def)
qed

text \<open>
  Ranks made from a process and a sequence number compare by sequence first and by process
  second, and give both back.
\<close>

theorem rank_encoding:
  "(rank_new p q < rank_new p' q' \<longleftrightarrow> q < q' \<or> q = q' \<and> p < p') \<and>
   process_id (rank_new p q) = p \<and> sequence (rank_new p q) = q"
  by (simp add: rank_new_order rank_new_parts)

end
