(* ===== verification/Leader_Election.thy ===== *)
theory Leader_Election
  imports Ranked_Register
begin

text \<open>
  The lease protocol (\<^verbatim>\<open>foundationdb/src/recipes/leader_election\<close>): the durable record and
  its encoding, the pure poll step, the operations on a transaction, the caller's local state, and
  the earlier poll logic that the repository's tests keep as a reference.

  A \<^verbatim>\<open>Duration\<close> is its number of nanoseconds; differences saturate at zero, as subtraction
  of naturals does.
\<close>

section \<open>Durations and participants\<close>

type_synonym duration = nat

definition duration_new :: "u64 \<Rightarrow> u32 \<Rightarrow> duration" where
  "duration_new secs nanos = unat secs * 1000000000 + unat nanos"

definition as_secs :: "duration \<Rightarrow> u64" where
  "as_secs d = of_nat (d div 1000000000)"

definition subsec_nanos :: "duration \<Rightarrow> u32" where
  "subsec_nanos d = of_nat (d mod 1000000000)"

definition wf_duration :: "duration \<Rightarrow> bool" where
  "wf_duration d \<longleftrightarrow> d < 2 ^ 64 * 1000000000"

datatype participant_id = ParticipantId (as_str: bytes)

text \<open>
  The messages of \<^verbatim>\<open>InvalidState\<close>, as the conditions they report.  The variant
  \<^verbatim>\<open>Binding\<close>, which no operation of the recipe builds, is left out.
\<close>

datatype election_invalid =
    UnknownElectionSchema u64
  | ReleasedWithOwner
  | MissingLeaseFields
  | NanosOutOfRange
  | ZeroRevisionNotEmpty
  | CreatedWithoutLease
  | ZeroLease
  | FollowerOfReleased
  | FollowerWithoutLease

datatype election_error =
    InvalidElectionState election_invalid
  | InvalidParticipantId
  | ParticipantIdTooLarge nat nat
  | InvalidLeaseDuration
  | RevisionExhausted
  | ElectionFdb fdb_error
  | ElectionPackError pack_error

definition MAX_ENCODED_BYTES :: nat where
  "MAX_ENCODED_BYTES = 95000"

definition saturating_add :: "nat \<Rightarrow> nat \<Rightarrow> nat" where
  "saturating_add a b = min (a + b) (2 ^ 64 - 1)"

definition participant_new :: "bytes \<Rightarrow> election_error + participant_id" where
  "participant_new v =
     (if v = [] then Inl InvalidParticipantId
      else
        let encoded_size = fold (\<lambda>_ size. saturating_add size 1) (filter (\<lambda>byte. byte = 0) v)
              (saturating_add (length v) 2)
        in if encoded_size > MAX_ENCODED_BYTES
           then Inl (ParticipantIdTooLarge encoded_size MAX_ENCODED_BYTES)
           else Inr (ParticipantId v))"

section \<open>The durable record\<close>

definition ELECTION_STATE_PREFIX :: bytes where
  "ELECTION_STATE_PREFIX = [115, 116, 97, 116, 101]"

definition election_state_key :: "subspace \<Rightarrow> bytes" where
  "election_state_key s = the (subspace_pack pack_tuple s [\<lambda>d. pack_str d ELECTION_STATE_PREFIX])"

record durable_state =
  revision :: u64
  owner :: "participant_id option"
  lease_duration :: "duration option"

definition default_state :: durable_state where
  "default_state = \<lparr>revision = 0, owner = None, lease_duration = None\<rparr>"

definition ELECTION_SCHEMA_VERSION :: u64 where
  "ELECTION_SCHEMA_VERSION = 1"

text \<open>The reader of \<^verbatim>\<open>(u64, u64, bool, String, bool, u64, u32)\<close>.\<close>

definition unpack_state_tuple ::
    "(u64 \<times> u64 \<times> bool \<times> bytes \<times> bool \<times> u64 \<times> u32) unpacker" where
  "unpack_state_tuple = unpack_tuple
     (field_cons unpack_ux (field_cons unpack_ux (field_cons unpack_bool (field_cons unpack_str
     (field_cons unpack_bool (field_cons unpack_ux (field_last unpack_ux)))))))"

definition decode_state :: "bytes \<Rightarrow> election_error + durable_state" where
  "decode_state v =
     bind_result (map_err ElectionPackError (unpack_root unpack_state_tuple v))
     (\<lambda>(schema_version, rev, has_owner, own, has_lease_duration, secs, nanos).
       if schema_version \<noteq> ELECTION_SCHEMA_VERSION
       then Inl (InvalidElectionState (UnknownElectionSchema schema_version))
       else bind_result
         (if has_owner then bind_result (participant_new own) (\<lambda>p. Inr (Some p))
          else if own = [] then Inr None
          else Inl (InvalidElectionState ReleasedWithOwner))
       (\<lambda>own.
         if \<not> has_lease_duration \<and> (secs \<noteq> 0 \<or> nanos \<noteq> 0)
         then Inl (InvalidElectionState MissingLeaseFields)
         else if has_lease_duration \<and> nanos \<ge> 1000000000
         then Inl (InvalidElectionState NanosOutOfRange)
         else
           let lease = (if has_lease_duration then Some (duration_new secs nanos) else None)
           in if rev = 0 \<and> (own \<noteq> None \<or> lease \<noteq> None)
              then Inl (InvalidElectionState ZeroRevisionNotEmpty)
              else if rev > 0 \<and> lease = None
              then Inl (InvalidElectionState CreatedWithoutLease)
              else if lease = Some 0
              then Inl (InvalidElectionState ZeroLease)
              else Inr \<lparr>revision = rev, owner = own, lease_duration = lease\<rparr>))"

text \<open>Packing does not panic on a record the protocol writes (\<open>encode_state_ok\<close>).\<close>

definition encode_state :: "durable_state \<Rightarrow> bytes" where
  "encode_state state =
     (let own = (case owner state of None \<Rightarrow> [] | Some p \<Rightarrow> as_str p);
          (secs, nanos) = (case lease_duration state of
              None \<Rightarrow> (0, 0)
            | Some duration \<Rightarrow> (as_secs duration, subsec_nanos duration))
      in the (pack_to_vec pack_tuple
           [\<lambda>d. pack_ux d ELECTION_SCHEMA_VERSION, \<lambda>d. pack_ux d (revision state),
            \<lambda>d. pack_bool d (owner state \<noteq> None), \<lambda>d. pack_str d own,
            \<lambda>d. pack_bool d (lease_duration state \<noteq> None), \<lambda>d. pack_ux d secs,
            \<lambda>d. pack_ux d nanos]))"

definition read_state :: "'s kv \<Rightarrow> 's \<Rightarrow> bytes \<Rightarrow> election_error + durable_state" where
  "read_state kv txn key =
     bind_result (map_err ElectionFdb (kv_get kv txn key)) (\<lambda>found.
       case found of None \<Rightarrow> Inr default_state | Some v \<Rightarrow> decode_state v)"

definition write_state :: "'s kv \<Rightarrow> bytes \<Rightarrow> durable_state \<Rightarrow> 's \<Rightarrow> 's" where
  "write_state kv key state txn = kv_set kv key (encode_state state) txn"

definition next_revision :: "durable_state \<Rightarrow> election_error + u64" where
  "next_revision state = ok_or RevisionExhausted (checked_add (revision state) 1)"

section \<open>Values of the protocol\<close>

datatype poll_input =
    PollUnknown
  | PollObservation participant_id rank duration duration
  | PollLeadership rank duration duration

datatype observation_timer = Reset | Preserve

datatype next_state =
    NextLeadership rank duration
  | NextObservation participant_id rank duration observation_timer

datatype poll_transition = Acquired | Renewed | TookOver | Reacquired | Followed

datatype poll_outcome =
    Leader rank poll_transition
  | Follower participant_id rank duration

record poll_result =
  outcome :: poll_outcome
  next_of :: next_state

datatype decision =
    DecideLeader poll_transition
  | DecideFollow observation_timer string

record election_state =
  es_owner :: "participant_id option"
  es_rank :: rank
  es_lease_duration :: "duration option"

datatype resign_outcome = Resigned | Rejected

fun is_leader :: "poll_outcome \<Rightarrow> bool" where
  "is_leader (Leader _ _) = True"
| "is_leader (Follower _ _ _) = False"

fun outcome_rank :: "poll_outcome \<Rightarrow> rank" where
  "outcome_rank (Leader rank _) = rank"
| "outcome_rank (Follower _ rank _) = rank"

fun transition :: "poll_outcome \<Rightarrow> poll_transition" where
  "transition (Leader _ t) = t"
| "transition (Follower _ _ _) = Followed"

definition is_takeover :: "poll_outcome \<Rightarrow> bool" where
  "is_takeover out \<longleftrightarrow> transition out = TookOver"

definition is_reacquisition :: "poll_outcome \<Rightarrow> bool" where
  "is_reacquisition out \<longleftrightarrow> transition out = Reacquired"

fun outcome_owner :: "poll_outcome \<Rightarrow> participant_id option" where
  "outcome_owner (Leader _ _) = None"
| "outcome_owner (Follower own _ _) = Some own"

fun outcome_lease :: "poll_outcome \<Rightarrow> duration option" where
  "outcome_lease (Leader _ _) = None"
| "outcome_lease (Follower _ _ lease) = Some lease"

definition is_resigned :: "resign_outcome \<Rightarrow> bool" where
  "is_resigned out \<longleftrightarrow> out = Resigned"

section \<open>The poll step\<close>

definition same_record :: "durable_state \<Rightarrow> participant_id \<Rightarrow> rank \<Rightarrow> duration \<Rightarrow> bool" where
  "same_record state own rank lease \<longleftrightarrow>
     owner state = Some own \<and> revision state = as_u64 rank \<and> lease_duration state = Some lease"

definition decide :: "durable_state \<Rightarrow> participant_id \<Rightarrow> poll_input \<Rightarrow> decision" where
  "decide state participant input =
     (if owner state = None then DecideLeader Acquired
      else case input of
        PollLeadership rank lease elapsed \<Rightarrow>
          if same_record state participant rank lease \<and> elapsed < lease
          then DecideLeader Renewed
          else DecideFollow Reset ''leadership_not_renewable''
      | PollObservation own rank lease elapsed \<Rightarrow>
          if same_record state own rank lease
          then if elapsed \<ge> lease
               then DecideLeader (if own = participant then Reacquired else TookOver)
               else DecideFollow Preserve ''observation''
          else DecideFollow Reset ''observation''
      | PollUnknown \<Rightarrow> DecideFollow Reset ''unknown'')"

definition leader_result ::
    "durable_state \<Rightarrow> participant_id \<Rightarrow> duration \<Rightarrow> poll_transition \<Rightarrow>
     election_error + poll_result \<times> durable_state" where
  "leader_result state participant lease t =
     bind_result (next_revision state) (\<lambda>rev.
       Inr (\<lparr>outcome = Leader (Rank rev) t, next_of = NextLeadership (Rank rev) lease\<rparr>,
            \<lparr>revision = rev, owner = Some participant, lease_duration = Some lease\<rparr>))"

definition follower_result ::
    "durable_state \<Rightarrow> observation_timer \<Rightarrow> string \<Rightarrow> election_error + poll_result" where
  "follower_result state timer reason =
     bind_result (ok_or (InvalidElectionState FollowerOfReleased) (owner state)) (\<lambda>own.
     bind_result (ok_or (InvalidElectionState FollowerWithoutLease) (lease_duration state)) (\<lambda>lease.
       Inr \<lparr>outcome = Follower own (Rank (revision state)) lease,
            next_of = NextObservation own (Rank (revision state)) lease timer\<rparr>))"

definition poll_step ::
    "durable_state \<Rightarrow> participant_id \<Rightarrow> duration \<Rightarrow> poll_input \<Rightarrow>
     election_error + poll_result \<times> durable_state option" where
  "poll_step state participant lease input =
     (case decide state participant input of
        DecideLeader t \<Rightarrow>
          bind_result (leader_result state participant lease t) (\<lambda>(result, next_state).
            Inr (result, Some next_state))
      | DecideFollow timer reason \<Rightarrow>
          bind_result (follower_result state timer reason) (\<lambda>result. Inr (result, None)))"

section \<open>Operations on a transaction\<close>

definition poll ::
    "'s kv \<Rightarrow> subspace \<Rightarrow> duration \<Rightarrow> participant_id \<Rightarrow> poll_input \<Rightarrow> 's \<Rightarrow>
     election_error + poll_result \<times> 's" where
  "poll kv s lease participant input txn =
     (let key = election_state_key s
      in bind_result (read_state kv txn key) (\<lambda>state.
         bind_result (poll_step state participant lease input) (\<lambda>(result, next_state).
           Inr (result, case next_state of None \<Rightarrow> txn | Some st \<Rightarrow> write_state kv key st txn))))"

definition state_of :: "'s kv \<Rightarrow> subspace \<Rightarrow> 's \<Rightarrow> election_error + election_state" where
  "state_of kv s txn =
     bind_result (read_state kv txn (election_state_key s)) (\<lambda>state.
       Inr \<lparr>es_owner = owner state, es_rank = Rank (revision state),
            es_lease_duration = lease_duration state\<rparr>)"

definition resign ::
    "'s kv \<Rightarrow> subspace \<Rightarrow> participant_id \<Rightarrow> rank \<Rightarrow> duration \<Rightarrow> 's \<Rightarrow> election_error + resign_outcome \<times> 's" where
  "resign kv s participant rank lease txn =
     (let key = election_state_key s
      in bind_result (read_state kv txn key) (\<lambda>state.
           if \<not> same_record state participant rank lease then Inr (Rejected, txn)
           else Inr (Resigned, write_state kv key (state\<lparr>owner := None\<rparr>) txn)))"

definition election_new :: "subspace \<Rightarrow> duration \<Rightarrow> election_error + subspace \<times> duration" where
  "election_new s lease = (if lease = 0 then Inl InvalidLeaseDuration else Inr (s, lease))"

section \<open>The caller's local state\<close>

record observation =
  obs_owner :: participant_id
  obs_rank :: rank
  obs_lease :: duration
  first_observed_at :: duration

record leadership =
  lead_rank :: rank
  lead_lease :: duration
  last_renewed_at :: duration

datatype local_state =
    LocalUnknown
  | LocalObservation observation
  | LocalLeadership leadership

fun local_input :: "local_state \<Rightarrow> duration \<Rightarrow> poll_input" where
  "local_input LocalUnknown now = PollUnknown"
| "local_input (LocalObservation ob) now =
     PollObservation (obs_owner ob) (obs_rank ob) (obs_lease ob) (now - first_observed_at ob)"
| "local_input (LocalLeadership l) now =
     PollLeadership (lead_rank l) (lead_lease l) (now - last_renewed_at l)"

fun observation_of :: "local_state \<Rightarrow> observation option" where
  "observation_of (LocalObservation ob) = Some ob"
| "observation_of LocalUnknown = None"
| "observation_of (LocalLeadership _) = None"

fun leadership_of :: "local_state \<Rightarrow> leadership option" where
  "leadership_of (LocalLeadership l) = Some l"
| "leadership_of LocalUnknown = None"
| "leadership_of (LocalObservation _) = None"

definition adopt :: "local_state \<Rightarrow> duration \<Rightarrow> duration \<Rightarrow> next_state \<Rightarrow> local_state" where
  "adopt self attempt_started_at adopted_at next_state =
     (case next_state of
        NextLeadership rank lease \<Rightarrow>
          LocalLeadership \<lparr>lead_rank = rank, lead_lease = lease, last_renewed_at = attempt_started_at\<rparr>
      | NextObservation own rank lease timer \<Rightarrow>
          let reset = LocalObservation \<lparr>obs_owner = own, obs_rank = rank, obs_lease = lease,
                first_observed_at = adopted_at\<rparr>
          in (case self of
                LocalObservation ob \<Rightarrow>
                  if timer = Preserve \<and> obs_owner ob = own \<and> obs_rank ob = rank \<and> obs_lease ob = lease
                  then LocalObservation ob else reset
              | _ \<Rightarrow> reset))"

section \<open>The durable record's encoding\<close>

definition wf_participant :: "participant_id \<Rightarrow> bool" where
  "wf_participant p \<longleftrightarrow> participant_new (as_str p) = Inr p \<and> valid_utf8 (as_str p)"

definition wf_lease :: "duration \<Rightarrow> bool" where
  "wf_lease lease \<longleftrightarrow> 0 < lease \<and> wf_duration lease"

definition wf_durable :: "durable_state \<Rightarrow> bool" where
  "wf_durable st \<longleftrightarrow>
     pred_option wf_participant (owner st) \<and> pred_option wf_lease (lease_duration st) \<and>
     (revision st = 0 \<longrightarrow> owner st = None) \<and> (revision st = 0 \<longleftrightarrow> lease_duration st = None)"

lemma wf_default: "wf_durable default_state"
  by (simp add: wf_durable_def default_state_def)

lemma fold_saturating:
  assumes "a \<le> 2 ^ 64 - 1"
  shows "fold (\<lambda>_ size. saturating_add size 1) xs a = min (a + length xs) (2 ^ 64 - 1)"
  using assms by (induction xs arbitrary: a) (auto simp: saturating_add_def)

lemma encoded_participant_size:
  "participant_new v = Inr p \<Longrightarrow> v \<noteq> [] \<and> p = ParticipantId v \<and> length v + count_list v 0 + 2 \<le> MAX_ENCODED_BYTES"
proof -
  assume *: "participant_new v = Inr p"
  have n: "length (filter (\<lambda>byte. byte = 0) v) = count_list v 0" for v :: bytes
    by (induction v) auto
  have le: "saturating_add (length v) 2 \<le> 2 ^ 64 - 1" by (simp add: saturating_add_def)
  from * have "min (min (length v + 2) (2 ^ 64 - 1) + count_list v 0) (2 ^ 64 - 1) \<le> MAX_ENCODED_BYTES"
    "v \<noteq> []" "p = ParticipantId v"
    unfolding participant_new_def Let_def fold_saturating [OF le] n
    by (simp_all add: saturating_add_def split: if_splits)
  then show ?thesis by (auto simp: MAX_ENCODED_BYTES_def min_def split: if_splits)
qed

lemma participant_new_wf:
  assumes "participant_new v = Inr p" and "valid_utf8 v"
  shows "wf_participant p"
  using encoded_participant_size [OF assms(1)] assms by (auto simp: wf_participant_def)

lemma wf_participant_size:
  "wf_participant p \<Longrightarrow> as_str p \<noteq> [] \<and> length (as_str p) + count_list (as_str p) 0 + 2 \<le> MAX_ENCODED_BYTES"
  using encoded_participant_size by (auto simp: wf_participant_def)

lemma duration_parts:
  assumes "wf_duration d"
  shows "duration_new (as_secs d) (subsec_nanos d) = d" and "unat (subsec_nanos d) < 1000000000"
proof -
  have "d div 1000000000 < 2 ^ 64" using assms by (simp add: wf_duration_def less_mult_imp_div_less)
  then have s: "unat (as_secs d) = d div 1000000000" by (simp add: as_secs_def unat_of_nat take_bit_eq_mod)
  have "d mod 1000000000 < 2 ^ 32" by (rule order_less_trans [of _ 1000000000]) simp_all
  then have n: "unat (subsec_nanos d) = d mod 1000000000" by (simp add: subsec_nanos_def unat_of_nat take_bit_eq_mod)
  show "duration_new (as_secs d) (subsec_nanos d) = d" by (simp add: duration_new_def s n)
  show "unat (subsec_nanos d) < 1000000000" by (simp add: n)
qed

definition owner_str :: "durable_state \<Rightarrow> bytes" where
  "owner_str st = (case owner st of None \<Rightarrow> [] | Some p \<Rightarrow> as_str p)"

definition state_fields :: "durable_state \<Rightarrow> u64 \<times> u64 \<times> bool \<times> bytes \<times> bool \<times> u64 \<times> u32" where
  "state_fields st =
     (ELECTION_SCHEMA_VERSION, revision st, owner st \<noteq> None, owner_str st, lease_duration st \<noteq> None,
      case lease_duration st of None \<Rightarrow> 0 | Some d \<Rightarrow> as_secs d,
      case lease_duration st of None \<Rightarrow> 0 | Some d \<Rightarrow> subsec_nanos d)"

definition state_items :: "durable_state \<Rightarrow> (depth \<Rightarrow> packed) list" where
  "state_items st = (case state_fields st of (v, r, own, str, has_lease, secs, nanos) \<Rightarrow>
     [\<lambda>d. pack_ux d v, \<lambda>d. pack_ux d r, \<lambda>d. pack_bool d own, \<lambda>d. pack_str d str,
      \<lambda>d. pack_bool d has_lease, \<lambda>d. pack_ux d secs, \<lambda>d. pack_ux d nanos])"

lemma encode_state_items: "encode_state st = the (pack_to_vec pack_tuple (state_items st))"
  by (cases "lease_duration st")
    (simp_all add: encode_state_def state_items_def state_fields_def owner_str_def)

lemma owner_str_ok:
  assumes "wf_durable st"
  shows "valid_utf8 (owner_str st)" and "length (owner_str st) + count_list (owner_str st) 0 \<le> 94998"
  using assms wf_participant_size [of "the (owner st)"]
  by (auto simp: wf_durable_def owner_str_def wf_participant_def MAX_ENCODED_BYTES_def split: option.splits)

lemma pack_u32_eval:
  "pack_ux d (u :: u32) = Inr (int_enc (uint u), VNone (of_nat (length (int_enc (uint u)))))"
  by (simp add: pack_ux_eq byte_sized_def)

lemma length_pack_state:
  assumes "wf_durable st"
  shows "\<exists>off. pack_tuple 0 (state_items st) = Inr (encode_state st, off)"
    and "length (encode_state st) \<le> 95100"
proof -
  obtain v r own strng has_lease secs nanos where
    f: "state_fields st = (v, r, own, strng, has_lease, secs, nanos)" "strng = owner_str st"
    by (cases "state_fields st") (auto simp: state_fields_def)
  have len: "length strng + count_list strng 0 \<le> 94998" using owner_str_ok [OF assms] f(2) by simp
  then have "length strng < 2 ^ 32" by simp
  then obtain bs off where p: "pack_tuple 0 (state_items st) = Inr (bs, off)"
    and bs: "bs = int_enc (uint v) @ int_enc (uint r) @ [if own then TRUE else FALSE] @
        STRING # escape strng @ NIL # [if has_lease then TRUE else FALSE] @ int_enc (uint secs) @
        int_enc (uint nanos)"
    by (simp add: pack_tuple_def state_items_def f(1) pack_int_eval pack_u32_eval pack_str_eq pack_bool_def)
  then have enc: "encode_state st = bs"
    by (simp add: encode_state_items pack_to_vec_def pack_into_vec_def)
  with p show "\<exists>off. pack_tuple 0 (state_items st) = Inr (encode_state st, off)" by simp
  have u64: "length (int_enc (uint (w :: u64))) \<le> 10" for w
    using int_len_le_size [of 64 "uint w"] unsigned_less [of w, where ?'a = int]
    by (simp add: int_enc_def int_head_def Let_def)
  have u32: "length (int_enc (uint (w :: u32))) \<le> 10" for w
    using int_len_le_size [of 32 "uint w"] unsigned_less [of w, where ?'a = int]
    by (simp add: int_enc_def int_head_def Let_def)
  show "length (encode_state st) \<le> 95100"
    using len u64 [of v] u64 [of r] u64 [of secs] u32 [of nanos]
    by (simp add: enc bs length_escape NIL_def)
qed

text \<open>\<open>decode_state\<close> reads back what \<open>encode_state\<close> wrote.\<close>

lemma decode_fields_encode:
  assumes "wf_durable st" and "unpack_root unpack_state_tuple v = Inr (state_fields st)"
  shows "decode_state v = Inr st"
proof -
  have own: "\<And>p. owner st = Some p \<Longrightarrow> participant_new (as_str p) = Inr p"
    using assms(1) by (auto simp: wf_durable_def wf_participant_def)
  have lease: "\<And>d. lease_duration st = Some d \<Longrightarrow> 0 < d \<and> duration_new (as_secs d) (subsec_nanos d) = d
      \<and> \<not> 1000000000 \<le> subsec_nanos d"
    using assms(1) duration_parts by (fastforce simp: wf_durable_def wf_lease_def word_le_nat_alt not_le)
  show ?thesis
    using assms(1) own lease
    unfolding decode_state_def assms(2) state_fields_def
    by (cases "owner st"; cases "lease_duration st"; cases st)
      (auto simp: wf_durable_def owner_str_def word_neq_0_conv Let_def)
qed

lemma decode_encode_state:
  assumes "wf_durable st"
  shows "decode_state (encode_state st) = Inr st"
proof (rule decode_fields_encode [OF assms])
  obtain v r own strng has_lease secs nanos where
    f: "state_fields st = (v, r, own, strng, has_lease, secs, nanos)" "strng = owner_str st"
    by (cases "state_fields st") (auto simp: state_fields_def)
  have utf: "valid_utf8 strng" using owner_str_ok [OF assms] f(2) by simp
  note seq = u32.plain.seq_last [where x = nanos and d = 0, OF TrueI]
  note seq = u64.plain.seq_cons [where x = secs and others = "field_last unpack_ux", OF TrueI seq]
  note seq = bool_codec.plain.seq_cons [where x = has_lease and others = "field_cons unpack_ux (field_last unpack_ux)", OF TrueI seq]
  note seq = str.plain.seq_cons [where x = strng and others = "field_cons unpack_bool (field_cons unpack_ux (field_last unpack_ux))", OF utf seq]
  note seq = bool_codec.plain.seq_cons [where x = own and others = "field_cons unpack_str (field_cons unpack_bool (field_cons unpack_ux (field_last unpack_ux)))",
      OF TrueI seq]
  note seq = u64.plain.seq_cons [where x = r and
      others = "field_cons unpack_bool (field_cons unpack_str (field_cons unpack_bool (field_cons unpack_ux (field_last unpack_ux))))", OF TrueI seq]
  note seq = u64.plain.seq_cons [where x = v and
      others = "field_cons unpack_ux (field_cons unpack_bool (field_cons unpack_str (field_cons unpack_bool (field_cons unpack_ux (field_last unpack_ux)))))",
      OF TrueI seq]
  from length_pack_state(1) [OF assms] obtain off where
    p: "pack_tuple 0 (state_items st) = Inr (encode_state st, off)" by blast
  from tuple_read [where d = 0 and rest = "[]", OF _ p, of _ "state_fields st"] seq
  show "unpack_root unpack_state_tuple (encode_state st) = Inr (state_fields st)"
    by (simp add: unpack_root_def unpack_state_tuple_def state_items_def f(1))
qed

lemma unpack_str_utf8: "unpack_str d input = Inr (rest, s) \<Longrightarrow> valid_utf8 s"
  by (auto simp: unpack_str_def parse_string_def bind_result_eq_Inr split: if_splits)

text \<open>Whatever bytes \<open>decode_state\<close> accepts, the record is well formed.\<close>

lemma decode_state_wf:
  assumes "decode_state v = Inr st"
  shows "wf_durable st"
proof -
  from assms obtain version r has_owner own has_lease secs nanos where
    u: "unpack_root unpack_state_tuple v = Inr (version, r, has_owner, own, has_lease, secs, nanos)"
    by (auto simp: decode_state_def bind_result_eq_Inr)
  from assms obtain o' where
    o: "(if has_owner then bind_result (participant_new own) (\<lambda>p. Inr (Some p))
          else if own = [] then Inr None else Inl (InvalidElectionState ReleasedWithOwner)) = Inr o'"
    and st: "st = \<lparr>revision = r, owner = o', lease_duration = if has_lease then Some (duration_new secs nanos) else None\<rparr>"
    and ok: "has_lease \<longrightarrow> nanos < 1000000000 \<and> duration_new secs nanos \<noteq> 0"
      "r = 0 \<longleftrightarrow> \<not> has_lease" "r = 0 \<longrightarrow> o' = None"
    unfolding decode_state_def u
    by (auto simp: bind_result_eq_Inr Let_def word_gt_0 not_le simp del: word_neq_0_conv split: if_splits)
  from u have "valid_utf8 own"
    by (auto simp: unpack_root_def unpack_state_tuple_def unpack_tuple_def field_cons_def bind_result_eq_Inr
        dest: unpack_str_utf8 split: if_splits)
  with o have "pred_option wf_participant o'"
    by (auto simp: bind_result_eq_Inr participant_new_wf split: if_splits)
  moreover have "wf_duration (duration_new secs nanos)" if "nanos < 1000000000"
  proof -
    have "unat nanos < 1000000000" using that by (simp add: word_less_nat_alt)
    moreover have "unat secs < 2 ^ 64" using unsigned_less [of secs] by simp
    ultimately show ?thesis by (simp add: wf_duration_def duration_new_def)
  qed
  ultimately show ?thesis using ok by (auto simp: wf_durable_def wf_lease_def st)
qed

section \<open>The record on a store\<close>

definition election_holds :: "subspace \<Rightarrow> (bytes \<rightharpoonup> bytes) \<Rightarrow> durable_state \<Rightarrow> bool" where
  "election_holds s m st \<longleftrightarrow>
     (case m (election_state_key s) of None \<Rightarrow> st = default_state | Some v \<Rightarrow> decode_state v = Inr st)"

definition advance :: "durable_state \<Rightarrow> durable_state option \<Rightarrow> durable_state" where
  "advance st next_state = (case next_state of None \<Rightarrow> st | Some st' \<Rightarrow> st')"

definition elsewhere_same :: "subspace \<Rightarrow> (bytes \<rightharpoonup> bytes) \<Rightarrow> (bytes \<rightharpoonup> bytes) \<Rightarrow> bool" where
  "elsewhere_same s m m' \<longleftrightarrow> (\<forall>k. k \<noteq> election_state_key s \<longrightarrow> m' k = m k)"

lemma election_holds_wf: "election_holds s m st \<Longrightarrow> wf_durable st"
  by (auto simp: election_holds_def wf_default decode_state_wf split: option.splits)

lemma next_revision_Inl: "next_revision st = Inl e \<Longrightarrow> e = RevisionExhausted \<and> unat (revision st) = 18446744073709551615"
  using unsigned_less [of "revision st", where ?'a = nat]
  by (auto simp: next_revision_def checked_add_def split: if_splits)

lemma next_revision_Inr: "next_revision st = Inr r \<Longrightarrow> unat r = unat (revision st) + 1"
  by (auto simp: next_revision_def checked_add_def unat_word_ariths split: if_splits)

lemma poll_step_wf:
  assumes "wf_durable st" and "wf_participant p" and "wf_lease lease"
    and "poll_step st p lease input = Inr (result, next_state)"
  shows "wf_durable (advance st next_state)"
  using assms
  by (auto simp: poll_step_def leader_result_def bind_result_eq_Inr wf_durable_def advance_def
      dest: next_revision_Inr split: decision.splits if_splits)

context kv_store begin

lemma read_state_holds:
  assumes "election_holds s (view t) st" and "read_state kv t (election_state_key s) = Inr found"
  shows "found = st"
  using assms get_ok
  by (fastforce simp: read_state_def election_holds_def bind_result_eq_Inr split: option.splits)

lemma read_state_error:
  assumes "election_holds s (view t) st" and "read_state kv t (election_state_key s) = Inl e"
  shows "\<exists>fe. kv_get kv t (election_state_key s) = Inl fe \<and> e = ElectionFdb fe"
proof (cases "kv_get kv t (election_state_key s)")
  case (Inl fe)
  with assms(2) show ?thesis by (simp add: read_state_def)
next
  case (Inr found)
  with assms get_ok [OF Inr] show ?thesis
    by (auto simp: read_state_def election_holds_def split: option.splits)
qed

lemma write_state_holds:
  assumes "wf_durable st"
  shows "election_holds s (view (write_state kv (election_state_key s) st t)) st"
    and "elsewhere_same s (view t) (view (write_state kv (election_state_key s) st t))"
  using decode_encode_state [OF assms]
  by (simp_all add: election_holds_def elsewhere_same_def write_state_def view_set)

lemma poll_refines:
  assumes "election_holds s (view t) st" and "wf_participant p" and "wf_lease lease"
    and "poll kv s lease p input t = Inr (result, t')"
  shows "\<exists>next_state. poll_step st p lease input = Inr (result, next_state) \<and>
    election_holds s (view t') (advance st next_state) \<and> elsewhere_same s (view t) (view t') \<and>
    (next_state = None \<longrightarrow> t' = t)"
proof -
  from assms(4) obtain found next_state where
    r: "read_state kv t (election_state_key s) = Inr found"
    "poll_step found p lease input = Inr (result, next_state)"
    "t' = (case next_state of None \<Rightarrow> t | Some st \<Rightarrow> write_state kv (election_state_key s) st t)"
    by (auto simp: poll_def bind_result_eq_Inr Let_def)
  with read_state_holds [OF assms(1) r(1)] have r2: "poll_step st p lease input = Inr (result, next_state)" by simp
  have "wf_durable (advance st next_state)"
    by (rule poll_step_wf [OF election_holds_wf [OF assms(1)] assms(2,3) r2])
  with write_state_holds assms(1) r(3) r2 show ?thesis
    by (cases next_state) (auto simp: advance_def elsewhere_same_def)
qed

lemma poll_errors:
  assumes "election_holds s (view t) st" and "poll kv s lease p input t = Inl e"
  shows "(\<exists>fe. kv_get kv t (election_state_key s) = Inl fe \<and> e = ElectionFdb fe) \<or>
    e = RevisionExhausted \<and> unat (revision st) = 2 ^ 64 - 1"
proof -
  have *: "poll_step st p lease input = Inl e \<Longrightarrow> e = RevisionExhausted \<and> unat (revision st) = 2 ^ 64 - 1"
    using election_holds_wf [OF assms(1)]
    by (auto simp: poll_step_def leader_result_def follower_result_def decide_def wf_durable_def
        bind_result_eq_Inl ok_or_def dest: next_revision_Inl
        split: decision.splits if_splits option.splits poll_input.splits)
  from assms(2) show ?thesis
    using read_state_error [OF assms(1)] read_state_holds [OF assms(1)] *
    by (auto simp: poll_def bind_result_eq_Inl Let_def)
qed

lemma resign_refines:
  assumes "election_holds s (view t) st" and "resign kv s p r lease t = Inr (out, t')"
  shows "(out = Resigned \<longleftrightarrow> same_record st p r lease) \<and>
    election_holds s (view t') (if out = Resigned then st\<lparr>owner := None\<rparr> else st) \<and>
    elsewhere_same s (view t) (view t') \<and> (out = Rejected \<longrightarrow> t' = t)"
proof -
  from assms(2) obtain found where r: "read_state kv t (election_state_key s) = Inr found"
    "(if \<not> same_record found p r lease then Inr (Rejected, t)
      else Inr (Resigned, write_state kv (election_state_key s) (found\<lparr>owner := None\<rparr>) t))
      = (Inr (out, t') :: election_error + resign_outcome \<times> 's)"
    by (auto simp: resign_def bind_result_eq_Inr Let_def)
  have "wf_durable (st\<lparr>owner := None\<rparr>)" using election_holds_wf [OF assms(1)] by (simp add: wf_durable_def)
  with r read_state_holds [OF assms(1) r(1)] write_state_holds assms(1) show ?thesis
    by (auto simp: elsewhere_same_def split: if_splits)
qed

lemma state_of_refines:
  assumes "election_holds s (view t) st" and "state_of kv s t = Inr es"
  shows "es = \<lparr>es_owner = owner st, es_rank = Rank (revision st), es_lease_duration = lease_duration st\<rparr>"
  using assms read_state_holds by (auto simp: state_of_def bind_result_eq_Inr)

end

end
