(* ===== verification/Leader_Lease.thy ===== *)
theory Leader_Lease
  imports Leader_Election
begin

text \<open>
  Leases in time: participants with their own clocks, which run at one rate and differ by a
  constant skew, poll as the recipe's guide (\<^verbatim>\<open>leader_election/mod.rs\<close>) asks: the clock is read
  before the run, the run may execute the closure any number of times and at any later time, and
  only a successful run is adopted.  A resignation is asked for and runs later; its holder may keep
  the token meanwhile.  The steps call \<open>poll\<close>, \<open>resign\<close>, \<open>local_input\<close> and \<open>adopt\<close>.
\<close>

section \<open>The system\<close>

datatype poll_phase =
    Idle
  | Waiting duration poll_input
  | Answered duration poll_result

record 's world =
  store :: 's
  time :: duration
  local_of :: "participant_id \<Rightarrow> local_state"
  phase_of :: "participant_id \<Rightarrow> poll_phase"
  sent_polls :: "(participant_id \<times> duration \<times> poll_input) set"
  sent_resigns :: "(participant_id \<times> rank \<times> duration) set"

text \<open>The participants: the handle's subspace, and each one's clock skew and lease duration.\<close>

record cluster =
  election :: subspace
  skew :: "participant_id \<Rightarrow> duration"
  lease_of :: "participant_id \<Rightarrow> duration"

definition clock :: "cluster \<Rightarrow> 's world \<Rightarrow> participant_id \<Rightarrow> duration" where
  "clock c w p = time w + skew c p"

definition set_local :: "participant_id \<Rightarrow> local_state \<Rightarrow> 's world \<Rightarrow> 's world" where
  "set_local p l w = w\<lparr>local_of := (local_of w)(p := l), phase_of := (phase_of w)(p := Idle)\<rparr>"

inductive lease_step :: "'s kv \<Rightarrow> ('s \<Rightarrow> bytes \<rightharpoonup> bytes) \<Rightarrow> cluster \<Rightarrow> 's world \<Rightarrow> 's world \<Rightarrow> bool"
  for kv view c where
  Tick: "lease_step kv view c w (w\<lparr>time := time w + d\<rparr>)"
| Begin: "phase_of w p = Idle \<Longrightarrow> wf_participant p \<Longrightarrow> wf_lease (lease_of c p) \<Longrightarrow>
    input = local_input (local_of w p) (clock c w p) \<Longrightarrow>
    lease_step kv view c w (w\<lparr>phase_of := (phase_of w)(p := Waiting (clock c w p) input),
      sent_polls := insert (p, clock c w p, input) (sent_polls w)\<rparr>)"
| Run: "(p, started, input) \<in> sent_polls w \<Longrightarrow>
    poll kv (election c) (lease_of c p) p input (store w) = Inr (result, t) \<Longrightarrow>
    lease_step kv view c w (w\<lparr>store := t\<rparr>)"
| Answer: "phase_of w p = Waiting started input \<Longrightarrow>
    poll kv (election c) (lease_of c p) p input (store w) = Inr (result, t) \<Longrightarrow>
    lease_step kv view c w (w\<lparr>store := t, phase_of := (phase_of w)(p := Answered started result)\<rparr>)"
| Adopt: "phase_of w p = Answered started result \<Longrightarrow>
    lease_step kv view c w
      (set_local p (adopt (local_of w p) started (clock c w p) (next_of result)) w)"
| Abandon: "lease_step kv view c w (w\<lparr>phase_of := (phase_of w)(p := Idle)\<rparr>)"
| Forget: "lease_step kv view c w (set_local p LocalUnknown w)"
| Ask_resign: "phase_of w p = Idle \<Longrightarrow> local_of w p = LocalLeadership l \<Longrightarrow>
    lease_step kv view c w (w\<lparr>sent_resigns := insert (p, lead_rank l, lead_lease l) (sent_resigns w)\<rparr>)"
| Resign: "(p, r, lease) \<in> sent_resigns w \<Longrightarrow>
    resign kv (election c) p r lease (store w) = Inr (out, t) \<Longrightarrow>
    lease_step kv view c w (w\<lparr>store := t\<rparr>)"
| Elsewhere: "view t (election_state_key (election c)) = view (store w) (election_state_key (election c)) \<Longrightarrow>
    lease_step kv view c w (w\<lparr>store := t\<rparr>)"

inductive lease_run :: "'s kv \<Rightarrow> ('s \<Rightarrow> bytes \<rightharpoonup> bytes) \<Rightarrow> cluster \<Rightarrow> 's world \<Rightarrow> 's world \<Rightarrow> bool"
  for kv view c w where
  Start: "lease_run kv view c w w"
| Next: "lease_run kv view c w w' \<Longrightarrow> lease_step kv view c w' w'' \<Longrightarrow> lease_run kv view c w w''"

definition initial :: "('s \<Rightarrow> bytes \<rightharpoonup> bytes) \<Rightarrow> cluster \<Rightarrow> 's world \<Rightarrow> bool" where
  "initial view c w \<longleftrightarrow>
     view (store w) (election_state_key (election c)) = None \<and> sent_polls w = {} \<and> sent_resigns w = {} \<and>
     (\<forall>p. local_of w p = LocalUnknown \<and> phase_of w p = Idle)"

text \<open>
  A participant holds a token until it has run out on its own clock, and leads with it until it
  asks to resign it: \<^verbatim>\<open>resign\<close> runs in its own transaction, and a participant may keep its token
  until that call returns, as the workload does, or drop it before (\<open>Forget\<close>).
\<close>

definition holds_token :: "cluster \<Rightarrow> 's world \<Rightarrow> participant_id \<Rightarrow> leadership \<Rightarrow> bool" where
  "holds_token c w p l \<longleftrightarrow> local_of w p = LocalLeadership l \<and> clock c w p - last_renewed_at l < lead_lease l"

definition leads :: "cluster \<Rightarrow> 's world \<Rightarrow> participant_id \<Rightarrow> bool" where
  "leads c w p \<longleftrightarrow> (\<exists>l. holds_token c w p l \<and> (p, lead_rank l, lead_lease l) \<notin> sent_resigns w)"

section \<open>The invariant\<close>

text \<open>Tokens: what a participant holds, and what it may still adopt.\<close>

definition token :: "'s world \<Rightarrow> participant_id \<Rightarrow> rank \<Rightarrow> duration \<Rightarrow> duration \<Rightarrow> bool" where
  "token w p r lease anchor \<longleftrightarrow>
     local_of w p = LocalLeadership \<lparr>lead_rank = r, lead_lease = lease, last_renewed_at = anchor\<rparr> \<or>
     (\<exists>result. phase_of w p = Answered anchor result \<and> next_of result = NextLeadership r lease)"

text \<open>The record \<open>st\<close> was written at the time \<open>at\<close>.\<close>

definition tokens_ok :: "cluster \<Rightarrow> durable_state \<Rightarrow> duration \<Rightarrow> 's world \<Rightarrow> bool" where
  "tokens_ok c st at w \<longleftrightarrow> (\<forall>p r lease anchor. token w p r lease anchor \<longrightarrow>
     as_u64 r \<le> revision st \<and> lease = lease_of c p \<and> anchor \<le> at + skew c p \<and>
     (clock c w p < anchor + lease \<longrightarrow> (p, r, lease) \<notin> sent_resigns w \<longrightarrow> owner st = Some p))"

definition observations_ok :: "cluster \<Rightarrow> durable_state \<Rightarrow> duration \<Rightarrow> 's world \<Rightarrow> bool" where
  "observations_ok c st at w \<longleftrightarrow>
     (\<forall>p ob. local_of w p = LocalObservation ob \<longrightarrow> as_u64 (obs_rank ob) \<le> revision st \<and>
        (same_record st (obs_owner ob) (obs_rank ob) (obs_lease ob) \<longrightarrow> at + skew c p \<le> first_observed_at ob)) \<and>
     (\<forall>p started result own r lease timer. phase_of w p = Answered started result \<longrightarrow>
        next_of result = NextObservation own r lease timer \<longrightarrow> as_u64 r \<le> revision st)"

definition polls_ok :: "cluster \<Rightarrow> durable_state \<Rightarrow> duration \<Rightarrow> 's world \<Rightarrow> bool" where
  "polls_ok c st at w \<longleftrightarrow>
     (\<forall>p started input. phase_of w p = Waiting started input \<longrightarrow> (p, started, input) \<in> sent_polls w) \<and>
     (\<forall>p started input. (p, started, input) \<in> sent_polls w \<longrightarrow>
        wf_participant p \<and> wf_lease (lease_of c p) \<and> started \<le> clock c w p \<and>
        (\<forall>own r lease elapsed. input = PollObservation own r lease elapsed \<longrightarrow>
           as_u64 r \<le> revision st \<and> (same_record st own r lease \<longrightarrow> at + elapsed \<le> time w)))"

definition resigns_ok :: "durable_state \<Rightarrow> 's world \<Rightarrow> bool" where
  "resigns_ok st w \<longleftrightarrow> (\<forall>p r lease. (p, r, lease) \<in> sent_resigns w \<longrightarrow>
     as_u64 r \<le> revision st \<and> (\<forall>r' lease' anchor. token w p r' lease' anchor \<longrightarrow> as_u64 r \<le> as_u64 r'))"

definition lease_inv :: "('s \<Rightarrow> bytes \<rightharpoonup> bytes) \<Rightarrow> cluster \<Rightarrow> durable_state \<Rightarrow> duration \<Rightarrow> 's world \<Rightarrow> bool" where
  "lease_inv view c st at w \<longleftrightarrow>
     election_holds (election c) (view (store w)) st \<and> at \<le> time w \<and>
     (\<forall>own. owner st = Some own \<longrightarrow> lease_duration st = Some (lease_of c own)) \<and>
     tokens_ok c st at w \<and> observations_ok c st at w \<and> polls_ok c st at w \<and> resigns_ok st w"

lemmas lease_inv_defs = lease_inv_def tokens_ok_def observations_ok_def polls_ok_def resigns_ok_def
  token_def clock_def set_local_def

text \<open>What a successful poll step decided.\<close>

definition may_lead :: "durable_state \<Rightarrow> participant_id \<Rightarrow> poll_input \<Rightarrow> bool" where
  "may_lead st p input \<longleftrightarrow> owner st = None \<or> owner st = Some p \<or>
     (\<exists>own r lease elapsed. input = PollObservation own r lease elapsed \<and>
        same_record st own r lease \<and> lease \<le> elapsed)"

lemma decide_leader: "decide st p input = DecideLeader t \<Longrightarrow> may_lead st p input"
  by (auto simp: decide_def may_lead_def same_record_def split: if_splits poll_input.splits)

lemma poll_step_result:
  assumes "poll_step st p lease input = Inr (result, next_state)"
  obtains (leader) r t where "unat r = unat (revision st) + 1" "may_lead st p input"
      "next_state = Some \<lparr>revision = r, owner = Some p, lease_duration = Some lease\<rparr>"
      "outcome result = Leader (Rank r) t" "next_of result = NextLeadership (Rank r) lease"
    | (follower) own l timer where "next_state = None" "owner st = Some own" "lease_duration st = Some l"
      "outcome result = Follower own (Rank (revision st)) l"
      "next_of result = NextObservation own (Rank (revision st)) l timer"
  using assms that next_revision_Inr
  by (auto simp: poll_step_def leader_result_def follower_result_def bind_result_eq_Inr
      split: decision.splits dest!: decide_leader)

lemma inv_token:
  assumes "lease_inv view c st at w" and "token w p r lease anchor"
  shows "as_u64 r \<le> revision st" "lease = lease_of c p" "anchor \<le> at + skew c p" "anchor \<le> time w + skew c p"
    "clock c w p < anchor + lease \<Longrightarrow> (p, r, lease) \<notin> sent_resigns w \<Longrightarrow> owner st = Some p"
proof -
  show *: "as_u64 r \<le> revision st" "lease = lease_of c p" "anchor \<le> at + skew c p"
    "clock c w p < anchor + lease \<Longrightarrow> (p, r, lease) \<notin> sent_resigns w \<Longrightarrow> owner st = Some p"
    using assms by (auto simp: lease_inv_def tokens_ok_def)
  show "anchor \<le> time w + skew c p" using * assms(1) by (simp add: lease_inv_def)
qed

lemma inv_poll:
  assumes "lease_inv view c st at w" and "(p, started, input) \<in> sent_polls w"
  shows "wf_participant p" "wf_lease (lease_of c p)" "started \<le> clock c w p"
    "input = PollObservation own r lease elapsed \<Longrightarrow> as_u64 r \<le> revision st"
    "input = PollObservation own r lease elapsed \<Longrightarrow> same_record st own r lease \<Longrightarrow> at + elapsed \<le> time w"
  using assms unfolding lease_inv_def polls_ok_def by blast+

lemma inv_waiting:
  "lease_inv view c st at w \<Longrightarrow> phase_of w p = Waiting started input \<Longrightarrow> (p, started, input) \<in> sent_polls w"
  by (simp add: lease_inv_def polls_ok_def)

lemma inv_resign:
  assumes "lease_inv view c st at w" and "(p, r, lease) \<in> sent_resigns w"
  shows "as_u64 r \<le> revision st" "token w p r' lease' anchor \<Longrightarrow> as_u64 r \<le> as_u64 r'"
  using assms unfolding lease_inv_def resigns_ok_def by blast+

definition answer_ok :: "cluster \<Rightarrow> durable_state \<Rightarrow> duration \<Rightarrow> 's world \<Rightarrow> participant_id \<Rightarrow> next_state \<Rightarrow> bool" where
  "answer_ok c st at w p next_state =
     (case next_state of
        NextLeadership r lease \<Rightarrow> as_u64 r = revision st \<and> lease = lease_of c p \<and> owner st = Some p \<and>
          at = time w \<and> (\<forall>q r' lease'. (q, r', lease') \<in> sent_resigns w \<longrightarrow> as_u64 r' < revision st)
      | NextObservation own r lease timer \<Rightarrow> as_u64 r \<le> revision st)"

lemma new_record_inv:
  assumes inv: "lease_inv view c st at w" and sent: "(p, started, input) \<in> sent_polls w"
    and r: "unat r = unat (revision st) + 1" and lead: "may_lead st p input"
    and st': "st' = \<lparr>revision = r, owner = Some p, lease_duration = Some (lease_of c p)\<rparr>"
    and holds: "election_holds (election c) (view t) st'"
  shows "lease_inv view c st' (time w) (w\<lparr>store := t\<rparr>)"
proof -
  have less: "revision st < r" using r by (simp add: word_less_nat_alt)
  have owner: "q = p" if "owner st = Some q" "token w q r' lease anchor" "time w + skew c q < anchor + lease" for q r' lease anchor
  proof (rule ccontr)
    assume "q \<noteq> p"
    with lead that(1) obtain r'' l elapsed where i: "input = PollObservation q r'' l elapsed" "l \<le> elapsed"
      "same_record st q r'' l" by (auto simp: may_lead_def same_record_def)
    with inv sent have "at + elapsed \<le> time w" by (auto simp: lease_inv_def polls_ok_def)
    moreover have "l = lease_of c q" using i inv by (auto simp: same_record_def lease_inv_def)
    moreover have "anchor \<le> at + skew c q" "lease = lease_of c q"
      using inv that(2) by (auto simp: lease_inv_def tokens_ok_def)
    ultimately show False using that(3) i(2) by simp
  qed
  have "tokens_ok c st' (time w) (w\<lparr>store := t\<rparr>)"
    unfolding tokens_ok_def
  proof (intro allI impI)
    fix q r' lease anchor
    assume "token (w\<lparr>store := t\<rparr>) q r' lease anchor"
    then have q: "token w q r' lease anchor" by (simp add: token_def)
    with inv_token [OF inv q] less owner q show "as_u64 r' \<le> revision st' \<and> lease = lease_of c q \<and> anchor \<le> time w + skew c q \<and>
        (clock c (w\<lparr>store := t\<rparr>) q < anchor + lease \<longrightarrow> (q, r', lease) \<notin> sent_resigns (w\<lparr>store := t\<rparr>) \<longrightarrow> owner st' = Some q)"
      by (simp add: st' clock_def)
  qed
  moreover have "observations_ok c st' (time w) (w\<lparr>store := t\<rparr>)"
    using inv less by (fastforce simp: lease_inv_def observations_ok_def same_record_def st')
  moreover have "polls_ok c st' (time w) (w\<lparr>store := t\<rparr>)"
    using inv less by (fastforce simp: lease_inv_def polls_ok_def same_record_def st' clock_def)
  moreover have "resigns_ok st' (w\<lparr>store := t\<rparr>)"
    using inv less by (fastforce simp: lease_inv_def resigns_ok_def st' token_def)
  ultimately show ?thesis using holds by (simp add: lease_inv_def st')
qed

lemma same_record_inv:
  assumes "lease_inv view c st at w" and "election_holds (election c) (view t) st"
  shows "lease_inv view c st at (w\<lparr>store := t\<rparr>)"
  using assms by (simp add: lease_inv_defs)

lemma answer_inv:
  assumes "lease_inv view c st at w" and "phase_of w p = Waiting started input"
    and "answer_ok c st at w p (next_of result)"
  shows "lease_inv view c st at (w\<lparr>phase_of := (phase_of w)(p := Answered started result)\<rparr>)"
proof -
  let ?w = "w\<lparr>phase_of := (phase_of w)(p := Answered started result)\<rparr>"
  note sent = inv_poll(3) [OF assms(1) inv_waiting [OF assms(1,2)]]
  have same: "clock c ?w q = clock c w q" "sent_resigns ?w = sent_resigns w" for q
    by (simp_all add: clock_def)
  have tok: "token w q r lease anchor \<or> q = p \<and> anchor = started \<and> next_of result = NextLeadership r lease"
    if "token ?w q r lease anchor" for q r lease anchor
    using that by (auto simp: token_def split: if_splits)
  have own: "as_u64 r = revision st \<and> lease = lease_of c p \<and> owner st = Some p \<and> started \<le> at + skew c p \<and>
      (\<forall>q r' lease'. (q, r', lease') \<in> sent_resigns w \<longrightarrow> as_u64 r' < revision st)"
    if "next_of result = NextLeadership r lease" for r lease
    using assms(3) sent that by (simp add: answer_ok_def clock_def)
  have "tokens_ok c st at ?w"
    unfolding tokens_ok_def same
    using inv_token [OF assms(1)] tok own order_refl by metis
  moreover have "resigns_ok st ?w"
    unfolding resigns_ok_def same
    using inv_resign [OF assms(1)] tok own by metis
  moreover have "observations_ok c st at ?w"
    using assms(1,3) unfolding lease_inv_def observations_ok_def
    by (simp add: answer_ok_def split: next_state.splits)
  ultimately show ?thesis using assms(1) by (simp add: lease_inv_def polls_ok_def clock_def)
qed

lemma local_inv:
  assumes inv: "lease_inv view c st at w"
    and l: "l = LocalUnknown \<or> l = local_of w p \<or>
      (\<exists>r lease anchor. token w p r lease anchor \<and>
         l = LocalLeadership \<lparr>lead_rank = r, lead_lease = lease, last_renewed_at = anchor\<rparr>) \<or>
      (\<exists>own r lease. as_u64 r \<le> revision st \<and> l = LocalObservation \<lparr>obs_owner = own, obs_rank = r,
         obs_lease = lease, first_observed_at = clock c w p\<rparr>)"
  shows "lease_inv view c st at (set_local p l w)"
proof -
  have tok: "token w q r lease anchor" if "token (set_local p l w) q r lease anchor" for q r lease anchor
    using that l by (auto simp: token_def set_local_def split: if_splits)
  have same: "clock c (set_local p l w) q = clock c w q" "sent_resigns (set_local p l w) = sent_resigns w" for q
    by (simp_all add: clock_def set_local_def)
  have "tokens_ok c st at (set_local p l w)"
    unfolding tokens_ok_def same using inv_token [OF inv] tok by metis
  moreover have "resigns_ok st (set_local p l w)"
    unfolding resigns_ok_def same using inv_resign [OF inv] tok by metis
  moreover have "observations_ok c st at (set_local p l w)"
    unfolding observations_ok_def
  proof (intro conjI allI impI)
    fix q ob
    assume "local_of (set_local p l w) q = LocalObservation ob"
    with l have "local_of w q = LocalObservation ob \<or>
        q = p \<and> as_u64 (obs_rank ob) \<le> revision st \<and> first_observed_at ob = clock c w p"
      by (auto simp: set_local_def split: if_splits)
    moreover have "at + skew c p \<le> clock c w p" using inv by (simp add: lease_inv_def clock_def)
    ultimately show "as_u64 (obs_rank ob) \<le> revision st"
      "same_record st (obs_owner ob) (obs_rank ob) (obs_lease ob) \<Longrightarrow> at + skew c q \<le> first_observed_at ob"
      using inv unfolding lease_inv_def observations_ok_def by auto
  next
    fix q started result own r lease timer
    assume "phase_of (set_local p l w) q = Answered started result"
    then have "phase_of w q = Answered started result" by (simp add: set_local_def split: if_splits)
    moreover assume "next_of result = NextObservation own r lease timer"
    ultimately show "as_u64 r \<le> revision st"
      using inv unfolding lease_inv_def observations_ok_def by blast
  qed
  moreover have "polls_ok c st at (set_local p l w)"
    using inv unfolding lease_inv_def polls_ok_def by (simp add: set_local_def clock_def)
  ultimately show ?thesis using inv unfolding lease_inv_def by (simp add: set_local_def)
qed

section \<open>Every step keeps the invariant\<close>

lemma inv_observation:
  assumes "lease_inv view c st at w" and "local_of w p = LocalObservation ob"
  shows "as_u64 (obs_rank ob) \<le> revision st"
    "same_record st (obs_owner ob) (obs_rank ob) (obs_lease ob) \<Longrightarrow> at + skew c p \<le> first_observed_at ob"
  using assms unfolding lease_inv_def observations_ok_def by blast+

lemma begin_inv:
  assumes inv: "lease_inv view c st at w" and "phase_of w p = Idle" and "wf_participant p"
    and "wf_lease (lease_of c p)"
  shows "lease_inv view c st at (w\<lparr>phase_of := (phase_of w)(p := Waiting (clock c w p) (local_input (local_of w p) (clock c w p))),
      sent_polls := insert (p, clock c w p, local_input (local_of w p) (clock c w p)) (sent_polls w)\<rparr>)"
    (is "lease_inv view c st at ?w")
proof -
  have input: "as_u64 r \<le> revision st \<and> (same_record st own r lease \<longrightarrow> at + elapsed \<le> time w)"
    if i: "local_input (local_of w p) (clock c w p) = PollObservation own r lease elapsed" for own r lease elapsed
  proof (cases "local_of w p")
    case (LocalObservation ob)
    have "at \<le> time w" using inv by (simp add: lease_inv_def)
    with inv_observation [OF inv LocalObservation] i LocalObservation show ?thesis
      by (auto simp: clock_def)
  qed (use i in simp_all)
  have same: "clock c ?w q = clock c w q" "sent_resigns ?w = sent_resigns w" for q
    by (simp_all add: clock_def)
  have tok: "token w q r lease anchor" if "token ?w q r lease anchor" for q r lease anchor
    using that by (auto simp: token_def split: if_splits)
  have "tokens_ok c st at ?w"
    unfolding tokens_ok_def same using inv_token [OF inv] tok by metis
  moreover have "resigns_ok st ?w"
    unfolding resigns_ok_def same using inv_resign [OF inv] tok by metis
  moreover have "observations_ok c st at ?w"
    using inv unfolding lease_inv_def observations_ok_def by simp
  moreover have "polls_ok c st at ?w"
    using inv assms(3,4) input unfolding lease_inv_def polls_ok_def by (auto simp: clock_def)
  ultimately show ?thesis using inv unfolding lease_inv_def by simp
qed

lemma tick_inv:
  assumes inv: "lease_inv view c st at w"
  shows "lease_inv view c st at (w\<lparr>time := time w + d\<rparr>)" (is "lease_inv view c st at ?w")
proof -
  have same: "clock c ?w q = clock c w q + d" "sent_resigns ?w = sent_resigns w" "token ?w = token w" for q
    by (simp_all add: clock_def token_def fun_eq_iff)
  have "tokens_ok c st at ?w"
    unfolding tokens_ok_def same using inv_token [OF inv] by (fastforce dest: add_lessD1)
  moreover have "resigns_ok st ?w"
    unfolding resigns_ok_def same using inv_resign [OF inv] by blast
  moreover have "polls_ok c st at ?w"
    unfolding polls_ok_def same
    using inv_poll [OF inv] inv_waiting [OF inv] by (auto intro: trans_le_add1)
  ultimately show ?thesis
    using inv unfolding lease_inv_def by (simp add: observations_ok_def)
qed

lemma ask_resign_inv:
  assumes inv: "lease_inv view c st at w" and "phase_of w p = Idle" and l: "local_of w p = LocalLeadership l"
  shows "lease_inv view c st at (w\<lparr>sent_resigns := insert (p, lead_rank l, lead_lease l) (sent_resigns w)\<rparr>)"
    (is "lease_inv view c st at ?w")
proof -
  have same: "clock c ?w q = clock c w q" "token ?w = token w" for q
    by (simp_all add: clock_def token_def fun_eq_iff)
  have own: "r = lead_rank l" if "token w p r lease anchor" for r lease anchor
    using that assms(2) l by (auto simp: token_def)
  have "token w p (lead_rank l) (lead_lease l) (last_renewed_at l)" by (simp add: token_def l)
  from inv_token(1) [OF inv this] have le: "as_u64 (lead_rank l) \<le> revision st" .
  have "resigns_ok st ?w"
    unfolding resigns_ok_def same using inv_resign [OF inv] own le by auto
  moreover have "tokens_ok c st at ?w"
    unfolding tokens_ok_def same using inv_token [OF inv] by simp
  ultimately show ?thesis using inv
    by (simp add: lease_inv_def observations_ok_def polls_ok_def clock_def)
qed

context kv_store begin

lemma run_inv:
  assumes inv: "lease_inv view c st at w" and sent: "(p, started, input) \<in> sent_polls w"
    and poll: "poll kv (election c) (lease_of c p) p input (store w) = Inr (result, t)"
  shows "\<exists>st' at'. lease_inv view c st' at' (w\<lparr>store := t\<rparr>) \<and>
      answer_ok c st' at' (w\<lparr>store := t\<rparr>) p (next_of result) \<and> revision st \<le> revision st' \<and>
      (\<forall>r tr. outcome result = Leader r tr \<longrightarrow> revision st < revision st' \<and> as_u64 r = revision st')"
proof -
  have holds: "election_holds (election c) (view (store w)) st" using inv by (simp add: lease_inv_def)
  from poll_refines [OF holds inv_poll(1,2) [OF inv sent] poll] obtain next_state where
    step: "poll_step st p (lease_of c p) input = Inr (result, next_state)"
    and holds': "election_holds (election c) (view t) (advance st next_state)" by blast
  from step show ?thesis
  proof (cases rule: poll_step_result)
    case (leader r tr)
    let ?st = "\<lparr>revision = r, owner = Some p, lease_duration = Some (lease_of c p)\<rparr>"
    have "lease_inv view c ?st (time w) (w\<lparr>store := t\<rparr>)"
      using new_record_inv [OF inv sent leader(1,2) refl] holds' leader(3) by (simp add: advance_def)
    moreover have less: "revision st < r" using leader(1) by (simp add: word_less_nat_alt)
    moreover have "as_u64 r' < r" if "(q, r', lease') \<in> sent_resigns w" for q r' lease'
      using inv_resign(1) [OF inv that] less by (rule order_le_less_trans)
    ultimately show ?thesis
      by (intro exI [of _ ?st] exI [of _ "time w"]) (auto simp: answer_ok_def leader)
  next
    case (follower own l timer)
    have "lease_inv view c st at (w\<lparr>store := t\<rparr>)"
      using same_record_inv [OF inv] holds' follower(1) by (simp add: advance_def)
    then show ?thesis
      by (intro exI [of _ st] exI [of _ at]) (simp add: answer_ok_def follower)
  qed
qed

lemma resign_inv:
  assumes inv: "lease_inv view c st at w" and sent: "(p, r, lease) \<in> sent_resigns w"
    and resign: "resign kv (election c) p r lease (store w) = Inr (out, t)"
  shows "\<exists>st'. lease_inv view c st' at (w\<lparr>store := t\<rparr>) \<and> revision st' = revision st"
proof -
  have holds: "election_holds (election c) (view (store w)) st" using inv by (simp add: lease_inv_def)
  note refines = resign_refines [OF holds resign]
  show ?thesis
  proof (cases out)
    case Rejected
    with refines inv show ?thesis by auto
  next
    case Resigned
    let ?st = "st\<lparr>owner := None\<rparr>" and ?w = "w\<lparr>store := t\<rparr>"
    from Resigned refines have own: "owner st = Some p" "revision st = as_u64 r"
      and holds': "election_holds (election c) (view t) ?st" by (auto simp: same_record_def)
    have same: "clock c ?w q = clock c w q" "sent_resigns ?w = sent_resigns w" "token ?w = token w" for q
      by (simp_all add: clock_def token_def fun_eq_iff)
    have lease: "lease = lease_of c p"
      using refines Resigned own inv by (auto simp: same_record_def lease_inv_def)
    have "(q, r', l) \<in> sent_resigns w" if "token w q r' l anchor" "clock c w q < anchor + l" for q r' l anchor
    proof (rule ccontr)
      assume out: "(q, r', l) \<notin> sent_resigns w"
      with inv_token(5) [OF inv that] own have q: "q = p" by simp
      with that inv_resign(2) [OF inv sent] inv_token(1,2) [OF inv that(1)] own q have "as_u64 r' = as_u64 r" "l = lease"
        by (auto simp: lease intro: order_antisym)
      then have "r' = r" "l = lease" by (simp_all add: rank.expand)
      with out q sent show False by simp
    qed
    then have "tokens_ok c ?st at ?w"
      unfolding tokens_ok_def same using inv_token [OF inv] by fastforce
    moreover have "observations_ok c ?st at ?w" "polls_ok c ?st at ?w" "resigns_ok ?st ?w"
      using inv unfolding lease_inv_def
      by (simp_all add: observations_ok_def polls_ok_def resigns_ok_def same_record_def same)
    ultimately show ?thesis
      using inv holds' by (intro exI [of _ ?st]) (simp add: lease_inv_def)
  qed
qed

lemma step_inv:
  assumes "lease_step kv view c w w'" and inv: "lease_inv view c st at w"
  shows "\<exists>st' at'. lease_inv view c st' at' w' \<and> revision st \<le> revision st'"
  using assms(1)
proof cases
  case (Tick d)
  with tick_inv [OF inv] show ?thesis by auto
next
  case (Begin p input)
  with begin_inv [OF inv] show ?thesis by auto
next
  case (Run p started input result t)
  with run_inv [OF inv] show ?thesis by blast
next
  case (Answer p started input result t)
  from run_inv [OF inv inv_waiting [OF inv Answer(2)] Answer(3)] obtain st' at' where
    i: "lease_inv view c st' at' (w\<lparr>store := t\<rparr>)" "answer_ok c st' at' (w\<lparr>store := t\<rparr>) p (next_of result)"
    "revision st \<le> revision st'" by blast
  from answer_inv [OF i(1) _ i(2), of started input] Answer(1,2) i(3) show ?thesis by auto
next
  case (Adopt p started result)
  have "lease_inv view c st at w'"
  proof (unfold Adopt(1), rule local_inv [OF inv])
    show "adopt (local_of w p) started (clock c w p) (next_of result) = LocalUnknown \<or>
      adopt (local_of w p) started (clock c w p) (next_of result) = local_of w p \<or>
      (\<exists>r lease anchor. token w p r lease anchor \<and>
         adopt (local_of w p) started (clock c w p) (next_of result) =
           LocalLeadership \<lparr>lead_rank = r, lead_lease = lease, last_renewed_at = anchor\<rparr>) \<or>
      (\<exists>own r lease. as_u64 r \<le> revision st \<and> adopt (local_of w p) started (clock c w p) (next_of result) =
         LocalObservation \<lparr>obs_owner = own, obs_rank = r, obs_lease = lease, first_observed_at = clock c w p\<rparr>)"
    proof (cases "next_of result")
      case (NextLeadership r lease)
      with Adopt(2) have "token w p r lease started" by (auto simp: token_def)
      then show ?thesis by (auto simp: adopt_def NextLeadership)
    next
      case (NextObservation own r lease timer)
      have "as_u64 r \<le> revision st"
        using inv Adopt(2) NextObservation unfolding lease_inv_def observations_ok_def by blast
      then show ?thesis by (cases "local_of w p") (auto simp: adopt_def NextObservation)
    qed
  qed
  then show ?thesis by auto
next
  case (Abandon p)
  have "w' = set_local p (local_of w p) w" by (simp add: Abandon set_local_def)
  moreover have "lease_inv view c st at (set_local p (local_of w p) w)" by (rule local_inv [OF inv]) simp
  ultimately show ?thesis by auto
next
  case (Forget p)
  have "lease_inv view c st at w'" unfolding Forget by (rule local_inv [OF inv]) simp
  then show ?thesis by auto
next
  case (Ask_resign p l)
  with ask_resign_inv [OF inv Ask_resign(2,3)] show ?thesis by auto
next
  case (Resign p r lease out t)
  with resign_inv [OF inv Resign(2,3)] show ?thesis by force
next
  case (Elsewhere t)
  have "election_holds (election c) (view t) st"
    using inv Elsewhere(2) by (simp add: lease_inv_def election_holds_def)
  from same_record_inv [OF inv this] Elsewhere(1) show ?thesis by auto
qed

lemma run_keeps_inv:
  assumes "lease_run kv view c w w'" and "lease_inv view c st at w"
  shows "\<exists>st' at'. lease_inv view c st' at' w' \<and> revision st \<le> revision st'"
  using assms
proof (induction rule: lease_run.induct)
  case (Next w' w'')
  then obtain st1 at1 where 1: "lease_inv view c st1 at1 w'" "revision st \<le> revision st1" by blast
  from step_inv [OF Next.hyps(2) 1(1)] 1(2) show ?case by (meson order_trans)
qed auto

lemma initial_inv: "initial view c w \<Longrightarrow> lease_inv view c default_state 0 w"
  by (simp add: initial_def lease_inv_defs election_holds_def default_state_def)

lemma one_leader:
  assumes "lease_inv view c st at w" and "leads c w p"
  shows "owner st = Some p"
proof -
  from assms(2) obtain l where l: "local_of w p = LocalLeadership l"
    "clock c w p - last_renewed_at l < lead_lease l" "(p, lead_rank l, lead_lease l) \<notin> sent_resigns w"
    by (auto simp: leads_def holds_token_def)
  then have "token w p (lead_rank l) (lead_lease l) (last_renewed_at l)" by (simp add: token_def)
  from inv_token(5) [OF assms(1) this] l(2,3) show ?thesis by linarith
qed

end

section \<open>A concrete run\<close>

lemma mem_poll:
  assumes "election_holds s (map_of t) st" and "unat (revision st) < 18446744073709551615"
  shows "\<exists>result t'. poll (mem_kv n) s lease p input t = Inr (result, t')"
proof (cases "poll (mem_kv n) s lease p input t")
  case (Inl e)
  with mem.poll_errors [OF assms(1) Inl] assms(2) show ?thesis by (simp add: mem_kv_def)
qed auto

definition alice :: participant_id where
  "alice = ParticipantId [97]"

definition bob :: participant_id where
  "bob = ParticipantId [98]"

definition example_cluster :: cluster where
  "example_cluster = \<lparr>election = subspace_all, skew = (\<lambda>p. if p = alice then 7 else 0), lease_of = (\<lambda>_. 10)\<rparr>"

definition example_world :: "(bytes \<times> bytes) list world" where
  "example_world = \<lparr>store = [], time = 100, local_of = (\<lambda>_. LocalUnknown), phase_of = (\<lambda>_. Idle),
     sent_polls = {}, sent_resigns = {}\<rparr>"

lemma example_wf: "wf_participant alice" "wf_participant bob" "wf_lease (lease_of example_cluster p)" "alice \<noteq> bob"
  by (simp_all add: wf_participant_def participant_new_def saturating_add_def MAX_ENCODED_BYTES_def
      wf_lease_def wf_duration_def example_cluster_def alice_def bob_def in_range_def)

lemma example_initial: "initial map_of example_cluster example_world"
  by (simp add: initial_def example_world_def)

lemma empty_holds: "election_holds s (map_of []) default_state"
  by (simp add: election_holds_def)

lemma acquire_empty:
  assumes "poll (mem_kv 2) s lease p input [] = Inr (result, t)" and "wf_participant p" and "wf_lease lease"
  shows "result = \<lparr>outcome = Leader (Rank 1) Acquired, next_of = NextLeadership (Rank 1) lease\<rparr>"
    and "election_holds s (map_of t) \<lparr>revision = 1, owner = Some p, lease_duration = Some lease\<rparr>"
  using mem.poll_refines [OF empty_holds assms(2,3,1)]
  by (auto simp: poll_step_def decide_def default_state_def leader_result_def next_revision_def
      checked_add_def advance_def)

text \<open>A participant asks, is answered that it leads, and adopts its leadership.\<close>

definition asked :: "participant_id \<Rightarrow> 's world \<Rightarrow> 's world" where
  "asked p w = (let now = clock example_cluster w p; input = local_input (local_of w p) now
     in w\<lparr>phase_of := (phase_of w)(p := Waiting now input), sent_polls := insert (p, now, input) (sent_polls w)\<rparr>)"

lemma asked_simps [simp]: "store (asked p w) = store w" "local_of (asked p w) = local_of w"
  "time (asked p w) = time w" "sent_resigns (asked p w) = sent_resigns w"
  by (simp_all add: asked_def Let_def)

lemma asked_phase [simp]: "phase_of (asked p w) p = Waiting (clock example_cluster w p)
    (local_input (local_of w p) (clock example_cluster w p))"
  by (simp add: asked_def Let_def)

lemma asked_step:
  "phase_of w p = Idle \<Longrightarrow> wf_participant p \<Longrightarrow> lease_step kv view example_cluster w (asked p w)"
  unfolding asked_def Let_def by (rule lease_step.Begin) (simp_all add: example_wf)

definition takes_lead :: "participant_id \<Rightarrow> rank \<Rightarrow> 's \<Rightarrow> 's world \<Rightarrow> 's world" where
  "takes_lead p r t w = w\<lparr>store := t, phase_of := (phase_of w)(p := Idle),
     local_of := (local_of w)(p := LocalLeadership \<lparr>lead_rank = r, lead_lease = 10, last_renewed_at = clock example_cluster w p\<rparr>),
     sent_polls := insert (p, clock example_cluster w p, local_input (local_of w p) (clock example_cluster w p)) (sent_polls w)\<rparr>"

lemma takes_lead_run:
  assumes "lease_run kv view example_cluster w0 w" and "phase_of w p = Idle" and "wf_participant p"
    and "poll kv subspace_all 10 p (local_input (local_of w p) (clock example_cluster w p)) (store w) =
      Inr (\<lparr>outcome = Leader r tr, next_of = NextLeadership r 10\<rparr>, t)"
  shows "lease_run kv view example_cluster w0 (takes_lead p r t w)"
proof -
  let ?c = example_cluster and ?now = "clock example_cluster w p"
  let ?ans = "\<lparr>outcome = Leader r tr, next_of = NextLeadership r 10\<rparr>"
  let ?w2 = "(asked p w)\<lparr>store := t, phase_of := (phase_of (asked p w))(p := Answered ?now ?ans)\<rparr>"
  have "lease_step kv view ?c w (asked p w)" by (rule asked_step [OF assms(2,3)])
  moreover have "lease_step kv view ?c (asked p w) ?w2"
    by (rule lease_step.Answer [OF asked_phase]) (use assms(4) in \<open>simp add: example_cluster_def\<close>)
  moreover have "lease_step kv view ?c ?w2 (set_local p (adopt (local_of ?w2 p) ?now (clock ?c ?w2 p) (next_of ?ans)) ?w2)"
    by (rule lease_step.Adopt) simp
  ultimately have "lease_run kv view ?c w0 (set_local p (adopt (local_of ?w2 p) ?now (clock ?c ?w2 p) (next_of ?ans)) ?w2)"
    using assms(1) by (meson lease_run.Next)
  moreover have "set_local p (adopt (local_of ?w2 p) ?now (clock ?c ?w2 p) (next_of ?ans)) ?w2 = takes_lead p r t w"
    by (simp add: set_local_def adopt_def takes_lead_def asked_def Let_def)
  ultimately show ?thesis by simp
qed

lemma takes_lead_simps [simp]:
  "store (takes_lead p r t w) = t" "time (takes_lead p r t w) = time w" "sent_resigns (takes_lead p r t w) = sent_resigns w"
  "clock c (takes_lead p r t w) q = clock c w q" "phase_of (takes_lead p r t w) = (phase_of w)(p := Idle)"
  "local_of (takes_lead p r t w) = (local_of w)(p := LocalLeadership
     \<lparr>lead_rank = r, lead_lease = 10, last_renewed_at = clock example_cluster w p\<rparr>)"
  by (simp_all add: takes_lead_def clock_def)

lemma takes_vacant:
  assumes "election_holds s (map_of t) \<lparr>revision = 1, owner = None, lease_duration = Some lease\<rparr>"
    and "wf_participant p" and "wf_lease lease"
  shows "\<exists>t'. poll (mem_kv 2) s lease p PollUnknown t =
      Inr (\<lparr>outcome = Leader (Rank 2) Acquired, next_of = NextLeadership (Rank 2) lease\<rparr>, t')"
proof -
  obtain result t' where poll: "poll (mem_kv 2) s lease p PollUnknown t = Inr (result, t')"
    using mem_poll [OF assms(1)] by fastforce
  from mem.poll_refines [OF assms(1-3) poll] poll show ?thesis
    by (auto simp: poll_step_def decide_def leader_result_def next_revision_def checked_add_def)
qed

lemma mem_resigns:
  assumes "election_holds s (map_of t) st" and "same_record st p r lease"
  shows "\<exists>t'. resign (mem_kv n) s p r lease t = Inr (Resigned, t') \<and> election_holds s (map_of t') (st\<lparr>owner := None\<rparr>)"
proof -
  have "\<exists>out t'. resign (mem_kv n) s p r lease t = Inr (out, t')"
    using assms(1) by (auto simp: resign_def read_state_def election_holds_def mem_kv_def bind_result_def Let_def map_err_def
        split: option.splits sum.splits)
  then obtain out t' where run: "resign (mem_kv n) s p r lease t = Inr (out, t')" by blast
  from mem.resign_refines [OF assms(1) run] assms(2) run show ?thesis by auto
qed

text \<open>
  Alice leads and asks to resign; the resignation commits and Bob leads before Alice learns it: she
  still holds her token, which has not run out.
\<close>

lemma handover:
  "\<exists>w l. lease_run (mem_kv 2) map_of example_cluster example_world w \<and> leads example_cluster w bob \<and>
     holds_token example_cluster w alice l"
proof -
  let ?kv = "mem_kv 2" and ?c = example_cluster and ?w = example_world
  have ten: "wf_lease 10" using example_wf(3) by (simp add: example_cluster_def)
  have e: "election ?c = subspace_all" by (simp add: example_cluster_def)
  obtain result t1 where poll: "poll ?kv subspace_all 10 alice PollUnknown [] = Inr (result, t1)"
    using mem_poll [OF empty_holds] by (fastforce simp: default_state_def)
  note result = acquire_empty [OF poll example_wf(1) ten]
  have start: "store ?w = []" "local_of ?w q = LocalUnknown" "phase_of ?w q = Idle" "sent_resigns ?w = {}" for q
    by (simp_all add: example_world_def)
  let ?w1 = "takes_lead alice (Rank 1) t1 ?w"
  let ?w2 = "?w1\<lparr>sent_resigns := {(alice, Rank 1, 10)}\<rparr>"
  have 1: "lease_run ?kv map_of ?c ?w ?w1"
    by (rule takes_lead_run [OF lease_run.Start]) (use poll result(1) start example_wf in simp_all)
  have "lease_step ?kv map_of ?c ?w1 ?w2"
    using lease_step.Ask_resign [of ?w1 alice "\<lparr>lead_rank = Rank 1, lead_lease = 10, last_renewed_at = clock ?c ?w alice\<rparr>" ?kv map_of ?c] start
    by simp
  with 1 have 2: "lease_run ?kv map_of ?c ?w ?w2" by (rule lease_run.Next)
  obtain t3 where t3: "resign ?kv subspace_all alice (Rank 1) 10 t1 = Inr (Resigned, t3)"
    "election_holds subspace_all (map_of t3) \<lparr>revision = 1, owner = None, lease_duration = Some 10\<rparr>"
    using mem_resigns [OF result(2), of alice "Rank 1" 10 2] by (auto simp: same_record_def)
  let ?w3 = "?w2\<lparr>store := t3\<rparr>"
  have "lease_step ?kv map_of ?c ?w2 ?w3"
    using lease_step.Resign [of alice "Rank 1" 10 ?w2 ?kv ?c Resigned t3 map_of] t3(1) e by simp
  with 2 have 3: "lease_run ?kv map_of ?c ?w ?w3" by (rule lease_run.Next)
  obtain t4 where "poll ?kv subspace_all 10 bob PollUnknown t3 =
      Inr (\<lparr>outcome = Leader (Rank 2) Acquired, next_of = NextLeadership (Rank 2) 10\<rparr>, t4)"
    using takes_vacant [OF t3(2) example_wf(2) ten] by blast
  then have 4: "lease_run ?kv map_of ?c ?w (takes_lead bob (Rank 2) t4 ?w3)"
    by (intro takes_lead_run [OF 3]) (use start example_wf in simp_all)
  have "leads ?c (takes_lead bob (Rank 2) t4 ?w3) bob"
    using example_wf(4) by (simp add: leads_def holds_token_def clock_def)
  moreover have "holds_token ?c (takes_lead bob (Rank 2) t4 ?w3) alice
      \<lparr>lead_rank = Rank 1, lead_lease = 10, last_renewed_at = clock ?c ?w alice\<rparr>"
    using example_wf(4) by (simp add: holds_token_def clock_def)
  ultimately show ?thesis using 4 by blast
qed

text \<open>
  Alice's first poll commits but she does not learn it; the retry sees her own record and follows
  it; a lease later she asks again and may reacquire.
\<close>

lemma asked_sent:
  "local_of w p = LocalObservation \<lparr>obs_owner = own, obs_rank = r, obs_lease = l, first_observed_at = a\<rparr> \<Longrightarrow>
   clock example_cluster w p = now \<Longrightarrow> (p, now, PollObservation own r l (now - a)) \<in> sent_polls (asked p w)"
  by (simp add: asked_def Let_def)

lemma follow_own:
  assumes "election_holds s (map_of t) \<lparr>revision = 1, owner = Some p, lease_duration = Some lease\<rparr>"
    and "wf_participant p" and "wf_lease lease"
  shows "poll (mem_kv 2) s lease p PollUnknown t =
      Inr (\<lparr>outcome = Follower p (Rank 1) lease, next_of = NextObservation p (Rank 1) lease Reset\<rparr>, t)"
proof -
  obtain result t' where poll: "poll (mem_kv 2) s lease p PollUnknown t = Inr (result, t')"
    using mem_poll [OF assms(1)] by fastforce
  from mem.poll_refines [OF assms(1-3) poll] poll show ?thesis
    by (auto simp: poll_step_def decide_def follower_result_def)
qed

lemma reacquire_own:
  assumes "election_holds s (map_of t) \<lparr>revision = 1, owner = Some p, lease_duration = Some lease\<rparr>"
    and "wf_participant p" and "wf_lease lease"
  shows "\<exists>t'. poll (mem_kv 2) s lease p (PollObservation p (Rank 1) lease lease) t =
      Inr (\<lparr>outcome = Leader (Rank 2) Reacquired, next_of = NextLeadership (Rank 2) lease\<rparr>, t')"
proof -
  obtain result t' where poll: "poll (mem_kv 2) s lease p (PollObservation p (Rank 1) lease lease) t = Inr (result, t')"
    using mem_poll [OF assms(1)] by fastforce
  from mem.poll_refines [OF assms(1-3) poll] poll show ?thesis
    by (auto simp: poll_step_def decide_def same_record_def leader_result_def next_revision_def checked_add_def)
qed

lemma alice_retries:
  "\<exists>t1 w2 t2. poll (mem_kv 2) subspace_all 10 alice PollUnknown (store (asked alice example_world)) =
       Inr (\<lparr>outcome = Leader (Rank 1) Acquired, next_of = NextLeadership (Rank 1) 10\<rparr>, t1) \<and>
     lease_run (mem_kv 2) map_of example_cluster ((asked alice example_world)\<lparr>store := t1\<rparr>) w2 \<and>
     (alice, 117, PollObservation alice (Rank 1) 10 10) \<in> sent_polls w2 \<and>
     poll (mem_kv 2) subspace_all 10 alice (PollObservation alice (Rank 1) 10 10) (store w2) =
       Inr (\<lparr>outcome = Leader (Rank 2) Reacquired, next_of = NextLeadership (Rank 2) 10\<rparr>, t2)"
proof -
  let ?kv = "mem_kv 2" and ?c = example_cluster
  obtain result t where poll: "poll ?kv subspace_all 10 alice PollUnknown [] = Inr (result, t)"
    using mem_poll [OF empty_holds] by (fastforce simp: default_state_def)
  have ten: "wf_lease 10" using example_wf(3) by (simp add: example_cluster_def)
  note result = acquire_empty [OF poll example_wf(1) ten]
  note again = follow_own [OF result(2) example_wf(1) ten]
  obtain t2 where last: "poll ?kv subspace_all 10 alice (PollObservation alice (Rank 1) 10 10) t =
      Inr (\<lparr>outcome = Leader (Rank 2) Reacquired, next_of = NextLeadership (Rank 2) 10\<rparr>, t2)"
    using reacquire_own [OF result(2) example_wf(1) ten] by blast
  let ?w1 = "(asked alice example_world)\<lparr>store := t\<rparr>"
  let ?ans = "\<lparr>outcome = Follower alice (Rank 1) 10, next_of = NextObservation alice (Rank 1) 10 Reset\<rparr>"
  let ?w2 = "?w1\<lparr>store := t, phase_of := (phase_of ?w1)(alice := Answered 107 ?ans)\<rparr>"
  let ?w3 = "set_local alice (adopt (local_of ?w2 alice) 107 (clock ?c ?w2 alice) (next_of ?ans)) ?w2"
  let ?w4 = "?w3\<lparr>time := time ?w3 + 10\<rparr>"
  have c: "election ?c = subspace_all" "lease_of ?c alice = 10" by (simp_all add: example_cluster_def)
  have "lease_step ?kv map_of ?c ?w1 ?w2"
    by (rule lease_step.Answer [where input = PollUnknown])
      (simp_all add: asked_def Let_def clock_def c again, simp_all add: example_world_def example_cluster_def)
  moreover have "lease_step ?kv map_of ?c ?w2 ?w3" by (rule lease_step.Adopt) simp
  moreover have "lease_step ?kv map_of ?c ?w3 ?w4" by (rule lease_step.Tick)
  moreover have "lease_step ?kv map_of ?c ?w4 (asked alice ?w4)"
    by (rule asked_step) (simp_all add: set_local_def example_wf)
  ultimately have run: "lease_run ?kv map_of ?c ?w1 (asked alice ?w4)"
    by (meson lease_run.intros)
  have clocks: "clock ?c ?w2 alice = 107" "clock ?c ?w4 alice = 117"
    by (simp_all add: clock_def set_local_def, simp_all add: example_world_def example_cluster_def)
  have 4: "store ?w4 = t" "local_of ?w4 alice =
      LocalObservation \<lparr>obs_owner = alice, obs_rank = Rank 1, obs_lease = 10, first_observed_at = 107\<rparr>"
    using clocks(1) by (simp_all add: set_local_def adopt_def, simp_all add: example_world_def)
  have "(alice, 117, PollObservation alice (Rank 1) 10 10) \<in> sent_polls (asked alice ?w4)"
    using asked_sent [OF 4(2) clocks(2)] by simp
  moreover have "store (asked alice ?w4) = t" using 4(1) by simp
  moreover have "store (asked alice example_world) = []" by (simp add: example_world_def)
  ultimately show ?thesis using poll last run result(1) by metis
qed

section \<open>Properties\<close>

text \<open>
  C3. At most one leader.  Participants read clocks that run at one rate and differ by constant
  skews, and each polls with one lease duration of its own.  In every run of the system, from a
  store without a record, two participants that hold tokens which have not run out on their own
  clocks, and which they have not asked to resign, are one, whatever polls were retried, delayed,
  repeated or abandoned and whatever resignations are late.  A token that its holder has asked to
  resign gives no such promise, also while the holder keeps it until \<^verbatim>\<open>resign\<close> returns.
\<close>

theorem at_most_one_leader:
  assumes "kv_store kv view" and "initial view c w0" and "lease_run kv view c w0 w"
    and "leads c w p" and "leads c w q"
  shows "p = q"
proof -
  from kv_store.run_keeps_inv [OF assms(1,3) kv_store.initial_inv [OF assms(1,2)]]
  obtain st at where "lease_inv view c st at w" by blast
  from kv_store.one_leader [OF assms(1) this] assms(4,5) show ?thesis by (metis option.inject)
qed

theorem at_most_one_leader_witness:
  "\<exists>w l. lease_run (mem_kv 2) map_of example_cluster example_world w \<and> leads example_cluster w bob \<and>
     holds_token example_cluster w alice l \<and> \<not> leads example_cluster w alice"
proof -
  obtain w l where w: "lease_run (mem_kv 2) map_of example_cluster example_world w" "leads example_cluster w bob"
    "holds_token example_cluster w alice l" using handover by blast
  from at_most_one_leader [OF mem_kv_store example_initial w(1) w(2)] example_wf(4)
  have "\<not> leads example_cluster w alice" by metis
  with w show ?thesis by blast
qed

text \<open>
  Fencing ranks only grow.  When a poll of the system answers that its participant leads at
  rank \<open>r1\<close>, and a poll that is executed any time later answers that its participant leads at
  rank \<open>r2\<close>, then \<open>r1 < r2\<close>: every acquisition, renewal, takeover and reacquisition has a rank of
  its own, above all earlier ones.
\<close>

theorem fencing_ranks_increase:
  assumes "kv_store kv view" and "initial view c w0" and "lease_run kv view c w0 w1"
    and "(p1, started1, input1) \<in> sent_polls w1"
    and "poll kv (election c) (lease_of c p1) p1 input1 (store w1) = Inr (result1, t1)"
    and "outcome result1 = Leader r1 tr1"
    and "lease_run kv view c (w1\<lparr>store := t1\<rparr>) w2" and "(p2, started2, input2) \<in> sent_polls w2"
    and "poll kv (election c) (lease_of c p2) p2 input2 (store w2) = Inr (result2, t2)"
    and "outcome result2 = Leader r2 tr2"
  shows "r1 < r2"
proof -
  from kv_store.run_keeps_inv [OF assms(1,3) kv_store.initial_inv [OF assms(1,2)]]
  obtain st1 at1 where "lease_inv view c st1 at1 w1" by blast
  from kv_store.run_inv [OF assms(1) this assms(4,5)] assms(6) obtain st1' at1' where
    1: "lease_inv view c st1' at1' (w1\<lparr>store := t1\<rparr>)" "as_u64 r1 = revision st1'" by metis
  from kv_store.run_keeps_inv [OF assms(1,7) 1(1)] obtain st2 at2 where
    2: "lease_inv view c st2 at2 w2" "revision st1' \<le> revision st2" by blast
  from kv_store.run_inv [OF assms(1) 2(1) assms(8,9)] assms(10) have "revision st2 < as_u64 r2" by metis
  with 1(2) 2(2) show ?thesis by (simp add: less_rank_def)
qed

theorem fencing_ranks_increase_witness:
  "\<exists>t1 w2 t2. lease_run (mem_kv 2) map_of example_cluster ((asked alice example_world)\<lparr>store := t1\<rparr>) w2 \<and>
     poll (mem_kv 2) subspace_all 10 alice PollUnknown [] =
       Inr (\<lparr>outcome = Leader (Rank 1) Acquired, next_of = NextLeadership (Rank 1) 10\<rparr>, t1) \<and>
     poll (mem_kv 2) subspace_all 10 alice (PollObservation alice (Rank 1) 10 10) (store w2) =
       Inr (\<lparr>outcome = Leader (Rank 2) Reacquired, next_of = NextLeadership (Rank 2) 10\<rparr>, t2) \<and>
     Rank 1 < Rank 2"
proof -
  have sent: "(alice, 107, PollUnknown) \<in> sent_polls (asked alice example_world)"
    by (simp add: asked_def clock_def Let_def) (simp add: example_world_def example_cluster_def)
  have c: "election example_cluster = subspace_all" "lease_of example_cluster alice = 10"
    by (simp_all add: example_cluster_def)
  have "lease_step (mem_kv 2) map_of example_cluster example_world (asked alice example_world)"
    by (rule asked_step) (simp_all add: example_wf example_world_def)
  then have run: "lease_run (mem_kv 2) map_of example_cluster example_world (asked alice example_world)"
    by (rule lease_run.Next [OF lease_run.Start])
  from alice_retries obtain t1 w2 t2 where
    *: "poll (mem_kv 2) subspace_all 10 alice PollUnknown (store (asked alice example_world)) =
       Inr (\<lparr>outcome = Leader (Rank 1) Acquired, next_of = NextLeadership (Rank 1) 10\<rparr>, t1)"
     "lease_run (mem_kv 2) map_of example_cluster ((asked alice example_world)\<lparr>store := t1\<rparr>) w2"
     "(alice, 117, PollObservation alice (Rank 1) 10 10) \<in> sent_polls w2"
     "poll (mem_kv 2) subspace_all 10 alice (PollObservation alice (Rank 1) 10 10) (store w2) =
       Inr (\<lparr>outcome = Leader (Rank 2) Reacquired, next_of = NextLeadership (Rank 2) 10\<rparr>, t2)"
    by blast
  from fencing_ranks_increase [OF mem_kv_store example_initial run sent _ _ *(2,3)] *(1,4) c
  have "Rank 1 < Rank 2" by simp
  moreover have "store (asked alice example_world) = []" by (simp add: example_world_def)
  ultimately show ?thesis using *(1,2,4) by metis
qed

end
