(* ===== verification/Leader_Properties.thy ===== *)
theory Leader_Properties
  imports Leader_Lease
begin

text \<open>
  The earlier poll logic that the tests of \<^verbatim>\<open>algorithm.rs\<close> keep as their reference (module
  \<^verbatim>\<open>legacy\<close>), its equivalence with the present one on every state and input, and the properties
  of the record and of the operations.
\<close>

section \<open>The reference poll logic\<close>

record legacy_leadership =
  leg_participant :: participant_id
  leg_rank :: rank
  leg_lease :: duration
  leg_renewed_at :: duration

datatype legacy_local =
    LegacyUnknown
  | LegacyObservation observation
  | LegacyLeadership legacy_leadership

datatype pending_next_state =
    PreservedObservation observation
  | NewObservation participant_id rank duration
  | PendingLeadership legacy_leadership

fun into_local_state :: "pending_next_state \<Rightarrow> duration \<Rightarrow> legacy_local" where
  "into_local_state (PreservedObservation ob) adopted_at = LegacyObservation ob"
| "into_local_state (NewObservation own r lease) adopted_at =
     LegacyObservation \<lparr>obs_owner = own, obs_rank = r, obs_lease = lease, first_observed_at = adopted_at\<rparr>"
| "into_local_state (PendingLeadership l) adopted_at = LegacyLeadership l"

definition same_observation :: "durable_state \<Rightarrow> observation \<Rightarrow> bool" where
  "same_observation state ob \<longleftrightarrow>
     owner state = Some (obs_owner ob) \<and> revision state = as_u64 (obs_rank ob) \<and>
     lease_duration state = Some (obs_lease ob)"

definition valid_leadership :: "durable_state \<Rightarrow> participant_id \<Rightarrow> legacy_leadership \<Rightarrow> duration \<Rightarrow> bool" where
  "valid_leadership state participant l now \<longleftrightarrow>
     leg_participant l = participant \<and> owner state = Some participant \<and>
     revision state = as_u64 (leg_rank l) \<and> lease_duration state = Some (leg_lease l) \<and>
     now - leg_renewed_at l < leg_lease l"

definition legacy_leader_result ::
    "durable_state \<Rightarrow> participant_id \<Rightarrow> duration \<Rightarrow> duration \<Rightarrow> poll_transition \<Rightarrow>
     election_error + poll_outcome \<times> pending_next_state" where
  "legacy_leader_result state participant lease attempt_started_at t =
     bind_result (next_revision state) (\<lambda>r.
       let rank = Rank r
       in Inr (Leader rank t, PendingLeadership \<lparr>leg_participant = participant, leg_rank = rank,
            leg_lease = lease, leg_renewed_at = attempt_started_at\<rparr>))"

text \<open>
  The two \<^verbatim>\<open>unwrap\<close>s panic on a released record or one without a lease; the outer option
  is \<open>None\<close> there.
\<close>

definition legacy_follower_result ::
    "durable_state \<Rightarrow> observation option \<Rightarrow> (poll_outcome \<times> pending_next_state) option" where
  "legacy_follower_result state previous =
     Option.bind (owner state) (\<lambda>own. Option.bind (lease_duration state) (\<lambda>lease.
       let rank = Rank (revision state);
           next_observation = (case previous of
               Some previous \<Rightarrow> if same_observation state previous then PreservedObservation previous
                 else NewObservation own rank lease
             | None \<Rightarrow> NewObservation own rank lease)
       in Some (Follower own rank lease, next_observation)))"

definition legacy_step ::
    "durable_state \<Rightarrow> duration \<Rightarrow> participant_id \<Rightarrow> legacy_local \<Rightarrow> duration \<Rightarrow> duration \<Rightarrow>
     (election_error + poll_outcome \<times> legacy_local) option" where
  "legacy_step state lease participant local_state attempt_started_at adopted_at =
     map_option (\<lambda>r. bind_result r (\<lambda>(out, pending). Inr (out, into_local_state pending adopted_at)))
     (let lead = legacy_leader_result state participant lease attempt_started_at;
          follow = (\<lambda>previous. map_option Inr (legacy_follower_result state previous))
      in case local_state of
        LegacyLeadership l \<Rightarrow>
          if valid_leadership state participant l attempt_started_at then Some (lead Renewed)
          else if owner state \<noteq> None then follow None else Some (lead Acquired)
      | LegacyObservation ob \<Rightarrow>
          if owner state \<noteq> None then
            if same_observation state ob \<and> attempt_started_at - first_observed_at ob \<ge> obs_lease ob
            then Some (lead (if obs_owner ob = participant then Reacquired else TookOver))
            else follow (Some ob)
          else Some (lead Acquired)
      | LegacyUnknown \<Rightarrow> if owner state \<noteq> None then follow None else Some (lead Acquired))"

definition to_new :: "legacy_local \<Rightarrow> participant_id \<Rightarrow> local_state" where
  "to_new loc participant =
     (case loc of
        LegacyUnknown \<Rightarrow> LocalUnknown
      | LegacyObservation ob \<Rightarrow> LocalObservation ob
      | LegacyLeadership l \<Rightarrow>
          if leg_participant l \<noteq> participant then LocalUnknown
          else LocalLeadership \<lparr>lead_rank = leg_rank l, lead_lease = leg_lease l,
            last_renewed_at = leg_renewed_at l\<rparr>)"

fun same_local :: "local_state \<Rightarrow> legacy_local \<Rightarrow> bool" where
  "same_local LocalUnknown LegacyUnknown = True"
| "same_local (LocalObservation new) (LegacyObservation leg) \<longleftrightarrow>
     obs_owner new = obs_owner leg \<and> obs_rank new = obs_rank leg \<and> obs_lease new = obs_lease leg \<and>
     first_observed_at new = first_observed_at leg"
| "same_local (LocalLeadership new) (LegacyLeadership leg) \<longleftrightarrow>
     lead_rank new = leg_rank leg \<and> lead_lease new = leg_lease leg \<and>
     last_renewed_at new = leg_renewed_at leg"
| "same_local _ _ = False"

section \<open>Properties\<close>

text \<open>
  C30. The clock-free poll is the earlier one.  On every record that can be stored, for every
  participant, local state and pair of clock readings, the poll step on the input of the local
  state succeeds exactly when the earlier step does, with its outcome, and adopting the result
  gives its local state; otherwise both report that the revisions are exhausted.
\<close>

theorem poll_matches_legacy:
  assumes "wf_durable state"
  shows "(case (legacy_step state lease participant loc started adopted,
               poll_step state participant lease (local_input (to_new loc participant) started)) of
      (Some (Inr (out, leg)), Inr (result, next_state)) \<Rightarrow> outcome result = out \<and>
        same_local (adopt (to_new loc participant) started adopted (next_of result)) leg \<and>
        (is_leader out \<longleftrightarrow> next_state \<noteq> None)
    | (Some (Inl e), Inl e') \<Rightarrow> e = RevisionExhausted \<and> e' = RevisionExhausted
    | _ \<Rightarrow> False)"
proof -
  have lease: "\<exists>l. lease_duration state = Some l" if "owner state = Some own" for own
    using assms that by (auto simp: wf_durable_def)
  have rank: "Rank (revision state) = r \<longleftrightarrow> revision state = as_u64 r" for r
    by (cases r) auto
  show ?thesis
  proof (cases "owner state")
    case None
    then show ?thesis
      by (cases "next_revision state"; cases loc)
        (auto simp: legacy_step_def poll_step_def decide_def valid_leadership_def leader_result_def
          legacy_leader_result_def adopt_def Let_def dest: next_revision_Inl)
  next
    case (Some own)
    with lease obtain l where "lease_duration state = Some l" by blast
    with Some show ?thesis
      by (cases "next_revision state"; cases loc)
        (auto simp: legacy_step_def poll_step_def decide_def valid_leadership_def leader_result_def
          legacy_leader_result_def adopt_def follower_result_def legacy_follower_result_def to_new_def
          same_record_def same_observation_def rank Let_def dest: next_revision_Inl)
  qed
qed

theorem poll_matches_legacy_witness:
  "poll_step \<lparr>revision = 7, owner = Some alice, lease_duration = Some 10\<rparr> bob 5
      (local_input (to_new (LegacyObservation \<lparr>obs_owner = alice, obs_rank = Rank 7, obs_lease = 10,
         first_observed_at = 100\<rparr>) bob) 110) =
     Inr (\<lparr>outcome = Leader (Rank 8) TookOver, next_of = NextLeadership (Rank 8) 5\<rparr>,
       Some \<lparr>revision = 8, owner = Some bob, lease_duration = Some 5\<rparr>) \<and>
   map_option (map_sum id fst) (legacy_step \<lparr>revision = 7, owner = Some alice, lease_duration = Some 10\<rparr> 5 bob
      (LegacyObservation \<lparr>obs_owner = alice, obs_rank = Rank 7, obs_lease = 10,
         first_observed_at = 100\<rparr>) 110 112) = Some (Inr (Leader (Rank 8) TookOver))"
proof -
  let ?st = "\<lparr>revision = 7, owner = Some alice, lease_duration = Some 10\<rparr>"
  let ?loc = "LegacyObservation \<lparr>obs_owner = alice, obs_rank = Rank 7, obs_lease = 10, first_observed_at = 100\<rparr>"
  have "wf_durable ?st"
    using example_wf by (simp add: wf_durable_def wf_lease_def wf_duration_def)
  note same = poll_matches_legacy [OF this, where lease = 5 and participant = bob and loc = ?loc and started = 110 and adopted = 112]
  have "poll_step ?st bob 5 (local_input (to_new ?loc bob) 110) =
     Inr (\<lparr>outcome = Leader (Rank 8) TookOver, next_of = NextLeadership (Rank 8) 5\<rparr>,
       Some \<lparr>revision = 8, owner = Some bob, lease_duration = Some 5\<rparr>)"
    using example_wf(4)
    by (simp add: poll_step_def decide_def to_new_def same_record_def leader_result_def next_revision_def
        checked_add_def)
  with same show ?thesis
    by (auto split: option.splits sum.splits prod.splits)
qed

text \<open>
  The stored record.  What \<open>encode_state\<close> writes for a well formed record is read back by
  \<open>decode_state\<close>, whatever bytes \<open>decode_state\<close> accepts are a well formed record (a created record
  has a non-zero lease, revision zero is empty, the owner is a participant id), and the encoding
  of any well formed record stays below FoundationDB's limit of 100,000 bytes for a value.
\<close>

theorem durable_state_codec:
  "(wf_durable st \<longleftrightarrow> decode_state (encode_state st) = Inr st) \<and>
   (decode_state v = Inr st' \<longrightarrow> wf_durable st') \<and>
   (wf_durable st \<longrightarrow> length (encode_state st) \<le> 100000)"
  using decode_encode_state [of st] decode_state_wf [of v st'] decode_state_wf [of "encode_state st" st]
    length_pack_state(2) [of st] by auto

theorem durable_state_codec_witness:
  "decode_state (encode_state \<lparr>revision = 7, owner = Some alice, lease_duration = Some 10\<rparr>) =
     Inr \<lparr>revision = 7, owner = Some alice, lease_duration = Some 10\<rparr> \<and>
   length (encode_state \<lparr>revision = 7, owner = Some alice, lease_duration = Some 10\<rparr>) \<le> 100000"
  using durable_state_codec [of "\<lparr>revision = 7, owner = Some alice, lease_duration = Some 10\<rparr>"] example_wf
  by (simp add: wf_durable_def wf_lease_def wf_duration_def)

text \<open>
  C28. The operations on a store.  On a store that holds a record, \<open>poll\<close> fails only when the read
  fails or no revision is left; otherwise it answers what the pure step answers, leaves the store
  alone when the participant follows, and otherwise stores the step's record and nothing else.
  \<open>resign\<close> releases the record exactly when owner, rank and lease match and else leaves the store
  alone, and \<open>state\<close> reports the record.
\<close>

theorem election_operations:
  assumes "kv_store kv view" and "election_holds s (view t) st" and "wf_participant p" and "wf_lease lease"
  shows "(case poll kv s lease p input t of
       Inl e \<Rightarrow> (\<exists>fe. kv_get kv t (election_state_key s) = Inl fe \<and> e = ElectionFdb fe) \<or>
         e = RevisionExhausted \<and> unat (revision st) = 2 ^ 64 - 1
     | Inr (result, t') \<Rightarrow> \<exists>next_state. poll_step st p lease input = Inr (result, next_state) \<and>
         election_holds s (view t') (advance st next_state) \<and> elsewhere_same s (view t) (view t') \<and>
         (next_state = None \<longrightarrow> t' = t)) \<and>
   (case resign kv s p r lease t of
       Inl e \<Rightarrow> \<exists>fe. kv_get kv t (election_state_key s) = Inl fe \<and> e = ElectionFdb fe
     | Inr (out, t') \<Rightarrow> (out = Resigned \<longleftrightarrow> same_record st p r lease) \<and>
         election_holds s (view t') (if out = Resigned then st\<lparr>owner := None\<rparr> else st) \<and>
         elsewhere_same s (view t) (view t') \<and> (out = Rejected \<longrightarrow> t' = t)) \<and>
   (case state_of kv s t of
       Inl e \<Rightarrow> \<exists>fe. kv_get kv t (election_state_key s) = Inl fe \<and> e = ElectionFdb fe
     | Inr es \<Rightarrow> es = \<lparr>es_owner = owner st, es_rank = Rank (revision st), es_lease_duration = lease_duration st\<rparr>)"
proof -
  note rules = kv_store.poll_errors [OF assms(1,2)] kv_store.poll_refines [OF assms]
    kv_store.resign_refines [OF assms(1,2)] kv_store.state_of_refines [OF assms(1,2)]
    kv_store.read_state_error [OF assms(1,2)]
  have "resign kv s p r lease t = Inl e \<Longrightarrow> \<exists>fe. kv_get kv t (election_state_key s) = Inl fe \<and> e = ElectionFdb fe"
    "state_of kv s t = Inl e \<Longrightarrow> \<exists>fe. kv_get kv t (election_state_key s) = Inl fe \<and> e = ElectionFdb fe" for e
    using rules(5) by (auto simp: resign_def state_of_def bind_result_eq_Inl Let_def split: if_splits)
  moreover note rules(3) [of p r lease]
  ultimately show ?thesis
    using rules(1,2,4) by (intro conjI) (auto split: sum.split)
qed

theorem election_operations_witness:
  "\<exists>t. poll (mem_kv 2) subspace_all 10 alice PollUnknown [] =
       Inr (\<lparr>outcome = Leader (Rank 1) Acquired, next_of = NextLeadership (Rank 1) 10\<rparr>, t) \<and>
     election_holds subspace_all (map_of t) \<lparr>revision = 1, owner = Some alice, lease_duration = Some 10\<rparr>"
proof -
  have ten: "wf_lease 10" by (simp add: wf_lease_def wf_duration_def)
  from election_operations [OF mem_kv_store empty_holds example_wf(1) ten, of 2 subspace_all PollUnknown "Rank 0"]
  have "case poll (mem_kv 2) subspace_all 10 alice PollUnknown [] of
       Inl e \<Rightarrow> (\<exists>fe. kv_get (mem_kv 2) [] (election_state_key subspace_all) = Inl fe \<and> e = ElectionFdb fe) \<or>
         e = RevisionExhausted \<and> unat (revision default_state) = 2 ^ 64 - 1
     | Inr (result, t') \<Rightarrow> \<exists>next_state. poll_step default_state alice 10 PollUnknown = Inr (result, next_state) \<and>
         election_holds subspace_all (map_of t') (advance default_state next_state)"
    by (auto split: sum.splits)
  then show ?thesis
    by (auto simp: mem_kv_def default_state_def poll_step_def decide_def leader_result_def next_revision_def
        checked_add_def advance_def split: sum.splits)
qed

text \<open>
  C29. A lease that is not renewed is taken over.  A participant polls without knowledge, adopts
  the answer and polls again when the lease it saw has passed on its clock; if the record is still
  the same, then it leads, with the next rank (or no rank is left, or the read fails).
\<close>

theorem abandoned_lease_is_taken:
  assumes "kv_store kv view" and "election_holds s (view t) st" and "wf_participant p" and "wf_lease lease"
    and "owner st = Some own" and "lease_duration st = Some l"
    and "poll kv s lease p PollUnknown t = Inr (first, t')"
    and "view t2 (election_state_key s) = view t (election_state_key s)"
    and "adopted + l \<le> now"
  shows "case poll kv s lease p (local_input (adopt LocalUnknown started adopted (next_of first)) now) t2 of
      Inl e \<Rightarrow> (\<exists>fe. kv_get kv t2 (election_state_key s) = Inl fe) \<or> unat (revision st) = 2 ^ 64 - 1
    | Inr (second, t3) \<Rightarrow> is_leader (outcome second) \<and>
        transition (outcome second) = (if own = p then Reacquired else TookOver) \<and>
        unat (as_u64 (outcome_rank (outcome second))) = unat (revision st) + 1 \<and>
        (\<exists>r. election_holds s (view t3) \<lparr>revision = r, owner = Some p, lease_duration = Some lease\<rparr>)"
proof -
  from kv_store.poll_refines [OF assms(1-4,7)] assms(5,6)
  have first: "next_of first = NextObservation own (Rank (revision st)) l Reset"
    by (auto simp: poll_step_def decide_def follower_result_def)
  let ?input = "PollObservation own (Rank (revision st)) l (now - adopted)"
  have input: "local_input (adopt LocalUnknown started adopted (next_of first)) now = ?input"
    by (simp add: adopt_def first)
  have holds: "election_holds s (view t2) st" using assms(2,8) by (simp add: election_holds_def)
  have step: "poll_step st p lease ?input = bind_result (leader_result st p lease (if own = p then Reacquired else TookOver))
      (\<lambda>(result, next_state). Inr (result, Some next_state))"
    using assms(5,6,9) by (simp add: poll_step_def decide_def same_record_def le_diff_conv2)
  show ?thesis
  proof (cases "poll kv s lease p ?input t2")
    case (Inl e)
    with kv_store.poll_errors [OF assms(1) holds Inl] show ?thesis by (auto simp: input)
  next
    case (Inr res)
    obtain second t3 where res: "res = (second, t3)" by (cases res)
    from kv_store.poll_refines [OF assms(1) holds assms(3,4), of ?input second t3] Inr res step
    show ?thesis
      by (auto simp: input leader_result_def bind_result_eq_Inr advance_def dest: next_revision_Inr)
  qed
qed

theorem abandoned_lease_is_taken_witness:
  "\<exists>t first second t3. poll (mem_kv 2) subspace_all 10 bob PollUnknown t = Inr (first, t) \<and>
     poll (mem_kv 2) subspace_all 10 bob (local_input (adopt LocalUnknown 50 52 (next_of first)) 62) t = Inr (second, t3) \<and>
     transition (outcome second) = TookOver \<and> is_leader (outcome second)"
proof -
  let ?st = "\<lparr>revision = 1, owner = Some alice, lease_duration = Some 10\<rparr>"
  have ten: "wf_lease 10" by (simp add: wf_lease_def wf_duration_def)
  obtain result t where "poll (mem_kv 2) subspace_all 10 alice PollUnknown [] = Inr (result, t)"
    using mem_poll [OF empty_holds] by (fastforce simp: default_state_def)
  from acquire_empty(2) [OF this example_wf(1) ten]
  have holds: "election_holds subspace_all (map_of t) ?st" .
  obtain first t' where first: "poll (mem_kv 2) subspace_all 10 bob PollUnknown t = Inr (first, t')"
    using mem_poll [OF holds] by fastforce
  with mem.poll_refines [OF holds example_wf(2) ten first] have "t' = t"
    by (auto simp: poll_step_def decide_def follower_result_def)
  obtain second t3 where second: "poll (mem_kv 2) subspace_all 10 bob
      (local_input (adopt LocalUnknown 50 52 (next_of first)) 62) t = Inr (second, t3)"
    using mem_poll [OF holds] by fastforce
  from abandoned_lease_is_taken [OF mem_kv_store holds example_wf(2) ten _ _ first refl, of alice 10 52 62 50] second
    example_wf(4) have "transition (outcome second) = TookOver \<and> is_leader (outcome second)" by simp
  with first second \<open>t' = t\<close> show ?thesis by blast
qed

end
