(* ===== verification/Profile_Decode.thy ===== *)
theory Profile_Decode
  imports Big_Endian
begin

text \<open>
  Decoding of reassembled profiling blobs (\<^verbatim>\<open>foundationdb-profiling/src/decode.rs\<close> and
  \<^verbatim>\<open>event.rs\<close>): the events, the reader with its position and its errors, one function
  per reading method, and the loop over the events of a blob.  A double is its 64 bits, and the
  signed integers are words read with \<open>sint\<close>.
\<close>

section \<open>Events\<close>

type_synonym f64 = "64 word"
type_synonym i32 = "32 word"
type_synonym i64 = "64 word"

datatype protocol_version = ProtocolVersion (version_code: u64)

definition V7_1 :: protocol_version where "V7_1 = ProtocolVersion 0x0FDB00B071010000"
definition V7_2 :: protocol_version where "V7_2 = ProtocolVersion 0x0FDB00B072000000"
definition V7_3 :: protocol_version where "V7_3 = ProtocolVersion 0x0FDB00B073000000"
definition V7_4 :: protocol_version where "V7_4 = ProtocolVersion 0x0FDB00B074000000"

datatype key_range = KeyRange (range_begin: bytes) (range_end: bytes)

record event_header =
  start_timestamp :: f64
  dc_id :: bytes
  tenant :: "bytes option"

record span_context =
  trace_id :: "u64 \<times> u64"
  span_id :: u64
  span_flags :: byte

record mutation =
  mutation_type :: byte
  param1 :: bytes
  param2 :: bytes

definition SET_VALUE :: byte where "SET_VALUE = 0"
definition CLEAR_RANGE :: byte where "CLEAR_RANGE = 1"
definition ADD_VALUE :: byte where "ADD_VALUE = 2"
definition MUT_AND :: byte where "MUT_AND = 6"
definition MUT_OR :: byte where "MUT_OR = 7"
definition MUT_XOR :: byte where "MUT_XOR = 8"
definition APPEND_IF_FITS :: byte where "APPEND_IF_FITS = 9"
definition MUT_MAX :: byte where "MUT_MAX = 12"
definition MUT_MIN :: byte where "MUT_MIN = 13"
definition SET_VERSIONSTAMPED_KEY :: byte where "SET_VERSIONSTAMPED_KEY = 14"
definition SET_VERSIONSTAMPED_VALUE :: byte where "SET_VERSIONSTAMPED_VALUE = 15"
definition BYTE_MIN :: byte where "BYTE_MIN = 16"
definition BYTE_MAX :: byte where "BYTE_MAX = 17"
definition MIN_V2 :: byte where "MIN_V2 = 18"
definition AND_V2 :: byte where "AND_V2 = 19"
definition COMPARE_AND_CLEAR :: byte where "COMPARE_AND_CLEAR = 20"

record commit_request =
  read_conflict_ranges :: "key_range list"
  write_conflict_ranges :: "key_range list"
  mutations :: "mutation list"
  read_snapshot :: i64
  report_conflicting_keys :: bool
  lock_aware :: bool
  span_context_of :: "span_context option"

text \<open>The structs of the events, with the fields in the order of the source.\<close>

datatype event =
    GetVersion (event_header: event_header) (latency: f64) (priority: u32) (read_version: i64)
  | GetKey (event_header: event_header) (latency: f64) (value_size: i32) (get_key: bytes)
  | GetRange (event_header: event_header) (latency: f64) (range_size: i32) (get_range: key_range)
  | CommitOk (event_header: event_header) (latency: f64) (num_mutations: i32) (commit_bytes: i32)
      (commit_version: i64) (request: commit_request)
  | GetError (event_header: event_header) (error_code: i32) (get_key: bytes)
  | GetRangeError (event_header: event_header) (error_code: i32) (get_range: key_range)
  | CommitError (event_header: event_header) (error_code: i32) (request: commit_request)

section \<open>The reader\<close>

datatype decode_error =
    UnexpectedEof (eof_offset: nat) (eof_needed: nat) (eof_remaining: nat)
  | UnsupportedProtocolVersion u64
  | UnknownEventType i32
  | MalformedKeyRange nat
  | MalformedMutation nat

record reader =
  rbuf :: bytes
  rpos :: nat

type_synonym 'a read = "reader \<Rightarrow> decode_error + 'a \<times> reader"

definition read_ok :: "'a \<Rightarrow> 'a read" where
  "read_ok a r = Inr (a, r)"

definition read_err :: "decode_error \<Rightarrow> 'a read" where
  "read_err e r = Inl e"

definition read_then :: "'a read \<Rightarrow> ('a \<Rightarrow> 'b read) \<Rightarrow> 'b read" where
  "read_then m k r = bind_result (m r) (\<lambda>(a, r'). k a r')"

definition read_pos :: "nat read" where
  "read_pos r = Inr (rpos r, r)"

definition reader_new :: "bytes \<Rightarrow> reader" where
  "reader_new b = \<lparr>rbuf = b, rpos = 0\<rparr>"

definition remaining :: "reader \<Rightarrow> nat" where
  "remaining r = length (rbuf r) - rpos r"

definition reader_is_empty :: "reader \<Rightarrow> bool" where
  "reader_is_empty r \<longleftrightarrow> remaining r = 0"

definition read_take :: "nat \<Rightarrow> bytes read" where
  "read_take n r =
     (if rpos r \<le> length (rbuf r) \<and> n \<le> length (drop (rpos r) (rbuf r))
      then Inr (take n (drop (rpos r) (rbuf r)), r\<lparr>rpos := rpos r + n\<rparr>)
      else Inl (UnexpectedEof (rpos r) n (remaining r)))"

definition read_array :: "nat \<Rightarrow> bytes read" where
  "read_array n = read_then (read_take n) read_ok"

definition read_u8 :: "byte read" where
  "read_u8 = read_then (read_array 1) (\<lambda>a. read_ok (a ! 0))"

definition read_bool :: "bool read" where
  "read_bool = read_then read_u8 (\<lambda>b. read_ok (b \<noteq> 0))"

definition read_u32 :: "u32 read" where
  "read_u32 = read_then (read_array 4) (\<lambda>a. read_ok (from_le_bytes a))"

definition read_i32 :: "i32 read" where
  "read_i32 = read_then (read_array 4) (\<lambda>a. read_ok (from_le_bytes a))"

definition read_u64 :: "u64 read" where
  "read_u64 = read_then (read_array 8) (\<lambda>a. read_ok (from_le_bytes a))"

definition read_i64 :: "i64 read" where
  "read_i64 = read_then (read_array 8) (\<lambda>a. read_ok (from_le_bytes a))"

definition read_f64 :: "f64 read" where
  "read_f64 = read_then (read_array 8) (\<lambda>a. read_ok (from_le_bytes a))"

definition read_bytes :: "bytes read" where
  "read_bytes = read_then read_u32 (\<lambda>len. read_take (unat len))"

definition read_key_range :: "key_range read" where
  "read_key_range = read_then read_bytes (\<lambda>b. read_then read_bytes (\<lambda>e. read_ok (KeyRange b e)))"

text \<open>The capacity reserved before the elements are read is not observable and left out.\<close>

fun read_times :: "nat \<Rightarrow> 'a read \<Rightarrow> 'a list \<Rightarrow> 'a list read" where
  "read_times 0 elem out = read_ok out"
| "read_times (Suc n) elem out = read_then elem (\<lambda>a. read_times n elem (out @ [a]))"

definition read_vec :: "'a read \<Rightarrow> 'a list read" where
  "read_vec elem = read_then read_u32 (\<lambda>count. read_times (unat count) elem [])"

definition read_header :: "event_header read" where
  "read_header =
     read_then read_f64 (\<lambda>start. read_then read_bytes (\<lambda>dc.
     read_then read_bool (\<lambda>has_tenant.
     read_then (if has_tenant then read_then read_bytes (\<lambda>t. read_ok (Some t)) else read_ok None) (\<lambda>t.
       read_ok \<lparr>start_timestamp = start, dc_id = dc, tenant = t\<rparr>))))"

definition is_supported :: "protocol_version \<Rightarrow> bool" where
  "is_supported v \<longleftrightarrow> v = V7_1 \<or> v = V7_2 \<or> v = V7_3 \<or> v = V7_4"

definition has_otel_span_context :: "protocol_version \<Rightarrow> bool" where
  "has_otel_span_context v \<longleftrightarrow> version_code v \<ge> version_code V7_2"

definition read_span_context :: "protocol_version \<Rightarrow> span_context read" where
  "read_span_context version =
     read_then read_u64 (\<lambda>t0. read_then read_u64 (\<lambda>t1.
       if has_otel_span_context version
       then read_then read_u64 (\<lambda>span. read_then read_u8 (\<lambda>fl.
         read_ok \<lparr>trace_id = (t0, t1), span_id = span, span_flags = fl\<rparr>))
       else read_ok \<lparr>trace_id = (t0, t1), span_id = 0, span_flags = 0\<rparr>))"

definition expand_range :: "nat \<Rightarrow> key_range \<Rightarrow> key_range read" where
  "expand_range offset rg =
     (if range_end rg = [] \<and> range_begin rg \<noteq> []
      then if last (range_begin rg) \<noteq> 0 then read_err (MalformedKeyRange offset)
           else read_ok (KeyRange (butlast (range_begin rg)) (range_begin rg))
      else read_ok rg)"

definition read_conflict_range :: "key_range read" where
  "read_conflict_range = read_then read_pos (\<lambda>offset. read_then read_key_range (expand_range offset))"

definition CHECKSUM_FLAG_MASK :: byte where "CHECKSUM_FLAG_MASK = 0x80"
definition ACCUMULATIVE_CHECKSUM_INDEX_FLAG_MASK :: byte where
  "ACCUMULATIVE_CHECKSUM_INDEX_FLAG_MASK = 0x40"
definition CHECKSUM_LEN :: nat where "CHECKSUM_LEN = 4"
definition ACCUMULATIVE_CHECKSUM_INDEX_LEN :: nat where "ACCUMULATIVE_CHECKSUM_INDEX_LEN = 2"

text \<open>The two steps after the fields of a mutation are read.\<close>

definition strip_checksum :: "nat \<Rightarrow> mutation \<Rightarrow> mutation read" where
  "strip_checksum offset m =
     (if and (mutation_type m) CHECKSUM_FLAG_MASK \<noteq> 0
      then let suffix = CHECKSUM_LEN +
                 (if and (mutation_type m) ACCUMULATIVE_CHECKSUM_INDEX_FLAG_MASK \<noteq> 0
                  then ACCUMULATIVE_CHECKSUM_INDEX_LEN else 0)
           in if length (param2 m) < suffix then read_err (MalformedMutation offset)
              else read_ok \<lparr>mutation_type = and (mutation_type m)
                  (not (or CHECKSUM_FLAG_MASK ACCUMULATIVE_CHECKSUM_INDEX_FLAG_MASK)),
                param1 = param1 m, param2 = take (length (param2 m) - suffix) (param2 m)\<rparr>
      else read_ok m)"

definition expand_clear :: "mutation \<Rightarrow> mutation" where
  "expand_clear m =
     (if mutation_type m = CLEAR_RANGE \<and> param2 m = [] \<and> param1 m \<noteq> []
      then m\<lparr>param1 := butlast (param1 m), param2 := param1 m\<rparr> else m)"

definition read_mutation_fields :: "mutation read" where
  "read_mutation_fields =
     read_then read_u8 (\<lambda>t. read_then read_bytes (\<lambda>p1. read_then read_bytes (\<lambda>p2.
       read_ok \<lparr>mutation_type = t, param1 = p1, param2 = p2\<rparr>)))"

definition read_mutation :: "mutation read" where
  "read_mutation =
     read_then read_pos (\<lambda>offset. read_then read_mutation_fields (\<lambda>m.
     read_then (strip_checksum offset m) (\<lambda>m. read_ok (expand_clear m))))"

definition read_commit_request :: "protocol_version \<Rightarrow> commit_request read" where
  "read_commit_request version =
     read_then (read_vec read_conflict_range) (\<lambda>reads.
     read_then (read_vec read_conflict_range) (\<lambda>writes.
     read_then (read_vec read_mutation) (\<lambda>muts.
     read_then read_i64 (\<lambda>snapshot. read_then read_bool (\<lambda>report. read_then read_bool (\<lambda>lock.
     read_then read_bool (\<lambda>has_span.
     read_then (if has_span then read_then (read_span_context version) (\<lambda>c. read_ok (Some c))
                else read_ok None) (\<lambda>span.
       read_ok \<lparr>read_conflict_ranges = reads, write_conflict_ranges = writes, mutations = muts,
         read_snapshot = snapshot, report_conflicting_keys = report, lock_aware = lock,
         span_context_of = span\<rparr>))))))))"

definition EVENT_GET_VERSION :: i32 where "EVENT_GET_VERSION = 0"
definition EVENT_GET :: i32 where "EVENT_GET = 1"
definition EVENT_GET_RANGE :: i32 where "EVENT_GET_RANGE = 2"
definition EVENT_COMMIT :: i32 where "EVENT_COMMIT = 3"
definition EVENT_ERROR_GET :: i32 where "EVENT_ERROR_GET = 4"
definition EVENT_ERROR_GET_RANGE :: i32 where "EVENT_ERROR_GET_RANGE = 5"
definition EVENT_ERROR_COMMIT :: i32 where "EVENT_ERROR_COMMIT = 6"

definition read_event_body :: "protocol_version \<Rightarrow> i32 \<Rightarrow> event_header \<Rightarrow> event read" where
  "read_event_body version event_type header =
     (if event_type = EVENT_GET_VERSION then
        read_then read_f64 (\<lambda>lat. read_then read_u32 (\<lambda>prio. read_then read_i64 (\<lambda>v.
          read_ok (GetVersion header lat prio v))))
      else if event_type = EVENT_GET then
        read_then read_f64 (\<lambda>lat. read_then read_i32 (\<lambda>sz. read_then read_bytes (\<lambda>key.
          read_ok (GetKey header lat sz key))))
      else if event_type = EVENT_GET_RANGE then
        read_then read_f64 (\<lambda>lat. read_then read_i32 (\<lambda>sz. read_then read_key_range (\<lambda>rg.
          read_ok (GetRange header lat sz rg))))
      else if event_type = EVENT_COMMIT then
        read_then read_f64 (\<lambda>lat. read_then read_i32 (\<lambda>num. read_then read_i32 (\<lambda>sz.
        read_then read_i64 (\<lambda>v. read_then (read_commit_request version) (\<lambda>req.
          read_ok (CommitOk header lat num sz v req))))))
      else if event_type = EVENT_ERROR_GET then
        read_then read_i32 (\<lambda>code. read_then read_bytes (\<lambda>key. read_ok (GetError header code key)))
      else if event_type = EVENT_ERROR_GET_RANGE then
        read_then read_i32 (\<lambda>code. read_then read_key_range (\<lambda>rg. read_ok (GetRangeError header code rg)))
      else if event_type = EVENT_ERROR_COMMIT then
        read_then read_i32 (\<lambda>code. read_then (read_commit_request version) (\<lambda>req.
          read_ok (CommitError header code req)))
      else read_err (UnknownEventType event_type))"

definition read_event :: "protocol_version \<Rightarrow> event read" where
  "read_event version =
     read_then read_i32 (\<lambda>event_type.
       if \<not> (sint EVENT_GET_VERSION \<le> sint event_type \<and> sint event_type \<le> sint EVENT_ERROR_COMMIT)
       then read_err (UnknownEventType event_type)
       else read_then read_header (read_event_body version event_type))"

section \<open>What every reading method does\<close>

text \<open>
  A reading method moves forward inside the buffer without changing it, does not look past what
  it reads, and reports an error at an offset of the buffer where there is what the error says.
\<close>

definition bad_range :: "bytes \<Rightarrow> nat \<Rightarrow> bool" where
  "bad_range b i \<longleftrightarrow> (\<exists>k r. read_key_range \<lparr>rbuf = b, rpos = i\<rparr> = Inr (KeyRange k [], r) \<and> k \<noteq> [] \<and> last k \<noteq> 0)"

definition bad_mutation :: "bytes \<Rightarrow> nat \<Rightarrow> bool" where
  "bad_mutation b i \<longleftrightarrow> (\<exists>m r. read_mutation_fields \<lparr>rbuf = b, rpos = i\<rparr> = Inr (m, r) \<and>
     and (mutation_type m) CHECKSUM_FLAG_MASK \<noteq> 0 \<and>
     length (param2 m) < (if and (mutation_type m) ACCUMULATIVE_CHECKSUM_INDEX_FLAG_MASK \<noteq> 0 then 6 else 4))"

fun error_in :: "reader \<Rightarrow> decode_error \<Rightarrow> bool" where
  "error_in r (UnexpectedEof offset needed rest) \<longleftrightarrow>
     rpos r \<le> offset \<and> offset \<le> length (rbuf r) \<and> rest = length (rbuf r) - offset \<and> rest < needed"
| "error_in r (MalformedKeyRange offset) \<longleftrightarrow>
     rpos r \<le> offset \<and> offset < length (rbuf r) \<and> bad_range (rbuf r) offset"
| "error_in r (MalformedMutation offset) \<longleftrightarrow>
     rpos r \<le> offset \<and> offset < length (rbuf r) \<and> bad_mutation (rbuf r) offset"
| "error_in r (UnknownEventType t) \<longleftrightarrow> t \<notin> {0..6} \<and>
     (\<exists>offset r'. rpos r \<le> offset \<and> offset \<le> length (rbuf r) \<and> read_i32 \<lparr>rbuf = rbuf r, rpos = offset\<rparr> = Inr (t, r'))"
| "error_in r (UnsupportedProtocolVersion v) \<longleftrightarrow> False"

definition ahead :: "nat \<Rightarrow> 'a read \<Rightarrow> bool" where
  "ahead n m \<longleftrightarrow> (\<forall>b i. i \<le> length b \<longrightarrow>
     (case m \<lparr>rbuf = b, rpos = i\<rparr> of
        Inr (a, r') \<Rightarrow> rbuf r' = b \<and> i + n \<le> rpos r' \<and> rpos r' \<le> length b \<and>
          (\<forall>ext. m \<lparr>rbuf = b @ ext, rpos = i\<rparr> = Inr (a, \<lparr>rbuf = b @ ext, rpos = rpos r'\<rparr>))
      | Inl e \<Rightarrow> error_in \<lparr>rbuf = b, rpos = i\<rparr> e))"

named_theorems ahead_intros

lemma aheadI:
  assumes "\<And>b i a r'. i \<le> length b \<Longrightarrow> m \<lparr>rbuf = b, rpos = i\<rparr> = Inr (a, r') \<Longrightarrow>
      rbuf r' = b \<and> i + n \<le> rpos r' \<and> rpos r' \<le> length b \<and>
      (\<forall>ext. m \<lparr>rbuf = b @ ext, rpos = i\<rparr> = Inr (a, \<lparr>rbuf = b @ ext, rpos = rpos r'\<rparr>))"
    and "\<And>b i e. i \<le> length b \<Longrightarrow> m \<lparr>rbuf = b, rpos = i\<rparr> = Inl e \<Longrightarrow> error_in \<lparr>rbuf = b, rpos = i\<rparr> e"
  shows "ahead n m"
  unfolding ahead_def using assms by (auto split: sum.split)

lemma ahead_Inr:
  assumes "ahead n m" and "i \<le> length b" and "m \<lparr>rbuf = b, rpos = i\<rparr> = Inr (a, r')"
  shows "rbuf r' = b" "i + n \<le> rpos r'" "rpos r' \<le> length b"
    "m \<lparr>rbuf = b @ ext, rpos = i\<rparr> = Inr (a, \<lparr>rbuf = b @ ext, rpos = rpos r'\<rparr>)"
  using assms(3) assms(1) [unfolded ahead_def, rule_format, OF assms(2)] by auto

lemma ahead_Inl:
  assumes "ahead n m" and "i \<le> length b" and "m \<lparr>rbuf = b, rpos = i\<rparr> = Inl e"
  shows "error_in \<lparr>rbuf = b, rpos = i\<rparr> e"
  using assms(3) assms(1) [unfolded ahead_def, rule_format, OF assms(2)] by auto

lemma error_in_later:
  "error_in \<lparr>rbuf = b, rpos = j\<rparr> e \<Longrightarrow> i \<le> j \<Longrightarrow> error_in \<lparr>rbuf = b, rpos = i\<rparr> e"
  by (cases e) (auto, meson le_trans)

lemma ahead_weaken: "ahead n m \<Longrightarrow> k \<le> n \<Longrightarrow> ahead k m"
  by (rule aheadI) (use ahead_Inr in fastforce, use ahead_Inl in blast)

lemma ahead_ok [ahead_intros]: "ahead 0 (read_ok a)"
  by (rule aheadI) (auto simp: read_ok_def)

lemma ahead_then [ahead_intros]:
  assumes "ahead n m" and "\<And>a. ahead k (f a)"
  shows "ahead (n + k) (read_then m f)"
proof (rule aheadI)
  fix b i a r'
  assume i: "i \<le> length b" and "read_then m f \<lparr>rbuf = b, rpos = i\<rparr> = Inr (a, r')"
  then obtain c r where c: "m \<lparr>rbuf = b, rpos = i\<rparr> = Inr (c, r)" "f c r = Inr (a, r')"
    by (auto simp: read_then_def bind_result_eq_Inr)
  note m = ahead_Inr [OF assms(1) i c(1)]
  from m(1) c(2) have "f c \<lparr>rbuf = b, rpos = rpos r\<rparr> = Inr (a, r')" by (cases r) simp
  note f = ahead_Inr [OF assms(2) m(3) this]
  show "rbuf r' = b \<and> i + (n + k) \<le> rpos r' \<and> rpos r' \<le> length b \<and>
      (\<forall>ext. read_then m f \<lparr>rbuf = b @ ext, rpos = i\<rparr> = Inr (a, \<lparr>rbuf = b @ ext, rpos = rpos r'\<rparr>))"
    using m(2) f(1-3) by (simp add: read_then_def m(4) f(4))
next
  fix b i e
  assume i: "i \<le> length b" and e: "read_then m f \<lparr>rbuf = b, rpos = i\<rparr> = Inl e"
  show "error_in \<lparr>rbuf = b, rpos = i\<rparr> e"
  proof (cases "m \<lparr>rbuf = b, rpos = i\<rparr>")
    case (Inl e')
    with e ahead_Inl [OF assms(1) i] show ?thesis by (simp add: read_then_def)
  next
    case (Inr cr)
    obtain c r where cr: "cr = (c, r)" by (cases cr)
    note m = ahead_Inr [OF assms(1) i Inr [unfolded cr]]
    from e Inr cr m(1) have "f c \<lparr>rbuf = b, rpos = rpos r\<rparr> = Inl e" by (cases r) (simp add: read_then_def)
    from ahead_Inl [OF assms(2) m(3) this] m(2) show ?thesis by (auto intro: error_in_later)
  qed
qed

lemma ahead_take [ahead_intros]: "ahead n (read_take n)"
  by (rule aheadI) (auto simp: read_take_def remaining_def split: if_splits)

lemma ahead_first:
  assumes "ahead n m" and "\<And>a. ahead 0 (f a)"
  shows "ahead n (read_then m f)"
  using ahead_then [OF assms] by simp

lemma ahead_0 [ahead_intros]: "ahead n m \<Longrightarrow> ahead 0 m"
  by (rule ahead_weaken) simp_all

lemma ahead_if [ahead_intros]: "ahead n m \<Longrightarrow> ahead n m' \<Longrightarrow> ahead n (if c then m else m')"
  by simp

lemma read_then_simps [simp]:
  "read_then (read_ok a) f = f a" "read_then (read_err e) f = read_err e"
  by (simp_all add: read_then_def read_ok_def read_err_def fun_eq_iff)

lemma read_then_assoc: "read_then (read_then m f) g = read_then m (\<lambda>a. read_then (f a) g)"
  by (auto simp: read_then_def fun_eq_iff bind_result_assoc intro!: arg_cong [where f = "bind_result _"])

lemma ahead_then_0:
  assumes "ahead n m" and "\<And>a. ahead 0 (f a)"
  shows "ahead 0 (read_then m f)"
  using ahead_first [OF assms] by (rule ahead_0)

lemma ahead_array: "ahead n (read_array n)"
  unfolding read_array_def by (intro ahead_first ahead_take ahead_ok)

lemma ahead_scalars:
  "ahead 1 read_u8" "ahead 1 read_bool" "ahead 4 read_u32" "ahead 4 read_i32" "ahead 8 read_u64"
  "ahead 8 read_i64" "ahead 8 read_f64"
  unfolding read_bool_def read_u8_def read_u32_def read_i32_def read_u64_def read_i64_def read_f64_def
  by (intro ahead_first ahead_array ahead_ok)+

lemma ahead_bytes: "ahead 4 read_bytes"
  unfolding read_bytes_def by (intro ahead_first ahead_scalars ahead_0) (rule ahead_take)

lemma ahead_times: "ahead n elem \<Longrightarrow> ahead 0 (read_times k elem out)"
  by (induction k arbitrary: out) (auto intro: ahead_ok ahead_then_0)

lemma ahead_vec: "ahead n elem \<Longrightarrow> ahead 4 (read_vec elem)"
  unfolding read_vec_def by (intro ahead_first ahead_scalars ahead_times)

lemma ahead_option: "ahead n m \<Longrightarrow> ahead 0 (if c then read_then m (\<lambda>a. read_ok (Some a)) else read_ok None)"
  by (intro ahead_if ahead_then_0 ahead_ok)

lemmas ahead_rules = ahead_then_0 ahead_first ahead_ok ahead_scalars ahead_bytes ahead_option

lemma ahead_key_range: "ahead 4 read_key_range"
  unfolding read_key_range_def by (rule ahead_rules)+

lemma ahead_header: "ahead 8 read_header"
  unfolding read_header_def by (rule ahead_rules)+

lemma ahead_located:
  assumes m: "ahead n m" "0 < n"
    and f: "\<And>b i a r. m \<lparr>rbuf = b, rpos = i\<rparr> = Inr (a, r) \<Longrightarrow> (\<exists>x. f i a = read_ok x) \<or>
      (\<exists>e. f i a = read_err e \<and> (i < length b \<longrightarrow> error_in \<lparr>rbuf = b, rpos = i\<rparr> e))"
  shows "ahead n (read_then read_pos (\<lambda>i. read_then m (f i)))"
proof (rule aheadI)
  fix b i a r'
  assume i: "i \<le> length b" and "read_then read_pos (\<lambda>i. read_then m (f i)) \<lparr>rbuf = b, rpos = i\<rparr> = Inr (a, r')"
  then obtain c r where c: "m \<lparr>rbuf = b, rpos = i\<rparr> = Inr (c, r)" "f i c r = Inr (a, r')"
    by (auto simp: read_then_def read_pos_def bind_result_eq_Inr)
  from f [OF c(1)] c(2) have f': "f i c = read_ok a" "r' = r"
    by (auto simp: read_ok_def read_err_def fun_eq_iff)
  with ahead_Inr [OF m(1) i c(1)] show "rbuf r' = b \<and> i + n \<le> rpos r' \<and> rpos r' \<le> length b \<and>
      (\<forall>ext. read_then read_pos (\<lambda>i. read_then m (f i)) \<lparr>rbuf = b @ ext, rpos = i\<rparr> =
        Inr (a, \<lparr>rbuf = b @ ext, rpos = rpos r'\<rparr>))"
    by (simp add: read_then_def read_pos_def read_ok_def)
next
  fix b i e
  assume i: "i \<le> length b" and e: "read_then read_pos (\<lambda>i. read_then m (f i)) \<lparr>rbuf = b, rpos = i\<rparr> = Inl e"
  show "error_in \<lparr>rbuf = b, rpos = i\<rparr> e"
  proof (cases "m \<lparr>rbuf = b, rpos = i\<rparr>")
    case (Inl e')
    with e ahead_Inl [OF m(1) i] show ?thesis by (simp add: read_then_def read_pos_def)
  next
    case (Inr cr)
    obtain c r where cr: "cr = (c, r)" by (cases cr)
    from ahead_Inr [OF m(1) i Inr [unfolded cr]] m(2) have "i < length b" by simp
    with f [OF Inr [unfolded cr]] e Inr cr show ?thesis
      by (auto simp: read_then_def read_pos_def read_ok_def read_err_def)
  qed
qed

lemma ahead_conflict_range: "ahead 4 read_conflict_range"
  unfolding read_conflict_range_def
proof (rule ahead_located [OF ahead_key_range])
  fix b i a r
  assume "read_key_range \<lparr>rbuf = b, rpos = i\<rparr> = Inr (a, r)"
  then show "(\<exists>x. expand_range i a = read_ok x) \<or>
      (\<exists>e. expand_range i a = read_err e \<and> (i < length b \<longrightarrow> error_in \<lparr>rbuf = b, rpos = i\<rparr> e))"
    by (cases a) (auto simp: expand_range_def bad_range_def)
qed simp

lemma ahead_mutation: "ahead 1 read_mutation"
proof -
  have "ahead 1 read_mutation_fields" unfolding read_mutation_fields_def by (rule ahead_rules)+
  then show ?thesis unfolding read_mutation_def
  proof (rule ahead_located)
    fix b i m r
    assume "read_mutation_fields \<lparr>rbuf = b, rpos = i\<rparr> = Inr (m, r)"
    then show "(\<exists>x. read_then (strip_checksum i m) (\<lambda>m. read_ok (expand_clear m)) = read_ok x) \<or>
        (\<exists>e. read_then (strip_checksum i m) (\<lambda>m. read_ok (expand_clear m)) = read_err e \<and>
          (i < length b \<longrightarrow> error_in \<lparr>rbuf = b, rpos = i\<rparr> e))"
      by (auto simp: strip_checksum_def Let_def bad_mutation_def CHECKSUM_LEN_def ACCUMULATIVE_CHECKSUM_INDEX_LEN_def)
  qed simp
qed

lemma ahead_checked:
  assumes m: "ahead n m" and f: "\<And>a. ok a \<Longrightarrow> ahead 0 (f a)"
    and err: "\<And>b i a r. m \<lparr>rbuf = b, rpos = i\<rparr> = Inr (a, r) \<Longrightarrow> i \<le> length b \<Longrightarrow> \<not> ok a \<Longrightarrow>
      error_in \<lparr>rbuf = b, rpos = i\<rparr> (err a)"
  shows "ahead n (read_then m (\<lambda>a. if ok a then f a else read_err (err a)))"
proof (rule aheadI)
  let ?f = "\<lambda>a. if ok a then f a else read_ok undefined"
  have whole: "ahead n (read_then m ?f)" using m f by (intro ahead_first) (simp_all add: ahead_ok)
  fix b i a r'
  assume i: "i \<le> length b" and r: "read_then m (\<lambda>a. if ok a then f a else read_err (err a)) \<lparr>rbuf = b, rpos = i\<rparr> = Inr (a, r')"
  then obtain c r where c: "m \<lparr>rbuf = b, rpos = i\<rparr> = Inr (c, r)" "ok c" "f c r = Inr (a, r')"
    by (auto simp: read_then_def bind_result_eq_Inr read_err_def split: if_splits)
  then have "read_then m ?f \<lparr>rbuf = b, rpos = i\<rparr> = Inr (a, r')" by (simp add: read_then_def)
  from ahead_Inr [OF whole i this] show "rbuf r' = b \<and> i + n \<le> rpos r' \<and> rpos r' \<le> length b \<and>
      (\<forall>ext. read_then m (\<lambda>a. if ok a then f a else read_err (err a)) \<lparr>rbuf = b @ ext, rpos = i\<rparr> =
        Inr (a, \<lparr>rbuf = b @ ext, rpos = rpos r'\<rparr>))"
    using ahead_Inr(4) [OF m i c(1)] c(2) by (simp add: read_then_def)
next
  let ?f = "\<lambda>a. if ok a then f a else read_ok undefined"
  have whole: "ahead n (read_then m ?f)" using m f by (intro ahead_first) (simp_all add: ahead_ok)
  fix b i e
  assume i: "i \<le> length b" and e: "read_then m (\<lambda>a. if ok a then f a else read_err (err a)) \<lparr>rbuf = b, rpos = i\<rparr> = Inl e"
  show "error_in \<lparr>rbuf = b, rpos = i\<rparr> e"
  proof (cases "\<exists>c r. m \<lparr>rbuf = b, rpos = i\<rparr> = Inr (c, r) \<and> \<not> ok c")
    case True
    with e err i show ?thesis by (auto simp: read_then_def read_err_def)
  next
    case False
    with e have "read_then m ?f \<lparr>rbuf = b, rpos = i\<rparr> = Inl e"
      by (auto simp: read_then_def bind_result_def split: sum.splits)
    from ahead_Inl [OF whole i this] show ?thesis .
  qed
qed

lemma ahead_span_context: "ahead 8 (read_span_context version)"
  unfolding read_span_context_def by (rule ahead_rules ahead_if)+

lemma ahead_commit_request: "ahead 4 (read_commit_request version)"
  unfolding read_commit_request_def
  by (rule ahead_rules ahead_vec ahead_conflict_range ahead_mutation ahead_span_context)+

lemmas event_codes = EVENT_GET_VERSION_def EVENT_GET_def EVENT_GET_RANGE_def EVENT_COMMIT_def
  EVENT_ERROR_GET_def EVENT_ERROR_GET_RANGE_def EVENT_ERROR_COMMIT_def

lemma event_code_range:
  "sint EVENT_GET_VERSION \<le> sint (t :: i32) \<and> sint t \<le> sint EVENT_ERROR_COMMIT \<longleftrightarrow> t \<in> {0..6}"
proof -
  have u: "0 \<le> uint t" "uint t < 4294967296" using unsigned_less [of t, where ?'a = int] by simp_all
  have m: "(u + 2147483648) mod 4294967296 = (if u < 2147483648 then u + 2147483648 else u - 2147483648)"
    if "0 \<le> u" "u < 4294967296" for u :: int
    using that mod_pos_pos_trivial [of "u + 2147483648" 4294967296]
      mod_pos_pos_trivial [of "u - 2147483648" 4294967296] minus_mod_self2 [of "u + 2147483648" 4294967296]
    by (cases "u < 2147483648") simp_all
  have "sint (word_of_int (uint t) :: i32) = (uint t + 2147483648) mod 4294967296 - 2147483648"
    using int_word_sint [of "uint t", where 'a = 32] by (simp del: word_of_int_uint)
  then have "sint t = (if uint t < 2147483648 then uint t else uint t - 4294967296)"
    by (simp only: m [OF u] word_of_int_uint) simp
  moreover have "t \<in> {0..6} \<longleftrightarrow> uint t \<le> 6" by (simp add: word_le_def)
  ultimately show ?thesis using u by (auto simp: event_codes)
qed

lemma event_code_cases:
  assumes "t \<in> {0..6}"
  shows "t = 0 \<or> t = 1 \<or> t = 2 \<or> t = 3 \<or> t = 4 \<or> t = 5 \<or> t = (6 :: i32)"
proof -
  have "unat t \<le> 6" using assms by (simp add: word_le_nat_alt)
  then have "unat t = 0 \<or> unat t = 1 \<or> unat t = 2 \<or> unat t = 3 \<or> unat t = 4 \<or> unat t = 5 \<or> unat t = 6"
    by linarith
  then show ?thesis by (simp add: word_unat_eq_iff)
qed

lemma ahead_cond: "(c \<Longrightarrow> ahead n m) \<Longrightarrow> (\<not> c \<Longrightarrow> ahead n m') \<Longrightarrow> ahead n (if c then m else m')"
  by simp

lemma ahead_event_body:
  assumes "t \<in> {0..6}"
  shows "ahead 0 (read_event_body version t header)"
  unfolding read_event_body_def
proof (intro ahead_cond)
  assume "t \<noteq> EVENT_GET_VERSION" "t \<noteq> EVENT_GET" "t \<noteq> EVENT_GET_RANGE" "t \<noteq> EVENT_COMMIT"
    "t \<noteq> EVENT_ERROR_GET" "t \<noteq> EVENT_ERROR_GET_RANGE" "t \<noteq> EVENT_ERROR_COMMIT"
  with event_code_cases [OF assms] show "ahead 0 (read_err (UnknownEventType t))"
    by (auto simp: event_codes)
qed (rule ahead_rules ahead_key_range ahead_commit_request)+

lemma ahead_event: "ahead 4 (read_event version)"
proof -
  have "ahead 4 (read_then read_i32 (\<lambda>t. if t \<in> {0..6} then read_then read_header (read_event_body version t)
      else read_err (UnknownEventType t)))"
  proof (rule ahead_checked [OF ahead_scalars(4)])
    fix b i t r
    assume "read_i32 \<lparr>rbuf = b, rpos = i\<rparr> = Inr (t, r)" "i \<le> length b" "t \<notin> {0..6}"
    then show "error_in \<lparr>rbuf = b, rpos = i\<rparr> (UnknownEventType t)" by auto
  qed (rule ahead_then_0 [OF ahead_header ahead_event_body])
  moreover have "(if \<not> c then x else y) = (if c then y else x)" for c and x y :: "event read" by simp
  ultimately show ?thesis unfolding read_event_def event_code_range by (simp only:)
qed

section \<open>The events of a blob\<close>

function decode_loop :: "protocol_version \<Rightarrow> reader \<Rightarrow> event list \<Rightarrow> decode_error + event list" where
  "decode_loop version r events =
     (if reader_is_empty r then Inr events
      else bind_result (read_event version r) (\<lambda>(e, r'). decode_loop version r' (events @ [e])))"
  by pat_completeness auto
termination
proof (relation "measure (\<lambda>(_, r, _). remaining r)")
  fix version r events x e r'
  assume r: "\<not> reader_is_empty r" and x: "read_event version r = Inr x" "(e, r') = x"
  obtain b i where bi: "r = \<lparr>rbuf = b, rpos = i\<rparr>" by (cases r)
  from r have "i < length b" by (simp add: bi reader_is_empty_def remaining_def)
  with ahead_Inr [OF ahead_event, of i b version e r'] x bi
  show "((version, r', events @ [e]), version, r, events) \<in> measure (\<lambda>(_, r, _). remaining r)"
    by (auto simp: remaining_def)
qed simp

declare decode_loop.simps [simp del]

definition decode_events :: "bytes \<Rightarrow> decode_error + protocol_version \<times> event list" where
  "decode_events blob =
     bind_result (read_u64 (reader_new blob)) (\<lambda>(v, r).
       let version = ProtocolVersion v
       in if \<not> is_supported version then Inl (UnsupportedProtocolVersion v)
          else bind_result (decode_loop version r []) (\<lambda>events. Inr (version, events)))"

lemma event_step:
  assumes "i \<le> length b"
  obtains (failed) e where "read_event version \<lparr>rbuf = b, rpos = i\<rparr> = Inl e" "error_in \<lparr>rbuf = b, rpos = i\<rparr> e"
  | (read) e j where "read_event version \<lparr>rbuf = b, rpos = i\<rparr> = Inr (e, \<lparr>rbuf = b, rpos = j\<rparr>)"
    "i + 4 \<le> j" "j \<le> length b"
    "\<And>ext. read_event version \<lparr>rbuf = b @ ext, rpos = i\<rparr> = Inr (e, \<lparr>rbuf = b @ ext, rpos = j\<rparr>)"
proof (cases "read_event version \<lparr>rbuf = b, rpos = i\<rparr>")
  case (Inl e)
  from failed [OF this ahead_Inl [OF ahead_event assms Inl]] show ?thesis .
next
  case (Inr er)
  obtain e r' where er: "er = (e, r')" by (cases er)
  note step = ahead_Inr [OF ahead_event assms Inr [unfolded er]]
  have "r' = \<lparr>rbuf = b, rpos = rpos r'\<rparr>" using step(1) by (cases r') simp
  with Inr er step(2-4) show ?thesis by (intro read) simp_all
qed

lemma decode_loop_end [simp]: "decode_loop version \<lparr>rbuf = b, rpos = length b\<rparr> events = Inr events"
  by (subst decode_loop.simps) (simp add: reader_is_empty_def remaining_def)

lemma decode_loop_next:
  assumes "i < length b" and "read_event version \<lparr>rbuf = b, rpos = i\<rparr> = Inr (e, \<lparr>rbuf = b, rpos = j\<rparr>)"
  shows "decode_loop version \<lparr>rbuf = b, rpos = i\<rparr> events = decode_loop version \<lparr>rbuf = b, rpos = j\<rparr> (events @ [e])"
  using assms by (subst decode_loop.simps) (simp add: reader_is_empty_def remaining_def)

lemma decode_loop_fails:
  assumes "i < length b" and "read_event version \<lparr>rbuf = b, rpos = i\<rparr> = Inl e"
  shows "decode_loop version \<lparr>rbuf = b, rpos = i\<rparr> events = Inl e"
  using assms by (subst decode_loop.simps) (simp add: reader_is_empty_def remaining_def)

lemma loop_error:
  "i \<le> length b \<Longrightarrow> decode_loop version \<lparr>rbuf = b, rpos = i\<rparr> events = Inl err \<Longrightarrow> error_in \<lparr>rbuf = b, rpos = i\<rparr> err"
proof (induction "length b - i" arbitrary: i events rule: less_induct)
  case less
  have i: "i < length b" using less.prems by (cases "i = length b") auto
  from less.prems(1) show ?case
  proof (cases rule: event_step [where version = version])
    case (failed e)
    with less.prems(2) decode_loop_fails [OF i] show ?thesis by simp
  next
    case (read e j)
    have "length b - j < length b - i" using read(2) i by linarith
    from less.hyps [OF this read(3)] less.prems(2) decode_loop_next [OF i read(1)]
    have "error_in \<lparr>rbuf = b, rpos = j\<rparr> err" by simp
    with read(2) show ?thesis by (auto intro: error_in_later)
  qed
qed

lemma loop_grows:
  "i \<le> length b \<Longrightarrow> decode_loop version \<lparr>rbuf = b, rpos = i\<rparr> events = Inr es \<Longrightarrow>
    \<exists>new. es = events @ new \<and> i + 4 * length new \<le> length b \<and> (i < length b \<longrightarrow> new \<noteq> [])"
proof (induction "length b - i" arbitrary: i events rule: less_induct)
  case less
  show ?case
  proof (cases "i = length b")
    case True
    with less.prems show ?thesis by simp
  next
    case False
    then have i: "i < length b" using less.prems by simp
    from less.prems(1) show ?thesis
    proof (cases rule: event_step [where version = version])
      case (failed e)
      with less.prems(2) decode_loop_fails [OF i] show ?thesis by simp
    next
      case (read e j)
      have "length b - j < length b - i" using read(2) i by linarith
      from less.hyps [OF this read(3)] less.prems(2) decode_loop_next [OF i read(1)]
      obtain new where "es = (events @ [e]) @ new" "j + 4 * length new \<le> length b" by metis
      with read(2) show ?thesis by (intro exI [of _ "e # new"]) simp
    qed
  qed
qed

lemma loop_truncated:
  "i \<le> length b \<Longrightarrow> ext \<noteq> [] \<Longrightarrow> decode_loop version \<lparr>rbuf = b, rpos = i\<rparr> events = Inr es \<Longrightarrow>
    decode_loop version \<lparr>rbuf = b @ ext, rpos = i\<rparr> events = Inr es2 \<Longrightarrow> \<exists>more. es2 = es @ more \<and> more \<noteq> []"
proof (induction "length b - i" arbitrary: i events rule: less_induct)
  case less
  show ?case
  proof (cases "i = length b")
    case True
    with less.prems(3) have "es = events" by simp
    with loop_grows [of i "b @ ext", OF _ less.prems(4)] less.prems(1,2) True show ?thesis by auto
  next
    case False
    then have i: "i < length b" using less.prems by simp
    from less.prems(1) show ?thesis
    proof (cases rule: event_step [where version = version])
      case (failed e)
      with less.prems(3) decode_loop_fails [OF i] show ?thesis by simp
    next
      case (read e j)
      have "decode_loop version \<lparr>rbuf = b @ ext, rpos = j\<rparr> (events @ [e]) = Inr es2"
        using decode_loop_next [of i "b @ ext", OF _ read(4)] i less.prems(4) by simp
      moreover have "decode_loop version \<lparr>rbuf = b, rpos = j\<rparr> (events @ [e]) = Inr es"
        using decode_loop_next [OF i read(1)] less.prems(3) by simp
      moreover have "length b - j < length b - i" using read(2) i by linarith
      ultimately show ?thesis using less.hyps read(3) less.prems(2) by blast
    qed
  qed
qed

end
