(* ===== verification/Profile_Reader.thy ===== *)
theory Profile_Reader
  imports Profile_Decode "HOL-Library.AList"
begin

text \<open>
  The paged reader of profiling data (\<^verbatim>\<open>foundationdb-profiling/src/reader.rs\<close>): cursors
  and scan ranges, chunk keys, the assembler that joins the chunks of each transaction, and pages
  with the position to resume from.  A hash map is an association list, the row stream is the
  list of what it yields, and the caller's stop check is a function of the number of its calls.
\<close>

section \<open>Cursors and ranges\<close>

definition PROFILE_PREFIX :: bytes where
  "PROFILE_PREFIX = [255, 2, 47, 102, 100, 98, 67, 108, 105, 101, 110, 116, 73, 110, 102, 111, 47, 99, 108, 105, 101, 110, 116, 95, 108, 97, 116, 101, 110, 99, 121, 47]"

definition PROFILE_END :: bytes where
  "PROFILE_END = [255, 2, 47, 102, 100, 98, 67, 108, 105, 101, 110, 116, 73, 110, 102, 111, 47, 99, 108, 105, 101, 110, 116, 95, 108, 97, 116, 101, 110, 99, 121, 48]"

definition VERSIONSTAMP_LEN :: nat where "VERSIONSTAMP_LEN = 10"
definition ID_LEN :: nat where "ID_LEN = 16"
definition VERSIONSTAMP_START :: nat where "VERSIONSTAMP_START = length PROFILE_PREFIX"
definition VERSIONSTAMP_END :: nat where "VERSIONSTAMP_END = VERSIONSTAMP_START + VERSIONSTAMP_LEN"
definition ID_START :: nat where "ID_START = VERSIONSTAMP_END + 1"
definition ID_END :: nat where "ID_END = ID_START + ID_LEN"
definition CHUNK_START :: nat where "CHUNK_START = ID_END + 1"
definition TOTAL_START :: nat where "TOTAL_START = CHUNK_START + 4"
definition MIN_KEY_LEN :: nat where "MIN_KEY_LEN = TOTAL_START + 4"

datatype cursor = Cursor (cursor_key: bytes)

datatype invalid_cursor = InvalidCursor

text \<open>The versions are signed: a negative one counts as 0.\<close>

definition version_key :: "i64 \<Rightarrow> bytes" where
  "version_key version =
     PROFILE_PREFIX @ to_be_bytes (if sint version < 0 then 0 else version) @ [0, 0]"

definition key_after :: "bytes \<Rightarrow> bytes" where
  "key_after key = key @ [0]"

definition cursor_beginning :: cursor where
  "cursor_beginning = Cursor PROFILE_PREFIX"

definition cursor_at_version :: "i64 \<Rightarrow> cursor" where
  "cursor_at_version version = Cursor (version_key version)"

definition cursor_as_bytes :: "cursor \<Rightarrow> bytes" where
  "cursor_as_bytes c = cursor_key c"

definition cursor_from_bytes :: "bytes \<Rightarrow> invalid_cursor + cursor" where
  "cursor_from_bytes b = (if take (length PROFILE_PREFIX) b = PROFILE_PREFIX then Inr (Cursor b) else Inl InvalidCursor)"

record scanner =
  scan_end_version :: "i64 option"

definition scanner_new :: scanner where
  "scanner_new = \<lparr>scan_end_version = None\<rparr>"

definition with_end_version :: "i64 \<Rightarrow> scanner \<Rightarrow> scanner" where
  "with_end_version version s = \<lparr>scan_end_version = Some version\<rparr>"

record scan_range =
  scan_begin :: bytes
  scan_end :: bytes

definition range_at :: "scanner \<Rightarrow> cursor \<Rightarrow> scan_range" where
  "range_at s c =
     (let b = cursor_key c;
          e = (case scan_end_version s of Some version \<Rightarrow> version_key version | None \<Rightarrow> PROFILE_END);
          e = max e b
      in \<lparr>scan_begin = b, scan_end = e\<rparr>)"

datatype 'e scan_error = Source 'e | InvalidRows bytes

definition into_error :: "('e \<Rightarrow> 't) \<Rightarrow> (unit scan_error \<Rightarrow> 't) \<Rightarrow> 'e scan_error \<Rightarrow> 't" where
  "into_error from custom err =
     (case err of Source e \<Rightarrow> from e | InvalidRows key \<Rightarrow> custom (InvalidRows key))"

section \<open>Chunk keys\<close>

record chunk_key =
  ck_versionstamp :: bytes
  ck_id :: bytes
  ck_chunk :: u32
  ck_total :: u32

definition sub_bytes :: "bytes \<Rightarrow> nat \<Rightarrow> nat \<Rightarrow> bytes" where
  "sub_bytes b i j = take (j - i) (drop i b)"

definition parse_chunk_key :: "bytes \<Rightarrow> chunk_key option" where
  "parse_chunk_key key =
     (if length key < MIN_KEY_LEN \<or> take (length PROFILE_PREFIX) key \<noteq> PROFILE_PREFIX \<or>
         key ! VERSIONSTAMP_END \<noteq> 47 \<or> key ! ID_END \<noteq> 47
      then None
      else Some \<lparr>ck_versionstamp = sub_bytes key VERSIONSTAMP_START VERSIONSTAMP_END,
        ck_id = sub_bytes key ID_START ID_END,
        ck_chunk = from_be_bytes (sub_bytes key CHUNK_START (CHUNK_START + 4)),
        ck_total = from_be_bytes (sub_bytes key TOTAL_START (TOTAL_START + 4))\<rparr>)"

definition version_of :: "bytes \<Rightarrow> i64" where
  "version_of versionstamp = from_be_bytes (take 8 versionstamp)"

section \<open>The assembler\<close>

datatype assembled =
    Complete bytes bytes bytes
  | Broken bytes bytes

record outputs =
  out_first :: bytes
  out_last :: bytes
  out_assembled :: assembled

record partial =
  p_first :: bytes
  p_id :: bytes
  p_versionstamp :: bytes
  p_last_versionstamp :: bytes
  p_total :: u32
  p_next_chunk :: u32
  p_blob :: bytes

record assembler =
  start :: cursor
  partials :: "(bytes \<times> partial) list"
  broken :: "(bytes \<times> nat) list"
  outs :: "outputs list"
  last_key :: "bytes option"

definition assembler_new :: "cursor \<Rightarrow> assembler" where
  "assembler_new c = \<lparr>start = c, partials = [], broken = [], outs = [], last_key = None\<rparr>"

definition push_output :: "outputs \<Rightarrow> assembler \<Rightarrow> assembler" where
  "push_output out a = a\<lparr>outs := outs a @ [out]\<rparr>"

definition report_broken :: "bytes \<Rightarrow> bytes \<Rightarrow> bytes \<Rightarrow> bytes \<Rightarrow> assembler \<Rightarrow> assembler" where
  "report_broken first_key versionstamp tid key a =
     (case map_of (broken a) tid of
        Some index \<Rightarrow>
          if index < length (outs a)
          then a\<lparr>outs := (outs a)[index := (outs a ! index)\<lparr>out_last := key\<rparr>]\<rparr> else a
      | None \<Rightarrow> push_output \<lparr>out_first = first_key, out_last = key, out_assembled = Broken versionstamp tid\<rparr>
          (a\<lparr>broken := AList.update tid (length (outs a)) (broken a)\<rparr>))"

text \<open>The first part of \<^verbatim>\<open>process\<close>, for an id with a pending transaction, and the rest.\<close>

definition continue_partial :: "chunk_key \<Rightarrow> bytes \<Rightarrow> bytes \<Rightarrow> partial \<Rightarrow> assembler \<Rightarrow> assembler" where
  "continue_partial parsed key v p a =
     (let p = p\<lparr>p_blob := p_blob p @ v\<rparr>
      in if ck_chunk parsed = p_total p
         then push_output \<lparr>out_first = p_first p, out_last = key,
           out_assembled = Complete (p_versionstamp p) (ck_id parsed) (p_blob p)\<rparr> a
         else a\<lparr>partials := AList.update (ck_id parsed)
           (p\<lparr>p_next_chunk := p_next_chunk p + 1, p_last_versionstamp := ck_versionstamp parsed\<rparr>) (partials a)\<rparr>)"

definition begin_chunk :: "chunk_key \<Rightarrow> bytes \<Rightarrow> bytes \<Rightarrow> assembler \<Rightarrow> assembler" where
  "begin_chunk parsed key v a =
     (let a = (if ck_chunk parsed = 1 \<and> ck_total parsed \<ge> 1
               then a\<lparr>broken := AList.delete (ck_id parsed) (broken a)\<rparr> else a)
      in if ck_chunk parsed = 1 \<and> ck_total parsed = 1
         then push_output \<lparr>out_first = key, out_last = key,
           out_assembled = Complete (ck_versionstamp parsed) (ck_id parsed) v\<rparr> a
         else if ck_chunk parsed = 1 \<and> ck_total parsed > 1
         then a\<lparr>partials := AList.update (ck_id parsed)
           \<lparr>p_first = key, p_id = ck_id parsed, p_versionstamp = ck_versionstamp parsed,
            p_last_versionstamp = ck_versionstamp parsed, p_total = ck_total parsed, p_next_chunk = 2,
            p_blob = v\<rparr> (partials a)\<rparr>
         else report_broken key (ck_versionstamp parsed) (ck_id parsed) key a)"

definition continues :: "chunk_key \<Rightarrow> partial \<Rightarrow> bool" where
  "continues parsed p \<longleftrightarrow> ck_total parsed = p_total p \<and> ck_chunk parsed = p_next_chunk p \<and>
     ck_versionstamp parsed \<ge> p_last_versionstamp p"

definition process :: "chunk_key \<Rightarrow> bytes \<Rightarrow> bytes \<Rightarrow> assembler \<Rightarrow> assembler" where
  "process parsed key v a =
     (case map_of (partials a) (ck_id parsed) of
        Some p \<Rightarrow>
          let a = a\<lparr>partials := AList.delete (ck_id parsed) (partials a)\<rparr>
          in if continues parsed p then continue_partial parsed key v p a
             else begin_chunk parsed key v (report_broken (p_first p) (p_versionstamp p) (ck_id parsed) key a)
      | None \<Rightarrow> begin_chunk parsed key v a)"

definition push :: "bytes \<Rightarrow> bytes \<Rightarrow> assembler \<Rightarrow> assembler" where
  "push key v a =
     (let a = a\<lparr>last_key := Some key\<rparr>
      in case parse_chunk_key key of Some parsed \<Rightarrow> process parsed key v a | None \<Rightarrow> a)"

section \<open>Pages\<close>

record profiled_transaction =
  pt_version :: i64
  pt_versionstamp :: bytes
  pt_id :: bytes
  pt_protocol_version :: protocol_version
  pt_events :: "event list"

datatype skip_reason = SkipDecode decode_error | BrokenChunks

record skipped =
  sk_versionstamp :: bytes
  sk_id :: bytes
  sk_reason :: skip_reason

record page_result =
  transactions :: "profiled_transaction list"
  skipped_list :: "skipped list"
  next_cursor :: cursor
  exhausted :: bool

fun cut_loop :: "outputs list \<Rightarrow> nat list \<Rightarrow> bytes \<Rightarrow> nat list \<Rightarrow> bytes \<times> nat list" where
  "cut_loop os [] c dropped = (c, dropped)"
| "cut_loop os (index # rest) c dropped =
     (let output = os ! index
      in if out_last output < c then (c, dropped)
         else cut_loop os rest (if out_first output < c then out_first output else c) (dropped @ [index]))"

text \<open>A stable sort in descending order is the reverse of a stable sort of the reverse.\<close>

definition cut :: "outputs list \<Rightarrow> bytes \<Rightarrow> bytes \<times> nat list" where
  "cut os c = cut_loop os (rev (sort_key (\<lambda>i. out_last (os ! i)) (rev [0..<length os]))) c []"

definition broken_output :: "partial \<Rightarrow> outputs" where
  "broken_output p = \<lparr>out_first = p_first p, out_last = p_first p, out_assembled = Broken (p_versionstamp p) (p_id p)\<rparr>"

text \<open>
  Where the page resumes, the outputs with those of the broken transactions added, and which of
  them the page keeps.
\<close>

definition settle :: "bool \<Rightarrow> assembler \<Rightarrow> bytes \<times> (outputs \<times> bool) list" where
  "settle stopped a =
     (let pending = sort_key p_first (map snd (partials a));
          after_last = (case last_key a of Some l \<Rightarrow> key_after l | None \<Rightarrow> cursor_key (start a));
          all_kept = map (\<lambda>out. (out, True)) (outs a);
          resume_after = (after_last, all_kept @ map (\<lambda>p. (broken_output p, True)) pending)
      in case pending of
           [] \<Rightarrow> resume_after
         | oldest # _ \<Rightarrow>
             let (c, dropped) = cut (outs a) (p_first oldest)
             in if stopped \<and> c \<le> cursor_key (start a) then resume_after
                else (c, map (\<lambda>(i, out). (out, i \<notin> set dropped)) (enumerate 0 (outs a))))"

definition report :: "(outputs \<times> bool) list \<Rightarrow> profiled_transaction list \<times> skipped list" where
  "report os = fold (\<lambda>(out, kept) (txs, skips).
     if \<not> kept then (txs, skips)
     else case out_assembled out of
        Complete vs tid blob \<Rightarrow>
          (case decode_events blob of
             Inr (version, events) \<Rightarrow> (txs @ [\<lparr>pt_version = version_of vs, pt_versionstamp = vs, pt_id = tid,
               pt_protocol_version = version, pt_events = events\<rparr>], skips)
           | Inl err \<Rightarrow> (txs, skips @ [\<lparr>sk_versionstamp = vs, sk_id = tid, sk_reason = SkipDecode err\<rparr>]))
      | Broken vs tid \<Rightarrow> (txs, skips @ [\<lparr>sk_versionstamp = vs, sk_id = tid, sk_reason = BrokenChunks\<rparr>])) os ([], [])"

definition finish :: "bool \<Rightarrow> assembler \<Rightarrow> page_result" where
  "finish stopped a =
     (let (next, os) = settle stopped a; (txs, skips) = report os
      in \<lparr>transactions = txs, skipped_list = skips, next_cursor = Cursor next, exhausted = \<not> stopped\<rparr>)"

fun read_rows ::
    "scan_range \<Rightarrow> (nat \<Rightarrow> bool) \<Rightarrow> nat \<Rightarrow> ('e + bytes \<times> bytes) list \<Rightarrow> assembler \<Rightarrow> 'e scan_error + page_result" where
  "read_rows rg should_stop n [] a = Inr (finish False a)"
| "read_rows rg should_stop n (Inl e # rows) a = Inl (Source e)"
| "read_rows rg should_stop n (Inr (key, v) # rows) a =
     (let in_order = (case last_key a of None \<Rightarrow> True | Some l \<Rightarrow> key > l)
      in if key < scan_begin rg \<or> key \<ge> scan_end rg \<or> \<not> in_order then Inl (InvalidRows key)
         else let a = push key v a
              in if should_stop n then Inr (finish True a)
                 else read_rows rg should_stop (Suc n) rows a)"

definition read_page ::
    "scanner \<Rightarrow> cursor \<Rightarrow> ('e + bytes \<times> bytes) list \<Rightarrow> (nat \<Rightarrow> bool) \<Rightarrow> 'e scan_error + page_result" where
  "read_page s c rows should_stop = read_rows (range_at s c) should_stop 0 rows (assembler_new c)"

end
