(* ===== verification/Profile_Assembler.thy ===== *)
theory Profile_Assembler
  imports Profile_Reader
begin

text \<open>
  What the assembler keeps: the pending and complete transactions do not depend on the reports of
  broken ones, and a transaction that was pending at a key stays pending or leaves an output there.
\<close>

section \<open>The assembler without its reports\<close>

text \<open>
  The pending transactions and the complete ones do not depend on what was reported as broken.
\<close>

type_synonym rows = "(bytes \<times> bytes) list"
type_synonym pending = "bytes \<rightharpoonup> partial"

definition core_begin :: "chunk_key \<Rightarrow> bytes \<Rightarrow> bytes \<Rightarrow> pending \<Rightarrow> pending \<times> (bytes \<times> assembled) list" where
  "core_begin parsed key v m =
     (if ck_chunk parsed = 1 \<and> ck_total parsed = 1
      then (m, [(key, Complete (ck_versionstamp parsed) (ck_id parsed) v)])
      else if ck_chunk parsed = 1 \<and> ck_total parsed > 1
      then (m(ck_id parsed \<mapsto>
        \<lparr>p_first = key, p_id = ck_id parsed, p_versionstamp = ck_versionstamp parsed,
         p_last_versionstamp = ck_versionstamp parsed, p_total = ck_total parsed, p_next_chunk = 2,
         p_blob = v\<rparr>), [])
      else (m, []))"

definition core_step :: "bytes \<Rightarrow> bytes \<Rightarrow> pending \<Rightarrow> pending \<times> (bytes \<times> assembled) list" where
  "core_step key v m =
     (case parse_chunk_key key of
        None \<Rightarrow> (m, [])
      | Some parsed \<Rightarrow>
          (case m (ck_id parsed) of
             Some p \<Rightarrow>
               if continues parsed p
               then if ck_chunk parsed = p_total p
                 then (m(ck_id parsed := None),
                   [(key, Complete (p_versionstamp p) (ck_id parsed) (p_blob p @ v))])
                 else (m(ck_id parsed \<mapsto> p\<lparr>p_blob := p_blob p @ v, p_next_chunk := p_next_chunk p + 1,
                   p_last_versionstamp := ck_versionstamp parsed\<rparr>), [])
               else core_begin parsed key v (m(ck_id parsed := None))
           | None \<Rightarrow> core_begin parsed key v m))"

fun core_run :: "rows \<Rightarrow> pending \<Rightarrow> pending \<times> (bytes \<times> assembled) list" where
  "core_run [] m = (m, [])"
| "core_run ((key, v) # rows) m =
     (let (m', done1) = core_step key v m; (m'', done2) = core_run rows m' in (m'', done1 @ done2))"

lemma core_run_append:
  "core_run (xs @ ys) m =
    (let (m', done1) = core_run xs m; (m'', done2) = core_run ys m' in (m'', done1 @ done2))"
  by (induction xs arbitrary: m) (auto simp: Let_def split: prod.splits)

definition pending_after :: "rows \<Rightarrow> pending" where
  "pending_after rows = fst (core_run rows Map.empty)"

definition assembled_from :: "rows \<Rightarrow> (bytes \<times> assembled) list" where
  "assembled_from rows = snd (core_run rows Map.empty)"

lemma core_run_snoc:
  "pending_after (rows @ [(k, v)]) = fst (core_step k v (pending_after rows))"
  "assembled_from (rows @ [(k, v)]) = assembled_from rows @ snd (core_step k v (pending_after rows))"
  by (simp_all add: pending_after_def assembled_from_def core_run_append Let_def split: prod.split)

lemma restart:
  assumes "pending_after xs = Map.empty"
  shows "assembled_from (xs @ ys) = assembled_from xs @ assembled_from ys"
    and "pending_after (xs @ ys) = pending_after ys"
  using assms by (cases "core_run xs Map.empty"; simp add: pending_after_def assembled_from_def
      core_run_append Let_def split: prod.splits)+

section \<open>What the assembler keeps\<close>

definition is_complete :: "outputs \<Rightarrow> bool" where
  "is_complete out \<longleftrightarrow> (case out_assembled out of Complete _ _ _ \<Rightarrow> True | Broken _ _ \<Rightarrow> False)"

lemma is_complete_simps [simp]:
  "is_complete \<lparr>out_first = f, out_last = l, out_assembled = Complete vs tid blob\<rparr>"
  "\<not> is_complete \<lparr>out_first = f, out_last = l, out_assembled = Broken vs tid\<rparr>"
  "is_complete (out\<lparr>out_last := k\<rparr>) = is_complete out"
  by (simp_all add: is_complete_def)

definition completes :: "outputs list \<Rightarrow> (bytes \<times> assembled) list" where
  "completes os = map (\<lambda>out. (out_last out, out_assembled out)) (filter is_complete os)"

lemma completes_append: "completes (xs @ ys) = completes xs @ completes ys"
  by (simp add: completes_def)

lemma completes_update:
  assumes "i < length os" and "\<not> is_complete (os ! i)"
  shows "completes (os[i := (os ! i)\<lparr>out_last := k\<rparr>]) = completes os"
proof -
  have "os = take i os @ os ! i # drop (Suc i) os" using assms(1) by (rule id_take_nth_drop)
  moreover have "os[i := (os ! i)\<lparr>out_last := k\<rparr>] = take i os @ (os ! i)\<lparr>out_last := k\<rparr> # drop (Suc i) os"
    using assms(1) by (rule upd_conv_take_nth_drop)
  moreover have "\<not> is_complete ((os ! i)\<lparr>out_last := k\<rparr>)" using assms(2) by simp
  ultimately show ?thesis
    using assms(2) unfolding completes_def by (metis (no_types, lifting) filter.simps(2) filter_append)
qed

lemmas alist_simps = AList.update_conv' AList.delete_conv' AList.distinct_update AList.distinct_delete

text \<open>
  One row: \<open>asm_ok\<close> is the part of the invariant that the two halves of \<open>process\<close> preserve, for
  the set of keys known so far.
\<close>

definition asm_ok :: "bytes set \<Rightarrow> assembler \<Rightarrow> bool" where
  "asm_ok ks a \<longleftrightarrow>
     distinct (map fst (partials a)) \<and>
     (\<forall>tid p. map_of (partials a) tid = Some p \<longrightarrow>
        map_of (broken a) tid = None \<and> p_id p = tid \<and> p_first p \<in> ks) \<and>
     (\<forall>tid i. map_of (broken a) tid = Some i \<longrightarrow> i < length (outs a) \<and> \<not> is_complete (outs a ! i)) \<and>
     (\<forall>out \<in> set (outs a). out_first out \<in> ks \<and> out_last out \<in> ks)"

lemma asm_okD:
  assumes "asm_ok ks a"
  shows "distinct (map fst (partials a))"
    "map_of (partials a) tid = Some p \<Longrightarrow> map_of (broken a) tid = None"
    "map_of (partials a) tid = Some p \<Longrightarrow> p_id p = tid"
    "map_of (partials a) tid = Some p \<Longrightarrow> p_first p \<in> ks"
    "map_of (broken a) tid = Some i \<Longrightarrow> i < length (outs a)"
    "map_of (broken a) tid = Some i \<Longrightarrow> \<not> is_complete (outs a ! i)"
    "out \<in> set (outs a) \<Longrightarrow> out_first out \<in> ks"
    "out \<in> set (outs a) \<Longrightarrow> out_last out \<in> ks"
  using assms unfolding asm_ok_def by blast+

lemma report_broken_ok:
  assumes ok: "asm_ok ks a" and "map_of (partials a) tid = None" and k: "f \<in> ks" "key \<in> ks"
  shows "asm_ok ks (report_broken f vs tid key a)" "partials (report_broken f vs tid key a) = partials a"
    "completes (outs (report_broken f vs tid key a)) = completes (outs a)"
proof -
  show "partials (report_broken f vs tid key a) = partials a"
    by (simp add: report_broken_def push_output_def split: option.split)
  show "completes (outs (report_broken f vs tid key a)) = completes (outs a)"
  proof (cases "map_of (broken a) tid")
    case (Some i)
    with asm_okD(5,6) [OF ok Some] show ?thesis by (simp add: report_broken_def completes_update)
  qed (simp add: report_broken_def push_output_def completes_def)
  show "asm_ok ks (report_broken f vs tid key a)"
  proof (cases "map_of (broken a) tid")
    case (Some i)
    note i = asm_okD(5,6) [OF ok Some]
    have "out_first out \<in> ks \<and> out_last out \<in> ks"
      if "out \<in> set ((outs a)[i := (outs a ! i)\<lparr>out_last := key\<rparr>])" for out
    proof -
      from that have "out \<in> set (outs a) \<or> out = (outs a ! i)\<lparr>out_last := key\<rparr>"
        using set_update_subset_insert by fast
      with asm_okD(7,8) [OF ok] nth_mem [OF i(1)] k show ?thesis by auto
    qed
    with i ok k show ?thesis
      unfolding asm_ok_def report_broken_def
      by (auto simp: Some nth_list_update)
  next
    case None
    with ok assms(2) k show ?thesis
      unfolding asm_ok_def report_broken_def push_output_def
      by (auto simp: alist_simps nth_append intro: less_SucI)
  qed
qed

lemma asm_ok_mono: "asm_ok ks a \<Longrightarrow> ks \<subseteq> ks' \<Longrightarrow> asm_ok ks' a"
  unfolding asm_ok_def by blast

lemma push_output_ok:
  "asm_ok ks a \<Longrightarrow> out_first out \<in> ks \<Longrightarrow> out_last out \<in> ks \<Longrightarrow> asm_ok ks (push_output out a)"
  unfolding asm_ok_def push_output_def by (auto simp: nth_append intro: less_SucI)

lemma insert_ok:
  assumes "asm_ok ks a" and "map_of (broken a) tid = None" and "p_id p = tid" and "p_first p \<in> ks"
  shows "asm_ok ks (a\<lparr>partials := AList.update tid p (partials a)\<rparr>)"
  using assms unfolding asm_ok_def by (simp add: alist_simps)

lemma remove_ok:
  assumes "asm_ok ks a"
  shows "asm_ok ks (a\<lparr>partials := AList.delete tid (partials a)\<rparr>)"
  using assms unfolding asm_ok_def by (simp add: alist_simps)

lemma forget_ok:
  assumes "asm_ok ks a"
  shows "asm_ok ks (a\<lparr>broken := AList.delete tid (broken a)\<rparr>)"
  using assms unfolding asm_ok_def by (auto simp: alist_simps simp del: map_of_eq_Some_iff)

text \<open>An assembler and a core state that agree, and what both add for a row.\<close>

definition agrees :: "assembler \<Rightarrow> assembler \<Rightarrow> pending \<times> (bytes \<times> assembled) list \<Rightarrow> bool" where
  "agrees a a' r \<longleftrightarrow> map_of (partials a') = fst r \<and> completes (outs a') = completes (outs a) @ snd r"

lemma begin_chunk_ok:
  assumes ok: "asm_ok ks a" and none: "map_of (partials a) (ck_id parsed) = None" and key: "key \<in> ks"
  shows "asm_ok ks (begin_chunk parsed key v a)"
    "agrees a (begin_chunk parsed key v a) (core_begin parsed key v (map_of (partials a)))"
proof -
  let ?a = "a\<lparr>broken := AList.delete (ck_id parsed) (broken a)\<rparr>"
  consider "ck_chunk parsed = 1" "ck_total parsed = 1" | "ck_chunk parsed = 1" "ck_total parsed > 1" "ck_total parsed \<noteq> 1" "ck_total parsed \<ge> 1"
    | "\<not> (ck_chunk parsed = 1 \<and> ck_total parsed \<ge> 1)"
    by (metis order_le_imp_less_or_eq order_less_imp_not_eq2)
  then have "asm_ok ks (begin_chunk parsed key v a) \<and>
    agrees a (begin_chunk parsed key v a) (core_begin parsed key v (map_of (partials a)))"
  proof cases
    case 1
    then show ?thesis
      using push_output_ok [OF forget_ok [OF ok]] key
      by (simp add: begin_chunk_def core_begin_def agrees_def push_output_def completes_def)
  next
    case 2
    then have "asm_ok ks (begin_chunk parsed key v a)"
      using insert_ok [OF forget_ok [OF ok, of "ck_id parsed"], of "ck_id parsed"] key
      by (simp add: begin_chunk_def alist_simps)
    with 2 show ?thesis
      by (simp add: begin_chunk_def core_begin_def agrees_def alist_simps)
  next
    case 3
    then have "begin_chunk parsed key v a = report_broken key (ck_versionstamp parsed) (ck_id parsed) key a"
      "core_begin parsed key v (map_of (partials a)) = (map_of (partials a), [])"
      by (auto simp: begin_chunk_def core_begin_def)
    with report_broken_ok [OF ok none key key] show ?thesis by (simp add: agrees_def)
  qed
  then show "asm_ok ks (begin_chunk parsed key v a)"
    "agrees a (begin_chunk parsed key v a) (core_begin parsed key v (map_of (partials a)))" by simp_all
qed

lemma process_ok:
  assumes ok: "asm_ok ks a" and key: "key \<in> ks" and parse: "parse_chunk_key key = Some parsed"
  shows "asm_ok ks (process parsed key v a)"
    "agrees a (process parsed key v a) (core_step key v (map_of (partials a)))"
proof -
  have "asm_ok ks (process parsed key v a) \<and> agrees a (process parsed key v a) (core_step key v (map_of (partials a)))"
  proof (cases "map_of (partials a) (ck_id parsed)")
    case None
    with begin_chunk_ok [OF ok None key] show ?thesis by (simp add: process_def core_step_def parse)
  next
    case (Some p)
    let ?a = "a\<lparr>partials := AList.delete (ck_id parsed) (partials a)\<rparr>"
    note p = asm_okD(2-4) [OF ok Some]
    have a: "asm_ok ks ?a" "map_of (partials ?a) (ck_id parsed) = None"
      using remove_ok [OF ok] by (simp_all add: alist_simps)
    show ?thesis
    proof (cases "continues parsed p")
      case True
      have "asm_ok ks (continue_partial parsed key v p ?a)"
        using push_output_ok [OF a(1)] insert_ok [OF a(1)] p key
        by (simp add: continue_partial_def Let_def)
      with True Some show ?thesis
        by (auto simp: process_def core_step_def parse continue_partial_def agrees_def push_output_def
            completes_def alist_simps Let_def)
    next
      case False
      let ?b = "report_broken (p_first p) (p_versionstamp p) (ck_id parsed) key ?a"
      note b = report_broken_ok [OF a p(3) key, of "p_versionstamp p"]
      from begin_chunk_ok [OF b(1) _ key, of parsed v] b(2,3) a(2) False Some show ?thesis
        by (simp add: process_def core_step_def parse agrees_def alist_simps)
    qed
  qed
  then show "asm_ok ks (process parsed key v a)"
    "agrees a (process parsed key v a) (core_step key v (map_of (partials a)))" by simp_all
qed

section \<open>Feeding rows\<close>

definition feed :: "rows \<Rightarrow> assembler \<Rightarrow> assembler" where
  "feed rows a = fold (\<lambda>(k, v). push k v) rows a"

definition last_of :: "rows \<Rightarrow> bytes option" where
  "last_of rows = (if rows = [] then None else Some (fst (last rows)))"

lemma frame:
  "start (report_broken f vs tid key a) = start a" "last_key (report_broken f vs tid key a) = last_key a"
  "start (begin_chunk parsed key v a) = start a" "last_key (begin_chunk parsed key v a) = last_key a"
  "start (continue_partial parsed key v p a) = start a" "last_key (continue_partial parsed key v p a) = last_key a"
  "start (process parsed key v a) = start a" "last_key (process parsed key v a) = last_key a"
proof -
  show r: "start (report_broken f vs tid key a) = start a" "last_key (report_broken f vs tid key a) = last_key a" for f vs tid a
    by (simp_all add: report_broken_def push_output_def split: option.split)
  show b: "start (begin_chunk parsed key v a) = start a" "last_key (begin_chunk parsed key v a) = last_key a" for a
    by (simp_all add: begin_chunk_def Let_def r push_output_def)
  show c: "start (continue_partial parsed key v p a) = start a" "last_key (continue_partial parsed key v p a) = last_key a" for p a
    by (simp_all add: continue_partial_def Let_def push_output_def)
  show "start (process parsed key v a) = start a" "last_key (process parsed key v a) = last_key a"
    by (simp_all add: process_def Let_def b c r split: option.split)
qed

lemma push_ok:
  assumes "asm_ok ks a"
  shows "asm_ok (insert k ks) (push k v a)" "agrees a (push k v a) (core_step k v (map_of (partials a)))"
    "start (push k v a) = start a" "last_key (push k v a) = Some k"
proof -
  let ?a = "a\<lparr>last_key := Some k\<rparr>"
  have ok: "asm_ok (insert k ks) ?a"
    using asm_ok_mono [OF assms subset_insertI] unfolding asm_ok_def by simp
  show "asm_ok (insert k ks) (push k v a)" "agrees a (push k v a) (core_step k v (map_of (partials a)))"
    using ok process_ok [OF ok insertI1]
    by (cases "parse_chunk_key k"; simp add: push_def agrees_def core_step_def)+
  show "start (push k v a) = start a" "last_key (push k v a) = Some k"
    by (cases "parse_chunk_key k"; simp add: push_def frame)+
qed

lemma feed_snoc: "feed (rows @ [(k, v)]) a = push k v (feed rows a)"
  by (simp add: feed_def)

lemma feed_ok:
  "asm_ok (fst ` set rows) (feed rows (assembler_new c)) \<and>
   map_of (partials (feed rows (assembler_new c))) = pending_after rows \<and>
   completes (outs (feed rows (assembler_new c))) = assembled_from rows \<and>
   start (feed rows (assembler_new c)) = c \<and> last_key (feed rows (assembler_new c)) = last_of rows"
proof (induction rows rule: rev_induct)
  case Nil
  show ?case
    by (simp add: feed_def assembler_new_def asm_ok_def pending_after_def assembled_from_def completes_def last_of_def)
next
  case (snoc kv rows)
  obtain k v where kv: "kv = (k, v)" by (cases kv)
  from snoc.IH have ok: "asm_ok (fst ` set rows) (feed rows (assembler_new c))" by blast
  from push_ok [OF ok, of k v] snoc.IH show ?case
    by (simp add: kv feed_snoc agrees_def core_run_snoc last_of_def)
qed

text \<open>
  A transaction whose first chunk is \<open>f\<close> and that was pending when the keys reached \<open>c\<close> stays
  pending or leaves an output from \<open>f\<close> to \<open>c\<close> or later.
\<close>

definition tracks :: "bytes \<Rightarrow> bytes \<Rightarrow> assembler \<Rightarrow> bool" where
  "tracks f c a \<longleftrightarrow> (\<exists>tid p. map_of (partials a) tid = Some p \<and> p_first p = f) \<or>
     (\<exists>out \<in> set (outs a). out_first out = f \<and> c \<le> out_last out)"

lemma report_broken_outs:
  assumes "out \<in> set (outs a)" and "c \<le> key" and "c \<le> out_last out"
  shows "\<exists>out' \<in> set (outs (report_broken f vs tid key a)). out_first out' = out_first out \<and> c \<le> out_last out'"
proof (cases "map_of (broken a) tid")
  case None
  with assms show ?thesis by (auto simp: report_broken_def push_output_def)
next
  case (Some i)
  from assms(1) obtain j where j: "j < length (outs a)" "outs a ! j = out" by (auto simp: in_set_conv_nth)
  show ?thesis
  proof (cases "i < length (outs a)")
    case True
    let ?os = "(outs a)[i := (outs a ! i)\<lparr>out_last := key\<rparr>]"
    have "?os ! j \<in> set ?os" using j by (intro nth_mem) simp
    moreover have "out_first (?os ! j) = out_first out" "c \<le> out_last (?os ! j)"
      using j True assms(2,3) by (auto simp: nth_list_update)
    ultimately show ?thesis using True Some by (auto simp: report_broken_def)
  qed (use Some assms in \<open>auto simp: report_broken_def\<close>)
qed

lemma tracksI:
  "map_of (partials a) tid = Some p \<Longrightarrow> p_first p = f \<Longrightarrow> tracks f c a"
  "out \<in> set (outs a) \<Longrightarrow> out_first out = f \<Longrightarrow> c \<le> out_last out \<Longrightarrow> tracks f c a"
  unfolding tracks_def by blast+

lemma tracksE:
  assumes "tracks f c a"
  obtains (pending) tid p where "map_of (partials a) tid = Some p" "p_first p = f"
    | (out) out where "out \<in> set (outs a)" "out_first out = f" "c \<le> out_last out"
  using assms unfolding tracks_def by blast

lemma tracks_report:
  assumes "tracks f c a" and "c \<le> key"
  shows "tracks f c (report_broken g vs tid key a)"
  using assms(1)
proof (cases rule: tracksE)
  case (pending tid' p)
  then have "map_of (partials (report_broken g vs tid key a)) tid' = Some p"
    by (simp add: report_broken_def push_output_def split: option.split)
  then show ?thesis using pending(2) by (rule tracksI(1))
next
  case (out out)
  obtain out' where "out' \<in> set (outs (report_broken g vs tid key a))" "out_first out' = out_first out" "c \<le> out_last out'"
    using report_broken_outs [OF out(1) assms(2) out(3), of g vs tid] by blast
  with out(2) show ?thesis by (metis tracksI(2))
qed

lemma tracks_push_output: "tracks f c a \<Longrightarrow> tracks f c (push_output out a)"
  by (auto elim!: tracksE intro: tracksI simp: push_output_def)

lemma tracks_begin:
  assumes t: "tracks f c a" and none: "map_of (partials a) (ck_id parsed) = None" and c: "c \<le> key"
  shows "tracks f c (begin_chunk parsed key v a)"
proof -
  define b where "b = (if ck_chunk parsed = 1 \<and> ck_total parsed \<ge> 1
    then a\<lparr>broken := AList.delete (ck_id parsed) (broken a)\<rparr> else a)"
  have same: "partials b = partials a" "outs b = outs a" by (simp_all add: b_def)
  have b: "tracks f c b" using t by (simp add: tracks_def same)
  have "tracks f c (b\<lparr>partials := AList.update (ck_id parsed) p (partials b)\<rparr>)" for p
    using b
  proof (cases rule: tracksE)
    case (pending tid q)
    then have "tid \<noteq> ck_id parsed" using none same by auto
    with pending show ?thesis by (intro tracksI(1) [of _ tid q]) (simp_all add: alist_simps)
  qed (simp add: tracksI(2))
  with tracks_report [OF b c] tracks_push_output [OF b] show ?thesis
    unfolding begin_chunk_def b_def [symmetric] Let_def by simp
qed

lemma tracks_process:
  assumes ok: "asm_ok ks a" and t: "tracks f c a" and c: "c \<le> key"
  shows "tracks f c (process parsed key v a)"
proof (cases "map_of (partials a) (ck_id parsed)")
  case None
  with tracks_begin [OF t None c] show ?thesis by (simp add: process_def)
next
  case (Some p)
  let ?a = "a\<lparr>partials := AList.delete (ck_id parsed) (partials a)\<rparr>"
  have cases: "tracks f c ?a \<or> p_first p = f"
    using t
  proof (cases rule: tracksE)
    case (pending tid q)
    show ?thesis
    proof (cases "tid = ck_id parsed")
      case False
      with pending have "tracks f c ?a" by (intro tracksI(1) [of _ tid q]) (simp_all add: alist_simps)
      then show ?thesis ..
    qed (use pending Some in simp)
  next
    case (out out)
    then have "tracks f c ?a" by (intro tracksI(2) [of out]) simp_all
    then show ?thesis ..
  qed
  show ?thesis
  proof (cases "continues parsed p")
    case True
    let ?q = "p\<lparr>p_blob := p_blob p @ v, p_next_chunk := p_next_chunk p + 1, p_last_versionstamp := ck_versionstamp parsed\<rparr>"
    let ?out = "\<lparr>out_first = p_first p, out_last = key,
           out_assembled = Complete (p_versionstamp p) (ck_id parsed) (p_blob p @ v)\<rparr>"
    have "tracks f c (push_output ?out ?a)"
      using cases
    proof
      assume "p_first p = f"
      with c show ?thesis by (intro tracksI(2) [of ?out]) (simp_all add: push_output_def)
    qed (rule tracks_push_output)
    moreover have "tracks f c (?a\<lparr>partials := AList.update (ck_id parsed) ?q (partials ?a)\<rparr>)"
      using cases
    proof
      assume "p_first p = f"
      then show ?thesis by (intro tracksI(1) [of _ "ck_id parsed" ?q]) (simp_all add: alist_simps)
    next
      assume "tracks f c ?a"
      then show ?thesis
      proof (cases rule: tracksE)
        case (pending tid q)
        then have "tid \<noteq> ck_id parsed" by (auto simp: alist_simps)
        with pending show ?thesis by (intro tracksI(1) [of _ tid q]) (simp_all add: alist_simps)
      qed (simp add: tracksI(2))
    qed
    ultimately show ?thesis using True Some by (simp add: process_def continue_partial_def Let_def)
  next
    case False
    let ?b = "report_broken (p_first p) (p_versionstamp p) (ck_id parsed) key ?a"
    let ?out = "\<lparr>out_first = p_first p, out_last = key, out_assembled = Broken (p_versionstamp p) (ck_id parsed)\<rparr>"
    from asm_okD(2) [OF ok Some]
    have b: "?b = push_output ?out (?a\<lparr>broken := AList.update (ck_id parsed) (length (outs a)) (broken a)\<rparr>)"
      by (simp add: report_broken_def)
    have "tracks f c ?b"
      using cases
    proof
      assume "p_first p = f"
      with c show ?thesis unfolding b by (intro tracksI(2) [of ?out]) (simp_all add: push_output_def)
    qed (rule tracks_report [OF _ c])
    moreover have "map_of (partials ?b) (ck_id parsed) = None" by (simp add: b push_output_def alist_simps)
    ultimately have "tracks f c (begin_chunk parsed key v ?b)" using tracks_begin c by blast
    with False Some show ?thesis by (simp add: process_def)
  qed
qed

lemma tracks_push:
  assumes "asm_ok ks a" and "tracks f c a" and "c \<le> key"
  shows "tracks f c (push key v a)"
proof -
  let ?a = "a\<lparr>last_key := Some key\<rparr>"
  have "asm_ok ks ?a" "tracks f c ?a" using assms(1,2) by (simp_all add: asm_ok_def tracks_def)
  from tracks_process [OF this assms(3)] this(2) show ?thesis
    by (cases "parse_chunk_key key") (simp_all add: push_def)
qed

lemma tracks_feed:
  assumes "tracks f c (feed xs (assembler_new b))" and "\<forall>(k, v) \<in> set ys. c \<le> k"
  shows "tracks f c (feed (xs @ ys) (assembler_new b))"
  using assms(2)
proof (induction ys rule: rev_induct)
  case Nil
  with assms(1) show ?case by simp
next
  case (snoc kv ys)
  obtain k v where kv: "kv = (k, v)" by (cases kv)
  have "asm_ok (fst ` set (xs @ ys)) (feed (xs @ ys) (assembler_new b))" using feed_ok by blast
  from tracks_push [OF this, of f c k v] snoc show ?case
    unfolding kv append_assoc [symmetric] feed_snoc by auto
qed

end
