(* ===== verification/Profile_Pages.thy ===== *)
theory Profile_Pages
  imports Profile_Assembler
begin

text \<open>
  What pages deliver: the transactions of a page are those that the rows before its resume
  position assemble to, and reading on from that position loses and repeats none.
\<close>

section \<open>Where a page is cut\<close>

lemma cut_loop_spec:
  assumes "sorted_wrt (\<lambda>i j. out_last (os ! j) \<le> out_last (os ! i)) xs" and "cut_loop os xs c d = (c', d')"
  shows "c' \<le> c \<and> c' \<in> insert c ((\<lambda>i. out_first (os ! i)) ` set xs) \<and> (\<exists>e. d' = d @ e \<and> set e \<subseteq> set xs \<and>
    (\<forall>i \<in> set xs. i \<in> set e \<longleftrightarrow> c' \<le> out_last (os ! i)) \<and> (\<forall>i \<in> set e. c' \<le> out_first (os ! i)))"
  using assms
proof (induction xs arbitrary: c d)
  case (Cons x xs)
  show ?case
  proof (cases "out_last (os ! x) < c")
    case True
    with Cons.prems have "c' = c" "d' = d" "\<forall>i \<in> set (x # xs). \<not> c \<le> out_last (os ! i)" by auto
    then show ?thesis by auto
  next
    case False
    define m where "m = (if out_first (os ! x) < c then out_first (os ! x) else c)"
    have m: "m \<le> c" "m \<le> out_first (os ! x)" "m = c \<or> m = out_first (os ! x)" by (auto simp: m_def)
    from False Cons.prems have "cut_loop os xs m (d @ [x]) = (c', d')" by (simp add: m_def Let_def)
    with Cons.IH [OF _ this] Cons.prems(1) obtain e where e: "c' \<le> m"
      "c' \<in> insert m ((\<lambda>i. out_first (os ! i)) ` set xs)" "d' = (d @ [x]) @ e" "set e \<subseteq> set xs"
      "\<forall>i \<in> set xs. i \<in> set e \<longleftrightarrow> c' \<le> out_last (os ! i)" "\<forall>i \<in> set e. c' \<le> out_first (os ! i)"
      by auto
    have "c' \<le> out_last (os ! x)" "c' \<le> out_first (os ! x)" "c' \<le> c" using False m(1,2) e(1) by (auto intro: order_trans)
    moreover have "c' \<in> insert c ((\<lambda>i. out_first (os ! i)) ` set (x # xs))" using e(2) m(3) by auto
    ultimately show ?thesis using e(3-6) by (intro conjI exI [of _ "x # e"]) auto
  qed
qed simp

lemma cut_spec:
  assumes "cut os c = (c', d)"
  shows "c' \<le> c" "c' \<in> insert c (out_first ` set os)"
    "i < length os \<Longrightarrow> i \<in> set d \<longleftrightarrow> c' \<le> out_last (os ! i)"
    "i < length os \<Longrightarrow> i \<in> set d \<Longrightarrow> c' \<le> out_first (os ! i)"
proof -
  let ?xs = "rev (sort_key (\<lambda>i. out_last (os ! i)) (rev [0..<length os]))"
  have sorted: "sorted_wrt (\<lambda>i j. out_last (os ! j) \<le> out_last (os ! i)) ?xs"
    by (metis (no_types, lifting) sorted_map sorted_sort_key sorted_wrt_rev sorted_wrt_map sorted_wrt_mono_rel)
  have set: "set ?xs = {..<length os}" by auto
  note spec = cut_loop_spec [OF sorted assms [unfolded cut_def], unfolded set]
  show "c' \<le> c" using spec by blast
  have "(\<lambda>i. out_first (os ! i)) ` {..<length os} = out_first ` set os" by (force simp: in_set_conv_nth)
  then show "c' \<in> insert c (out_first ` set os)" using spec by simp
  show "i < length os \<Longrightarrow> i \<in> set d \<longleftrightarrow> c' \<le> out_last (os ! i)"
    "i < length os \<Longrightarrow> i \<in> set d \<Longrightarrow> c' \<le> out_first (os ! i)"
    using spec by auto
qed

lemma completes_filter:
  "completes (filter (\<lambda>out. out_last out < c) os) = filter (\<lambda>(k, _). k < c) (completes os)"
  by (induction os) (auto simp: completes_def)

lemma kept_by_cut:
  assumes "cut os c = (c', d)"
  shows "map fst (filter snd (map (\<lambda>(i, out). (out, i \<notin> set d)) (enumerate 0 os))) = filter (\<lambda>out. out_last out < c') os"
proof -
  have "map fst (filter snd (map (\<lambda>(i, out). (out, i \<notin> set d)) (enumerate 0 os))) =
      map snd (filter (\<lambda>(i, out). i \<notin> set d) (enumerate 0 os))"
    by (simp add: filter_map o_def case_prod_unfold)
  also have "\<dots> = map snd (filter (\<lambda>x. out_last (snd x) < c') (enumerate 0 os))"
    using cut_spec(3) [OF assms]
    by (intro arg_cong [where f = "map snd"] filter_cong) (auto simp: in_set_enumerate_eq not_le)
  also have "\<dots> = filter (\<lambda>out. out_last out < c') (map snd (enumerate 0 os))"
    by (simp only: filter_map o_def)
  finally show ?thesis by simp
qed

section \<open>Rows before and after a key\<close>

definition before :: "bytes \<Rightarrow> rows \<Rightarrow> rows" where
  "before c rows = filter (\<lambda>(k, _). k < c) rows"

definition from_key :: "bytes \<Rightarrow> rows \<Rightarrow> rows" where
  "from_key c rows = filter (\<lambda>(k, _). c \<le> k) rows"

definition ordered :: "rows \<Rightarrow> bool" where
  "ordered rows \<longleftrightarrow> sorted_wrt (<) (map fst rows)"

lemma ordered_split:
  assumes "ordered rows"
  shows "before c rows @ from_key c rows = rows"
  using assms
proof (induction rows)
  case (Cons kv rows)
  show ?case
  proof (cases "fst kv < c")
    case False
    then have "before c rows = []" "from_key c rows = rows"
      using Cons.prems
      by (fastforce simp: before_def from_key_def ordered_def filter_empty_conv filter_id_conv)+
    with False show ?thesis by (simp add: before_def from_key_def case_prod_unfold not_less)
  qed (use Cons in \<open>simp add: before_def from_key_def ordered_def case_prod_unfold not_le\<close>)
qed (simp add: before_def from_key_def)

lemma core_step_keys: "fst ` set (snd (core_step k v m)) \<subseteq> {k}"
  by (auto simp: core_step_def core_begin_def split: option.splits if_splits)

lemma core_run_keys: "fst ` set (snd (core_run rows m)) \<subseteq> fst ` set rows"
proof (induction rows arbitrary: m)
  case (Cons kv rows)
  obtain key v where kv: "kv = (key, v)" by (cases kv)
  obtain m1 d1 where 1: "core_step key v m = (m1, d1)" by fastforce
  obtain m2 d2 where 2: "core_run rows m1 = (m2, d2)" by fastforce
  have "fst ` set d1 \<subseteq> {key}" using core_step_keys [of key v m] by (simp add: 1)
  moreover have "fst ` set d2 \<subseteq> fst ` set rows" using Cons.IH [of m1] by (simp add: 2)
  moreover have "snd (core_run (kv # rows) m) = d1 @ d2" by (simp add: kv 1 2)
  ultimately show ?case by (simp add: kv image_Un) blast
qed simp

lemma core_run_key:
  assumes "core_run rows m = (m', d)" and "x \<in> set d"
  obtains v where "(fst x, v) \<in> set rows"
proof -
  have "fst x \<in> fst ` set rows" using core_run_keys [of rows m] assms by auto
  then show ?thesis using that by auto
qed

lemma assembled_before:
  assumes "ordered rows"
  shows "filter (\<lambda>(k, _). k < c) (assembled_from rows) = assembled_from (before c rows)"
proof -
  obtain m1 d1 where 1: "core_run (before c rows) Map.empty = (m1, d1)" by fastforce
  obtain m2 d2 where 2: "core_run (from_key c rows) m1 = (m2, d2)" by fastforce
  have "core_run rows Map.empty = (m2, d1 @ d2)"
    using core_run_append [of "before c rows" "from_key c rows"] by (simp add: ordered_split [OF assms] 1 2)
  moreover have "\<forall>x \<in> set d1. fst x < c"
    by (auto elim!: core_run_key [OF 1] simp: before_def)
  moreover have "\<forall>x \<in> set d2. \<not> fst x < c"
    by (auto elim!: core_run_key [OF 2] simp: from_key_def)
  ultimately show ?thesis
    by (simp add: assembled_from_def 1 case_prod_unfold filter_empty_conv filter_id_conv)
qed


section \<open>Where a page resumes\<close>

definition kept :: "(outputs \<times> bool) list \<Rightarrow> outputs list" where
  "kept os = map fst (filter snd os)"

definition after_rows :: "bytes \<Rightarrow> rows \<Rightarrow> bytes" where
  "after_rows c rows = (case last_of rows of Some l \<Rightarrow> key_after l | None \<Rightarrow> c)"

definition marks :: "rows \<Rightarrow> bytes set" where
  "marks rows = fst ` set rows \<union> key_after ` fst ` set rows"

lemma after_rows_mark: "after_rows c rows \<in> insert c (marks rows)"
  using last_in_set [of rows] by (cases "rows = []") (auto simp: after_rows_def last_of_def marks_def)

lemma key_after: "k < key_after l \<longleftrightarrow> k \<le> l"
proof (induction l arbitrary: k)
  case Nil
  show ?case by (cases k) (simp_all add: key_after_def)
next
  case (Cons y l)
  then show ?case by (cases k) (auto simp: key_after_def)
qed

lemma after_rows:
  assumes "ordered rows" and "\<forall>(k, v) \<in> set rows. c \<le> k"
  shows "before (after_rows c rows) rows = rows" "c \<le> after_rows c rows" "rows \<noteq> [] \<Longrightarrow> c < after_rows c rows"
proof -
  have last: "k \<le> fst (last rows)" if "(k, v) \<in> set rows" for k v
    using assms(1) that unfolding ordered_def
    by (induction rows) (auto simp: last_in_set less_imp_le)
  show "before (after_rows c rows) rows = rows"
    by (auto simp: before_def filter_id_conv after_rows_def last_of_def key_after dest: last)
  show lt: "rows \<noteq> [] \<Longrightarrow> c < after_rows c rows"
    using assms(2) last_in_set [of rows]
    by (cases "last rows") (auto simp: after_rows_def last_of_def key_after)
  then show "c \<le> after_rows c rows" by (cases "rows = []") (auto simp: after_rows_def last_of_def)
qed

lemma pending_tracked:
  assumes "pending_after xs tid = Some p" and "\<forall>(k, v) \<in> set ys. c \<le> k"
  shows "tracks (p_first p) c (feed (xs @ ys) (assembler_new b))"
proof -
  have "map_of (partials (feed xs (assembler_new b))) tid = Some p" using feed_ok [of xs b] assms(1) by simp
  then have "tracks (p_first p) c (feed xs (assembler_new b))" by (rule tracksI(1)) simp
  then show ?thesis using assms(2) by (rule tracks_feed)
qed

lemma pending_first:
  assumes "pending_after rows tid = Some p"
  shows "p_id p = tid" "p_first p \<in> fst ` set rows"
proof -
  let ?a = "feed rows (assembler_new (Cursor []))"
  have "asm_ok (fst ` set rows) ?a" "map_of (partials ?a) tid = Some p"
    using feed_ok [of rows "Cursor []"] assms by simp_all
  then show "p_id p = tid" "p_first p \<in> fst ` set rows" by (rule asm_okD(3,4))+
qed

lemma cut_before_pending:
  assumes ord: "ordered rows" and a: "a = feed rows (assembler_new b)"
    and min: "\<forall>(tid, p) \<in> set (partials a). l \<le> p_first p" and cut: "cut (outs a) l = (c, d)"
  shows "pending_after (before c rows) = Map.empty"
proof (rule ccontr)
  assume "pending_after (before c rows) \<noteq> Map.empty"
  then obtain tid p where p: "pending_after (before c rows) tid = Some p" by fastforce
  have first: "p_first p < c" using pending_first(2) [OF p] by (auto simp: before_def)
  have "tracks (p_first p) c (feed (before c rows @ from_key c rows) (assembler_new b))"
    using p by (rule pending_tracked) (auto simp: from_key_def)
  then have "tracks (p_first p) c a" by (simp add: ordered_split [OF ord] a)
  then show False
  proof (cases rule: tracksE)
    case (pending tid' q)
    then have "l \<le> p_first p" using min by (auto dest!: map_of_SomeD)
    with first cut_spec(1) [OF cut] show False by (meson leD order_trans)
  next
    case (out out)
    then obtain i where "i < length (outs a)" "outs a ! i = out" by (auto simp: in_set_conv_nth)
    with cut_spec(3,4) [OF cut, of i] out first show False by auto
  qed
qed

lemma resume_after_spec:
  assumes ord: "ordered rows" and ge: "\<forall>(k, v) \<in> set rows. c0 \<le> k"
    and a: "a = feed rows (assembler_new (Cursor c0))"
    and e: "e = after_rows c0 rows"
    and os: "os = map (\<lambda>out. (out, True)) (outs a) @ map (\<lambda>p. (broken_output p, True)) ps"
    and ps: "set ps = ran (pending_after rows)"
  shows "c0 \<le> e \<and> (rows \<noteq> [] \<longrightarrow> c0 < e) \<and> completes (kept os) = assembled_from (before e rows) \<and>
    (\<forall>p \<in> ran (pending_after (before e rows)). broken_output p \<in> set (kept os))"
proof -
  have "\<not> is_complete (broken_output p)" for p by (simp add: broken_output_def)
  then have "completes (kept os) = completes (outs a)"
    by (simp add: os kept_def completes_def filter_empty_conv o_def)
  moreover have "completes (outs a) = assembled_from rows" using feed_ok a by blast
  moreover have "broken_output p \<in> set (kept os)" if "p \<in> ran (pending_after rows)" for p
    using that ps by (auto simp: os kept_def o_def)
  ultimately show ?thesis using after_rows [OF ord ge] e by simp
qed

lemma settle_spec:
  assumes ord: "ordered rows" and ge: "\<forall>(k, v) \<in> set rows. c0 \<le> k"
    and a: "a = feed rows (assembler_new (Cursor c0))"
    and settle: "settle stopped a = (e, os)"
  shows "c0 \<le> e \<and> e \<le> after_rows c0 rows \<and> (pending_after rows = Map.empty \<longrightarrow> e = after_rows c0 rows) \<and>
    e \<in> insert c0 (marks rows) \<and>
    (stopped \<and> rows \<noteq> [] \<longrightarrow> c0 < e) \<and> completes (kept os) = assembled_from (before e rows) \<and>
    (\<forall>p \<in> ran (pending_after (before e rows)). broken_output p \<in> set (kept os))"
proof -
  have ok: "asm_ok (fst ` set rows) a" "map_of (partials a) = pending_after rows"
    "completes (outs a) = assembled_from rows" "start a = Cursor c0" "last_key a = last_of rows"
    using feed_ok a by blast+
  let ?ps = "sort_key p_first (map snd (partials a))"
  let ?after = "map (\<lambda>out. (out, True)) (outs a) @ map (\<lambda>p. (broken_output p, True)) ?ps"
  have ps: "set ?ps = ran (pending_after rows)"
    using ran_distinct [OF asm_okD(1) [OF ok(1)]] ok(2) by simp
  note after = resume_after_spec [OF ord ge a refl refl ps]
  show ?thesis
  proof (cases "(e, os) = (after_rows c0 rows, ?after)")
    case True
    then show ?thesis using after after_rows_mark [of c0 rows] by simp
  next
    case False
    obtain oldest rest where pending: "?ps = oldest # rest"
      using settle False unfolding settle_def Let_def ok(4,5) after_rows_def
      by (cases ?ps) (simp_all split: option.splits)
    obtain c d where c: "cut (outs a) (p_first oldest) = (c, d)" by fastforce
    have e: "\<not> (stopped \<and> c \<le> c0)" "e = c" "os = map (\<lambda>(i, out). (out, i \<notin> set d)) (enumerate 0 (outs a))"
      using settle False unfolding settle_def Let_def ok(4,5) pending after_rows_def
      by (simp_all add: c split: option.splits if_splits)
    have sorted: "sorted (map p_first ?ps)" by (rule sorted_sort_key)
    have "p_first oldest \<le> p_first p" if "p \<in> set ?ps" for p
      using sorted that unfolding pending by auto
    then have "\<forall>(tid, p) \<in> set (partials a). p_first oldest \<le> p_first p" by force
    then have empty: "pending_after (before c rows) = Map.empty" by (rule cut_before_pending [OF ord a _ c])
    have "completes (kept os) = filter (\<lambda>(k, _). k < c) (assembled_from rows)"
      unfolding kept_def e(3) kept_by_cut [OF c] completes_filter ok(3) ..
    then have complete: "completes (kept os) = assembled_from (before c rows)"
      by (simp only: assembled_before [OF ord])
    have "oldest \<in> ran (pending_after rows)" unfolding ps [symmetric] pending by simp
    then have "p_first oldest \<in> fst ` set rows" by (auto simp: ran_def dest: pending_first(2))
    then have "c \<in> fst ` set rows" using cut_spec(2) [OF c] asm_okD(7) [OF ok(1)] by auto
    moreover have "c < after_rows c0 rows" if "c \<in> fst ` set rows"
      using that after_rows(1) [OF ord ge] by (auto simp: before_def filter_id_conv)
    ultimately have "c0 \<le> c" "c < after_rows c0 rows" using ge by auto
    moreover have "pending_after rows \<noteq> Map.empty" using \<open>oldest \<in> ran _\<close> by auto
    moreover have "c \<in> insert c0 (marks rows)" using \<open>c \<in> fst ` set rows\<close> by (simp add: marks_def)
    ultimately show ?thesis using complete empty e(1) by (auto simp: e(2))
  qed
qed

section \<open>What a page reports\<close>

definition transaction_of :: "assembled \<Rightarrow> profiled_transaction list" where
  "transaction_of x = (case x of
     Complete vs tid blob \<Rightarrow>
       (case decode_events blob of
          Inr (version, events) \<Rightarrow> [\<lparr>pt_version = version_of vs, pt_versionstamp = vs, pt_id = tid,
            pt_protocol_version = version, pt_events = events\<rparr>]
        | Inl _ \<Rightarrow> [])
   | Broken _ _ \<Rightarrow> [])"

definition undecodable :: "assembled \<Rightarrow> skipped list" where
  "undecodable x = (case x of
     Complete vs tid blob \<Rightarrow>
       (case decode_events blob of
          Inr _ \<Rightarrow> []
        | Inl err \<Rightarrow> [\<lparr>sk_versionstamp = vs, sk_id = tid, sk_reason = SkipDecode err\<rparr>])
   | Broken _ _ \<Rightarrow> [])"

definition skip_of :: "assembled \<Rightarrow> skipped list" where
  "skip_of x = (case x of
     Complete vs tid blob \<Rightarrow> undecodable x
   | Broken vs tid \<Rightarrow> [\<lparr>sk_versionstamp = vs, sk_id = tid, sk_reason = BrokenChunks\<rparr>])"

definition chunks_broken :: "skipped \<Rightarrow> bool" where
  "chunks_broken s \<longleftrightarrow> sk_reason s = BrokenChunks"

lemma report_snoc:
  "report (os @ [(out, b)]) =
    (fst (report os) @ (if b then transaction_of (out_assembled out) else []),
     snd (report os) @ (if b then skip_of (out_assembled out) else []))"
  by (simp add: report_def transaction_of_def skip_of_def undecodable_def case_prod_unfold Let_def
      split: assembled.split sum.split)

lemma report_spec:
  "report os = (concat (map (transaction_of \<circ> out_assembled) (kept os)),
    concat (map (skip_of \<circ> out_assembled) (kept os)))"
proof (induction os rule: rev_induct)
  case Nil
  show ?case by (simp add: report_def kept_def)
next
  case (snoc x os)
  obtain out b where "x = (out, b)" by (cases x)
  with snoc.IH show ?case by (simp add: report_snoc kept_def)
qed

lemma transactions_of_completes:
  "concat (map (transaction_of \<circ> out_assembled) os) = concat (map (transaction_of \<circ> snd) (completes os))"
  by (induction os) (auto simp: completes_def is_complete_def transaction_of_def split: assembled.splits)

lemma skips_of_completes:
  "filter (\<lambda>s. \<not> chunks_broken s) (concat (map (skip_of \<circ> out_assembled) os)) =
    concat (map (undecodable \<circ> snd) (completes os))"
  by (induction os)
    (auto simp: completes_def is_complete_def skip_of_def undecodable_def chunks_broken_def
      split: assembled.splits sum.splits)


section \<open>Pages\<close>

text \<open>The rows a page reads before it stops, and whether it stopped.\<close>

fun taken :: "(nat \<Rightarrow> bool) \<Rightarrow> nat \<Rightarrow> rows \<Rightarrow> rows \<times> bool" where
  "taken st n [] = ([], False)"
| "taken st n (kv # rows) =
     (if st n then ([kv], True) else let (xs, b) = taken st (Suc n) rows in (kv # xs, b))"

lemma taken_spec:
  assumes "taken st n rows = (seen, b)"
  obtains rest where "rows = seen @ rest" "b \<longrightarrow> seen \<noteq> []" "\<not> b \<longrightarrow> rest = []"
proof -
  have "\<exists>rest. rows = seen @ rest \<and> (b \<longrightarrow> seen \<noteq> []) \<and> (\<not> b \<longrightarrow> rest = [])"
    using assms by (induction st n rows arbitrary: seen b rule: taken.induct) (auto split: if_splits prod.splits)
  then show ?thesis using that by blast
qed

definition within :: "scan_range \<Rightarrow> rows \<Rightarrow> bool" where
  "within rg rows \<longleftrightarrow> (\<forall>(k, v) \<in> set rows. scan_begin rg \<le> k \<and> k < scan_end rg)"

lemma read_rows_ok:
  assumes "ordered rows" and "within rg rows" and "taken st n rows = (seen, b)"
    and "\<forall>l. last_key a = Some l \<longrightarrow> (\<forall>(k, v) \<in> set rows. l < k)"
  shows "read_rows rg st n (map Inr rows) a = (Inr (finish b (feed seen a)) :: 'e scan_error + page_result)"
  using assms
proof (induction st n rows arbitrary: a seen b rule: taken.induct)
  case (1 st n)
  then show ?case by (simp add: feed_def)
next
  case (2 st n kv rows)
  obtain k v where kv: "kv = (k, v)" by (cases kv)
  have in_range: "\<not> k < scan_begin rg" "\<not> scan_end rg \<le> k"
    using "2.prems"(2) by (auto simp: within_def kv)
  have in_order: "case last_key a of None \<Rightarrow> True | Some l \<Rightarrow> k > l"
    using "2.prems"(4) by (simp add: kv split: option.split)
  have last: "last_key (push k v a) = Some k"
    by (cases "parse_chunk_key k"; simp add: push_def frame)
  have step: "(read_rows rg st n (map Inr (kv # rows)) a :: 'e scan_error + page_result) =
     (if st n then Inr (finish True (push k v a)) else read_rows rg st (Suc n) (map Inr rows) (push k v a))"
    using in_range in_order by (simp add: kv Let_def)
  show ?case
  proof (cases "st n")
    case True
    with "2.prems"(3) have "seen = [(k, v)]" "b = True" by (simp_all add: kv)
    then show ?thesis unfolding step by (simp add: True feed_def)
  next
    case False
    obtain xs where xs: "taken st (Suc n) rows = (xs, b)" "seen = (k, v) # xs"
      using "2.prems"(3) False by (auto simp: kv split: prod.splits)
    have "ordered rows" "within rg rows" "\<forall>l. last_key (push k v a) = Some l \<longrightarrow> (\<forall>(k, v) \<in> set rows. l < k)"
      using "2.prems"(1,2) by (auto simp: ordered_def within_def last kv)
    from "2.IH" [OF False this(1,2) xs(1) this(3)]
    have "read_rows rg st (Suc n) (map Inr rows) (push k v a) = (Inr (finish b (feed xs (push k v a))) :: 'e scan_error + page_result)" .
    then show ?thesis unfolding step by (simp add: False xs(2) feed_def)
  qed
qed

definition transactions_from :: "rows \<Rightarrow> profiled_transaction list" where
  "transactions_from rows = concat (map (transaction_of \<circ> snd) (assembled_from rows))"

definition undecodable_from :: "rows \<Rightarrow> skipped list" where
  "undecodable_from rows = concat (map (undecodable \<circ> snd) (assembled_from rows))"

definition broken_skip :: "partial \<Rightarrow> skipped" where
  "broken_skip p = \<lparr>sk_versionstamp = p_versionstamp p, sk_id = p_id p, sk_reason = BrokenChunks\<rparr>"

lemma before_prefix:
  assumes "ordered (xs @ ys)" and "ys = [] \<or> (xs \<noteq> [] \<and> e \<le> key_after (fst (last xs)))"
  shows "before e (xs @ ys) = before e xs"
  using assms(2)
proof
  assume "xs \<noteq> [] \<and> e \<le> key_after (fst (last xs))"
  then have "fst (last xs) \<in> set (map fst xs)" "e \<le> key_after (fst (last xs))" by simp_all
  moreover from this(1) have "fst (last xs) < k" if "(k, v) \<in> set ys" for k v
    using assms(1) that unfolding ordered_def by (force simp: sorted_wrt_append)
  ultimately have "\<not> k < e" if "(k, v) \<in> set ys" for k v
    using that key_after by (meson leD order.strict_trans2)
  then have "before e ys = []" by (auto simp: before_def filter_empty_conv)
  then show ?thesis by (simp add: before_def)
qed simp

lemma page_spec:
  assumes ord: "ordered rows" and range: "within (range_at s c) rows"
  obtains page where "read_page s c (map Inr rows) st = Inr page"
    "cursor_key c \<le> cursor_key (next_cursor page)"
    "\<not> exhausted page \<longrightarrow> cursor_key c < cursor_key (next_cursor page)"
    "transactions page = transactions_from (before (cursor_key (next_cursor page)) rows)"
    "filter (\<lambda>x. \<not> chunks_broken x) (skipped_list page) = undecodable_from (before (cursor_key (next_cursor page)) rows)"
    "\<forall>p \<in> ran (pending_after (before (cursor_key (next_cursor page)) rows)). broken_skip p \<in> set (skipped_list page)"
    "exhausted page \<and> pending_after rows = Map.empty \<longrightarrow> before (cursor_key (next_cursor page)) rows = rows"
    "cursor_key (next_cursor page) \<in> insert (cursor_key c) (marks rows)"
proof -
  obtain seen b where taken: "taken st 0 rows = (seen, b)" by fastforce
  then obtain rest where rest: "rows = seen @ rest" "b \<longrightarrow> seen \<noteq> []" "\<not> b \<longrightarrow> rest = []" by (rule taken_spec)
  define a where "a = feed seen (assembler_new c)"
  obtain e os where settle: "settle b a = (e, os)" by fastforce
  have ord': "ordered seen" using ord by (simp add: rest(1) ordered_def sorted_wrt_append)
  have ge: "\<forall>(k, v) \<in> set rows. cursor_key c \<le> k" using range by (auto simp: within_def range_at_def Let_def)
  then have ge': "\<forall>(k, v) \<in> set seen. cursor_key c \<le> k" by (simp add: rest(1))
  note spec = settle_spec [OF ord' ge' _ settle] 
  have spec: "cursor_key c \<le> e" "e \<le> after_rows (cursor_key c) seen"
    "pending_after seen = Map.empty \<longrightarrow> e = after_rows (cursor_key c) seen"
    "b \<and> seen \<noteq> [] \<longrightarrow> cursor_key c < e" "completes (kept os) = assembled_from (before e seen)"
    "\<forall>p \<in> ran (pending_after (before e seen)). broken_output p \<in> set (kept os)"
    "e \<in> insert (cursor_key c) (marks seen)"
    using spec by (simp_all add: a_def)
  have seen: "before e rows = before e seen"
    unfolding rest(1)
  proof (rule before_prefix)
    show "rest = [] \<or> (seen \<noteq> [] \<and> e \<le> key_after (fst (last seen)))"
      using rest(2,3) spec(2) by (auto simp: after_rows_def last_of_def)
  qed (use ord rest(1) in simp)
  define page where "page = finish b a"
  have page: "cursor_key (next_cursor page) = e" "exhausted page \<longleftrightarrow> \<not> b"
    "transactions page = fst (report os)" "skipped_list page = snd (report os)"
    by (simp_all add: page_def finish_def settle case_prod_unfold Let_def)
  have "read_page s c (map Inr rows) st = Inr page"
    unfolding page_def read_page_def a_def using ord range taken
    by (rule read_rows_ok) (simp add: assembler_new_def)
  moreover have "transactions page = transactions_from (before e rows)"
    unfolding page(3) report_spec fst_conv transactions_of_completes spec(5) seen transactions_from_def ..
  moreover have "filter (\<lambda>x. \<not> chunks_broken x) (skipped_list page) = undecodable_from (before e rows)"
    unfolding page(4) report_spec snd_conv skips_of_completes spec(5) seen undecodable_from_def ..
  moreover have "broken_skip p \<in> set (skipped_list page)" if "p \<in> ran (pending_after (before e rows))" for p
  proof -
    have "broken_output p \<in> set (kept os)" using that spec(6) by (simp add: seen)
    then show ?thesis
      unfolding page(4) report_spec
      by (auto simp: broken_output_def broken_skip_def skip_of_def intro!: bexI [of _ "broken_output p"])
  qed
  moreover have "\<not> b \<and> pending_after rows = Map.empty \<longrightarrow> before e rows = rows"
    using rest(1,3) spec(3) after_rows(1) [OF ord ge] by auto
  moreover have "e \<in> insert (cursor_key c) (marks rows)"
    using spec(7) unfolding rest(1) marks_def by auto
  ultimately show ?thesis using spec(1,4) rest(2) by (intro that [of page]) (simp_all add: page)
qed


text \<open>
  C19.  A page is exact.  For rows in key order and in range, a page delivers the transactions that
  the rows before its resume position assemble to, reports the undecodable ones among them, and
  reports as broken each one it leaves behind unfinished; a page that stops has advanced, and one
  that is exhausted with nothing pending has used every row.
\<close>

theorem page_exact:
  assumes "ordered rows" and "within (range_at s c) rows"
  shows "\<exists>page. read_page s c (map Inr rows) st = Inr page \<and>
    (let e = cursor_key (next_cursor page); used = before e rows in
       cursor_key c \<le> e \<and> (exhausted page \<or> cursor_key c < e) \<and>
       transactions page = transactions_from used \<and>
       filter (\<lambda>x. \<not> chunks_broken x) (skipped_list page) = undecodable_from used \<and>
       (\<forall>p \<in> ran (pending_after used). broken_skip p \<in> set (skipped_list page)) \<and>
       (exhausted page \<and> pending_after rows = Map.empty \<longrightarrow> used = rows))"
  by (rule page_spec [OF assms, of st]) (auto simp: Let_def)

section \<open>Paging to the end\<close>

text \<open>Pages over a sorted store, each with its own stop check, as the tests of the reader run them.\<close>

definition run_page :: "rows \<Rightarrow> cursor \<Rightarrow> (nat \<Rightarrow> bool) \<Rightarrow> unit scan_error + page_result" where
  "run_page rows c should_stop =
     (let rg = range_at scanner_new c
      in read_page scanner_new c (map Inr (filter (\<lambda>(k, _). k \<ge> scan_begin rg \<and> k < scan_end rg) rows)) should_stop)"

fun run_pages ::
    "nat \<Rightarrow> rows \<Rightarrow> (nat \<Rightarrow> nat \<Rightarrow> bool) \<Rightarrow> nat \<Rightarrow> cursor \<Rightarrow> profiled_transaction list \<Rightarrow> skipped list \<Rightarrow>
      (profiled_transaction list \<times> skipped list) option" where
  "run_pages 0 rows should_stop i c txs skips = None"
| "run_pages (Suc n) rows should_stop i c txs skips =
     (case run_page rows c (should_stop i) of
        Inl _ \<Rightarrow> None
      | Inr page \<Rightarrow>
          let txs = txs @ transactions page; skips = skips @ skipped_list page
          in case cursor_from_bytes (cursor_as_bytes (next_cursor page)) of
               Inl _ \<Rightarrow> None
             | Inr nc \<Rightarrow>
                 if nc \<noteq> next_cursor page then None
                 else if exhausted page then Some (txs, skips)
                 else if \<not> cursor_key nc > cursor_key c then None
                 else run_pages n rows should_stop (Suc i) nc txs skips)"

definition profile_key :: "bytes \<Rightarrow> bool" where
  "profile_key k \<longleftrightarrow> take (length PROFILE_PREFIX) k = PROFILE_PREFIX"

lemma profile_key_range:
  assumes "profile_key k"
  shows "PROFILE_PREFIX \<le> k" "k < PROFILE_END" "profile_key (key_after k)"
proof -
  obtain t where k: "k = PROFILE_PREFIX @ t" using assms unfolding profile_key_def by (metis append_take_drop_id)
  show "PROFILE_PREFIX \<le> k" "k < PROFILE_END" by (simp_all add: k PROFILE_PREFIX_def PROFILE_END_def)
  show "profile_key (key_after k)" by (simp add: k profile_key_def key_after_def)
qed

lemma before_before: "c \<le> d \<Longrightarrow> before d (before c rows) = before c rows"
  unfolding before_def filter_filter by (rule filter_cong) auto

lemma from_from: "c \<le> d \<Longrightarrow> from_key d (from_key c rows) = from_key d rows"
  unfolding from_key_def filter_filter by (rule filter_cong) (auto)

lemma ordered_from: "ordered rows \<Longrightarrow> ordered (from_key c rows)"
  by (simp add: ordered_def from_key_def sorted_wrt_map sorted_wrt_filter)

lemma run_page_spec:
  assumes ord: "ordered rows" and keys: "\<forall>(k, v) \<in> set rows. profile_key k" and c: "profile_key (cursor_key c)"
  obtains page where "run_page rows c st = Inr page"
    "cursor_key c \<le> cursor_key (next_cursor page)"
    "\<not> exhausted page \<longrightarrow> cursor_key c < cursor_key (next_cursor page)"
    "transactions page = transactions_from (before (cursor_key (next_cursor page)) (from_key (cursor_key c) rows))"
    "filter (\<lambda>x. \<not> chunks_broken x) (skipped_list page) =
      undecodable_from (before (cursor_key (next_cursor page)) (from_key (cursor_key c) rows))"
    "\<not> (\<exists>x \<in> set (skipped_list page). chunks_broken x) \<longrightarrow>
      pending_after (before (cursor_key (next_cursor page)) (from_key (cursor_key c) rows)) = Map.empty"
    "exhausted page \<and> pending_after (from_key (cursor_key c) rows) = Map.empty \<longrightarrow>
      before (cursor_key (next_cursor page)) (from_key (cursor_key c) rows) = from_key (cursor_key c) rows"
    "cursor_key (next_cursor page) \<in> insert (cursor_key c) (marks rows)"
proof -
  have range: "range_at scanner_new c = \<lparr>scan_begin = cursor_key c, scan_end = PROFILE_END\<rparr>"
    using profile_key_range(2) [OF c] by (auto simp: range_at_def scanner_new_def Let_def max_def not_le)
  have rows: "filter (\<lambda>(k, _). k \<ge> cursor_key c \<and> k < PROFILE_END) rows = from_key (cursor_key c) rows"
    unfolding from_key_def using keys profile_key_range(2) by (intro filter_cong) auto
  have "within (range_at scanner_new c) (from_key (cursor_key c) rows)"
    unfolding within_def range rows [symmetric] by auto
  from page_spec [OF ordered_from [OF ord] this, of st]
  obtain page where page: "read_page scanner_new c (map Inr (from_key (cursor_key c) rows) :: (unit + bytes \<times> bytes) list) st = Inr page"
    and rest: "cursor_key c \<le> cursor_key (next_cursor page)"
    "\<not> exhausted page \<longrightarrow> cursor_key c < cursor_key (next_cursor page)"
    "transactions page = transactions_from (before (cursor_key (next_cursor page)) (from_key (cursor_key c) rows))"
    "filter (\<lambda>x. \<not> chunks_broken x) (skipped_list page) =
      undecodable_from (before (cursor_key (next_cursor page)) (from_key (cursor_key c) rows))"
    and pending: "\<forall>p \<in> ran (pending_after (before (cursor_key (next_cursor page)) (from_key (cursor_key c) rows))).
      broken_skip p \<in> set (skipped_list page)"
    and all: "exhausted page \<and> pending_after (from_key (cursor_key c) rows) = Map.empty \<longrightarrow>
      before (cursor_key (next_cursor page)) (from_key (cursor_key c) rows) = from_key (cursor_key c) rows"
    and mark: "cursor_key (next_cursor page) \<in> insert (cursor_key c) (marks (from_key (cursor_key c) rows))"
    .
  have "run_page rows c st = Inr page"
    unfolding run_page_def range Let_def scan_range.simps rows using page .
  moreover have "chunks_broken (broken_skip p)" for p by (simp add: chunks_broken_def broken_skip_def)
  then have "\<not> (\<exists>x \<in> set (skipped_list page). chunks_broken x) \<longrightarrow>
      pending_after (before (cursor_key (next_cursor page)) (from_key (cursor_key c) rows)) = Map.empty"
    using pending by (meson ext not_None_eq ranI)
  moreover have "marks (from_key (cursor_key c) rows) \<subseteq> marks rows" by (auto simp: marks_def from_key_def)
  then have "cursor_key (next_cursor page) \<in> insert (cursor_key c) (marks rows)" using mark by blast
  ultimately show ?thesis using rest all by (intro that)
qed

lemma run_pages_spec:
  assumes ord: "ordered rows" and keys: "\<forall>(k, v) \<in> set rows. profile_key k" and c: "profile_key (cursor_key c)"
    and fuel: "card {k \<in> marks rows. cursor_key c < k} < n"
  shows "\<exists>txs skips. run_pages n rows st i c txs0 skips0 = Some (txs0 @ txs, skips0 @ skips) \<and>
    (\<not> (\<exists>x \<in> set skips. chunks_broken x) \<and> pending_after (from_key (cursor_key c) rows) = Map.empty \<longrightarrow>
      txs = transactions_from (from_key (cursor_key c) rows) \<and> skips = undecodable_from (from_key (cursor_key c) rows))"
  using c fuel
proof (induction n arbitrary: i c txs0 skips0)
  case (Suc n)
  let ?rows = "from_key (cursor_key c) rows"
  obtain page where page: "run_page rows c (st i) = Inr page"
    "cursor_key c \<le> cursor_key (next_cursor page)"
    "\<not> exhausted page \<longrightarrow> cursor_key c < cursor_key (next_cursor page)"
    "transactions page = transactions_from (before (cursor_key (next_cursor page)) ?rows)"
    "filter (\<lambda>x. \<not> chunks_broken x) (skipped_list page) = undecodable_from (before (cursor_key (next_cursor page)) ?rows)"
    "\<not> (\<exists>x \<in> set (skipped_list page). chunks_broken x) \<longrightarrow>
      pending_after (before (cursor_key (next_cursor page)) ?rows) = Map.empty"
    "exhausted page \<and> pending_after ?rows = Map.empty \<longrightarrow> before (cursor_key (next_cursor page)) ?rows = ?rows"
    "cursor_key (next_cursor page) \<in> insert (cursor_key c) (marks rows)"
    using run_page_spec [OF ord keys Suc.prems(1), of "st i"] .
  define e where "e = next_cursor page"
  have key: "profile_key k" if "k \<in> marks rows" for k
    using that keys profile_key_range(3) by (auto simp: marks_def)
  have pk: "profile_key (cursor_key e)" using page(8) Suc.prems(1) key by (auto simp: e_def)
  then have from_bytes: "cursor_from_bytes (cursor_as_bytes e) = Inr e"
    by (simp add: cursor_from_bytes_def cursor_as_bytes_def profile_key_def)
  have whole: "filter (\<lambda>x. \<not> chunks_broken x) (skipped_list page) = skipped_list page"
    if "\<not> (\<exists>x \<in> set (skipped_list page). chunks_broken x)"
    using that by (simp add: filter_id_conv)
  show ?case
  proof (cases "exhausted page")
    case True
    then have "run_pages (Suc n) rows st i c txs0 skips0 = Some (txs0 @ transactions page, skips0 @ skipped_list page)"
      using from_bytes by (simp add: page(1) e_def Let_def)
    then show ?thesis using True page(4,5,7) whole by auto
  next
    case False
    have less: "cursor_key c < cursor_key e" using False page(3) by (simp add: e_def)
    have "cursor_key e \<in> {k \<in> marks rows. cursor_key c < k}" using page(8) less by (auto simp: e_def)
    moreover have "finite (marks rows)" by (simp add: marks_def)
    ultimately have "card {k \<in> marks rows. cursor_key e < k} < card {k \<in> marks rows. cursor_key c < k}"
      using less by (intro psubset_card_mono) auto
    then have fuel: "card {k \<in> marks rows. cursor_key e < k} < n" using Suc.prems(2) by simp
    from Suc.IH [OF pk fuel, of "Suc i" "txs0 @ transactions page" "skips0 @ skipped_list page"]
    obtain txs skips where rest:
      "run_pages n rows st (Suc i) e (txs0 @ transactions page) (skips0 @ skipped_list page) =
        Some ((txs0 @ transactions page) @ txs, (skips0 @ skipped_list page) @ skips)"
      "\<not> (\<exists>x \<in> set skips. chunks_broken x) \<and> pending_after (from_key (cursor_key e) rows) = Map.empty \<longrightarrow>
        txs = transactions_from (from_key (cursor_key e) rows) \<and> skips = undecodable_from (from_key (cursor_key e) rows)"
      by blast
    have "run_pages (Suc n) rows st i c txs0 skips0 =
        Some (txs0 @ transactions page @ txs, skips0 @ skipped_list page @ skips)"
      using from_bytes less False rest(1) by (simp add: page(1) e_def [symmetric] Let_def)
    moreover have "transactions page @ txs = transactions_from ?rows \<and> skipped_list page @ skips = undecodable_from ?rows"
      if clean: "\<not> (\<exists>x \<in> set (skipped_list page @ skips). chunks_broken x)" and none: "pending_after ?rows = Map.empty"
    proof -
      have split: "before (cursor_key e) ?rows @ from_key (cursor_key e) rows = ?rows"
        using ordered_split [OF ordered_from [OF ord]] from_from [OF less_imp_le [OF less]] by metis
      have empty: "pending_after (before (cursor_key e) ?rows) = Map.empty" using page(6) clean by (simp add: e_def)
      note restart = restart [OF empty, of "from_key (cursor_key e) rows", unfolded split]
      have "txs = transactions_from (from_key (cursor_key e) rows)" "skips = undecodable_from (from_key (cursor_key e) rows)"
        using rest(2) clean none restart(2) by auto
      moreover have "skipped_list page = undecodable_from (before (cursor_key e) ?rows)"
        using page(5) whole clean by (simp add: e_def)
      ultimately show ?thesis
        using page(4) by (simp add: e_def transactions_from_def undecodable_from_def restart(1) [unfolded e_def])
    qed
    ultimately show ?thesis by blast
  qed
qed simp

text \<open>
  C20.  Paging ends, whatever the stop checks: twice as many pages as there are rows are enough.
  When no transaction was reported broken and the rows end with none pending, the pages together
  return each transaction of the store once, in order, and every undecodable one.
\<close>

theorem paging_returns_each_once:
  assumes "ordered rows" and "\<forall>(k, v) \<in> set rows. profile_key k" and "2 * length rows < n"
  shows "\<exists>txs skips. run_pages n rows st 0 cursor_beginning [] [] = Some (txs, skips) \<and>
    (\<not> (\<exists>x \<in> set skips. chunks_broken x) \<and> pending_after rows = Map.empty \<longrightarrow>
      txs = transactions_from rows \<and> skips = undecodable_from rows)"
proof -
  have "card {k \<in> marks rows. cursor_key cursor_beginning < k} \<le> card (marks rows)"
    by (intro card_mono) (auto simp: marks_def)
  also have "\<dots> \<le> card (fst ` set rows) + card (key_after ` fst ` set rows)" unfolding marks_def by (rule card_Un_le)
  also have "\<dots> \<le> length rows + length rows"
    using card_image_le [of "set rows" fst] card_image_le [of "fst ` set rows" key_after] card_length [of rows] by simp
  finally have fuel: "card {k \<in> marks rows. cursor_key cursor_beginning < k} < n" using assms(3) by simp
  have beg: "profile_key (cursor_key cursor_beginning)" by (simp add: profile_key_def cursor_beginning_def)
  have "from_key (cursor_key cursor_beginning) rows = rows"
    using assms(2) profile_key_range(1) by (auto simp: from_key_def filter_id_conv cursor_beginning_def)
  with run_pages_spec [OF assms(1,2) beg fuel, of st 0 "[]" "[]"] show ?thesis by simp
qed

end
