(* ===== verification/Profile_Wire.thy ===== *)
theory Profile_Wire
  imports Profile_Decode
begin

text \<open>
  The wire format of profiling blobs: a writer after the C++ client and the tests of
  \<^verbatim>\<open>decode.rs\<close>, which the decoder inverts, and the properties of the decoder.
\<close>

section \<open>The wire format\<close>

text \<open>
  \<open>wires m bs a\<close>: the method \<open>m\<close> reads exactly the bytes \<open>bs\<close>, wherever they are, as \<open>a\<close>.
\<close>

definition wires :: "'a read \<Rightarrow> bytes \<Rightarrow> 'a \<Rightarrow> bool" where
  "wires m bs a \<longleftrightarrow> (\<forall>pre rest. m \<lparr>rbuf = pre @ bs @ rest, rpos = length pre\<rparr> =
     Inr (a, \<lparr>rbuf = pre @ bs @ rest, rpos = length (pre @ bs)\<rparr>))"

lemma wires_ok: "wires (read_ok a) [] a"
  by (simp add: wires_def read_ok_def)

lemma wires_take: "length bs = n \<Longrightarrow> wires (read_take n) bs bs"
  by (simp add: wires_def read_take_def)

lemma wires_then:
  assumes "wires m b1 a" and "wires (f a) b2 c"
  shows "wires (read_then m f) (b1 @ b2) c"
  unfolding wires_def read_then_def
proof (intro allI)
  fix pre rest
  show "bind_result (m \<lparr>rbuf = pre @ (b1 @ b2) @ rest, rpos = length pre\<rparr>) (\<lambda>(a, r'). f a r') =
      Inr (c, \<lparr>rbuf = pre @ (b1 @ b2) @ rest, rpos = length (pre @ b1 @ b2)\<rparr>)"
    using assms(1) [unfolded wires_def, rule_format, of pre "b2 @ rest"]
      assms(2) [unfolded wires_def, rule_format, of "pre @ b1" rest] by simp
qed

lemma wires_map: "wires m bs a \<Longrightarrow> wires (read_then m (\<lambda>a. read_ok (g a))) bs (g a)"
  using wires_then [where f = "\<lambda>a. read_ok (g a)" and ?b2.0 = "[]" and c = "g a"] wires_ok by fastforce

definition bool_byte :: "bool \<Rightarrow> byte" where
  "bool_byte b = (if b then 1 else 0)"

lemma wires_scalars:
  "wires read_u8 [x] x" "wires read_bool [bool_byte b] b"
  "wires read_u32 (to_le_bytes u) u" "wires read_i32 (to_le_bytes i) i"
  "wires read_u64 (to_le_bytes v) v" "wires read_i64 (to_le_bytes l) l" "wires read_f64 (to_le_bytes d) d"
proof -
  have a: "wires (read_array n) bs bs" if "length bs = n" for n bs
    unfolding read_array_def using wires_map [OF wires_take [OF that], where g = id] by simp
  show u8: "wires read_u8 [x] x" for x
    unfolding read_u8_def using wires_map [OF a [of "[x]" 1], where g = "\<lambda>a. a ! 0"] by simp
  show "wires read_bool [bool_byte b] b"
    unfolding read_bool_def using wires_map [OF u8 [of "bool_byte b"], where g = "\<lambda>b. b \<noteq> 0"]
    by (cases b) (simp_all add: bool_byte_def)
  have w: "wires (read_then (read_array (size_of w)) (\<lambda>a. read_ok (from_le_bytes a))) (to_le_bytes w) w"
    if "8 dvd LENGTH('a)" for w :: "'a::len word"
    using wires_map [OF a [of "to_le_bytes w" "size_of w"], where g = "from_le_bytes :: bytes \<Rightarrow> 'a word"] from_to_le_bytes [OF that, of w] by simp
  show "wires read_u32 (to_le_bytes u) u" "wires read_i32 (to_le_bytes i) i"
    "wires read_u64 (to_le_bytes v) v" "wires read_i64 (to_le_bytes l) l" "wires read_f64 (to_le_bytes d) d"
    unfolding read_u32_def read_i32_def read_u64_def read_i64_def read_f64_def
    using w [of u] w [of i] w [of v] w [of l] w [of d] by (simp_all add: size_of_def)
qed

text \<open>
  The writer of the format, after \<^verbatim>\<open>ClientLogEvents.h\<close> and the writer \<^verbatim>\<open>W\<close> of the
  tests: a range or a clear of a single key is written in its short form, and a mutation may
  carry a checksum of four bytes, with an index of two more, as \<open>csum\<close> says.
\<close>

definition w_bytes :: "bytes \<Rightarrow> bytes" where
  "w_bytes v = to_le_bytes (of_nat (length v) :: u32) @ v"

definition w_header :: "i32 \<Rightarrow> event_header \<Rightarrow> bytes" where
  "w_header event_type h =
     to_le_bytes event_type @ to_le_bytes (start_timestamp h) @ w_bytes (dc_id h) @
     (case tenant h of Some t \<Rightarrow> [1] @ w_bytes t | None \<Rightarrow> [0])"

definition w_vec :: "('a \<Rightarrow> bytes) \<Rightarrow> 'a list \<Rightarrow> bytes" where
  "w_vec enc xs = to_le_bytes (of_nat (length xs) :: u32) @ concat (map enc xs)"

definition w_key_range :: "key_range \<Rightarrow> bytes" where
  "w_key_range r = w_bytes (range_begin r) @ w_bytes (range_end r)"

definition w_conflict_range :: "key_range \<Rightarrow> bytes" where
  "w_conflict_range r =
     (if range_end r = range_begin r @ [0] then w_bytes (range_end r) @ w_bytes [] else w_key_range r)"

type_synonym checksum = "(bytes \<times> bytes option) option"

definition suffix_bytes :: "checksum \<Rightarrow> bytes" where
  "suffix_bytes cs = (case cs of None \<Rightarrow> [] | Some (cks, index) \<Rightarrow> cks @ (case index of None \<Rightarrow> [] | Some i \<Rightarrow> i))"

definition type_flags :: "checksum \<Rightarrow> byte" where
  "type_flags cs = (case cs of None \<Rightarrow> 0 | Some (cks, index) \<Rightarrow> (case index of None \<Rightarrow> 0x80 | Some i \<Rightarrow> 0xc0))"

definition w_mutation :: "(mutation \<Rightarrow> checksum) \<Rightarrow> mutation \<Rightarrow> bytes" where
  "w_mutation csum m =
     (let (p1, p2) = (if mutation_type m = CLEAR_RANGE \<and> param2 m = param1 m @ [0]
                      then (param2 m, []) else (param1 m, param2 m))
      in [or (mutation_type m) (type_flags (csum m))] @ w_bytes p1 @ w_bytes (p2 @ suffix_bytes (csum m)))"

definition w_span :: "protocol_version \<Rightarrow> span_context \<Rightarrow> bytes" where
  "w_span version c = to_le_bytes (fst (trace_id c)) @ to_le_bytes (snd (trace_id c)) @
     (if has_otel_span_context version then to_le_bytes (span_id c) @ [span_flags c] else [])"

definition w_commit_request :: "protocol_version \<Rightarrow> (mutation \<Rightarrow> checksum) \<Rightarrow> commit_request \<Rightarrow> bytes" where
  "w_commit_request version csum req =
     w_vec w_conflict_range (read_conflict_ranges req) @ w_vec w_conflict_range (write_conflict_ranges req) @
     w_vec (w_mutation csum) (mutations req) @ to_le_bytes (read_snapshot req) @
     [bool_byte (report_conflicting_keys req)] @ [bool_byte (lock_aware req)] @
     (case span_context_of req of Some c \<Rightarrow> [1] @ w_span version c | None \<Rightarrow> [0])"

fun w_event :: "protocol_version \<Rightarrow> (mutation \<Rightarrow> checksum) \<Rightarrow> event \<Rightarrow> bytes" where
  "w_event version csum (GetVersion h lat prio v) =
     w_header 0 h @ to_le_bytes lat @ to_le_bytes prio @ to_le_bytes v"
| "w_event version csum (GetKey h lat sz key) = w_header 1 h @ to_le_bytes lat @ to_le_bytes sz @ w_bytes key"
| "w_event version csum (GetRange h lat sz r) = w_header 2 h @ to_le_bytes lat @ to_le_bytes sz @ w_key_range r"
| "w_event version csum (CommitOk h lat num sz v req) =
     w_header 3 h @ to_le_bytes lat @ to_le_bytes num @ to_le_bytes sz @ to_le_bytes v @
     w_commit_request version csum req"
| "w_event version csum (GetError h code key) = w_header 4 h @ to_le_bytes code @ w_bytes key"
| "w_event version csum (GetRangeError h code r) = w_header 5 h @ to_le_bytes code @ w_key_range r"
| "w_event version csum (CommitError h code req) = w_header 6 h @ to_le_bytes code @ w_commit_request version csum req"

definition w_blob :: "protocol_version \<Rightarrow> (mutation \<Rightarrow> checksum) \<Rightarrow> event list \<Rightarrow> bytes" where
  "w_blob version csum events = to_le_bytes (version_code version) @ concat (map (w_event version csum) events)"

text \<open>What a client can record: lengths fit their fields, and the short forms are not ambiguous.\<close>

definition short :: "'a list \<Rightarrow> bool" where
  "short xs \<longleftrightarrow> length xs < 4294967290"

definition wf_range :: "key_range \<Rightarrow> bool" where
  "wf_range r \<longleftrightarrow> short (range_begin r) \<and> short (range_end r)"

definition wf_conflict_range :: "key_range \<Rightarrow> bool" where
  "wf_conflict_range r \<longleftrightarrow> wf_range r \<and> (range_end r = [] \<longrightarrow> range_begin r = [])"

definition wf_checksum :: "checksum \<Rightarrow> bool" where
  "wf_checksum cs \<longleftrightarrow> (\<forall>s i. cs = Some (s, i) \<longrightarrow> length s = 4 \<and> (\<forall>x. i = Some x \<longrightarrow> length x = 2))"

definition wf_mutation :: "mutation \<Rightarrow> bool" where
  "wf_mutation m \<longleftrightarrow> mutation_type m < 64 \<and> short (param1 m) \<and> short (param2 m) \<and>
     (mutation_type m = CLEAR_RANGE \<longrightarrow> param2 m = [] \<longrightarrow> param1 m = [])"

definition wf_span :: "protocol_version \<Rightarrow> span_context \<Rightarrow> bool" where
  "wf_span version c \<longleftrightarrow> has_otel_span_context version \<or> span_id c = 0 \<and> span_flags c = 0"

definition wf_header :: "event_header \<Rightarrow> bool" where
  "wf_header h \<longleftrightarrow> short (dc_id h) \<and> pred_option short (tenant h)"

definition wf_request :: "protocol_version \<Rightarrow> commit_request \<Rightarrow> bool" where
  "wf_request version req \<longleftrightarrow>
     short (read_conflict_ranges req) \<and> list_all wf_conflict_range (read_conflict_ranges req) \<and>
     short (write_conflict_ranges req) \<and> list_all wf_conflict_range (write_conflict_ranges req) \<and>
     short (mutations req) \<and> list_all wf_mutation (mutations req) \<and>
     pred_option (wf_span version) (span_context_of req)"

fun wf_event :: "protocol_version \<Rightarrow> event \<Rightarrow> bool" where
  "wf_event version (GetKey h lat sz key) \<longleftrightarrow> wf_header h \<and> short key"
| "wf_event version (GetRange h lat sz r) \<longleftrightarrow> wf_header h \<and> wf_range r"
| "wf_event version (CommitOk h lat num sz v req) \<longleftrightarrow> wf_header h \<and> wf_request version req"
| "wf_event version (GetError h code key) \<longleftrightarrow> wf_header h \<and> short key"
| "wf_event version (GetRangeError h code r) \<longleftrightarrow> wf_header h \<and> wf_range r"
| "wf_event version (CommitError h code req) \<longleftrightarrow> wf_header h \<and> wf_request version req"
| "wf_event version (GetVersion h lat prio v) \<longleftrightarrow> wf_header h"

lemma wires_bytes: "length v < 4294967296 \<Longrightarrow> wires read_bytes (w_bytes v) v"
  unfolding read_bytes_def w_bytes_def
  by (rule wires_then [OF wires_scalars(3)]) (simp add: wires_take unat_of_nat)

lemma wires_key_range:
  assumes "wf_range r"
  shows "wires read_key_range (w_key_range r) r"
proof -
  have len: "length (range_begin r) < 4294967296" "length (range_end r) < 4294967296"
    using assms by (simp_all add: wf_range_def short_def)
  have "wires read_key_range (w_bytes (range_begin r) @ w_bytes (range_end r)) (KeyRange (range_begin r) (range_end r))"
    unfolding read_key_range_def
    by (rule wires_then [OF wires_bytes [OF len(1)]]) (rule wires_map [OF wires_bytes [OF len(2)]])
  then show ?thesis by (simp add: w_key_range_def)
qed

lemma wires_times:
  assumes "\<And>x. x \<in> set xs \<Longrightarrow> wires elem (enc x) x"
  shows "wires (read_times (length xs) elem out) (concat (map enc xs)) (out @ xs)"
  using assms
proof (induction xs arbitrary: out)
  case (Cons x xs)
  have "wires (read_times (length xs) elem (out @ [x])) (concat (map enc xs)) ((out @ [x]) @ xs)"
    by (rule Cons.IH) (simp add: Cons.prems)
  with wires_then [OF Cons.prems [of x], where f = "\<lambda>a. read_times (length xs) elem (out @ [a])"]
  show ?case by simp
qed (simp add: wires_ok)

lemma wires_vec:
  assumes "list_all ok xs" and "short xs" and "\<And>x. ok x \<Longrightarrow> wires elem (enc x) x"
  shows "wires (read_vec elem) (w_vec enc xs) xs"
  unfolding read_vec_def w_vec_def
proof (rule wires_then [OF wires_scalars(3)])
  have "unat (of_nat (length xs) :: u32) = length xs"
    using assms(2) by (simp add: short_def unat_of_nat)
  with wires_times [of xs elem enc "[]"] assms(1,3)
  show "wires (read_times (unat (of_nat (length xs) :: u32)) elem []) (concat (map enc xs)) xs"
    by (simp add: list_all_iff)
qed

lemma wires_located:
  assumes "wires m bs a" and "\<And>i. f i a = read_ok c"
  shows "wires (read_then read_pos (\<lambda>i. read_then m (f i))) bs c"
  using assms by (simp add: wires_def read_then_def read_pos_def read_ok_def)

lemma wires_conflict_range:
  assumes "wf_conflict_range r"
  shows "wires read_conflict_range (w_conflict_range r) r"
proof (cases "range_end r = range_begin r @ [0]")
  case True
  have "wires read_conflict_range (w_key_range (KeyRange (range_end r) [])) r"
    unfolding read_conflict_range_def
  proof (rule wires_located [OF wires_key_range])
    show "wf_range (KeyRange (range_end r) [])"
      using assms by (simp add: wf_conflict_range_def wf_range_def short_def)
    show "expand_range i (KeyRange (range_end r) []) = read_ok r" for i
      using True by (cases r) (simp add: expand_range_def)
  qed
  with True show ?thesis by (simp add: w_conflict_range_def w_key_range_def)
next
  case False
  have "wires read_conflict_range (w_key_range r) r"
    unfolding read_conflict_range_def
  proof (rule wires_located [OF wires_key_range])
    show "wf_range r" using assms by (simp add: wf_conflict_range_def)
    show "expand_range i r = read_ok r" for i
      using assms by (auto simp: expand_range_def wf_conflict_range_def)
  qed
  with False show ?thesis by (simp add: w_conflict_range_def)
qed

text \<open>The flags of the mutation type are apart from the types themselves.\<close>

lemma flags:
  assumes "t < (64 :: byte)"
  shows "and (or t 0x80) 0x80 \<noteq> 0" "and (or t 0x80) 0x40 = 0" "and (or t 0x80) (not 0xc0) = t"
    "and (or t 0xc0) 0x80 \<noteq> 0" "and (or t 0xc0) 0x40 \<noteq> 0" "and (or t 0xc0) (not 0xc0) = t" "and t 0x80 = 0"
proof -
  have "take_bit 6 t = t"
  proof -
    have "unat t < 64" using assms by (simp add: word_less_nat_alt)
    then show ?thesis
      by (simp add: word_unat_eq_iff unsigned_take_bit_eq take_bit_nat_eq_self)
  qed
  then have t: "bit t n \<Longrightarrow> n < 6" for n by (metis bit_take_bit_iff)
  have c: "(0x80 :: byte) = 2 ^ 7" "(0x40 :: byte) = 2 ^ 6" "(0xc0 :: byte) = or (2 ^ 7) (2 ^ 6)" by simp_all
  have b: "bit (2 ^ 7 :: byte) n \<longleftrightarrow> n = 7" "bit (2 ^ 6 :: byte) n \<longleftrightarrow> n = 6" for n
    by (simp_all only: bit_exp_iff) (auto simp: possible_bit_word)
  have ne: "x \<noteq> 0" if "bit x n" for x :: byte and n using that by auto
  show "and (or t 0x80) 0x80 \<noteq> 0" "and (or t 0xc0) 0x80 \<noteq> 0"
    by (rule ne [of _ 7]; simp only: c bit_and_iff bit_or_iff b; simp)+
  show "and (or t 0xc0) 0x40 \<noteq> 0"
    by (rule ne [of _ 6]; simp only: c bit_and_iff bit_or_iff b; simp)
  show "and (or t 0x80) 0x40 = 0" "and t 0x80 = 0"
    by (rule bit_word_eqI; simp only: c bit_and_iff bit_or_iff b; auto dest: t)+
  show "and (or t 0x80) (not 0xc0) = t" "and (or t 0xc0) (not 0xc0) = t"
    by (rule bit_word_eqI; simp only: c bit_and_iff bit_or_iff bit_not_iff b; auto dest: t)+
qed

lemma strip_checksum_wire:
  assumes "mutation_type m < 64" and "wf_checksum cs"
  shows "strip_checksum i \<lparr>mutation_type = or (mutation_type m) (type_flags cs), param1 = p1, param2 = p2 @ suffix_bytes cs\<rparr> =
    read_ok \<lparr>mutation_type = mutation_type m, param1 = p1, param2 = p2\<rparr>"
proof -
  have masks: "CHECKSUM_FLAG_MASK = 0x80" "ACCUMULATIVE_CHECKSUM_INDEX_FLAG_MASK = 0x40"
    "or CHECKSUM_FLAG_MASK ACCUMULATIVE_CHECKSUM_INDEX_FLAG_MASK = 0xc0"
    by (simp_all add: CHECKSUM_FLAG_MASK_def ACCUMULATIVE_CHECKSUM_INDEX_FLAG_MASK_def)
  consider "cs = None" | s where "cs = Some (s, None)" "length s = 4"
    | s x where "cs = Some (s, Some x)" "length s = 4" "length x = 2"
    using assms(2) by (cases cs) (auto simp: wf_checksum_def, metis option.exhaust)
  then show ?thesis
    by cases (simp_all add: strip_checksum_def masks(3) Let_def suffix_bytes_def type_flags_def
      CHECKSUM_LEN_def ACCUMULATIVE_CHECKSUM_INDEX_LEN_def flags [OF assms(1)] flags(3,6) [OF assms(1), simplified] masks(1,2))
qed

lemma wires_mutation:
  assumes "wf_mutation m" and "wf_checksum (csum m)"
  shows "wires read_mutation (w_mutation csum m) m"
proof -
  define p1 where "p1 = (if mutation_type m = CLEAR_RANGE \<and> param2 m = param1 m @ [0] then param2 m else param1 m)"
  define p2 where "p2 = (if mutation_type m = CLEAR_RANGE \<and> param2 m = param1 m @ [0] then [] else param2 m)"
  have w: "w_mutation csum m = [or (mutation_type m) (type_flags (csum m))] @ w_bytes p1 @ w_bytes (p2 @ suffix_bytes (csum m))"
    by (simp add: w_mutation_def p1_def p2_def)
  have suf: "length (suffix_bytes (csum m)) \<le> 6"
    using assms(2) by (auto simp: suffix_bytes_def wf_checksum_def split: option.split)
  have len: "length p1 < 4294967296" "length (p2 @ suffix_bytes (csum m)) < 4294967296"
    using assms(1) suf by (auto simp: p1_def p2_def wf_mutation_def short_def)
  have fields: "wires read_mutation_fields (w_mutation csum m)
      \<lparr>mutation_type = or (mutation_type m) (type_flags (csum m)), param1 = p1, param2 = p2 @ suffix_bytes (csum m)\<rparr>"
    unfolding read_mutation_fields_def w
    by (rule wires_then [OF wires_scalars(1)], rule wires_then [OF wires_bytes [OF len(1)]],
        rule wires_map [OF wires_bytes [OF len(2)]])
  show ?thesis
    unfolding read_mutation_def
  proof (rule wires_located [OF fields])
    have "expand_clear \<lparr>mutation_type = mutation_type m, param1 = p1, param2 = p2\<rparr> = m"
    proof (cases "mutation_type m = CLEAR_RANGE \<and> param2 m = param1 m @ [0]")
      case True
      then have "p1 = param1 m @ [0]" "p2 = []" by (simp_all add: p1_def p2_def)
      with True show ?thesis by (simp add: expand_clear_def)
    next
      case False
      then have "p1 = param1 m" "p2 = param2 m" by (auto simp: p1_def p2_def)
      with assms(1) show ?thesis by (auto simp: expand_clear_def wf_mutation_def)
    qed
    with strip_checksum_wire [OF _ assms(2), where m = m and ?p1.0 = p1 and ?p2.0 = p2] assms(1)
    show "read_then (strip_checksum i \<lparr>mutation_type = or (mutation_type m) (type_flags (csum m)),
        param1 = p1, param2 = p2 @ suffix_bytes (csum m)\<rparr>) (\<lambda>m. read_ok (expand_clear m)) = read_ok m" for i
      by (simp add: wf_mutation_def)
  qed
qed

lemma wires_option:
  assumes "\<And>x. v = Some x \<Longrightarrow> wires m (enc x) x"
  shows "wires (if v \<noteq> None then read_then m (\<lambda>a. read_ok (Some a)) else read_ok None)
    (case v of Some x \<Rightarrow> enc x | None \<Rightarrow> []) v"
  using assms by (cases v) (auto simp: wires_ok intro: wires_map)

lemma wires_flagged:
  assumes "\<And>x. v = Some x \<Longrightarrow> wires m (enc x) x" and "wires (f v) bs c"
  shows "wires (read_then read_bool (\<lambda>has. read_then
    (if has then read_then m (\<lambda>a. read_ok (Some a)) else read_ok None) f))
    ((case v of Some x \<Rightarrow> [1] @ enc x | None \<Rightarrow> [0]) @ bs) c"
proof -
  have "(case v of Some x \<Rightarrow> [1] @ enc x | None \<Rightarrow> [0]) =
      [bool_byte (v \<noteq> None)] @ (case v of Some x \<Rightarrow> enc x | None \<Rightarrow> [])"
    by (cases v) (simp_all add: bool_byte_def)
  moreover have "wires (read_then read_bool (\<lambda>has. read_then
    (if has then read_then m (\<lambda>a. read_ok (Some a)) else read_ok None) f))
    ([bool_byte (v \<noteq> None)] @ ((case v of Some x \<Rightarrow> enc x | None \<Rightarrow> []) @ bs)) c"
    using wires_then [where f = f, OF wires_option [where v = v and m = m and enc = enc] assms(2)] assms(1)
    by (intro wires_then [OF wires_scalars(2)]) simp
  ultimately show ?thesis by simp
qed

lemma wires_header:
  assumes "wf_header h"
  shows "\<exists>bs. w_header t h = to_le_bytes t @ bs \<and> wires read_header bs h"
proof -
  have len: "length (dc_id h) < 4294967296" using assms by (simp add: wf_header_def short_def)
  have ten: "\<And>x. tenant h = Some x \<Longrightarrow> length x < 4294967296"
    using assms by (auto simp: wf_header_def short_def)
  let ?bs = "to_le_bytes (start_timestamp h) @ w_bytes (dc_id h) @
     (case tenant h of Some t \<Rightarrow> [1] @ w_bytes t | None \<Rightarrow> [0])"
  have "wires read_header ?bs h"
    unfolding read_header_def
  proof (rule wires_then [OF wires_scalars(7)], rule wires_then [OF wires_bytes [OF len]])
    have "wires (read_ok \<lparr>start_timestamp = start_timestamp h, dc_id = dc_id h, tenant = tenant h\<rparr>) [] h"
      by (cases h) (simp add: wires_ok)
    from wires_flagged [where v = "tenant h" and m = read_bytes and enc = w_bytes
        and f = "\<lambda>t. read_ok \<lparr>start_timestamp = start_timestamp h, dc_id = dc_id h, tenant = t\<rparr>", OF wires_bytes this] ten
    show "wires (read_then read_bool (\<lambda>has_tenant. read_then
        (if has_tenant then read_then read_bytes (\<lambda>t. read_ok (Some t)) else read_ok None)
        (\<lambda>t. read_ok \<lparr>start_timestamp = start_timestamp h, dc_id = dc_id h, tenant = t\<rparr>)))
      (case tenant h of Some t \<Rightarrow> [1] @ w_bytes t | None \<Rightarrow> [0]) h"
      by simp
  qed
  then show ?thesis by (simp add: w_header_def)
qed

lemma wires_span:
  assumes "wf_span version c"
  shows "wires (read_span_context version) (w_span version c) c"
proof -
  obtain t0 t1 where t: "trace_id c = (t0, t1)" by (cases "trace_id c")
  show ?thesis
    unfolding read_span_context_def w_span_def t fst_conv snd_conv
  proof (rule wires_then [OF wires_scalars(5)], rule wires_then [OF wires_scalars(5)])
    show "wires (if has_otel_span_context version
       then read_then read_u64 (\<lambda>span. read_then read_u8 (\<lambda>fl.
         read_ok \<lparr>trace_id = (t0, t1), span_id = span, span_flags = fl\<rparr>))
       else read_ok \<lparr>trace_id = (t0, t1), span_id = 0, span_flags = 0\<rparr>)
      (if has_otel_span_context version then to_le_bytes (span_id c) @ [span_flags c] else []) c"
    proof (cases "has_otel_span_context version")
      case True
      have "wires (read_then read_u64 (\<lambda>span. read_then read_u8 (\<lambda>fl.
         read_ok \<lparr>trace_id = (t0, t1), span_id = span, span_flags = fl\<rparr>)))
         (to_le_bytes (span_id c) @ [span_flags c]) \<lparr>trace_id = (t0, t1), span_id = span_id c, span_flags = span_flags c\<rparr>"
        by (rule wires_then [OF wires_scalars(5)], rule wires_map [OF wires_scalars(1)])
      with True t show ?thesis by (cases c) simp
    next
      case False
      with assms t have "c = \<lparr>trace_id = (t0, t1), span_id = 0, span_flags = 0\<rparr>"
        by (cases c) (simp add: wf_span_def)
      with False show ?thesis by (simp add: wires_ok)
    qed
  qed
qed

lemma wires_request:
  assumes "wf_request version req" and "\<And>m. wf_checksum (csum m)"
  shows "wires (read_commit_request version) (w_commit_request version csum req) req"
proof -
  have wf: "short (read_conflict_ranges req)" "list_all wf_conflict_range (read_conflict_ranges req)"
    "short (write_conflict_ranges req)" "list_all wf_conflict_range (write_conflict_ranges req)"
    "short (mutations req)" "list_all wf_mutation (mutations req)"
    and span: "\<And>c. span_context_of req = Some c \<Longrightarrow> wf_span version c"
    using assms(1) by (auto simp: wf_request_def)
  have mut: "wf_mutation m \<Longrightarrow> wires read_mutation (w_mutation csum m) m" for m
    using wires_mutation assms(2) by blast
  let ?last = "\<lambda>span. read_ok \<lparr>read_conflict_ranges = read_conflict_ranges req, write_conflict_ranges = write_conflict_ranges req,
     mutations = mutations req, read_snapshot = read_snapshot req,
     report_conflicting_keys = report_conflicting_keys req, lock_aware = lock_aware req, span_context_of = span\<rparr>"
  have "wires (?last (span_context_of req)) [] req" by (cases req) (simp add: wires_ok)
  from wires_flagged [where v = "span_context_of req" and m = "read_span_context version" and enc = "w_span version"
      and f = ?last, OF wires_span this] span
  have last: "wires (read_then read_bool (\<lambda>has. read_then
      (if has then read_then (read_span_context version) (\<lambda>c. read_ok (Some c)) else read_ok None) ?last))
      (case span_context_of req of Some c \<Rightarrow> [1] @ w_span version c | None \<Rightarrow> [0]) req" by simp
  have vecs: "wires (read_vec read_conflict_range) (w_vec w_conflict_range (read_conflict_ranges req)) (read_conflict_ranges req)"
    "wires (read_vec read_conflict_range) (w_vec w_conflict_range (write_conflict_ranges req)) (write_conflict_ranges req)"
    "wires (read_vec read_mutation) (w_vec (w_mutation csum) (mutations req)) (mutations req)"
    using wf mut wires_conflict_range by (blast intro: wires_vec)+
  show ?thesis
    unfolding read_commit_request_def w_commit_request_def
    by (rule wires_then [OF vecs(1)], rule wires_then [OF vecs(2)], rule wires_then [OF vecs(3)],
        rule wires_then [OF wires_scalars(6)], rule wires_then [OF wires_scalars(2)],
        rule wires_then [OF wires_scalars(2)], rule last)
qed

lemma wires_event:
  assumes "wf_event version e" and "\<And>m. wf_checksum (csum m)"
  shows "wires (read_event version) (w_event version csum e) e"
proof -
  have head: "wires (read_event version) (w_header t h @ bs) e"
    if "t \<in> {0..6}" and "wf_header h" and body: "wires (read_event_body version t h) bs e" for t h bs
  proof -
    from wires_header [OF that(2), of t] obtain hb where hb: "w_header t h = to_le_bytes t @ hb" "wires read_header hb h"
      by blast
    have "wires (read_event version) (to_le_bytes t @ hb @ bs) e"
      unfolding read_event_def event_code_range
    proof (rule wires_then [OF wires_scalars(4)])
      from wires_then [where f = "read_event_body version t", OF hb(2) body] that(1)
      show "wires (if t \<notin> {0..6} then read_err (UnknownEventType t)
        else read_then read_header (read_event_body version t)) (hb @ bs) e" by simp
    qed
    then show ?thesis by (simp add: hb(1))
  qed
  have s: "short v \<Longrightarrow> length v < 4294967296" for v :: bytes by (simp add: short_def)
  show ?thesis
  proof (cases e)
    case (GetVersion h lat prio v)
    have "wires (read_event_body version 0 h) (to_le_bytes lat @ to_le_bytes prio @ to_le_bytes v) e"
      unfolding read_event_body_def event_codes GetVersion
      by (simp, rule wires_then [OF wires_scalars(7)], rule wires_then [OF wires_scalars(3)], rule wires_map [OF wires_scalars(6)])
    with head [of 0 h] assms(1) GetVersion show ?thesis by simp
  next
    case (GetKey h lat sz key)
    with assms(1) s have key: "length key < 4294967296" by simp
    have "wires (read_event_body version 1 h) (to_le_bytes lat @ to_le_bytes sz @ w_bytes key) e"
      unfolding read_event_body_def event_codes GetKey
      by (simp, rule wires_then [OF wires_scalars(7)], rule wires_then [OF wires_scalars(4)], rule wires_map [OF wires_bytes [OF key]])
    with head [of 1 h] assms(1) GetKey show ?thesis by simp
  next
    case (GetRange h lat sz r)
    with assms(1) have r: "wf_range r" by simp
    have "wires (read_event_body version 2 h) (to_le_bytes lat @ to_le_bytes sz @ w_key_range r) e"
      unfolding read_event_body_def event_codes GetRange
      by (simp, rule wires_then [OF wires_scalars(7)], rule wires_then [OF wires_scalars(4)], rule wires_map [OF wires_key_range [OF r]])
    with head [of 2 h] assms(1) GetRange show ?thesis by simp
  next
    case (CommitOk h lat num sz v req)
    with assms(1) have req: "wf_request version req" by simp
    have "wires (read_event_body version 3 h) (to_le_bytes lat @ to_le_bytes num @ to_le_bytes sz @ to_le_bytes v @
        w_commit_request version csum req) e"
      unfolding read_event_body_def event_codes CommitOk
      by (simp, rule wires_then [OF wires_scalars(7)], rule wires_then [OF wires_scalars(4)], rule wires_then [OF wires_scalars(4)],
          rule wires_then [OF wires_scalars(6)], rule wires_map [OF wires_request [OF req assms(2)]])
    with head [of 3 h] assms(1) CommitOk show ?thesis by simp
  next
    case (GetError h code key)
    with assms(1) s have key: "length key < 4294967296" by simp
    have "wires (read_event_body version 4 h) (to_le_bytes code @ w_bytes key) e"
      unfolding read_event_body_def event_codes GetError
      by (simp, rule wires_then [OF wires_scalars(4)], rule wires_map [OF wires_bytes [OF key]])
    with head [of 4 h] assms(1) GetError show ?thesis by simp
  next
    case (GetRangeError h code r)
    with assms(1) have r: "wf_range r" by simp
    have "wires (read_event_body version 5 h) (to_le_bytes code @ w_key_range r) e"
      unfolding read_event_body_def event_codes GetRangeError
      by (simp, rule wires_then [OF wires_scalars(4)], rule wires_map [OF wires_key_range [OF r]])
    with head [of 5 h] assms(1) GetRangeError show ?thesis by simp
  next
    case (CommitError h code req)
    with assms(1) have req: "wf_request version req" by simp
    have "wires (read_event_body version 6 h) (to_le_bytes code @ w_commit_request version csum req) e"
      unfolding read_event_body_def event_codes CommitError
      by (simp, rule wires_then [OF wires_scalars(4)], rule wires_map [OF wires_request [OF req assms(2)]])
    with head [of 6 h] assms(1) CommitError show ?thesis by simp
  qed
qed

lemma wires_loop:
  assumes "list_all (wf_event version) events" and "\<And>m. wf_checksum (csum m)"
  shows "decode_loop version \<lparr>rbuf = pre @ concat (map (w_event version csum) events), rpos = length pre\<rparr> out =
    Inr (out @ events)"
  using assms(1)
proof (induction events arbitrary: pre out)
  case Nil
  show ?case using decode_loop_end [of version pre out] by simp
next
  case (Cons e es)
  let ?w = "w_event version csum" and ?b = "pre @ concat (map (w_event version csum) (e # es))"
  have "wires (read_event version) (?w e) e" using Cons.prems assms(2) by (intro wires_event) simp_all
  from this [unfolded wires_def, rule_format, of pre "concat (map ?w es)"]
  have step: "read_event version \<lparr>rbuf = ?b, rpos = length pre\<rparr> = Inr (e, \<lparr>rbuf = ?b, rpos = length (pre @ ?w e)\<rparr>)"
    by simp
  have "length pre < length ?b"
    using ahead_Inr(2,3) [OF ahead_event _ step] by (cases "w_event version csum e") auto
  from decode_loop_next [OF this step] Cons.IH [of "pre @ ?w e" "out @ [e]"] Cons.prems show ?case by simp
qed

lemma decode_w_blob:
  assumes "is_supported version" and "list_all (wf_event version) events" and "\<And>m. wf_checksum (csum m)"
  shows "decode_events (w_blob version csum events) = Inr (version, events)"
proof -
  let ?body = "concat (map (w_event version csum) events)"
  have "read_u64 (reader_new (w_blob version csum events)) =
      Inr (version_code version, \<lparr>rbuf = w_blob version csum events, rpos = length (to_le_bytes (version_code version))\<rparr>)"
    using wires_scalars(5) [of "version_code version", unfolded wires_def, rule_format, of "[]" ?body]
    by (simp add: reader_new_def w_blob_def)
  moreover have "decode_loop version \<lparr>rbuf = w_blob version csum events,
      rpos = length (to_le_bytes (version_code version))\<rparr> [] = Inr ([] @ events)"
    unfolding w_blob_def by (rule wires_loop [OF assms(2,3)])
  ultimately show ?thesis using assms(1) by (simp add: decode_events_def)
qed

section \<open>Properties\<close>

text \<open>
  C18. Events survive the wire.  A blob written in one of the supported protocol versions, with
  any mixture of mutation checksums and with single-key ranges and clears in their short form, is
  decoded to its version and its events, in order.
\<close>

theorem decode_inverts_writer:
  assumes "is_supported version" and "list_all (wf_event version) events" and "\<And>m. wf_checksum (csum m)"
  shows "decode_events (w_blob version csum events) = Inr (version, events)"
  by (rule decode_w_blob [OF assms])

theorem decode_inverts_writer_witness:
  "decode_events (w_blob V7_4 (\<lambda>_. Some ([1, 2, 3, 4], Some [5, 6]))
     [GetKey \<lparr>start_timestamp = 1, dc_id = [], tenant = Some [7]\<rparr> 2 3 [8, 9],
      CommitOk \<lparr>start_timestamp = 1, dc_id = [], tenant = None\<rparr> 2 1 30 200
        \<lparr>read_conflict_ranges = [KeyRange [8] [8, 0]], write_conflict_ranges = [KeyRange [8] [9]],
         mutations = [\<lparr>mutation_type = CLEAR_RANGE, param1 = [8], param2 = [8, 0]\<rparr>], read_snapshot = 42,
         report_conflicting_keys = True, lock_aware = False,
         span_context_of = Some \<lparr>trace_id = (1, 2), span_id = 3, span_flags = 1\<rparr>\<rparr>]) =
   Inr (V7_4,
     [GetKey \<lparr>start_timestamp = 1, dc_id = [], tenant = Some [7]\<rparr> 2 3 [8, 9],
      CommitOk \<lparr>start_timestamp = 1, dc_id = [], tenant = None\<rparr> 2 1 30 200
        \<lparr>read_conflict_ranges = [KeyRange [8] [8, 0]], write_conflict_ranges = [KeyRange [8] [9]],
         mutations = [\<lparr>mutation_type = CLEAR_RANGE, param1 = [8], param2 = [8, 0]\<rparr>], read_snapshot = 42,
         report_conflicting_keys = True, lock_aware = False,
         span_context_of = Some \<lparr>trace_id = (1, 2), span_id = 3, span_flags = 1\<rparr>\<rparr>])"
  by (rule decode_inverts_writer)
    (simp_all add: is_supported_def wf_header_def short_def wf_request_def wf_conflict_range_def wf_range_def
      wf_mutation_def CLEAR_RANGE_def wf_span_def has_otel_span_context_def V7_4_def V7_2_def wf_checksum_def)

text \<open>What a reading method consumed is what the writer writes for its result.\<close>

lemma to_from_le_bytes:
  assumes "length a = LENGTH('a::len) div 8" and "8 dvd LENGTH('a)"
  shows "to_le_bytes (from_le_bytes a :: 'a word) = a"
proof -
  have "be_nat (rev a) < 2 ^ LENGTH('a)"
    using be_nat_less [of "rev a"] assms by (auto simp: dvd_def power_mult)
  with nat_be_be_nat [of "rev a"] assms show ?thesis
    by (simp add: to_le_bytes_def from_le_bytes_def to_be_bytes_def from_be_bytes_def size_of_def unat_of_nat)
qed

lemma consumed_take:
  "read_take n \<lparr>rbuf = b, rpos = i\<rparr> = Inr (a, r) \<Longrightarrow>
   length a = n \<and> drop i b = a @ drop (rpos r) b \<and> r = \<lparr>rbuf = b, rpos = rpos r\<rparr>"
  using append_take_drop_id [of n "drop i b"]
  by (auto simp: read_take_def add.commute split: if_splits)

lemma consumed_scalars:
  "read_u8 \<lparr>rbuf = b, rpos = i\<rparr> = Inr (t, r) \<Longrightarrow>
     drop i b = t # drop (rpos r) b \<and> r = \<lparr>rbuf = b, rpos = rpos r\<rparr>"
  "read_u32 \<lparr>rbuf = b, rpos = i\<rparr> = Inr (x, r) \<Longrightarrow>
     drop i b = to_le_bytes x @ drop (rpos r) b \<and> r = \<lparr>rbuf = b, rpos = rpos r\<rparr>"
  "read_i32 \<lparr>rbuf = b, rpos = i\<rparr> = Inr (x, r) \<Longrightarrow>
     drop i b = to_le_bytes x @ drop (rpos r) b \<and> r = \<lparr>rbuf = b, rpos = rpos r\<rparr>"
  "read_u64 \<lparr>rbuf = b, rpos = i\<rparr> = Inr (y, r) \<Longrightarrow>
     drop i b = to_le_bytes y @ drop (rpos r) b \<and> r = \<lparr>rbuf = b, rpos = rpos r\<rparr>"
  by (auto simp: read_u8_def read_u32_def read_i32_def read_u64_def read_array_def read_then_def read_ok_def
      bind_result_eq_Inr to_from_le_bytes length_Suc_conv dest!: consumed_take)

lemma consumed_bytes:
  assumes "read_bytes \<lparr>rbuf = b, rpos = i\<rparr> = Inr (v, r)"
  shows "length v < 2 ^ 32 \<and> drop i b = w_bytes v @ drop (rpos r) b \<and> r = \<lparr>rbuf = b, rpos = rpos r\<rparr>"
proof -
  from assms obtain n r1 where n: "read_u32 \<lparr>rbuf = b, rpos = i\<rparr> = Inr (n, r1)" "read_take (unat n) r1 = Inr (v, r)"
    by (auto simp: read_bytes_def read_then_def bind_result_eq_Inr)
  note 1 = consumed_scalars(2) [OF n(1)]
  from n(2) 1 have "read_take (unat n) \<lparr>rbuf = b, rpos = rpos r1\<rparr> = Inr (v, r)" by metis
  from consumed_take [OF this] 1 show ?thesis
    using unsigned_less [of n, where ?'a = nat] by (simp add: w_bytes_def)
qed

lemma bad_range_bytes:
  assumes "bad_range b i"
  obtains k rest where "length k < 2 ^ 32" and "drop i b = w_bytes k @ w_bytes [] @ rest" and "k \<noteq> []" and "last k \<noteq> 0"
proof -
  from assms obtain k r1 r where k: "read_bytes \<lparr>rbuf = b, rpos = i\<rparr> = Inr (k, r1)" "read_bytes r1 = Inr ([], r)"
    "k \<noteq> []" "last k \<noteq> 0"
    by (auto simp: bad_range_def read_key_range_def read_then_def read_ok_def bind_result_eq_Inr)
  note 1 = consumed_bytes [OF k(1)]
  from k(2) 1 have "read_bytes \<lparr>rbuf = b, rpos = rpos r1\<rparr> = Inr ([], r)" by metis
  from that [of k "drop (rpos r) b"] 1 consumed_bytes [OF this] k(3,4) show thesis by simp
qed

lemma bad_mutation_bytes:
  assumes "bad_mutation b i"
  obtains t p1 p2 rest where "length p1 < 2 ^ 32" and "drop i b = t # w_bytes p1 @ w_bytes p2 @ rest"
    and "and t 0x80 \<noteq> 0" and "length p2 < (if and t 0x40 \<noteq> 0 then 6 else 4)"
proof -
  from assms obtain t r1 p1 r2 p2 r where m: "read_u8 \<lparr>rbuf = b, rpos = i\<rparr> = Inr (t, r1)"
    "read_bytes r1 = Inr (p1, r2)" "read_bytes r2 = Inr (p2, r)"
    and bad: "and t 0x80 \<noteq> 0" "length p2 < (if and t 0x40 \<noteq> 0 then 6 else 4)"
    by (auto simp: bad_mutation_def read_mutation_fields_def read_then_def read_ok_def bind_result_eq_Inr
        CHECKSUM_FLAG_MASK_def ACCUMULATIVE_CHECKSUM_INDEX_FLAG_MASK_def)
  note 1 = consumed_scalars(1) [OF m(1)]
  from m(2) 1 have "read_bytes \<lparr>rbuf = b, rpos = rpos r1\<rparr> = Inr (p1, r2)" by metis
  note 2 = consumed_bytes [OF this]
  from m(3) 2 have "read_bytes \<lparr>rbuf = b, rpos = rpos r2\<rparr> = Inr (p2, r)" by metis
  from that [of p1 t p2 "drop (rpos r) b"] 1 2 consumed_bytes [OF this] bad show thesis by simp
qed

text \<open>
  C31. Malformed blobs are rejected where they are malformed.  When a blob is not decoded, the
  error names what is wrong and where: a read that needed more bytes than were left at its offset;
  the version in the first eight bytes, which is not supported; an event type outside 0 to 6, which
  is four bytes of the blob after the version; a key range that starts at the offset and has an
  empty end and a begin that is neither empty nor ends with a zero byte; or a mutation that starts
  at the offset, has the checksum flag and a second parameter shorter than the checksum it should
  end with, four bytes or six with the accumulative index.
\<close>

theorem decode_errors_located:
  assumes "decode_events blob = Inl e"
  shows "case e of
      UnexpectedEof offset needed rest \<Rightarrow> offset + rest = length blob \<and> rest < needed
    | UnsupportedProtocolVersion v \<Rightarrow>
        \<not> is_supported (ProtocolVersion v) \<and> 8 \<le> length blob \<and> take 8 blob = to_le_bytes v
    | UnknownEventType t \<Rightarrow> \<not> (0 \<le> sint t \<and> sint t \<le> 6) \<and>
        (\<exists>offset rest. 8 \<le> offset \<and> drop offset blob = to_le_bytes t @ rest)
    | MalformedKeyRange offset \<Rightarrow> 8 \<le> offset \<and> (\<exists>k rest. length k < 2 ^ 32 \<and>
        drop offset blob = w_bytes k @ w_bytes [] @ rest \<and> k \<noteq> [] \<and> last k \<noteq> 0)
    | MalformedMutation offset \<Rightarrow> 8 \<le> offset \<and> (\<exists>t p1 p2 rest. length p1 < 2 ^ 32 \<and>
        drop offset blob = t # w_bytes p1 @ w_bytes p2 @ rest \<and>
        and t 0x80 \<noteq> 0 \<and> length p2 < (if and t 0x40 \<noteq> 0 then 6 else 4))"
proof (cases "read_u64 \<lparr>rbuf = blob, rpos = 0\<rparr>")
  case (Inl e')
  with assms have "error_in \<lparr>rbuf = blob, rpos = 0\<rparr> e \<and> (\<exists>n. e = UnexpectedEof 0 8 n)"
    using ahead_Inl [OF ahead_scalars(5) _ Inl]
    by (auto simp: decode_events_def reader_new_def read_u64_def read_array_def read_then_def read_take_def
        read_ok_def bind_result_eq_Inl split: if_splits)
  then show ?thesis by auto
next
  case (Inr vr)
  obtain v r where vr: "vr = (v, r)" by (cases vr)
  note head = ahead_Inr [OF ahead_scalars(5) _ Inr [unfolded vr]]
  show ?thesis
  proof (cases "is_supported (ProtocolVersion v)")
    case False
    with assms Inr vr have "e = UnsupportedProtocolVersion v" by (simp add: decode_events_def reader_new_def)
    moreover have "blob = to_le_bytes v @ drop (rpos r) blob"
      using consumed_scalars(4) [OF Inr [unfolded vr]] by simp
    then have "take (length (to_le_bytes v)) blob = to_le_bytes v" by (metis append_eq_conv_conj)
    then have "take 8 blob = to_le_bytes v" by (simp add: size_of_def)
    ultimately show ?thesis using False head(2,3) by simp
  next
    case True
    with assms Inr vr have "decode_loop (ProtocolVersion v) r [] = Inl e"
      by (simp add: decode_events_def reader_new_def bind_result_eq_Inl Let_def)
    moreover have "r = \<lparr>rbuf = blob, rpos = rpos r\<rparr>" using head(1) by (cases r) simp
    ultimately have in_loop: "error_in \<lparr>rbuf = blob, rpos = rpos r\<rparr> e"
      using loop_error [of "rpos r" blob "ProtocolVersion v" "[]" e] head(3) by simp
    have start: "8 \<le> rpos r" using head(2) by simp
    show ?thesis
    proof (cases e)
      case (UnknownEventType t)
      with in_loop event_code_range [of t] obtain offset r' where "\<not> (0 \<le> sint t \<and> sint t \<le> 6)"
        and "rpos r \<le> offset" "read_i32 \<lparr>rbuf = blob, rpos = offset\<rparr> = Inr (t, r')"
        by (auto simp: event_codes)
      with UnknownEventType start consumed_scalars(3) show ?thesis by fastforce
    next
      case (MalformedKeyRange offset)
      with in_loop have "bad_range blob offset" "rpos r \<le> offset" by simp_all
      with MalformedKeyRange start show ?thesis by (auto elim!: bad_range_bytes)
    next
      case (MalformedMutation offset)
      with in_loop have "bad_mutation blob offset" "rpos r \<le> offset" by simp_all
      from bad_mutation_bytes [OF this(1)] obtain t p1 p2 rest where
        "length p1 < 2 ^ 32 \<and> drop offset blob = t # w_bytes p1 @ w_bytes p2 @ rest \<and>
         and t 0x80 \<noteq> 0 \<and> length p2 < (if and t 0x40 \<noteq> 0 then 6 else 4)" by metis
      moreover have "8 \<le> offset" using \<open>rpos r \<le> offset\<close> start by simp
      ultimately show ?thesis unfolding MalformedMutation decode_error.case by blast
    qed (use in_loop in auto)
  qed
qed

theorem decode_errors_located_witness:
  "decode_events [1, 2, 3] = Inl (UnexpectedEof 0 8 3) \<and> (0 :: nat) + 3 = length [1 :: byte, 2, 3]"
proof -
  have e: "decode_events [1, 2, 3] = Inl (UnexpectedEof 0 8 3)"
    by (simp add: decode_events_def reader_new_def read_u64_def read_array_def read_then_def read_take_def
        remaining_def)
  from decode_errors_located [OF e] show ?thesis by (simp add: e)
qed

lemma decode_events_Inr:
  assumes "decode_events blob = Inr (version, events)"
  shows "8 \<le> length blob" "read_u64 \<lparr>rbuf = blob, rpos = 0\<rparr> = Inr (version_code version, \<lparr>rbuf = blob, rpos = 8\<rparr>)"
    "is_supported version" "decode_loop version \<lparr>rbuf = blob, rpos = 8\<rparr> [] = Inr events"
proof -
  from assms obtain v r where r: "read_u64 \<lparr>rbuf = blob, rpos = 0\<rparr> = Inr (v, r)" "version = ProtocolVersion v"
    "is_supported version" "decode_loop version r [] = Inr events"
    by (auto simp: decode_events_def reader_new_def bind_result_eq_Inr Let_def split: if_splits)
  from r(1) have "8 \<le> length blob" "r = \<lparr>rbuf = blob, rpos = 8\<rparr>"
    by (auto simp: read_u64_def read_array_def read_then_def read_take_def read_ok_def bind_result_eq_Inr split: if_splits)
  with r show "8 \<le> length blob" "read_u64 \<lparr>rbuf = blob, rpos = 0\<rparr> = Inr (version_code version, \<lparr>rbuf = blob, rpos = 8\<rparr>)"
    "is_supported version" "decode_loop version \<lparr>rbuf = blob, rpos = 8\<rparr> [] = Inr events" by simp_all
qed

text \<open>
  Truncation is noticed.  A decoded blob holds at most one event for every four bytes after
  the version, and when a proper first part of it decodes too, then to the same version and to
  strictly fewer events, the first ones of the whole blob.
\<close>

theorem truncated_blob:
  assumes "decode_events blob = Inr (version, events)"
  shows "is_supported version \<and> 8 + 4 * length events \<le> length blob \<and>
    (\<forall>n version' events'. n < length blob \<longrightarrow> decode_events (take n blob) = Inr (version', events') \<longrightarrow>
       version' = version \<and> (\<exists>more. events = events' @ more \<and> more \<noteq> []))"
proof (intro conjI allI impI)
  note whole = decode_events_Inr [OF assms]
  show "is_supported version" by (fact whole(3))
  show "8 + 4 * length events \<le> length blob" using loop_grows [OF whole(1,4)] by auto
  fix n version' events'
  assume n: "n < length blob" and "decode_events (take n blob) = Inr (version', events')"
  note part = decode_events_Inr [OF this(2)]
  have blob: "take n blob @ drop n blob = blob" and ne: "drop n blob \<noteq> []" using n by simp_all
  from ahead_Inr(4) [OF ahead_scalars(5) _ part(2), of "drop n blob"] whole(2) blob
  have "version_code version' = version_code version" by simp
  then show v: "version' = version" by (simp add: protocol_version.expand)
  from loop_truncated [OF part(1) ne part(4)] whole(4) blob v
  show "\<exists>more. events = events' @ more \<and> more \<noteq> []" by simp
qed

theorem truncated_blob_witness:
  "decode_events (take 20 (w_blob V7_4 (\<lambda>_. None) [GetKey \<lparr>start_timestamp = 1, dc_id = [], tenant = None\<rparr> 2 3 [8]])) \<noteq>
     Inr (V7_4, [GetKey \<lparr>start_timestamp = 1, dc_id = [], tenant = None\<rparr> 2 3 [8]])"
proof -
  let ?es = "[GetKey \<lparr>start_timestamp = 1, dc_id = [], tenant = None\<rparr> 2 3 [8]]"
  have "decode_events (w_blob V7_4 (\<lambda>_. None) ?es) = Inr (V7_4, ?es)"
    by (rule decode_w_blob)
      (simp_all add: is_supported_def wf_header_def short_def wf_checksum_def)
  moreover have "20 < length (w_blob V7_4 (\<lambda>_. None) ?es)"
    by (simp add: w_blob_def w_header_def w_bytes_def size_of_def)
  ultimately show ?thesis using truncated_blob by blast
qed

end
