(* ===== verification/Profile_Chunks.thy ===== *)
theory Profile_Chunks
  imports Profile_Pages Profile_Wire
begin

text \<open>
  The chunks of one transaction among the rows of others come out as one record, and rows that
  break the reader's contract end the page with an error.
\<close>

section \<open>Rows of one transaction\<close>

definition test_key :: "bytes \<Rightarrow> bytes \<Rightarrow> u32 \<Rightarrow> u32 \<Rightarrow> bytes" where
  "test_key versionstamp tid chunk cnt =
     PROFILE_PREFIX @ versionstamp @ [47] @ tid @ [47] @ to_be_bytes chunk @ to_be_bytes cnt @
     [47, 117, 115, 101, 114, 45, 105, 100]"

lemma parse_test_key:
  assumes "length vs = 10" and "length tid = 16"
  shows "parse_chunk_key (test_key vs tid chunk cnt) =
    Some \<lparr>ck_versionstamp = vs, ck_id = tid, ck_chunk = chunk, ck_total = cnt\<rparr>"
proof -
  have p: "length PROFILE_PREFIX = 32" by (simp add: PROFILE_PREFIX_def)
  have len: "size_of chunk = 4" "size_of cnt = 4" by (simp_all add: size_of_def)
  have four: "from_be_bytes (to_be_bytes w) = w" for w :: u32 by (rule from_to_be_bytes) simp
  note offsets = MIN_KEY_LEN_def TOTAL_START_def CHUNK_START_def ID_END_def ID_START_def VERSIONSTAMP_END_def
    VERSIONSTAMP_START_def ID_LEN_def VERSIONSTAMP_LEN_def p
  show ?thesis
    unfolding parse_chunk_key_def test_key_def sub_bytes_def offsets
    by (simp add: assms len p four nth_append)
qed

definition row_id :: "bytes \<Rightarrow> bytes option" where
  "row_id key = map_option ck_id (parse_chunk_key key)"

fun chunk_rows :: "bytes \<Rightarrow> u32 \<Rightarrow> u32 \<Rightarrow> (bytes \<times> bytes) list \<Rightarrow> rows" where
  "chunk_rows tid cnt j [] = []"
| "chunk_rows tid cnt j ((vs, v) # xs) = (test_key vs tid j cnt, v) # chunk_rows tid cnt (j + 1) xs"

definition about :: "bytes \<Rightarrow> assembled \<Rightarrow> bool" where
  "about tid x \<longleftrightarrow> (case x of Complete _ t _ \<Rightarrow> t = tid | Broken _ t \<Rightarrow> t = tid)"

lemma core_step_other:
  assumes "row_id k \<noteq> Some tid"
  shows "fst (core_step k v m) tid = m tid" "filter (\<lambda>(_, x). about tid x) (snd (core_step k v m)) = []"
  using assms
  by (auto simp: core_step_def core_begin_def row_id_def about_def split: option.split)

lemma core_begin_own:
  "fst (core_begin parsed k v m) t = (if t = ck_id parsed then fst (core_begin parsed k v m') t else m t)"
  "snd (core_begin parsed k v m) = snd (core_begin parsed k v m')"
  "filter (\<lambda>(_, x). about (ck_id parsed) x) (snd (core_begin parsed k v m)) = snd (core_begin parsed k v m)"
  if "m (ck_id parsed) = m' (ck_id parsed)"
  using that by (simp_all add: core_begin_def about_def)

lemma core_step_own:
  assumes "row_id k = Some tid" and "m tid = m' tid"
  shows "fst (core_step k v m) tid = fst (core_step k v m') tid \<and> snd (core_step k v m) = snd (core_step k v m') \<and>
    filter (\<lambda>(_, x). about tid x) (snd (core_step k v m)) = snd (core_step k v m)"
proof -
  obtain parsed where parsed: "parse_chunk_key k = Some parsed" "tid = ck_id parsed"
    using assms(1) by (auto simp: row_id_def)
  show ?thesis
  proof (cases "m' tid")
    case None
    then show ?thesis using assms(2) core_begin_own [of m parsed m' k v]
      by (simp add: core_step_def parsed)
  next
    case (Some p)
    then show ?thesis
      using assms(2) core_begin_own [of "m(tid := None)" parsed "m'(tid := None)" k v]
      by (cases "continues parsed p") (simp_all add: core_step_def parsed about_def)
  qed
qed

lemma core_run_own:
  assumes "m tid = m' tid"
  shows "filter (\<lambda>(_, x). about tid x) (snd (core_run rows m)) =
    snd (core_run (filter (\<lambda>(k, _). row_id k = Some tid) rows) m')"
  using assms
proof (induction rows arbitrary: m m')
  case (Cons kv rows)
  obtain k v where kv: "kv = (k, v)" by (cases kv)
  have cons: "snd (core_run ((k, v) # xs) m) = snd (core_step k v m) @ snd (core_run xs (fst (core_step k v m)))" for xs m
    by (simp add: case_prod_unfold Let_def)
  show ?case
  proof (cases "row_id k = Some tid")
    case True
    have own: "fst (core_step k v m) tid = fst (core_step k v m') tid" "snd (core_step k v m) = snd (core_step k v m')"
      "filter (\<lambda>(_, x). about tid x) (snd (core_step k v m)) = snd (core_step k v m)"
      using core_step_own [where m = m and m' = m', OF True Cons.prems] by blast+
    from Cons.IH [of "fst (core_step k v m)" "fst (core_step k v m')"] own show ?thesis unfolding kv cons by (simp add: True cons del: core_run.simps)
  next
    case False
    note other = core_step_other [OF False, of v m]
    from Cons.IH [of "fst (core_step k v m)" m'] other Cons.prems show ?thesis
      unfolding kv cons by (simp add: False del: core_run.simps)
  qed
qed simp

lemma continue_rows:
  assumes "m tid = Some p" and "xs \<noteq> []" and "length tid = 16" and "\<forall>(vs, v) \<in> set xs. length vs = 10"
    and "sorted (p_last_versionstamp p # map fst xs)"
    and "p_total p = cnt" and "p_next_chunk p = j" and "unat j + length xs = unat cnt + 1"
  shows "snd (core_run (chunk_rows tid cnt j xs) m) =
    [(test_key (fst (last xs)) tid cnt cnt, Complete (p_versionstamp p) tid (p_blob p @ concat (map snd xs)))]"
  using assms
proof (induction xs arbitrary: m p j)
  case (Cons x xs)
  obtain vs v where x: "x = (vs, v)" by (cases x)
  have parse: "parse_chunk_key (test_key vs tid j cnt) = Some \<lparr>ck_versionstamp = vs, ck_id = tid, ck_chunk = j, ck_total = cnt\<rparr>"
    using Cons.prems(3,4) by (intro parse_test_key) (auto simp: x)
  have cont: "continues \<lparr>ck_versionstamp = vs, ck_id = tid, ck_chunk = j, ck_total = cnt\<rparr> p"
    using Cons.prems(5-7) by (simp add: continues_def x)
  show ?case
  proof (cases "xs = []")
    case True
    then have "j = cnt" using Cons.prems(8) by (simp add: word_unat_eq_iff)
    then show ?thesis using Cons.prems(1,6) cont parse True by (simp add: x core_step_def)
  next
    case False
    have "0 < length xs" using False by simp
    then have less: "unat j < unat cnt" using Cons.prems(8) by (simp del: length_greater_0_conv)
    then have ne: "j \<noteq> cnt" by auto
    have "unat cnt < 2 ^ LENGTH(32)" by (rule unsigned_less)
    then have succ: "unat (j + 1) = unat j + 1" using less by (simp add: unat_word_ariths)
    let ?q = "p\<lparr>p_blob := p_blob p @ v, p_next_chunk := p_next_chunk p + 1, p_last_versionstamp := vs\<rparr>"
    have step: "core_step (test_key vs tid j cnt) v m = (m(tid \<mapsto> ?q), [])"
      using Cons.prems(1,6) cont parse ne by (simp add: core_step_def)
    have "snd (core_run (chunk_rows tid cnt (j + 1) xs) (m(tid \<mapsto> ?q))) =
      [(test_key (fst (last xs)) tid cnt cnt, Complete (p_versionstamp ?q) tid (p_blob ?q @ concat (map snd xs)))]"
      using Cons.prems False succ by (intro Cons.IH) (auto simp: x)
    then show ?thesis using False by (simp add: x step case_prod_unfold Let_def)
  qed
qed simp


text \<open>
  C21.  The chunks of a transaction, numbered from 1 to their number, in the order of their keys
  and with any other rows in between, assemble to one record: the versionstamp of the first, the
  id, and the chunks joined.  Nothing else of that id comes out.
\<close>

theorem chunks_reassemble:
  assumes "filter (\<lambda>(k, _). row_id k = Some tid) rows = chunk_rows tid (of_nat (length xs)) 1 xs"
    and "xs \<noteq> []" and "length xs < 2 ^ 32" and "length tid = 16"
    and "\<forall>(vs, v) \<in> set xs. length vs = 10" and "sorted (map fst xs)"
  shows "filter (\<lambda>(_, x). about tid x) (completes (outs (feed rows (assembler_new c)))) =
    [(test_key (fst (last xs)) tid (of_nat (length xs)) (of_nat (length xs)),
      Complete (fst (hd xs)) tid (concat (map snd xs)))]"
proof -
  have "completes (outs (feed rows (assembler_new c))) = assembled_from rows" using feed_ok by blast
  note complete = this
  obtain vs v ys where xs: "xs = (vs, v) # ys" using assms(2) by (cases xs) auto
  let ?n = "of_nat (length xs) :: u32"
  have n: "unat ?n = length xs" using assms(3) by (simp add: unsigned_of_nat take_bit_nat_eq_self)
  have parse: "parse_chunk_key (test_key vs tid 1 ?n) = Some \<lparr>ck_versionstamp = vs, ck_id = tid, ck_chunk = 1, ck_total = ?n\<rparr>"
    using assms(4,5) by (intro parse_test_key) (auto simp: xs)
  have "filter (\<lambda>(_, x). about tid x) (completes (outs (feed rows (assembler_new c)))) = snd (core_run (chunk_rows tid ?n 1 xs) Map.empty)"
    unfolding complete using core_run_own [OF refl, where m = Map.empty and tid = tid and rows = rows]
    by (simp add: assembled_from_def assms(1))
  also have "\<dots> = [(test_key (fst (last xs)) tid ?n ?n, Complete vs tid (concat (map snd xs)))]"
  proof (cases "ys = []")
    case True
    then show ?thesis using parse by (simp add: xs core_step_def core_begin_def)
  next
    case False
    let ?p = "\<lparr>p_first = test_key vs tid 1 ?n, p_id = tid, p_versionstamp = vs, p_last_versionstamp = vs,
      p_total = ?n, p_next_chunk = 2, p_blob = v\<rparr>"
    have "1 < length xs" using False by (simp add: xs)
    then have many: "?n \<noteq> 1" "1 < ?n" using n by (auto simp: word_less_nat_alt word_unat_eq_iff simp del: of_nat_Suc)
    have "core_step (test_key vs tid 1 ?n) v Map.empty = ([tid \<mapsto> ?p], [])"
      using many parse by (simp add: core_step_def core_begin_def)
    moreover have "snd (core_run (chunk_rows tid ?n 2 ys) [tid \<mapsto> ?p]) =
      [(test_key (fst (last ys)) tid ?n ?n, Complete (p_versionstamp ?p) tid (p_blob ?p @ concat (map snd ys)))]"
      using assms(4-6) False n by (intro continue_rows) (auto simp: xs)
    ultimately show ?thesis using False by (simp add: xs case_prod_unfold Let_def)
  qed
  finally show ?thesis by (simp add: xs)
qed

section \<open>Rows that end the page with an error\<close>

lemma read_rows_append:
  assumes "ordered xs" and "within rg xs" and "\<forall>i < length xs. \<not> st (n + i)"
    and "\<forall>l. last_key a = Some l \<longrightarrow> (\<forall>(k, v) \<in> set xs. l < k)"
  shows "(read_rows rg st n (map Inr xs @ rest) a :: 'e scan_error + page_result) = read_rows rg st (n + length xs) rest (feed xs a)"
  using assms
proof (induction xs arbitrary: n a)
  case Nil
  show ?case by (simp add: feed_def)
next
  case (Cons kv xs)
  obtain k v where kv: "kv = (k, v)" by (cases kv)
  have last: "last_key (push k v a) = Some k"
    by (cases "parse_chunk_key k"; simp add: push_def frame)
  have "\<not> k < scan_begin rg" "\<not> scan_end rg \<le> k" "case last_key a of None \<Rightarrow> True | Some l \<Rightarrow> k > l" "\<not> st n"
    using Cons.prems by (auto simp: within_def kv split: option.split)
  then have "(read_rows rg st n (map Inr (kv # xs) @ rest) a :: 'e scan_error + page_result) = read_rows rg st (Suc n) (map Inr xs @ rest) (push k v a)"
    by (simp add: kv Let_def)
  also have "\<dots> = read_rows rg st (Suc n + length xs) rest (feed xs (push k v a))"
  proof (rule Cons.IH)
    show "\<forall>i < length xs. \<not> st (Suc n + i)" using Cons.prems(3) by fastforce
  qed (use Cons.prems(1,2) in \<open>auto simp: kv ordered_def within_def last\<close>)
  finally show ?case by (simp add: kv feed_def)
qed

text \<open>
  Errors of the row stream end the page: the stream's own error is passed on, and a row
  before the cursor, at or past the end of the range, or not after the last row is refused with
  its key, whatever rows came before and after it.
\<close>

theorem read_page_errors:
  assumes "ordered xs" and "within (range_at s c) xs" and "\<forall>i < length xs. \<not> st i"
  shows "(read_page s c (map Inr xs @ Inl err # rest) st :: 'e scan_error + page_result) = Inl (Source err) \<and>
    (\<forall>k v. k < scan_begin (range_at s c) \<or> scan_end (range_at s c) \<le> k \<or> (\<exists>l. last_of xs = Some l \<and> k \<le> l) \<longrightarrow>
      read_page s c (map Inr xs @ Inr (k, v) # rest) st = Inl (InvalidRows k))"
proof -
  have last: "last_key (feed xs (assembler_new c)) = last_of xs" using feed_ok by blast
  have "last_key (assembler_new c) = None" by (simp add: assembler_new_def)
  with read_rows_append [OF assms(1,2), of st 0 "assembler_new c"] assms(3)
  have "(read_page s c (map Inr xs @ rows) st :: 'e scan_error + page_result) = read_rows (range_at s c) st (length xs) rows (feed xs (assembler_new c))" for rows
    by (simp add: read_page_def)
  then show ?thesis by (auto simp: last not_le not_less split: option.splits)
qed


section \<open>A small store\<close>

text \<open>
  One transaction in two chunks, the row of another between them, and a row with no blob.
\<close>

definition sample_blob :: bytes where
  "sample_blob = w_blob V7_4 (\<lambda>_. None) []"

definition sample_stamp :: "byte \<Rightarrow> bytes" where
  "sample_stamp b = [0, 0, 0, 0, 0, 0, 0, b, 0, 0]"

definition sample_id :: "byte \<Rightarrow> bytes" where
  "sample_id b = replicate 16 b"

definition sample_rows :: rows where
  "sample_rows = [
     (test_key (sample_stamp 1) (sample_id 48) 1 2, take 5 sample_blob),
     (test_key (sample_stamp 1) (sample_id 49) 1 1, sample_blob),
     (test_key (sample_stamp 2) (sample_id 48) 2 2, drop 5 sample_blob),
     (test_key (sample_stamp 3) (sample_id 50) 1 1, [])]"

lemma sample_id_Cons: "sample_id b = b # replicate 15 b"
  by (simp add: sample_id_def numeral_eq_Suc)

lemma sample_less:
  "test_key (sample_stamp 1) (sample_id 48) 1 2 < test_key (sample_stamp 1) (sample_id 49) 1 1"
  "test_key (sample_stamp 1) (sample_id 49) 1 1 < test_key (sample_stamp 2) (sample_id 48) 2 2"
  "test_key (sample_stamp 2) (sample_id 48) 2 2 < test_key (sample_stamp 3) (sample_id 50) 1 1"
  by (simp_all add: test_key_def sample_stamp_def sample_id_Cons)

lemma sample_parse:
  "parse_chunk_key (test_key (sample_stamp b) (sample_id i) c n) =
    Some \<lparr>ck_versionstamp = sample_stamp b, ck_id = sample_id i, ck_chunk = c, ck_total = n\<rparr>"
  by (rule parse_test_key) (simp_all add: sample_stamp_def sample_id_def)

lemma sample_id_eq: "sample_id b = sample_id c \<longleftrightarrow> b = c"
  by (simp add: sample_id_def)

lemma sample_profile_key: "profile_key (test_key vs tid c n)"
  by (simp add: profile_key_def test_key_def)

lemma sample_ordered: "ordered sample_rows"
  using sample_less by (auto simp: ordered_def sample_rows_def)

lemma sample_keys: "\<forall>(k, v) \<in> set sample_rows. profile_key k"
  by (simp add: sample_rows_def sample_profile_key)

lemma sample_range: "range_at scanner_new cursor_beginning = \<lparr>scan_begin = PROFILE_PREFIX, scan_end = PROFILE_END\<rparr>"
  by (simp add: range_at_def scanner_new_def cursor_beginning_def PROFILE_PREFIX_def PROFILE_END_def Let_def max_def)

lemma sample_within: "within (range_at scanner_new cursor_beginning) sample_rows"
  using profile_key_range(1,2) sample_keys by (auto simp: within_def sample_range)

lemma sample_decodes: "decode_events sample_blob = Inr (V7_4, [])"
  unfolding sample_blob_def by (rule decode_w_blob) (simp_all add: is_supported_def wf_checksum_def)

lemma decode_empty: "decode_events [] = Inl (UnexpectedEof 0 8 0)"
  by code_simp

lemma sample_stamp_le: "sample_stamp 1 \<le> sample_stamp 2"
  by (simp add: sample_stamp_def)

lemma sample_run:
  "pending_after sample_rows = Map.empty"
  "assembled_from sample_rows = [
     (test_key (sample_stamp 1) (sample_id 49) 1 1, Complete (sample_stamp 1) (sample_id 49) sample_blob),
     (test_key (sample_stamp 2) (sample_id 48) 2 2, Complete (sample_stamp 1) (sample_id 48) sample_blob),
     (test_key (sample_stamp 3) (sample_id 50) 1 1, Complete (sample_stamp 3) (sample_id 50) [])]"
  by (simp_all add: pending_after_def assembled_from_def sample_rows_def core_step_def core_begin_def sample_parse
      sample_id_eq continues_def sample_stamp_le)


lemma sample_in_range:
  "\<not> test_key vs tid c n < PROFILE_PREFIX" "\<not> PROFILE_END \<le> test_key vs tid c n"
  using profile_key_range(1,2) [OF sample_profile_key] by (simp_all add: not_less not_le)

lemma sample_not_le:
  "\<not> test_key vs tid c n \<le> PROFILE_PREFIX" "\<not> PROFILE_END \<le> key_after (test_key vs tid c n)"
  "\<not> key_after (test_key vs tid c n) \<le> PROFILE_PREFIX"
  "\<not> key_after (test_key (sample_stamp 2) (sample_id 48) 2 2) \<le> test_key (sample_stamp 1) (sample_id 48) 1 2"
  "\<not> key_after (test_key (sample_stamp 2) (sample_id 48) 2 2) \<le> test_key (sample_stamp 1) (sample_id 49) 1 1"
  "key_after (test_key (sample_stamp 2) (sample_id 48) 2 2) \<le> test_key (sample_stamp 3) (sample_id 50) 1 1"
  by (simp_all add: test_key_def sample_stamp_def sample_id_Cons PROFILE_PREFIX_def PROFILE_END_def key_after_def)

lemma cursor_key_beginning: "cursor_key cursor_beginning = PROFILE_PREFIX"
  by (simp add: cursor_beginning_def)

lemma key_after_not_le: "\<not> key_after k \<le> k"
  using key_after [of k k] by simp

lemmas sample_simps = cursor_key_beginning sample_not_le broken_output_def key_after key_after_not_le
  sample_less [THEN order_less_not_sym] sample_less [unfolded not_le [symmetric]] sample_rows_def push_def process_def begin_chunk_def continue_partial_def continues_def
  sample_parse sample_id_eq sample_stamp_le sample_in_range sample_less sample_decodes decode_empty
  assembler_new_def push_output_def finish_def settle_def report_def cut_def Let_def

definition sample_tx :: "byte \<Rightarrow> profiled_transaction" where
  "sample_tx b = \<lparr>pt_version = version_of (sample_stamp 1), pt_versionstamp = sample_stamp 1, pt_id = sample_id b,
     pt_protocol_version = V7_4, pt_events = []\<rparr>"

theorem page_exact_witness:
  "\<exists>page. (read_page scanner_new cursor_beginning (map Inr sample_rows) (\<lambda>n. n = 1) :: unit scan_error + page_result) = Inr page \<and>
     transactions page = transactions_from (before (cursor_key (next_cursor page)) sample_rows) \<and>
     \<not> exhausted page \<and> transactions page = [] \<and> cursor_key cursor_beginning < cursor_key (next_cursor page)"
proof -
  have "\<exists>page. (read_page scanner_new cursor_beginning (map Inr sample_rows) (\<lambda>n. n = 1) :: unit scan_error + page_result) = Inr page \<and>
      \<not> exhausted page \<and> transactions page = []"
    by (simp add: read_page_def sample_range sample_simps)
  with page_exact [OF sample_ordered sample_within, of "\<lambda>n. n = 1"] show ?thesis
    by (auto simp: Let_def)
qed

lemma sample_pages:
  "run_pages (Suc (Suc n)) sample_rows (\<lambda>_ n. n = 2) 0 cursor_beginning [] [] =
    Some ([sample_tx 49, sample_tx 48], [\<lparr>sk_versionstamp = sample_stamp 3, sk_id = sample_id 50, sk_reason = SkipDecode (UnexpectedEof 0 8 0)\<rparr>])"
proof -
  let ?c = "Cursor (key_after (test_key (sample_stamp 2) (sample_id 48) 2 2))"
  have rows: "filter (\<lambda>(k, _). k \<ge> PROFILE_PREFIX \<and> k < PROFILE_END) sample_rows = sample_rows"
    by (simp add: sample_rows_def sample_in_range [unfolded not_less not_le])
  have 1: "run_page sample_rows cursor_beginning (\<lambda>n. n = 2) = Inr \<lparr>transactions = [sample_tx 49, sample_tx 48], skipped_list = [],
      next_cursor = ?c, exhausted = False\<rparr>"
    unfolding run_page_def read_page_def sample_range Let_def scan_range.simps rows
    by (simp add: sample_simps sample_tx_def)
  have range: "range_at scanner_new ?c = \<lparr>scan_begin = cursor_key ?c, scan_end = PROFILE_END\<rparr>"
    by (simp add: range_at_def scanner_new_def Let_def max_def sample_not_le)
  have 2: "run_page sample_rows ?c (\<lambda>n. n = 2) = Inr \<lparr>transactions = [],
      skipped_list = [\<lparr>sk_versionstamp = sample_stamp 3, sk_id = sample_id 50, sk_reason = SkipDecode (UnexpectedEof 0 8 0)\<rparr>],
      next_cursor = Cursor (key_after (test_key (sample_stamp 3) (sample_id 50) 1 1)), exhausted = True\<rparr>"
    unfolding run_page_def read_page_def range Let_def scan_range.simps
    by (simp add: sample_simps sample_in_range [unfolded not_less not_le])
  have bytes: "cursor_from_bytes (cursor_as_bytes (Cursor (key_after (test_key vs tid c n)))) =
      Inr (Cursor (key_after (test_key vs tid c n)))" for vs tid c n
    using profile_key_range(3) [OF sample_profile_key] by (simp add: cursor_from_bytes_def cursor_as_bytes_def profile_key_def)
  show ?thesis by (simp add: 1 2 bytes cursor_key_beginning sample_not_le [unfolded not_le] Let_def)
qed

theorem paging_returns_each_once_witness:
  "\<exists>txs skips. run_pages 9 sample_rows (\<lambda>_ n. n = 2) 0 cursor_beginning [] [] = Some (txs, skips) \<and>
    txs = transactions_from sample_rows \<and> txs = [sample_tx 49, sample_tx 48]"
proof -
  have pages: "run_pages 9 sample_rows (\<lambda>_ n. n = 2) 0 cursor_beginning [] [] =
    Some ([sample_tx 49, sample_tx 48], [\<lparr>sk_versionstamp = sample_stamp 3, sk_id = sample_id 50, sk_reason = SkipDecode (UnexpectedEof 0 8 0)\<rparr>])"
    using sample_pages [of 7] by (simp add: numeral_eq_Suc del: run_pages.simps)
  have "2 * length sample_rows < 9" by (simp add: sample_rows_def)
  from paging_returns_each_once [OF sample_ordered sample_keys this, of "\<lambda>_ n. n = 2"] show ?thesis
    by (simp add: pages sample_run chunks_broken_def)
qed

theorem chunks_reassemble_witness:
  "filter (\<lambda>(_, x). about (sample_id 48) x) (completes (outs (feed sample_rows (assembler_new cursor_beginning)))) =
    [(test_key (sample_stamp 2) (sample_id 48) 2 2, Complete (sample_stamp 1) (sample_id 48) sample_blob)]"
proof -
  let ?xs = "[(sample_stamp 1, take 5 sample_blob), (sample_stamp 2, drop 5 sample_blob)]"
  have rows: "filter (\<lambda>(k, _). row_id k = Some (sample_id 48)) sample_rows = chunk_rows (sample_id 48) (of_nat (length ?xs)) 1 ?xs"
    by (simp add: sample_rows_def row_id_def sample_parse sample_id_eq)
  show ?thesis
    using chunks_reassemble [OF rows, of cursor_beginning] by (simp add: sample_id_def sample_stamp_le) (simp add: sample_stamp_def)
qed

theorem read_page_errors_witness:
  "(read_page scanner_new cursor_beginning (map Inr sample_rows @ Inl ''lost'' # []) (\<lambda>_. False)
      :: string scan_error + page_result) = Inl (Source ''lost'') \<and>
   (read_page scanner_new cursor_beginning (map Inr sample_rows @ Inr (fst (hd sample_rows), []) # []) (\<lambda>_. False)
      :: string scan_error + page_result) = Inl (InvalidRows (fst (hd sample_rows)))"
proof -
  have "last_of sample_rows = Some (fst (last sample_rows))" by (simp add: last_of_def sample_rows_def)
  moreover have "fst (hd sample_rows) \<le> fst (last sample_rows)"
    using sample_less by (simp add: sample_rows_def)
  ultimately show ?thesis
    using read_page_errors [OF sample_ordered sample_within, of "\<lambda>_. False" "''lost''" "[]"] by blast
qed

end
