(* ===== verification/Profile_Aggregate.thy ===== *)
theory Profile_Aggregate
  imports Profile_Reader "HOL-Library.Product_Lexorder"
begin

text \<open>
  The read and write counts over profiled transactions
  (\<^verbatim>\<open>foundationdb-profiling/src/aggregate.rs\<close>).  An ordered map is a list of entries sorted by
  key.  A count is the number of hits; the 64 bits of the source hold more than can be recorded.
\<close>

section \<open>Ordered counters\<close>

text \<open>Key ranges are ordered by their begin, then their end.\<close>

instantiation key_range :: linorder
begin

definition less_eq_key_range :: "key_range \<Rightarrow> key_range \<Rightarrow> bool" where
  "less_eq_key_range a b \<longleftrightarrow>
     range_begin a < range_begin b \<or> range_begin a = range_begin b \<and> range_end a \<le> range_end b"

definition less_key_range :: "key_range \<Rightarrow> key_range \<Rightarrow> bool" where
  "less_key_range a b \<longleftrightarrow>
     range_begin a < range_begin b \<or> range_begin a = range_begin b \<and> range_end a < range_end b"

instance
  by standard (auto simp: less_eq_key_range_def less_key_range_def key_range.expand)

end

type_synonym 'k counts = "('k \<times> nat) list"

text \<open>\<^verbatim>\<open>*map.entry(k).or_insert(0) += c\<close>\<close>

fun bump :: "'k::linorder \<Rightarrow> nat \<Rightarrow> 'k counts \<Rightarrow> 'k counts" where
  "bump k c [] = [(k, c)]"
| "bump k c ((k', n) # m) =
     (if k < k' then (k, c) # (k', n) # m
      else if k = k' then (k', n + c) # m
      else (k', n) # bump k c m)"

definition count_in :: "'k counts \<Rightarrow> 'k \<Rightarrow> nat" where
  "count_in m k = (case map_of m k of Some n \<Rightarrow> n | None \<Rightarrow> 0)"

definition counts_ok :: "'k::linorder counts \<Rightarrow> bool" where
  "counts_ok m \<longleftrightarrow> sorted_wrt (<) (map fst m) \<and> (\<forall>n \<in> snd ` set m. 0 < n)"

lemma counts_ok_Nil [simp]: "counts_ok []"
  by (simp add: counts_ok_def)

lemma bump_keys: "fst ` set (bump k c m) = insert k (fst ` set m)"
  by (induction k c m rule: bump.induct) auto

lemma bump_ok:
  assumes "counts_ok m" and "0 < c"
  shows "counts_ok (bump k c m)"
proof -
  have "sorted_wrt (<) (map fst (bump k c m))"
    using assms(1) unfolding counts_ok_def
  proof (induction k c m rule: bump.induct)
    case (2 k c k' n m)
    have "fst x \<in> insert k (fst ` set m)" if "x \<in> set (bump k c m)" for x
      using that bump_keys [of k c m] by blast
    then have "k' < fst x" if "k' < k" "\<forall>y \<in> set m. k' < fst y" "x \<in> set (bump k c m)" for x
      using that by fastforce
    with 2 show ?case by (auto dest: order.strict_trans)
  qed simp
  moreover have "\<forall>n \<in> snd ` set (bump k c m). 0 < n"
    using assms unfolding counts_ok_def by (induction k c m rule: bump.induct) auto
  ultimately show ?thesis by (simp add: counts_ok_def)
qed

lemma map_of_sorted:
  fixes k :: "'k::linorder"
  assumes "sorted_wrt (<) (map fst ((k', n) # m))" and "k \<le> k'"
  shows "map_of m k = None"
proof -
  have "k \<noteq> fst x" if "x \<in> set m" for x using assms that by fastforce
  then show ?thesis by (auto simp: map_of_eq_None_iff)
qed

lemma count_bump:
  assumes "counts_ok m"
  shows "count_in (bump k c m) x = count_in m x + (if x = k then c else 0)"
proof -
  have "sorted_wrt (<) (map fst m)" using assms by (simp add: counts_ok_def)
  then show ?thesis
  proof (induction k c m rule: bump.induct)
    case (2 k c k' n m)
    then have "k < k' \<Longrightarrow> map_of m k = None" using map_of_sorted by (metis order_less_imp_le)
    with 2 show ?case by (auto simp: count_in_def)
  qed (simp add: count_in_def)
qed

definition counted :: "'k counts \<Rightarrow> nat" where
  "counted m = sum_list (map snd m)"

lemma counted_simps [simp]:
  "counted [] = 0" "counted ((k, n) # m) = n + counted m" "counted (m @ m') = counted m + counted m'"
  by (simp_all add: counted_def)

lemma counted_bump: "counted (bump k c m) = counted m + c"
  by (induction k c m rule: bump.induct) auto

text \<open>The hits of the keys with a property.\<close>

definition weight :: "('k \<Rightarrow> bool) \<Rightarrow> 'k counts \<Rightarrow> nat" where
  "weight P m = counted (filter (P \<circ> fst) m)"

lemma weight_simps [simp]:
  "weight P [] = 0" "weight P ((k, n) # m) = (if P k then n else 0) + weight P m"
  "weight P (m @ m') = weight P m + weight P m'"
  by (simp_all add: weight_def)

lemma weight_bump: "weight P (bump k c m) = weight P m + (if P k then c else 0)"
  by (induction k c m rule: bump.induct) auto

lemma weight_all: "\<forall>x \<in> set m. P (fst x) \<Longrightarrow> weight P m = counted m"
  "\<forall>x \<in> set m. \<not> P (fst x) \<Longrightarrow> weight P m = 0"
  by (induction m) auto

lemma fold_bump:
  assumes "counts_ok m" and "\<forall>n \<in> snd ` set xs. 0 < n"
  shows "counts_ok (fold (\<lambda>(x, c). bump (g x) c) xs m) \<and>
    weight P (fold (\<lambda>(x, c). bump (g x) c) xs m) = weight P m + weight (P \<circ> g) xs"
  using assms
proof (induction xs arbitrary: m)
  case (Cons x xs)
  obtain k c where x: "x = (k, c)" by (cases x)
  from Cons.IH [OF bump_ok [OF Cons.prems(1), of c "g k"]] Cons.prems(2) show ?case
    by (simp add: x weight_bump)
qed simp

lemma counted_pos: "counts_ok m \<Longrightarrow> m \<noteq> [] \<Longrightarrow> 0 < counted m"
  by (cases m) (auto simp: counts_ok_def)

section \<open>The aggregator\<close>

record key_counts =
  kc_keys :: "bytes counts"
  kc_ranges :: "key_range counts"

record aggregator =
  agg_reads :: key_counts
  agg_writes :: key_counts

definition SINGLE_KEY_WRITE_TYPES :: "byte list" where
  "SINGLE_KEY_WRITE_TYPES = [SET_VALUE, ADD_VALUE, MUT_AND, MUT_OR, MUT_XOR, APPEND_IF_FITS, MUT_MAX, MUT_MIN,
     SET_VERSIONSTAMPED_VALUE, BYTE_MIN, BYTE_MAX, MIN_V2, AND_V2, COMPARE_AND_CLEAR]"

definition key_counts_new :: key_counts where
  "key_counts_new = \<lparr>kc_keys = [], kc_ranges = []\<rparr>"

definition aggregator_new :: aggregator where
  "aggregator_new = \<lparr>agg_reads = key_counts_new, agg_writes = key_counts_new\<rparr>"

definition insert_key :: "bytes \<Rightarrow> key_counts \<Rightarrow> key_counts" where
  "insert_key key kc = kc\<lparr>kc_keys := bump key 1 (kc_keys kc)\<rparr>"

definition insert_range :: "key_range \<Rightarrow> key_counts \<Rightarrow> key_counts" where
  "insert_range rg kc = kc\<lparr>kc_ranges := bump rg 1 (kc_ranges kc)\<rparr>"

definition record_mutation :: "mutation \<Rightarrow> key_counts \<Rightarrow> key_counts" where
  "record_mutation m kc =
     (if mutation_type m = CLEAR_RANGE then insert_range (KeyRange (param1 m) (param2 m)) kc
      else if mutation_type m \<in> set SINGLE_KEY_WRITE_TYPES then insert_key (param1 m) kc
      else kc)"

definition record_event :: "event \<Rightarrow> aggregator \<Rightarrow> aggregator" where
  "record_event e a =
     (case e of
        GetKey _ _ _ key \<Rightarrow> a\<lparr>agg_reads := insert_key key (agg_reads a)\<rparr>
      | GetRange _ _ _ rg \<Rightarrow> a\<lparr>agg_reads := insert_range rg (agg_reads a)\<rparr>
      | CommitOk _ _ _ _ _ req \<Rightarrow> a\<lparr>agg_writes := fold record_mutation (mutations req) (agg_writes a)\<rparr>
      | _ \<Rightarrow> a)"

definition record_transaction :: "profiled_transaction \<Rightarrow> aggregator \<Rightarrow> aggregator" where
  "record_transaction tx a = fold record_event (pt_events tx) a"

definition key_counts_total :: "key_counts \<Rightarrow> nat" where
  "key_counts_total kc = sum_list (map snd (kc_keys kc)) + sum_list (map snd (kc_ranges kc))"

text \<open>Descending by count, ties by key; the sort is stable but no two entries are equal.\<close>

definition top_entries :: "nat \<Rightarrow> 'k::linorder counts \<Rightarrow> 'k counts" where
  "top_entries n m = take n (sort_key (\<lambda>(k, c). (- int c, k)) m)"

definition top_keys :: "key_counts \<Rightarrow> nat \<Rightarrow> bytes counts" where
  "top_keys kc n = top_entries n (kc_keys kc)"

definition top_ranges :: "key_counts \<Rightarrow> nat \<Rightarrow> key_range counts" where
  "top_ranges kc n = top_entries n (kc_ranges kc)"

record bucket =
  bucket_start :: bytes
  bucket_count :: nat

definition start_positions :: "key_counts \<Rightarrow> bytes counts" where
  "start_positions kc =
     (let starts = fold (\<lambda>(key, count) starts. bump key count starts) (kc_keys kc) []
      in fold (\<lambda>(rg, count) starts. bump (range_begin rg) count starts) (kc_ranges kc) starts)"

fun bucket_loop ::
    "nat \<Rightarrow> nat \<Rightarrow> bytes counts \<Rightarrow> bytes option \<Rightarrow> nat \<Rightarrow> bucket list \<Rightarrow> bytes option \<times> nat \<times> bucket list" where
  "bucket_loop n bucket_size [] current_start current_count out = (current_start, current_count, out)"
| "bucket_loop n bucket_size ((st, count) # starts) current_start current_count out =
     (let (current_start, current_count, out) =
        (if current_count \<ge> bucket_size \<and> length out + 1 < n
         then (None, 0, case current_start of
            Some s \<Rightarrow> out @ [\<lparr>bucket_start = s, bucket_count = current_count\<rparr>] | None \<Rightarrow> out)
         else (current_start, current_count, out));
        current_count = current_count + count;
        current_start = (case current_start of None \<Rightarrow> Some st | Some s \<Rightarrow> Some s)
      in bucket_loop n bucket_size starts current_start current_count out)"

definition buckets :: "key_counts \<Rightarrow> nat \<Rightarrow> bucket list" where
  "buckets kc n =
     (if n = 0 then []
      else let starts = start_positions kc; tot = sum_list (map snd starts)
           in if tot = 0 then []
              else let bucket_size = max (tot div n) 1;
                       (current_start, current_count, out) = bucket_loop n bucket_size starts None 0 []
                   in if current_count > 0
                      then (case current_start of
                              Some s \<Rightarrow> out @ [\<lparr>bucket_start = s, bucket_count = current_count\<rparr>] | None \<Rightarrow> out)
                      else out)"


section \<open>What is counted\<close>

text \<open>The hits of an event: single keys on the left, ranges on the right.\<close>

definition reads_of :: "event \<Rightarrow> (bytes + key_range) list" where
  "reads_of e = (case e of GetKey _ _ _ key \<Rightarrow> [Inl key] | GetRange _ _ _ rg \<Rightarrow> [Inr rg] | _ \<Rightarrow> [])"

definition write_of :: "mutation \<Rightarrow> (bytes + key_range) list" where
  "write_of m =
     (if mutation_type m = CLEAR_RANGE then [Inr (KeyRange (param1 m) (param2 m))]
      else if mutation_type m \<in> set SINGLE_KEY_WRITE_TYPES then [Inl (param1 m)] else [])"

definition writes_of :: "event \<Rightarrow> (bytes + key_range) list" where
  "writes_of e = (case e of CommitOk _ _ _ _ _ req \<Rightarrow> concat (map write_of (mutations req)) | _ \<Rightarrow> [])"

definition start_of :: "bytes + key_range \<Rightarrow> bytes" where
  "start_of h = (case h of Inl k \<Rightarrow> k | Inr r \<Rightarrow> range_begin r)"

definition counts_hits :: "key_counts \<Rightarrow> (bytes + key_range) list \<Rightarrow> bool" where
  "counts_hits kc hits \<longleftrightarrow> counts_ok (kc_keys kc) \<and> counts_ok (kc_ranges kc) \<and>
     (\<forall>k. count_in (kc_keys kc) k = count_list hits (Inl k)) \<and>
     (\<forall>r. count_in (kc_ranges kc) r = count_list hits (Inr r)) \<and>
     (\<forall>P. weight P (kc_keys kc) + weight (P \<circ> range_begin) (kc_ranges kc) = length (filter (P \<circ> start_of) hits)) \<and>
     key_counts_total kc = length hits"

lemma counts_hits_new: "counts_hits key_counts_new []"
  by (simp add: counts_hits_def key_counts_new_def count_in_def key_counts_total_def)

lemma counts_hits_insert:
  assumes "counts_hits kc hits"
  shows "counts_hits (insert_key k kc) (hits @ [Inl k])" "counts_hits (insert_range r kc) (hits @ [Inr r])"
  using assms
  by (auto simp: counts_hits_def insert_key_def insert_range_def bump_ok count_bump key_counts_total_def
      counted_bump weight_bump start_of_def simp flip: counted_def)

lemma counts_hits_mutation: "counts_hits kc hits \<Longrightarrow> counts_hits (record_mutation m kc) (hits @ write_of m)"
  by (simp add: record_mutation_def write_of_def counts_hits_insert)

lemma counts_hits_mutations:
  "counts_hits kc hits \<Longrightarrow> counts_hits (fold record_mutation ms kc) (hits @ concat (map write_of ms))"
proof (induction ms arbitrary: kc hits)
  case (Cons m ms)
  from Cons.IH [OF counts_hits_mutation [OF Cons.prems, of m]] show ?case by simp
qed simp

lemma counts_hits_event:
  assumes "counts_hits (agg_reads a) rs" and "counts_hits (agg_writes a) ws"
  shows "counts_hits (agg_reads (record_event e a)) (rs @ reads_of e)"
    "counts_hits (agg_writes (record_event e a)) (ws @ writes_of e)"
  using assms counts_hits_insert [OF assms(1)] counts_hits_mutations [OF assms(2)]
  by (simp_all add: record_event_def reads_of_def writes_of_def split: event.split)

lemma counts_hits_events:
  assumes "counts_hits (agg_reads a) rs" and "counts_hits (agg_writes a) ws"
  shows "counts_hits (agg_reads (fold record_event es a)) (rs @ concat (map reads_of es)) \<and>
    counts_hits (agg_writes (fold record_event es a)) (ws @ concat (map writes_of es))"
  using assms
proof (induction es arbitrary: a rs ws)
  case (Cons e es)
  from Cons.IH [OF counts_hits_event [OF Cons.prems, of e]] show ?case by simp
qed simp

definition aggregate :: "profiled_transaction list \<Rightarrow> aggregator" where
  "aggregate txs = fold record_transaction txs aggregator_new"

definition all_events :: "profiled_transaction list \<Rightarrow> event list" where
  "all_events txs = concat (map pt_events txs)"

lemma aggregate_events: "aggregate txs = fold record_event (all_events txs) aggregator_new"
proof -
  have "fold record_transaction txs a = fold record_event (all_events txs) a" for a
    by (induction txs arbitrary: a) (simp_all add: record_transaction_def all_events_def)
  then show ?thesis by (simp add: aggregate_def)
qed

lemma aggregate_hits:
  "counts_hits (agg_reads (aggregate txs)) (concat (map reads_of (all_events txs)))"
  "counts_hits (agg_writes (aggregate txs)) (concat (map writes_of (all_events txs)))"
  using counts_hits_events [of aggregator_new "[]" "[]" "all_events txs"] counts_hits_new
  by (simp_all add: aggregate_events aggregator_new_def)

section \<open>The most frequent\<close>

definition ranks_above :: "'k::linorder \<times> nat \<Rightarrow> 'k \<times> nat \<Rightarrow> bool" where
  "ranks_above x y \<longleftrightarrow> snd y < snd x \<or> snd x = snd y \<and> fst x < fst y"

lemma top_entries_spec:
  assumes "counts_ok m"
  shows "length (top_entries n m) = min n (length m) \<and> set (top_entries n m) \<subseteq> set m \<and>
    sorted_wrt ranks_above (top_entries n m) \<and>
    (\<forall>x \<in> set (top_entries n m). \<forall>y \<in> set m - set (top_entries n m). ranks_above x y)"
proof -
  let ?f = "\<lambda>(k, c). (- int c, k)"
  let ?s = "sort_key ?f m"
  have "distinct m" using assms unfolding counts_ok_def by (metis distinct_map strict_sorted_iff)
  moreover have "inj_on ?f (set m)" by (auto simp: inj_on_def)
  ultimately have "distinct (map ?f ?s)" by (simp add: distinct_map)
  moreover have "sorted (map ?f ?s)" by simp
  ultimately have "sorted_wrt (<) (map ?f ?s)" by (simp add: strict_sorted_iff)
  then have ranks: "sorted_wrt ranks_above ?s"
    unfolding sorted_wrt_map by (rule sorted_wrt_mono_rel [rotated]) (auto simp: ranks_above_def)
  have "sorted_wrt ranks_above (take n ?s @ drop n ?s)" using ranks by simp
  then have "\<forall>x \<in> set (take n ?s). \<forall>y \<in> set (drop n ?s). ranks_above x y" unfolding sorted_wrt_append by blast
  moreover have "set m \<subseteq> set (take n ?s) \<union> set (drop n ?s)" by (metis append_take_drop_id set_append set_sort subset_refl)
  ultimately show ?thesis
    using ranks set_take_subset [of n ?s] by (auto simp: top_entries_def sorted_wrt_take)
qed


section \<open>Buckets\<close>

definition bucket_of :: "bytes counts \<Rightarrow> bucket" where
  "bucket_of g = \<lparr>bucket_start = fst (hd g), bucket_count = counted g\<rparr>"

lemma bucket_loop_spec:
  assumes "bucket_loop n b xs (Some (fst (hd g))) (counted g) (map bucket_of gs) = r"
    and "g \<noteq> []" and "length gs < n" and "\<forall>g \<in> set gs. g \<noteq> [] \<and> b \<le> counted g"
  shows "\<exists>gs' g'. r = (Some (fst (hd g')), counted g', map bucket_of gs') \<and> g' \<noteq> [] \<and> length gs' < n \<and>
    (\<forall>g \<in> set gs'. g \<noteq> [] \<and> b \<le> counted g) \<and> concat gs' @ g' = concat gs @ g @ xs"
  using assms
proof (induction xs arbitrary: g gs)
  case Nil
  then show ?case by (intro exI [of _ gs] exI [of _ g]) simp
next
  case (Cons x xs)
  obtain k c where x: "x = (k, c)" by (cases x)
  show ?case
  proof (cases "b \<le> counted g \<and> length gs + 1 < n")
    case True
    then have "bucket_loop n b xs (Some (fst (hd [x]))) (counted [x]) (map bucket_of (gs @ [g])) = r"
      using Cons.prems(1) by (simp add: x bucket_of_def [of g])
    from Cons.IH [OF this] True Cons.prems(2,4) show ?thesis by auto
  next
    case False
    then have "bucket_loop n b xs (Some (fst (hd (g @ [x])))) (counted (g @ [x])) (map bucket_of gs) = r"
      using Cons.prems(1,2) by (auto simp: x)
    from Cons.IH [OF this] Cons.prems(2-4) show ?thesis by auto
  qed
qed

lemma buckets_spec:
  assumes ok: "counts_ok (start_positions kc)" and ne: "start_positions kc \<noteq> []" and n: "0 < n"
  obtains gs where "buckets kc n = map bucket_of gs" "concat gs = start_positions kc" "[] \<notin> set gs" "gs \<noteq> []"
    "length gs \<le> n" "\<forall>g \<in> set (butlast gs). max (counted (start_positions kc) div n) 1 \<le> counted g"
proof -
  let ?b = "max (counted (start_positions kc) div n) 1"
  obtain k c xs where starts: "start_positions kc = (k, c) # xs" using ne by (cases "start_positions kc") auto
  have tot: "counted (start_positions kc) \<noteq> 0" using counted_pos [OF ok ne] by simp
  obtain r where r: "bucket_loop n ?b (start_positions kc) None 0 [] = r" by blast
  then have "bucket_loop n ?b xs (Some (fst (hd [(k, c)]))) (counted [(k, c)]) (map bucket_of []) = r"
    by (simp add: starts)
  from bucket_loop_spec [OF this] n obtain gs g where gs:
    "r = (Some (fst (hd g)), counted g, map bucket_of gs)" "g \<noteq> []" "length gs < n"
    "\<forall>g \<in> set gs. g \<noteq> [] \<and> ?b \<le> counted g" "concat gs @ g = start_positions kc"
    by (auto simp: starts)
  have "counts_ok g" using ok unfolding gs(5) [symmetric] counts_ok_def by (auto simp: sorted_wrt_append)
  then have "0 < counted g" using gs(2) by (rule counted_pos)
  then have "buckets kc n = map bucket_of (gs @ [g])"
    using n tot r gs(1) by (simp add: buckets_def Let_def bucket_of_def flip: counted_def)
  then show ?thesis using gs by (intro that [of "gs @ [g]"]) auto
qed

lemma start_positions_ok:
  assumes "counts_hits kc hits"
  shows "counts_ok (start_positions kc)" "weight P (start_positions kc) = length (filter (P \<circ> start_of) hits)"
proof -
  let ?keys = "fold (\<lambda>(x, c). bump (id x) c) (kc_keys kc) []"
  have pos: "\<forall>n \<in> snd ` set (kc_keys kc). 0 < n" "\<forall>n \<in> snd ` set (kc_ranges kc). 0 < n"
    using assms by (simp_all add: counts_hits_def counts_ok_def)
  note keys = fold_bump [OF counts_ok_Nil pos(1), of id]
  have ok: "counts_ok ?keys" using keys by blast
  note ranges = fold_bump [OF ok pos(2), of range_begin]
  have starts: "start_positions kc = fold (\<lambda>(x, c). bump (range_begin x) c) (kc_ranges kc) ?keys"
    by (simp add: start_positions_def Let_def)
  show "counts_ok (start_positions kc)" using ranges unfolding starts by blast
  have "weight P (start_positions kc) = weight P (kc_keys kc) + weight (P \<circ> range_begin) (kc_ranges kc)"
    using keys [of P] ranges [of P] unfolding starts by simp
  then show "weight P (start_positions kc) = length (filter (P \<circ> start_of) hits)"
    using assms by (simp add: counts_hits_def)
qed


lemma concat_parts:
  assumes "i < length gs"
  shows "concat gs = concat (take i gs) @ gs ! i @ concat (drop (Suc i) gs)"
  by (metis append_Cons assms concat.simps(2) concat_append id_take_nth_drop)

lemma hd_least:
  fixes xs :: "('k::linorder \<times> 'n) list"
  assumes "sorted_wrt (<) (map fst xs)" and "x \<in> set xs"
  shows "fst (hd xs) \<le> fst x"
  using assms by (cases xs) (auto simp: less_imp_le)

lemma group_bounds:
  fixes gs :: "('k::linorder \<times> 'n) list list"
  assumes sorted: "sorted_wrt (<) (map fst (concat gs))" and ne: "[] \<notin> set gs" and i: "i < length gs"
    and x: "x \<in> set (concat gs)"
  shows "x \<in> set (gs ! i) \<longleftrightarrow>
    fst (hd (gs ! i)) \<le> fst x \<and> (Suc i < length gs \<longrightarrow> fst x < fst (hd (gs ! Suc i)))"
proof -
  let ?A = "concat (take i gs)" and ?g = "gs ! i" and ?B = "concat (drop (Suc i) gs)"
  have split: "concat gs = ?A @ ?g @ ?B" by (rule concat_parts [OF i])
  have "?g \<noteq> []" using ne i by (metis nth_mem)
  then obtain y ys where g: "?g = y # ys" by (cases ?g) auto
  have before: "fst a < fst y" if "a \<in> set ?A" for a
    using sorted that unfolding split g by (auto simp: sorted_wrt_append)
  have within: "fst y \<le> fst a" if "a \<in> set ?g" for a
    using sorted that unfolding split g by (auto simp: sorted_wrt_append less_imp_le)
  have after: "fst a < fst b" if "a \<in> set ?g" "b \<in> set ?B" for a b
    using sorted that unfolding split by (auto simp: sorted_wrt_append)
  have next_group: "(b \<in> set ?B \<longrightarrow> Suc i < length gs \<and> fst (hd (gs ! Suc i)) \<le> fst b) \<and>
    (a \<in> set ?g \<longrightarrow> Suc i < length gs \<longrightarrow> fst a < fst (hd (gs ! Suc i)))" for a b
  proof (cases "Suc i < length gs")
    case True
    then have B: "?B = gs ! Suc i @ concat (drop (Suc (Suc i)) gs)" by (simp add: Cons_nth_drop_Suc [symmetric])
    have "gs ! Suc i \<noteq> []" using ne True by (metis nth_mem)
    then obtain z zs where z: "gs ! Suc i = z # zs" by (cases "gs ! Suc i") auto
    have "sorted_wrt (<) (map fst ?B)" using sorted unfolding split by (simp add: sorted_wrt_append)
    then have "fst z \<le> fst b" if "b \<in> set ?B"
      using hd_least [OF _ that] by (simp add: B z)
    moreover have "z \<in> set ?B" by (simp add: B z)
    ultimately show ?thesis using after True by (simp add: z)
  qed simp
  have y: "hd ?g = y" by (simp add: g)
  consider "x \<in> set ?A" | "x \<in> set ?g" | "x \<in> set ?B" using x unfolding split by auto
  then show ?thesis
  proof cases
    case 1
    then show ?thesis using before [of x] within [of x] unfolding y by (metis leD)
  next
    case 2
    then show ?thesis using within [of x] next_group unfolding y by blast
  next
    case 3
    then show ?thesis using after [of x x] next_group [of x] unfolding y by (metis leD order_less_irrefl)
  qed
qed

definition in_bucket :: "bucket list \<Rightarrow> nat \<Rightarrow> bytes \<Rightarrow> bool" where
  "in_bucket bs i k \<longleftrightarrow>
     bucket_start (bs ! i) \<le> k \<and> (Suc i < length bs \<longrightarrow> k < bucket_start (bs ! Suc i))"

lemma weight_group:
  assumes "sorted_wrt (<) (map fst (concat gs))" and "[] \<notin> set gs" and "i < length gs"
  shows "weight (in_bucket (map bucket_of gs) i) (concat gs) = counted (gs ! i)"
proof -
  have iff: "in_bucket (map bucket_of gs) i (fst x) \<longleftrightarrow> x \<in> set (gs ! i)" if "x \<in> set (concat gs)" for x
    using group_bounds [OF assms that] assms(3) by (auto simp: in_bucket_def bucket_of_def)
  have split: "concat gs = concat (take i gs) @ gs ! i @ concat (drop (Suc i) gs)" by (rule concat_parts [OF assms(3)])
  have dist: "distinct (concat gs)" using assms(1) by (metis distinct_map strict_sorted_iff)
  have "weight (in_bucket (map bucket_of gs) i) (gs ! i) = counted (gs ! i)"
    using iff split by (intro weight_all(1)) auto
  moreover have "weight (in_bucket (map bucket_of gs) i) (concat (take i gs)) = 0"
    "weight (in_bucket (map bucket_of gs) i) (concat (drop (Suc i) gs)) = 0"
    using iff dist unfolding split by (auto intro!: weight_all(2) simp del: set_concat)
  ultimately show ?thesis by (subst split) simp
qed


section \<open>Properties\<close>

text \<open>
  After any transactions are recorded, the count of a key or range is the number of
  successful reads, or of writes a client can commit, that hit it, and the total is their number.
\<close>

theorem counts_are_hits:
  "(let a = aggregate txs; reads = concat (map reads_of (all_events txs));
        writes = concat (map writes_of (all_events txs))
    in (\<forall>k. count_in (kc_keys (agg_reads a)) k = count_list reads (Inl k)) \<and>
       (\<forall>r. count_in (kc_ranges (agg_reads a)) r = count_list reads (Inr r)) \<and>
       key_counts_total (agg_reads a) = length reads \<and>
       (\<forall>k. count_in (kc_keys (agg_writes a)) k = count_list writes (Inl k)) \<and>
       (\<forall>r. count_in (kc_ranges (agg_writes a)) r = count_list writes (Inr r)) \<and>
       key_counts_total (agg_writes a) = length writes)"
  using aggregate_hits [of txs] by (simp add: counts_hits_def Let_def)

lemma top_entries_counts:
  assumes "counts_ok m" and "\<And>k. count_in m k = f k"
  shows "length (top_entries n m) = min n (length m)" "sorted_wrt ranks_above (top_entries n m)"
    "\<forall>(k, c) \<in> set (top_entries n m). c = f k"
    "\<forall>k \<in> fst ` set m - fst ` set (top_entries n m). \<forall>x \<in> set (top_entries n m). ranks_above x (k, f k)"
proof -
  note spec = top_entries_spec [OF assms(1), of n]
  show "length (top_entries n m) = min n (length m)" "sorted_wrt ranks_above (top_entries n m)" using spec by blast+
  have entry: "c = f k" if "(k, c) \<in> set m" for k c
    using that assms(1) assms(2) [of k] by (simp add: counts_ok_def count_in_def strict_sorted_iff)
  then show "\<forall>(k, c) \<in> set (top_entries n m). c = f k" using spec by blast
  show "\<forall>k \<in> fst ` set m - fst ` set (top_entries n m). \<forall>x \<in> set (top_entries n m). ranks_above x (k, f k)"
  proof (intro ballI)
    fix k x assume k: "k \<in> fst ` set m - fst ` set (top_entries n m)" and x: "x \<in> set (top_entries n m)"
    then obtain c where "(k, c) \<in> set m" "(k, c) \<notin> set (top_entries n m)" by force
    with spec x entry show "ranks_above x (k, f k)" by blast
  qed
qed

text \<open>
  The most frequent keys and ranges come with their counts, sorted by descending count and
  then by key, as many as asked for or as there are, and whatever is left out ranks below.
\<close>

theorem top_lists:
  assumes "counts_hits kc hits"
  shows "length (top_keys kc n) = min n (length (kc_keys kc)) \<and>
    length (top_ranges kc n) = min n (length (kc_ranges kc)) \<and>
    sorted_wrt ranks_above (top_keys kc n) \<and> sorted_wrt ranks_above (top_ranges kc n) \<and>
    (\<forall>(k, c) \<in> set (top_keys kc n). c = count_list hits (Inl k)) \<and>
    (\<forall>(r, c) \<in> set (top_ranges kc n). c = count_list hits (Inr r)) \<and>
    (\<forall>k \<in> fst ` set (kc_keys kc) - fst ` set (top_keys kc n). \<forall>x \<in> set (top_keys kc n).
       ranks_above x (k, count_list hits (Inl k))) \<and>
    (\<forall>r \<in> fst ` set (kc_ranges kc) - fst ` set (top_ranges kc n). \<forall>x \<in> set (top_ranges kc n).
       ranks_above x (r, count_list hits (Inr r)))"
proof -
  have ok: "counts_ok (kc_keys kc)" "counts_ok (kc_ranges kc)"
    and hits: "count_in (kc_keys kc) k = count_list hits (Inl k)" "count_in (kc_ranges kc) r = count_list hits (Inr r)" for k r
    using assms by (simp_all add: counts_hits_def)
  show ?thesis
    unfolding top_keys_def top_ranges_def
    using top_entries_counts [OF ok(1) hits(1), of n] top_entries_counts [OF ok(2) hits(2), of n] by blast
qed

text \<open>
  Buckets partition the hits.  There are none exactly when none are asked for or nothing was
  hit, at most as many as asked for, with increasing starts, the first at or before every hit; each
  counts the hits from its start to the next start, and all but the last reach an equal share.
\<close>

theorem buckets_partition:
  assumes "counts_hits kc hits"
  shows "let bs = buckets kc n in
    (bs = [] \<longleftrightarrow> n = 0 \<or> hits = []) \<and> length bs \<le> n \<and> sorted_wrt (<) (map bucket_start bs) \<and>
    (\<forall>h \<in> set hits. bs \<noteq> [] \<longrightarrow> bucket_start (hd bs) \<le> start_of h) \<and>
    (\<forall>i < length bs. bucket_count (bs ! i) = length (filter (in_bucket bs i \<circ> start_of) hits) \<and>
       (Suc i < length bs \<longrightarrow> max (length hits div n) 1 \<le> bucket_count (bs ! i)))"
proof -
  note ok = start_positions_ok [OF assms]
  have total: "counted (start_positions kc) = length hits"
    using ok(2) [of "\<lambda>_. True"] weight_all(1) [of "start_positions kc" "\<lambda>_. True"] by (simp add: o_def)
  show ?thesis
  proof (cases "n = 0 \<or> hits = []")
    case True
    then have "buckets kc n = []" using total by (auto simp: buckets_def Let_def simp flip: counted_def)
    with True show ?thesis by auto
  next
    case False
    then have "start_positions kc \<noteq> []" using total by auto
    with False obtain gs where gs: "buckets kc n = map bucket_of gs" "concat gs = start_positions kc" "[] \<notin> set gs"
      "gs \<noteq> []" "length gs \<le> n" "\<forall>g \<in> set (butlast gs). max (length hits div n) 1 \<le> counted g"
      using buckets_spec [OF ok(1), of n] total by auto
    have sorted: "sorted_wrt (<) (map fst (concat gs))" using ok(1) by (simp add: gs(2) counts_ok_def)
    have hd: "x \<in> set (gs ! i) \<Longrightarrow> i < length gs \<Longrightarrow> x \<in> set (concat gs)" for x i by auto
    have starts: "fst (hd (gs ! i)) < fst (hd (gs ! j))" if ij: "i < j" "j < length gs" for i j
    proof -
      have "gs ! i \<noteq> []" "gs ! j \<noteq> []" using gs(3) ij by (metis nth_mem order.strict_trans)+
      then have "hd (gs ! i) \<in> set (gs ! i)" "hd (gs ! j) \<in> set (gs ! j)" by simp_all
      moreover have "gs ! j = drop (Suc i) gs ! (j - Suc i)" "j - Suc i < length (drop (Suc i) gs)" using ij by simp_all
      then have "gs ! j \<in> set (drop (Suc i) gs)" by (metis nth_mem)
      ultimately show ?thesis
        using sorted ij unfolding concat_parts [of i gs, OF order.strict_trans [OF ij]] by (auto simp: sorted_wrt_append)
    qed
    have "sorted_wrt (<) (map bucket_start (buckets kc n))"
      using starts by (auto simp: gs(1) sorted_wrt_iff_nth_less bucket_of_def)
    moreover have "bucket_count (buckets kc n ! i) = length (filter (in_bucket (buckets kc n) i \<circ> start_of) hits)"
      if "i < length gs" for i
      using weight_group [OF sorted gs(3) that] ok(2) that by (simp add: gs(1,2) bucket_of_def)
    moreover have "max (length hits div n) 1 \<le> bucket_count (buckets kc n ! i)" if "Suc i < length gs" for i
    proof -
      have "gs ! i \<in> set (butlast gs)" using that by (metis diff_Suc_1 length_butlast less_diff_conv nth_butlast nth_mem Suc_eq_plus1)
      then show ?thesis using gs(6) that by (simp add: gs(1) bucket_of_def)
    qed
    moreover have "bucket_start (hd (buckets kc n)) \<le> start_of h" if h: "h \<in> set hits" for h
    proof -
      have "0 < length (filter ((=) (start_of h) \<circ> start_of) hits)" using h by (force simp: filter_empty_conv)
      then have "0 < weight ((=) (start_of h)) (concat gs)" by (simp only: ok(2) gs(2))
      then obtain x where x: "x \<in> set (concat gs)" "fst x = start_of h"
        using weight_all(2) [of "concat gs" "(=) (start_of h)"] by force
      obtain g gs' where g: "gs = g # gs'" "g \<noteq> []" using gs(3,4) by (cases gs) auto
      with hd_least [OF sorted x(1)] x(2) show ?thesis by (simp add: gs(1) bucket_of_def)
    qed
    ultimately show ?thesis using False gs(4,5) by (auto simp: Let_def gs(1))
  qed
qed


section \<open>A small example\<close>

definition sample_counts :: key_counts where
  "sample_counts = insert_range (KeyRange [0] [5]) (insert_key [1] (insert_key [1] key_counts_new))"

definition sample_hits :: "(bytes + key_range) list" where
  "sample_hits = [Inl [1], Inl [1], Inr (KeyRange [0] [5])]"

lemma sample_counts_hits: "counts_hits sample_counts sample_hits"
  using counts_hits_insert(2) [OF counts_hits_insert(1) [OF counts_hits_insert(1) [OF counts_hits_new, of "[1]"], of "[1]"], of "KeyRange [0] [5]"]
  by (simp add: sample_counts_def sample_hits_def)

theorem top_lists_witness:
  "top_keys sample_counts 3 = [([1], 2)] \<and> 2 = count_list sample_hits (Inl [1])"
proof -
  have "top_keys sample_counts 3 = [([1], 2)]"
    by (simp add: top_keys_def top_entries_def sample_counts_def insert_key_def insert_range_def key_counts_new_def)
  moreover from this have "\<forall>(k, c) \<in> set [([1 :: byte], 2 :: nat)]. c = count_list sample_hits (Inl k)"
    using top_lists [OF sample_counts_hits, of 3] by simp
  ultimately show ?thesis by simp
qed

theorem buckets_partition_witness:
  "buckets sample_counts 2 = [\<lparr>bucket_start = [0], bucket_count = 1\<rparr>, \<lparr>bucket_start = [1], bucket_count = 2\<rparr>] \<and>
    bucket_count (buckets sample_counts 2 ! 0) =
      length (filter (in_bucket (buckets sample_counts 2) 0 \<circ> start_of) sample_hits)"
proof -
  have "buckets sample_counts 2 = [\<lparr>bucket_start = [0], bucket_count = 1\<rparr>, \<lparr>bucket_start = [1], bucket_count = 2\<rparr>]"
    by (simp add: buckets_def start_positions_def sample_counts_def insert_key_def insert_range_def key_counts_new_def Let_def)
  moreover from this have "\<forall>i < length (buckets sample_counts 2). bucket_count (buckets sample_counts 2 ! i) =
      length (filter (in_bucket (buckets sample_counts 2) i \<circ> start_of) sample_hits)"
    using buckets_partition [OF sample_counts_hits, of 2] unfolding Let_def by blast
  ultimately show ?thesis by (metis length_Cons zero_less_Suc)
qed

end
