(* ===== verification/Retry_Runner.thy ===== *)
theory Retry_Runner
  imports Range_Scan
begin

text \<open>
  The retry runner behind \<^verbatim>\<open>Database::run\<close> (\<^verbatim>\<open>runner.rs\<close>), the classification of closure errors
  (\<^verbatim>\<open>error.rs\<close>) and the older \<^verbatim>\<open>Database::transact\<close> (\<^verbatim>\<open>database.rs\<close>).  The native client, the
  caller's closure, hooks and policy are parameters; \<open>'s\<close> is everything they can change: the
  database, the transaction and their own state.  The loops may run for ever, so they take fuel.
\<close>

section \<open>Errors\<close>

text \<open>
  \<^verbatim>\<open>dyn Error\<close> as far as the retry loop looks into it: an \<^verbatim>\<open>FdbError\<close>, an
  \<^verbatim>\<open>FdbBindingError\<close>, or any other error with its source.
\<close>

datatype binding_error =
    NonRetryableFdbError fdb_error
  | BindingHcaError dyn_error
  | BindingDirectoryError dyn_error
  | BindingPackError dyn_error
  | ReferenceToTransactionKept
  | UserVersionExhausted
  | CustomError dyn_error
  | ClientBudgetExceeded dyn_error
  | BindingLeaderElectionError dyn_error
and dyn_error =
    DynFdb fdb_error
  | DynBinding binding_error
  | DynOther "dyn_error option"

definition binding_source :: "binding_error \<Rightarrow> dyn_error option" where
  "binding_source e = (case e of
     NonRetryableFdbError e \<Rightarrow> Some (DynFdb e)
   | BindingHcaError e \<Rightarrow> Some e
   | BindingDirectoryError e \<Rightarrow> Some e
   | BindingPackError e \<Rightarrow> Some e
   | CustomError e \<Rightarrow> Some e
   | ClientBudgetExceeded e \<Rightarrow> Some e
   | ReferenceToTransactionKept \<Rightarrow> None
   | UserVersionExhausted \<Rightarrow> None
   | BindingLeaderElectionError e \<Rightarrow> Some e)"

definition dyn_source :: "dyn_error \<Rightarrow> dyn_error option" where
  "dyn_source e = (case e of DynFdb _ \<Rightarrow> None | DynBinding b \<Rightarrow> binding_source b | DynOther src \<Rightarrow> src)"

definition MAX_DEPTH :: nat where "MAX_DEPTH = 128"

fun find_loop :: "nat \<Rightarrow> dyn_error option \<Rightarrow> fdb_error option" where
  "find_loop 0 current = None"
| "find_loop (Suc n) None = None"
| "find_loop (Suc n) (Some e) = (case e of DynFdb fdb \<Rightarrow> Some fdb | _ \<Rightarrow> find_loop n (dyn_source e))"

definition find_fdb_error :: "dyn_error \<Rightarrow> fdb_error option" where
  "find_fdb_error err = find_loop (MAX_DEPTH + 1) (Some err)"

fun get_fdb_error :: "binding_error \<Rightarrow> fdb_error option" where
  "get_fdb_error (CustomError (DynFdb e)) = Some e"
| "get_fdb_error (CustomError (DynBinding e)) = get_fdb_error e"
| "get_fdb_error e = find_fdb_error (DynBinding e)"

datatype retry_decision = Fdb fdb_error | Retry | Fatal

definition default_retry_decision :: "dyn_error \<Rightarrow> retry_decision" where
  "default_retry_decision e = (case find_fdb_error e of Some e \<Rightarrow> Fdb e | None \<Rightarrow> Fatal)"

definition binding_retry_decision :: "binding_error \<Rightarrow> retry_decision" where
  "binding_retry_decision e = (case get_fdb_error e of Some e \<Rightarrow> Fdb e | None \<Rightarrow> Fatal)"

section \<open>What the runner is given\<close>

text \<open>
  The closure with the maybe-committed flag, in two parts: the call, which runs what it does before
  it returns its future and leaves the future in the state, and the future, with its result and
  whether it kept a reference to the transaction; the native commit and \<^verbatim>\<open>on_error\<close>, with the error they end with; the native
  predicate of uncertain commits; the caller's error type; and the monotonic clock in nanoseconds,
  which the state lets run.
\<close>

record ('s, 'v, 'e) client =
  call_closure :: "bool \<Rightarrow> 's \<Rightarrow> 's"
  run_closure :: "bool \<Rightarrow> 's \<Rightarrow> ('e + 'v) \<times> bool \<times> 's"
  commit_native :: "'s \<Rightarrow> fdb_error option \<times> 's"
  on_error_native :: "fdb_error \<Rightarrow> 's \<Rightarrow> fdb_error option \<times> 's"
  is_maybe_committed :: "fdb_error \<Rightarrow> bool"
  retry_decision_of :: "'e \<Rightarrow> retry_decision"
  from_binding :: "binding_error \<Rightarrow> 'e"
  instant :: "'s \<Rightarrow> nat"

text \<open>\<^verbatim>\<open>now.elapsed().as_millis() as u64\<close>.\<close>

definition elapsed_ms :: "('s, 'v, 'e) client \<Rightarrow> nat \<Rightarrow> 's \<Rightarrow> u64" where
  "elapsed_ms c now s = word_of_nat ((instant c s - now) div 1000000)"

record 's hooks =
  on_attempt_start :: "nat \<Rightarrow> 's \<Rightarrow> 's"
  before_commit :: "nat \<Rightarrow> 's \<Rightarrow> fdb_error option \<times> 's"
  on_hook_error :: "fdb_error \<Rightarrow> nat \<Rightarrow> 's \<Rightarrow> 's"
  on_commit_success :: "u64 \<Rightarrow> nat \<Rightarrow> 's \<Rightarrow> 's"
  on_commit_error :: "fdb_error \<Rightarrow> nat \<Rightarrow> 's \<Rightarrow> fdb_error option \<times> 's"
  on_closure_error :: "fdb_error \<Rightarrow> nat \<Rightarrow> 's \<Rightarrow> 's"
  on_error_duration :: "u64 \<Rightarrow> nat \<Rightarrow> 's \<Rightarrow> 's"
  on_retry :: "nat \<Rightarrow> 's \<Rightarrow> 's"
  on_complete :: "'s \<Rightarrow> 's"

definition no_hooks :: "'s hooks" where
  "no_hooks = \<lparr>on_attempt_start = \<lambda>_ s. s, before_commit = \<lambda>_ s. (None, s), on_hook_error = \<lambda>_ _ s. s,
     on_commit_success = \<lambda>_ _ s. s, on_commit_error = \<lambda>_ _ s. (None, s), on_closure_error = \<lambda>_ _ s. s,
     on_error_duration = \<lambda>_ _ s. s, on_retry = \<lambda>_ s. s, on_complete = \<lambda>s. s\<rparr>"

definition option_hooks :: "'s hooks option \<Rightarrow> 's hooks" where
  "option_hooks opt = (case opt of None \<Rightarrow> no_hooks | Some h \<Rightarrow> h)"

text \<open>\<^verbatim>\<open>first.and(second)\<close>: both have run, the first error is the one reported.\<close>

definition and_hooks :: "('s \<Rightarrow> fdb_error option \<times> 's) \<Rightarrow> ('s \<Rightarrow> fdb_error option \<times> 's) \<Rightarrow> 's \<Rightarrow> fdb_error option \<times> 's" where
  "and_hooks f g s =
     (let (first, s) = f s; (second, s) = g s
      in (case first of Some e \<Rightarrow> Some e | None \<Rightarrow> second, s))"

definition pair_hooks :: "'s hooks \<Rightarrow> 's hooks \<Rightarrow> 's hooks" where
  "pair_hooks a b = \<lparr>
     on_attempt_start = \<lambda>i s. on_attempt_start b i (on_attempt_start a i s),
     before_commit = \<lambda>i. and_hooks (before_commit a i) (before_commit b i),
     on_hook_error = \<lambda>e i s. on_hook_error b e i (on_hook_error a e i s),
     on_commit_success = \<lambda>d i s. on_commit_success b d i (on_commit_success a d i s),
     on_commit_error = \<lambda>e i. and_hooks (on_commit_error a e i) (on_commit_error b e i),
     on_closure_error = \<lambda>e i s. on_closure_error b e i (on_closure_error a e i s),
     on_error_duration = \<lambda>d i s. on_error_duration b d i (on_error_duration a d i s),
     on_retry = \<lambda>i s. on_retry b i (on_retry a i s),
     on_complete = \<lambda>s. on_complete b (on_complete a s)\<rparr>"

datatype 'e attempt_failure = ClosureFailure 'e | CommitFailure fdb_error

type_synonym 'e retry_policy = "'e attempt_failure \<Rightarrow> retry_decision \<Rightarrow> nat \<Rightarrow> retry_decision"

definition native_retry_policy :: "'e retry_policy" where
  "native_retry_policy failure proposed attempt = proposed"

text \<open>The policy that caps the attempts, as the documentation of \<^verbatim>\<open>RetryPolicy\<close> gives it.\<close>

definition max_attempts :: "nat \<Rightarrow> 'e retry_policy" where
  "max_attempts n failure proposed attempt = (if attempt + 1 \<ge> n then Fatal else proposed)"

section \<open>Attempts\<close>

definition NOT_COMMITTED :: fdb_error where "NOT_COMMITTED = FdbError 1020"

text \<open>A retryable transaction: whether someone else still holds a reference to it.\<close>

record retryable_transaction =
  rt_shared :: bool

definition retryable_take :: "retryable_transaction \<Rightarrow> binding_error + unit" where
  "retryable_take t = (if rt_shared t then Inl ReferenceToTransactionKept else Inr ())"

definition retryable_commit ::
    "('s, 'v, 'e) client \<Rightarrow> retryable_transaction \<Rightarrow> 's \<Rightarrow> (binding_error + fdb_error option) \<times> 's" where
  "retryable_commit c t s =
     (case retryable_take t of Inl e \<Rightarrow> (Inl e, s) | Inr _ \<Rightarrow> let (r, s) = commit_native c s in (Inr r, s))"

definition retryable_on_error ::
    "('s, 'v, 'e) client \<Rightarrow> retryable_transaction \<Rightarrow> fdb_error \<Rightarrow> 's \<Rightarrow> (binding_error + fdb_error option) \<times> 's" where
  "retryable_on_error c t err s =
     (case retryable_take t of Inl e \<Rightarrow> (Inl e, s) | Inr _ \<Rightarrow> let (r, s) = on_error_native c err s in (Inr r, s))"

datatype ('v, 'e) attempt =
    Committed 'v u64
  | ClosureFailed retryable_transaction 'e
  | CommitFailed fdb_error
  | BindingFailed binding_error

definition report_hook :: "'s hooks \<Rightarrow> nat \<Rightarrow> fdb_error option \<times> 's \<Rightarrow> 's" where
  "report_hook h attempt r = (case r of (Some e, s) \<Rightarrow> on_hook_error h e attempt s | (None, s) \<Rightarrow> s)"

text \<open>The closure has been called before; its future is awaited after the first hook.\<close>

definition run_attempt ::
    "('s, 'v, 'e) client \<Rightarrow> 's hooks \<Rightarrow> bool \<Rightarrow> nat \<Rightarrow> 's \<Rightarrow> ('v, 'e) attempt \<times> 's" where
  "run_attempt c h maybe_committed attempt s =
     (let s = on_attempt_start h attempt s;
          (r, shared, s) = run_closure c maybe_committed s;
          t = \<lparr>rt_shared = shared\<rparr>
      in case r of
           Inl e \<Rightarrow> (ClosureFailed t e, s)
         | Inr v \<Rightarrow>
             let s = report_hook h attempt (before_commit h attempt s);
                 now_commit = instant c s
             in case retryable_commit c t s of
                  (Inr None, s) \<Rightarrow> (Committed v (elapsed_ms c now_commit s), s)
                | (Inr (Some e), s) \<Rightarrow> (CommitFailed e, s)
                | (Inl e, s) \<Rightarrow> (BindingFailed e, s))"

text \<open>
  What one turn of the loop comes to: a result, or another turn with the flag and the state.
\<close>

datatype ('v, 'e) turn = Return "'e + 'v" | Again bool

definition turn_on_error ::
    "('s, 'v, 'e) client \<Rightarrow> 's hooks \<Rightarrow> nat \<Rightarrow> bool \<Rightarrow> (fdb_error \<Rightarrow> 'e) \<Rightarrow> nat \<Rightarrow> fdb_error option \<times> 's \<Rightarrow> ('v, 'e) turn \<times> 's" where
  "turn_on_error c h attempt maybe_committed refused now_on_error r =
     (case r of
        (None, s) \<Rightarrow> (Again maybe_committed,
          on_retry h attempt (on_error_duration h (elapsed_ms c now_on_error s) attempt s))
      | (Some e, s) \<Rightarrow> (Return (Inl (refused e)), s))"

definition decided :: "retry_decision \<Rightarrow> fdb_error option" where
  "decided d = (case d of Fdb e \<Rightarrow> Some e | Retry \<Rightarrow> Some NOT_COMMITTED | Fatal \<Rightarrow> None)"

definition closure_failed ::
    "('s, 'v, 'e) client \<Rightarrow> 's hooks \<Rightarrow> 'e retry_policy \<Rightarrow> nat \<Rightarrow> bool \<Rightarrow> retryable_transaction \<Rightarrow> 'e \<Rightarrow> 's \<Rightarrow>
      ('v, 'e) turn \<times> 's" where
  "closure_failed c h policy attempt maybe_committed t err s =
     (let proposed = retry_decision_of c err;
          maybe_committed = (case proposed of
            Fdb e \<Rightarrow> maybe_committed \<or> is_maybe_committed c e | _ \<Rightarrow> maybe_committed)
      in case decided (policy (ClosureFailure err) proposed attempt) of
           None \<Rightarrow> (Return (Inl err), s)
         | Some fdb_err \<Rightarrow>
             let s = on_closure_error h fdb_err attempt s;
                 now_on_error = instant c s
             in case retryable_on_error c t fdb_err s of
                  (Inl e, s) \<Rightarrow> (Return (Inl (from_binding c e)), s)
                | (Inr r, s) \<Rightarrow> turn_on_error c h attempt maybe_committed (\<lambda>_. err) now_on_error (r, s))"

definition commit_failed ::
    "('s, 'v, 'e) client \<Rightarrow> 's hooks \<Rightarrow> 'e retry_policy \<Rightarrow> nat \<Rightarrow> bool \<Rightarrow> fdb_error \<Rightarrow> 's \<Rightarrow> ('v, 'e) turn \<times> 's" where
  "commit_failed c h policy attempt maybe_committed err s =
     (let maybe_committed = (maybe_committed \<or> is_maybe_committed c err);
          s = report_hook h attempt (on_commit_error h err attempt s)
      in case decided (policy (CommitFailure err) (Fdb err) attempt) of
           None \<Rightarrow> (Return (Inl (from_binding c (NonRetryableFdbError err))), s)
         | Some fdb_err \<Rightarrow>
             turn_on_error c h attempt maybe_committed (\<lambda>e. from_binding c (NonRetryableFdbError e)) (instant c s)
               (on_error_native c fdb_err s))"

definition retry_turn ::
    "('s, 'v, 'e) client \<Rightarrow> 's hooks \<Rightarrow> 'e retry_policy \<Rightarrow> nat \<Rightarrow> bool \<Rightarrow> 's \<Rightarrow> ('v, 'e) turn \<times> 's" where
  "retry_turn c h policy attempt maybe_committed s =
     (case run_attempt c h maybe_committed attempt (call_closure c maybe_committed s) of
        (Committed v commit_duration, s) \<Rightarrow> (Return (Inr v), on_commit_success h commit_duration attempt s)
      | (BindingFailed e, s) \<Rightarrow> (Return (Inl (from_binding c e)), s)
      | (ClosureFailed t e, s) \<Rightarrow> closure_failed c h policy attempt maybe_committed t e s
      | (CommitFailed e, s) \<Rightarrow> commit_failed c h policy attempt maybe_committed e s)"

fun retry_loop ::
    "nat \<Rightarrow> ('s, 'v, 'e) client \<Rightarrow> 's hooks \<Rightarrow> 'e retry_policy \<Rightarrow> nat \<Rightarrow> bool \<Rightarrow> 's \<Rightarrow> (('e + 'v) \<times> 's) option" where
  "retry_loop 0 c h policy attempt maybe_committed s = None"
| "retry_loop (Suc n) c h policy attempt maybe_committed s =
     (case retry_turn c h policy attempt maybe_committed s of
        (Return r, s) \<Rightarrow> Some (r, s)
      | (Again maybe_committed, s) \<Rightarrow> retry_loop n c h policy (attempt + 1) maybe_committed s)"

definition run_with_hooks ::
    "nat \<Rightarrow> ('s, 'v, 'e) client \<Rightarrow> 's hooks \<Rightarrow> 'e retry_policy \<Rightarrow> 's \<Rightarrow> (('e + 'v) \<times> 's) option" where
  "run_with_hooks n c h policy s =
     map_option (\<lambda>(r, s). (r, on_complete h s)) (retry_loop n c h policy 0 False s)"

text \<open>\<^verbatim>\<open>TransactionRunner::run\<close>: \<open>create\<close> is the native creation of a transaction.\<close>

definition runner_run ::
    "nat \<Rightarrow> ('s \<Rightarrow> fdb_error option \<times> 's) \<Rightarrow> ('s, 'v, 'e) client \<Rightarrow> 's hooks \<Rightarrow> 'e retry_policy \<Rightarrow>
      (fdb_error \<Rightarrow> 'e) \<Rightarrow> 's \<Rightarrow> (('e + 'v) \<times> 's) option" where
  "runner_run n create c h policy from_fdb s =
     (case create s of
        (Some e, s) \<Rightarrow> Some (Inl (from_fdb e), on_complete h s)
      | (None, s) \<Rightarrow> run_with_hooks n c h policy s)"


section \<open>The older loop\<close>

text \<open>
  \<^verbatim>\<open>Database::transact\<close>.  \<^verbatim>\<open>try_into_fdb_error\<close> is the decision \<open>Fdb\<close>, anything else keeps the
  user's error; \<open>in_time\<close> is the clock's answer while a time limit is set.
\<close>

record transact_option =
  retry_limit :: "nat option"
  has_time_out :: bool
  idempotent_ops :: bool

definition idempotent :: transact_option where
  "idempotent = \<lparr>retry_limit = None, has_time_out = False, idempotent_ops = True\<rparr>"

definition can_retry :: "('s \<Rightarrow> bool) \<Rightarrow> transact_option \<Rightarrow> nat \<Rightarrow> 's \<Rightarrow> bool" where
  "can_retry in_time opts tries s \<longleftrightarrow>
     (case retry_limit opts of Some l \<Rightarrow> tries < l | None \<Rightarrow> True) \<and> (has_time_out opts \<longrightarrow> in_time s)"

definition transact_retry ::
    "('s, 'v, 'e) client \<Rightarrow> (fdb_error \<Rightarrow> 'e) \<Rightarrow> ('s \<Rightarrow> bool) \<Rightarrow> transact_option \<Rightarrow> nat \<Rightarrow> fdb_error \<Rightarrow> 's \<Rightarrow>
      ('e + 'v) option \<times> 's" where
  "transact_retry c from_fdb in_time opts tries e s =
     (if (idempotent_ops opts \<or> \<not> is_maybe_committed c e) \<and> can_retry in_time opts (tries + 1) s
      then (case on_error_native c e s of (None, s) \<Rightarrow> (None, s) | (Some e', s) \<Rightarrow> (Some (Inl (from_fdb e')), s))
      else (Some (Inl (from_fdb e)), s))"

definition transact_turn ::
    "('s, 'v, 'e) client \<Rightarrow> (fdb_error \<Rightarrow> 'e) \<Rightarrow> ('s \<Rightarrow> bool) \<Rightarrow> transact_option \<Rightarrow> nat \<Rightarrow> 's \<Rightarrow> ('e + 'v) option \<times> 's" where
  "transact_turn c from_fdb in_time opts tries s =
     (case run_closure c False (call_closure c False s) of
        (Inr item, _, s) \<Rightarrow>
          (case commit_native c s of
             (None, s) \<Rightarrow> (Some (Inr item), s)
           | (Some e, s) \<Rightarrow> transact_retry c from_fdb in_time opts tries e s)
      | (Inl user_err, _, s) \<Rightarrow>
          (case retry_decision_of c user_err of
             Fdb e \<Rightarrow> transact_retry c from_fdb in_time opts tries e s
           | _ \<Rightarrow> (Some (Inl user_err), s)))"

fun transact_loop ::
    "nat \<Rightarrow> ('s, 'v, 'e) client \<Rightarrow> (fdb_error \<Rightarrow> 'e) \<Rightarrow> ('s \<Rightarrow> bool) \<Rightarrow> transact_option \<Rightarrow> nat \<Rightarrow> 's \<Rightarrow>
      (('e + 'v) \<times> 's) option" where
  "transact_loop 0 c from_fdb in_time opts tries s = None"
| "transact_loop (Suc n) c from_fdb in_time opts tries s =
     (case transact_turn c from_fdb in_time opts tries s of
        (Some r, s) \<Rightarrow> Some (r, s)
      | (None, s) \<Rightarrow> transact_loop n c from_fdb in_time opts (tries + 1) s)"

text \<open>\<open>create\<close> is the native creation of the transaction.\<close>

definition transact ::
    "nat \<Rightarrow> ('s \<Rightarrow> fdb_error option \<times> 's) \<Rightarrow> ('s, 'v, 'e) client \<Rightarrow> (fdb_error \<Rightarrow> 'e) \<Rightarrow> ('s \<Rightarrow> bool) \<Rightarrow> transact_option \<Rightarrow>
      's \<Rightarrow> (('e + 'v) \<times> 's) option" where
  "transact n create c from_fdb in_time opts s =
     (case create s of
        (Some e, s) \<Rightarrow> Some (Inl (from_fdb e), s)
      | (None, s) \<Rightarrow> transact_loop n c from_fdb in_time opts 0 s)"

end
