(* ===== verification/Retry_Properties.thy ===== *)
theory Retry_Properties
  imports Retry_Runner
begin

text \<open>
  What a run of the retry runner does: the order of its steps and hooks, the maybe-committed flag,
  that hooks only observe, and that a cap on the attempts ends it.
\<close>

section \<open>Logging a run\<close>

text \<open>
  The steps of a run.  A log of them is added to the state, and the client and hooks are wrapped to
  write it.
\<close>

datatype run_event =
    ClosureCalled bool
  | AttemptStart nat
  | ClosureRan bool "retry_decision option"
  | BeforeCommit nat
  | HookError fdb_error nat
  | CommitRan "fdb_error option"
  | CommitSuccess nat
  | CommitErrorSeen fdb_error nat
  | ClosureErrorSeen fdb_error nat
  | OnErrorRan fdb_error "fdb_error option"
  | ErrorDuration nat
  | Retried nat
  | Completed

type_synonym 's logged = "'s \<times> run_event list"

definition logged_client :: "('s, 'v, 'e) client \<Rightarrow> ('s logged, 'v, 'e) client" where
  "logged_client c = \<lparr>
     call_closure = \<lambda>b (s, l). (call_closure c b s, l @ [ClosureCalled b]),
     run_closure = \<lambda>b (s, l). let (r, k, s') = run_closure c b s
       in (r, k, s', l @ [ClosureRan b (case r of Inl e \<Rightarrow> Some (retry_decision_of c e) | Inr _ \<Rightarrow> None)]),
     commit_native = \<lambda>(s, l). let (r, s') = commit_native c s in (r, s', l @ [CommitRan r]),
     on_error_native = \<lambda>e (s, l). let (r, s') = on_error_native c e s in (r, s', l @ [OnErrorRan e r]),
     is_maybe_committed = is_maybe_committed c,
     retry_decision_of = retry_decision_of c,
     from_binding = from_binding c,
     instant = \<lambda>(s, l). instant c s\<rparr>"

definition logged_hooks :: "'s hooks \<Rightarrow> 's logged hooks" where
  "logged_hooks h = \<lparr>
     on_attempt_start = \<lambda>i (s, l). (on_attempt_start h i s, l @ [AttemptStart i]),
     before_commit = \<lambda>i (s, l). let (r, s') = before_commit h i s in (r, s', l @ [BeforeCommit i]),
     on_hook_error = \<lambda>e i (s, l). (on_hook_error h e i s, l @ [HookError e i]),
     on_commit_success = \<lambda>d i (s, l). (on_commit_success h d i s, l @ [CommitSuccess i]),
     on_commit_error = \<lambda>e i (s, l). let (r, s') = on_commit_error h e i s in (r, s', l @ [CommitErrorSeen e i]),
     on_closure_error = \<lambda>e i (s, l). (on_closure_error h e i s, l @ [ClosureErrorSeen e i]),
     on_error_duration = \<lambda>d i (s, l). (on_error_duration h d i s, l @ [ErrorDuration i]),
     on_retry = \<lambda>i (s, l). (on_retry h i s, l @ [Retried i]),
     on_complete = \<lambda>(s, l). (on_complete h s, l @ [Completed])\<rparr>"

lemmas logged_simps = logged_client_def logged_hooks_def

section \<open>The documented order\<close>

definition uncertain :: "('s, 'v, 'e) client \<Rightarrow> retry_decision \<Rightarrow> bool" where
  "uncertain c d \<longleftrightarrow> (case d of Fdb e \<Rightarrow> is_maybe_committed c e | _ \<Rightarrow> False)"

definition hook_errors :: "nat \<Rightarrow> run_event list \<Rightarrow> bool" where
  "hook_errors i l \<longleftrightarrow> l = [] \<or> (\<exists>e. l = [HookError e i])"

text \<open>An attempt that is retried: its index, flag, steps, and the flag of the next one.\<close>

inductive retried_attempt :: "('s, 'v, 'e) client \<Rightarrow> nat \<Rightarrow> bool \<Rightarrow> run_event list \<Rightarrow> bool \<Rightarrow> bool"
  for c i f where
  after_closure: "retried_attempt c i f
     [ClosureCalled f, AttemptStart i, ClosureRan f (Some d), ClosureErrorSeen e i, OnErrorRan e None, ErrorDuration i, Retried i]
     (f \<or> uncertain c d)"
| after_commit: "hook_errors i h1 \<Longrightarrow> hook_errors i h2 \<Longrightarrow> retried_attempt c i f
     ([ClosureCalled f, AttemptStart i, ClosureRan f None, BeforeCommit i] @ h1 @ [CommitRan (Some err), CommitErrorSeen err i] @ h2 @
      [OnErrorRan e None, ErrorDuration i, Retried i])
     (f \<or> is_maybe_committed c err)"

text \<open>The last attempt, with the result of the run.\<close>

inductive last_attempt :: "('s, 'v, 'e) client \<Rightarrow> nat \<Rightarrow> bool \<Rightarrow> run_event list \<Rightarrow> 'e + 'v \<Rightarrow> bool"
  for c i f where
  committed: "hook_errors i h1 \<Longrightarrow> last_attempt c i f
     ([ClosureCalled f, AttemptStart i, ClosureRan f None, BeforeCommit i] @ h1 @ [CommitRan None, CommitSuccess i]) (Inr v)"
| kept_by_success: "hook_errors i h1 \<Longrightarrow> last_attempt c i f
     ([ClosureCalled f, AttemptStart i, ClosureRan f None, BeforeCommit i] @ h1) (Inl (from_binding c ReferenceToTransactionKept))"
| closure_fatal: "last_attempt c i f
     [ClosureCalled f, AttemptStart i, ClosureRan f (Some (retry_decision_of c err))] (Inl err)"
| kept_by_failure: "last_attempt c i f
     [ClosureCalled f, AttemptStart i, ClosureRan f (Some d), ClosureErrorSeen e i] (Inl (from_binding c ReferenceToTransactionKept))"
| closure_refused: "last_attempt c i f
     [ClosureCalled f, AttemptStart i, ClosureRan f (Some (retry_decision_of c err)), ClosureErrorSeen e i, OnErrorRan e (Some e')] (Inl err)"
| commit_fatal: "hook_errors i h1 \<Longrightarrow> hook_errors i h2 \<Longrightarrow> last_attempt c i f
     ([ClosureCalled f, AttemptStart i, ClosureRan f None, BeforeCommit i] @ h1 @ [CommitRan (Some err), CommitErrorSeen err i] @ h2)
     (Inl (from_binding c (NonRetryableFdbError err)))"
| commit_refused: "hook_errors i h1 \<Longrightarrow> hook_errors i h2 \<Longrightarrow> last_attempt c i f
     ([ClosureCalled f, AttemptStart i, ClosureRan f None, BeforeCommit i] @ h1 @ [CommitRan (Some err), CommitErrorSeen err i] @ h2 @
      [OnErrorRan e (Some e')]) (Inl (from_binding c (NonRetryableFdbError e')))"

inductive protocol :: "('s, 'v, 'e) client \<Rightarrow> nat \<Rightarrow> bool \<Rightarrow> run_event list \<Rightarrow> 'e + 'v \<Rightarrow> bool" for c where
  last_turn: "last_attempt c i f evs r \<Longrightarrow> protocol c i f evs r"
| next_turn: "retried_attempt c i f evs f' \<Longrightarrow> protocol c (Suc i) f' evs' r \<Longrightarrow> protocol c i f (evs @ evs') r"

text \<open>One turn of the loop, logged, matches the turn and is an attempt of the protocol.\<close>

definition turn_logged ::
    "('s, 'v, 'e) client \<Rightarrow> nat \<Rightarrow> bool \<Rightarrow> run_event list \<Rightarrow> ('v, 'e) turn \<times> 's \<Rightarrow> ('v, 'e) turn \<times> 's logged \<Rightarrow> bool" where
  "turn_logged c i f l x y \<longleftrightarrow> (\<exists>evs. y = (fst x, snd x, l @ evs) \<and>
     (case fst x of Return r \<Rightarrow> last_attempt c i f evs r | Again f' \<Rightarrow> retried_attempt c i f evs f'))"

lemma report_logged:
  "\<exists>evs. report_hook (logged_hooks h) i (r, s, l) = (report_hook h i (r, s), l @ evs) \<and> hook_errors i evs"
  by (cases r) (auto simp: report_hook_def logged_hooks_def hook_errors_def)


lemma turn_loggedI:
  "y = (t, s, l @ evs) \<Longrightarrow> (case t of Return r \<Rightarrow> last_attempt c i f evs r | Again f' \<Rightarrow> retried_attempt c i f evs f') \<Longrightarrow>
    turn_logged c i f l (t, s) y"
  unfolding turn_logged_def by fastforce

lemma flag_uncertain:
  "(case d of Fdb e \<Rightarrow> f \<or> is_maybe_committed c e | Retry \<Rightarrow> f | Fatal \<Rightarrow> f) \<longleftrightarrow> f \<or> uncertain c d"
  by (cases d) (simp_all add: uncertain_def)

lemma closure_failed_alt:
  "closure_failed c h policy i f t err s =
    (case decided (policy (ClosureFailure err) (retry_decision_of c err) i) of
       None \<Rightarrow> (Return (Inl err), s)
     | Some e \<Rightarrow>
         (case retryable_on_error c t e (on_closure_error h e i s) of
            (Inl b, s) \<Rightarrow> (Return (Inl (from_binding c b)), s)
          | (Inr r, s') \<Rightarrow> turn_on_error c h i (f \<or> uncertain c (retry_decision_of c err)) (\<lambda>_. err)
              (instant c (on_closure_error h e i s)) (r, s')))"
  unfolding closure_failed_def Let_def flag_uncertain by (rule refl)

lemma logged_client_sel [simp]:
  "retry_decision_of (logged_client c) = retry_decision_of c" "from_binding (logged_client c) = from_binding c"
  "is_maybe_committed (logged_client c) = is_maybe_committed c" "instant (logged_client c) (s, l) = instant c s"
  "elapsed_ms (logged_client c) now (s, l) = elapsed_ms c now s"
  "on_error_native (logged_client c) e (s, l) = (let (r, s') = on_error_native c e s in (r, s', l @ [OnErrorRan e r]))"
  by (simp_all add: logged_client_def elapsed_ms_def)

lemma logged_hooks_sel:
  "on_commit_success (logged_hooks h) d i (s, l) = (on_commit_success h d i s, l @ [CommitSuccess i])"
  "on_complete (logged_hooks h) (s, l) = (on_complete h s, l @ [Completed])"
  by (simp_all add: logged_hooks_def)

lemma uncertain_logged: "uncertain (logged_client c) = uncertain c"
  by (simp add: uncertain_def fun_eq_iff split: retry_decision.split)

lemma closure_failed_logged:
  "turn_logged c i f l (closure_failed c h policy i f \<lparr>rt_shared = k\<rparr> err s)
    (closure_failed (logged_client c) (logged_hooks h) policy i f \<lparr>rt_shared = k\<rparr> err
      (s, l @ [ClosureCalled f, AttemptStart i, ClosureRan f (Some (retry_decision_of c err))]))"
proof -
  let ?d = "decided (policy (ClosureFailure err) (retry_decision_of c err) i)"
  show ?thesis
  proof (cases ?d)
    case None
    then show ?thesis by (auto simp: closure_failed_alt intro!: turn_loggedI last_attempt.closure_fatal)
  next
    case (Some e)
    obtain o' s' where err: "on_error_native c e (on_closure_error h e i s) = (o', s')" by fastforce
    show ?thesis
    proof (cases k)
      case True
      with Some show ?thesis
        by (auto simp: closure_failed_alt uncertain_logged logged_hooks_def retryable_on_error_def retryable_take_def
            intro!: turn_loggedI last_attempt.kept_by_failure)
    next
      case False
      then show ?thesis
        using Some err
        by (cases o') (auto simp: closure_failed_alt uncertain_logged logged_hooks_def retryable_on_error_def retryable_take_def turn_on_error_def
            intro!: turn_loggedI last_attempt.closure_refused retried_attempt.after_closure)
    qed
  qed
qed

lemma commit_failed_logged:
  assumes "hook_errors i h1"
  shows "turn_logged c i f l (commit_failed c h policy i f err s)
    (commit_failed (logged_client c) (logged_hooks h) policy i f err
      (s, l @ [ClosureCalled f, AttemptStart i, ClosureRan f None, BeforeCommit i] @ h1 @ [CommitRan (Some err)]))"
proof -
  let ?l = "l @ [ClosureCalled f, AttemptStart i, ClosureRan f None, BeforeCommit i] @ h1 @ [CommitRan (Some err)]"
  obtain r s1 where hook: "on_commit_error h err i s = (r, s1)" by fastforce
  obtain h2 where h2: "report_hook (logged_hooks h) i (r, s1, ?l @ [CommitErrorSeen err i]) =
      (report_hook h i (r, s1), (?l @ [CommitErrorSeen err i]) @ h2)" "hook_errors i h2"
    using report_logged [of h i r s1 "?l @ [CommitErrorSeen err i]"] by blast
  have hook': "on_commit_error (logged_hooks h) err i (s, ?l) = (r, s1, ?l @ [CommitErrorSeen err i])"
    by (simp add: logged_hooks_def hook)
  let ?d = "decided (policy (CommitFailure err) (Fdb err) i)"
  show ?thesis
  proof (cases ?d)
    case None
    then show ?thesis
      unfolding commit_failed_def hook' hook h2(1) Let_def
      using last_attempt.commit_fatal [OF assms h2(2), of c f err]
      by (auto simp: logged_client_def intro!: turn_loggedI)
  next
    case (Some e)
    obtain o' s2 where err: "on_error_native c e (report_hook h i (r, s1)) = (o', s2)" by fastforce
    show ?thesis
      using Some err last_attempt.commit_refused [OF assms h2(2), of c f err e]
        retried_attempt.after_commit [OF assms h2(2), of c f err e]
      unfolding commit_failed_def hook' hook h2(1) Let_def
      by (cases o') (auto simp: logged_hooks_def turn_on_error_def intro!: turn_loggedI)
  qed
qed

lemma turn_ok:
  "turn_logged c i f l (retry_turn c h policy i f s) (retry_turn (logged_client c) (logged_hooks h) policy i f (s, l))"
proof -
  obtain r k s1 where cl: "run_closure c f (on_attempt_start h i (call_closure c f s)) = (r, k, s1)" by (metis prod_cases3)
  have called: "call_closure (logged_client c) f (s, l) = (call_closure c f s, l @ [ClosureCalled f])"
    by (simp add: logged_client_def)
  show ?thesis
  proof (cases r)
    case (Inl err)
    then show ?thesis
      using closure_failed_logged [of c i f l h policy k err s1] cl
      by (simp add: retry_turn_def run_attempt_def) (simp add: logged_simps)
  next
    case (Inr v)
    let ?l = "l @ [ClosureCalled f, AttemptStart i, ClosureRan f None]"
    obtain e s2 where before: "before_commit h i s1 = (e, s2)" by fastforce
    obtain h1 where h1: "report_hook (logged_hooks h) i (e, s2, ?l @ [BeforeCommit i]) =
        (report_hook h i (e, s2), (?l @ [BeforeCommit i]) @ h1)" "hook_errors i h1"
      using report_logged [of h i e s2 "?l @ [BeforeCommit i]"] by blast
    have cl': "run_closure (logged_client c) f (on_attempt_start (logged_hooks h) i (call_closure c f s, l @ [ClosureCalled f])) = (r, k, s1, ?l)"
      using cl Inr by (simp add: logged_simps)
    have before': "before_commit (logged_hooks h) i (s1, ?l) = (e, s2, ?l @ [BeforeCommit i])"
      by (simp add: logged_hooks_def before)
    obtain o' s3 where commit: "commit_native c (report_hook h i (e, s2)) = (o', s3)" by fastforce
    have commit': "commit_native (logged_client c) (report_hook h i (e, s2), x) = (o', s3, x @ [CommitRan o'])" for x
      by (simp add: logged_client_def commit)
    have attempt: "run_attempt c h f i (call_closure c f s) = (if k then (BindingFailed ReferenceToTransactionKept, report_hook h i (e, s2))
        else (case o' of None \<Rightarrow> Committed v (elapsed_ms c (instant c (report_hook h i (e, s2))) s3) | Some err \<Rightarrow> CommitFailed err, s3))"
      by (simp add: run_attempt_def cl Inr before retryable_commit_def retryable_take_def commit split: option.split)
    have attempt': "run_attempt (logged_client c) (logged_hooks h) f i (call_closure c f s, l @ [ClosureCalled f]) =
        (if k then (BindingFailed ReferenceToTransactionKept, report_hook h i (e, s2), (?l @ [BeforeCommit i]) @ h1)
         else (case o' of None \<Rightarrow> Committed v (elapsed_ms c (instant c (report_hook h i (e, s2))) s3) | Some err \<Rightarrow> CommitFailed err, s3, ((?l @ [BeforeCommit i]) @ h1) @ [CommitRan o']))"
      unfolding run_attempt_def cl' Let_def prod.case
      by (simp add: Inr before' h1(1) [simplified] retryable_commit_def retryable_take_def commit' split: option.split)
    show ?thesis
    proof (cases k)
      case True
      then show ?thesis
        using last_attempt.kept_by_success [OF h1(2), of c f]
        by (auto simp: retry_turn_def called attempt attempt' intro!: turn_loggedI)
    next
      case False
      show ?thesis
      proof (cases o')
        case None
        then show ?thesis
          using False last_attempt.committed [OF h1(2), of c f v]
          by (auto simp: retry_turn_def called attempt attempt' logged_hooks_sel intro!: turn_loggedI)
      next
        case (Some err)
        then show ?thesis
          using False commit_failed_logged [OF h1(2), of c f l h policy err s3]
          by (simp add: retry_turn_def called attempt attempt')
      qed
    qed
  qed
qed

lemma loop_ok:
  assumes "retry_loop n c h policy i f s = Some (r, s')"
  shows "\<exists>evs. retry_loop n (logged_client c) (logged_hooks h) policy i f (s, l) = Some (r, s', l @ evs) \<and> protocol c i f evs r"
  using assms
proof (induction n arbitrary: i f s l)
  case (Suc n)
  obtain t s1 where turn: "retry_turn c h policy i f s = (t, s1)" by fastforce
  from turn_ok [of c i f l h policy s] obtain evs where
    evs: "retry_turn (logged_client c) (logged_hooks h) policy i f (s, l) = (t, s1, l @ evs)"
    "case t of Return r \<Rightarrow> last_attempt c i f evs r | Again f' \<Rightarrow> retried_attempt c i f evs f'"
    by (auto simp: turn_logged_def turn)
  show ?case
  proof (cases t)
    case (Return r1)
    with Suc.prems turn evs show ?thesis by (auto intro: protocol.last_turn)
  next
    case (Again f1)
    with Suc.prems turn have "retry_loop n c h policy (i + 1) f1 s1 = Some (r, s')" by simp
    from Suc.IH [OF this, of "l @ evs"] obtain evs' where
      "retry_loop n (logged_client c) (logged_hooks h) policy (i + 1) f1 (s1, l @ evs) = Some (r, s', (l @ evs) @ evs')"
      "protocol c (i + 1) f1 evs' r" by blast
    with evs Again show ?thesis by (auto intro: protocol.next_turn)
  qed
qed simp


lemma loop_erase:
  "map_option (\<lambda>(r, s, l). (r, s)) (retry_loop n (logged_client c) (logged_hooks h) policy i f (s, l)) = retry_loop n c h policy i f s"
proof (induction n arbitrary: i f s l)
  case (Suc n)
  obtain t s1 where turn: "retry_turn c h policy i f s = (t, s1)" by fastforce
  from turn_ok [of c i f l h policy s] obtain evs where
    "retry_turn (logged_client c) (logged_hooks h) policy i f (s, l) = (t, s1, l @ evs)"
    by (auto simp: turn_logged_def turn)
  with Suc.IH turn show ?case by (auto split: turn.split)
qed simp

section \<open>Consequences of the order\<close>

text \<open>The closure calls of a log with the flag they were given, and what was uncertain before.\<close>

definition uncertain_step :: "('s, 'v, 'e) client \<Rightarrow> run_event \<Rightarrow> bool" where
  "uncertain_step c ev \<longleftrightarrow> (case ev of
     ClosureRan _ (Some d) \<Rightarrow> uncertain c d
   | CommitRan (Some e) \<Rightarrow> is_maybe_committed c e
   | _ \<Rightarrow> False)"

definition flag_given :: "run_event \<Rightarrow> bool option" where
  "flag_given ev = (case ev of ClosureCalled g \<Rightarrow> Some g | ClosureRan g _ \<Rightarrow> Some g | _ \<Rightarrow> None)"

definition flags_right :: "('s, 'v, 'e) client \<Rightarrow> bool \<Rightarrow> run_event list \<Rightarrow> bool" where
  "flags_right c f evs \<longleftrightarrow> (\<forall>xs ev g ys. evs = xs @ ev # ys \<longrightarrow> flag_given ev = Some g \<longrightarrow>
     g = (f \<or> (\<exists>ev \<in> set xs. uncertain_step c ev)))"

lemma flags_right_Cons:
  "flags_right c f (ev # evs) \<longleftrightarrow>
    (\<forall>g. flag_given ev = Some g \<longrightarrow> g = f) \<and> flags_right c (f \<or> uncertain_step c ev) evs"
proof -
  have split: "(\<forall>xs. P xs) \<longleftrightarrow> P [] \<and> (\<forall>x xs. P (x # xs))" for P :: "run_event list \<Rightarrow> bool"
    by (metis list.exhaust)
  show ?thesis
    unfolding flags_right_def
    by (subst split) auto
qed

lemma flags_right_Nil: "flags_right c f []"
  by (simp add: flags_right_def)

lemma flags_right_append:
  "flags_right c f (xs @ ys) \<longleftrightarrow> flags_right c f xs \<and> flags_right c (f \<or> (\<exists>ev \<in> set xs. uncertain_step c ev)) ys"
  by (induction xs arbitrary: f) (auto simp: flags_right_Nil flags_right_Cons disj_assoc)

lemmas flags_simps = flags_right_Nil flags_right_Cons flags_right_append uncertain_step_def flag_given_def

lemma hook_errors_flags: "hook_errors i h \<Longrightarrow> flags_right c f h \<and> (\<forall>ev \<in> set h. \<not> uncertain_step c ev)"
  by (auto simp: hook_errors_def flags_simps)

lemma attempt_flags:
  "retried_attempt c i f evs f' \<Longrightarrow> flags_right c f evs \<and> f' = (f \<or> (\<exists>ev \<in> set evs. uncertain_step c ev))"
  "last_attempt c i f evs r \<Longrightarrow> flags_right c f evs"
  by (erule retried_attempt.cases last_attempt.cases; auto simp: flags_simps hook_errors_flags hook_errors_def)+

lemma protocol_flags: "protocol c i f evs r \<Longrightarrow> flags_right c f evs"
  by (induction rule: protocol.induct) (auto simp: flags_right_append dest: attempt_flags)

lemma protocol_commits:
  "protocol c i f evs r \<Longrightarrow> count_list evs (CommitRan None) = (case r of Inr _ \<Rightarrow> 1 | Inl _ \<Rightarrow> 0) \<and> Completed \<notin> set evs"
proof (induction rule: protocol.induct)
  case (last_turn i f evs r)
  then show ?case by cases (auto simp: hook_errors_def)
next
  case (next_turn i f evs f' evs' r)
  from next_turn.hyps(1) have "count_list evs (CommitRan None) = 0 \<and> Completed \<notin> set evs"
    by cases (auto simp: hook_errors_def)
  with next_turn.IH show ?case by simp
qed

text \<open>
  C10.  The steps of a run.  Logging changes nothing.  The log is that of retried attempts followed by a
  last one and the completion hook, which fires once.  In an attempt the closure is called with its
  flag first, and what it does before it returns its future precedes \<^verbatim>\<open>on_attempt_start\<close>, unlike what
  the documentation of that hook says; the future is awaited after it, and the other hooks come in
  the documented order.  The run gives a value exactly when a commit succeeded, which happens at
  most once.
\<close>

theorem runs_follow_protocol:
  assumes "run_with_hooks n c h policy s = Some (r, s')"
  shows "\<exists>evs. run_with_hooks n (logged_client c) (logged_hooks h) policy (s, []) = Some (r, s', evs @ [Completed]) \<and>
    protocol c 0 False evs r \<and> Completed \<notin> set evs \<and>
    count_list evs (CommitRan None) = (case r of Inr _ \<Rightarrow> 1 | Inl _ \<Rightarrow> 0)"
proof -
  obtain s1 where s1: "retry_loop n c h policy 0 False s = Some (r, s1)" "s' = on_complete h s1"
    using assms by (auto simp: run_with_hooks_def)
  from loop_ok [OF s1(1), of "[]"] obtain evs where
    "retry_loop n (logged_client c) (logged_hooks h) policy 0 False (s, []) = Some (r, s1, evs)" "protocol c 0 False evs r"
    by auto
  with protocol_commits [OF this(2)] s1(2) show ?thesis
    by (intro exI [of _ evs]) (auto simp: run_with_hooks_def logged_hooks_sel)
qed

text \<open>
  C32.  The flag a closure is called with, and its future runs with, is true exactly when an earlier attempt of the run failed in a way
  that may have committed, in its closure or its commit, whatever the policy made of the failure.
\<close>

theorem maybe_committed_accumulates:
  assumes "run_with_hooks n (logged_client c) (logged_hooks h) policy (s, []) = Some (r, s', evs)"
    and "evs = xs @ ev # ys" and "ev = ClosureCalled flag \<or> ev = ClosureRan flag d"
  shows "flag \<longleftrightarrow> (\<exists>ev \<in> set xs. uncertain_step c ev)"
proof -
  obtain r1 s1 l1 where s1: "retry_loop n (logged_client c) (logged_hooks h) policy 0 False (s, []) = Some (r1, s1, l1)"
    using assms(1) by (auto simp: run_with_hooks_def)
  have "retry_loop n c h policy 0 False s = Some (r1, s1)" using loop_erase [of n c h policy 0 False s "[]"] s1 by simp
  from loop_ok [OF this, of "[]"] s1 have "protocol c 0 False l1 r1" by auto
  moreover have "evs = l1 @ [Completed]" using assms(1) s1 by (auto simp: run_with_hooks_def logged_hooks_sel)
  ultimately have "flags_right c False evs" by (auto simp: flags_simps dest: protocol_flags)
  moreover have "flag_given ev = Some flag" using assms(3) by (auto simp: flag_given_def)
  ultimately show ?thesis using assms(2) unfolding flags_right_def by blast
qed

section \<open>Hooks only observe\<close>

text \<open>
  A client on a state that acts through a view of it, and hooks that leave the view as it is.
\<close>

definition acts_on :: "('s \<Rightarrow> 'w) \<Rightarrow> ('s, 'v, 'e) client \<Rightarrow> ('w, 'v, 'e) client \<Rightarrow> bool" where
  "acts_on view c cw \<longleftrightarrow>
     (\<forall>b s. view (call_closure c b s) = call_closure cw b (view s)) \<and>
     (\<forall>b s. map_prod id (map_prod id view) (run_closure c b s) = run_closure cw b (view s)) \<and>
     (\<forall>s. map_prod id view (commit_native c s) = commit_native cw (view s)) \<and>
     (\<forall>e s. map_prod id view (on_error_native c e s) = on_error_native cw e (view s)) \<and>
     is_maybe_committed c = is_maybe_committed cw \<and> retry_decision_of c = retry_decision_of cw \<and>
     from_binding c = from_binding cw \<and> (\<forall>s. instant c s = instant cw (view s))"

definition silent :: "('s \<Rightarrow> 'w) \<Rightarrow> 's hooks \<Rightarrow> bool" where
  "silent view h \<longleftrightarrow>
     (\<forall>i s. view (on_attempt_start h i s) = view s) \<and> (\<forall>i s. view (snd (before_commit h i s)) = view s) \<and>
     (\<forall>e i s. view (on_hook_error h e i s) = view s) \<and> (\<forall>d i s. view (on_commit_success h d i s) = view s) \<and>
     (\<forall>e i s. view (snd (on_commit_error h e i s)) = view s) \<and> (\<forall>e i s. view (on_closure_error h e i s) = view s) \<and>
     (\<forall>d i s. view (on_error_duration h d i s) = view s) \<and> (\<forall>i s. view (on_retry h i s) = view s) \<and>
     (\<forall>s. view (on_complete h s) = view s)"

lemma silent_report: "silent view h \<Longrightarrow> view (report_hook h i x) = view (snd x)"
  by (cases x) (auto simp: silent_def report_hook_def split: option.split)

lemma report_none: "report_hook no_hooks i (r, s) = s"
  by (cases r) (simp_all add: report_hook_def no_hooks_def)

lemma acts_onD:
  assumes "acts_on view c cw"
  shows "run_closure c b s = (r, k, s') \<Longrightarrow> run_closure cw b (view s) = (r, k, view s')"
    "commit_native c s = (x, s') \<Longrightarrow> commit_native cw (view s) = (x, view s')"
    "on_error_native c e s = (x, s') \<Longrightarrow> on_error_native cw e (view s) = (x, view s')"
    "is_maybe_committed c = is_maybe_committed cw" "retry_decision_of c = retry_decision_of cw"
    "from_binding c = from_binding cw" "instant c s = instant cw (view s)"
    "view (call_closure c b s) = call_closure cw b (view s)"
    "elapsed_ms c now s = elapsed_ms cw now (view s)"
proof -
  show "run_closure c b s = (r, k, s') \<Longrightarrow> run_closure cw b (view s) = (r, k, view s')"
    using assms unfolding acts_on_def by (metis id_apply map_prod_simp)
  show "commit_native c s = (x, s') \<Longrightarrow> commit_native cw (view s) = (x, view s')"
    "on_error_native c e s = (x, s') \<Longrightarrow> on_error_native cw e (view s) = (x, view s')"
    using assms unfolding acts_on_def by (metis id_apply map_prod_simp)+
qed (use assms in \<open>simp_all add: acts_on_def elapsed_ms_def\<close>)

lemma silent_on_error:
  assumes "acts_on view c cw" and "silent view h"
  shows "map_prod id view (turn_on_error c h i f refused now (r, s)) = turn_on_error cw no_hooks i f refused now (r, view s)"
  using assms(2) by (auto simp: turn_on_error_def no_hooks_def silent_def acts_onD(9) [OF assms(1)] split: option.split)

lemma silent_attempt:
  assumes c: "acts_on view c cw" and h: "silent view h"
  shows "map_prod id view (run_attempt c h f i s) = run_attempt cw no_hooks f i (view s)"
proof -
  obtain r k s1 where cl: "run_closure c f (on_attempt_start h i s) = (r, k, s1)" by (metis prod_cases3)
  have start: "view (on_attempt_start h i s) = view s" using h by (simp add: silent_def)
  have cl': "run_closure cw f (on_attempt_start no_hooks i (view s)) = (r, k, view s1)"
    using acts_onD(1) [OF c cl] start by (simp add: no_hooks_def)
  show ?thesis
  proof (cases r)
    case (Inl e)
    then show ?thesis by (simp add: run_attempt_def cl cl')
  next
    case (Inr v)
    let ?s = "report_hook h i (before_commit h i s1)"
    have view: "view ?s = view s1" using h by (simp add: silent_report [OF h]) (simp add: silent_def)
    obtain x s2 where commit: "commit_native c ?s = (x, s2)" by fastforce
    have commit': "commit_native cw (view s1) = (x, view s2)" using acts_onD(2) [OF c commit] view by simp
    have before: "before_commit no_hooks i (view s1) = (None, view s1)" by (simp add: no_hooks_def)
    show ?thesis
      unfolding run_attempt_def cl cl' Let_def prod.case Inr sum.case before report_none
      by (cases x) (simp_all add: retryable_commit_def retryable_take_def commit commit' view acts_onD(7,9) [OF c])
  qed
qed

lemma silent_closure_failed:
  assumes c: "acts_on view c cw" and h: "silent view h"
  shows "map_prod id view (closure_failed c h policy i f t err s) = closure_failed cw no_hooks policy i f t err (view s)"
proof -
  let ?d = "decided (policy (ClosureFailure err) (retry_decision_of cw err) i)"
  note same = acts_onD(4-6) [OF c]
  show ?thesis
  proof (cases ?d)
    case None
    then show ?thesis by (simp add: closure_failed_alt same)
  next
    case (Some e)
    obtain x s1 where err: "on_error_native c e (on_closure_error h e i s) = (x, s1)" by fastforce
    have "view (on_closure_error h e i s) = view s" using h by (simp add: silent_def)
    with acts_onD(3) [OF c err] have err': "on_error_native cw e (on_closure_error no_hooks e i (view s)) = (x, view s1)"
      by (simp add: no_hooks_def)
    have "view (on_closure_error h e i s) = on_closure_error no_hooks e i (view s)" using h by (simp add: silent_def no_hooks_def)
    moreover have "uncertain c = uncertain cw" by (simp add: fun_eq_iff uncertain_def same split: retry_decision.split)
    ultimately show ?thesis
      by (simp add: closure_failed_alt same Some retryable_on_error_def retryable_take_def err err' silent_on_error [OF c h] acts_onD(7) [OF c])
  qed
qed

lemma silent_commit_failed:
  assumes c: "acts_on view c cw" and h: "silent view h"
  shows "map_prod id view (commit_failed c h policy i f err s) = commit_failed cw no_hooks policy i f err (view s)"
proof -
  let ?d = "decided (policy (CommitFailure err) (Fdb err) i)" and ?s = "report_hook h i (on_commit_error h err i s)"
  note same = acts_onD(4-6) [OF c]
  have view: "view ?s = view s" using h by (simp add: silent_report [OF h]) (simp add: silent_def)
  have none: "on_commit_error no_hooks err i (view s) = (None, view s)" by (simp add: no_hooks_def)
  show ?thesis
  proof (cases ?d)
    case None
    then show ?thesis unfolding commit_failed_def Let_def none report_none by (simp add: same view)
  next
    case (Some e)
    obtain x s1 where err: "on_error_native c e ?s = (x, s1)" by fastforce
    have "on_error_native cw e (view s) = (x, view s1)" using acts_onD(3) [OF c err] view by simp
    then show ?thesis
      unfolding commit_failed_def Let_def none report_none
      by (simp add: same Some err silent_on_error [OF c h] acts_onD(7) [OF c] view)
  qed
qed

lemma silent_turn:
  assumes c: "acts_on view c cw" and h: "silent view h"
  shows "map_prod id view (retry_turn c h policy i f s) = retry_turn cw no_hooks policy i f (view s)"
proof -
  obtain a s1 where a: "run_attempt c h f i (call_closure c f s) = (a, s1)" by fastforce
  then have "run_attempt cw no_hooks f i (call_closure cw f (view s)) = (a, view s1)"
    using silent_attempt [OF c h, of f i "call_closure c f s"] acts_onD(8) [OF c] by simp
  with a silent_closure_failed [OF c h] silent_commit_failed [OF c h] h acts_onD(6) [OF c] show ?thesis
    by (cases a) (simp_all add: retry_turn_def no_hooks_def silent_def)
qed

lemma silent_loop:
  assumes c: "acts_on view c cw" and h: "silent view h"
  shows "map_option (map_prod id view) (retry_loop n c h policy i f s) = retry_loop n cw no_hooks policy i f (view s)"
proof (induction n arbitrary: i f s)
  case (Suc n)
  obtain t s1 where t: "retry_turn c h policy i f s = (t, s1)" by fastforce
  then have "retry_turn cw no_hooks policy i f (view s) = (t, view s1)" using silent_turn [OF c h, of policy i f s] by simp
  with t Suc.IH show ?case by (cases t) simp_all
qed simp

text \<open>
  C33.  Hooks only observe.  Hooks that leave the database and transaction alone change nothing:
  the result and what the run does are those of a run without hooks, whatever errors they return.
\<close>

theorem hooks_only_observe:
  assumes "acts_on view c cw" and "silent view h"
  shows "map_option (map_prod id view) (run_with_hooks n c h policy s) = run_with_hooks n cw no_hooks policy (view s)"
proof -
  have complete: "view (on_complete h s) = view s" "on_complete no_hooks w = w" for s w
    using assms(2) by (simp_all add: silent_def no_hooks_def)
  show ?thesis
    unfolding run_with_hooks_def silent_loop [OF assms, of n policy 0 False s, symmetric]
    by (cases "retry_loop n c h policy 0 False s") (auto simp: complete)
qed

section \<open>Runs that end\<close>

lemma fatal_ends:
  assumes "\<forall>x d. policy x d i = Fatal"
  shows "\<exists>r s'. retry_turn c h policy i f s = (Return r, s')"
proof -
  obtain a s1 where "run_attempt c h f i (call_closure c f s) = (a, s1)" by fastforce
  then show ?thesis
    using assms
    by (cases a) (simp_all add: retry_turn_def closure_failed_def commit_failed_def decided_def Let_def)
qed

lemma capped_loop:
  assumes "\<forall>x d i. m \<le> i + 1 \<longrightarrow> policy x d i = Fatal" and "m \<le> i + n" and "0 < n"
  shows "\<exists>r. retry_loop n c h policy i f s = Some r \<and> (\<forall>k \<ge> n. retry_loop k c h policy i f s = Some r)"
  using assms(2,3)
proof (induction n arbitrary: i f s)
  case (Suc n)
  obtain t s1 where t: "retry_turn c h policy i f s = (t, s1)" by fastforce
  have step: "retry_loop (Suc k) c h policy i f s =
      (case t of Return r \<Rightarrow> Some (r, s1) | Again f \<Rightarrow> retry_loop k c h policy (i + 1) f s1)" for k
    by (simp add: t)
  show ?case
  proof (cases t)
    case (Return r)
    then have "retry_loop (Suc k) c h policy i f s = Some (r, s1)" for k using step by simp
    then show ?thesis by (metis Suc_le_D)
  next
    case (Again f1)
    have "0 < n"
    proof (rule ccontr)
      assume "\<not> 0 < n"
      then have "\<forall>x d. policy x d i = Fatal" using Suc.prems assms(1) by simp
      with fatal_ends [of policy i c h f s] t Again show False by auto
    qed
    with Suc.IH [of "i + 1" f1 s1] Suc.prems obtain r where
      "\<forall>k \<ge> n. retry_loop k c h policy (i + 1) f1 s1 = Some r" by auto
    then have "\<forall>k \<ge> Suc n. retry_loop k c h policy i f s = Some r"
      using step Again by (metis Suc_le_D Suc_le_mono turn.simps(6))
    then show ?thesis by blast
  qed
qed simp

text \<open>
  A cap on the attempts ends the run: with at most \<open>m\<close> attempts allowed, \<open>m\<close> turns of the
  loop (one when \<open>m\<close> is 0) give the result, for every client, and more fuel changes nothing.
\<close>

theorem capped_runs_end:
  "\<exists>r. run_with_hooks (max m 1) c h (max_attempts m) s = Some r \<and>
    (\<forall>k \<ge> max m 1. run_with_hooks k c h (max_attempts m) s = Some r)"
proof -
  have "\<forall>x d i. m \<le> i + 1 \<longrightarrow> max_attempts m x d i = Fatal" by (simp add: max_attempts_def)
  moreover have "m \<le> 0 + max m 1" "0 < max m 1" by simp_all
  ultimately have "\<exists>r. retry_loop (max m 1) c h (max_attempts m) 0 False s = Some r \<and>
      (\<forall>k \<ge> max m 1. retry_loop k c h (max_attempts m) 0 False s = Some r)" by (rule capped_loop)
  then show ?thesis unfolding run_with_hooks_def by fastforce
qed


section \<open>The older loop\<close>

definition closure_runs :: "run_event list \<Rightarrow> nat" where
  "closure_runs evs = length (filter (\<lambda>ev. case ev of ClosureRan _ _ \<Rightarrow> True | _ \<Rightarrow> False) evs)"

lemma closure_runs_simps [simp]:
  "closure_runs [] = 0" "closure_runs (ClosureCalled f # evs) = closure_runs evs"
  "closure_runs (ClosureRan f d # evs) = Suc (closure_runs evs)"
  "closure_runs (CommitRan x # evs) = closure_runs evs" "closure_runs (OnErrorRan e x # evs) = closure_runs evs"
  by (simp_all add: closure_runs_def)

text \<open>A log in which the closure does not run again after a step that may have committed.\<close>

fun no_rerun :: "('s, 'v, 'e) client \<Rightarrow> run_event list \<Rightarrow> bool" where
  "no_rerun c [] = True"
| "no_rerun c (ev # evs) = ((uncertain_step c ev \<longrightarrow> closure_runs evs = 0) \<and> no_rerun c evs)"

lemma closure_runs_append [simp]: "closure_runs (xs @ ys) = closure_runs xs + closure_runs ys"
  by (simp add: closure_runs_def)

lemma no_rerun_append:
  "no_rerun c xs \<Longrightarrow> no_rerun c ys \<Longrightarrow> \<forall>ev \<in> set xs. \<not> uncertain_step c ev \<Longrightarrow> no_rerun c (xs @ ys)"
  by (induction xs) auto

definition turn_log ::
    "('s, 'v, 'e) client \<Rightarrow> transact_option \<Rightarrow> nat \<Rightarrow> ('e + 'v) option \<Rightarrow> run_event list \<Rightarrow> bool" where
  "turn_log c opts tries res evs \<longleftrightarrow> closure_runs evs = 1 \<and> no_rerun c evs \<and>
     (res = None \<longrightarrow> (idempotent_ops opts \<or> (\<forall>ev \<in> set evs. \<not> uncertain_step c ev)) \<and>
       (\<forall>l. retry_limit opts = Some l \<longrightarrow> tries + 1 < l))"

lemma transact_retry_logged:
  obtains res s' evs where "transact_retry (logged_client c) from_fdb in_time opts tries e (s, l) = (res, s', l @ evs)"
    "closure_runs evs = 0" "no_rerun c evs" "\<forall>ev \<in> set evs. \<not> uncertain_step c ev"
    "res = None \<longrightarrow> (idempotent_ops opts \<or> \<not> is_maybe_committed c e) \<and> (\<forall>l. retry_limit opts = Some l \<longrightarrow> tries + 1 < l)"
proof -
  obtain x s1 where x: "on_error_native c e s = (x, s1)" by fastforce
  show ?thesis
  proof (cases "(idempotent_ops opts \<or> \<not> is_maybe_committed c e) \<and> can_retry in_time opts (tries + 1) (s, l)")
    case True
    then show ?thesis
      by (cases x) (auto intro!: that [of _ _ "[OnErrorRan e x]"]
          simp: transact_retry_def x uncertain_step_def can_retry_def)
  next
    case False
    then show ?thesis by (intro that [of "Some (Inl (from_fdb e))" s "[]"]) (auto simp: transact_retry_def)
  qed
qed

lemma transact_turn_logged:
  obtains res s' evs where "transact_turn (logged_client c) from_fdb in_time opts tries (s, l) = (res, s', l @ evs)"
    "turn_log c opts tries res evs"
proof -
  obtain r k s1 where cl: "run_closure c False (call_closure c False s) = (r, k, s1)" by (metis prod_cases3)
  let ?call = "ClosureCalled False"
  show ?thesis
  proof (cases r)
    case (Inl err)
    let ?ev = "ClosureRan False (Some (retry_decision_of c err))"
    have cl': "run_closure (logged_client c) False (call_closure (logged_client c) False (s, l)) = (Inl err, k, s1, l @ [?call, ?ev])"
      by (simp add: logged_client_def cl Inl)
    show ?thesis
    proof (cases "retry_decision_of c err")
      case (Fdb e)
      obtain res s' evs where retry: "transact_retry (logged_client c) from_fdb in_time opts tries e (s1, l @ [?call, ?ev]) = (res, s', (l @ [?call, ?ev]) @ evs)"
        "closure_runs evs = 0" "no_rerun c evs" "\<forall>ev \<in> set evs. \<not> uncertain_step c ev"
        "res = None \<longrightarrow> (idempotent_ops opts \<or> \<not> is_maybe_committed c e) \<and> (\<forall>l. retry_limit opts = Some l \<longrightarrow> tries + 1 < l)"
        by (rule transact_retry_logged)
      have "turn_log c opts tries res (?call # ?ev # evs)"
        using retry(2-5) Fdb by (auto simp: turn_log_def uncertain_step_def uncertain_def)
      moreover have "transact_turn (logged_client c) from_fdb in_time opts tries (s, l) = (res, s', l @ ?call # ?ev # evs)"
        using retry(1) Fdb by (simp add: transact_turn_def cl')
      ultimately show ?thesis by (intro that)
    qed (auto intro!: that [of "Some (Inl err)" s1 "[?call, ?ev]"] simp: transact_turn_def cl' turn_log_def uncertain_step_def)
  next
    case (Inr item)
    let ?ev = "ClosureRan False None"
    have cl': "run_closure (logged_client c) False (call_closure (logged_client c) False (s, l)) = (Inr item, k, s1, l @ [?call, ?ev])"
      by (simp add: logged_client_def cl Inr)
    obtain x s2 where commit: "commit_native c s1 = (x, s2)" by fastforce
    have commit': "commit_native (logged_client c) (s1, y) = (x, s2, y @ [CommitRan x])" for y
      by (simp add: logged_client_def commit)
    show ?thesis
    proof (cases x)
      case None
      then show ?thesis
        by (intro that [of "Some (Inr item)" s2 "[?call, ?ev, CommitRan None]"])
          (auto simp: transact_turn_def cl' commit' turn_log_def uncertain_step_def)
    next
      case (Some e)
      let ?l = "l @ [?call, ?ev, CommitRan (Some e)]"
      obtain res s' evs where retry: "transact_retry (logged_client c) from_fdb in_time opts tries e (s2, ?l) = (res, s', ?l @ evs)"
        "closure_runs evs = 0" "no_rerun c evs" "\<forall>ev \<in> set evs. \<not> uncertain_step c ev"
        "res = None \<longrightarrow> (idempotent_ops opts \<or> \<not> is_maybe_committed c e) \<and> (\<forall>l. retry_limit opts = Some l \<longrightarrow> tries + 1 < l)"
        by (rule transact_retry_logged)
      have "turn_log c opts tries res (?call # ?ev # CommitRan (Some e) # evs)"
        using retry(2-5) by (auto simp: turn_log_def uncertain_step_def)
      moreover have "transact_turn (logged_client c) from_fdb in_time opts tries (s, l) = (res, s', l @ ?call # ?ev # CommitRan (Some e) # evs)"
        using retry(1) by (simp add: transact_turn_def cl' commit' Some)
      ultimately show ?thesis by (intro that)
    qed
  qed
qed

lemma transact_log:
  assumes "transact_loop n (logged_client c) from_fdb in_time opts tries (s, l) = Some (r, s', l')"
  shows "\<exists>evs. l' = l @ evs \<and> (\<not> idempotent_ops opts \<longrightarrow> no_rerun c evs) \<and>
    (\<forall>k. retry_limit opts = Some k \<longrightarrow> closure_runs evs \<le> max (k - tries) 1)"
  using assms
proof (induction n arbitrary: tries s l)
  case (Suc n)
  obtain res s1 evs where turn: "transact_turn (logged_client c) from_fdb in_time opts tries (s, l) = (res, s1, l @ evs)"
    "turn_log c opts tries res evs" by (rule transact_turn_logged)
  show ?case
  proof (cases res)
    case (Some x)
    with Suc.prems turn show ?thesis by (auto simp: turn_log_def)
  next
    case None
    with Suc.prems turn(1)
    have "transact_loop n (logged_client c) from_fdb in_time opts (tries + 1) (s1, l @ evs) = Some (r, s', l')" by simp
    from Suc.IH [OF this] obtain evs' where evs': "l' = (l @ evs) @ evs'" "\<not> idempotent_ops opts \<longrightarrow> no_rerun c evs'"
      "\<forall>k. retry_limit opts = Some k \<longrightarrow> closure_runs evs' \<le> max (k - (tries + 1)) 1" by blast
    have "no_rerun c (evs @ evs')" if "\<not> idempotent_ops opts"
      using that evs'(2) turn(2) None by (auto simp: turn_log_def intro!: no_rerun_append)
    moreover have "closure_runs (evs @ evs') \<le> max (k - tries) 1" if "retry_limit opts = Some k" for k
      using that evs'(3) turn(2) None by (fastforce simp: turn_log_def)
    ultimately show ?thesis using evs'(1) by auto
  qed
qed simp

lemma transact_ends:
  assumes "retry_limit opts = Some k" and "max (k - tries) 1 \<le> n"
  shows "transact_loop n (logged_client c) from_fdb in_time opts tries (s, l) \<noteq> None"
  using assms(2)
proof (induction n arbitrary: tries s l)
  case (Suc n)
  obtain res s1 evs where turn: "transact_turn (logged_client c) from_fdb in_time opts tries (s, l) = (res, s1, l @ evs)"
    "turn_log c opts tries res evs" by (rule transact_turn_logged)
  show ?case
  proof (cases res)
    case None
    then have "tries + 1 < k" using turn(2) assms(1) by (simp add: turn_log_def)
    then have "max (k - (tries + 1)) 1 \<le> n" using Suc.prems by simp
    from Suc.IH [OF this] show ?thesis using turn None by simp
  qed (use turn in simp)
qed simp

lemma transact_turn_careful:
  assumes "transact_turn (logged_client c) from_fdb in_time opts tries (s, l) = (None, s', l @ evs)"
  shows "idempotent_ops opts \<or> (\<forall>ev \<in> set evs. \<not> uncertain_step c ev)"
proof -
  obtain res s1 evs1 where "transact_turn (logged_client c) from_fdb in_time opts tries (s, l) = (res, s1, l @ evs1)"
    "turn_log c opts tries res evs1" by (rule transact_turn_logged)
  with assms show ?thesis by (simp add: turn_log_def)
qed

text \<open>
  C13.  The older loop is careful with uncertain failures, whatever its options.  Unless the operations
  are idempotent, the closure never runs again after a closure or commit failure that may have
  committed: not in a run that ends, and no turn with such a failure is followed by another, so not
  in one that goes on either.  With a retry limit the loop ends, with the closure run at most that
  often (once when the limit is 0).
\<close>

theorem transact_is_careful:
  shows "(\<forall>r s' evs. transact_loop n (logged_client c) from_fdb in_time opts 0 (s, []) = Some (r, s', evs) \<longrightarrow>
      idempotent_ops opts \<or> no_rerun c evs) \<and>
    (\<forall>tries s l s' evs. transact_turn (logged_client c) from_fdb in_time opts tries (s, l) = (None, s', l @ evs) \<longrightarrow>
      idempotent_ops opts \<or> (\<forall>ev \<in> set evs. \<not> uncertain_step c ev)) \<and>
    (\<forall>k. retry_limit opts = Some k \<longrightarrow> max k 1 \<le> n \<longrightarrow>
      (\<exists>r s' evs. transact_loop n (logged_client c) from_fdb in_time opts 0 (s, []) = Some (r, s', evs) \<and>
        closure_runs evs \<le> max k 1))"
proof (intro conjI allI impI)
  fix r s' evs
  assume "transact_loop n (logged_client c) from_fdb in_time opts 0 (s, []) = Some (r, s', evs)"
  from transact_log [OF this] show "idempotent_ops opts \<or> no_rerun c evs" by auto
next
  fix tries s l s' evs
  assume "transact_turn (logged_client c) from_fdb in_time opts tries (s, l) = (None, s', l @ evs)"
  then show "idempotent_ops opts \<or> (\<forall>ev \<in> set evs. \<not> uncertain_step c ev)" by (rule transact_turn_careful)
next
  fix k
  assume k: "retry_limit opts = Some k" "max k 1 \<le> n"
  obtain r s' evs where run: "transact_loop n (logged_client c) from_fdb in_time opts 0 (s, []) = Some (r, s', evs)"
    using transact_ends [OF k(1), of 0 n c from_fdb in_time s "[]"] k(2) by auto
  with transact_log [OF run] k(1)
  show "\<exists>r s' evs. transact_loop n (logged_client c) from_fdb in_time opts 0 (s, []) = Some (r, s', evs) \<and>
      closure_runs evs \<le> max k 1" by auto
qed

section \<open>An example\<close>

text \<open>
  The closure counts its runs; the first commit ends with an unknown result (1021), the second
  succeeds.
\<close>

definition sample_client :: "(nat, nat, nat) client" where
  "sample_client = \<lparr>call_closure = \<lambda>b n. n, run_closure = \<lambda>b n. (Inr n, False, n + 1),
     commit_native = \<lambda>n. (if n = 1 then Some (FdbError 1021) else None, n),
     on_error_native = \<lambda>e n. (None, n), is_maybe_committed = \<lambda>e. e = FdbError 1021,
     retry_decision_of = \<lambda>_. Fatal, from_binding = \<lambda>_. 0, instant = \<lambda>n. n * 5000000\<rparr>"

text \<open>Hooks that count their calls beside the state of the client, and fail.\<close>

definition noisy_hooks :: "(nat \<times> nat) hooks" where
  "noisy_hooks = \<lparr>on_attempt_start = \<lambda>_ (n, k). (n, k + 1), before_commit = \<lambda>_ (n, k). (Some (FdbError 1), (n, k + 1)),
     on_hook_error = \<lambda>_ _ (n, k). (n, k + 1), on_commit_success = \<lambda>_ _ (n, k). (n, k + 1),
     on_commit_error = \<lambda>_ _ (n, k). (Some (FdbError 2), (n, k + 1)), on_closure_error = \<lambda>_ _ (n, k). (n, k + 1),
     on_error_duration = \<lambda>_ _ (n, k). (n, k + 1), on_retry = \<lambda>_ (n, k). (n, k + 1), on_complete = \<lambda>(n, k). (n, k + 1)\<rparr>"

definition beside :: "('s, 'v, 'e) client \<Rightarrow> ('s \<times> 'x, 'v, 'e) client" where
  "beside c = \<lparr>call_closure = \<lambda>b (s, x). (call_closure c b s, x), run_closure = \<lambda>b (s, x). let (r, k, s') = run_closure c b s in (r, k, s', x),
     commit_native = \<lambda>(s, x). let (r, s') = commit_native c s in (r, s', x),
     on_error_native = \<lambda>e (s, x). let (r, s') = on_error_native c e s in (r, s', x),
     is_maybe_committed = is_maybe_committed c, retry_decision_of = retry_decision_of c, from_binding = from_binding c,
     instant = \<lambda>(s, x). instant c s\<rparr>"

lemmas sample_simps = run_with_hooks_def retry_turn_def run_attempt_def retryable_commit_def retryable_take_def
  report_hook_def commit_failed_def turn_on_error_def decided_def native_retry_policy_def sample_client_def
  no_hooks_def Let_def numeral_2_eq_2

theorem runs_follow_protocol_witness:
  "run_with_hooks 2 sample_client no_hooks native_retry_policy 0 = Some (Inr 1, 2) \<and>
    (\<exists>evs. protocol sample_client 0 False evs (Inr 1) \<and> count_list evs (CommitRan None) = 1)"
proof -
  have "run_with_hooks 2 sample_client no_hooks native_retry_policy 0 = Some (Inr 1, 2)" by (simp add: sample_simps)
  from this runs_follow_protocol [OF this] show ?thesis by auto
qed

theorem maybe_committed_accumulates_witness:
  "\<exists>evs xs. run_with_hooks 2 (logged_client sample_client) (logged_hooks no_hooks) native_retry_policy (0, []) =
      Some (Inr 1, 2, evs) \<and> evs = xs @ [ClosureRan True None, BeforeCommit 1, CommitRan None, CommitSuccess 1, Completed] \<and>
    (\<exists>ev \<in> set xs. uncertain_step sample_client ev)"
proof -
  let ?xs = "[ClosureCalled False, AttemptStart 0, ClosureRan False None, BeforeCommit 0, CommitRan (Some (FdbError 1021)),
     CommitErrorSeen (FdbError 1021) 0, OnErrorRan (FdbError 1021) None, ErrorDuration 0, Retried 0, ClosureCalled True, AttemptStart 1]"
  have run: "run_with_hooks 2 (logged_client sample_client) (logged_hooks no_hooks) native_retry_policy (0, []) =
      Some (Inr 1, 2, ?xs @ ClosureRan True None # [BeforeCommit 1, CommitRan None, CommitSuccess 1, Completed])"
    by (simp add: sample_simps logged_client_def logged_hooks_def)
  from run maybe_committed_accumulates [OF run refl, of True None] show ?thesis by blast
qed

theorem hooks_only_observe_witness:
  "map_option (map_prod id fst) (run_with_hooks 2 (beside sample_client) noisy_hooks native_retry_policy (0, 0)) =
    run_with_hooks 2 sample_client no_hooks native_retry_policy 0"
proof -
  have "acts_on fst (beside sample_client) sample_client" by (auto simp: acts_on_def beside_def case_prod_unfold Let_def)
  moreover have "silent fst noisy_hooks" by (auto simp: silent_def noisy_hooks_def)
  ultimately show ?thesis using hooks_only_observe [of fst "beside sample_client" sample_client noisy_hooks 2 native_retry_policy "(0, 0)"]
    by simp
qed

theorem transact_is_careful_witness:
  "\<exists>evs. transact_loop 3 (logged_client sample_client) (\<lambda>_. 7) (\<lambda>_. True)
      \<lparr>retry_limit = None, has_time_out = False, idempotent_ops = False\<rparr> 0 (0, []) = Some (Inl 7, 1, evs) \<and>
    no_rerun sample_client evs"
proof -
  let ?o = "\<lparr>retry_limit = None, has_time_out = False, idempotent_ops = False\<rparr>"
  have "transact_loop 3 (logged_client sample_client) (\<lambda>_. 7) (\<lambda>_. True) ?o 0 (0, []) =
      Some (Inl 7, 1, [ClosureCalled False, ClosureRan False None, CommitRan (Some (FdbError 1021))])"
    by (simp add: numeral_3_eq_3 transact_turn_def transact_retry_def sample_client_def logged_client_def)
  with transact_is_careful [of 3 sample_client "\<lambda>_. 7" "\<lambda>_. True" ?o 0] show ?thesis by auto
qed

theorem capped_runs_end_witness:
  "\<exists>r. run_with_hooks 2 sample_client no_hooks (max_attempts 2) 0 = Some r \<and>
    run_with_hooks 7 sample_client no_hooks (max_attempts 2) 0 = Some r"
proof -
  obtain r where "run_with_hooks (max 2 1) sample_client no_hooks (max_attempts 2) 0 = Some r"
    "\<forall>k \<ge> max 2 1. run_with_hooks k sample_client no_hooks (max_attempts 2) 0 = Some r"
    using capped_runs_end [of 2 sample_client no_hooks 0] by blast
  then show ?thesis by simp
qed

end
