(* ===== verification/Allocator.thy ===== *)
theory Allocator
  imports Range_Scan
begin

text \<open>
  The high contention allocator (\<^verbatim>\<open>tuple_ext/hca.rs\<close>): windows of candidate values, the
  counters of a subspace and its recent candidates.  A call of \<^verbatim>\<open>allocate\<close> is a task that
  runs from one \<^verbatim>\<open>await\<close> to the next; \<open>hca_turn\<close> is one such stretch, \<open>allocate\<close> runs
  one task to its end, and \<open>hca_steps\<close> interleaves any number of tasks on one transaction.

  An \<^verbatim>\<open>i64\<close> is a 64-bit word read as signed.  \<open>None\<close> is a panic (arithmetic overflow, an
  empty range of candidates) or a call that never returns.
\<close>

section \<open>The allocator\<close>

datatype hca_error = HcaFdb fdb_error | HcaPack pack_error | InvalidDirectoryLayerMetadata | PoisonError

definition try_into_fdb_error :: "hca_error \<Rightarrow> hca_error + fdb_error" where
  "try_into_fdb_error self = (case self of HcaFdb err \<Rightarrow> Inr err | _ \<Rightarrow> Inl self)"

definition ONE_BYTES :: bytes where
  "ONE_BYTES = [0x01, 0x00, 0x00, 0x00, 0x00, 0x00, 0x00, 0x00]"

record hca =
  counters :: subspace
  recent :: subspace

definition hca_new :: "subspace \<Rightarrow> hca" where
  "hca_new s = \<lparr>counters = the (subspace pack_ix s (0 :: u64)), recent = the (subspace pack_ix s (1 :: u64))\<rparr>"

definition window_size :: "u64 \<Rightarrow> u64" where
  "window_size start = (if sint start < 255 then 64 else if sint start < 65535 then 1024 else 8192)"

text \<open>
  What the allocator uses of a transaction beside \<open>'s kv\<close>: the atomic addition, the option for
  the next write, the write conflict on a range, and whether the static mutex is poisoned.
\<close>

record 's hca_ops =
  atomic_add :: "bytes \<Rightarrow> bytes \<Rightarrow> 's \<Rightarrow> 's"
  next_write_no_conflict :: "'s \<Rightarrow> fdb_error + 's"
  add_write_conflict :: "bytes \<Rightarrow> bytes \<Rightarrow> 's \<Rightarrow> fdb_error + 's"
  poisoned :: "'s \<Rightarrow> bool"

definition i64_in :: "int \<Rightarrow> u64 option" where
  "i64_in n = (if - (2 ^ 63) \<le> n \<and> n < 2 ^ 63 then Some (word_of_int n) else None)"

definition counter_key :: "hca \<Rightarrow> u64 \<Rightarrow> bytes" where
  "counter_key self start = prefix (the (subspace pack_ix (counters self) start))"

definition recent_key :: "hca \<Rightarrow> u64 \<Rightarrow> bytes" where
  "recent_key self candidate = prefix (the (subspace pack_ix (recent self) candidate))"

definition counters_range :: "hca \<Rightarrow> range_option" where
  "counters_range self = (let (b, e) = subspace_range (counters self) in
     default_range\<lparr>ro_begin := first_greater_or_equal b, ro_end := first_greater_than e,
       limit := Some 1, rev_order := True\<rparr>)"

text \<open>The start of the current window, from the last counter.\<close>

definition window_start :: "hca \<Rightarrow> fdb_error + page \<Rightarrow> hca_error + u64" where
  "window_start self found =
     bind_result (map_err HcaFdb found) (\<lambda>kvs.
       case fst kvs of
         [] \<Rightarrow> Inr 0
       | first # _ \<Rightarrow> map_err HcaPack (subspace_unpack unpack_ix (counters self) (fst first)))"

definition counter_value :: "bytes option \<Rightarrow> hca_error + u64" where
  "counter_value found =
     (case found of
        None \<Rightarrow> Inr 0
      | Some v \<Rightarrow> if length v \<noteq> 8 then Inl InvalidDirectoryLayerMetadata else Inr (from_le_bytes v))"

text \<open>The two sections under the mutex; what they read is awaited after it is released.\<close>

definition count_section ::
    "'s kv \<Rightarrow> 's hca_ops \<Rightarrow> hca \<Rightarrow> bool \<Rightarrow> u64 \<Rightarrow> 's \<Rightarrow>
     hca_error + (fdb_error + bytes option) \<times> 's" where
  "count_section kv ops self window_advanced start trx =
     (if poisoned ops trx then Inl PoisonError
      else bind_result
        (if window_advanced
         then
           let trx = kv_clear_range kv (prefix (counters self)) (counter_key self start) trx
           in bind_result (map_err HcaFdb (next_write_no_conflict ops trx)) (\<lambda>trx.
                Inr (kv_clear_range kv (prefix (recent self)) (recent_key self start) trx))
         else Inr trx)
        (\<lambda>trx.
           let trx = atomic_add ops (counter_key self start) ONE_BYTES trx
           in Inr (kv_get kv trx (counter_key self start), trx)))"

definition candidate_section ::
    "'s kv \<Rightarrow> 's hca_ops \<Rightarrow> hca \<Rightarrow> u64 \<Rightarrow> 's \<Rightarrow>
     hca_error + ((fdb_error + page) \<times> (fdb_error + bytes option)) \<times> 's" where
  "candidate_section kv ops self candidate trx =
     (if poisoned ops trx then Inl PoisonError
      else
        let latest_counter = kv_get_range kv trx (counters_range self) 1;
            candidate_value = kv_get kv trx (recent_key self candidate)
        in bind_result (map_err HcaFdb (next_write_no_conflict ops trx)) (\<lambda>trx.
             Inr ((latest_counter, candidate_value), kv_set kv (recent_key self candidate) [] trx)))"

text \<open>Where a task is: before the outer loop's read, in the loop that looks for a window, in the
  loop that looks for a candidate, or returned.\<close>

datatype hca_task =
    AtLoop
  | Counting bool u64
  | Choosing u64 u64
  | Allocated u64

definition count_turn ::
    "'s kv \<Rightarrow> 's hca_ops \<Rightarrow> hca \<Rightarrow> bool \<Rightarrow> u64 \<Rightarrow> 's \<Rightarrow> (hca_error + hca_task \<times> 's) option" where
  "count_turn kv ops self window_advanced start trx =
     (case count_section kv ops self window_advanced start trx of
        Inl e \<Rightarrow> Some (Inl e)
      | Inr (count_future, trx) \<Rightarrow>
          (case bind_result (map_err HcaFdb count_future) counter_value of
             Inl e \<Rightarrow> Some (Inl e)
           | Inr count \<Rightarrow>
               let window = window_size start
               in Option.bind (i64_in (sint count * 2)) (\<lambda>twice.
                    if sint twice < sint window then Some (Inr (Choosing start window, trx))
                    else Option.bind (i64_in (sint start + sint window)) (\<lambda>start.
                      Some (Inr (Counting True start, trx))))))"

text \<open>\<^verbatim>\<open>try_join\<close> fails with the first error to arrive; the model takes them in order.\<close>

definition candidate_turn ::
    "'s kv \<Rightarrow> 's hca_ops \<Rightarrow> hca \<Rightarrow> u64 \<Rightarrow> u64 \<Rightarrow> u64 \<Rightarrow> 's \<Rightarrow> hca_error + hca_task \<times> 's" where
  "candidate_turn kv ops self start window candidate trx =
     bind_result (candidate_section kv ops self candidate trx) (\<lambda>((latest_counter, candidate_value), trx).
     bind_result (map_err HcaFdb latest_counter) (\<lambda>latest_counter.
     bind_result (map_err HcaFdb candidate_value) (\<lambda>candidate_value.
     bind_result (window_start self (Inr latest_counter)) (\<lambda>current_window_start.
       if sint current_window_start > sint start then Inr (AtLoop, trx)
       else if candidate_value = None
       then
         let after = recent_key self candidate @ [0x00]
         in bind_result (map_err HcaFdb
              (add_write_conflict ops (recent_key self candidate) after trx)) (\<lambda>trx.
              Inr (Allocated candidate, trx))
       else Inr (Choosing start window, trx)))))"

text \<open>\<^verbatim>\<open>rng.random_range(start..start + window)\<close>: a number \<open>draw\<close> picks the candidate.\<close>

definition hca_turn ::
    "'s kv \<Rightarrow> 's hca_ops \<Rightarrow> hca \<Rightarrow> nat \<Rightarrow> hca_task \<Rightarrow> 's \<Rightarrow> (hca_error + hca_task \<times> 's) option" where
  "hca_turn kv ops self draw task trx =
     (case task of
        AtLoop \<Rightarrow>
          Some (bind_result (window_start self (kv_get_range kv trx (counters_range self) 1)) (\<lambda>start.
            Inr (Counting False start, trx)))
      | Counting window_advanced start \<Rightarrow> count_turn kv ops self window_advanced start trx
      | Choosing start window \<Rightarrow>
          Option.bind (i64_in (sint start + sint window)) (\<lambda>_.
            let candidate = start + of_nat (draw mod unat window)
            in Some (candidate_turn kv ops self start window candidate trx))
      | Allocated candidate \<Rightarrow> Some (Inr (Allocated candidate, trx)))"

text \<open>The call: \<open>draws n\<close> is what the generator gives in turn \<open>n\<close>.\<close>

partial_function (option) hca_run ::
    "'s kv \<Rightarrow> 's hca_ops \<Rightarrow> hca \<Rightarrow> (nat \<Rightarrow> nat) \<Rightarrow> nat \<Rightarrow> hca_task \<Rightarrow> 's \<Rightarrow>
     (hca_error + u64 \<times> 's) option" where
  "hca_run kv ops self draws n task trx =
     (case task of
        Allocated candidate \<Rightarrow> Some (Inr (candidate, trx))
      | _ \<Rightarrow>
          Option.bind (hca_turn kv ops self (draws n) task trx) (\<lambda>r.
            case r of
              Inl e \<Rightarrow> Some (Inl e)
            | Inr (task, trx) \<Rightarrow> hca_run kv ops self draws (n + 1) task trx))"

definition allocate ::
    "'s kv \<Rightarrow> 's hca_ops \<Rightarrow> hca \<Rightarrow> (nat \<Rightarrow> nat) \<Rightarrow> 's \<Rightarrow> (hca_error + u64 \<times> 's) option" where
  "allocate kv ops self draws trx = hca_run kv ops self draws 0 AtLoop trx"

text \<open>
  Any number of calls on one transaction: they interleave at their awaits.  A call that fails
  leaves the relation, since its transaction is not committed.
\<close>

inductive hca_steps ::
    "'s kv \<Rightarrow> 's hca_ops \<Rightarrow> hca \<Rightarrow> (nat \<Rightarrow> hca_task) \<times> 's \<Rightarrow> (nat \<Rightarrow> hca_task) \<times> 's \<Rightarrow> bool"
  for kv ops self where
  hca_refl: "hca_steps kv ops self c c"
| hca_step: "hca_steps kv ops self c (tasks, trx) \<Longrightarrow>
    hca_turn kv ops self draw (tasks i) trx = Some (Inr (task, trx')) \<Longrightarrow>
    hca_steps kv ops self c (tasks(i := task), trx')"

section \<open>What the client promises\<close>

text \<open>Addition of little-endian integers of the parameter's length.\<close>

definition add_le :: "bytes option \<Rightarrow> bytes \<Rightarrow> bytes" where
  "add_le old param =
     (let n = length param;
          old = take n ((case old of None \<Rightarrow> [] | Some v \<Rightarrow> v) @ replicate n 0)
      in rev (nat_be n (be_nat (rev old) + be_nat (rev param))))"

locale hca_store = kv_store kv view for kv :: "'s kv" and view :: "'s \<Rightarrow> bytes \<rightharpoonup> bytes" +
  fixes ops :: "'s hca_ops"
  assumes view_add: "view (atomic_add ops k param s) = (view s)(k \<mapsto> add_le (view s k) param)"
    and view_option: "next_write_no_conflict ops s = Inr s' \<Longrightarrow> view s' = view s"
    and view_conflict: "add_write_conflict ops b e s = Inr s' \<Longrightarrow> view s' = view s"

section \<open>Keys\<close>

lemma int_len_i64: "int_len (sint (i :: u64)) < 256"
  by (rule int_len_word_less) (simp add: byte_sized_def)

lemma subspace_ix:
  "subspace pack_ix s (i :: u64) = Some \<lparr>prefix = prefix s @ int_enc (sint i),
     versionstamp_offset = add_offset (versionstamp_offset s) (VNone (of_nat (length (int_enc (sint i)))))\<rparr>"
  by (simp add: subspace_def pack_into_vec_def pack_int_eval)

lemma counter_key_eq: "counter_key h i = prefix (counters h) @ int_enc (sint i)"
  and recent_key_eq: "recent_key h i = prefix (recent h) @ int_enc (sint i)"
  by (simp_all add: counter_key_def recent_key_def subspace_ix)

lemma int_enc_i64_less: "int_enc (sint (i :: u64)) < int_enc (sint (j :: u64)) \<longleftrightarrow> sint i < sint j"
proof -
  have less: "int_enc (sint i) < int_enc (sint j)" if "sint i < sint j" for i j :: u64
    using int_enc_less [OF that int_len_i64 int_len_i64, of "[]" "[]"] by simp
  then show ?thesis by (metis less_asym not_less_iff_gr_or_eq sint_uint)
qed

lemma counter_key_less [simp]: "counter_key h i < counter_key h j \<longleftrightarrow> sint i < sint j"
  and recent_key_less [simp]: "recent_key h i < recent_key h j \<longleftrightarrow> sint i < sint j"
  by (simp_all add: counter_key_eq recent_key_eq int_enc_i64_less)

lemma counter_key_inj [simp]: "counter_key h i = counter_key h j \<longleftrightarrow> i = j"
  and recent_key_inj [simp]: "recent_key h i = recent_key h j \<longleftrightarrow> i = j"
  by (metis counter_key_less signed_word_eqI not_less_iff_gr_or_eq)
    (metis recent_key_less signed_word_eqI not_less_iff_gr_or_eq)

definition wf_hca :: "hca \<Rightarrow> bool" where
  "wf_hca h \<longleftrightarrow> (\<exists>p. prefix (counters h) = p @ [0x14] \<and> prefix (recent h) = p @ [0x15, 0x01])"

lemma wf_hca_new: "wf_hca (hca_new s)"
proof -
  have "int_enc (sint (0 :: u64)) = [0x14]" "int_enc (sint (1 :: u64)) = [0x15, 0x01]"
    by (simp_all add: int_enc_def int_head_def int_len_def byte_len_def MAX_SZ_def code_defs)
  then show ?thesis by (simp add: wf_hca_def hca_new_def subspace_ix)
qed

text \<open>Counters come before candidates, so clearing either leaves the other alone.\<close>

lemma keys_apart:
  assumes "wf_hca h"
  shows "counter_key h i < prefix (recent h)" and "counter_key h i < recent_key h j"
    and "counter_key h i \<noteq> recent_key h j" and "\<not> recent_key h j < counter_key h i"
    and "prefix (counters h) \<le> counter_key h i" and "prefix (recent h) \<le> recent_key h i"
proof -
  from assms obtain p where p: "prefix (counters h) = p @ [0x14]" "prefix (recent h) = p @ [0x15, 0x01]"
    by (auto simp: wf_hca_def)
  show less: "counter_key h i < prefix (recent h)" "counter_key h i < recent_key h j"
    by (simp_all add: counter_key_eq recent_key_eq p)
  then show "counter_key h i \<noteq> recent_key h j" "\<not> recent_key h j < counter_key h i" by auto
  show "prefix (counters h) \<le> counter_key h i" "prefix (recent h) \<le> recent_key h i"
    by (simp_all add: counter_key_eq recent_key_eq not_less [symmetric])
qed

lemma counter_in_range: "selected (counters_range h) (counter_key h i)"
proof -
  obtain b bs where enc: "int_enc (sint i) = b # bs"
    using hd_int_enc(1) [OF int_len_i64, of i] by (cases "int_enc (sint i)") auto
  moreover have "b \<in> {NEGINTSTART..POSINTEND}"
    using hd_int_enc(2) [OF int_len_i64, of i] enc by simp
  then have "0 < b" "b < 0xff" by (auto simp: code_order)
  ultimately show ?thesis
    by (auto simp: selected_def counters_range_def subspace_range_def first_greater_or_equal_def
        first_greater_than_def ks_new_def default_range_def counter_key_eq enc not_less [symmetric])
qed

lemma counter_unpack: "subspace_unpack unpack_ix (counters h) (counter_key h i) = Inr (i :: u64)"
proof -
  have "unpack_ix 0 (int_enc (sint i)) = Inr ([], i)"
    using unpack_ix_int_enc(1) [where 'a = 64, OF _ int_len_i64 [of i], of 0 "[]"] sint_range_size [of i]
    by (simp add: word_size)
  then show ?thesis
    by (simp add: subspace_unpack_def is_start_of_def starts_with_def counter_key_eq unpack_root_def)
qed

section \<open>The current window\<close>

definition wf_counters :: "hca \<Rightarrow> (bytes \<rightharpoonup> bytes) \<Rightarrow> bool" where
  "wf_counters h m \<longleftrightarrow>
     (\<forall>k. m k \<noteq> None \<longrightarrow> selected (counters_range h) k \<longrightarrow> (\<exists>i. k = counter_key h i))"

definition started :: "hca \<Rightarrow> (bytes \<rightharpoonup> bytes) \<Rightarrow> u64 set" where
  "started h m = {i. m (counter_key h i) \<noteq> None}"

definition current :: "hca \<Rightarrow> (bytes \<rightharpoonup> bytes) \<Rightarrow> int" where
  "current h m = (if started h m = {} then 0 else Max (sint ` started h m))"

lemma finite_started [simp]: "finite (started h m)"
  by (rule finite)

lemma plain_counters_range [simp]: "plain (counters_range h)"
  by (simp add: plain_def counters_range_def subspace_range_def first_greater_or_equal_def
      first_greater_than_def ks_new_def default_range_def)

lemma limit_counters_range [simp]:
  "limit (counters_range h) = Some 1" "rev_order (counters_range h)"
  by (simp_all add: counters_range_def subspace_range_def)

lemma hd_rev_sorted_list:
  fixes A :: "'a::linorder set"
  assumes "finite A" and "rev (sorted_list_of_set A) = x # xs"
  shows "x \<in> A" and "\<And>y. y \<in> A \<Longrightarrow> y \<le> x"
proof -
  from assms(2) have eq: "sorted_list_of_set A = rev xs @ [x]" by (simp add: rev_swap)
  with assms(1) have A: "A = set (rev xs @ [x])" by (metis set_sorted_list_of_set)
  then show "x \<in> A" by simp
  have "sorted (rev xs @ [x])" using eq by (metis sorted_sorted_list_of_set)
  then show "y \<le> x" if "y \<in> A" for y using that A by (auto simp: sorted_append)
qed

context kv_store
begin

text \<open>A read of one row finds the first row, or that there is none.\<close>

lemma first_row:
  assumes "plain opt" and "limit opt = Some 1" and "kv_get_range kv s opt i = Inr (kvs, has_more)"
  shows "case rows (view s) opt of [] \<Rightarrow> kvs = [] | r # _ \<Rightarrow> kvs = [r]"
proof -
  from range_ok [OF assms(1,3)] obtain rest where rest: "rows (view s) opt = kvs @ rest"
    "has_more \<longrightarrow> kvs \<noteq> []" "\<forall>l. limit opt = Some l \<longrightarrow> l \<noteq> 0 \<longrightarrow> length kvs \<le> l"
    "rest \<noteq> [] \<longrightarrow> \<not> has_more \<longrightarrow> kvs \<noteq> [] \<and> limit opt = Some (length kvs)" by blast
  from rest(3) assms(2) have "length kvs \<le> 1" by simp
  with rest(1,2,4) show ?thesis by (cases kvs; cases rest) (auto split: list.splits)
qed

lemma window_start_current:
  assumes wf: "wf_counters h (view s)"
    and "window_start h (kv_get_range kv s (counters_range h) 1) = Inr w"
  shows "sint w = current h (view s)"
proof -
  let ?K = "{k \<in> dom (view s). selected (counters_range h) k}"
  obtain kvs more where get: "kv_get_range kv s (counters_range h) 1 = Inr (kvs, more)"
    using assms(2) by (cases "kv_get_range kv s (counters_range h) 1") (auto simp: window_start_def)
  have K: "?K = counter_key h ` started h (view s)"
    using wf counter_in_range by (auto simp: wf_counters_def started_def)
  have fin: "finite ?K" using view_finite by simp
  have rows: "rows (view s) (counters_range h) = map (\<lambda>k. (k, the (view s k))) (rev (sorted_list_of_set ?K))"
    by (simp add: rows_def)
  note first = first_row [OF plain_counters_range limit_counters_range(1) get]
  show ?thesis
  proof (cases "rev (sorted_list_of_set ?K)")
    case Nil
    then have "?K = {}" using fin by simp
    then have "started h (view s) = {}" using K by simp
    moreover have "kvs = []" using first Nil by (simp add: rows)
    ultimately show ?thesis using assms(2) get by (simp add: window_start_def current_def)
  next
    case (Cons x xs)
    note x = hd_rev_sorted_list [OF fin Cons]
    from x(1) obtain i where i: "x = counter_key h i" "i \<in> started h (view s)"
      unfolding K by blast
    have "sint j \<le> sint i" if "j \<in> started h (view s)" for j
      using x(2) [of "counter_key h j"] that unfolding K i(1)
      by (metis counter_key_less imageI not_less)
    then have "current h (view s) = sint i"
      using i(2) by (auto simp: current_def intro!: Max_eqI)
    moreover have "kvs = [(x, the (view s x))]" using first Cons by (simp add: rows)
    then have "w = i"
      using assms(2) get by (simp add: window_start_def i(1) counter_unpack)
    ultimately show ?thesis by simp
  qed
qed

end

section \<open>What has been allocated\<close>

text \<open>
  A value is recorded when no later call can pick it: it is before the current window, or it is
  among the recent candidates.
\<close>

definition recorded :: "hca \<Rightarrow> (bytes \<rightharpoonup> bytes) \<Rightarrow> u64 \<Rightarrow> bool" where
  "recorded h m a \<longleftrightarrow> sint a < current h m \<or> m (recent_key h a) \<noteq> None"

definition hca_inv :: "hca \<Rightarrow> (bytes \<rightharpoonup> bytes) \<Rightarrow> u64 set \<Rightarrow> bool" where
  "hca_inv h m A \<longleftrightarrow>
     wf_counters h m \<and> (\<forall>i \<in> started h m. 0 \<le> sint i) \<and> (\<forall>a \<in> A. recorded h m a)"

definition wf_task :: "hca_task \<Rightarrow> bool" where
  "wf_task task \<longleftrightarrow>
     (case task of
        Counting _ start \<Rightarrow> 0 \<le> sint start
      | Choosing start window \<Rightarrow> 0 \<le> sint start \<and> window = window_size start
      | _ \<Rightarrow> True)"

lemma current_nonneg: "hca_inv h m A \<Longrightarrow> 0 \<le> current h m"
  by (auto simp: hca_inv_def current_def Max_ge_iff)

text \<open>What the section that counts does to the map.\<close>

definition advanced :: "hca \<Rightarrow> u64 \<Rightarrow> (bytes \<rightharpoonup> bytes) \<Rightarrow> bytes \<rightharpoonup> bytes" where
  "advanced h start m = (\<lambda>k.
     if prefix (counters h) \<le> k \<and> k < counter_key h start then None
     else if prefix (recent h) \<le> k \<and> k < recent_key h start then None else m k)"

definition counted :: "hca \<Rightarrow> bool \<Rightarrow> u64 \<Rightarrow> (bytes \<rightharpoonup> bytes) \<Rightarrow> bytes \<rightharpoonup> bytes" where
  "counted h adv start m = (let m = (if adv then advanced h start m else m) in
     m(counter_key h start \<mapsto> add_le (m (counter_key h start)) ONE_BYTES))"

lemma advanced_keys:
  assumes "wf_hca h"
  shows "advanced h start m (counter_key h i) = (if sint i < sint start then None else m (counter_key h i))"
    and "advanced h start m (recent_key h i) = (if sint i < sint start then None else m (recent_key h i))"
  using keys_apart [OF assms] by (auto simp: advanced_def dest: leD)

lemma counted_keys:
  assumes "wf_hca h"
  shows "counted h adv start m (recent_key h i) =
      (if adv \<and> sint i < sint start then None else m (recent_key h i))"
    and "started h (counted h adv start m) =
      insert start {i \<in> started h m. adv \<longrightarrow> sint start \<le> sint i}"
  using keys_apart(3) [OF assms, symmetric] advanced_keys [OF assms]
  by (auto simp: counted_def started_def Let_def)

lemma Max_insert_kept:
  assumes "finite (f ` A)" and "\<forall>a \<in> A. (0::int) \<le> f a" and "0 \<le> x"
  shows "Max (insert x (f ` {a \<in> A. b \<longrightarrow> x \<le> f a})) = max x (if A = {} then 0 else Max (f ` A))"
proof (cases "A = {}")
  case False
  have fin: "finite (f ` {a \<in> A. b \<longrightarrow> x \<le> f a})" using assms(1) by (rule finite_subset [rotated]) auto
  from False assms(1) have "Max (f ` A) \<in> f ` A" by (intro Max_in) auto
  then obtain a where a: "a \<in> A" "f a = Max (f ` A)" by auto
  show ?thesis
  proof (cases "x \<le> f a")
    case True
    then have "a \<in> {a \<in> A. b \<longrightarrow> x \<le> f a}" using a(1) by simp
    then have "f a \<in> f ` {a \<in> A. b \<longrightarrow> x \<le> f a}" by (rule imageI)
    moreover have "f c \<le> f a" if "c \<in> A" for c using that assms(1) by (simp add: a(2))
    ultimately have "Max (insert x (f ` {a \<in> A. b \<longrightarrow> x \<le> f a})) = f a"
      using fin True by (intro Max_eqI) auto
    then show ?thesis using False True a(2) by simp
  next
    case below: False
    have "f c \<le> f a" if "c \<in> A" for c using that assms(1) by (simp add: a(2))
    then have "Max (insert x (f ` {a \<in> A. b \<longrightarrow> x \<le> f a})) = x"
      using fin below by (intro Max_eqI) fastforce+
    then show ?thesis using False below a(2) by simp
  qed
qed (use assms in simp)

lemma current_counted:
  assumes "wf_hca h" and "hca_inv h m A" and "0 \<le> sint start"
  shows "current h (counted h adv start m) = max (sint start) (current h m)"
  using Max_insert_kept [where f = sint and A = "started h m" and x = "sint start" and b = adv] assms
  by (simp add: current_def counted_keys(2) [OF assms(1)] hca_inv_def)

lemma wf_counted:
  assumes "wf_counters h m"
  shows "wf_counters h (counted h adv start m)"
  using assms by (fastforce simp: wf_counters_def counted_def advanced_def Let_def split: if_splits)

lemma counted_inv:
  assumes "wf_hca h" and "hca_inv h m A" and "0 \<le> sint start"
  shows "hca_inv h (counted h adv start m) A"
  using assms current_counted [OF assms] wf_counted [of h m adv start] counted_keys [OF assms(1), of adv start m]
  by (auto simp: hca_inv_def recorded_def split: if_splits)

lemma current_recent:
  assumes "wf_hca h"
  shows "started h (m(recent_key h c \<mapsto> v)) = started h m"
    and "current h (m(recent_key h c \<mapsto> v)) = current h m"
  using keys_apart(3) [OF assms, of _ c] by (simp_all add: current_def started_def)

lemma recent_not_selected:
  assumes "wf_hca h"
  shows "\<not> selected (counters_range h) (recent_key h c)"
proof -
  obtain p where p: "prefix (counters h) = p @ [0x14]" "prefix (recent h) = p @ [0x15, 0x01]"
    using assms by (auto simp: wf_hca_def)
  then show ?thesis
    by (auto simp: selected_def counters_range_def subspace_range_def first_greater_or_equal_def
        first_greater_than_def ks_new_def default_range_def recent_key_eq not_less [symmetric])
qed

lemma recent_inv:
  assumes "wf_hca h" and "hca_inv h m A"
  shows "hca_inv h (m(recent_key h c \<mapsto> v)) A"
  using assms current_recent [OF assms(1)] recent_not_selected [OF assms(1)]
  by (auto simp: hca_inv_def recorded_def wf_counters_def)

lemma window_size_cases: "window_size i \<in> {64, 1024, 8192}"
  by (simp add: window_size_def)

lemma window_size_bounds: "64 \<le> sint (window_size i)" "sint (window_size i) \<le> 8192" "window_size i \<noteq> 0"
  using window_size_cases [of i] by auto

lemma sint_i64: "- (2 ^ 63) \<le> n \<Longrightarrow> n < 2 ^ 63 \<Longrightarrow> sint (word_of_int n :: u64) = n"
  by (simp add: sint_sbintrunc' signed_take_bit_int_eq_self)

lemma i64_in_Some: "i64_in n = Some w \<Longrightarrow> sint w = n"
  using sint_i64 [of n] by (auto simp: i64_in_def split: if_splits)

lemma candidate_in_window:
  assumes "0 \<le> sint start" and "window = window_size start" and "i64_in (sint start + sint window) \<noteq> None"
  shows "sint start \<le> sint (start + of_nat (draw mod unat window))"
    and "sint (start + of_nat (draw mod unat window)) < sint start + sint window"
proof -
  let ?d = "draw mod unat window"
  have w: "int (unat window) = sint window" "0 < unat window"
    using window_size_cases [of start] assms(2) by auto
  then have d: "int ?d < sint window" by (metis mod_less_divisor of_nat_less_iff)
  have lt: "sint start + sint window < 2 ^ 63"
    using assms(3) by (simp add: i64_in_def split: if_splits)
  have "start + of_nat ?d = word_of_int (sint start + int ?d)" by simp
  then have "sint (start + of_nat ?d) = sint start + int ?d"
    using sint_i64 [of "sint start + int ?d"] assms(1) d lt by simp
  then show "sint start \<le> sint (start + of_nat ?d)"
    "sint (start + of_nat ?d) < sint start + sint window" using d by auto
qed

text \<open>A call on its own is one task of the relation.\<close>

lemma run_steps_all:
  assumes "hca_run kv ops h draws n task s = Some r"
  shows "\<forall>c s' C. r = Inr (c, s') \<longrightarrow> hca_steps kv ops h C (tasks(i := task), s) \<longrightarrow>
    hca_steps kv ops h C (tasks(i := Allocated c), s')"
proof (rule hca_run.raw_induct [where P = "\<lambda>kv ops h draws n task s r. \<forall>c s' C. r = Inr (c, s') \<longrightarrow>
    hca_steps kv ops h C (tasks(i := task), s) \<longrightarrow> hca_steps kv ops h C (tasks(i := Allocated c), s')",
    OF _ assms], intro allI impI)
  fix run kv ops h draws n task s r c s' C
  assume IH: "\<And>kv ops h draws n task s r. run kv ops h draws n task s = Some r \<Longrightarrow>
      \<forall>c s' C. r = Inr (c, s') \<longrightarrow> hca_steps kv ops h C (tasks(i := task), s) \<longrightarrow>
        hca_steps kv ops h C (tasks(i := Allocated c), s')"
    and turns: "(case task of Allocated c \<Rightarrow> Some (Inr (c, s)) | _ \<Rightarrow>
      Option.bind (hca_turn kv ops h (draws n) task s) (\<lambda>r. case r of
        Inl e \<Rightarrow> Some (Inl e) | Inr (task, trx) \<Rightarrow> run kv ops h draws (n + 1) task trx)) = Some r"
    and r: "r = Inr (c, s')" and steps: "hca_steps kv ops h C (tasks(i := task), s)"
  show "hca_steps kv ops h C (tasks(i := Allocated c), s')"
  proof (cases "\<exists>a. task = Allocated a")
    case True
    with turns r steps show ?thesis by auto
  next
    case False
    with turns have "Option.bind (hca_turn kv ops h (draws n) task s) (\<lambda>r. case r of
        Inl e \<Rightarrow> Some (Inl e) | Inr (task, trx) \<Rightarrow> run kv ops h draws (n + 1) task trx) = Some r"
      by (cases task) simp_all
    then obtain r' where r': "hca_turn kv ops h (draws n) task s = Some r'"
      "(case r' of Inl e \<Rightarrow> Some (Inl e) | Inr (task, trx) \<Rightarrow> run kv ops h draws (n + 1) task trx) = Some r"
      by (auto simp: bind_eq_Some_conv)
    with r obtain task1 s1 where turn: "r' = Inr (task1, s1)" by (cases r') auto
    have "hca_steps kv ops h C ((tasks(i := task))(i := task1), s1)"
      by (rule hca_step [OF steps]) (use r'(1) turn in simp)
    then have "hca_steps kv ops h C (tasks(i := task1), s1)" by simp
    moreover have "run kv ops h draws (n + 1) task1 s1 = Some r" using r'(2) turn by simp
    ultimately show ?thesis using IH r by blast
  qed
qed

lemmas run_steps = run_steps_all [rule_format]

context hca_store
begin

lemma count_section_view:
  assumes "count_section kv ops h adv start s = Inr (fut, s')"
  shows "view s' = counted h adv start (view s)" and "fut = kv_get kv s' (counter_key h start)"
proof -
  obtain s1 where s1: "view s1 = (if adv then advanced h start (view s) else view s)"
    and s': "s' = atomic_add ops (counter_key h start) ONE_BYTES s1"
    and fut: "fut = kv_get kv s' (counter_key h start)"
  proof (cases adv)
    case True
    with assms obtain s2 where s2: "next_write_no_conflict ops
          (kv_clear_range kv (prefix (counters h)) (counter_key h start) s) = Inr s2"
      and eqs: "s' = atomic_add ops (counter_key h start) ONE_BYTES
          (kv_clear_range kv (prefix (recent h)) (recent_key h start) s2)"
        "fut = kv_get kv s' (counter_key h start)"
      by (auto simp: count_section_def Let_def bind_result_eq_Inr split: if_splits)
    have "view (kv_clear_range kv (prefix (recent h)) (recent_key h start) s2) =
        advanced h start (view s)"
      unfolding view_clear_range view_option [OF s2] by (auto simp: advanced_def)
    with that eqs True show thesis by simp
  next
    case False
    with assms that show thesis by (auto simp: count_section_def Let_def split: if_splits)
  qed
  then show "view s' = counted h adv start (view s)" by (simp add: view_add counted_def Let_def)
  from fut show "fut = kv_get kv s' (counter_key h start)" .
qed

lemma count_turn_view:
  assumes "count_turn kv ops h adv start s = Some (Inr (task, s'))"
  shows "view s' = counted h adv start (view s)"
    and "task = Choosing start (window_size start) \<or>
      (\<exists>start'. task = Counting True start' \<and> sint start' = sint start + sint (window_size start))"
proof -
  obtain fut s1 where sec: "count_section kv ops h adv start s = Inr (fut, s1)"
    using assms by (cases "count_section kv ops h adv start s") (auto simp: count_turn_def)
  then obtain count where "bind_result (map_err HcaFdb fut) counter_value = Inr count"
    using assms by (cases "bind_result (map_err HcaFdb fut) counter_value") (auto simp: count_turn_def)
  with sec assms have "s1 = s'" and task: "task = Choosing start (window_size start) \<or>
      (\<exists>start'. task = Counting True start' \<and> i64_in (sint start + sint (window_size start)) = Some start')"
    by (auto simp: count_turn_def Let_def bind_eq_Some_conv split: if_splits)
  with count_section_view(1) [OF sec] show "view s' = counted h adv start (view s)" by simp
  from task i64_in_Some show "task = Choosing start (window_size start) \<or>
      (\<exists>start'. task = Counting True start' \<and> sint start' = sint start + sint (window_size start))"
    by blast
qed

lemma candidate_turn_view:
  assumes "candidate_turn kv ops h start window c s = Inr (task, s')" and "wf_counters h (view s)"
  shows "view s' = (view s)(recent_key h c \<mapsto> [])"
    and "task = AtLoop \<and> sint start < current h (view s) \<or>
      task = Choosing start window \<and> view s (recent_key h c) \<noteq> None \<or>
      task = Allocated c \<and> current h (view s) \<le> sint start \<and> view s (recent_key h c) = None"
proof -
  obtain latest found s1 where sec: "candidate_section kv ops h c s = Inr ((latest, found), s1)"
    using assms(1) by (auto simp: candidate_turn_def bind_result_eq_Inr)
  then have s1: "view s1 = (view s)(recent_key h c \<mapsto> [])"
    and reads: "latest = kv_get_range kv s (counters_range h) 1" "found = kv_get kv s (recent_key h c)"
    by (auto simp: candidate_section_def Let_def bind_result_eq_Inr view_set view_option split: if_splits)
  obtain page v w where ok: "latest = Inr page" "found = Inr v" "window_start h (Inr page) = Inr w"
    using assms(1) sec by (auto simp: candidate_turn_def bind_result_eq_Inr)
  have v: "v = view s (recent_key h c)" using get_ok [of s "recent_key h c" v] reads ok by simp
  have w: "sint w = current h (view s)"
    using window_start_current [OF assms(2), of w] reads ok by simp
  from assms(1) sec ok s1 w show "view s' = (view s)(recent_key h c \<mapsto> [])"
    and "task = AtLoop \<and> sint start < current h (view s) \<or>
      task = Choosing start window \<and> view s (recent_key h c) \<noteq> None \<or>
      task = Allocated c \<and> current h (view s) \<le> sint start \<and> view s (recent_key h c) = None"
    by (auto simp: candidate_turn_def Let_def bind_result_eq_Inr view_conflict v [symmetric] split: if_splits)
qed

text \<open>Every turn keeps the record, and what it allocates is new.\<close>

lemma turn_keeps:
  assumes "hca_turn kv ops h draw task s = Some (Inr (task', s'))" and "wf_hca h"
    and "hca_inv h (view s) A" and "wf_task task"
  shows "hca_inv h (view s') A" and "wf_task task'"
    and "task' = Allocated c \<Longrightarrow> task \<noteq> Allocated c \<Longrightarrow> c \<notin> A \<and> recorded h (view s') c"
proof -
  have "hca_inv h (view s') A \<and> wf_task task' \<and>
    (task' = Allocated c \<longrightarrow> task \<noteq> Allocated c \<longrightarrow> c \<notin> A \<and> recorded h (view s') c)"
  proof (cases task)
    case AtLoop
    then obtain w where "window_start h (kv_get_range kv s (counters_range h) 1) = Inr w"
      and "task' = Counting False w" "s' = s"
      using assms(1) by (auto simp: hca_turn_def bind_result_eq_Inr)
    with window_start_current [of h s w] current_nonneg [OF assms(3)] assms(3) show ?thesis
      by (simp add: wf_task_def hca_inv_def)
  next
    case (Counting adv start)
    with assms(1,4) have turn: "count_turn kv ops h adv start s = Some (Inr (task', s'))"
      and start: "0 \<le> sint start" by (simp_all add: hca_turn_def wf_task_def)
    from count_turn_view [OF turn] counted_inv [OF assms(2,3) start] start
      window_size_bounds(1) [of start]
    show ?thesis by (auto simp: wf_task_def)
  next
    case (Choosing start window)
    let ?c = "start + of_nat (draw mod unat window)"
    from Choosing assms(1) have turn: "candidate_turn kv ops h start window ?c s = Inr (task', s')"
      and fits: "i64_in (sint start + sint window) \<noteq> None"
      by (auto simp: hca_turn_def Let_def bind_eq_Some_conv)
    have task: "0 \<le> sint start" "window = window_size start"
      using assms(4) Choosing by (simp_all add: wf_task_def)
    have wf: "wf_counters h (view s)" using assms(3) by (simp add: hca_inv_def)
    note turned = candidate_turn_view [OF turn wf]
    have "sint start \<le> sint ?c" using candidate_in_window(1) [OF task fits] .
    then have "?c \<notin> A" if "task' = Allocated ?c"
      using turned(2) that assms(3) by (auto simp: hca_inv_def recorded_def)
    with turned recent_inv [OF assms(2,3)] task show ?thesis
      by (auto simp: wf_task_def recorded_def)
  next
    case (Allocated a)
    with assms show ?thesis by (simp add: hca_turn_def)
  qed
  then show "hca_inv h (view s') A" and "wf_task task'"
    and "task' = Allocated c \<Longrightarrow> task \<noteq> Allocated c \<Longrightarrow> c \<notin> A \<and> recorded h (view s') c" by auto
qed

text \<open>
  Interleaved calls: what has been allocated before and what the calls return are recorded, and
  no two of these values are the same.
\<close>

lemma steps_keep:
  assumes "hca_steps kv ops h (tasks, s) (tasks', s')" and "wf_hca h" and "hca_inv h (view s) A"
    and "\<forall>i. wf_task (tasks i) \<and> (\<forall>a. tasks i \<noteq> Allocated a)"
  shows "hca_inv h (view s') (A \<union> {a. \<exists>i. tasks' i = Allocated a}) \<and> (\<forall>i. wf_task (tasks' i)) \<and>
    (\<forall>i a. tasks' i = Allocated a \<longrightarrow> a \<notin> A) \<and>
    (\<forall>i j a. tasks' i = Allocated a \<longrightarrow> tasks' j = Allocated a \<longrightarrow> i = j)"
  using assms
proof (induction "(tasks, s)" "(tasks', s')" arbitrary: tasks' s' rule: hca_steps.induct)
  case hca_refl
  then show ?case by simp
next
  case (hca_step tasks1 s1 draw i task s2)
  let ?R = "{a. \<exists>j. tasks1 j = Allocated a}"
  from hca_step.hyps(2) hca_step.prems
  have inv: "hca_inv h (view s1) (A \<union> ?R)" and wft: "\<And>j. wf_task (tasks1 j)"
    and new: "\<And>j a. tasks1 j = Allocated a \<Longrightarrow> a \<notin> A"
    and inj: "\<And>j k a. tasks1 j = Allocated a \<Longrightarrow> tasks1 k = Allocated a \<Longrightarrow> j = k" by blast+
  note kept = turn_keeps [OF hca_step.hyps(3) hca_step.prems(1) inv wft]
  show ?case
  proof (cases "\<exists>c. task = Allocated c \<and> tasks1 i \<noteq> Allocated c")
    case True
    then obtain c where c: "task = Allocated c" "tasks1 i \<noteq> Allocated c" by blast
    then have fresh: "c \<notin> A" "\<And>j. tasks1 j \<noteq> Allocated c" and rec: "recorded h (view s2) c"
      using kept(3) by auto
    have i_done: "tasks1 i \<noteq> Allocated a" for a
      using hca_step.hyps(3) c by (auto simp: hca_turn_def)
    have "{a. \<exists>j. (tasks1(i := task)) j = Allocated a} = insert c ?R"
      using c(1) i_done by (auto split: if_splits) (metis i_done)
    with kept(1) rec have "hca_inv h (view s2) (A \<union> {a. \<exists>j. (tasks1(i := task)) j = Allocated a})"
      by (simp add: hca_inv_def)
    with kept(2) wft new fresh inj c(1) show ?thesis by (auto split: if_splits)
  next
    case False
    then have same: "(tasks1(i := task)) j = Allocated a \<longleftrightarrow> tasks1 j = Allocated a" for j a
      using hca_step.hyps(3) by (auto simp: hca_turn_def)
    with kept(1,2) wft new inj show ?thesis by auto
  qed
qed

lemma allocate_fresh:
  assumes "allocate kv ops h draws s = Some (Inr (c, s'))" and "wf_hca h" and "hca_inv h (view s) A"
  shows "c \<notin> A" and "hca_inv h (view s') (insert c A)"
proof -
  define tasks where "tasks = (\<lambda>_ :: nat. AtLoop)"
  have "hca_steps kv ops h (tasks, s) (tasks(0 := AtLoop), s)"
    using hca_refl by (simp add: tasks_def fun_upd_idem)
  from run_steps [OF assms(1) [unfolded allocate_def] refl this]
  have steps: "hca_steps kv ops h (tasks, s) (tasks(0 := Allocated c), s')" .
  have "\<forall>i. wf_task (tasks i) \<and> (\<forall>a. tasks i \<noteq> Allocated a)" by (simp add: tasks_def wf_task_def)
  note kept = steps_keep [OF steps assms(2,3) this]
  have "(tasks(0 := Allocated c)) 0 = Allocated c" by simp
  with kept show "c \<notin> A" by blast
  have "{a. \<exists>i. (tasks(0 := Allocated c)) i = Allocated a} = {c}" by (auto simp: tasks_def)
  with kept [THEN conjunct1] show "hca_inv h (view s') (insert c A)" by simp
qed

end

section \<open>Room in the window\<close>

text \<open>
  The recent candidates of the current window are at most as many as its counter says, so while
  the window is less than half full there is room, and a fair generator finds it.
\<close>

definition taken :: "hca \<Rightarrow> (bytes \<rightharpoonup> bytes) \<Rightarrow> u64 \<Rightarrow> u64 set" where
  "taken h m start = {a. m (recent_key h a) \<noteq> None \<and> sint start \<le> sint a}"

definition count_of :: "hca \<Rightarrow> (bytes \<rightharpoonup> bytes) \<Rightarrow> u64 \<Rightarrow> int" where
  "count_of h m start = (case m (counter_key h start) of None \<Rightarrow> 0 | Some v \<Rightarrow> sint (from_le_bytes v :: u64))"

definition room_from :: "nat \<Rightarrow> hca \<Rightarrow> (bytes \<rightharpoonup> bytes) \<Rightarrow> u64 \<Rightarrow> bool" where
  "room_from n h m start \<longleftrightarrow>
     sint start = current h m \<and>
     (\<forall>a. m (recent_key h a) \<noteq> None \<longrightarrow> sint a < sint start + sint (window_size start)) \<and>
     (\<forall>v. m (counter_key h start) = Some v \<longrightarrow> length v = 8) \<and>
     int (card (taken h m start) + n) \<le> count_of h m start \<and>
     count_of h m start < 2 ^ 60 + int n"

definition hca_room :: "hca \<Rightarrow> (bytes \<rightharpoonup> bytes) \<Rightarrow> bool" where
  "hca_room h m \<longleftrightarrow> (\<exists>start. room_from 0 h m start)"

definition fair :: "(nat \<Rightarrow> nat) \<Rightarrow> bool" where
  "fair draws \<longleftrightarrow> (\<forall>w i k. 0 < w \<longrightarrow> (\<exists>n \<ge> k. draws n mod w = i mod w))"

lemma sint_plus:
  assumes "0 \<le> sint start" and "sint start + int i < 2 ^ 63"
  shows "sint (start + of_nat i :: u64) = sint start + int i"
proof -
  have "start + of_nat i = word_of_int (sint start + int i)" by simp
  then show ?thesis using sint_i64 [of "sint start + int i"] assms by simp
qed

lemma free_candidate:
  assumes "0 \<le> sint start" and "sint start + sint (window_size start) < 2 ^ 63"
    and "int (card (taken h m start)) < sint (window_size start)"
  obtains i where "i < unat (window_size start)" and "m (recent_key h (start + of_nat i)) = None"
proof -
  let ?w = "unat (window_size start)"
  have w: "int ?w = sint (window_size start)" using window_size_cases [of start] by auto
  have sint: "sint (start + of_nat i :: u64) = sint start + int i" if "i < ?w" for i
    using sint_plus [OF assms(1), of i] that assms(2) w by linarith
  have inj: "inj_on (\<lambda>i. start + of_nat i :: u64) {..<?w}"
    by (rule inj_onI) (use sint in \<open>metis add_left_cancel lessThan_iff of_nat_eq_iff\<close>)
  have "\<exists>i < ?w. m (recent_key h (start + of_nat i)) = None"
  proof (rule ccontr)
    assume "\<not> ?thesis"
    then have "(\<lambda>i. start + of_nat i :: u64) ` {..<?w} \<subseteq> taken h m start"
      using sint by (auto simp: taken_def)
    from card_mono [OF _ this] inj have "?w \<le> card (taken h m start)" by (simp add: card_image)
    with assms(3) w show False by linarith
  qed
  then show thesis using that by blast
qed

lemma add_one_value:
  "length v = 8 \<Longrightarrow> from_le_bytes (add_le (Some v) ONE_BYTES) = (from_le_bytes v + 1 :: u64)"
  "from_le_bytes (add_le None ONE_BYTES) = (1 :: u64)"
  "length (add_le old ONE_BYTES) = 8"
proof -
  have one: "be_nat (rev ONE_BYTES) = 1" "length ONE_BYTES = 8"
    by (simp_all add: ONE_BYTES_def be_nat_Cons)
  have word: "word_of_nat (be_nat (nat_be 8 n)) = (of_nat n :: u64)" for n
    by (simp add: be_nat_nat_be word_unat_eq_iff unat_of_nat del: nat_be_numeral)
  have zeros: "be_nat (replicate n 0) = 0" for n
    by (induction n) (simp_all add: be_nat_Cons)
  show "length (add_le old ONE_BYTES) = 8"
    by (simp add: add_le_def one del: nat_be_numeral)
  show "from_le_bytes (add_le None ONE_BYTES) = (1 :: u64)"
    by (simp add: add_le_def from_le_bytes_def from_be_bytes_def one word zeros del: nat_be_numeral)
  show "from_le_bytes (add_le (Some v) ONE_BYTES) = (from_le_bytes v + 1 :: u64)" if "length v = 8"
    using that
    by (simp add: add_le_def from_le_bytes_def from_be_bytes_def one word del: nat_be_numeral)
qed

lemma room_mark:
  assumes "wf_hca h" and "room_from n h m start" and "m (recent_key h c) \<noteq> None"
  shows "room_from n h (m(recent_key h c \<mapsto> v)) start"
proof -
  have "(m(recent_key h c \<mapsto> v)) (recent_key h a) = None \<longleftrightarrow> m (recent_key h a) = None" for a
    using assms(3) by auto
  then show ?thesis
    using assms(2) current_recent(2) [OF assms(1), of m c v] keys_apart(3) [OF assms(1), of start c]
    by (auto simp: room_from_def taken_def count_of_def)
qed

lemma room_take:
  assumes "wf_hca h" and "room_from (Suc n) h m start" and "sint c < sint start + sint (window_size start)"
    and "count_of h m start < 2 ^ 60"
  shows "room_from n h (m(recent_key h c \<mapsto> v)) start"
proof -
  have "taken h (m(recent_key h c \<mapsto> v)) start \<subseteq> insert c (taken h m start)"
    by (auto simp: taken_def split: if_splits)
  then have "card (taken h (m(recent_key h c \<mapsto> v)) start) \<le> card (insert c (taken h m start))"
    by (intro card_mono) auto
  also have "\<dots> \<le> Suc (card (taken h m start))" by (rule card_insert_le_m1) simp_all
  finally show ?thesis
    using assms(2-4) current_recent(2) [OF assms(1), of m c v] keys_apart(3) [OF assms(1), of start c]
    by (auto simp: room_from_def count_of_def)
qed

lemma counted_length: "counted h adv start m (counter_key h start) = Some v \<Longrightarrow> length v = 8"
  by (auto simp: counted_def Let_def add_one_value)

lemma room_counted:
  assumes "wf_hca h" and "hca_inv h m A" and "room_from 0 h m start"
  shows "room_from 1 h (counted h False start m) start"
proof -
  have start: "sint start = current h m" "0 \<le> sint start"
    using assms(3) current_nonneg [OF assms(2)] by (simp_all add: room_from_def)
  have "taken h (counted h False start m) start = taken h m start"
    by (simp add: taken_def counted_keys(1) [OF assms(1)])
  moreover have "current h (counted h False start m) = sint start"
    using current_counted [OF assms(1,2) start(2)] start(1) by simp
  moreover have "count_of h (counted h False start m) start = count_of h m start + 1"
  proof (cases "m (counter_key h start)")
    case (Some v)
    with assms(3) have v: "length v = 8" "sint (from_le_bytes v :: u64) < 2 ^ 60"
      "0 \<le> sint (from_le_bytes v :: u64)" by (auto simp: room_from_def count_of_def)
    have "sint (from_le_bytes v + 1 :: u64) = sint (from_le_bytes v :: u64) + 1"
      using sint_plus [of "from_le_bytes v" 1] v by simp
    with Some v show ?thesis by (simp add: count_of_def counted_def add_one_value)
  qed (simp add: count_of_def counted_def add_one_value)
  ultimately show ?thesis
    using assms(3) by (auto simp: room_from_def counted_keys(1) [OF assms(1)] dest: counted_length)
qed

lemma room_advanced:
  assumes "wf_hca h" and "hca_inv h m A" and "room_from n h m start"
    and "sint start' = sint start + sint (window_size start)"
  shows "room_from 1 h (counted h True start' m) start'" and "count_of h (counted h True start' m) start' = 1"
proof -
  have start: "sint start = current h m" "0 \<le> sint start"
    using assms(3) current_nonneg [OF assms(2)] by (simp_all add: room_from_def)
  have later: "sint start < sint start'" "0 \<le> sint start'"
    using assms(4) window_size_bounds(1) [of start] start(2) by auto
  have "m (counter_key h start') = None"
  proof (rule ccontr)
    assume "m (counter_key h start') \<noteq> None"
    then have "start' \<in> started h m" by (simp add: started_def)
    then have "sint start' \<le> current h m" by (auto simp: current_def)
    with later(1) start(1) show False by simp
  qed
  then show one: "count_of h (counted h True start' m) start' = 1"
    by (simp add: count_of_def counted_def advanced_def add_one_value)
  have below: "sint a < sint start'" if "m (recent_key h a) \<noteq> None" for a
    using assms(3,4) that by (auto simp: room_from_def)
  then have none: "counted h True start' m (recent_key h a) = None" for a
    using below [of a] by (cases "m (recent_key h a)") (auto simp: counted_keys(1) [OF assms(1)])
  then have "taken h (counted h True start' m) start' = {}" by (simp add: taken_def)
  moreover have "current h (counted h True start' m) = sint start'"
    using current_counted [OF assms(1,2) later(2)] start(1) later(1) by simp
  ultimately show "room_from 1 h (counted h True start' m) start'"
    by (auto simp: room_from_def one none dest: counted_length)
qed

context hca_store
begin

text \<open>The run from a task ends, with an error or in a state where \<open>Q\<close>.\<close>

definition ends :: "hca \<Rightarrow> (nat \<Rightarrow> nat) \<Rightarrow> ('s \<Rightarrow> bool) \<Rightarrow> nat \<Rightarrow> hca_task \<Rightarrow> 's \<Rightarrow> bool" where
  "ends h draws Q n task s \<longleftrightarrow>
     (\<exists>r. hca_run kv ops h draws n task s = Some r \<and> (\<forall>c s'. r = Inr (c, s') \<longrightarrow> Q s'))"

lemma ends_turn:
  assumes "hca_turn kv ops h (draws n) task s = Some r" and "\<forall>a. task \<noteq> Allocated a"
    and "\<And>task' s'. r = Inr (task', s') \<Longrightarrow> ends h draws Q (Suc n) task' s'"
  shows "ends h draws Q n task s"
proof -
  have "hca_run kv ops h draws n task s =
      (case r of Inl e \<Rightarrow> Some (Inl e) | Inr (task, trx) \<Rightarrow> hca_run kv ops h draws (Suc n) task trx)"
    using assms(1,2) by (subst hca_run.simps) (cases task; simp)
  with assms(3) show ?thesis by (cases r) (auto simp: ends_def)
qed

lemma ends_Allocated: "Q s \<Longrightarrow> ends h draws Q n (Allocated c) s"
  by (simp add: ends_def hca_run.simps)

text \<open>While a candidate is free, the loop that chooses ends by the turn that draws it.\<close>

lemma choosing_ends:
  assumes h: "wf_hca h" and start: "0 \<le> sint start" "sint start + sint (window_size start) < 2 ^ 63"
    and i: "i = draws k mod unat (window_size start)"
  shows "n \<le> k \<Longrightarrow> wf_counters h (view s) \<Longrightarrow> room_from 1 h (view s) start \<Longrightarrow>
    count_of h (view s) start < 2 ^ 60 \<Longrightarrow> view s (recent_key h (start + of_nat i)) = None \<Longrightarrow>
    ends h draws (\<lambda>s'. room_from 0 h (view s') start) n (Choosing start (window_size start)) s"
proof (induction "k - n" arbitrary: n s rule: less_induct)
  case less
  let ?w = "window_size start" and ?c = "start + of_nat (draws n mod unat (window_size start)) :: u64"
  have fits: "i64_in (sint start + sint ?w) \<noteq> None"
    using start window_size_bounds(1) [of start] by (simp add: i64_in_def)
  have c: "sint ?c < sint start + sint ?w"
    using candidate_in_window(2) [OF start(1) refl fits] .
  have turn: "hca_turn kv ops h (draws n) (Choosing start ?w) s =
      Some (candidate_turn kv ops h start ?w ?c s)"
    using fits by (auto simp: hca_turn_def Let_def)
  show ?case
  proof (rule ends_turn [where draws = draws and n = n, OF turn])
    fix task' s'
    assume "candidate_turn kv ops h start ?w ?c s = Inr (task', s')"
    note turned = candidate_turn_view [OF this less.prems(2)]
    from less.prems(3) have cur: "current h (view s) = sint start" by (simp add: room_from_def)
    show "ends h draws (\<lambda>s'. room_from 0 h (view s') start) (Suc n) task' s'"
    proof (cases "task' = Allocated ?c")
      case True
      have "room_from 0 h (view s') start"
        unfolding turned(1) using room_take [OF h, of 0 "view s" start ?c] less.prems(3,4) c by simp
      with True show ?thesis by (simp add: ends_Allocated)
    next
      case False
      with turned(2) cur have task': "task' = Choosing start ?w" and found: "view s (recent_key h ?c) \<noteq> None"
        by auto
      from found less.prems(5) i have "n \<noteq> k" by auto
      with less.prems(1) have "k - Suc n < k - n" "Suc n \<le> k" by auto
      moreover have "wf_counters h (view s')"
        using less.prems(2) recent_not_selected [OF h, of ?c] by (auto simp: wf_counters_def turned(1))
      moreover have "room_from 1 h (view s') start"
        unfolding turned(1) by (rule room_mark [OF h less.prems(3) found])
      moreover have "count_of h (view s') start < 2 ^ 60"
        using less.prems(4) keys_apart(3) [OF h, of start ?c] by (simp add: count_of_def turned(1))
      moreover have "view s' (recent_key h (start + of_nat i)) = None"
        using less.prems(5) found by (auto simp: turned(1))
      ultimately show ?thesis unfolding task' by (rule less.hyps)
    qed
  qed simp
qed

lemma choosing_ends_fair:
  assumes "wf_hca h" and "0 \<le> sint start" and "sint start + sint (window_size start) < 2 ^ 63"
    and "fair draws" and "wf_counters h (view s)" and "room_from 1 h (view s) start"
    and "count_of h (view s) start * 2 < sint (window_size start)"
  shows "ends h draws (\<lambda>s'. room_from 0 h (view s') start) n (Choosing start (window_size start)) s"
proof -
  have small: "count_of h (view s) start < 2 ^ 60"
    using assms(7) window_size_bounds(2) [of start] by simp
  have "int (card (taken h (view s) start)) < sint (window_size start)"
    using assms(6,7) window_size_bounds(1) [of start] by (simp add: room_from_def)
  from free_candidate [OF assms(2,3) this] obtain i where
    i: "i < unat (window_size start)" "view s (recent_key h (start + of_nat i)) = None" by blast
  from assms(4) i(1) obtain k where "n \<le> k" "i = draws k mod unat (window_size start)"
    unfolding fair_def by (metis mod_less gr_zeroI not_less_zero)
  with choosing_ends [OF assms(1-3), of i draws k n s] assms(5,6) small i(2) show ?thesis by blast
qed
lemma count_turn_cases:
  assumes "0 \<le> sint start" and "sint start + sint (window_size start) < 2 ^ 63"
    and "0 \<le> count_of h (counted h adv start (view s)) start"
    and "count_of h (counted h adv start (view s)) start \<le> 2 ^ 60"
  obtains (failed) e where "count_turn kv ops h adv start s = Some (Inl e)"
  | (chosen) s' where "count_turn kv ops h adv start s = Some (Inr (Choosing start (window_size start), s'))"
      and "view s' = counted h adv start (view s)"
      and "count_of h (view s') start * 2 < sint (window_size start)"
  | (advance) s' start' where "count_turn kv ops h adv start s = Some (Inr (Counting True start', s'))"
      and "view s' = counted h adv start (view s)"
      and "sint start' = sint start + sint (window_size start)"
      and "sint (window_size start) \<le> count_of h (view s') start * 2"
proof (cases "count_section kv ops h adv start s")
  case (Inl e)
  then show thesis using failed by (simp add: count_turn_def)
next
  case (Inr p)
  obtain fut s' where p: "p = (fut, s')" by (cases p)
  note sec = count_section_view [OF Inr [unfolded p]]
  obtain v where v: "view s' (counter_key h start) = Some v" "length v = 8"
    using counted_length [of h adv start "view s"] by (auto simp: sec(1) counted_def Let_def add_one_value)
  have count: "count_of h (view s') start = sint (from_le_bytes v :: u64)"
    using v(1) by (simp add: count_of_def)
  with assms(3,4) have fits: "i64_in (sint (from_le_bytes v :: u64) * 2) \<noteq> None"
    by (simp add: sec(1) i64_in_def)
  show thesis
  proof (cases fut)
    case (Inl e)
    with Inr p show thesis using failed by (simp add: count_turn_def)
  next
    case found: (Inr found)
    with sec(2) get_ok [of s' "counter_key h start" found] v have "found = Some v" by simp
    with v(2) found have decoded: "bind_result (map_err HcaFdb fut) counter_value = Inr (from_le_bytes v)"
      by (simp add: counter_value_def)
    obtain twice where twice: "i64_in (sint (from_le_bytes v :: u64) * 2) = Some twice" using fits by blast
    have sint_twice: "sint twice = count_of h (view s') start * 2"
      using i64_in_Some [OF twice] count by simp
    obtain start' where start': "i64_in (sint start + sint (window_size start)) = Some start'"
      using assms(1,2) window_size_bounds(1) [of start] by (auto simp: i64_in_def)
    have turn: "count_turn kv ops h adv start s =
        (if sint twice < sint (window_size start) then Some (Inr (Choosing start (window_size start), s'))
         else Some (Inr (Counting True start', s')))"
      using Inr p decoded twice start' by (simp add: count_turn_def)
    show thesis
    proof (cases "sint twice < sint (window_size start)")
      case True
      with turn sec(1) sint_twice show thesis by (intro chosen [of s']) simp_all
    next
      case False
      with turn sec(1) sint_twice i64_in_Some [OF start'] show thesis by (intro advance [of start' s']) simp_all
    qed
  qed
qed

lemma allocate_ends:
  assumes h: "wf_hca h" and inv: "hca_inv h (view s) A" and "hca_room h (view s)" and "fair draws"
    and "current h (view s) < 2 ^ 62"
  shows "\<exists>r. allocate kv ops h draws s = Some r \<and>
    (\<forall>c s'. r = Inr (c, s') \<longrightarrow> hca_room h (view s'))"
proof -
  let ?Q = "\<lambda>s'. hca_room h (view s')"
  obtain start where room: "room_from 0 h (view s) start" using assms(3) by (auto simp: hca_room_def)
  then have start: "sint start = current h (view s)" "0 \<le> sint start"
    using current_nonneg [OF inv] by (simp_all add: room_from_def)
  have Q: "ends h draws ?Q n t s1" if "ends h draws (\<lambda>s'. room_from 0 h (view s') st) n t s1" for n t s1 st
    using that by (fastforce simp: ends_def hca_room_def)
  have fits: "sint start + sint (window_size start) < 2 ^ 63"
    using start assms(5) window_size_bounds(2) [of start] by simp
  note inv1 = counted_inv [OF h inv start(2), of False]
  note room1 = room_counted [OF h inv room]
  have choose: "ends h draws ?Q n (Choosing st (window_size st)) s1"
    if "0 \<le> sint st" "sint st + sint (window_size st) < 2 ^ 63" "hca_inv h (view s1) A"
      "room_from 1 h (view s1) st" "count_of h (view s1) st * 2 < sint (window_size st)" for n st s1
    using Q [OF choosing_ends_fair [OF h that(1,2) assms(4) _ that(4,5)]] that(3) by (simp add: hca_inv_def)
  have second: "ends h draws ?Q 2 (Counting True start') s1"
    if view1: "view s1 = counted h False start (view s)"
      and start': "sint start' = sint start + sint (window_size start)" for s1 start'
  proof -
    have "0 \<le> sint start'" and fits': "sint start' + sint (window_size start') < 2 ^ 63"
      using start start' assms(5) window_size_bounds [of start] window_size_bounds(2) [of start'] by simp_all
    note room2 = room_advanced [OF h inv1 room1 start']
    have count2: "0 \<le> count_of h (counted h True start' (view s1)) start'"
      "count_of h (counted h True start' (view s1)) start' \<le> 2 ^ 60"
      using room2(2) by (simp_all add: view1)
    show ?thesis
    proof (rule count_turn_cases [OF \<open>0 \<le> sint start'\<close> fits' count2], goal_cases failed chosen advance)
      case (failed e)
      then show ?thesis by - (rule ends_turn [where r = "Inl e"], simp_all add: hca_turn_def)
    next
      case (chosen s2)
      have "hca_inv h (view s2) A" and "room_from 1 h (view s2) start'"
        using counted_inv [OF h inv1 \<open>0 \<le> sint start'\<close>] room2(1) by (simp_all add: chosen(2) view1)
      from choose [OF \<open>0 \<le> sint start'\<close> fits' this chosen(3)] chosen(1) show ?thesis
        by - (rule ends_turn, auto simp: hca_turn_def)
    next
      case (advance s2 start2)
      then show ?thesis using room2(2) window_size_bounds(1) [of start'] by (simp add: view1)
    qed
  qed
  have count1: "0 \<le> count_of h (counted h False start (view s)) start"
    "count_of h (counted h False start (view s)) start \<le> 2 ^ 60"
    using room1 by (auto simp: room_from_def)
  have first: "ends h draws ?Q 1 (Counting False start) s"
  proof (rule count_turn_cases [OF start(2) fits count1], goal_cases failed chosen advance)
    case (failed e)
    then show ?thesis by - (rule ends_turn [where r = "Inl e"], simp_all add: hca_turn_def)
  next
    case (chosen s1)
    from choose [OF start(2) fits _ _ chosen(3)] inv1 room1 chosen(1,2) show ?thesis
      by - (rule ends_turn, auto simp: hca_turn_def)
  next
    case (advance s1 start')
    from second [OF advance(2,3)] advance(1) show ?thesis
      by - (rule ends_turn, auto simp: hca_turn_def numeral_2_eq_2)
  qed
  have "ends h draws ?Q 0 AtLoop s"
  proof (cases "window_start h (kv_get_range kv s (counters_range h) 1)")
    case (Inl e)
    then show ?thesis by - (rule ends_turn [where r = "Inl e"], simp_all add: hca_turn_def)
  next
    case (Inr w)
    have "wf_counters h (view s)" using inv by (simp add: hca_inv_def)
    from window_start_current [OF this Inr] start(1) have "w = start" by (metis signed_word_eqI)
    with Inr first show ?thesis
      by - (rule ends_turn [where r = "Inr (Counting False start, s)"], auto simp: hca_turn_def)
  qed
  then show ?thesis by (simp add: ends_def allocate_def)
qed

end

section \<open>The client in memory\<close>

definition mem_ops :: "(bytes \<times> bytes) list hca_ops" where
  "mem_ops = \<lparr>atomic_add = (\<lambda>k param s. (k, add_le (map_of s k) param) # s),
     next_write_no_conflict = Inr, add_write_conflict = (\<lambda>b e s. Inr s), poisoned = (\<lambda>s. False)\<rparr>"

lemma mem_hca_store: "hca_store (mem_kv n) map_of mem_ops"
  unfolding hca_store_def hca_store_axioms_def by (simp add: mem_kv_store mem_ops_def)

interpretation mem_hca: hca_store "mem_kv n" map_of mem_ops for n
  by (rule mem_hca_store)

text \<open>An empty allocator has room.\<close>

lemma room_empty: "hca_room h Map.empty"
proof -
  have "room_from 0 h Map.empty 0"
    by (simp add: room_from_def current_def started_def taken_def count_of_def)
  then show ?thesis by (auto simp: hca_room_def)
qed

lemma fair_id: "fair (\<lambda>n. n)"
  unfolding fair_def
proof (intro allI impI)
  fix w i k :: nat
  assume "0 < w"
  then have "k \<le> w * k" by simp
  then have "k \<le> w * k + i" by linarith
  then show "\<exists>n \<ge> k. n mod w = i mod w" by (intro exI [of _ "w * k + i"]) simp
qed

section \<open>Properties\<close>

text \<open>
  C9.  Allocated values are unique.  However the calls on a transaction interleave at their awaits,
  a value one of them returns was not allocated before (in the set A of recorded values), and no
  two of them return the same one.
\<close>

theorem hca_values_distinct:
  assumes "hca_store kv view ops"
    and "hca_inv (hca_new sub) (view s) A"
    and "hca_steps kv ops (hca_new sub) (\<lambda>_. AtLoop, s) (tasks, s')"
    and "tasks i = Allocated a"
  shows "a \<notin> A \<and> (i \<noteq> j \<longrightarrow> tasks j \<noteq> Allocated a) \<and>
    hca_inv (hca_new sub) (view s') (A \<union> {a. \<exists>i. tasks i = Allocated a})"
  using hca_store.steps_keep [OF assms(1,3) wf_hca_new assms(2)] assms(4)
  by (auto simp: wf_task_def)

theorem hca_values_distinct_witness:
  "\<exists>s'. (5 :: u64) \<notin> {3} \<and> ((0 :: nat) \<noteq> 1 \<longrightarrow> ((\<lambda>_. AtLoop)(0 := Allocated 5)) (1 :: nat) \<noteq> Allocated 5) \<and>
    hca_inv (hca_new subspace_all) (map_of s')
      ({3} \<union> {a. \<exists>i :: nat. ((\<lambda>_. AtLoop)(0 := Allocated 5)) i = Allocated a})"
proof -
  let ?kv = "mem_kv 0" and ?start = "\<lambda>_ :: nat. AtLoop"
  define h where "h = hca_new subspace_all"
  define s0 :: "(bytes \<times> bytes) list" where "s0 = [(recent_key h 3, [])]"
  define s1 where "s1 = (counter_key h 0, add_le None ONE_BYTES) # s0"
  define s2 where "s2 = (recent_key h 5, []) # s1"
  have enc: "int_enc 0 = [0x14]" "int_enc 1 = [0x15, 0x01]" "int_enc 3 = [0x15, 0x03]" "int_enc 5 = [0x15, 0x05]"
    by (simp_all add: int_enc_def int_head_def int_len_def byte_len_def MAX_SZ_def code_defs)
  have h: "prefix (counters h) = [0x14]" "prefix (recent h) = [0x15, 0x01]"
    by (simp_all add: h_def hca_new_def subspace_ix enc subspace_all_def)
  have keys: "counter_key h 0 = [0x14, 0x14]" "recent_key h 3 = [0x15, 0x01, 0x15, 0x03]"
    "recent_key h 5 = [0x15, 0x01, 0x15, 0x05]"
    by (simp_all add: counter_key_eq recent_key_eq h enc)
  note range_defs = mem_kv_def mem_get_range_def mem_rows_def selected_def counters_range_def
    subspace_range_def first_greater_or_equal_def first_greater_than_def ks_new_def default_range_def
  have "hca_turn ?kv mem_ops h 0 AtLoop s0 = Some (Inr (Counting False 0, s0))"
    by (simp add: hca_turn_def window_start_def range_defs s0_def keys h)
  moreover have "hca_turn ?kv mem_ops h 0 (Counting False 0) s0 = Some (Inr (Choosing 0 64, s1))"
    by (simp add: hca_turn_def count_turn_def count_section_def mem_ops_def mem_kv_def s1_def s0_def keys
        add_one_value counter_value_def window_size_def i64_in_def)
  moreover have "hca_turn ?kv mem_ops h 5 (Choosing 0 64) s1 = Some (Inr (Allocated 5, s2))"
    using counter_unpack [of h 0]
    by (simp add: hca_turn_def candidate_turn_def candidate_section_def window_start_def mem_ops_def
        range_defs s2_def s1_def s0_def keys h i64_in_def)
  ultimately have "hca_steps ?kv mem_ops h (?start, s0)
      (((?start(0 := Counting False 0))(0 := Choosing 0 64))(0 := Allocated 5), s2)"
    by (intro hca_step [OF hca_step [OF hca_step [OF hca_refl]]]) simp_all
  then have "hca_steps ?kv mem_ops h (?start, s0) (?start(0 := Allocated 5), s2)" by simp
  moreover have "hca_inv h (map_of s0) {3}"
    using recent_not_selected [of h 3] keys_apart(3) [of h _ 3]
    by (auto simp: hca_inv_def recorded_def wf_counters_def started_def s0_def h_def wf_hca_new)
  ultimately show ?thesis
    unfolding h_def by (intro exI [of _ s2], intro hca_values_distinct [OF mem_hca_store]) (assumption, assumption, simp)
qed

text \<open>
  C34.  A call on its own returns.  When the counter of the current window counts its candidates and
  the generator is fair, \<^verbatim>\<open>allocate\<close> does not loop for ever and does not panic; what it
  returns without an error is a new value, which is recorded with the older ones, and there is room
  for the next call.
\<close>

theorem hca_allocates:
  assumes "hca_store kv view ops" and "hca_inv (hca_new sub) (view s) A"
    and "hca_room (hca_new sub) (view s)" and "current (hca_new sub) (view s) < 2 ^ 62" and "fair draws"
  shows "\<exists>r. allocate kv ops (hca_new sub) draws s = Some r \<and>
    (\<forall>c s'. r = Inr (c, s') \<longrightarrow>
       c \<notin> A \<and> hca_inv (hca_new sub) (view s') (insert c A) \<and> hca_room (hca_new sub) (view s'))"
  using hca_store.allocate_ends [OF assms(1) wf_hca_new assms(2,3,5,4)]
    hca_store.allocate_fresh [OF assms(1) _ wf_hca_new assms(2)]
  by blast

theorem hca_allocates_witness:
  "\<exists>r. allocate (mem_kv 0) mem_ops (hca_new subspace_all) (\<lambda>n. n) [] = Some r \<and>
    (\<forall>c s'. r = Inr (c, s') \<longrightarrow> c \<notin> {} \<and>
       hca_inv (hca_new subspace_all) (map_of s') (insert c {}) \<and> hca_room (hca_new subspace_all) (map_of s'))"
proof -
  have "hca_inv (hca_new subspace_all) (map_of []) {}"
    by (simp add: hca_inv_def wf_counters_def started_def)
  moreover have "current (hca_new subspace_all) (map_of []) < 2 ^ 62"
    by (simp add: current_def started_def)
  ultimately show ?thesis
    using hca_allocates [OF mem_hca_store, of subspace_all "[]" "{}" "\<lambda>n. n" 0] room_empty fair_id by simp
qed

end
