(* ===== verification/Directory_Layer.thy ===== *)
theory Directory_Layer
  imports Allocator
begin

text \<open>
  The directory layer (\<^verbatim>\<open>foundationdb/src/directory\<close>): nodes, the layer, and the operations of
  the trait \<^verbatim>\<open>Directory\<close> on layers, directories, partitions and outputs.  A path is a list of
  strings, each its UTF-8 bytes.

  An operation takes the state of the transaction and returns its result with the new state.
  After an error the caller does not commit, so the state is not kept then.  \<open>None\<close> is a panic
  or a call that does not return; \<open>remove_recursive\<close>, whose recursion follows the stored tree,
  takes fuel.
\<close>

section \<open>Keys just past a prefix\<close>

text \<open>\<^verbatim>\<open>strinc\<close>: the loop runs from the last index down.\<close>

fun strinc_loop :: "nat \<Rightarrow> bytes \<Rightarrow> bytes" where
  "strinc_loop 0 key = key"
| "strinc_loop (Suc i) key =
     (if key ! i \<noteq> 0xff then key[i := key ! i + 1]
      else strinc_loop i (take i key @ drop (Suc i) key))"

definition strinc :: "bytes \<Rightarrow> bytes" where
  "strinc key = strinc_loop (length key) key"

datatype ordering = Less | Equal | Greater

definition cmp_of :: "'a::linorder \<Rightarrow> 'a \<Rightarrow> ordering" where
  "cmp_of a b = (if a < b then Less else if a = b then Equal else Greater)"

fun compare_items :: "('a::linorder \<times> 'a) list \<Rightarrow> ordering \<Rightarrow> ordering" where
  "compare_items [] lengths = lengths"
| "compare_items ((ai, bi) # rest) lengths =
     (case cmp_of ai bi of Equal \<Rightarrow> compare_items rest lengths | ord \<Rightarrow> ord)"

definition compare_slice :: "'a::linorder list \<Rightarrow> 'a list \<Rightarrow> ordering" where
  "compare_slice a b = compare_items (zip a b) (cmp_of (length a) (length b))"

section \<open>Errors\<close>

text \<open>The messages of \<^verbatim>\<open>Version\<close>, as the conditions they report; \<^verbatim>\<open>IoError\<close> and
  \<^verbatim>\<open>Other\<close> are not built by the directory layer.\<close>

datatype version_error = IncorrectVersionLength | CannotLoad u32 u32 u32 | ReadOnlyVersion u32 u32 u32

datatype directory_error =
    CannotModifyRootDirectory
  | DirectoryPrefixInUse
  | DirectoryDoesNotExists
  | NoPathProvided
  | DirAlreadyExists
  | PathDoesNotExists
  | ParentDirDoesNotExists
  | IncompatibleLayer
  | BadDestinationDirectory
  | Version version_error
  | PrefixNotAllowed
  | CannotPrefixInPartition
  | CannotMoveRootDirectory
  | CannotMoveBetweenPartition
  | CannotMoveBetweenSubdirectory
  | PrefixNotEmpty
  | CannotCreateSubpath
  | CannotOpenDirectoryPartition
  | CannotGetKeyDirectoryPartition
  | CannotPackDirectoryPartition
  | CannotUnpackDirectoryPartition
  | CannotRangeDirectoryPartition
  | DirFdb fdb_error
  | DirHca hca_error
  | DirPack pack_error

section \<open>Operations on a transaction\<close>

type_synonym ('s, 'a) dir = "'s \<Rightarrow> (directory_error + 'a \<times> 's) option"

definition dir_ok :: "'a \<Rightarrow> ('s, 'a) dir" where
  "dir_ok a trx = Some (Inr (a, trx))"

definition dir_fail :: "directory_error \<Rightarrow> ('s, 'a) dir" where
  "dir_fail e trx = Some (Inl e)"

definition dir_panic :: "('s, 'a) dir" where
  "dir_panic trx = None"

definition dir_bind :: "('s, 'a) dir \<Rightarrow> ('a \<Rightarrow> ('s, 'b) dir) \<Rightarrow> ('s, 'b) dir" where
  "dir_bind m f trx =
     (case m trx of
        None \<Rightarrow> None
      | Some (Inl e) \<Rightarrow> Some (Inl e)
      | Some (Inr (a, trx)) \<Rightarrow> f a trx)"

definition dir_lift :: "directory_error + 'a \<Rightarrow> ('s, 'a) dir" where
  "dir_lift r trx = Some (bind_result r (\<lambda>a. Inr (a, trx)))"

definition dir_read :: "('s \<Rightarrow> directory_error + 'a) \<Rightarrow> ('s, 'a) dir" where
  "dir_read f trx = dir_lift (f trx) trx"

definition dir_write :: "('s \<Rightarrow> 's) \<Rightarrow> ('s, unit) dir" where
  "dir_write f trx = Some (Inr ((), f trx))"

lemma dir_bind_cong [fundef_cong]:
  assumes "m trx = m' trx'" and "\<And>a t. m' trx' = Some (Inr (a, t)) \<Longrightarrow> f a t = g a t"
  shows "dir_bind m f trx = dir_bind m' g trx'"
  using assms by (auto simp: dir_bind_def split: option.splits sum.splits)

text \<open>The transaction, and the numbers that the generator of an allocation draws.\<close>

record 's dir_env =
  dir_kv :: "'s kv"
  dir_ops :: "'s hca_ops"
  dir_draws :: "'s \<Rightarrow> nat \<Rightarrow> nat"

definition dir_get :: "'s dir_env \<Rightarrow> bytes \<Rightarrow> 's \<Rightarrow> directory_error + bytes option" where
  "dir_get env key trx = map_err DirFdb (kv_get (dir_kv env) trx key)"

text \<open>\<^verbatim>\<open>try_next\<close> on a stream of key-value pairs.\<close>

definition dir_first :: "'s dir_env \<Rightarrow> range_option \<Rightarrow> ('s, (bytes \<times> bytes) option) dir" where
  "dir_first env opt trx =
     Option.bind (get_ranges_keyvalues (dir_kv env) trx opt) (\<lambda>items.
       case items of
         [] \<Rightarrow> Some (Inr (None, trx))
       | Inl e # _ \<Rightarrow> Some (Inl (DirFdb e))
       | Inr row # _ \<Rightarrow> Some (Inr (Some row, trx)))"

section \<open>Layers, nodes and outputs\<close>

type_synonym path = "bytes list"

record directory_layer =
  root_node :: subspace
  node_subspace :: subspace
  content_subspace :: subspace
  allocator :: hca
  allow_manual_prefixes :: bool
  dl_path :: path

record directory_subspace =
  ds_directory_layer :: directory_layer
  ds_subspace :: subspace
  ds_path :: path
  ds_layer :: bytes

record directory_partition =
  dp_subspace :: directory_subspace
  parent_directory_layer :: directory_layer

datatype directory_output =
    DirectorySubspace directory_subspace
  | DirectoryPartition directory_partition

record node =
  node_sub :: subspace
  current_path :: path
  target_path :: path
  node_directory_layer :: directory_layer
  node_layer :: bytes

definition DEFAULT_SUB_DIRS :: u64 where "DEFAULT_SUB_DIRS = 0"
definition MAJOR_VERSION :: u32 where "MAJOR_VERSION = 1"
definition MINOR_VERSION :: u32 where "MINOR_VERSION = 0"
definition PATCH_VERSION :: u32 where "PATCH_VERSION = 0"
definition DEFAULT_NODE_PREFIX :: bytes where "DEFAULT_NODE_PREFIX = [0xFE]"
definition DEFAULT_HCA_PREFIX :: bytes where "DEFAULT_HCA_PREFIX = [104, 99, 97]"
definition PARTITION_LAYER :: bytes where
  "PARTITION_LAYER = [112, 97, 114, 116, 105, 116, 105, 111, 110]"
definition LAYER_SUFFIX :: bytes where "LAYER_SUFFIX = [108, 97, 121, 101, 114]"
definition VERSION_KEY :: bytes where "VERSION_KEY = [118, 101, 114, 115, 105, 111, 110]"

text \<open>
  \<^verbatim>\<open>Subspace::from_bytes\<close>, and the packing of byte strings and names, panic only past
  \<open>2\<^sup>3\<^sup>2\<close> bytes, far above the client's limit on a key.
\<close>

definition subspace_of :: "bytes \<Rightarrow> subspace" where
  "subspace_of bs = the (from_bytes bs)"

definition sub_bytes :: "subspace \<Rightarrow> bytes \<Rightarrow> subspace" where
  "sub_bytes s bs = the (subspace pack_bytes s bs)"

definition child_key :: "subspace \<Rightarrow> bytes \<Rightarrow> bytes" where
  "child_key s name = prefix (the (subspace pack_tuple s
     [\<lambda>d. pack_ix d DEFAULT_SUB_DIRS, \<lambda>d. pack_str d name]))"

definition sub_dirs :: "subspace \<Rightarrow> subspace" where
  "sub_dirs s = the (subspace pack_ix s DEFAULT_SUB_DIRS)"

definition dl_new_with_path :: "subspace \<Rightarrow> subspace \<Rightarrow> bool \<Rightarrow> path \<Rightarrow> directory_layer" where
  "dl_new_with_path nodes content manual path =
     (let root = sub_bytes nodes (prefix nodes)
      in \<lparr>root_node = root, node_subspace = nodes, content_subspace = content,
          allocator = hca_new (sub_bytes root DEFAULT_HCA_PREFIX),
          allow_manual_prefixes = manual, dl_path = path\<rparr>)"

definition dl_new :: "subspace \<Rightarrow> subspace \<Rightarrow> bool \<Rightarrow> directory_layer" where
  "dl_new nodes content manual =
     (let root = sub_bytes nodes (prefix nodes)
      in \<lparr>root_node = root, node_subspace = nodes, content_subspace = content,
          allocator = hca_new (sub_bytes root DEFAULT_HCA_PREFIX),
          allow_manual_prefixes = manual, dl_path = []\<rparr>)"

definition dl_default :: directory_layer where
  "dl_default = dl_new (subspace_of DEFAULT_NODE_PREFIX) subspace_all False"

definition node_with_prefix :: "directory_layer \<Rightarrow> bytes \<Rightarrow> subspace" where
  "node_with_prefix self p = sub_bytes (node_subspace self) p"

definition node_with_optional_prefix :: "directory_layer \<Rightarrow> bytes option \<Rightarrow> subspace option" where
  "node_with_optional_prefix self p = map_option (node_with_prefix self) p"

definition to_absolute_path :: "directory_layer \<Rightarrow> path \<Rightarrow> path" where
  "to_absolute_path self sub_path = dl_path self @ sub_path"

definition ds_new :: "path \<Rightarrow> bytes \<Rightarrow> directory_layer \<Rightarrow> bytes \<Rightarrow> directory_subspace" where
  "ds_new path p directory_layer layer =
     \<lparr>ds_directory_layer = directory_layer, ds_subspace = subspace_of p, ds_path = path, ds_layer = layer\<rparr>"

definition dp_new :: "path \<Rightarrow> bytes \<Rightarrow> directory_layer \<Rightarrow> directory_partition" where
  "dp_new path p parent =
     (let node_subspace_bytes = p @ DEFAULT_NODE_PREFIX;
          new_directory_layer = dl_new_with_path (subspace_of node_subspace_bytes) (subspace_of p) False path
      in \<lparr>dp_subspace = ds_new path p new_directory_layer PARTITION_LAYER,
          parent_directory_layer = parent\<rparr>)"

definition contents_of_node ::
    "directory_layer \<Rightarrow> subspace \<Rightarrow> path \<Rightarrow> bytes \<Rightarrow> directory_error + directory_output" where
  "contents_of_node self sub path layer =
     bind_result (map_err DirPack (subspace_unpack unpack_bytes (node_subspace self) (prefix sub))) (\<lambda>p.
       if layer = PARTITION_LAYER
       then Inr (DirectoryPartition (dp_new (to_absolute_path self path) p self))
       else Inr (DirectorySubspace (ds_new (to_absolute_path self path) p self layer)))"

section \<open>Nodes\<close>

definition load_metadata :: "'s dir_env \<Rightarrow> subspace \<Rightarrow> 's \<Rightarrow> directory_error + bytes" where
  "load_metadata env sub trx =
     bind_result (dir_get env (the (subspace_pack pack_bytes sub LAYER_SUFFIX)) trx) (\<lambda>found.
       Inr (case found of None \<Rightarrow> [] | Some layer \<Rightarrow> layer))"

definition node_subpath :: "node \<Rightarrow> path" where
  "node_subpath self = drop (length (current_path self)) (target_path self)"

text \<open>\<^verbatim>\<open>list_sub_folders\<close>: an error of the client ends the stream before any key is read.\<close>

fun sub_folder_names :: "subspace \<Rightarrow> (bytes \<times> bytes) list \<Rightarrow> directory_error + path" where
  "sub_folder_names sub [] = Inr []"
| "sub_folder_names sub ((key, _) # rest) =
     bind_result (map_err DirPack
       (subspace_unpack (unpack_tuple (field_cons (unpack_ix :: u64 unpacker) (field_last unpack_str))) sub key))
     (\<lambda>(_, name). bind_result (sub_folder_names sub rest) (\<lambda>names. Inr (name # names)))"

fun try_collect :: "(fdb_error + 'a) list \<Rightarrow> directory_error + 'a list" where
  "try_collect [] = Inr []"
| "try_collect (Inl e # _) = Inl (DirFdb e)"
| "try_collect (Inr a # rest) = bind_result (try_collect rest) (\<lambda>items. Inr (a # items))"

definition list_sub_folders :: "'s dir_env \<Rightarrow> node \<Rightarrow> ('s, path) dir" where
  "list_sub_folders env self trx =
     Option.bind (get_ranges_keyvalues (dir_kv env) trx (range_of_subspace (sub_dirs (node_sub self))))
       (\<lambda>items. dir_lift (bind_result (try_collect items) (sub_folder_names (node_sub self))) trx)"

definition is_in_partition :: "node \<Rightarrow> bool \<Rightarrow> bool" where
  "is_in_partition self include_empty_subpath \<longleftrightarrow>
     node_layer self = PARTITION_LAYER \<and>
     (include_empty_subpath \<or> length (target_path self) > length (current_path self))"

definition get_contents :: "node \<Rightarrow> directory_error + directory_output" where
  "get_contents self =
     contents_of_node (node_directory_layer self) (node_sub self) (current_path self) (node_layer self)"

section \<open>Finding a node\<close>

text \<open>
  The walk of \<^verbatim>\<open>find\<close>: the result is the node's subspace, the path walked, the layer, and
  whether the loop has loaded it.
\<close>

fun dir_find_loop ::
    "'s dir_env \<Rightarrow> directory_layer \<Rightarrow> subspace \<Rightarrow> path \<Rightarrow> bytes \<Rightarrow> bool \<Rightarrow> path \<Rightarrow> 's \<Rightarrow>
     directory_error + (subspace \<times> path \<times> bytes \<times> bool) option" where
  "dir_find_loop env self sub walked layer loaded [] trx = Inr (Some (sub, walked, layer, loaded))"
| "dir_find_loop env self sub walked layer loaded (path_name # path) trx =
     (let walked = walked @ [path_name];
          key = child_key sub path_name
      in bind_result (dir_get env key trx) (\<lambda>found.
           case node_with_optional_prefix self found of
             None \<Rightarrow> Inr None
           | Some sub \<Rightarrow>
               bind_result (load_metadata env sub trx) (\<lambda>layer.
                 if layer = PARTITION_LAYER then Inr (Some (sub, walked, layer, True))
                 else dir_find_loop env self sub walked layer True path trx)))"

definition dir_find :: "'s dir_env \<Rightarrow> directory_layer \<Rightarrow> path \<Rightarrow> 's \<Rightarrow> directory_error + node option" where
  "dir_find env self path trx =
     bind_result (dir_find_loop env self (root_node self) [] [] False path trx) (\<lambda>found.
       case found of
         None \<Rightarrow> Inr None
       | Some (sub, walked, layer, loaded) \<Rightarrow>
           bind_result (if \<not> loaded then load_metadata env sub trx else Inr layer) (\<lambda>layer.
             Inr (Some \<lparr>node_sub = sub, current_path = walked, target_path = path,
               node_directory_layer = self, node_layer = layer\<rparr>)))"

section \<open>The version\<close>

definition get_version_value :: "'s dir_env \<Rightarrow> directory_layer \<Rightarrow> 's \<Rightarrow> directory_error + bytes option" where
  "get_version_value env self trx = dir_get env (prefix (sub_bytes (root_node self) VERSION_KEY)) trx"

definition initialize_directory :: "'s dir_env \<Rightarrow> directory_layer \<Rightarrow> ('s, unit) dir" where
  "initialize_directory env self =
     (let v = to_le_bytes MAJOR_VERSION @ to_le_bytes MINOR_VERSION @ to_le_bytes PATCH_VERSION
      in dir_write (kv_set (dir_kv env) (prefix (sub_bytes (root_node self) VERSION_KEY)) v))"

definition check_versions :: "bytes \<Rightarrow> bool \<Rightarrow> directory_error + unit" where
  "check_versions versions allow_creation =
     (if length versions < 12 then Inl (Version IncorrectVersionLength)
      else
        let major = from_le_bytes (take 4 versions) :: u32;
            minor = from_le_bytes (take 4 (drop 4 versions)) :: u32;
            patch = from_le_bytes (take 4 (drop 8 versions)) :: u32
        in if major > MAJOR_VERSION then Inl (Version (CannotLoad major minor patch))
           else if minor > MINOR_VERSION \<and> allow_creation
           then Inl (Version (ReadOnlyVersion major minor patch))
           else Inr ())"

definition check_version :: "'s dir_env \<Rightarrow> directory_layer \<Rightarrow> bool \<Rightarrow> ('s, unit) dir" where
  "check_version env self allow_creation =
     dir_bind (dir_read (get_version_value env self)) (\<lambda>version.
       case version of
         None \<Rightarrow> if allow_creation then initialize_directory env self else dir_ok ()
       | Some versions \<Rightarrow> dir_lift (check_versions versions allow_creation))"

section \<open>Prefixes\<close>

text \<open>\<^verbatim>\<open>Subspace::unpack::<Vec<Element>>\<close>.\<close>

definition unpack_elements_of :: "subspace \<Rightarrow> bytes \<Rightarrow> (pack_error + element list) option" where
  "unpack_elements_of s key =
     (if \<not> is_start_of s key then Some (Inl BadPrefix)
      else map_option (\<lambda>r. bind_result r (\<lambda>(input, vs).
          if input \<noteq> [] then Inl TrailingBytes else Inr vs))
        (unpack_vec unpack_element 0 (drop (length (prefix s)) key)))"

definition pack_in :: "subspace \<Rightarrow> bytes \<Rightarrow> bytes" where
  "pack_in s bs = the (subspace_pack pack_bytes s bs)"

fun first_bytes :: "element list \<Rightarrow> bytes option" where
  "first_bytes (EBytes p # _) = Some p"
| "first_bytes _ = None"

definition node_containing_key ::
    "'s dir_env \<Rightarrow> directory_layer \<Rightarrow> bytes \<Rightarrow> ('s, subspace option) dir" where
  "node_containing_key env self key =
     (if starts_with key (prefix (node_subspace self)) then dir_ok (Some (root_node self))
      else
        let key_after = key @ [0];
            range_end = pack_in (node_subspace self) key_after;
            opt = range_from_keys (fst (subspace_range (node_subspace self)), range_end);
            opt = opt\<lparr>rev_order := True, limit := Some 1\<rparr>
        in dir_bind (dir_first env opt) (\<lambda>fdb_value.
             case fdb_value of
               None \<Rightarrow> dir_ok None
             | Some (found, _) \<Rightarrow> (\<lambda>trx.
                 Option.bind (unpack_elements_of (node_subspace self) found) (\<lambda>r.
                   dir_lift (bind_result (map_err DirPack r) (\<lambda>previous_prefix.
                     Inr (case first_bytes previous_prefix of
                       Some p \<Rightarrow> if starts_with key p then Some (node_with_prefix self p) else None
                     | None \<Rightarrow> None))) trx))))"

definition is_prefix_free :: "'s dir_env \<Rightarrow> directory_layer \<Rightarrow> bytes \<Rightarrow> ('s, bool) dir" where
  "is_prefix_free env self p =
     (if p = [] then dir_ok False
      else dir_bind (node_containing_key env self p) (\<lambda>containing.
        if containing \<noteq> None then dir_ok False
        else
          let opt = range_from_keys (pack_in (node_subspace self) p, pack_in (node_subspace self) (strinc p));
              opt = opt\<lparr>limit := Some 1\<rparr>
          in dir_bind (dir_first env opt) (\<lambda>result. dir_ok (result = None))))"

definition dir_allocate :: "'s dir_env \<Rightarrow> directory_layer \<Rightarrow> ('s, u64) dir" where
  "dir_allocate env self trx =
     Option.bind (allocate (dir_kv env) (dir_ops env) (allocator self) (dir_draws env trx) trx) (\<lambda>r.
       Some (map_err DirHca r))"

definition get_prefix :: "'s dir_env \<Rightarrow> directory_layer \<Rightarrow> bytes option \<Rightarrow> ('s, bytes) dir" where
  "get_prefix env self p =
     (case p of
        None \<Rightarrow>
          dir_bind (dir_allocate env self) (\<lambda>allocated.
            let sub = the (subspace pack_ix (content_subspace self) allocated);
                opt = (range_from_keys (prefix sub, strinc (prefix sub)))\<lparr>limit := Some 1\<rparr>
            in dir_bind (dir_first env opt) (\<lambda>result.
                 if result \<noteq> None then dir_fail PrefixNotEmpty else dir_ok (prefix sub)))
      | Some v \<Rightarrow> dir_ok v)"

section \<open>Opening and creating\<close>

definition open_internal ::
    "directory_layer \<Rightarrow> bytes option \<Rightarrow> node \<Rightarrow> bool \<Rightarrow> ('s, directory_output) dir" where
  "open_internal self layer node allow_open =
     (if \<not> allow_open then dir_fail DirAlreadyExists
      else
        let check = (case layer of
            None \<Rightarrow> Inr ()
          | Some layer \<Rightarrow>
              if layer \<noteq> []
              then (case compare_slice layer (node_layer node) of
                      Equal \<Rightarrow> Inr ()
                    | _ \<Rightarrow> Inl IncompatibleLayer)
              else Inr ())
        in dir_lift (bind_result check (\<lambda>_. get_contents node)))"

text \<open>A node in a partition below itself is shorter than the path it was looked up with.\<close>

lemma dir_find_loop_path:
  "dir_find_loop env self sub walked layer loaded path trx = Inr (Some (sub', walked', layer', loaded')) \<Longrightarrow>
   length walked \<le> length walked' \<and> (path \<noteq> [] \<longrightarrow> length walked < length walked')"
proof (induction path arbitrary: sub walked layer loaded)
  case (Cons name path)
  then show ?case
    by (fastforce simp: Let_def bind_result_eq_Inr split: option.splits if_splits)
qed simp

lemma dir_find_path:
  assumes "dir_find env self path trx = Inr (Some node)"
  shows "target_path node = path" and "path \<noteq> [] \<Longrightarrow> length (node_subpath node) < length path"
    and "node_directory_layer node = self"
  using assms dir_find_loop_path [of env self "root_node self" "[]" "[]" False path trx]
  by (fastforce simp: dir_find_def node_subpath_def bind_result_eq_Inr split: option.splits)+

end
