(* ===== verification/Directory_Operations.thy ===== *)
theory Directory_Operations
  imports Directory_Layer
begin

text \<open>
  The operations of the trait \<^verbatim>\<open>Directory\<close> (\<^verbatim>\<open>directory_layer.rs\<close>,
  \<^verbatim>\<open>directory_subspace.rs\<close>, \<^verbatim>\<open>directory_partition.rs\<close>, \<^verbatim>\<open>mod.rs\<close>): creating, opening, listing,
  moving and removing directories.
\<close>

section \<open>Creating and opening\<close>

lemma dir_lift_Inr: "dir_lift r trx = Some (Inr (a, trx')) \<longleftrightarrow> r = Inr a \<and> trx' = trx"
  by (auto simp: dir_lift_def bind_result_eq_Inr)

lemma dir_read_Inr: "dir_read f trx = Some (Inr (a, trx')) \<longleftrightarrow> f trx = Inr a \<and> trx' = trx"
  by (simp add: dir_read_def dir_lift_Inr)

definition output_bytes :: "directory_output \<Rightarrow> directory_error + bytes" where
  "output_bytes self =
     (case self of
        DirectorySubspace d \<Rightarrow> Inr (prefix (ds_subspace d))
      | DirectoryPartition _ \<Rightarrow> Inl CannotOpenDirectoryPartition)"

function create_or_open_internal ::
    "'s dir_env \<Rightarrow> directory_layer \<Rightarrow> path \<Rightarrow> bytes option \<Rightarrow> bytes option \<Rightarrow> bool \<Rightarrow> bool \<Rightarrow>
     ('s, directory_output) dir"
  and create_internal ::
    "'s dir_env \<Rightarrow> directory_layer \<Rightarrow> path \<Rightarrow> bytes option \<Rightarrow> bytes option \<Rightarrow> bool \<Rightarrow>
     ('s, directory_output) dir"
  and get_parent_node :: "'s dir_env \<Rightarrow> directory_layer \<Rightarrow> path \<Rightarrow> ('s, subspace) dir"
where
  "create_or_open_internal env self path p layer allow_create allow_open trx =
     dir_bind (check_version env self False) (\<lambda>_ trx.
       if p \<noteq> None \<and> \<not> allow_manual_prefixes self
       then dir_fail (if dl_path self = [] then PrefixNotAllowed else CannotPrefixInPartition) trx
       else if path = [] then dir_fail NoPathProvided trx
       else dir_bind (dir_read (dir_find env self path)) (\<lambda>found trx.
         case found of
           Some node \<Rightarrow>
             if is_in_partition node False
             then
               let sub_path = node_subpath node
               in dir_bind (dir_lift (get_contents node)) (\<lambda>contents trx.
                    case contents of
                      DirectorySubspace _ \<Rightarrow> dir_panic trx
                    | DirectoryPartition directory_partition \<Rightarrow>
                        create_or_open_internal env (ds_directory_layer (dp_subspace directory_partition))
                          sub_path p layer allow_create allow_open trx) trx
             else open_internal self layer node allow_open trx
         | None \<Rightarrow> create_internal env self path layer p allow_create trx) trx) trx"
| "create_internal env self path layer p allow_create trx =
     (if path = [] then dir_fail NoPathProvided trx
      else if \<not> allow_create then dir_fail DirectoryDoesNotExists trx
      else
        let path_last = last path;
            layer = (case layer of None \<Rightarrow> [] | Some l \<Rightarrow> l)
        in dir_bind (check_version env self True) (\<lambda>_.
           dir_bind (get_prefix env self p) (\<lambda>new_prefix.
           dir_bind (is_prefix_free env self new_prefix) (\<lambda>prefix_free trx.
             if \<not> prefix_free then dir_fail DirectoryPrefixInUse trx
             else dir_bind (\<lambda>trx. get_parent_node env self path trx) (\<lambda>parent_node.
               let node = node_with_prefix self new_prefix;
                   key = child_key parent_node path_last;
                   key_layer = pack_in node LAYER_SUFFIX
               in dir_bind (dir_write (kv_set (dir_kv env) key new_prefix)) (\<lambda>_.
                  dir_bind (dir_write (kv_set (dir_kv env) key_layer layer)) (\<lambda>_.
                    dir_lift (contents_of_node self node path layer)))) trx))) trx)"
| "get_parent_node env self path trx =
     (if path = [] then dir_ok (root_node self) trx
      else
        let remains = butlast path
        in if remains = [] then dir_ok (root_node self) trx
           else dir_bind (create_or_open_internal env self remains None None True True) (\<lambda>parent.
                  dir_lift (bind_result (output_bytes parent) (\<lambda>b. Inr (node_with_prefix self b)))) trx)"
  by pat_completeness auto

termination
proof (relation "measure (\<lambda>x. case x of
    Inl (_, _, path, _) \<Rightarrow> 3 * length path + 2
  | Inr (Inl (_, _, path, _)) \<Rightarrow> 3 * length path + 1
  | Inr (Inr (_, _, path, _)) \<Rightarrow> 3 * length path)", goal_cases)
qed (auto simp: dir_read_Inr neq_Nil_conv dest: dir_find_path(2))

section \<open>Paths below a partition\<close>

definition ds_partition_subpath ::
    "directory_subspace \<Rightarrow> path \<Rightarrow> directory_layer option \<Rightarrow> directory_error + path" where
  "ds_partition_subpath self path layer =
     (let directory = (case layer of None \<Rightarrow> ds_directory_layer self | Some d \<Rightarrow> d)
      in if length (dl_path directory) > length (ds_path self) then Inl CannotCreateSubpath
         else Inr (drop (length (dl_path directory)) (ds_path self) @ path))"

definition dp_layer_for_path :: "directory_partition \<Rightarrow> path \<Rightarrow> directory_layer" where
  "dp_layer_for_path self path =
     (if path = [] then parent_directory_layer self else ds_directory_layer (dp_subspace self))"

definition dp_partition_subpath ::
    "directory_partition \<Rightarrow> path \<Rightarrow> directory_layer option \<Rightarrow> directory_error + path" where
  "dp_partition_subpath self path layer =
     (let directory = (case layer of None \<Rightarrow> ds_directory_layer (dp_subspace self) | Some d \<Rightarrow> d)
      in if length (dl_path directory) > length (ds_path (dp_subspace self)) then Inl CannotCreateSubpath
         else Inr (drop (length (dl_path directory)) (ds_path (dp_subspace self)) @ path))"

text \<open>What a node in a partition contains: the partition, whose layer names its own root.\<close>

lemma get_contents_partition:
  assumes "get_contents node = Inr out" and "node_layer node = PARTITION_LAYER"
  obtains p where "out = DirectoryPartition
    (dp_new (to_absolute_path (node_directory_layer node) (current_path node)) p (node_directory_layer node))"
  using assms by (auto simp: get_contents_def contents_of_node_def bind_result_eq_Inr)

lemma dp_new_simps [simp]:
  "ds_path (dp_subspace (dp_new path p parent)) = path"
  "dl_path (ds_directory_layer (dp_subspace (dp_new path p parent))) = path"
  "parent_directory_layer (dp_new path p parent) = parent"
  by (simp_all add: dp_new_def Let_def ds_new_def dl_new_with_path_def)

section \<open>Existence\<close>

text \<open>
  The calls that go through \<^verbatim>\<open>DirectoryOutput\<close> come back to the layer; they take the layer's
  operation as their first argument.
\<close>

definition ds_exists :: "(directory_layer \<Rightarrow> path \<Rightarrow> ('s, bool) dir) \<Rightarrow> directory_subspace \<Rightarrow> path \<Rightarrow> ('s, bool) dir" where
  "ds_exists ex self path =
     (let directory_layer = ds_directory_layer self
      in dir_bind (dir_lift (ds_partition_subpath self path (Some directory_layer))) (\<lambda>sub.
           ex directory_layer sub))"

definition dp_exists :: "(directory_layer \<Rightarrow> path \<Rightarrow> ('s, bool) dir) \<Rightarrow> directory_partition \<Rightarrow> path \<Rightarrow> ('s, bool) dir" where
  "dp_exists ex self path =
     (let directory_layer = dp_layer_for_path self path
      in dir_bind (dir_lift (dp_partition_subpath self path (Some directory_layer))) (\<lambda>sub.
           ex directory_layer sub))"

definition output_exists :: "(directory_layer \<Rightarrow> path \<Rightarrow> ('s, bool) dir) \<Rightarrow> directory_output \<Rightarrow> path \<Rightarrow> ('s, bool) dir" where
  "output_exists ex self path =
     (case self of
        DirectorySubspace d \<Rightarrow> ds_exists ex d path
      | DirectoryPartition d \<Rightarrow> dp_exists ex d path)"

text \<open>The layer and the path that such a call goes to.\<close>

definition exists_target :: "directory_output \<Rightarrow> path \<Rightarrow> directory_error + directory_layer \<times> path" where
  "exists_target self path =
     (case self of
        DirectorySubspace d \<Rightarrow>
          bind_result (ds_partition_subpath d path (Some (ds_directory_layer d))) (\<lambda>sub.
            Inr (ds_directory_layer d, sub))
      | DirectoryPartition d \<Rightarrow>
          bind_result (dp_partition_subpath d path (Some (dp_layer_for_path d path))) (\<lambda>sub.
            Inr (dp_layer_for_path d path, sub)))"

lemma output_exists_target:
  "output_exists ex self path trx =
     dir_bind (dir_lift (exists_target self path)) (\<lambda>(layer, sub). ex layer sub) trx"
  by (auto simp: output_exists_def ds_exists_def dp_exists_def exists_target_def Let_def dir_bind_def
      dir_lift_def bind_result_def split: directory_output.split sum.split)

lemma output_exists_cong [fundef_cong]:
  assumes "self = self'" and "path = path'" and "trx = trx'"
    and "\<And>layer sub t. exists_target self' path' = Inr (layer, sub) \<Longrightarrow> ex layer sub t = ex' layer sub t"
  shows "output_exists ex self path trx = output_exists ex' self' path' trx'"
  unfolding output_exists_target assms(1-3) using assms(4)
  by (auto simp: dir_lift_Inr intro!: dir_bind_cong)

text \<open>The dispatch on a node in a partition goes below it.\<close>

lemma partition_exists_shorter:
  assumes "dir_find env self path trx = Inr (Some node)" and "is_in_partition node False"
    and "get_contents node = Inr contents"
    and "exists_target contents (node_subpath node) = Inr (layer, sub)"
  shows "length sub < length path"
proof -
  from assms(2) have layer: "node_layer node = PARTITION_LAYER" and sub: "node_subpath node \<noteq> []"
    by (auto simp: is_in_partition_def node_subpath_def)
  obtain p where "contents = DirectoryPartition (dp_new
      (to_absolute_path (node_directory_layer node) (current_path node)) p (node_directory_layer node))"
    by (rule get_contents_partition [OF assms(3) layer])
  with assms(4) sub have "sub = node_subpath node"
    by (auto simp: exists_target_def dp_partition_subpath_def dp_layer_for_path_def bind_result_eq_Inr)
  moreover have "path \<noteq> []" using assms(2) dir_find_path(1) [OF assms(1)] by (auto simp: is_in_partition_def)
  ultimately show ?thesis using dir_find_path(2) [OF assms(1)] by simp
qed

function exists_internal :: "'s dir_env \<Rightarrow> directory_layer \<Rightarrow> path \<Rightarrow> ('s, bool) dir" where
  "exists_internal env self path trx =
     dir_bind (check_version env self False) (\<lambda>_.
     dir_bind (dir_read (dir_find env self path)) (\<lambda>found trx.
       case found of
         None \<Rightarrow> dir_ok False trx
       | Some node \<Rightarrow>
           if is_in_partition node False
           then dir_bind (dir_lift (get_contents node)) (\<lambda>contents.
                  output_exists (\<lambda>layer sub trx. exists_internal env layer sub trx) contents (node_subpath node)) trx
           else dir_ok True trx)) trx"
  by pat_completeness auto

termination
  by (relation "measure (\<lambda>(_, _, path, _). length path)")
    (simp, clarsimp simp: dir_read_Inr dir_lift_Inr, rule partition_exists_shorter)

section \<open>Listing\<close>

partial_function (option) list_internal :: "'s dir_env \<Rightarrow> directory_layer \<Rightarrow> path \<Rightarrow> ('s, path) dir" where
  "list_internal env self path trx =
     (case check_version env self False trx of
        None \<Rightarrow> None
      | Some (Inl e) \<Rightarrow> Some (Inl e)
      | Some (Inr (_, trx)) \<Rightarrow>
          (case bind_result (dir_find env self path trx) (ok_or PathDoesNotExists) of
             Inl e \<Rightarrow> Some (Inl e)
           | Inr node \<Rightarrow>
               if is_in_partition node True
               then (case get_contents node of
                       Inl e \<Rightarrow> Some (Inl e)
                     | Inr (DirectorySubspace _) \<Rightarrow> None
                     | Inr (DirectoryPartition directory_partition) \<Rightarrow>
                         list_internal env (ds_directory_layer (dp_subspace directory_partition))
                           (node_subpath node) trx)
               else list_sub_folders env node trx))"

section \<open>Moving\<close>

definition ds_move_to ::
    "(directory_layer \<Rightarrow> path \<Rightarrow> path \<Rightarrow> ('s, directory_output) dir) \<Rightarrow> directory_subspace \<Rightarrow> path \<Rightarrow> path \<Rightarrow>
     ('s, directory_output) dir" where
  "ds_move_to mv self old_path new_path =
     dir_bind (dir_lift (ds_partition_subpath self old_path None)) (\<lambda>old.
     dir_bind (dir_lift (ds_partition_subpath self new_path None)) (\<lambda>new.
       mv (ds_directory_layer self) old new))"

definition dp_move_to ::
    "(directory_layer \<Rightarrow> path \<Rightarrow> path \<Rightarrow> ('s, directory_output) dir) \<Rightarrow> directory_partition \<Rightarrow> path \<Rightarrow> path \<Rightarrow>
     ('s, directory_output) dir" where
  "dp_move_to mv self old_path new_path = ds_move_to mv (dp_subspace self) old_path new_path"

definition output_move_to ::
    "(directory_layer \<Rightarrow> path \<Rightarrow> path \<Rightarrow> ('s, directory_output) dir) \<Rightarrow> directory_output \<Rightarrow> path \<Rightarrow> path \<Rightarrow>
     ('s, directory_output) dir" where
  "output_move_to mv self old_path new_path =
     (case self of
        DirectorySubspace d \<Rightarrow> ds_move_to mv d old_path new_path
      | DirectoryPartition d \<Rightarrow> dp_move_to mv d old_path new_path)"

lemma output_move_to_cong [fundef_cong]:
  assumes "self = self'" and "old = old'" and "new = new'" and "trx = trx'"
    and "\<And>d o1 n1 t. self' = DirectorySubspace d \<or> (\<exists>p. self' = DirectoryPartition p \<and> d = dp_subspace p) \<Longrightarrow>
      ds_partition_subpath d old' None = Inr o1 \<Longrightarrow> ds_partition_subpath d new' None = Inr n1 \<Longrightarrow>
      mv (ds_directory_layer d) o1 n1 t = mv' (ds_directory_layer d) o1 n1 t"
  shows "output_move_to mv self old new trx = output_move_to mv' self' old' new' trx'"
  unfolding assms(1-4) using assms(5)
  by (auto simp: output_move_to_def ds_move_to_def dp_move_to_def dir_lift_Inr
      split: directory_output.split intro!: dir_bind_cong)

definition remove_from_parent :: "'s dir_env \<Rightarrow> directory_layer \<Rightarrow> path \<Rightarrow> ('s, unit) dir" where
  "remove_from_parent env self path =
     (if path = [] then dir_fail BadDestinationDirectory
      else dir_bind (dir_read (dir_find env self (butlast path))) (\<lambda>found.
        case found of
          None \<Rightarrow> dir_ok ()
        | Some parent_node \<Rightarrow>
            dir_write (kv_clear (dir_kv env) (child_key (node_sub parent_node) (last path)))))"

lemma partition_move_shorter:
  assumes "dir_find env self path trx = Inr (Some node)" and "is_in_partition node False"
    and "dir_find env self path' trx = Inr (Some node')" and "is_in_partition node' False"
    and "get_contents node' = Inr contents" and "current_path node = current_path node'"
    and "contents = DirectorySubspace d \<or> (\<exists>p. contents = DirectoryPartition p \<and> d = dp_subspace p)"
    and "ds_partition_subpath d (node_subpath node) None = Inr sub"
  shows "length sub < length path"
proof -
  have layer: "node_layer node' = PARTITION_LAYER" using assms(4) by (simp add: is_in_partition_def)
  obtain p where "contents = DirectoryPartition (dp_new
      (to_absolute_path (node_directory_layer node') (current_path node')) p (node_directory_layer node'))"
    by (rule get_contents_partition [OF assms(5) layer])
  with assms(7,8) have "sub = node_subpath node"
    by (auto simp: ds_partition_subpath_def)
  moreover have "path \<noteq> []" using assms(2) dir_find_path(1) [OF assms(1)] by (auto simp: is_in_partition_def)
  ultimately show ?thesis using dir_find_path(2) [OF assms(1)] by simp
qed

function move_to_internal :: "'s dir_env \<Rightarrow> directory_layer \<Rightarrow> path \<Rightarrow> path \<Rightarrow> ('s, directory_output) dir" where
  "move_to_internal env self old_path new_path trx =
     dir_bind (check_version env self True) (\<lambda>_ trx.
       if length old_path \<le> length new_path \<and>
          compare_slice old_path (take (length old_path) new_path) = Equal
       then dir_fail CannotMoveBetweenSubdirectory trx
       else dir_bind (dir_read (dir_find env self old_path)) (\<lambda>old_node.
            dir_bind (dir_read (dir_find env self new_path)) (\<lambda>new_node trx.
              case old_node of
                None \<Rightarrow> dir_fail PathDoesNotExists trx
              | Some old_node \<Rightarrow>
                  let old_in = is_in_partition old_node False
                  in case new_node of
                       Some new_node \<Rightarrow>
                         let new_in = is_in_partition new_node False
                         in if old_in \<or> new_in
                            then if \<not> old_in \<or> \<not> new_in \<or> current_path old_node \<noteq> current_path new_node
                                 then dir_fail CannotMoveBetweenPartition trx
                                 else dir_bind (dir_lift (get_contents new_node)) (\<lambda>contents.
                                   output_move_to (\<lambda>layer old new trx. move_to_internal env layer old new trx)
                                     contents (node_subpath old_node) (node_subpath new_node)) trx
                            else dir_fail DirAlreadyExists trx
                     | None \<Rightarrow>
                         if old_in then dir_fail CannotMoveBetweenPartition trx
                         else if new_path = [] then dir_fail DirAlreadyExists trx
                         else
                           dir_bind (dir_read (\<lambda>trx. bind_result (dir_find env self (butlast new_path) trx)
                             (ok_or ParentDirDoesNotExists))) (\<lambda>parent_node.
                           dir_bind (dir_lift (map_err DirPack (subspace_unpack unpack_bytes
                             (node_subspace self) (prefix (node_sub old_node))))) (\<lambda>v.
                           dir_bind (dir_write (kv_set (dir_kv env)
                             (child_key (node_sub parent_node) (last new_path)) v)) (\<lambda>_.
                           dir_bind (remove_from_parent env self old_path) (\<lambda>_.
                             dir_lift (contents_of_node self (node_sub old_node) new_path
                               (node_layer old_node)))))) trx)) trx) trx"
  by pat_completeness auto

termination
  by (relation "measure (\<lambda>(_, _, path, _). length path)")
    (simp, clarsimp simp: dir_read_Inr dir_lift_Inr, rule partition_move_shorter)

section \<open>Removing\<close>

text \<open>
  \<^verbatim>\<open>remove_recursive\<close> and its loop over the stream of children, whose batches are read as
  they are needed: \<open>items\<close> is what is left of the last batch and \<open>maybe_opt\<close> what to read next.
  The fuel counts nested calls and turns of the loop.
\<close>

fun remove_recursive :: "nat \<Rightarrow> 's dir_env \<Rightarrow> directory_layer \<Rightarrow> subspace \<Rightarrow> ('s, unit) dir"
  and remove_children ::
    "nat \<Rightarrow> 's dir_env \<Rightarrow> directory_layer \<Rightarrow> nat \<Rightarrow> range_option option \<Rightarrow> (bytes \<times> bytes) list \<Rightarrow> ('s, unit) dir"
where
  "remove_recursive 0 env self sub trx = None"
| "remove_recursive (Suc fuel) env self sub trx =
     (let sub_dir = sub_dirs sub;
          range_option = range_of_subspace sub_dir
      in dir_bind (remove_children fuel env self 1 (Some range_option) []) (\<lambda>_.
         dir_bind (dir_lift (map_err DirPack (subspace_unpack unpack_bytes (node_subspace self) (prefix sub))))
           (\<lambda>node_prefix.
         dir_bind (dir_write (kv_clear_range (dir_kv env) node_prefix (strinc node_prefix))) (\<lambda>_.
           dir_write (clear_subspace_range (dir_kv env) sub)))) trx)"
| "remove_children 0 env self iteration maybe_opt items trx = None"
| "remove_children (Suc fuel) env self iteration maybe_opt (row # items) trx =
     (let sub_node = node_with_prefix self (snd row)
      in dir_bind (remove_recursive fuel env self sub_node) (\<lambda>_.
           remove_children fuel env self iteration maybe_opt items) trx)"
| "remove_children (Suc fuel) env self iteration maybe_opt [] trx =
     (case maybe_opt of
        None \<Rightarrow> dir_ok () trx
      | Some opt \<Rightarrow>
          (case kv_get_range (dir_kv env) trx opt iteration of
             Inl e \<Rightarrow> dir_fail (DirFdb e) trx
           | Inr page \<Rightarrow> remove_children fuel env self (iteration + 1) (next_range opt page) (fst page) trx))"

function remove_internal :: "nat \<Rightarrow> 's dir_env \<Rightarrow> directory_layer \<Rightarrow> path \<Rightarrow> bool \<Rightarrow> ('s, bool) dir" where
  "remove_internal fuel env self path fail_on_nonexistent trx =
     dir_bind (check_version env self True) (\<lambda>_ trx.
       if path = [] then dir_fail CannotModifyRootDirectory trx
       else dir_bind (dir_read (dir_find env self path)) (\<lambda>found trx.
         case found of
           None \<Rightarrow> if fail_on_nonexistent then dir_fail DirectoryDoesNotExists trx else dir_ok False trx
         | Some node \<Rightarrow>
             if is_in_partition node False
             then dir_bind (dir_lift (get_contents node)) (\<lambda>contents trx.
                    case contents of
                      DirectorySubspace _ \<Rightarrow> dir_panic trx
                    | DirectoryPartition d \<Rightarrow>
                        remove_internal fuel env (ds_directory_layer (dp_subspace d)) (node_subpath node)
                          fail_on_nonexistent trx) trx
             else dir_bind (remove_recursive fuel env self (node_sub node)) (\<lambda>_.
                  dir_bind (remove_from_parent env self path) (\<lambda>_. dir_ok True)) trx) trx) trx"
  by pat_completeness auto

termination
  by (relation "measure (\<lambda>(_, _, _, path, _). length path)") (auto simp: dir_read_Inr dest: dir_find_path(2))

declare create_or_open_internal.simps [simp del] create_internal.simps [simp del]
  get_parent_node.simps [simp del] exists_internal.simps [simp del] move_to_internal.simps [simp del]
  remove_internal.simps [simp del] remove_recursive.simps [simp del] remove_children.simps [simp del]

section \<open>The trait \<open>Directory\<close>\<close>

text \<open>\<^verbatim>\<open>DirectoryLayer\<close>.\<close>

definition dl_create_or_open :: "'s dir_env \<Rightarrow> directory_layer \<Rightarrow> path \<Rightarrow> bytes option \<Rightarrow> bytes option \<Rightarrow> ('s, directory_output) dir" where
  "dl_create_or_open env self path p layer = create_or_open_internal env self path p layer True True"

definition dl_create :: "'s dir_env \<Rightarrow> directory_layer \<Rightarrow> path \<Rightarrow> bytes option \<Rightarrow> bytes option \<Rightarrow> ('s, directory_output) dir" where
  "dl_create env self path p layer = create_or_open_internal env self path p layer True False"

definition dl_open :: "'s dir_env \<Rightarrow> directory_layer \<Rightarrow> path \<Rightarrow> bytes option \<Rightarrow> ('s, directory_output) dir" where
  "dl_open env self path layer = create_or_open_internal env self path None layer False True"

definition dl_exists :: "'s dir_env \<Rightarrow> directory_layer \<Rightarrow> path \<Rightarrow> ('s, bool) dir" where
  "dl_exists env self path = exists_internal env self path"

definition dl_move_directory :: "'s dir_env \<Rightarrow> directory_layer \<Rightarrow> path \<Rightarrow> ('s, directory_output) dir" where
  "dl_move_directory env self new_path = dir_fail CannotMoveRootDirectory"

definition dl_move_to :: "'s dir_env \<Rightarrow> directory_layer \<Rightarrow> path \<Rightarrow> path \<Rightarrow> ('s, directory_output) dir" where
  "dl_move_to env self old_path new_path = move_to_internal env self old_path new_path"

definition dl_remove :: "nat \<Rightarrow> 's dir_env \<Rightarrow> directory_layer \<Rightarrow> path \<Rightarrow> ('s, bool) dir" where
  "dl_remove fuel env self path = remove_internal fuel env self path True"

definition dl_remove_if_exists :: "nat \<Rightarrow> 's dir_env \<Rightarrow> directory_layer \<Rightarrow> path \<Rightarrow> ('s, bool) dir" where
  "dl_remove_if_exists fuel env self path = remove_internal fuel env self path False"

definition dl_list :: "'s dir_env \<Rightarrow> directory_layer \<Rightarrow> path \<Rightarrow> ('s, path) dir" where
  "dl_list env self path = list_internal env self path"

text \<open>\<^verbatim>\<open>DirectorySubspace\<close>.  A move must stay under the path of the layer.\<close>

fun check_path_prefix :: "path \<Rightarrow> path \<Rightarrow> directory_error + unit" where
  "check_path_prefix [] new_path = Inr ()"
| "check_path_prefix (path # paths) [] = Inl CannotMoveBetweenPartition"
| "check_path_prefix (path # paths) (new_path_item # new_path) =
     (if new_path_item \<noteq> path then Inl CannotMoveBetweenPartition else check_path_prefix paths new_path)"

definition directory_layer_for_path :: "directory_subspace \<Rightarrow> path \<Rightarrow> directory_layer" where
  "directory_layer_for_path self _ = ds_directory_layer self"

definition ds_create_or_open :: "'s dir_env \<Rightarrow> directory_subspace \<Rightarrow> path \<Rightarrow> bytes option \<Rightarrow> bytes option \<Rightarrow> ('s, directory_output) dir" where
  "ds_create_or_open env self path p layer = 
     dir_bind (dir_lift (ds_partition_subpath self path None)) (\<lambda>sub.
       dl_create_or_open env (ds_directory_layer self) sub p layer)"

definition ds_create :: "'s dir_env \<Rightarrow> directory_subspace \<Rightarrow> path \<Rightarrow> bytes option \<Rightarrow> bytes option \<Rightarrow> ('s, directory_output) dir" where
  "ds_create env self path p layer = 
     dir_bind (dir_lift (ds_partition_subpath self path None)) (\<lambda>sub.
       dl_create env (ds_directory_layer self) sub p layer)"

definition ds_open :: "'s dir_env \<Rightarrow> directory_subspace \<Rightarrow> path \<Rightarrow> bytes option \<Rightarrow> ('s, directory_output) dir" where
  "ds_open env self path layer = 
     dir_bind (dir_lift (ds_partition_subpath self path None)) (\<lambda>sub.
       dl_open env (ds_directory_layer self) sub layer)"

definition ds_move_directory :: "'s dir_env \<Rightarrow> directory_subspace \<Rightarrow> path \<Rightarrow> ('s, directory_output) dir" where
  "ds_move_directory env self new_path = 
     (let directory_layer = directory_layer_for_path self [];
          directory_layer_path = dl_path directory_layer
      in if length directory_layer_path > length new_path then dir_fail CannotMoveBetweenPartition
         else dir_bind (dir_lift (check_path_prefix directory_layer_path new_path)) (\<lambda>_.
           let new_relative_path = drop (length directory_layer_path) new_path
           in dir_bind (dir_lift (ds_partition_subpath self [] (Some directory_layer))) (\<lambda>sub.
                dl_move_to env directory_layer sub new_relative_path)))"

definition ds_remove :: "nat \<Rightarrow> 's dir_env \<Rightarrow> directory_subspace \<Rightarrow> path \<Rightarrow> ('s, bool) dir" where
  "ds_remove fuel env self path = 
     (let directory_layer = directory_layer_for_path self path
      in dir_bind (dir_lift (ds_partition_subpath self path (Some directory_layer))) (\<lambda>sub.
           dl_remove fuel env directory_layer sub))"

definition ds_remove_if_exists :: "nat \<Rightarrow> 's dir_env \<Rightarrow> directory_subspace \<Rightarrow> path \<Rightarrow> ('s, bool) dir" where
  "ds_remove_if_exists fuel env self path = 
     (let directory_layer = directory_layer_for_path self path
      in dir_bind (dir_lift (ds_partition_subpath self path (Some directory_layer))) (\<lambda>sub.
           dl_remove_if_exists fuel env directory_layer sub))"

definition ds_list :: "'s dir_env \<Rightarrow> directory_subspace \<Rightarrow> path \<Rightarrow> ('s, path) dir" where
  "ds_list env self path = 
     dir_bind (dir_lift (ds_partition_subpath self path None)) (\<lambda>sub.
       dl_list env (ds_directory_layer self) sub)"

text \<open>\<^verbatim>\<open>DirectoryPartition\<close>: the partition itself belongs to the parent layer.\<close>

definition dp_create_or_open :: "'s dir_env \<Rightarrow> directory_partition \<Rightarrow> path \<Rightarrow> bytes option \<Rightarrow> bytes option \<Rightarrow> ('s, directory_output) dir" where
  "dp_create_or_open env self path p layer = 
     ds_create_or_open env (dp_subspace self) path p layer"

definition dp_create :: "'s dir_env \<Rightarrow> directory_partition \<Rightarrow> path \<Rightarrow> bytes option \<Rightarrow> bytes option \<Rightarrow> ('s, directory_output) dir" where
  "dp_create env self path p layer = 
     ds_create env (dp_subspace self) path p layer"

definition dp_open :: "'s dir_env \<Rightarrow> directory_partition \<Rightarrow> path \<Rightarrow> bytes option \<Rightarrow> ('s, directory_output) dir" where
  "dp_open env self path layer = 
     ds_open env (dp_subspace self) path layer"

definition dp_move_directory :: "'s dir_env \<Rightarrow> directory_partition \<Rightarrow> path \<Rightarrow> ('s, directory_output) dir" where
  "dp_move_directory env self new_path = 
     (let directory_layer = dp_layer_for_path self [];
          directory_layer_path = dl_path directory_layer
      in if length directory_layer_path > length new_path then dir_fail CannotMoveBetweenPartition
         else dir_bind (dir_lift (check_path_prefix directory_layer_path new_path)) (\<lambda>_.
           let new_relative_path = drop (length directory_layer_path) new_path
           in dir_bind (dir_lift (dp_partition_subpath self [] (Some directory_layer))) (\<lambda>sub.
                dl_move_to env directory_layer sub new_relative_path)))"

definition dp_remove :: "nat \<Rightarrow> 's dir_env \<Rightarrow> directory_partition \<Rightarrow> path \<Rightarrow> ('s, bool) dir" where
  "dp_remove fuel env self path = 
     (let directory_layer = dp_layer_for_path self path
      in dir_bind (dir_lift (dp_partition_subpath self path (Some directory_layer))) (\<lambda>sub.
           dl_remove fuel env directory_layer sub))"

definition dp_remove_if_exists :: "nat \<Rightarrow> 's dir_env \<Rightarrow> directory_partition \<Rightarrow> path \<Rightarrow> ('s, bool) dir" where
  "dp_remove_if_exists fuel env self path = 
     (let directory_layer = dp_layer_for_path self path
      in dir_bind (dir_lift (dp_partition_subpath self path (Some directory_layer))) (\<lambda>sub.
           dl_remove_if_exists fuel env directory_layer sub))"

definition dp_list :: "'s dir_env \<Rightarrow> directory_partition \<Rightarrow> path \<Rightarrow> ('s, path) dir" where
  "dp_list env self path = 
     ds_list env (dp_subspace self) path"

text \<open>\<^verbatim>\<open>DirectoryOutput\<close>.\<close>

definition output_create_or_open :: "'s dir_env \<Rightarrow> directory_output \<Rightarrow> path \<Rightarrow> bytes option \<Rightarrow> bytes option \<Rightarrow> ('s, directory_output) dir" where
  "output_create_or_open env self path p layer = 
     (case self of
        DirectorySubspace d \<Rightarrow> ds_create_or_open env d path p layer
      | DirectoryPartition d \<Rightarrow> dp_create_or_open env d path p layer)"

definition output_create :: "'s dir_env \<Rightarrow> directory_output \<Rightarrow> path \<Rightarrow> bytes option \<Rightarrow> bytes option \<Rightarrow> ('s, directory_output) dir" where
  "output_create env self path p layer = 
     (case self of
        DirectorySubspace d \<Rightarrow> ds_create env d path p layer
      | DirectoryPartition d \<Rightarrow> dp_create env d path p layer)"

definition output_open :: "'s dir_env \<Rightarrow> directory_output \<Rightarrow> path \<Rightarrow> bytes option \<Rightarrow> ('s, directory_output) dir" where
  "output_open env self path layer = 
     (case self of
        DirectorySubspace d \<Rightarrow> ds_open env d path layer
      | DirectoryPartition d \<Rightarrow> dp_open env d path layer)"

definition output_move_directory :: "'s dir_env \<Rightarrow> directory_output \<Rightarrow> path \<Rightarrow> ('s, directory_output) dir" where
  "output_move_directory env self new_path = 
     (case self of
        DirectorySubspace d \<Rightarrow> ds_move_directory env d new_path
      | DirectoryPartition d \<Rightarrow> dp_move_directory env d new_path)"

definition output_remove :: "nat \<Rightarrow> 's dir_env \<Rightarrow> directory_output \<Rightarrow> path \<Rightarrow> ('s, bool) dir" where
  "output_remove fuel env self path = 
     (case self of
        DirectorySubspace d \<Rightarrow> ds_remove fuel env d path
      | DirectoryPartition d \<Rightarrow> dp_remove fuel env d path)"

definition output_remove_if_exists :: "nat \<Rightarrow> 's dir_env \<Rightarrow> directory_output \<Rightarrow> path \<Rightarrow> ('s, bool) dir" where
  "output_remove_if_exists fuel env self path = 
     (case self of
        DirectorySubspace d \<Rightarrow> ds_remove_if_exists fuel env d path
      | DirectoryPartition d \<Rightarrow> dp_remove_if_exists fuel env d path)"

definition output_list :: "'s dir_env \<Rightarrow> directory_output \<Rightarrow> path \<Rightarrow> ('s, path) dir" where
  "output_list env self path = 
     (case self of
        DirectorySubspace d \<Rightarrow> ds_list env d path
      | DirectoryPartition d \<Rightarrow> dp_list env d path)"

definition output_subspace :: "'a packer \<Rightarrow> directory_output \<Rightarrow> 'a \<Rightarrow> directory_error + subspace option" where
  "output_subspace pack self t =
     (case self of
        DirectorySubspace d \<Rightarrow> Inr (subspace pack (ds_subspace d) t)
      | DirectoryPartition _ \<Rightarrow> Inl CannotOpenDirectoryPartition)"

definition output_pack :: "'a packer \<Rightarrow> directory_output \<Rightarrow> 'a \<Rightarrow> directory_error + bytes option" where
  "output_pack pack self t =
     (case self of
        DirectorySubspace d \<Rightarrow> Inr (subspace_pack pack (ds_subspace d) t)
      | DirectoryPartition _ \<Rightarrow> Inl CannotPackDirectoryPartition)"

definition output_unpack ::
    "'a unpacker \<Rightarrow> directory_output \<Rightarrow> bytes \<Rightarrow> directory_error + (pack_error + 'a)" where
  "output_unpack unpack self key =
     (case self of
        DirectorySubspace d \<Rightarrow> Inr (subspace_unpack unpack (ds_subspace d) key)
      | DirectoryPartition _ \<Rightarrow> Inl CannotPackDirectoryPartition)"

definition output_range :: "directory_output \<Rightarrow> directory_error + bytes \<times> bytes" where
  "output_range self =
     (case self of
        DirectorySubspace d \<Rightarrow> Inr (subspace_range (ds_subspace d))
      | DirectoryPartition _ \<Rightarrow> Inl CannotRangeDirectoryPartition)"

definition output_path :: "directory_output \<Rightarrow> path" where
  "output_path self =
     (case self of DirectorySubspace d \<Rightarrow> ds_path d | DirectoryPartition d \<Rightarrow> ds_path (dp_subspace d))"

definition output_layer :: "directory_output \<Rightarrow> bytes" where
  "output_layer self =
     (case self of DirectorySubspace d \<Rightarrow> ds_layer d | DirectoryPartition d \<Rightarrow> PARTITION_LAYER)"

end
