(* ===== verification/Directory_Keys.thy ===== *)
theory Directory_Keys
  imports Directory_Operations
begin

text \<open>
  The keys of the directory layer: the first key past a prefix, the node of a prefix, and the keys
  of its children, its layer and the version, which differ from one another.
\<close>

section \<open>Results of operations\<close>

lemma dir_bind_Inr: "dir_bind m f trx = Some (Inr (b, t)) \<longleftrightarrow>
    (\<exists>a t'. m trx = Some (Inr (a, t')) \<and> f a t' = Some (Inr (b, t)))"
  by (auto simp: dir_bind_def split: option.splits sum.splits)

lemma dir_ok_Inr: "dir_ok a trx = Some (Inr (b, t)) \<longleftrightarrow> b = a \<and> t = trx"
  by (auto simp: dir_ok_def)

lemma dir_write_Inr: "dir_write f trx = Some (Inr (u, t)) \<longleftrightarrow> t = f trx"
  by (auto simp: dir_write_def)

lemma dir_stop [simp]:
  "dir_fail e trx \<noteq> Some (Inr r)" "dir_panic trx \<noteq> Some (Inr r)"
  by (simp_all add: dir_fail_def dir_panic_def)

lemmas dir_Inr = dir_bind_Inr dir_ok_Inr dir_write_Inr dir_lift_Inr dir_read_Inr

section \<open>The first key past a prefix\<close>

lemma strinc_loop_snoc:
  "strinc_loop (Suc (length p)) (p @ [b]) = (if b \<noteq> 0xff then p @ [b + 1] else strinc_loop (length p) p)"
  by (simp add: nth_append list_update_append)

lemma strinc_simps [simp]:
  "strinc [] = []"
  "strinc (p @ [b]) = (if b \<noteq> 0xff then p @ [b + 1] else strinc p)"
  by (simp_all add: strinc_def strinc_loop_snoc del: strinc_loop.simps(2))

lemma strinc_empty_iff: "strinc p = [] \<longleftrightarrow> (\<forall>b \<in> set p. b = 0xff)"
  by (induction p rule: rev_induct) auto

lemma length_strinc: "length (strinc p) \<le> length p"
  by (induction p rule: rev_induct) auto

lemma le_append_cancel [simp]:
  fixes xs ys zs :: "'a::linorder list"
  shows "xs @ ys \<le> xs @ zs \<longleftrightarrow> ys \<le> zs"
  by (simp add: not_less [symmetric])

lemma single_le: "[b] \<le> r \<longleftrightarrow> (\<exists>c rest. r = c # rest \<and> (b :: 'a::linorder) \<le> c)"
  by (cases r) (auto simp: not_less [symmetric])

lemma less_single: "r < [b] \<longleftrightarrow> r = [] \<or> (\<exists>c rest. r = c # rest \<and> (c :: 'a::linorder) < b)"
  by (cases r) auto

lemma byte_plus_one: "b \<noteq> (0xff :: byte) \<Longrightarrow> c < b + 1 \<longleftrightarrow> c \<le> b"
proof -
  assume "b \<noteq> 0xff"
  then have "unat b < 255" using byte_less_ff [of b] by (simp add: word_less_nat_alt)
  then have "unat (b + 1) = unat b + 1" by (simp add: unat_word_ariths)
  then show ?thesis by (auto simp: word_less_nat_alt word_le_nat_alt)
qed

lemma between_appended: "p @ u \<le> k \<Longrightarrow> k < p @ v \<Longrightarrow> \<exists>r. k = p @ r \<and> u \<le> r \<and> r < v"
  for p :: "'a::linorder list"
proof (induction p arbitrary: k)
  case (Cons a p)
  then obtain b k' where k: "k = b # k'" by (cases k) auto
  with Cons.prems have "b = a" by (auto simp: not_less [symmetric])
  with Cons k show ?case by (auto simp: not_less [symmetric])
qed simp

lemma strinc_range:
  assumes "strinc p \<noteq> []"
  shows "p \<le> k \<and> k < strinc p \<longleftrightarrow> starts_with k p"
  using assms
proof (induction p arbitrary: k rule: rev_induct)
  case (snoc b p)
  show ?case
  proof (cases "b = 0xff")
    case False
    have "p @ [b] \<le> k \<and> k < p @ [b + 1] \<longleftrightarrow> (\<exists>r. k = p @ b # r)"
    proof
      assume "p @ [b] \<le> k \<and> k < p @ [b + 1]"
      then obtain r where "k = p @ r" "[b] \<le> r" "r < [b + 1]"
        using between_appended by blast
      then show "\<exists>r. k = p @ b # r"
        using byte_plus_one [OF False] by (auto simp: single_le less_single)
    next
      assume "\<exists>r. k = p @ b # r"
      then show "p @ [b] \<le> k \<and> k < p @ [b + 1]"
        using byte_plus_one [OF False, of b] by (auto simp: single_le)
    qed
    with False show ?thesis by (auto simp: starts_with_append)
  next
    case True
    with snoc have IH: "p \<le> k \<and> k < strinc p \<longleftrightarrow> (\<exists>r. k = p @ r)"
      by (simp add: starts_with_append)
    have "p @ [b] \<le> k \<and> k < strinc p \<longleftrightarrow> (\<exists>r. k = p @ b # r)"
    proof
      assume range: "p @ [b] \<le> k \<and> k < strinc p"
      moreover have "p \<le> p @ [b]" by (simp add: not_less [symmetric])
      ultimately have "p \<le> k" by (meson order_trans)
      with range IH obtain r where r: "k = p @ r" by blast
      with range have "[b] \<le> r" by simp
      then obtain c rest where "r = c # rest" "0xff \<le> c" using True by (auto simp: single_le)
      moreover then have "c = 0xff" using byte_less_ff [of c] by (auto simp: not_less [symmetric])
      ultimately show "\<exists>r. k = p @ b # r" using r True by simp
    next
      assume "\<exists>r. k = p @ b # r"
      then show "p @ [b] \<le> k \<and> k < strinc p"
        using IH by (auto simp: single_le)
    qed
    with True show ?thesis by (auto simp: starts_with_append)
  qed
qed simp

section \<open>Encodings\<close>

definition short :: "bytes \<Rightarrow> bool" where
  "short p \<longleftrightarrow> length p < 2 ^ 32"

definition bytes_enc :: "bytes \<Rightarrow> bytes" where
  "bytes_enc p = BYTES # escape p @ [NIL]"

definition str_enc :: "bytes \<Rightarrow> bytes" where
  "str_enc p = STRING # escape p @ [NIL]"

lemma pack_bytes_short: "short p \<Longrightarrow> pack_bytes d p = Inr (bytes_enc p, VNone (of_nat (length (bytes_enc p))))"
  by (simp add: pack_bytes_eq short_def bytes_enc_def)

lemma prefix_sub_bytes: "short p \<Longrightarrow> prefix (sub_bytes s p) = prefix s @ bytes_enc p"
  by (simp add: sub_bytes_def subspace_def pack_into_vec_def pack_bytes_short)

lemma pack_in_eq: "short p \<Longrightarrow> pack_in s p = prefix s @ bytes_enc p"
  by (simp add: pack_in_def subspace_pack_def pack_into_vec_def pack_bytes_short)

lemma prefix_node: "short p \<Longrightarrow> prefix (node_with_prefix self p) = prefix (node_subspace self) @ bytes_enc p"
  by (simp add: node_with_prefix_def prefix_sub_bytes)

lemma sub_dirs_enc: "int_enc (sint DEFAULT_SUB_DIRS) = [INTZERO]"
  by (simp add: DEFAULT_SUB_DIRS_def int_enc_def int_head_def int_len_def byte_len_def MAX_SZ_def)

lemma prefix_sub_dirs: "prefix (sub_dirs s) = prefix s @ [INTZERO]"
  by (simp add: sub_dirs_def subspace_ix sub_dirs_enc)

lemma child_key_eq: "short name \<Longrightarrow> child_key s name = prefix s @ INTZERO # str_enc name"
  using sub_dirs_enc
  by (simp add: child_key_def subspace_def pack_into_vec_def pack_tuple_def pack_int_eval
      pack_str_eq short_def str_enc_def)

lemma enc_inject:
  assumes "no_escape us" and "no_escape vs"
  shows "bytes_enc u @ us = bytes_enc v @ vs \<longleftrightarrow> u = v \<and> us = vs"
    and "str_enc u @ us = str_enc v @ vs \<longleftrightarrow> u = v \<and> us = vs"
proof -
  have "escape u @ NIL # us = escape v @ NIL # vs \<longleftrightarrow> u = v \<and> us = vs"
    using unescape_escape [OF assms(1), of u] unescape_escape [OF assms(2), of v]
    by (metis Pair_inject sum.inject(2))
  then show "bytes_enc u @ us = bytes_enc v @ vs \<longleftrightarrow> u = v \<and> us = vs"
    and "str_enc u @ us = str_enc v @ vs \<longleftrightarrow> u = v \<and> us = vs"
    by (simp_all add: bytes_enc_def str_enc_def)
qed

lemma bytes_enc_less:
  assumes "u < v" and "no_escape us" and "no_escape vs"
  shows "bytes_enc u @ us < bytes_enc v @ vs"
  using escape_less [OF assms] by (simp add: bytes_enc_def)

section \<open>Nodes in use\<close>

abbreviation nodes_prefix :: "directory_layer \<Rightarrow> bytes" where
  "nodes_prefix self \<equiv> prefix (node_subspace self)"

definition wf_layer :: "directory_layer \<Rightarrow> bool" where
  "wf_layer self \<longleftrightarrow> short (nodes_prefix self) \<and>
     root_node self = node_with_prefix self (nodes_prefix self) \<and>
     allocator self = hca_new (sub_bytes (root_node self) DEFAULT_HCA_PREFIX)"

lemma wf_layer_new: "short (prefix nodes) \<Longrightarrow> wf_layer (dl_new nodes content manual)"
  by (simp add: wf_layer_def dl_new_def Let_def node_with_prefix_def)

lemma wf_layer_partition: "short (prefix nodes) \<Longrightarrow> wf_layer (dl_new_with_path nodes content manual path)"
  by (simp add: wf_layer_def dl_new_with_path_def Let_def node_with_prefix_def)

text \<open>A prefix is in use when its node has a key, and the keys of the node subspace are in nodes.\<close>

definition used :: "directory_layer \<Rightarrow> (bytes \<rightharpoonup> bytes) \<Rightarrow> bytes \<Rightarrow> bool" where
  "used self m p \<longleftrightarrow> short p \<and>
     (\<exists>rest. no_escape rest \<and> m (nodes_prefix self @ bytes_enc p @ rest) \<noteq> None)"

definition wf_nodes :: "directory_layer \<Rightarrow> (bytes \<rightharpoonup> bytes) \<Rightarrow> bool" where
  "wf_nodes self m \<longleftrightarrow>
     (\<forall>b r. m (nodes_prefix self @ b # r) \<noteq> None \<longrightarrow> b \<noteq> 0xff \<longrightarrow>
        (\<exists>p rest. short p \<and> no_escape rest \<and> b # r = bytes_enc p @ rest))"

definition prefix_free_nodes :: "directory_layer \<Rightarrow> (bytes \<rightharpoonup> bytes) \<Rightarrow> bool" where
  "prefix_free_nodes self m \<longleftrightarrow>
     (\<forall>p q. used self m p \<longrightarrow> used self m q \<longrightarrow> starts_with p q \<longrightarrow> p = q)"

lemma bytes_enc_le:
  assumes "no_escape us" and "no_escape vs"
  shows "bytes_enc u @ us < bytes_enc v @ vs \<longleftrightarrow> u < v \<or> u = v \<and> us < vs"
proof (cases u v rule: linorder_cases)
  case less
  then show ?thesis using bytes_enc_less [OF less assms] by simp
next
  case greater
  then show ?thesis using bytes_enc_less [OF greater assms(2,1)] by auto
qed simp

lemma node_keys_between:
  assumes "no_escape rest"
  shows "nodes_prefix self @ bytes_enc u \<le> nodes_prefix self @ bytes_enc q @ rest \<longleftrightarrow> u \<le> q"
    and "nodes_prefix self @ bytes_enc q @ rest < nodes_prefix self @ bytes_enc u \<longleftrightarrow> q < u"
  using bytes_enc_le [OF assms, of "[]" q u] bytes_enc_le [of "[]" rest u q] assms
  by (auto simp: not_less [symmetric])

text \<open>What the reader of elements finds first in the key of a node.\<close>

lemma first_element:
  assumes "unpack_elements_of s (prefix s @ bytes_enc p @ rest) = Some (Inr vs)" and "no_escape rest"
  shows "\<exists>es. vs = EBytes p # es"
proof -
  from assms(1) obtain input where "unpack_vec unpack_element 0 (bytes_enc p @ rest) = Some (Inr (input, vs))"
    by (auto simp: unpack_elements_of_def is_start_of_def starts_with_def bind_result_eq_Inr
        simp del: unpack_vec_element_root split: if_splits)
  then have "unpack_elements (Suc 0) False (bytes_enc p @ rest) = Inr (input, vs)"
    by (simp add: unpack_vec_element_root)
  moreover have "unpack_element (Suc 0) (bytes_enc p @ rest) = Inr (rest, EBytes p)"
    using unescape_escape [OF assms(2), of p]
    by (simp add: bytes_enc_def unpack_element_Suc unpack_bytes_def parse_slice_eq
        map_value_def parse_code_def)
  ultimately show ?thesis
    by (auto simp: bytes_enc_def bind_result_eq_Inr)
qed

section \<open>Reading one row\<close>

lemma rows_keys: "finite (dom m) \<Longrightarrow> fst ` set (rows m opt) = {k \<in> dom m. selected opt k}"
  by (auto simp: rows_def image_image)

lemma rows_value: "finite (dom m) \<Longrightarrow> (k, v) \<in> set (rows m opt) \<Longrightarrow> m k = Some v \<and> selected opt k"
  by (cases "rev_order opt") (auto simp: rows_def)

lemma rows_Nil: "finite (dom m) \<Longrightarrow> rows m opt = [] \<longleftrightarrow> (\<forall>k. m k \<noteq> None \<longrightarrow> \<not> selected opt k)"
proof -
  assume "finite (dom m)"
  then have "rows m opt = [] \<longleftrightarrow> {k \<in> dom m. selected opt k} = {}"
    by (cases "rev_order opt") (simp_all add: rows_def)
  then show ?thesis by auto
qed

lemma rows_last:
  assumes "finite (dom m)" and "rev_order opt" and "rows m opt = (k, v) # rest" and "m k' \<noteq> None" and "selected opt k'"
  shows "k' \<le> k"
proof -
  let ?A = "{k \<in> dom m. selected opt k}"
  obtain ks where "rev (sorted_list_of_set ?A) = k # ks"
    using assms(2,3) by (cases "rev (sorted_list_of_set ?A)") (auto simp: rows_def)
  from hd_rev_sorted_list(2) [OF _ this] assms(1,4,5) show ?thesis by auto
qed

locale dir_store = hca_store "dir_kv env" view "dir_ops env"
  for env :: "'s dir_env" and view :: "'s \<Rightarrow> bytes \<rightharpoonup> bytes"
begin

lemma dir_first_row:
  assumes "plain opt" and "limit opt = Some 1"
  shows "(\<exists>e. dir_first env opt trx = Some (Inl (DirFdb e))) \<or>
    dir_first env opt trx = Some (Inr (case rows (view trx) opt of [] \<Rightarrow> None | r # _ \<Rightarrow> Some r, trx))"
proof -
  from get_ranges_keyvalues_scan [OF assms(1)] obtain items where
    items: "get_ranges_keyvalues (dir_kv env) trx opt = Some items"
    "delivers (take 1 (rows (view trx) opt)) items"
    using assms(2) by (auto simp: scan_rows_def)
  show ?thesis
  proof (cases "rows (view trx) opt")
    case Nil
    with items show ?thesis by (auto simp: dir_first_def delivers_def)
  next
    case (Cons r rs)
    with items(2) have "items = [Inr r] \<or> (\<exists>n e. items = map Inr (take n [r]) @ [Inl e])"
      by (simp add: delivers_def)
    then consider "items = [Inr r]" | e where "items = [Inl e]" | e where "items = [Inr r, Inl e]"
      by (auto simp: take_Cons split: nat.splits) (metis gr0_implies_Suc)
    then show ?thesis using items(1) Cons by cases (auto simp: dir_first_def)
  qed
qed
text \<open>The scans that look for comparable prefixes.\<close>

lemma selected_keys:
  "selected ((range_from_keys (lo, hi))\<lparr>limit := l\<rparr>) k \<longleftrightarrow> lo \<le> k \<and> k < hi"
  "selected ((range_from_keys (lo, hi))\<lparr>rev_order := d, limit := l\<rparr>) k \<longleftrightarrow> lo \<le> k \<and> k < hi"
  "plain ((range_from_keys (lo, hi))\<lparr>limit := l\<rparr>)"
  "plain ((range_from_keys (lo, hi))\<lparr>rev_order := d, limit := l\<rparr>)"
  by (auto simp: selected_def plain_def range_from_keys_def default_range_def
      first_greater_or_equal_def ks_new_def)

lemma node_key_of:
  assumes "wf_nodes self (view trx)" and "view trx k \<noteq> None"
    and "nodes_prefix self @ [0] \<le> k" and "k < nodes_prefix self @ bytes_enc p"
  obtains q rest where "k = nodes_prefix self @ bytes_enc q @ rest" and "no_escape rest" and "used self (view trx) q"
proof -
  from between_appended [OF assms(3,4)] obtain r where
    r: "k = nodes_prefix self @ r" "[0] \<le> r" "r < bytes_enc p" by blast
  then obtain b r' where b: "r = b # r'" by (auto simp: single_le)
  with r(3) have "b \<le> BYTES" by (auto simp: bytes_enc_def)
  then have "b \<noteq> 0xff" by (auto simp: code_defs word_le_nat_alt)
  with assms(1,2) r(1) b obtain q rest where
    "short q" "no_escape rest" "b # r' = bytes_enc q @ rest" unfolding wf_nodes_def by blast
  with assms(2) r(1) b that [of q rest] show thesis by (auto simp: used_def)
qed

lemma node_containing_key_iff:
  assumes wf: "wf_nodes self (view trx)" and pf: "prefix_free_nodes self (view trx)"
    and key: "short (key @ [0])" and ns: "used self (view trx) (nodes_prefix self)"
    and result: "node_containing_key env self key trx = Some (Inr (r, trx'))"
  shows "trx' = trx \<and> (r \<noteq> None \<longleftrightarrow> (\<exists>q. used self (view trx) q \<and> starts_with key q))"
proof (cases "starts_with key (nodes_prefix self)")
  case True
  with result ns show ?thesis by (auto simp: node_containing_key_def dir_ok_def)
next
  case False
  let ?lo = "nodes_prefix self @ [0]" and ?hi = "nodes_prefix self @ bytes_enc (key @ [0])"
  let ?opt = "(range_from_keys (?lo, ?hi))\<lparr>rev_order := True, limit := Some 1\<rparr>"
  have scan: "(\<exists>e. dir_first env ?opt trx = Some (Inl (DirFdb e))) \<or>
      dir_first env ?opt trx = Some (Inr (case rows (view trx) ?opt of [] \<Rightarrow> None | r # _ \<Rightarrow> Some r, trx))"
    by (rule dir_first_row) (simp_all add: selected_keys)
  have below: "\<exists>rest. view trx (nodes_prefix self @ bytes_enc q @ rest) \<noteq> None \<and> no_escape rest \<and>
      ?lo \<le> nodes_prefix self @ bytes_enc q @ rest \<and> nodes_prefix self @ bytes_enc q @ rest < ?hi"
    if "used self (view trx) q" "starts_with key q" for q
  proof -
    from that(1) obtain rest where rest: "no_escape rest" "view trx (nodes_prefix self @ bytes_enc q @ rest) \<noteq> None"
      by (auto simp: used_def)
    have "q < key @ [0]" using that(2) by (auto simp: starts_with_append)
    then have "nodes_prefix self @ bytes_enc q @ rest < ?hi"
      using bytes_enc_less [of q "key @ [0]" rest "[]"] rest(1) by simp
    moreover have "?lo \<le> nodes_prefix self @ bytes_enc q @ rest"
      by (simp add: bytes_enc_def single_le code_defs)
    ultimately show ?thesis using rest by blast
  qed
  show ?thesis
  proof (cases "rows (view trx) ?opt")
    case Nil
    then have "\<And>k. view trx k \<noteq> None \<Longrightarrow> \<not> (?lo \<le> k \<and> k < ?hi)"
      using rows_Nil [OF view_finite, of trx ?opt] by (simp add: selected_keys)
    with below have "\<not> (\<exists>q. used self (view trx) q \<and> starts_with key q)" by blast
    moreover have "r = None \<and> trx' = trx"
      using scan result False key Nil
      by (auto simp: node_containing_key_def pack_in_eq subspace_range_def dir_bind_def dir_ok_def Let_def)
    ultimately show ?thesis by blast
  next
    case (Cons row rest)
    obtain k v where row: "row = (k, v)" by (cases row)
    have found: "view trx k = Some v" "?lo \<le> k" "k < ?hi"
      using rows_value [OF view_finite, of k v trx ?opt] Cons row by (simp_all add: selected_keys)
    from node_key_of [OF wf _ found(2,3)] found(1) obtain q1 rest1 where
      k: "k = nodes_prefix self @ bytes_enc q1 @ rest1" "no_escape rest1" "used self (view trx) q1" by auto
    have eq: "node_containing_key env self key trx = Option.bind (unpack_elements_of (node_subspace self) k) (\<lambda>r.
        dir_lift (bind_result (map_err DirPack r) (\<lambda>vs. Inr (case first_bytes vs of
          Some p \<Rightarrow> if starts_with key p then Some (node_with_prefix self p) else None | None \<Rightarrow> None))) trx)"
      using scan result False key Cons row
      by (auto simp: node_containing_key_def pack_in_eq subspace_range_def dir_bind_def Let_def)
    with result obtain vs where vs: "unpack_elements_of (node_subspace self) k = Some (Inr vs)"
      and r: "(case first_bytes vs of Some p \<Rightarrow> if starts_with key p then Some (node_with_prefix self p) else None
        | None \<Rightarrow> None) = r" and trx': "trx' = trx"
      by (auto simp: bind_eq_Some_conv dir_lift_Inr bind_result_eq_Inr)
    from first_element [of "node_subspace self" q1 rest1] vs k obtain es where "vs = EBytes q1 # es" by auto
    with r have r_iff: "r \<noteq> None \<longleftrightarrow> starts_with key q1" by (auto split: if_splits)
    moreover have "starts_with key q1" if q: "used self (view trx) q" "starts_with key q" for q
    proof -
      from below [OF q] obtain rest0 where rest0: "no_escape rest0"
        "view trx (nodes_prefix self @ bytes_enc q @ rest0) \<noteq> None"
        "?lo \<le> nodes_prefix self @ bytes_enc q @ rest0" "nodes_prefix self @ bytes_enc q @ rest0 < ?hi" by blast
      have "nodes_prefix self @ bytes_enc q @ rest0 \<le> k"
        by (rule rows_last [OF view_finite, of ?opt]) (use Cons row rest0 in \<open>simp_all add: selected_keys\<close>)
      then have "q \<le> q1"
        using bytes_enc_less [of q1 q rest1 rest0] k(1,2) rest0(1) by (auto simp: not_less [symmetric])
      moreover have "q1 < key @ [0]"
        using found(3) k(1) node_keys_between(2) [OF k(2)] by blast
      moreover obtain t where "key = q @ t" using q(2) by (auto simp: starts_with_append)
      ultimately have "starts_with q1 q"
        using between_appended [of q "[]" q1 "t @ [0]"] by (auto simp: starts_with_append)
      with pf q(1) k(3) have "q1 = q" unfolding prefix_free_nodes_def by blast
      with q(2) show ?thesis by simp
    qed
    ultimately show ?thesis using k(3) trx' by blast
  qed
qed

lemma is_prefix_free_iff:
  assumes wf: "wf_nodes self (view trx)" and pf: "prefix_free_nodes self (view trx)"
    and p: "short (p @ [0])" "p \<noteq> [] \<longrightarrow> strinc p \<noteq> []" and ns: "used self (view trx) (nodes_prefix self)"
    and result: "is_prefix_free env self p trx = Some (Inr (b, trx'))"
  shows "trx' = trx \<and> (b \<longleftrightarrow> p \<noteq> [] \<and>
    (\<forall>q. used self (view trx) q \<longrightarrow> \<not> starts_with p q \<and> \<not> starts_with q p))"
proof (cases "p = []")
  case True
  with result show ?thesis by (simp add: is_prefix_free_def dir_ok_def)
next
  case False
  with result obtain r t where rt: "node_containing_key env self p trx = Some (Inr (r, t))"
    and at: "(if r \<noteq> None then dir_ok False t else
      dir_bind (dir_first env ((range_from_keys (pack_in (node_subspace self) p,
        pack_in (node_subspace self) (strinc p)))\<lparr>limit := Some 1\<rparr>)) (\<lambda>result. dir_ok (result = None)) t)
      = Some (Inr (b, trx'))"
    by (auto simp: is_prefix_free_def dir_bind_Inr Let_def split: if_splits)
  note containing = node_containing_key_iff [OF wf pf p(1) ns rt]
  then have t: "t = trx" by blast
  have rest: "(if r \<noteq> None then dir_ok False trx else
      dir_bind (dir_first env ((range_from_keys (pack_in (node_subspace self) p,
        pack_in (node_subspace self) (strinc p)))\<lparr>limit := Some 1\<rparr>)) (\<lambda>result. dir_ok (result = None)) trx)
      = Some (Inr (b, trx'))"
    using at unfolding t .
  show ?thesis
  proof (cases "r = None")
    case None: True
    let ?opt = "(range_from_keys (pack_in (node_subspace self) p,
        pack_in (node_subspace self) (strinc p)))\<lparr>limit := Some 1\<rparr>"
    have lens: "short p" "short (strinc p)"
      using p(1) length_strinc [of p] by (simp_all add: short_def)
    have scan: "(\<exists>e. dir_first env ?opt trx = Some (Inl (DirFdb e))) \<or>
        dir_first env ?opt trx = Some (Inr (case rows (view trx) ?opt of [] \<Rightarrow> None | r # _ \<Rightarrow> Some r, trx))"
      by (rule dir_first_row) (simp_all add: selected_keys)
    have b1: "trx' = trx" and "b \<longleftrightarrow> rows (view trx) ?opt = []"
      using scan rest None
      by (cases "rows (view trx) ?opt"; elim disjE exE; simp add: dir_bind_def dir_ok_def)+
    note this(2)
    also have "\<dots> \<longleftrightarrow> (\<forall>k. view trx k \<noteq> None \<longrightarrow>
        \<not> (nodes_prefix self @ bytes_enc p \<le> k \<and> k < nodes_prefix self @ bytes_enc (strinc p)))"
      unfolding rows_Nil [OF view_finite] using lens by (simp add: selected_keys pack_in_eq)
    also have "\<dots> \<longleftrightarrow> (\<forall>q. used self (view trx) q \<longrightarrow> \<not> starts_with q p)"
    proof (intro iffI allI impI notI)
      fix q
      assume none: "\<forall>k. view trx k \<noteq> None \<longrightarrow>
          \<not> (nodes_prefix self @ bytes_enc p \<le> k \<and> k < nodes_prefix self @ bytes_enc (strinc p))"
        and "used self (view trx) q" and q: "starts_with q p"
      then obtain rest0 where rest0: "no_escape rest0" "view trx (nodes_prefix self @ bytes_enc q @ rest0) \<noteq> None"
        by (auto simp: used_def)
      have "p \<le> q \<and> q < strinc p" using strinc_range [of p q] p(2) False q by blast
      with node_keys_between [OF rest0(1)] none rest0(2) show False by blast
    next
      fix k
      assume none: "\<forall>q. used self (view trx) q \<longrightarrow> \<not> starts_with q p" and "view trx k \<noteq> None"
        and k: "nodes_prefix self @ bytes_enc p \<le> k \<and> k < nodes_prefix self @ bytes_enc (strinc p)"
      have "nodes_prefix self @ [0] \<le> nodes_prefix self @ bytes_enc p"
        by (simp add: bytes_enc_def single_le code_defs)
      with k have "nodes_prefix self @ [0] \<le> k" by (meson order_trans)
      from node_key_of [OF wf \<open>view trx k \<noteq> None\<close> this, of "strinc p"] k obtain q rest0 where
        q: "k = nodes_prefix self @ bytes_enc q @ rest0" "no_escape rest0" "used self (view trx) q" by blast
      with k node_keys_between [OF q(2)] have "p \<le> q \<and> q < strinc p" by blast
      then have "starts_with q p" using strinc_range [of p q] p(2) False by blast
      with none q(3) show False by blast
    qed
    finally show ?thesis using b1 False containing None by blast
  next
    case Some: False
    with rest containing show ?thesis by (auto simp: dir_ok_def)
  qed
qed

end

section \<open>An in-memory client\<close>

definition mem_env :: "nat \<Rightarrow> (bytes \<times> bytes) list dir_env" where
  "mem_env n = \<lparr>dir_kv = mem_kv n, dir_ops = mem_ops, dir_draws = (\<lambda>_ i. i)\<rparr>"

lemma mem_dir_store: "dir_store (mem_env n) map_of"
  unfolding dir_store_def mem_env_def using mem_hca_store by simp

interpretation mem_dir: dir_store "mem_env n" map_of for n
  by (rule mem_dir_store)

lemma mem_dir_first:
  assumes "limit opt = Some 1"
  shows "dir_first (mem_env n) opt s = Some (Inr (case mem_rows s opt of [] \<Rightarrow> None | r # _ \<Rightarrow> Some r, s))"
proof -
  have page: "kv_get_range (mem_kv n) s opt i = Inr (take 1 (mem_rows s opt), 1 < length (mem_rows s opt))" for i
    using assms by (simp add: mem_kv_def mem_get_range_def Let_def)
  have none: "get_ranges (mem_kv n) s i None = Some []" for i by (simp add: get_ranges.simps)
  have stops: "next_range opt (take 1 (mem_rows s opt), more) = None" for more
    using assms by (cases "mem_rows s opt") (simp_all add: next_range_def)
  have "get_ranges (mem_kv n) s 1 (Some opt) = Some [Inr (take 1 (mem_rows s opt), 1 < length (mem_rows s opt))]"
    by (simp add: get_ranges.simps [of _ _ _ "Some opt"] page stops none del: One_nat_def)
  then show ?thesis
    by (cases "mem_rows s opt") (simp_all add: dir_first_def mem_env_def get_ranges_keyvalues_def)
qed

lemma mem_dir_get: "dir_get (mem_env n) key s = Inr (map_of s key)"
  by (simp add: dir_get_def mem_env_def mem_kv_def)

end
