(* ===== verification/Directory_State.thy ===== *)
theory Directory_State
  imports Directory_Keys
begin

text \<open>
  The stored directory tree: the map that a transaction sees is read as children and layers of
  prefixes, \<^verbatim>\<open>find\<close> walks that tree, and the invariant says that the prefixes in use are free of
  one another, that every child has a node, and that the allocator has recorded its values.
\<close>

section \<open>The allocator touches its own keys only\<close>

lemma hca_new_prefix:
  "prefix (counters (hca_new s)) = prefix s @ [0x14]" "prefix (recent (hca_new s)) = prefix s @ [0x15, 0x01]"
proof -
  have "int_enc (sint (0 :: u64)) = [0x14]" "int_enc (sint (1 :: u64)) = [0x15, 0x01]"
    by (simp_all add: int_enc_def int_head_def int_len_def byte_len_def MAX_SZ_def code_defs)
  then show "prefix (counters (hca_new s)) = prefix s @ [0x14]" "prefix (recent (hca_new s)) = prefix s @ [0x15, 0x01]"
    by (simp_all add: hca_new_def subspace_ix)
qed

lemma allocator_keys:
  "starts_with (counter_key (hca_new s) i) (prefix s)" "starts_with (recent_key (hca_new s) i) (prefix s)"
  by (auto simp: starts_with_append counter_key_eq recent_key_eq hca_new_prefix)

lemma between_starts: "p \<le> k \<Longrightarrow> k < p @ v \<Longrightarrow> starts_with k p"
  using between_appended [of p "[]" k v] by (auto simp: starts_with_append)

lemma starts_with_trans: "starts_with k (p @ q) \<Longrightarrow> starts_with k p"
  by (auto simp: starts_with_append)

lemma counted_frame:
  assumes "\<not> starts_with k (prefix s)"
  shows "counted (hca_new s) adv start m k = m k"
proof -
  let ?h = "hca_new s"
  have "\<not> (prefix (counters ?h) \<le> k \<and> k < counter_key ?h start)"
    "\<not> (prefix (recent ?h) \<le> k \<and> k < recent_key ?h start)"
    using assms between_starts starts_with_trans unfolding counter_key_eq recent_key_eq hca_new_prefix by blast+
  moreover have "k \<noteq> counter_key ?h start" using assms allocator_keys(1) by blast
  ultimately show ?thesis by (auto simp: counted_def advanced_def)
qed

text \<open>What the record of the allocator depends on.\<close>

lemma hca_inv_agree:
  assumes "\<And>k. starts_with k (prefix s) \<Longrightarrow> m' k = m k" and "hca_inv (hca_new s) m A"
  shows "hca_inv (hca_new s) m' A"
proof -
  let ?h = "hca_new s"
  have keys: "m' (counter_key ?h i) = m (counter_key ?h i)" "m' (recent_key ?h i) = m (recent_key ?h i)" for i
    using assms(1) allocator_keys by blast+
  then have started: "started ?h m' = started ?h m" by (simp add: started_def)
  then have "current ?h m' = current ?h m" by (simp add: current_def)
  moreover have sel: "starts_with k (prefix s)" if "selected (counters_range ?h) k" for k
  proof -
    have "prefix s @ [0x14, 0] \<le> k" "k \<le> prefix s @ [0x14, 0xff]"
      using that by (simp_all add: selected_def counters_range_def subspace_range_def
        first_greater_or_equal_def first_greater_than_def ks_new_def default_range_def hca_new_prefix)
    moreover have "prefix s @ [0x14, 0xff] < prefix s @ [0x15]" by simp
    ultimately have "prefix s @ [0x14, 0] \<le> k \<and> k < prefix s @ [0x15]" by (meson le_less_trans)
    then show ?thesis using between_appended by (fastforce simp: starts_with_append)
  qed
  have "wf_counters ?h m'"
    unfolding wf_counters_def
  proof (intro allI impI)
    fix k
    assume "m' k \<noteq> None" and "selected (counters_range ?h) k"
    with sel assms(1) have "m k \<noteq> None" by simp
    with assms(2) \<open>selected (counters_range ?h) k\<close> show "\<exists>i. k = counter_key ?h i"
      by (simp add: hca_inv_def wf_counters_def)
  qed
  ultimately show ?thesis
    using assms(2) keys started by (simp add: hca_inv_def recorded_def)
qed

context hca_store
begin

lemma steps_frame:
  assumes "hca_steps kv ops (hca_new sub) (tasks, s) (tasks', s')" and "\<not> starts_with k (prefix sub)"
    and "hca_inv (hca_new sub) (view s) A" and "\<forall>i. wf_task (tasks i) \<and> (\<forall>a. tasks i \<noteq> Allocated a)"
  shows "view s' k = view s k"
  using assms
proof (induction "(tasks, s)" "(tasks', s')" arbitrary: tasks' s' rule: hca_steps.induct)
  case (hca_step tasks1 s1 draw i task s2)
  have wf: "wf_counters (hca_new sub) (view s1)"
    using steps_keep [OF hca_step.hyps(1) wf_hca_new hca_step.prems(2,3)] by (simp add: hca_inv_def)
  have "view s2 k = view s1 k"
  proof (cases "tasks1 i")
    case (Counting adv start)
    then show ?thesis
      using hca_step.hyps(3) count_turn_view(1) counted_frame [OF hca_step.prems(1)]
      by (auto simp: hca_turn_def)
  next
    case (Choosing start window)
    then obtain c where "candidate_turn kv ops (hca_new sub) start window c s1 = Inr (task, s2)"
      using hca_step.hyps(3) by (auto simp: hca_turn_def Let_def bind_eq_Some_conv)
    from candidate_turn_view(1) [OF this wf] show ?thesis
      using allocator_keys(2) hca_step.prems(1) by fastforce
  qed (use hca_step.hyps(3) in \<open>auto simp: hca_turn_def bind_result_eq_Inr\<close>)
  with hca_step show ?case by simp
qed simp

lemma allocate_frame:
  assumes "allocate kv ops (hca_new sub) draws s = Some (Inr (c, s'))" and "hca_inv (hca_new sub) (view s) A"
    and "\<not> starts_with k (prefix sub)"
  shows "view s' k = view s k"
proof -
  define tasks where "tasks = (\<lambda>_ :: nat. AtLoop)"
  have "hca_steps kv ops (hca_new sub) (tasks, s) (tasks(0 := AtLoop), s)"
    using hca_refl by (simp add: tasks_def fun_upd_idem)
  from run_steps [OF assms(1) [unfolded allocate_def] refl this]
  have "hca_steps kv ops (hca_new sub) (tasks, s) (tasks(0 := Allocated c), s')" .
  from steps_frame [OF this assms(3,2)] show ?thesis by (simp add: tasks_def wf_task_def)
qed

end

section \<open>The stored tree\<close>

definition layer_key :: "directory_layer \<Rightarrow> bytes \<Rightarrow> bytes" where
  "layer_key self p = pack_in (node_with_prefix self p) LAYER_SUFFIX"

definition name_key :: "directory_layer \<Rightarrow> bytes \<Rightarrow> bytes \<Rightarrow> bytes" where
  "name_key self p name = child_key (node_with_prefix self p) name"

definition version_key :: "directory_layer \<Rightarrow> bytes" where
  "version_key self = prefix (sub_bytes (root_node self) VERSION_KEY)"

definition hca_prefix :: "directory_layer \<Rightarrow> bytes" where
  "hca_prefix self = prefix (sub_bytes (root_node self) DEFAULT_HCA_PREFIX)"

definition layer_at :: "directory_layer \<Rightarrow> (bytes \<rightharpoonup> bytes) \<Rightarrow> bytes \<Rightarrow> bytes" where
  "layer_at self m p = (case m (layer_key self p) of None \<Rightarrow> [] | Some layer \<Rightarrow> layer)"

definition child_at :: "directory_layer \<Rightarrow> (bytes \<rightharpoonup> bytes) \<Rightarrow> bytes \<Rightarrow> bytes \<Rightarrow> bytes option" where
  "child_at self m p name = m (name_key self p name)"

text \<open>The walk from a prefix along a path, which stops at a partition.\<close>

fun walk :: "directory_layer \<Rightarrow> (bytes \<rightharpoonup> bytes) \<Rightarrow> bytes \<Rightarrow> path \<Rightarrow> path \<Rightarrow> (bytes \<times> path) option" where
  "walk self m p walked [] = Some (p, walked)"
| "walk self m p walked (name # path) =
     (case child_at self m p name of
        None \<Rightarrow> None
      | Some q \<Rightarrow>
          if layer_at self m q = PARTITION_LAYER then Some (q, walked @ [name])
          else walk self m q (walked @ [name]) path)"

definition lookup_dir :: "directory_layer \<Rightarrow> (bytes \<rightharpoonup> bytes) \<Rightarrow> path \<Rightarrow> (bytes \<times> path) option" where
  "lookup_dir self m path = walk self m (nodes_prefix self) [] path"

lemma constants_short: "short LAYER_SUFFIX" "short VERSION_KEY" "short DEFAULT_HCA_PREFIX"
  by (simp_all add: short_def LAYER_SUFFIX_def VERSION_KEY_def DEFAULT_HCA_PREFIX_def)

lemma key_eqs:
  "short p \<Longrightarrow> layer_key self p = nodes_prefix self @ bytes_enc p @ bytes_enc LAYER_SUFFIX"
  "short p \<Longrightarrow> short name \<Longrightarrow>
   name_key self p name = nodes_prefix self @ bytes_enc p @ INTZERO # str_enc name"
  "wf_layer self \<Longrightarrow> version_key self = nodes_prefix self @ bytes_enc (nodes_prefix self) @ bytes_enc VERSION_KEY"
  "wf_layer self \<Longrightarrow> hca_prefix self = nodes_prefix self @ bytes_enc (nodes_prefix self) @ bytes_enc DEFAULT_HCA_PREFIX"
  by (simp_all add: layer_key_def name_key_def version_key_def hca_prefix_def wf_layer_def pack_in_eq
      child_key_eq prefix_node prefix_sub_bytes constants_short)

lemma no_escape_encs [simp]:
  "no_escape (bytes_enc p @ u)" "no_escape (bytes_enc p)" "no_escape (INTZERO # u)" "no_escape (str_enc p @ u)"
  "no_escape []"
  by (simp_all add: no_escape_def bytes_enc_def str_enc_def code_defs)

lemma encs_differ [simp]: "bytes_enc p @ u \<noteq> INTZERO # v" "INTZERO # v \<noteq> bytes_enc p @ u"
  "bytes_enc p \<noteq> INTZERO # v" "INTZERO # v \<noteq> bytes_enc p"
  by (simp_all add: bytes_enc_def code_defs)

lemma enc_eq [simp]: "bytes_enc u = bytes_enc v \<longleftrightarrow> u = v" "str_enc u = str_enc v \<longleftrightarrow> u = v"
  using enc_inject [of "[]" "[]" u v] by simp_all

lemma INTZERO_not_ESCAPE [simp]: "INTZERO \<noteq> ESCAPE"
  by (simp add: code_defs)

lemma enc_inject1 [simp]:
  "bytes_enc u @ bytes_enc u' = bytes_enc v @ bytes_enc v' \<longleftrightarrow> u = v \<and> u' = v'"
  "bytes_enc u @ bytes_enc u' \<noteq> bytes_enc v @ INTZERO # w"
  "bytes_enc v @ INTZERO # w \<noteq> bytes_enc u @ bytes_enc u'"
  "bytes_enc u @ INTZERO # w = bytes_enc v @ INTZERO # w' \<longleftrightarrow> u = v \<and> w = w'"
  by (simp_all add: enc_inject)

lemma names_differ:
  "LAYER_SUFFIX \<noteq> VERSION_KEY" "LAYER_SUFFIX \<noteq> DEFAULT_HCA_PREFIX" "VERSION_KEY \<noteq> DEFAULT_HCA_PREFIX"
  by (simp_all add: LAYER_SUFFIX_def VERSION_KEY_def DEFAULT_HCA_PREFIX_def)

lemma keys_inject:
  assumes "short p" and "short q"
  shows "layer_key self p = layer_key self q \<longleftrightarrow> p = q"
    and "short n \<Longrightarrow> short n' \<Longrightarrow> name_key self p n = name_key self q n' \<longleftrightarrow> p = q \<and> n = n'"
    and "short n \<Longrightarrow> layer_key self p \<noteq> name_key self q n" and "short n \<Longrightarrow> name_key self q n \<noteq> layer_key self p"
    and "wf_layer self \<Longrightarrow> layer_key self p \<noteq> version_key self"
    and "wf_layer self \<Longrightarrow> short n \<Longrightarrow> name_key self p n \<noteq> version_key self"
  using assms names_differ by (auto simp: key_eqs)

lemma bytes_enc_constants:
  "bytes_enc LAYER_SUFFIX = [1, 108, 97, 121, 101, 114, 0]"
  "bytes_enc VERSION_KEY = [1, 118, 101, 114, 115, 105, 111, 110, 0]"
  "bytes_enc DEFAULT_HCA_PREFIX = [1, 104, 99, 97, 0]"
  by (simp_all add: bytes_enc_def LAYER_SUFFIX_def VERSION_KEY_def DEFAULT_HCA_PREFIX_def code_defs)

lemma node_key_starts:
  assumes "no_escape us" and "no_escape vs" and "vs \<noteq> []"
  shows "starts_with (a @ bytes_enc u @ us) (a @ bytes_enc v @ vs) \<longleftrightarrow> u = v \<and> starts_with us vs"
proof -
  have "no_escape (vs @ r)" for r
    using assms(2,3) by (cases vs) (simp_all add: no_escape_def)
  then have "bytes_enc u @ us = bytes_enc v @ vs @ r \<longleftrightarrow> u = v \<and> us = vs @ r" for r
    using enc_inject(1) [OF assms(1)] by simp
  then show ?thesis by (auto simp: starts_with_append)
qed

lemma not_hca_key:
  assumes "wf_layer self" and "short p"
  shows "\<not> starts_with (layer_key self p) (hca_prefix self)"
    and "short n \<Longrightarrow> \<not> starts_with (name_key self p n) (hca_prefix self)"
    and "\<not> starts_with (version_key self) (hca_prefix self)"
proof -
  have "bytes_enc DEFAULT_HCA_PREFIX \<noteq> []" by (simp add: bytes_enc_def)
  note starts = node_key_starts [OF _ no_escape_encs(2) this]
  have "\<not> starts_with (bytes_enc LAYER_SUFFIX) (bytes_enc DEFAULT_HCA_PREFIX)"
    "\<not> starts_with (bytes_enc VERSION_KEY) (bytes_enc DEFAULT_HCA_PREFIX)"
    "\<not> starts_with (INTZERO # str_enc n) (bytes_enc DEFAULT_HCA_PREFIX)" for n
    by (simp_all add: starts_with_def bytes_enc_constants INTZERO_def)
  with assms show "\<not> starts_with (layer_key self p) (hca_prefix self)"
    and "short n \<Longrightarrow> \<not> starts_with (name_key self p n) (hca_prefix self)"
    and "\<not> starts_with (version_key self) (hca_prefix self)"
    by (simp_all add: key_eqs starts)
qed

section \<open>Walking the tree\<close>

context dir_store
begin

lemma load_metadata_layer:
  "load_metadata env (node_with_prefix self p) trx = Inr layer \<Longrightarrow> layer = layer_at self (view trx) p"
  using get_ok [of trx "layer_key self p"]
  by (auto simp: load_metadata_def dir_get_def bind_result_eq_Inr layer_at_def layer_key_def pack_in_def)

lemma find_loop_walk:
  "dir_find_loop env self (node_with_prefix self p) walked layer loaded path trx = Inr r \<Longrightarrow>
   r = map_option (\<lambda>(q, w). (node_with_prefix self q, w,
       if path = [] then layer else layer_at self (view trx) q, path \<noteq> [] \<or> loaded))
     (walk self (view trx) p walked path)"
proof (induction path arbitrary: p walked layer loaded)
  case (Cons name path)
  let ?m = "view trx"
  from Cons.prems obtain found where get: "dir_get env (name_key self p name) trx = Inr found"
    and rest: "(case node_with_optional_prefix self found of None \<Rightarrow> Inr None | Some sub \<Rightarrow>
      bind_result (load_metadata env sub trx) (\<lambda>layer. if layer = PARTITION_LAYER
        then Inr (Some (sub, walked @ [name], layer, True))
        else dir_find_loop env self sub (walked @ [name]) layer True path trx)) = Inr r"
    by (auto simp: name_key_def Let_def bind_result_eq_Inr)
  have found: "found = child_at self ?m p name"
    using get get_ok [of trx "name_key self p name" found] by (simp add: dir_get_def child_at_def)
  show ?case
  proof (cases found)
    case None
    with rest found show ?thesis by (simp add: node_with_optional_prefix_def)
  next
    case (Some q)
    with rest obtain l where l: "load_metadata env (node_with_prefix self q) trx = Inr l"
      and rest': "(if l = PARTITION_LAYER then Inr (Some (node_with_prefix self q, walked @ [name], l, True))
        else dir_find_loop env self (node_with_prefix self q) (walked @ [name]) l True path trx) = Inr r"
      by (auto simp: node_with_optional_prefix_def bind_result_eq_Inr)
    have layer: "l = layer_at self ?m q" using l by (rule load_metadata_layer)
    show ?thesis
    proof (cases "l = PARTITION_LAYER")
      case True
      with rest' layer Some found show ?thesis by auto
    next
      case False
      with rest' have "dir_find_loop env self (node_with_prefix self q) (walked @ [name]) l True path trx = Inr r"
        by simp
      from Cons.IH [OF this] False layer Some found show ?thesis
        by (cases path) (auto split: option.splits)
    qed
  qed
qed simp

lemma find_walk:
  assumes "wf_layer self" and "dir_find env self path trx = Inr r"
  shows "r = map_option (\<lambda>(q, w). \<lparr>node_sub = node_with_prefix self q, current_path = w, target_path = path,
      node_directory_layer = self, node_layer = layer_at self (view trx) q\<rparr>) (lookup_dir self (view trx) path)"
proof -
  have root: "root_node self = node_with_prefix self (nodes_prefix self)" using assms(1) by (simp add: wf_layer_def)
  from assms(2) obtain found where found: "dir_find_loop env self (root_node self) [] [] False path trx = Inr found"
    and rest: "(case found of None \<Rightarrow> Inr None | Some (sub, walked, layer, loaded) \<Rightarrow>
      bind_result (if \<not> loaded then load_metadata env sub trx else Inr layer) (\<lambda>layer.
        Inr (Some \<lparr>node_sub = sub, current_path = walked, target_path = path,
          node_directory_layer = self, node_layer = layer\<rparr>))) = Inr r"
    by (auto simp: dir_find_def bind_result_eq_Inr)
  note walk = find_loop_walk [OF found [unfolded root]]
  show ?thesis
  proof (cases "lookup_dir self (view trx) path")
    case None
    with walk rest show ?thesis by (simp add: lookup_dir_def)
  next
    case (Some qw)
    obtain q w where qw: "qw = (q, w)" by (cases qw)
    show ?thesis
    proof (cases "path = []")
      case True
      with Some qw have "q = nodes_prefix self" "w = []" by (simp_all add: lookup_dir_def)
      with walk rest True Some qw load_metadata_layer show ?thesis
        by (auto simp: lookup_dir_def bind_result_eq_Inr)
    next
      case False
      with walk rest Some qw show ?thesis by (auto simp: lookup_dir_def)
    qed
  qed
qed

end

section \<open>The invariant\<close>

definition in_use :: "directory_layer \<Rightarrow> (bytes \<rightharpoonup> bytes) \<Rightarrow> bytes \<Rightarrow> bool" where
  "in_use self m p \<longleftrightarrow> used self m p \<or> p = nodes_prefix self"

text \<open>No prefix in use starts another one.\<close>

definition isolated :: "directory_layer \<Rightarrow> (bytes \<rightharpoonup> bytes) \<Rightarrow> bool" where
  "isolated self m \<longleftrightarrow> (\<forall>p q. in_use self m p \<longrightarrow> in_use self m q \<longrightarrow> starts_with p q \<longrightarrow> p = q)"

text \<open>Every child has a node with a layer, and none is a partition.\<close>

definition wf_children :: "directory_layer \<Rightarrow> (bytes \<rightharpoonup> bytes) \<Rightarrow> bool" where
  "wf_children self m \<longleftrightarrow>
     (\<forall>p name q. short p \<longrightarrow> short name \<longrightarrow> child_at self m p name = Some q \<longrightarrow>
        short q \<and> m (layer_key self q) \<noteq> None \<and> layer_at self m q \<noteq> PARTITION_LAYER)"

text \<open>No two names lead to one prefix, and none to the root.\<close>

definition one_parent :: "directory_layer \<Rightarrow> (bytes \<rightharpoonup> bytes) \<Rightarrow> bool" where
  "one_parent self m \<longleftrightarrow>
     (\<forall>p name q. short p \<longrightarrow> short name \<longrightarrow> child_at self m p name = Some q \<longrightarrow> q \<noteq> nodes_prefix self \<and>
        (\<forall>p' name'. short p' \<longrightarrow> short name' \<longrightarrow> child_at self m p' name' = Some q \<longrightarrow> p' = p \<and> name' = name))"

text \<open>The keys of children are those of names.\<close>

definition wf_names :: "directory_layer \<Rightarrow> (bytes \<rightharpoonup> bytes) \<Rightarrow> bool" where
  "wf_names self m \<longleftrightarrow> (\<forall>p r. short p \<longrightarrow>
     m (nodes_prefix self @ bytes_enc p @ INTZERO # r) \<noteq> None \<longrightarrow> (\<exists>n. short n \<and> r = str_enc n))"

text \<open>The root has no layer.\<close>

definition plain_root :: "directory_layer \<Rightarrow> (bytes \<rightharpoonup> bytes) \<Rightarrow> bool" where
  "plain_root self m \<longleftrightarrow> m (layer_key self (nodes_prefix self)) = None"

definition dir_inv :: "directory_layer \<Rightarrow> (bytes \<rightharpoonup> bytes) \<Rightarrow> u64 set \<Rightarrow> bool" where
  "dir_inv self m A \<longleftrightarrow>
     wf_nodes self m \<and> isolated self m \<and> wf_children self m \<and> one_parent self m \<and>
     wf_names self m \<and> plain_root self m \<and> hca_inv (allocator self) m A"

text \<open>Nothing that was stored is lost.\<close>

definition keeps_dirs :: "directory_layer \<Rightarrow> (bytes \<rightharpoonup> bytes) \<Rightarrow> (bytes \<rightharpoonup> bytes) \<Rightarrow> bool" where
  "keeps_dirs self m m' \<longleftrightarrow>
     (\<forall>p name q. short p \<longrightarrow> short name \<longrightarrow> child_at self m p name = Some q \<longrightarrow>
        child_at self m' p name = Some q \<and> layer_at self m' q = layer_at self m q)"

lemma dir_inv_empty: "wf_layer self \<Longrightarrow> dir_inv self Map.empty {}"
  by (auto simp: dir_inv_def wf_nodes_def isolated_def in_use_def used_def wf_children_def one_parent_def wf_names_def
      plain_root_def       child_at_def hca_inv_def wf_counters_def started_def starts_with_def)

lemma keeps_refl: "keeps_dirs self m m"
  by (simp add: keeps_dirs_def)

lemma keeps_trans: "keeps_dirs self m m1 \<Longrightarrow> keeps_dirs self m1 m2 \<Longrightarrow> keeps_dirs self m m2"
  unfolding keeps_dirs_def by metis

lemma wf_childrenD:
  assumes "wf_children self m" and "short p" and "short name" and "child_at self m p name = Some q"
  shows "short q" and "m (layer_key self q) \<noteq> None" and "layer_at self m q \<noteq> PARTITION_LAYER"
  using assms unfolding wf_children_def by blast+

lemma one_parentD:
  assumes "one_parent self m" and "short p" and "short name" and "child_at self m p name = Some q"
  shows "q \<noteq> nodes_prefix self"
    and "short p' \<Longrightarrow> short name' \<Longrightarrow> child_at self m p' name' = Some q \<Longrightarrow> p' = p \<and> name' = name"
  using assms unfolding one_parent_def by blast+

lemma one_parent_same:
  assumes "\<And>p n. short p \<Longrightarrow> short n \<Longrightarrow> child_at self m' p n = child_at self m p n" and "one_parent self m"
  shows "one_parent self m'"
  unfolding one_parent_def using assms(1) one_parentD [OF assms(2)] by metis

lemma wf_namesD:
  "wf_names self m \<Longrightarrow> short p \<Longrightarrow> m (nodes_prefix self @ bytes_enc p @ INTZERO # r) \<noteq> None \<Longrightarrow>
   \<exists>n. short n \<and> r = str_enc n"
  unfolding wf_names_def by blast

lemma keepsD:
  assumes "keeps_dirs self m m'" and "short p" and "short name" and "child_at self m p name = Some q"
  shows "child_at self m' p name = Some q" and "layer_at self m' q = layer_at self m q"
  using assms unfolding keeps_dirs_def by blast+

lemma walk_inv:
  assumes "wf_children self m" and "short p" and "\<forall>n \<in> set path. short n" and "walk self m p walked path = Some (q, w)"
  shows "w = walked @ path \<and> short q \<and> (path \<noteq> [] \<longrightarrow> m (layer_key self q) \<noteq> None \<and> layer_at self m q \<noteq> PARTITION_LAYER)"
  using assms(2-4)
proof (induction path arbitrary: p walked)
  case (Cons n path)
  then obtain p' where child: "child_at self m p n = Some p'" by (auto split: option.splits)
  have n: "short n" using Cons.prems(2) by simp
  note p' = wf_childrenD [OF assms(1) Cons.prems(1) n child]
  with child Cons.prems have "walk self m p' (walked @ [n]) path = Some (q, w)" by simp
  with Cons.IH [OF p'(1) _ this] Cons.prems(2) p' show ?case by (cases path) auto
qed simp

lemma walk_keeps:
  assumes "wf_children self m" and "keeps_dirs self m m'" and "short p" and "\<forall>n \<in> set path. short n"
    and "walk self m p walked path = Some r"
  shows "walk self m' p walked path = Some r"
  using assms(3-5)
proof (induction path arbitrary: p walked)
  case (Cons n path)
  then obtain p' where child: "child_at self m p n = Some p'" by (auto split: option.splits)
  have n: "short n" using Cons.prems(2) by simp
  note p' = wf_childrenD(1,3) [OF assms(1) Cons.prems(1) n child]
  from keepsD [OF assms(2) Cons.prems(1) n child] Cons.IH [OF p'(1)] Cons.prems child p'(2) show ?case by auto
qed simp

lemma walk_snoc:
  assumes "wf_children self m" and "short p" and "\<forall>n \<in> set path. short n" and "short name"
    and "walk self m p walked path = Some (q, w)"
  shows "walk self m p walked (path @ [name]) =
    map_option (\<lambda>r. (r, walked @ path @ [name])) (child_at self m q name)"
  using assms(2,3,5)
proof (induction path arbitrary: p walked)
  case Nil
  then have "q = p" "short p" by simp_all
  then show ?case
    using wf_childrenD(3) [OF assms(1) _ assms(4), of p] by (cases "child_at self m p name") auto
next
  case (Cons n path)
  then obtain p' where child: "child_at self m p n = Some p'" by (auto split: option.splits)
  have n: "short n" using Cons.prems(2) by simp
  note p' = wf_childrenD(1,3) [OF assms(1) Cons.prems(1) n child]
  with Cons.IH [OF p'(1), of "walked @ [n]"] Cons.prems child show ?case by simp
qed

section \<open>Writes keep the invariant\<close>

lemma tree_same:
  assumes "\<And>p n. short p \<Longrightarrow> short n \<Longrightarrow> child_at self m' p n = child_at self m p n"
    and "\<And>p. short p \<Longrightarrow> m' (layer_key self p) = m (layer_key self p)" and "wf_children self m"
  shows "wf_children self m'" and "keeps_dirs self m m'"
proof -
  have layer: "layer_at self m' q = layer_at self m q" if "short q" for q
    using assms(2) [OF that] by (simp add: layer_at_def)
  show "keeps_dirs self m m'"
    unfolding keeps_dirs_def
  proof (intro allI impI)
    fix p n q
    assume pn: "short p" "short n" "child_at self m p n = Some q"
    then show "child_at self m' p n = Some q \<and> layer_at self m' q = layer_at self m q"
      using assms(1) layer [OF wf_childrenD(1) [OF assms(3) pn]] by simp
  qed
  show "wf_children self m'"
    unfolding wf_children_def
  proof (intro allI impI)
    fix p n q
    assume pn: "short p" "short n" "child_at self m' p n = Some q"
    then have "child_at self m p n = Some q" using assms(1) by simp
    note q = wf_childrenD [OF assms(3) pn(1,2) this]
    then show "short q \<and> m' (layer_key self q) \<noteq> None \<and> layer_at self m' q \<noteq> PARTITION_LAYER"
      using assms(2) layer by simp
  qed
qed

lemma node_update:
  assumes "short p" and "no_escape rest"
  shows "used self (m(nodes_prefix self @ bytes_enc p @ rest \<mapsto> v)) q \<longleftrightarrow> used self m q \<or> q = p"
    and "wf_nodes self m \<Longrightarrow> wf_nodes self (m(nodes_prefix self @ bytes_enc p @ rest \<mapsto> v))"
proof -
  have key: "nodes_prefix self @ bytes_enc q @ r = nodes_prefix self @ bytes_enc p @ rest \<longleftrightarrow> q = p \<and> r = rest"
    if "no_escape r" for q r
    using enc_inject(1) [OF that assms(2)] by simp
  show "used self (m(nodes_prefix self @ bytes_enc p @ rest \<mapsto> v)) q \<longleftrightarrow> used self m q \<or> q = p"
  proof
    assume "used self (m(nodes_prefix self @ bytes_enc p @ rest \<mapsto> v)) q"
    then obtain r where r: "short q" "no_escape r"
      "(m(nodes_prefix self @ bytes_enc p @ rest \<mapsto> v)) (nodes_prefix self @ bytes_enc q @ r) \<noteq> None"
      unfolding used_def by blast
    show "used self m q \<or> q = p"
    proof (cases "q = p")
      case False
      then have "nodes_prefix self @ bytes_enc q @ r \<noteq> nodes_prefix self @ bytes_enc p @ rest"
        using key [OF r(2), of q] by blast
      with r show ?thesis unfolding used_def by (metis fun_upd_other)
    qed simp
  next
    assume "used self m q \<or> q = p"
    then consider r where "short q" "no_escape r" "m (nodes_prefix self @ bytes_enc q @ r) \<noteq> None" | "q = p"
      unfolding used_def by blast
    then show "used self (m(nodes_prefix self @ bytes_enc p @ rest \<mapsto> v)) q"
    proof cases
      case 1
      then have "(m(nodes_prefix self @ bytes_enc p @ rest \<mapsto> v)) (nodes_prefix self @ bytes_enc q @ r) \<noteq> None"
        by simp
      with 1 show ?thesis unfolding used_def by blast
    next
      case 2
      have "(m(nodes_prefix self @ bytes_enc p @ rest \<mapsto> v)) (nodes_prefix self @ bytes_enc p @ rest) \<noteq> None"
        by simp
      with 2 assms show ?thesis unfolding used_def by blast
    qed
  qed
  show "wf_nodes self (m(nodes_prefix self @ bytes_enc p @ rest \<mapsto> v))" if "wf_nodes self m"
    using that assms unfolding wf_nodes_def by (metis fun_upd_apply same_append_eq)
qed

lemma in_use_update:
  assumes "short p" and "no_escape rest"
  shows "in_use self (m(nodes_prefix self @ bytes_enc p @ rest \<mapsto> v)) q \<longleftrightarrow> in_use self m q \<or> q = p"
  using node_update(1) [OF assms] by (auto simp: in_use_def)

lemma isolated_same: "(\<And>q. in_use self m' q \<longleftrightarrow> in_use self m q) \<Longrightarrow> isolated self m \<Longrightarrow> isolated self m'"
  by (simp add: isolated_def)

lemma isolated_insert:
  assumes "\<And>q. in_use self m' q \<longleftrightarrow> in_use self m q \<or> q = p" and "isolated self m"
    and "\<And>q. in_use self m q \<Longrightarrow> \<not> starts_with p q \<and> \<not> starts_with q p"
  shows "isolated self m'"
  using assms unfolding isolated_def by metis

lemma hca_inv_update:
  assumes "wf_layer self" and "hca_inv (allocator self) m A" and "\<not> starts_with k (hca_prefix self)"
  shows "hca_inv (allocator self) (m(k \<mapsto> v)) A"
proof -
  have h: "allocator self = hca_new (sub_bytes (root_node self) DEFAULT_HCA_PREFIX)"
    using assms(1) by (simp add: wf_layer_def)
  show ?thesis
    unfolding h
  proof (rule hca_inv_agree [where m = m])
    fix k'
    assume "starts_with k' (prefix (sub_bytes (root_node self) DEFAULT_HCA_PREFIX))"
    then show "(m(k \<mapsto> v)) k' = m k'" using assms(3) by (auto simp: hca_prefix_def)
  qed (use assms(2) h in simp)
qed

text \<open>The first use of the layer writes its version.\<close>

lemma version_write:
  assumes self: "wf_layer self" and inv: "dir_inv self m A"
  shows "dir_inv self (m(version_key self \<mapsto> v)) A" and "keeps_dirs self m (m(version_key self \<mapsto> v))"
    and "in_use self (m(version_key self \<mapsto> v)) q \<longleftrightarrow> in_use self m q"
    and "used self (m(version_key self \<mapsto> v)) (nodes_prefix self)"
    and "short p \<Longrightarrow> short n \<Longrightarrow> child_at self (m(version_key self \<mapsto> v)) p n = child_at self m p n"
proof -
  let ?m' = "m(version_key self \<mapsto> v)"
  have ns: "short (nodes_prefix self)" using self by (simp add: wf_layer_def)
  note upd = in_use_update [OF ns no_escape_encs(2), of self m VERSION_KEY v, folded key_eqs(3) [OF self]]
    node_update [OF ns no_escape_encs(2), of self m VERSION_KEY v, folded key_eqs(3) [OF self]]
  show in_use: "in_use self ?m' q \<longleftrightarrow> in_use self m q" for q
    using upd(1) by (auto simp: in_use_def)
  show "used self ?m' (nodes_prefix self)" using upd(2) by simp
  have child: "child_at self ?m' p n = child_at self m p n" if "short p" "short n" for p n
    using keys_inject(6) [OF that(1,1) self that(2)] by (simp add: child_at_def)
  then show "short p \<Longrightarrow> short n \<Longrightarrow> child_at self ?m' p n = child_at self m p n" .
  have layer: "?m' (layer_key self p) = m (layer_key self p)" if "short p" for p
    using keys_inject(5) [OF that that self] by simp
  have children: "wf_children self m" using inv by (simp add: dir_inv_def)
  note tree = tree_same [of self ?m' m, OF child layer children]
  show "keeps_dirs self m ?m'" by (rule tree(2))
  have "isolated self ?m'" using inv isolated_same [of self ?m' m, OF in_use] by (simp add: dir_inv_def)
  moreover have "hca_inv (allocator self) ?m' A"
    using inv hca_inv_update [OF self _ not_hca_key(3) [OF self ns]] by (simp add: dir_inv_def)
  moreover have "wf_nodes self ?m'" using inv upd(3) by (simp add: dir_inv_def)
  moreover have "?m' (nodes_prefix self @ bytes_enc p @ INTZERO # r) = m (nodes_prefix self @ bytes_enc p @ INTZERO # r)" for p r
    by (simp add: key_eqs(3) [OF self])
  then have "wf_names self ?m'" using inv by (simp add: dir_inv_def wf_names_def)
  moreover have "plain_root self ?m'" using inv layer [OF ns] by (simp add: dir_inv_def plain_root_def)
  moreover have "one_parent self ?m'" using inv one_parent_same [of self ?m' m, OF child] by (simp add: dir_inv_def)
  ultimately show "dir_inv self ?m' A" using tree(1) by (simp add: dir_inv_def)
qed

text \<open>An allocation changes the keys of the allocator, which are in the root's node.\<close>

lemma hca_change:
  assumes self: "wf_layer self" and inv: "dir_inv self m A"
    and frame: "\<And>k. \<not> starts_with k (hca_prefix self) \<Longrightarrow> m' k = m k" and hca: "hca_inv (allocator self) m' A'"
  shows "dir_inv self m' A'" and "keeps_dirs self m m'" and "in_use self m' q \<longleftrightarrow> in_use self m q"
    and "m (version_key self) \<noteq> None \<Longrightarrow> used self m' (nodes_prefix self)"
    and "short p \<Longrightarrow> short n \<Longrightarrow> child_at self m' p n = child_at self m p n"
proof -
  have ns: "short (nodes_prefix self)" using self by (simp add: wf_layer_def)
  have child: "child_at self m' p n = child_at self m p n" if "short p" "short n" for p n
    using frame not_hca_key(2) [OF self that] by (simp add: child_at_def)
  then show "short p \<Longrightarrow> short n \<Longrightarrow> child_at self m' p n = child_at self m p n" .
  have layer: "m' (layer_key self p) = m (layer_key self p)" if "short p" for p
    using frame not_hca_key(1) [OF self that] by simp
  have children: "wf_children self m" using inv by (simp add: dir_inv_def)
  note tree = tree_same [of self m' m, OF child layer children]
  show "keeps_dirs self m m'" by (rule tree(2))
  have other: "m' (nodes_prefix self @ bytes_enc q @ rest) = m (nodes_prefix self @ bytes_enc q @ rest)"
    if "q \<noteq> nodes_prefix self" "no_escape rest" for q rest
    using frame that node_key_starts [of rest "bytes_enc DEFAULT_HCA_PREFIX"] by (simp add: key_eqs(4) [OF self] bytes_enc_constants no_escape_def code_defs)
  show in_use: "in_use self m' q \<longleftrightarrow> in_use self m q" for q
    using other by (auto simp: in_use_def used_def)
  show "used self m' (nodes_prefix self)" if "m (version_key self) \<noteq> None"
    using that frame [OF not_hca_key(3) [OF self ns]] ns unfolding used_def key_eqs(3) [OF self]
    by (metis no_escape_encs(2))
  have "wf_nodes self m'"
    unfolding wf_nodes_def
  proof (intro allI impI)
    fix b r
    assume k: "m' (nodes_prefix self @ b # r) \<noteq> None" and b: "b \<noteq> 0xff"
    show "\<exists>p rest. short p \<and> no_escape rest \<and> b # r = bytes_enc p @ rest"
    proof (cases "starts_with (nodes_prefix self @ b # r) (hca_prefix self)")
      case True
      then obtain t where "nodes_prefix self @ b # r =
          nodes_prefix self @ bytes_enc (nodes_prefix self) @ bytes_enc DEFAULT_HCA_PREFIX @ t"
        by (auto simp: starts_with_append key_eqs(4) [OF self])
      then show ?thesis using ns by (metis no_escape_encs(1) same_append_eq)
    next
      case False
      with k frame inv b show ?thesis by (auto simp: dir_inv_def wf_nodes_def)
    qed
  qed
  moreover have "isolated self m'" using inv isolated_same [of self m' m, OF in_use] by (simp add: dir_inv_def)
  moreover have "m' (nodes_prefix self @ bytes_enc p @ INTZERO # r) = m (nodes_prefix self @ bytes_enc p @ INTZERO # r)" for p r
    using frame node_key_starts [of "INTZERO # r" "bytes_enc DEFAULT_HCA_PREFIX"]
    by (simp add: key_eqs(4) [OF self] bytes_enc_constants no_escape_def code_defs starts_with_def)
  then have "wf_names self m'" using inv by (simp add: dir_inv_def wf_names_def)
  moreover have "plain_root self m'" using inv layer [OF ns] by (simp add: dir_inv_def plain_root_def)
  moreover have "one_parent self m'" using inv one_parent_same [of self m' m, OF child] by (simp add: dir_inv_def)
  ultimately show "dir_inv self m' A'" using tree(1) hca by (simp add: dir_inv_def)
qed

end
