(* ===== verification/Directory_Create.thy ===== *)
theory Directory_Create
  imports Directory_State
begin

text \<open>
  What creating and opening a directory does to the stored tree: the path leads to the directory
  that is returned, nothing that was there is lost, and the invariant is kept.
\<close>

section \<open>A new node\<close>

lemma starts_with_refl [simp]: "starts_with p p"
  by (simp add: starts_with_def)

lemma in_use_layer: "short q \<Longrightarrow> m (layer_key self q) \<noteq> None \<Longrightarrow> in_use self m q"
  unfolding in_use_def used_def key_eqs(1) by (blast intro: no_escape_encs)

lemma in_use_name: "short q \<Longrightarrow> short n \<Longrightarrow> child_at self m q n \<noteq> None \<Longrightarrow> in_use self m q"
  unfolding in_use_def used_def child_at_def key_eqs(2) by (blast intro: no_escape_encs)

text \<open>What \<open>create_internal\<close> writes for a new node, and where it may write it.\<close>

definition with_node ::
    "directory_layer \<Rightarrow> (bytes \<rightharpoonup> bytes) \<Rightarrow> bytes \<Rightarrow> bytes \<Rightarrow> bytes \<Rightarrow> bytes \<Rightarrow> bytes \<rightharpoonup> bytes" where
  "with_node self m par name np layer = m(name_key self par name \<mapsto> np, layer_key self np \<mapsto> layer)"

definition apart_from_used :: "directory_layer \<Rightarrow> (bytes \<rightharpoonup> bytes) \<Rightarrow> bytes \<Rightarrow> bool" where
  "apart_from_used self m np \<longleftrightarrow> (\<forall>q. in_use self m q \<longrightarrow> \<not> starts_with np q \<and> \<not> starts_with q np)"

definition room_for :: "directory_layer \<Rightarrow> (bytes \<rightharpoonup> bytes) \<Rightarrow> bytes \<Rightarrow> bytes \<Rightarrow> bytes \<Rightarrow> bool" where
  "room_for self m par name np \<longleftrightarrow> wf_layer self \<and> short par \<and> in_use self m par \<and> short name \<and> short np \<and>
     apart_from_used self m np \<and> child_at self m par name = None"

lemma room_forD:
  assumes "room_for self m par name np"
  shows "wf_layer self" "short par" "in_use self m par" "short name" "short np"
    "\<And>q. in_use self m q \<Longrightarrow> \<not> starts_with np q \<and> \<not> starts_with q np"
    "child_at self m par name = None" "np \<noteq> par" "\<not> in_use self m np"
  using assms starts_with_refl unfolding room_for_def apart_from_used_def by blast+

lemma child_with_node:
  assumes "room_for self m par name np" and "short p" and "short n"
  shows "child_at self (with_node self m par name np layer) p n =
    (if p = par \<and> n = name then Some np else child_at self m p n)"
  using keys_inject(2) [of p par n name self] keys_inject(4) [of np p n self] assms(2,3) room_forD [OF assms(1)]
  by (auto simp: child_at_def with_node_def)

lemma layer_with_node:
  assumes "room_for self m par name np" and "short p"
  shows "with_node self m par name np layer (layer_key self p) = (if p = np then Some layer else m (layer_key self p))"
  using keys_inject(1) [of p np self] keys_inject(3) [of p par name self] assms(2) room_forD [OF assms(1)]
  by (auto simp: with_node_def)

lemma in_use_with_node:
  assumes "room_for self m par name np"
  shows "in_use self (with_node self m par name np layer) q \<longleftrightarrow> in_use self m q \<or> q = np"
proof -
  note r = room_forD [OF assms]
  have "in_use self (m(name_key self par name \<mapsto> np)) q \<longleftrightarrow> in_use self m q \<or> q = par" for q
    unfolding key_eqs(2) [OF r(2,4)] by (rule in_use_update [OF r(2)]) simp
  moreover have "in_use self (with_node self m par name np layer) q \<longleftrightarrow>
      in_use self (m(name_key self par name \<mapsto> np)) q \<or> q = np"
    unfolding with_node_def key_eqs(1) [OF r(5)] by (rule in_use_update [OF r(5)]) simp
  ultimately show ?thesis using r(3) by auto
qed

lemma old_child_with_node:
  assumes room: "room_for self m par name np" and "wf_children self m"
    and "short p" and "short n" and "child_at self m p n = Some q"
  shows "q \<noteq> np" and "child_at self (with_node self m par name np layer) p n = Some q"
    and "layer_at self (with_node self m par name np layer) q = layer_at self m q"
proof -
  note q = wf_childrenD [OF assms(2-5)]
  from in_use_layer [of q m self, OF q(1,2)] room_forD(9) [OF room] show "q \<noteq> np" by blast
  then show "layer_at self (with_node self m par name np layer) q = layer_at self m q"
    using q by (simp add: layer_at_def layer_with_node [OF room])
  show "child_at self (with_node self m par name np layer) p n = Some q"
    using assms(3-5) room_forD(7) [OF room] by (auto simp: child_with_node [OF room])
qed

lemma keeps_with_node:
  "room_for self m par name np \<Longrightarrow> wf_children self m \<Longrightarrow>
   keeps_dirs self m (with_node self m par name np layer)"
  unfolding keeps_dirs_def using old_child_with_node(2,3) by blast

lemma new_with_node:
  assumes "room_for self m par name np"
  shows "child_at self (with_node self m par name np layer) par name = Some np"
    and "layer_at self (with_node self m par name np layer) np = layer"
    and "short n \<Longrightarrow> child_at self (with_node self m par name np layer) np n = None"
proof -
  note r = room_forD [OF assms]
  show "child_at self (with_node self m par name np layer) par name = Some np"
    using r(2,4) by (simp add: child_with_node [OF assms])
  show "layer_at self (with_node self m par name np layer) np = layer"
    using r(5) by (simp add: layer_at_def layer_with_node [OF assms])
  show "child_at self (with_node self m par name np layer) np n = None" if "short n"
  proof -
    have "child_at self m np n = None"
      using in_use_name [OF r(5) that, of self m] r(9) by (cases "child_at self m np n") auto
    then show ?thesis using r(5,8) that by (simp add: child_with_node [OF assms])
  qed
qed

lemma inv_with_node:
  assumes room: "room_for self m par name np" and inv: "dir_inv self m A" and layer: "layer \<noteq> PARTITION_LAYER"
  shows "dir_inv self (with_node self m par name np layer) A" (is "dir_inv self ?m A")
proof -
  note r = room_forD [OF room]
  from inv have children: "wf_children self m" by (simp add: dir_inv_def)
  have "wf_nodes self ?m"
    unfolding with_node_def key_eqs(1) [OF r(5)] key_eqs(2) [OF r(2,4)]
    using inv by (intro node_update(2) r(5,2)) (simp_all add: dir_inv_def)
  moreover have "isolated self ?m"
    using isolated_insert [of self ?m m np, OF in_use_with_node [OF room]] inv r(6) by (simp add: dir_inv_def)
  moreover have "wf_children self ?m"
    unfolding wf_children_def
  proof (intro allI impI)
    fix p n q
    assume pn: "short p" "short n" "child_at self ?m p n = Some q"
    show "short q \<and> ?m (layer_key self q) \<noteq> None \<and> layer_at self ?m q \<noteq> PARTITION_LAYER"
    proof (cases "p = par \<and> n = name")
      case True
      with pn have "q = np" by (simp add: child_with_node [OF room])
      with r(5) layer new_with_node(2) [OF room] show ?thesis by (simp add: layer_with_node [OF room])
    next
      case False
      with pn have old: "child_at self m p n = Some q" by (auto simp: child_with_node [OF room] split: if_splits)
      note q = wf_childrenD [OF children pn(1,2) old]
      with old_child_with_node(1,3) [OF room children pn(1,2) old] show ?thesis
        by (simp add: layer_with_node [OF room])
    qed
  qed
  moreover have "wf_names self ?m"
    unfolding wf_names_def
  proof (intro allI impI)
    fix p x
    assume k: "short p" "?m (nodes_prefix self @ bytes_enc p @ INTZERO # x) \<noteq> None"
    show "\<exists>n. short n \<and> x = str_enc n"
    proof (cases "p = par \<and> x = str_enc name")
      case False
      with k have "m (nodes_prefix self @ bytes_enc p @ INTZERO # x) \<noteq> None"
        by (auto simp: with_node_def key_eqs(1) [OF r(5)] key_eqs(2) [OF r(2,4)] split: if_splits)
      with inv k(1) show ?thesis by (intro wf_namesD) (simp_all add: dir_inv_def)
    qed (use r(4) in blast)
  qed
  moreover have "one_parent self ?m"
    unfolding one_parent_def
  proof (intro allI impI)
    fix p n q
    assume pn: "short p" "short n" "child_at self ?m p n = Some q"
    have old: "child_at self m p' n' = Some q' \<Longrightarrow> short p' \<Longrightarrow> short n' \<Longrightarrow> q' \<noteq> np" for p' n' q'
      using old_child_with_node(1) [OF room children] by blast
    have parents: "one_parent self m" using inv by (simp add: dir_inv_def)
    have "np \<noteq> nodes_prefix self" using r(9) by (auto simp: in_use_def)
    show "q \<noteq> nodes_prefix self \<and> (\<forall>p' n'. short p' \<longrightarrow> short n' \<longrightarrow> child_at self ?m p' n' = Some q \<longrightarrow> p' = p \<and> n' = n)"
    proof (cases "p = par \<and> n = name")
      case True
      with pn have "q = np" by (simp add: child_with_node [OF room])
      moreover have "p' = par \<and> n' = name" if "short p'" "short n'" "child_at self ?m p' n' = Some np" for p' n'
        using that old [of p' n' np] by (cases "p' = par \<and> n' = name") (auto simp: child_with_node [OF room])
      ultimately show ?thesis using True \<open>np \<noteq> nodes_prefix self\<close> by blast
    next
      case False
      with pn have q: "child_at self m p n = Some q" by (simp add: child_with_node [OF room] del: not_None_eq)
      have "child_at self m p' n' = Some q" if "short p'" "short n'" "child_at self ?m p' n' = Some q" for p' n'
        using that old [OF q pn(1,2)] by (cases "p' = par \<and> n' = name") (simp_all add: child_with_node [OF room])
      with one_parentD [OF parents pn(1,2) q] show ?thesis by blast
    qed
  qed
  moreover have "plain_root self ?m"
  proof -
    have "short (nodes_prefix self)" "np \<noteq> nodes_prefix self" using r(1,9) by (auto simp: wf_layer_def in_use_def)
    then show ?thesis using inv by (simp add: plain_root_def layer_with_node [OF room] dir_inv_def)
  qed
  moreover have "hca_inv (allocator self) ?m A"
    unfolding with_node_def
    using inv not_hca_key [OF r(1)] r(2,4,5) by (intro hca_inv_update [OF r(1)]) (simp_all add: dir_inv_def)
  ultimately show ?thesis by (simp add: dir_inv_def)
qed

section \<open>Allocated prefixes\<close>

definition content_key :: "directory_layer \<Rightarrow> u64 \<Rightarrow> bytes" where
  "content_key self c = prefix (the (subspace pack_ix (content_subspace self) c))"

definition short_content :: "directory_layer \<Rightarrow> bool" where
  "short_content self \<longleftrightarrow> length (prefix (content_subspace self)) < 2 ^ 31"

lemma content_key_eq: "content_key self c = prefix (content_subspace self) @ int_enc (sint c)"
  by (simp add: content_key_def subspace_ix)

lemma content_keys_apart:
  assumes "starts_with (content_key self c) (content_key self d)"
  shows "c = d"
proof -
  from assms obtain t where t: "int_enc (sint c) @ [] = int_enc (sint d) @ t"
    by (auto simp: content_key_eq starts_with_append)
  have "\<not> sint c < sint d" using int_enc_less [OF _ int_len_i64 int_len_i64, of c d "[]" t] t by fastforce
  moreover have "\<not> sint d < sint c" using int_enc_less [OF _ int_len_i64 int_len_i64, of d c t "[]"] t by fastforce
  ultimately show ?thesis by (simp add: signed_word_eqI)
qed

lemma content_key_ends: "strinc (content_key self c) \<noteq> []"
proof -
  have [simp]: "int_len 0 = 0" by (simp only: int_len_0)
  have "\<exists>b \<in> set (int_head z). b \<noteq> 0xff" for z
  proof (cases "int_len z \<le> 8")
    case True
    then have "int_len z = 0 \<or> int_len z = 1 \<or> int_len z = 2 \<or> int_len z = 3 \<or> int_len z = 4 \<or>
        int_len z = 5 \<or> int_len z = 6 \<or> int_len z = 7 \<or> int_len z = 8" by arith
    then show ?thesis by (auto simp: int_head_def Let_def MAX_SZ_def INTZERO_def)
  qed (simp add: int_head_def Let_def MAX_SZ_def POSINTEND_def NEGINTSTART_def)
  then show ?thesis by (auto simp: strinc_empty_iff content_key_eq int_enc_def)
qed

lemma content_key_short: "short_content self \<Longrightarrow> short (content_key self c @ [0])"
proof -
  have "length (int_head (sint c)) \<le> 2" by (simp add: int_head_def Let_def)
  with int_len_i64 [of c] have "length (int_enc (sint c)) < 258" by (simp add: int_enc_def)
  then show "short_content self \<Longrightarrow> short (content_key self c @ [0])"
    by (simp add: short_content_def short_def content_key_eq)
qed

lemma short_snoc: "short (p @ [b]) \<Longrightarrow> short p"
  by (simp add: short_def)

section \<open>Trees with the same children\<close>

lemma walk_same:
  assumes "\<And>p n. short p \<Longrightarrow> short n \<Longrightarrow> child_at self m' p n = child_at self m p n"
    and "wf_children self m" and "keeps_dirs self m m'" and "short p" and "\<forall>n \<in> set path. short n"
  shows "walk self m' p walked path = walk self m p walked path"
  using assms(4,5)
proof (induction path arbitrary: p walked)
  case (Cons n path)
  then have n: "short n" "\<forall>n \<in> set path. short n" by simp_all
  note child = assms(1) [OF Cons.prems(1) n(1)]
  show ?case
  proof (cases "child_at self m p n")
    case (Some q)
    note q = wf_childrenD(1) [OF assms(2) Cons.prems(1) n(1) Some] keepsD(2) [OF assms(3) Cons.prems(1) n(1) Some]
    show ?thesis using child Some q Cons.IH [OF q(1) n(2)] by simp
  qed (simp add: child)
qed simp

lemma lookup_root: "\<lbrakk>lookup_dir self m path = Some (q, w); wf_children self m; wf_layer self; \<forall>n \<in> set path. short n\<rbrakk>
  \<Longrightarrow> w = path \<and> short q \<and> in_use self m q"
  using walk_inv [of self m "nodes_prefix self" path "[]" q w] in_use_layer [of q m self]
  by (cases "path = []") (auto simp: lookup_dir_def wf_layer_def in_use_def)

lemma lookup_snoc:
  assumes "wf_children self m" and "wf_layer self" and "\<forall>n \<in> set path. short n" and "path \<noteq> []"
    and "lookup_dir self m (butlast path) = Some (q, w)"
  shows "lookup_dir self m path = map_option (\<lambda>r. (r, path)) (child_at self m q (last path))"
proof -
  have names: "\<forall>n \<in> set (butlast path). short n" "short (last path)"
    using assms(3,4) by (auto dest: in_set_butlastD)
  have "short (nodes_prefix self)" using assms(2) by (simp add: wf_layer_def)
  from walk_snoc [OF assms(1) this names assms(5) [unfolded lookup_dir_def]] assms(4) show ?thesis
    by (simp add: lookup_dir_def)
qed

lemma walk_None_snoc: "walk self m p walked path = None \<Longrightarrow> walk self m p walked (path @ [n]) = None"
  by (induction path arbitrary: p walked) (auto split: option.splits)

lemma lookup_step:
  assumes "wf_children self m" and "wf_layer self" and "\<forall>n \<in> set path. short n" and "short name"
  shows "lookup_dir self m (path @ [name]) =
    Option.bind (lookup_dir self m path) (\<lambda>(q, _). map_option (\<lambda>r. (r, path @ [name])) (child_at self m q name))"
proof (cases "lookup_dir self m path")
  case None
  then show ?thesis using walk_None_snoc by (simp add: lookup_dir_def)
next
  case (Some qw)
  then show ?thesis using lookup_snoc [OF assms(1,2), of "path @ [name]"] assms(3,4) by (cases qw) simp
qed

lemma lookup_Nil [simp]: "lookup_dir self m [] = Some (nodes_prefix self, [])"
  by (simp add: lookup_dir_def)

text \<open>Two paths never lead to one prefix.\<close>

lemma lookup_inj:
  assumes "wf_children self m" and "wf_layer self" and "one_parent self m"
  shows "\<lbrakk>lookup_dir self m path = Some (q, w); lookup_dir self m path' = Some (q, w');
    \<forall>n \<in> set path. short n; \<forall>n \<in> set path'. short n\<rbrakk> \<Longrightarrow> path = path'"
proof (induction path arbitrary: path' q w w' rule: rev_induct)
  case Nil
  show ?case
  proof (cases path' rule: rev_cases)
    case (snoc ys y)
    then obtain r v where "lookup_dir self m ys = Some (r, v)" "child_at self m r y = Some q"
      using Nil.prems lookup_step [OF assms(1,2), of ys y] by (auto simp: bind_eq_Some_conv)
    with one_parentD(1) [OF assms(3), of r y q] lookup_root [OF _ assms(1,2), of ys r v] Nil.prems snoc show ?thesis
      by auto
  qed simp
next
  case (snoc x xs)
  then obtain r v where r: "lookup_dir self m xs = Some (r, v)" "child_at self m r x = Some q"
    using lookup_step [OF assms(1,2), of xs x] by (auto simp: bind_eq_Some_conv)
  have x: "short x" "short r"
    using snoc.prems(3) lookup_root [OF r(1) assms(1,2)] by simp_all
  note parent = one_parentD [OF assms(3) x(2,1) r(2)]
  show ?case
  proof (cases path' rule: rev_cases)
    case Nil
    with snoc.prems(2) parent(1) show ?thesis by simp
  next
    case (snoc ys y)
    then obtain r' v' where r': "lookup_dir self m ys = Some (r', v')" "child_at self m r' y = Some q"
      using snoc.prems lookup_step [OF assms(1,2), of ys y] by (auto simp: bind_eq_Some_conv)
    have y: "short y" "short r'" "\<forall>n \<in> set ys. short n"
      using snoc snoc.prems(4) lookup_root [OF r'(1) assms(1,2)] by simp_all
    from parent(2) [OF y(2,1) r'(2)] have "r' = r" "y = x" by simp_all
    with snoc.IH [OF r(1), of ys v'] r'(1) y(3) snoc.prems(3) snoc show ?thesis by simp
  qed
qed

lemma lookup_with_node:
  assumes room: "room_for self m par name np" and inv: "dir_inv self m A" and layer: "layer \<noteq> PARTITION_LAYER"
    and parent: "lookup_dir self m par_path = Some (par, par_path)" "\<forall>n \<in> set par_path. short n"
  shows "\<forall>n \<in> set path. short n \<Longrightarrow> lookup_dir self (with_node self m par name np layer) path =
    (if path = par_path @ [name] then Some (np, path) else lookup_dir self m path)"
proof (induction path rule: rev_induct)
  case (snoc n path)
  let ?m = "with_node self m par name np layer"
  note r = room_forD [OF room]
  have wfs: "wf_children self m" "one_parent self m" "wf_children self ?m"
    using inv inv_with_node [OF room inv layer] by (simp_all add: dir_inv_def)
  have names: "\<forall>n \<in> set path. short n" "short n" using snoc.prems by simp_all
  note step = lookup_step [OF wfs(1) r(1) names] and step' = lookup_step [OF wfs(3) r(1) names]
  note IH = snoc.IH [OF names(1)]
  have none: "lookup_dir self m (par_path @ [name]) = None"
    using lookup_step [OF wfs(1) r(1) parent(2) r(4)] parent(1) r(7) by simp
  show ?case
  proof (cases "path = par_path @ [name]")
    case True
    with step step' IH none new_with_node(3) [OF room names(2)] show ?thesis by simp
  next
    case False
    with IH have same: "lookup_dir self ?m path = lookup_dir self m path" by simp
    show ?thesis
    proof (cases "lookup_dir self m path")
      case None
      with step step' same parent(1) show ?thesis by auto
    next
      case (Some qw)
      then obtain q w where q: "lookup_dir self m path = Some (q, w)" by (cases qw) auto
      have "short q" using lookup_root [OF q wfs(1) r(1) names(1)] by simp
      have "q = par \<longleftrightarrow> path = par_path"
        using lookup_inj [OF wfs(1) r(1) wfs(2) q _ names(1) parent(2)] q parent(1) by auto
      with step step' same q child_with_node [OF room \<open>short q\<close> names(2)] show ?thesis by auto
    qed
  qed
qed (use room_forD [OF room] in simp)

text \<open>The paths that a creation adds are the path and what was missing of its parents.\<close>

definition adds_paths :: "directory_layer \<Rightarrow> (bytes \<rightharpoonup> bytes) \<Rightarrow> (bytes \<rightharpoonup> bytes) \<Rightarrow> path \<Rightarrow> bool" where
  "adds_paths self m m' path \<longleftrightarrow> (\<forall>ns. (\<forall>n \<in> set ns. short n) \<longrightarrow>
     lookup_dir self m' ns = lookup_dir self m ns \<or> lookup_dir self m ns = None \<and> (\<exists>k. ns = take k path))"

section \<open>Growing trees\<close>

text \<open>
  The tree grows: values are allocated, nothing is lost, what is not metadata stays, the version
  is written at most once, and the new prefixes are those of new values or among the given ones.
\<close>

definition current_version :: bytes where
  "current_version = to_le_bytes MAJOR_VERSION @ to_le_bytes MINOR_VERSION @ to_le_bytes PATCH_VERSION"

definition version_step :: "directory_layer \<Rightarrow> (bytes \<rightharpoonup> bytes) \<Rightarrow> (bytes \<rightharpoonup> bytes) \<Rightarrow> bool" where
  "version_step self m m' \<longleftrightarrow> m' (version_key self) = m (version_key self) \<or>
     m (version_key self) = None \<and> m' (version_key self) = Some current_version"

lemma version_step_refl [simp]: "version_step self m m"
  by (simp add: version_step_def)

lemma version_step_trans: "version_step self m m1 \<Longrightarrow> version_step self m1 m2 \<Longrightarrow> version_step self m m2"
  by (auto simp: version_step_def)

definition grown ::
    "directory_layer \<Rightarrow> (bytes \<rightharpoonup> bytes) \<Rightarrow> u64 set \<Rightarrow> (bytes \<rightharpoonup> bytes) \<Rightarrow> u64 set \<Rightarrow> bytes set \<Rightarrow> bool" where
  "grown self m A m' A' P \<longleftrightarrow> A \<subseteq> A' \<and> dir_inv self m' A' \<and> keeps_dirs self m m' \<and>
     (\<forall>k. \<not> starts_with k (nodes_prefix self) \<longrightarrow> m' k = m k) \<and>
     (\<forall>q. in_use self m q \<longrightarrow> in_use self m' q) \<and>
     (\<forall>q. in_use self m' q \<longrightarrow> in_use self m q \<or> (\<exists>c \<in> A' - A. q = content_key self c) \<or> q \<in> P) \<and>
     version_step self m m'"

lemma grownD:
  assumes "grown self m A m' A' P"
  shows "A \<subseteq> A'" "dir_inv self m' A'" "keeps_dirs self m m'"
    "\<And>k. \<not> starts_with k (nodes_prefix self) \<Longrightarrow> m' k = m k"
    "\<And>q. in_use self m q \<Longrightarrow> in_use self m' q"
    "\<And>q. in_use self m' q \<Longrightarrow> in_use self m q \<or> (\<exists>c \<in> A' - A. q = content_key self c) \<or> q \<in> P"
    "version_step self m m'"
  using assms unfolding grown_def by blast+

lemma grown_refl: "dir_inv self m A \<Longrightarrow> grown self m A m A P"
  by (simp add: grown_def keeps_refl)

lemma grown_trans:
  assumes "grown self m A m1 A1 P" and "grown self m1 A1 m2 A2 Q"
  shows "grown self m A m2 A2 (P \<union> Q)"
  unfolding grown_def
proof (intro conjI allI impI)
  note 1 = grownD [OF assms(1)] and 2 = grownD [OF assms(2)]
  show "A \<subseteq> A2" "dir_inv self m2 A2" using 1(1) 2(1,2) by auto
  show "keeps_dirs self m m2" by (rule keeps_trans [OF 1(3) 2(3)])
  show "m2 k = m k" if "\<not> starts_with k (nodes_prefix self)" for k using 1(4) 2(4) that by simp
  show "in_use self m2 q" if "in_use self m q" for q using 1(5) 2(5) that by blast
  show "in_use self m q \<or> (\<exists>c \<in> A2 - A. q = content_key self c) \<or> q \<in> P \<union> Q" if "in_use self m2 q" for q
    using 1(1,6) 2(1,6) that by blast
  show "version_step self m m2" by (rule version_step_trans [OF 1(7) 2(7)])
qed

lemma nodes_prefix_start:
  assumes "wf_layer self"
  shows "starts_with (nodes_prefix self @ u) (nodes_prefix self)" "starts_with (version_key self) (nodes_prefix self)"
    "short p \<Longrightarrow> starts_with (layer_key self p) (nodes_prefix self)"
    "short p \<Longrightarrow> short n \<Longrightarrow> starts_with (name_key self p n) (nodes_prefix self)"
    "starts_with (hca_prefix self @ u) (nodes_prefix self)"
  using assms by (auto simp: starts_with_append key_eqs)

section \<open>The steps of a creation\<close>

context dir_store
begin

lemma check_version_view:
  assumes "check_version env self allow s = Some (Inr (u, s'))"
  shows "allow \<and> view s (version_key self) = None \<and> view s' = (view s)(version_key self \<mapsto> current_version) \<or>
    s' = s \<and> (allow \<longrightarrow> view s (version_key self) \<noteq> None)"
proof -
  from assms obtain found where found: "dir_get env (version_key self) s = Inr found"
    and rest: "(case found of None \<Rightarrow> if allow then initialize_directory env self else dir_ok ()
      | Some versions \<Rightarrow> dir_lift (check_versions versions allow)) s = Some (Inr (u, s'))"
    by (auto simp: check_version_def dir_Inr get_version_value_def version_key_def)
  from found have found: "found = view s (version_key self)" using get_ok by (auto simp: dir_get_def)
  show ?thesis
  proof (cases found)
    case None
    with rest found show ?thesis
      by (auto simp: initialize_directory_def Let_def dir_Inr view_set version_key_def current_version_def split: if_splits)
  next
    case (Some v)
    with rest have "dir_lift (check_versions v allow) s = Some (Inr (u, s'))" by simp
    then have "s' = s" by (simp add: dir_lift_Inr)
    with Some found show ?thesis by simp
  qed
qed

lemma check_version_read: "check_version env self False s = Some (Inr (u, s')) \<Longrightarrow> s' = s"
  using check_version_view by blast

lemma check_version_grown:
  assumes self: "wf_layer self" and inv: "dir_inv self (view s) A"
    and check: "check_version env self True s = Some (Inr (u, s'))"
  shows "grown self (view s) A (view s') A {} \<and>
    (\<forall>p n. short p \<longrightarrow> short n \<longrightarrow> child_at self (view s') p n = child_at self (view s) p n) \<and>
    view s' (version_key self) \<noteq> None"
proof -
  from check_version_view [OF check]
  consider "view s (version_key self) = None" "view s' = (view s)(version_key self \<mapsto> current_version)"
    | "s' = s" "view s (version_key self) \<noteq> None"
    by (auto simp del: not_None_eq)
  then show ?thesis
  proof cases
    case 1
    note w = version_write [OF self inv, where v = current_version, folded 1(2)]
    have "view s' k = view s k" if "\<not> starts_with k (nodes_prefix self)" for k
      using 1 that nodes_prefix_start(2) [OF self] by auto
    moreover have "version_step self (view s) (view s')" using 1 by (simp add: version_step_def)
    ultimately have "grown self (view s) A (view s') A {}"
      using w(1,2,3) unfolding grown_def by blast
    then show ?thesis using w(5) 1 by simp
  next
    case 2
    then show ?thesis using grown_refl [OF inv] by simp
  qed
qed

text \<open>An allocation finds no row under its prefix.\<close>

lemma get_prefix_grown:
  assumes self: "wf_layer self" and inv: "dir_inv self (view s) A" and version: "view s (version_key self) \<noteq> None"
    and prefix: "get_prefix env self None s = Some (Inr (np, s'))"
  obtains c where "c \<notin> A" and "np = content_key self c" and "grown self (view s) A (view s') (insert c A) {}"
    and "\<forall>k. starts_with k np \<longrightarrow> view s' k = None"
    and "\<forall>p n. short p \<longrightarrow> short n \<longrightarrow> child_at self (view s') p n = child_at self (view s) p n"
    and "used self (view s') (nodes_prefix self)"
proof -
  let ?opt = "\<lambda>c. (range_from_keys (content_key self c, strinc (content_key self c)))\<lparr>limit := Some 1\<rparr>"
  from prefix obtain c t result t' where alloc: "dir_allocate env self s = Some (Inr (c, t))"
    and first: "dir_first env (?opt c) t = Some (Inr (result, t'))"
    and rest: "(if result \<noteq> None then dir_fail PrefixNotEmpty else dir_ok (content_key self c)) t' = Some (Inr (np, s'))"
    unfolding get_prefix_def option.case Let_def dir_bind_Inr content_key_def [symmetric] by blast
  from rest have np: "result = None" "np = content_key self c" "t' = s'"
    by (cases result; simp add: dir_ok_Inr)+
  from alloc have alloc: "allocate (dir_kv env) (dir_ops env) (allocator self) (dir_draws env s) s = Some (Inr (c, t))"
    by (auto simp: dir_allocate_def bind_eq_Some_conv)
  have h: "allocator self = hca_new (sub_bytes (root_node self) DEFAULT_HCA_PREFIX)"
    and hinv: "hca_inv (allocator self) (view s) A" using self inv by (simp_all add: wf_layer_def dir_inv_def)
  note fresh = allocate_fresh [OF alloc [unfolded h] wf_hca_new hinv [unfolded h], folded h]
  have frame: "view t k = view s k" if "\<not> starts_with k (hca_prefix self)" for k
    using allocate_frame [OF alloc [unfolded h] hinv [unfolded h]] that by (simp add: hca_prefix_def)
  note change = hca_change [OF self inv frame fresh(2)]
  have "t = s' \<and> rows (view t) (?opt c) = []"
    using dir_first_row [of "?opt c" t] first np(1,3)
    by (cases "rows (view t) (?opt c)") (auto simp: selected_keys)
  then have s': "s' = t" and "\<forall>k. view t k \<noteq> None \<longrightarrow> \<not> (np \<le> k \<and> k < strinc np)"
    by (auto simp: rows_Nil [OF view_finite] selected_keys np(2))
  then have empty: "\<forall>k. starts_with k np \<longrightarrow> view t k = None"
    using strinc_range [OF content_key_ends, of self c] np(2) by blast
  have "view t k = view s k" if "\<not> starts_with k (nodes_prefix self)" for k
    using frame that nodes_prefix_start(5) [OF self] by (metis starts_with_append)
  moreover have "version_step self (view s) (view t)"
    using frame [OF not_hca_key(3) [OF self, of "nodes_prefix self"]] self by (simp add: version_step_def wf_layer_def)
  ultimately have "grown self (view s) A (view t) (insert c A) {}"
    using change(1,2,3) unfolding grown_def by blast
  with that [OF fresh(1) np(2)] empty change(4,5) version s' show thesis by simp
qed

lemma free_apart:
  assumes self: "wf_layer self" and inv: "dir_inv self (view s) A" and ns: "used self (view s) (nodes_prefix self)"
    and p: "short (p @ [0])" "p \<noteq> [] \<longrightarrow> strinc p \<noteq> []"
    and free: "is_prefix_free env self p s = Some (Inr (True, s'))"
  shows "s' = s \<and> apart_from_used self (view s) p"
proof -
  have wf: "wf_nodes self (view s)" and pf: "prefix_free_nodes self (view s)"
    using inv by (auto simp: dir_inv_def isolated_def in_use_def prefix_free_nodes_def)
  from is_prefix_free_iff [OF wf pf p ns free] ns show ?thesis
    by (auto simp: apart_from_used_def in_use_def)
qed

end

section \<open>Opened and created directories\<close>

lemma cmp_of_Equal [simp]: "cmp_of a b = Equal \<longleftrightarrow> a = b"
  by (simp add: cmp_of_def)

lemma compare_items_Equal:
  "compare_items ps l = Equal \<longleftrightarrow> l = Equal \<and> (\<forall>(a, b) \<in> set ps. a = b)"
  by (induction ps l rule: compare_items.induct) (auto split: ordering.splits simp: cmp_of_def)

lemma compare_slice_Equal: "compare_slice a b = Equal \<longleftrightarrow> a = b"
proof
  assume "compare_slice a b = Equal"
  then have "length a = length b" "\<forall>(x, y) \<in> set (zip a b). x = y"
    by (auto simp: compare_slice_def compare_items_Equal)
  then show "a = b" by (auto simp: list_eq_iff_zip_eq)
qed (auto simp: compare_slice_def compare_items_Equal in_set_zip)


lemma unpack_node:
  "subspace_unpack unpack_bytes (node_subspace self) (nodes_prefix self @ bytes_enc p) = Inr p"
proof -
  have "is_start_of (node_subspace self) (nodes_prefix self @ bytes_enc p)"
    by (simp add: is_start_of_def starts_with_def)
  then show ?thesis
    using unescape_escape [of "[]" p]
    by (simp add: subspace_unpack_def unpack_root_def bytes_enc_def unpack_bytes_def parse_slice_eq parse_code_def)
qed

lemma contents_of_plain_node:
  "short p \<Longrightarrow> layer \<noteq> PARTITION_LAYER \<Longrightarrow> contents_of_node self (node_with_prefix self p) path layer =
     Inr (DirectorySubspace (ds_new (to_absolute_path self path) p self layer))"
  by (simp add: contents_of_node_def prefix_node unpack_node)

lemma output_bytes_ds_new:
  "short p \<Longrightarrow> output_bytes (DirectorySubspace (ds_new path p self layer)) = Inr p"
  by (simp add: output_bytes_def ds_new_def subspace_of_def from_bytes_def short_def)

lemma grown_reduce:
  assumes "grown self m A m' A' P" and "\<And>q. q \<in> P \<Longrightarrow> q \<in> P' \<or> (\<exists>c \<in> A' - A. q = content_key self c)"
  shows "grown self m A m' A' P'"
  using assms unfolding grown_def by blast

lemma starts_both:
  "starts_with k p \<Longrightarrow> starts_with k q \<Longrightarrow> starts_with p q \<or> starts_with q p"
  by (auto simp: starts_with_append append_eq_append_conv2)

lemma grown_with_node:
  assumes room: "room_for self m par name np" and inv: "dir_inv self m A" and layer: "layer \<noteq> PARTITION_LAYER"
  shows "grown self m A (with_node self m par name np layer) A {np}"
proof -
  note r = room_forD [OF room]
  have "with_node self m par name np layer k = m k" if "\<not> starts_with k (nodes_prefix self)" for k
    using that nodes_prefix_start(3) [OF r(1,5)] nodes_prefix_start(4) [OF r(1,2,4)] by (auto simp: with_node_def)
  moreover have "keeps_dirs self m (with_node self m par name np layer)"
    using inv by (intro keeps_with_node [OF room]) (simp add: dir_inv_def)
  moreover have "version_step self m (with_node self m par name np layer)"
    using keys_inject(5) [OF r(5,5,1)] keys_inject(6) [OF r(2,2,1,4)] by (simp add: version_step_def with_node_def)
  ultimately show ?thesis
    using inv_with_node [OF room inv layer] in_use_with_node [OF room] unfolding grown_def by blast
qed

text \<open>What a successful call says: the directory was there and nothing changed, or it is new.\<close>

definition fresh_dir ::
    "directory_layer \<Rightarrow> (bytes \<rightharpoonup> bytes) \<Rightarrow> u64 set \<Rightarrow> (bytes \<rightharpoonup> bytes) \<Rightarrow> u64 set \<Rightarrow> bytes option \<Rightarrow> bytes \<Rightarrow> bool" where
  "fresh_dir self m A m' A' p q \<longleftrightarrow>
     apart_from_used self m q \<and> (\<forall>n. short n \<longrightarrow> child_at self m' q n = None) \<and>
     (case p of
        Some v \<Rightarrow> q = v
      | None \<Rightarrow> (\<exists>c \<in> A' - A. q = content_key self c) \<and> (\<forall>k. starts_with k q \<longrightarrow> m' k = None))"

definition layer_of :: "bytes option \<Rightarrow> bytes" where
  "layer_of layer = (case layer of None \<Rightarrow> [] | Some l \<Rightarrow> l)"

definition prefix_ok :: "directory_layer \<Rightarrow> (bytes \<rightharpoonup> bytes) \<Rightarrow> path \<Rightarrow> bytes option \<Rightarrow> bool" where
  "prefix_ok self m path p \<longleftrightarrow> (case p of None \<Rightarrow> True
     | Some v \<Rightarrow> short (v @ [0]) \<and> strinc v \<noteq> [] \<and> lookup_dir self m (butlast path) \<noteq> None)"

definition opened ::
    "directory_layer \<Rightarrow> (bytes \<rightharpoonup> bytes) \<Rightarrow> u64 set \<Rightarrow> (bytes \<rightharpoonup> bytes) \<Rightarrow> u64 set \<Rightarrow> path \<Rightarrow> bytes option \<Rightarrow>
     bytes option \<Rightarrow> bool \<Rightarrow> bool \<Rightarrow> bytes \<Rightarrow> directory_output \<Rightarrow> bool" where
  "opened self m A m' A' path p layer ac ao q out \<longleftrightarrow>
     grown self m A m' A' (set_option p) \<and> adds_paths self m m' path \<and>
     lookup_dir self m' path = Some (q, path) \<and>
     out = DirectorySubspace (ds_new (to_absolute_path self path) q self (layer_at self m' q)) \<and>
     (if lookup_dir self m path \<noteq> None
      then ao \<and> m' = m \<and> (layer_of layer \<noteq> [] \<longrightarrow> layer_of layer = layer_at self m q)
      else ac \<and> layer_at self m' q = layer_of layer \<and> fresh_dir self m A m' A' p q)"

lemma version_key_used:
  assumes "wf_layer self" and "m (version_key self) \<noteq> None"
  shows "used self m (nodes_prefix self)"
  using assms key_eqs(3) [OF assms(1)] unfolding used_def wf_layer_def by (metis no_escape_encs(2))

context dir_store
begin

lemma prepared:
  assumes self: "wf_layer self" and inv: "dir_inv self (view s) A"
    and check: "check_version env self True s = Some (Inr (u, s1))"
    and prefix: "get_prefix env self p s1 = Some (Inr (np, s2))"
  obtains A2 where "grown self (view s) A (view s2) A2 {}"
    and "\<forall>p n. short p \<longrightarrow> short n \<longrightarrow> child_at self (view s2) p n = child_at self (view s) p n"
    and "used self (view s2) (nodes_prefix self)"
    and "case p of Some v \<Rightarrow> np = v
      | None \<Rightarrow> (\<exists>c \<in> A2 - A. np = content_key self c) \<and> (\<forall>k. starts_with k np \<longrightarrow> view s2 k = None)"
proof -
  from check_version_grown [OF self inv check]
  have g: "grown self (view s) A (view s1) A {}" and v: "view s1 (version_key self) \<noteq> None"
    and ch: "\<forall>p n. short p \<longrightarrow> short n \<longrightarrow> child_at self (view s1) p n = child_at self (view s) p n" by blast+
  show thesis
  proof (cases p)
    case (Some v)
    with prefix have "np = v" "s2 = s1" by (simp_all add: get_prefix_def dir_ok_Inr)
    moreover then have "used self (view s2) (nodes_prefix self)"
      using version_key_used [of self "view s1", OF self v] by simp
    ultimately show thesis using Some g ch by (intro that) simp_all
  next
    case None
    from get_prefix_grown [OF self grownD(2) [OF g] v prefix [unfolded None]] obtain c where
      c: "c \<notin> A" "np = content_key self c" "grown self (view s1) A (view s2) (insert c A) {}"
      "\<forall>k. starts_with k np \<longrightarrow> view s2 k = None"
      "\<forall>p n. short p \<longrightarrow> short n \<longrightarrow> child_at self (view s2) p n = child_at self (view s1) p n"
      "used self (view s2) (nodes_prefix self)" by blast
    have "grown self (view s) A (view s2) (insert c A) {}" using grown_trans [OF g c(3)] by simp
    then show thesis by (rule that) (use None c ch in auto)
  qed
qed

lemma parent_node:
  assumes self: "wf_layer self" and inv: "dir_inv self (view s) A" and path: "path \<noteq> []" "\<forall>n \<in> set path. short n"
    and IH: "\<And>out s'. butlast path \<noteq> [] \<Longrightarrow>
      create_or_open_internal env self (butlast path) None None True True s = Some (Inr (out, s')) \<Longrightarrow>
      \<exists>A' q. opened self (view s) A (view s') A' (butlast path) None None True True q out"
    and missing: "lookup_dir self (view s) path = None"
    and parent: "get_parent_node env self path s = Some (Inr (sub, s'))"
  obtains par A' where "sub = node_with_prefix self par" and "short par" and "in_use self (view s') par"
    and "grown self (view s) A (view s') A' {}" and "lookup_dir self (view s') (butlast path) = Some (par, butlast path)"
    and "child_at self (view s') par (last path) = None"
    and "lookup_dir self (view s) (butlast path) \<noteq> None \<longrightarrow> view s' = view s"
    and "adds_paths self (view s) (view s') (butlast path)"
proof -
  have ns: "short (nodes_prefix self)" and root: "root_node self = node_with_prefix self (nodes_prefix self)"
    using self by (simp_all add: wf_layer_def)
  have children: "wf_children self (view s)" using inv by (simp add: dir_inv_def)
  have names: "\<forall>n \<in> set (butlast path). short n" "short (last path)"
    using path by (auto dest: in_set_butlastD)
  note snoc = lookup_snoc [OF children self path(2,1)]
  show thesis
  proof (cases "butlast path = []")
    case True
    with parent path(1) have "sub = root_node self" "s' = s"
      by (simp_all add: get_parent_node.simps dir_ok_Inr Let_def)
    moreover have "lookup_dir self (view s) (butlast path) = Some (nodes_prefix self, butlast path)"
      using True by (simp add: lookup_dir_def)
    moreover from snoc [OF this] missing have "child_at self (view s) (nodes_prefix self) (last path) = None" by simp
    ultimately show thesis
      using root ns grown_refl [OF inv] by (intro that) (auto simp: in_use_def adds_paths_def)
  next
    case False
    with parent path(1) obtain out where
      out: "create_or_open_internal env self (butlast path) None None True True s = Some (Inr (out, s'))"
      and sub: "bind_result (output_bytes out) (\<lambda>b. Inr (node_with_prefix self b)) = Inr sub"
      by (auto simp: get_parent_node.simps dir_Inr Let_def)
    from IH [OF False out] obtain A' q where
      o: "opened self (view s) A (view s') A' (butlast path) None None True True q out" by blast
    then have g: "grown self (view s) A (view s') A' {}"
      and look: "lookup_dir self (view s') (butlast path) = Some (q, butlast path)"
      and q: "out = DirectorySubspace (ds_new (to_absolute_path self (butlast path)) q self (layer_at self (view s') q))"
      by (simp_all add: opened_def)
    have children': "wf_children self (view s')" using grownD(2) [OF g] by (simp add: dir_inv_def)
    note used = lookup_root [OF look children' self names(1)]
    have "sub = node_with_prefix self q" using sub used by (simp add: q output_bytes_ds_new)
    moreover have "child_at self (view s') q (last path) = None \<and>
        (lookup_dir self (view s) (butlast path) \<noteq> None \<longrightarrow> view s' = view s)"
    proof (cases "lookup_dir self (view s) (butlast path)")
      case None
      with o names(2) show ?thesis by (simp add: opened_def fresh_dir_def)
    next
      case (Some r)
      with o have "view s' = view s" by (simp add: opened_def)
      with look snoc missing show ?thesis by simp
    qed
    moreover have "adds_paths self (view s) (view s') (butlast path)" using o by (simp add: opened_def)
    ultimately show thesis using g look used by (intro that) blast+
  qed
qed

text \<open>The new node after its parent.\<close>

lemma node_added:
  assumes self: "wf_layer self" and content: "short_content self"
    and np: "case p of Some v \<Rightarrow> np = v \<and> m3 = m2 \<and> short np
      | None \<Rightarrow> (\<exists>c \<in> A2 - A. np = content_key self c) \<and> (\<forall>k. starts_with k np \<longrightarrow> m2 k = None)"
    and apart: "apart_from_used self m2 np" and g: "grown self m A m2 A2 {}" "grown self m2 A2 m3 A3 {}"
    and par: "short par" "in_use self m3 par" "short name" "child_at self m3 par name = None"
    and layer: "layer \<noteq> PARTITION_LAYER"
  shows "room_for self m3 par name np" and "short np"
    and "grown self m A (with_node self m3 par name np layer) A3 (set_option p)"
    and "fresh_dir self m A (with_node self m3 par name np layer) A3 p np"
proof -
  note g2 = grownD [OF g(1)] and g3 = grownD [OF g(2)]
  show short: "short np"
    using np short_snoc [OF content_key_short [OF content]] by (auto split: option.splits)
  have apart3: "\<not> starts_with np q \<and> \<not> starts_with q np" if "in_use self m3 q" for q
  proof (cases p)
    case (Some v)
    with np apart that show ?thesis by (simp add: apart_from_used_def)
  next
    case None
    with np obtain c where c: "c \<in> A2" "np = content_key self c" by auto
    show ?thesis
    proof (cases "in_use self m2 q")
      case True
      with apart show ?thesis by (simp add: apart_from_used_def)
    next
      case False
      with g3(6) [OF that] obtain d where "d \<in> A3 - A2" "q = content_key self d" by blast
      with c content_keys_apart [of self c d] content_keys_apart [of self d c] show ?thesis by auto
    qed
  qed
  then show room: "room_for self m3 par name np"
    using self par short unfolding room_for_def apart_from_used_def by blast
  let ?m = "with_node self m3 par name np layer"
  have new: "\<exists>c \<in> A3 - A. q = content_key self c" if "q \<in> {} \<union> {} \<union> {np}" "q \<notin> set_option p" for q
    using np that g3(1) by (cases p) auto
  have w: "grown self m3 A3 ?m A3 {np}" by (rule grown_with_node [OF room g3(2) layer])
  show "grown self m A ?m A3 (set_option p)"
    using grown_reduce [OF grown_trans [OF grown_trans [OF g] w]] new by blast
  have ns: "\<not> starts_with np (nodes_prefix self) \<and> \<not> starts_with (nodes_prefix self) np"
    using apart by (simp add: apart_from_used_def in_use_def)
  have "?m k = m2 k" if "starts_with k np" for k
  proof -
    have "\<not> starts_with k (nodes_prefix self)" using starts_both [OF that] ns by blast
    then show ?thesis using g3(4) grownD(4) [OF w] by simp
  qed
  then have "case p of Some v \<Rightarrow> np = v
      | None \<Rightarrow> (\<exists>c \<in> A3 - A. np = content_key self c) \<and> (\<forall>k. starts_with k np \<longrightarrow> ?m k = None)"
    using np g3(1) by (cases p) auto
  moreover have "apart_from_used self m np"
    using apart g2(5) unfolding apart_from_used_def by blast
  ultimately show "fresh_dir self m A ?m A3 p np"
    using new_with_node(3) [OF room] unfolding fresh_dir_def by blast
qed

lemma created_opened:
  assumes self: "wf_layer self" and content: "short_content self" and inv: "dir_inv self (view s) A"
    and path: "path \<noteq> []" "\<forall>n \<in> set path. short n" and layer: "layer \<noteq> Some PARTITION_LAYER"
    and p: "prefix_ok self (view s) path p" and missing: "lookup_dir self (view s) path = None"
    and IH: "\<And>s out s' A. butlast path \<noteq> [] \<Longrightarrow> dir_inv self (view s) A \<Longrightarrow>
      create_or_open_internal env self (butlast path) None None True True s = Some (Inr (out, s')) \<Longrightarrow>
      \<exists>A' q. opened self (view s) A (view s') A' (butlast path) None None True True q out"
    and result: "create_internal env self path layer p ac s = Some (Inr (out, s'))"
  shows "\<exists>A' q. opened self (view s) A (view s') A' path p layer ac ao q out"
proof -
  have names: "\<forall>n \<in> set (butlast path). short n" "short (last path)"
    using path by (auto dest: in_set_butlastD)
  have lay: "layer_of layer \<noteq> PARTITION_LAYER"
    using layer by (auto simp: layer_of_def PARTITION_LAYER_def split: option.splits)
  from result path(1) obtain u s1 np s2 t free sub s3 where ac: ac
    and check: "check_version env self True s = Some (Inr (u, s1))"
    and prefix: "get_prefix env self p s1 = Some (Inr (np, s2))"
    and free: "is_prefix_free env self np s2 = Some (Inr (free, t))" and isfree: free
    and parent: "get_parent_node env self path t = Some (Inr (sub, s3))"
    and written: "contents_of_node self (node_with_prefix self np) path (layer_of layer) = Inr out"
      "s' = kv_set (dir_kv env) (pack_in (node_with_prefix self np) LAYER_SUFFIX) (layer_of layer)
        (kv_set (dir_kv env) (child_key sub (last path)) np s3)"
    by (auto simp: create_internal.simps Let_def dir_Inr layer_of_def [symmetric] split: if_splits)
  obtain A2 where g: "grown self (view s) A (view s2) A2 {}"
    and ch: "\<forall>p n. short p \<longrightarrow> short n \<longrightarrow> child_at self (view s2) p n = child_at self (view s) p n"
    and ns: "used self (view s2) (nodes_prefix self)"
    and np: "case p of Some v \<Rightarrow> np = v
      | None \<Rightarrow> (\<exists>c \<in> A2 - A. np = content_key self c) \<and> (\<forall>k. starts_with k np \<longrightarrow> view s2 k = None)"
    by (rule prepared [OF self inv check prefix])
  have np_short: "short (np @ [0])" "np \<noteq> [] \<longrightarrow> strinc np \<noteq> []"
    using np p content_key_short [OF content] content_key_ends by (auto simp: prefix_ok_def split: option.splits)
  from free_apart [OF self grownD(2) [OF g] ns np_short] free isfree
  have t: "t = s2" and apart: "apart_from_used self (view s2) np" by auto
  have children: "wf_children self (view s)" using inv by (simp add: dir_inv_def)
  have "short (nodes_prefix self)" using self by (simp add: wf_layer_def)
  then have same: "lookup_dir self (view s2) q = lookup_dir self (view s) q" if "\<forall>n \<in> set q. short n" for q
    unfolding lookup_dir_def using ch by (intro walk_same [OF _ children grownD(3) [OF g] _ that]) simp_all
  have missing2: "lookup_dir self (view s2) path = None" using missing same [OF path(2)] by simp
  obtain par A3 where par: "sub = node_with_prefix self par" "short par" "in_use self (view s3) par"
    and g3: "grown self (view s2) A2 (view s3) A3 {}"
    and look: "lookup_dir self (view s3) (butlast path) = Some (par, butlast path)"
    and none: "child_at self (view s3) par (last path) = None"
    and still: "lookup_dir self (view s2) (butlast path) \<noteq> None \<longrightarrow> view s3 = view s2"
    and paths3: "adds_paths self (view s2) (view s3) (butlast path)"
    by (rule parent_node [OF self grownD(2) [OF g] path IH [OF _ grownD(2) [OF g]] missing2 parent [unfolded t]])
  let ?m = "with_node self (view s3) par (last path) np (layer_of layer)"
  have m: "view s' = ?m"
    using written(2) par(1) by (simp add: view_set with_node_def name_key_def layer_key_def)
  have np': "case p of Some v \<Rightarrow> np = v \<and> view s3 = view s2 \<and> short np
      | None \<Rightarrow> (\<exists>c \<in> A2 - A. np = content_key self c) \<and> (\<forall>k. starts_with k np \<longrightarrow> view s2 k = None)"
    using np p still same [OF names(1)] short_snoc [OF np_short(1)] by (auto simp: prefix_ok_def split: option.splits)
  note added = node_added [OF self content np' apart g g3 par(2,3) names(2) none lay]
  have children3: "wf_children self (view s3)" "wf_children self ?m"
    using grownD(2) [OF g3] grownD(2) [OF added(3)] by (simp_all add: dir_inv_def)
  have "lookup_dir self ?m (butlast path) = Some (par, butlast path)"
    using walk_keeps [OF children3(1) keeps_with_node [OF added(1) children3(1)]] look names(1) self
    by (simp add: lookup_dir_def wf_layer_def)
  from lookup_snoc [OF children3(2) self path(2,1) this] new_with_node(1) [OF added(1)]
  have "lookup_dir self ?m path = Some (np, path)" by simp
  moreover have "adds_paths self (view s) ?m path"
    unfolding adds_paths_def
  proof (intro allI impI)
    fix ns :: path
    assume names_ns: "\<forall>n \<in> set ns. short n"
    have at: "path = butlast path @ [last path]" using path(1) by simp
    have prefixes: "\<exists>j. take k (butlast path) = take j path" for k
      using at by (metis append_eq_conv_conj butlast_conv_take take_take)
    show "lookup_dir self ?m ns = lookup_dir self (view s) ns \<or>
        lookup_dir self (view s) ns = None \<and> (\<exists>k. ns = take k path)"
    proof (cases "ns = path")
      case True
      then show ?thesis using missing by (metis order_refl take_all)
    next
      case False
      then have "lookup_dir self ?m ns = lookup_dir self (view s3) ns"
        using lookup_with_node [OF added(1) grownD(2) [OF g3] lay look names(1) names_ns] at by simp
      with paths3 same [OF names_ns] names_ns prefixes show ?thesis unfolding adds_paths_def by metis
    qed
  qed
  moreover have "out = DirectorySubspace (ds_new (to_absolute_path self path) np self (layer_of layer))"
    using written(1) contents_of_plain_node [OF added(2) lay] by simp
  ultimately have "opened self (view s) A ?m A3 path p layer ac ao np out"
    using added(3,4) missing ac new_with_node(2) [OF added(1)] by (simp add: opened_def)
  then show ?thesis unfolding m by blast
qed

lemma found_opened:
  assumes self: "wf_layer self" and inv: "dir_inv self (view s) A" and path: "\<forall>n \<in> set path. short n" "path \<noteq> []"
    and look: "lookup_dir self (view s) path = Some (q, w)"
    and result: "open_internal self layer \<lparr>node_sub = node_with_prefix self q, current_path = w, target_path = path,
      node_directory_layer = self, node_layer = layer_at self (view s) q\<rparr> ao s = Some (Inr (out, s'))"
  shows "opened self (view s) A (view s') A path p layer ac ao q out \<and> s' = s"
proof -
  have children: "wf_children self (view s)" using inv by (simp add: dir_inv_def)
  have "short (nodes_prefix self)" using self by (simp add: wf_layer_def)
  from walk_inv [OF children this path(1) look [unfolded lookup_dir_def]] path(2)
  have q: "w = path" "short q" "layer_at self (view s) q \<noteq> PARTITION_LAYER" by simp_all
  from result have ao: ao and s': "s' = s"
    and out: "get_contents \<lparr>node_sub = node_with_prefix self q, current_path = path, target_path = path,
      node_directory_layer = self, node_layer = layer_at self (view s) q\<rparr> = Inr out"
    and lay: "layer_of layer \<noteq> [] \<longrightarrow> layer_of layer = layer_at self (view s) q"
    by (auto simp: open_internal_def dir_lift_Inr bind_result_eq_Inr q(1) layer_of_def compare_slice_Equal
        split: if_splits option.splits ordering.splits)
  from out have "out = DirectorySubspace (ds_new (to_absolute_path self path) q self (layer_at self (view s) q))"
    using contents_of_plain_node [OF q(2,3)] by (simp add: get_contents_def)
  then show ?thesis
    using grown_refl [OF inv] look q(1) ao lay s' by (simp add: opened_def adds_paths_def)
qed

lemma create_or_open_opened:
  assumes self: "wf_layer self" and content: "short_content self"
  shows "create_or_open_internal env self path p layer ac ao s = Some (Inr (out, s')) \<Longrightarrow>
    dir_inv self (view s) A \<Longrightarrow> \<forall>n \<in> set path. short n \<Longrightarrow> layer \<noteq> Some PARTITION_LAYER \<Longrightarrow>
    prefix_ok self (view s) path p \<Longrightarrow>
    path \<noteq> [] \<and> (p \<noteq> None \<longrightarrow> allow_manual_prefixes self) \<and>
    (\<exists>A' q. opened self (view s) A (view s') A' path p layer ac ao q out)"
proof (induction path arbitrary: p layer ac ao s out s' A rule: rev_induct)
  case Nil
  then show ?case by (auto simp: create_or_open_internal.simps dir_Inr split: if_splits)
next
  case (snoc name path)
  let ?path = "path @ [name]"
  from snoc.prems(1) have manual: "p \<noteq> None \<longrightarrow> allow_manual_prefixes self"
    by (auto simp: create_or_open_internal.simps dir_Inr split: if_splits)
  with snoc.prems(1) obtain t found where check: "check_version env self False s = Some (Inr ((), t))"
    and find: "dir_find env self ?path t = Inr found"
    and rest: "(case found of
          Some node \<Rightarrow>
            if is_in_partition node False
            then let sub_path = node_subpath node
              in dir_bind (dir_lift (get_contents node)) (\<lambda>contents trx.
                   case contents of
                     DirectorySubspace _ \<Rightarrow> dir_panic trx
                   | DirectoryPartition directory_partition \<Rightarrow>
                       create_or_open_internal env (ds_directory_layer (dp_subspace directory_partition))
                         sub_path p layer ac ao trx) t
            else open_internal self layer node ao t
        | None \<Rightarrow> create_internal env self ?path layer p ac t) = Some (Inr (out, s'))"
    by (auto simp: create_or_open_internal.simps dir_bind_Inr dir_read_Inr split: if_splits)
  from check_version_read [OF check] have t: "t = s" .
  note found = find_walk [OF self find, unfolded t]
  show ?case
  proof (cases "lookup_dir self (view s) ?path")
    case None
    with found rest have "create_internal env self ?path layer p ac s = Some (Inr (out, s'))"
      by (simp add: t)
    from created_opened [OF self content snoc.prems(2) _ snoc.prems(3,4,5) None _ this] snoc.IH snoc.prems(3) manual
    show ?thesis by (auto simp: prefix_ok_def)
  next
    case (Some qw)
    then obtain q w where look: "lookup_dir self (view s) ?path = Some (q, w)" by (cases qw) auto
    have children: "wf_children self (view s)" using snoc.prems(2) by (simp add: dir_inv_def)
    have "layer_at self (view s) q \<noteq> PARTITION_LAYER"
      using walk_inv [OF children _ snoc.prems(3) look [unfolded lookup_dir_def]] self by (simp add: wf_layer_def)
    with found rest look have "open_internal self layer \<lparr>node_sub = node_with_prefix self q, current_path = w,
        target_path = ?path, node_directory_layer = self, node_layer = layer_at self (view s) q\<rparr> ao s =
      Some (Inr (out, s'))"
      by (simp add: t is_in_partition_def)
    from found_opened [OF self snoc.prems(2,3) _ look this, where p = p and ac = ac] manual show ?thesis by auto
  qed
qed

end

end
