(* ===== verification/Directory_Move.thy ===== *)
theory Directory_Move
  imports Directory_Create
begin

text \<open>
  Moving a directory: the subtree appears under the new path with the prefixes it had, and
  everything else stays.
\<close>

section \<open>The prefix a path leads to\<close>

definition dir_at :: "directory_layer \<Rightarrow> (bytes \<rightharpoonup> bytes) \<Rightarrow> path \<Rightarrow> bytes option" where
  "dir_at self m path = map_option fst (lookup_dir self m path)"

definition names_ok :: "path \<Rightarrow> bool" where
  "names_ok path \<longleftrightarrow> (\<forall>n \<in> set path. short n)"

lemma names_ok_simps [simp]:
  "names_ok []" "names_ok (n # path) \<longleftrightarrow> short n \<and> names_ok path"
  "names_ok (path @ path') \<longleftrightarrow> names_ok path \<and> names_ok path'"
  by (auto simp: names_ok_def)

lemma names_ok_butlast: "names_ok path \<Longrightarrow> names_ok (butlast path)"
  by (auto simp: names_ok_def dest: in_set_butlastD)

lemma names_ok_drop: "names_ok path \<Longrightarrow> names_ok (drop k path)"
  by (auto simp: names_ok_def dest: in_set_dropD)

lemma dir_invD:
  assumes "dir_inv self m A"
  shows "wf_nodes self m" "isolated self m" "wf_children self m" "one_parent self m" "wf_names self m"
    "hca_inv (allocator self) m A" "plain_root self m"
  using assms by (simp_all add: dir_inv_def)


lemma dir_at_Nil [simp]: "dir_at self m [] = Some (nodes_prefix self)"
  by (simp add: dir_at_def)

lemma dir_at_snoc:
  assumes "dir_inv self m A" and "wf_layer self" and "names_ok path" and "short name"
  shows "dir_at self m (path @ [name]) = Option.bind (dir_at self m path) (\<lambda>q. child_at self m q name)"
  using lookup_step [of self m path name] assms
  by (cases "lookup_dir self m path") (auto simp: dir_at_def names_ok_def dir_inv_def option.map_comp comp_def option.map_ident)

lemma dir_at_lookup:
  assumes "dir_inv self m A" and "wf_layer self" and "names_ok path"
  shows "lookup_dir self m path = map_option (\<lambda>q. (q, path)) (dir_at self m path)"
  using lookup_root [of self m path] assms
  by (cases "lookup_dir self m path") (auto simp: dir_at_def names_ok_def dir_inv_def)

lemma dir_at_short:
  assumes "dir_inv self m A" and "wf_layer self" and "names_ok path" and "dir_at self m path = Some q"
  shows "short q" and "in_use self m q" and "path \<noteq> [] \<Longrightarrow> layer_at self m q \<noteq> PARTITION_LAYER"
proof -
  from assms have look: "lookup_dir self m path = Some (q, path)" by (simp add: dir_at_lookup)
  from lookup_root [OF look dir_invD(3) [OF assms(1)] assms(2)] assms(3) show "short q" "in_use self m q"
    by (auto simp: names_ok_def)
  show "path \<noteq> [] \<Longrightarrow> layer_at self m q \<noteq> PARTITION_LAYER"
    using walk_inv [OF dir_invD(3) [OF assms(1)] _ _ look [unfolded lookup_dir_def]] assms(2,3)
    by (auto simp: names_ok_def wf_layer_def)
qed

lemma dir_at_inj:
  assumes "dir_inv self m A" and "wf_layer self" and "names_ok path" and "names_ok path'"
    and "dir_at self m path = Some q" and "dir_at self m path' = Some q"
  shows "path = path'"
  using lookup_inj [OF dir_invD(3) [OF assms(1)] assms(2) dir_invD(4) [OF assms(1)], of path q path path' path'] assms
  by (simp add: dir_at_lookup names_ok_def)

lemma dir_at_append_None:
  assumes "dir_at self m path = None"
  shows "dir_at self m (path @ rest) = None"
proof (induction rest rule: rev_induct)
  case (snoc n rest)
  then show ?case
    using walk_None_snoc [of self m "nodes_prefix self" "[]" "path @ rest" n] by (simp add: dir_at_def lookup_dir_def)
qed (simp add: assms)

section \<open>A name that changes\<close>

definition renamed ::
    "directory_layer \<Rightarrow> (bytes \<rightharpoonup> bytes) \<Rightarrow> bytes \<Rightarrow> bytes \<Rightarrow> bytes \<Rightarrow> bytes \<Rightarrow> bytes \<Rightarrow> bytes \<rightharpoonup> bytes" where
  "renamed self m par name par' name' q = (m(name_key self par' name' \<mapsto> q))(name_key self par name := None)"

definition can_rename ::
    "directory_layer \<Rightarrow> (bytes \<rightharpoonup> bytes) \<Rightarrow> bytes \<Rightarrow> bytes \<Rightarrow> bytes \<Rightarrow> bytes \<Rightarrow> bytes \<Rightarrow> bool" where
  "can_rename self m par name par' name' q \<longleftrightarrow>
     wf_layer self \<and> short par \<and> short name \<and> short par' \<and> short name' \<and> in_use self m par' \<and>
     child_at self m par name = Some q \<and> child_at self m par' name' = None"

lemma can_renameD:
  assumes "can_rename self m par name par' name' q"
  shows "wf_layer self" "short par" "short name" "short par'" "short name'" "in_use self m par'"
    "child_at self m par name = Some q" "child_at self m par' name' = None"
  using assms unfolding can_rename_def by blast+

lemma child_renamed:
  assumes "can_rename self m par name par' name' q" and "short p" and "short n"
  shows "child_at self (renamed self m par name par' name' q) p n =
    (if p = par \<and> n = name then None else if p = par' \<and> n = name' then Some q else child_at self m p n)"
  using keys_inject(2) [of p par n name self] keys_inject(2) [of p par' n name' self] can_renameD [OF assms(1)] assms(2,3)
  by (auto simp: child_at_def renamed_def)

lemma child_renamedD:
  assumes "can_rename self m par name par' name' q" and "short p" and "short n"
    and "child_at self (renamed self m par name par' name' q) p n = Some x"
  shows "p = par' \<and> n = name' \<and> x = q \<or> child_at self m p n = Some x \<and> \<not> (p = par \<and> n = name)"
  using assms(4) unfolding child_renamed [OF assms(1-3)] by (simp split: if_splits)

lemma layer_renamed:
  assumes "can_rename self m par name par' name' q" and "short p"
  shows "renamed self m par name par' name' q (layer_key self p) = m (layer_key self p)"
  using keys_inject(3) [of p par name self] keys_inject(3) [of p par' name' self] can_renameD [OF assms(1)] assms(2)
  by (simp add: renamed_def)

lemma inv_renamed:
  assumes can: "can_rename self m par name par' name' q" and inv: "dir_inv self m A"
  shows "dir_inv self (renamed self m par name par' name' q) A" (is "dir_inv self ?m A")
proof -
  note r = can_renameD [OF can] and i = dir_invD [OF inv]
  let ?m1 = "m(name_key self par' name' \<mapsto> q)"
  have sub: "?m k = Some v \<Longrightarrow> ?m1 k = Some v" for k v by (auto simp: renamed_def split: if_splits)
  note key = key_eqs(2) [OF r(4,5), of self]
  have "wf_nodes self ?m1" unfolding key using i(1) by (intro node_update(2)) (simp_all add: r(4))
  then have "wf_nodes self ?m" using sub unfolding wf_nodes_def by (metis not_Some_eq)
  moreover have "in_use self m p" if "in_use self ?m p" for p
  proof -
    from that sub have "in_use self ?m1 p" unfolding in_use_def used_def by (metis not_Some_eq)
    then show ?thesis unfolding key using in_use_update [OF r(4), of "INTZERO # str_enc name'"] r(6) by auto
  qed
  then have "isolated self ?m" using i(2) unfolding isolated_def by blast
  moreover have "wf_children self ?m"
    unfolding wf_children_def
  proof (intro allI impI)
    fix p n x
    assume "short p" "short n" "child_at self ?m p n = Some x"
    then obtain p' n' where old: "short p'" "short n'" "child_at self m p' n' = Some x"
      using child_renamedD [OF can] r(2,3,7) by blast
    from wf_childrenD [OF i(3) old] show "short x \<and> ?m (layer_key self x) \<noteq> None \<and> layer_at self ?m x \<noteq> PARTITION_LAYER"
      by (simp add: layer_at_def layer_renamed [OF can])
  qed
  moreover have "one_parent self ?m"
    unfolding one_parent_def
  proof (intro allI impI)
    fix p n x
    assume pn: "short p" "short n" "child_at self ?m p n = Some x"
    note old = one_parentD [OF i(4)]
    note D = child_renamedD [OF can]
    obtain p1 n1 where p1: "short p1" "short n1" "child_at self m p1 n1 = Some x"
      using D [OF pn] pn r(2,3,7) by blast
    have "p' = p \<and> n' = n" if that: "short p'" "short n'" "child_at self ?m p' n' = Some x" for p' n'
    proof (cases "x = q")
      case True
      have "u = par \<and> v = name" if "short u" "short v" "child_at self m u v = Some q" for u v
        using old(2) [OF r(2,3,7) that] .
      then show ?thesis using D [OF pn] D [OF that] True pn(1,2) that(1,2) by blast
    next
      case False
      then show ?thesis using D [OF pn] D [OF that] old(2) [OF pn(1,2)] that(1,2) by blast
    qed
    then show "x \<noteq> nodes_prefix self \<and> (\<forall>p' n'. short p' \<longrightarrow> short n' \<longrightarrow> child_at self ?m p' n' = Some x \<longrightarrow> p' = p \<and> n' = n)"
      using old(1) [OF p1] by blast
  qed
  moreover have "wf_names self ?m"
    unfolding wf_names_def
  proof (intro allI impI)
    fix p x
    assume k: "short p" "?m (nodes_prefix self @ bytes_enc p @ INTZERO # x) \<noteq> None"
    then show "\<exists>n. short n \<and> x = str_enc n"
      using wf_namesD [OF i(5) k(1)] r(5) by (auto simp: renamed_def key_eqs(2) [OF r(4,5)] split: if_splits)
  qed
  moreover have "plain_root self ?m"
    using i(7) layer_renamed [OF can, of "nodes_prefix self"] r(1) by (simp add: plain_root_def wf_layer_def)
  moreover have "hca_inv (allocator self) ?m A"
  proof -
    have "?m k = m k" if "starts_with k (hca_prefix self)" for k
      using that not_hca_key(2) [OF r(1,2,3)] not_hca_key(2) [OF r(1,4,5)] by (auto simp: renamed_def)
    moreover have "allocator self = hca_new (sub_bytes (root_node self) DEFAULT_HCA_PREFIX)"
      using r(1) by (simp add: wf_layer_def)
    ultimately show ?thesis using i(6) hca_inv_agree [of _ ?m m A] by (simp add: hca_prefix_def)
  qed
  ultimately show ?thesis by (simp add: dir_inv_def)
qed

text \<open>Where a path led before a move.\<close>

definition below :: "path \<Rightarrow> path \<Rightarrow> bool" where
  "below path ns \<longleftrightarrow> take (length path) ns = path"

definition before_move :: "path \<Rightarrow> path \<Rightarrow> path \<Rightarrow> path option" where
  "before_move old new ns =
     (if below new ns then Some (old @ drop (length new) ns) else if below old ns then None else Some ns)"

lemma below_append: "below path ns \<longleftrightarrow> (\<exists>r. ns = path @ r)"
  unfolding below_def by (metis append_eq_conv_conj)

lemma below_snoc: "below path (ns @ [n]) \<longleftrightarrow> below path ns \<or> path = ns @ [n]"
proof
  assume "below path (ns @ [n])"
  then obtain r where "ns @ [n] = path @ r" by (auto simp: below_append)
  then show "below path ns \<or> path = ns @ [n]"
    by (cases r rule: rev_cases) (auto simp: below_append)
qed (auto simp: below_append)

lemma below_None: "dir_at self m path = None \<Longrightarrow> below path ns \<Longrightarrow> dir_at self m ns = None"
  using dir_at_append_None by (auto simp: below_append)

lemma before_move_snoc:
  assumes "old \<noteq> new" and "\<not> below old new"
  shows "before_move old new (ns @ [n]) =
    (if new = ns @ [n] then Some old else if below new ns \<or> ns @ [n] \<noteq> old
     then map_option (\<lambda>s. s @ [n]) (before_move old new ns) else None)"
  using assms by (auto simp: before_move_def below_snoc) (auto simp: below_append)

lemma dir_at_renamed:
  assumes can: "can_rename self m par name par' name' q" and inv: "dir_inv self m A"
    and old: "names_ok oldp" "dir_at self m oldp = Some par" and new: "names_ok newp" "dir_at self m newp = Some par'"
    and apart: "\<not> below (oldp @ [name]) (newp @ [name'])"
  shows "names_ok ns \<Longrightarrow> dir_at self (renamed self m par name par' name' q) ns =
    Option.bind (before_move (oldp @ [name]) (newp @ [name']) ns) (dir_at self m)"
proof (induction ns rule: rev_induct)
  case Nil
  then show ?case by (simp add: before_move_def below_def)
next
  case (snoc n ns)
  let ?m = "renamed self m par name par' name' q" and ?old = "oldp @ [name]" and ?new = "newp @ [name']"
  note r = can_renameD [OF can]
  have names: "names_ok ns" "short n" using snoc.prems by simp_all
  have step: "dir_at self ?m (ns @ [n]) =
      Option.bind (Option.bind (before_move ?old ?new ns) (dir_at self m)) (\<lambda>x. child_at self ?m x n)"
    using dir_at_snoc [OF inv_renamed [OF can inv] r(1) names] snoc.IH [OF names(1)] by simp
  have old_q: "dir_at self m ?old = Some q"
    using dir_at_snoc [OF inv r(1) old(1) r(3)] old(2) r(7) by simp
  have new_None: "dir_at self m ?new = None"
    using dir_at_snoc [OF inv r(1) new(1) r(5)] new(2) r(8) by simp
  have "?old \<noteq> ?new" using old_q new_None by auto
  note snoc_path = before_move_snoc [OF this apart, of ns n]
  have not_new: "\<not> below ?new oldp" using below_None [OF new_None, of oldp] old(2) by auto
  have not_old: "\<not> below ?old newp" using apart by (simp add: below_snoc)
  have newp: "before_move ?old ?new newp = Some newp"
    using not_old by (simp add: before_move_def below_def)
  have oldp: "before_move ?old ?new oldp = Some oldp"
    using not_new by (simp add: before_move_def below_def)
  show ?case
  proof (cases "Option.bind (before_move ?old ?new ns) (dir_at self m)")
    case None
    then show ?thesis
      using step snoc_path newp new(2) dir_at_append_None [of self m _ "[n]"]
      by (cases "before_move ?old ?new ns") auto
  next
    case (Some x)
    then obtain s where s: "before_move ?old ?new ns = Some s" "dir_at self m s = Some x"
      by (auto simp: bind_eq_Some_conv)
    have s_ok: "names_ok s"
      using s(1) names(1) old(1) r(3) names_ok_drop [of ns] unfolding before_move_def by (auto split: if_splits)
    have x: "short x" using dir_at_short [OF inv r(1) s_ok s(2)] by simp
    have s_old: "x = par \<longleftrightarrow> s = oldp" and s_new: "x = par' \<longleftrightarrow> s = newp"
      using dir_at_inj [OF inv r(1) s_ok old(1) s(2)] dir_at_inj [OF inv r(1) s_ok new(1) s(2)] old(2) new(2) s(2)
      by auto
    have s_old': "s = oldp \<longleftrightarrow> ns = oldp" and s_new': "s = newp \<longleftrightarrow> ns = newp"
      using s(1) oldp newp not_old by (auto simp: before_move_def below_append split: if_splits)
    have child: "dir_at self ?m (ns @ [n]) =
        (if ns = oldp \<and> n = name then None else if ns = newp \<and> n = name' then Some q else child_at self m x n)"
      using step Some child_renamed [OF can x names(2)] s_old s_new s_old' s_new' by simp
    have same: "dir_at self m (s @ [n]) = child_at self m x n"
      using dir_at_snoc [OF inv r(1) s_ok names(2)] s(2) by simp
    show ?thesis
      using child same snoc_path s(1) old_q new_None not_new not_old \<open>?old \<noteq> ?new\<close> by auto
  qed
qed

lemma keeps_named:
  assumes can: "can_rename self m par name par' name' q" and children: "wf_children self m"
  shows "keeps_dirs self m (m(name_key self par' name' \<mapsto> x))"
  unfolding keeps_dirs_def
proof (intro allI impI)
  fix p n c
  note r = can_renameD [OF can]
  assume pn: "short p" "short n" "child_at self m p n = Some c"
  have "short c" using wf_childrenD(1) [OF children pn] .
  then show "child_at self (m(name_key self par' name' \<mapsto> x)) p n = Some c \<and>
      layer_at self (m(name_key self par' name' \<mapsto> x)) c = layer_at self m c"
    using pn keys_inject(2) [OF pn(1) r(4) pn(2) r(5), of self] keys_inject(3) [OF _ r(4,5), of c self] r(8)
    by (auto simp: child_at_def layer_at_def)
qed

text \<open>The tree as a map from paths to the prefix and the layer of a directory.\<close>

definition dir_entry :: "directory_layer \<Rightarrow> (bytes \<rightharpoonup> bytes) \<Rightarrow> path \<Rightarrow> (bytes \<times> bytes) option" where
  "dir_entry self m path = map_option (\<lambda>q. (q, layer_at self m q)) (dir_at self m path)"

lemma dir_at_keeps:
  assumes "wf_layer self" and "dir_inv self m A" and "keeps_dirs self m m'" and "names_ok path"
    and "dir_at self m path = Some q"
  shows "dir_at self m' path = Some q" and "path \<noteq> [] \<Longrightarrow> layer_at self m' q = layer_at self m q"
proof -
  show "dir_at self m' path = Some q"
    using walk_keeps [OF dir_invD(3) [OF assms(2)] assms(3), of "nodes_prefix self" path "[]"] assms
    by (auto simp: dir_at_def lookup_dir_def wf_layer_def names_ok_def)
  assume "path \<noteq> []"
  then obtain ns n where path: "path = ns @ [n]" by (cases path rule: rev_cases) auto
  have "Option.bind (dir_at self m ns) (\<lambda>p. child_at self m p n) = Some q"
    using assms(4,5) dir_at_snoc [OF assms(2,1), of ns n] path by simp
  then obtain p where p: "dir_at self m ns = Some p" "child_at self m p n = Some q" by (auto simp: bind_eq_Some_conv)
  have "short p" "short n" using dir_at_short(1) [OF assms(2,1) _ p(1)] assms(4) path by simp_all
  from keepsD(2) [OF assms(3) this p(2)] show "layer_at self m' q = layer_at self m q" .
qed

lemma dir_entry_same:
  assumes self: "wf_layer self" and inv: "dir_inv self m A" and keeps: "keeps_dirs self m m'"
    and ch: "\<forall>p n. short p \<longrightarrow> short n \<longrightarrow> child_at self m' p n = child_at self m p n"
    and ns: "names_ok ns"
  shows "dir_at self m' ns = dir_at self m ns" and "ns \<noteq> [] \<Longrightarrow> dir_entry self m' ns = dir_entry self m ns"
proof -
  show same: "dir_at self m' ns = dir_at self m ns"
    using walk_same [OF _ dir_invD(3) [OF inv] keeps, of "nodes_prefix self" ns "[]"] ch self ns
    by (simp add: dir_at_def lookup_dir_def wf_layer_def names_ok_def)
  show "ns \<noteq> [] \<Longrightarrow> dir_entry self m' ns = dir_entry self m ns"
    using same dir_at_keeps(2) [OF self inv keeps ns] by (cases "dir_at self m ns") (simp_all add: dir_entry_def)
qed

context dir_store
begin

lemma find_dir:
  assumes self: "wf_layer self" and inv: "dir_inv self (view s) A" and path: "names_ok path"
    and find: "dir_find env self path s = Inr r"
  shows "r = map_option (\<lambda>q. \<lparr>node_sub = node_with_prefix self q, current_path = path, target_path = path,
      node_directory_layer = self, node_layer = layer_at self (view s) q\<rparr>) (dir_at self (view s) path)"
  using find_walk [OF self find] dir_at_lookup [OF inv self path] by (cases "dir_at self (view s) path") simp_all

lemma remove_from_parent_clears:
  assumes self: "wf_layer self" and look: "lookup_dir self (view s) (butlast path) = Some (par, w)"
    and removed: "remove_from_parent env self path s = Some (Inr (u, s'))"
  shows "s' = kv_clear (dir_kv env) (name_key self par (last path)) s"
proof -
  from removed obtain found where find: "dir_find env self (butlast path) s = Inr found"
    and clear: "(case found of None \<Rightarrow> dir_ok () | Some parent_node \<Rightarrow>
      dir_write (kv_clear (dir_kv env) (child_key (node_sub parent_node) (last path)))) s = Some (Inr (u, s'))"
    by (auto simp: remove_from_parent_def dir_bind_Inr dir_read_Inr split: if_splits)
  from find_walk [OF self find] look clear show ?thesis by (simp add: dir_write_Inr name_key_def)
qed

lemma move_writes:
  assumes self: "wf_layer self" and inv: "dir_inv self (view s1) A" and old: "names_ok old" and new: "names_ok new"
    and apart: "\<not> below old new" and q: "dir_at self (view s1) old = Some q" and missing: "dir_at self (view s1) new = None"
    and par': "dir_at self (view s1) (butlast new) = Some par'"
    and removed: "remove_from_parent env self old (kv_set (dir_kv env) (name_key self par' (last new)) q s1) = Some (Inr (u, s'))"
  shows "\<exists>par. dir_at self (view s1) (butlast old) = Some par \<and>
    can_rename self (view s1) par (last old) par' (last new) q \<and>
    view s' = renamed self (view s1) par (last old) par' (last new) q"
proof -
  have ne: "old \<noteq> []" "new \<noteq> []" using apart missing by (auto simp: below_def)
  then have names: "names_ok (butlast old)" "short (last old)" "names_ok (butlast new)" "short (last new)"
    using old new by (auto simp: names_ok_def dest: in_set_butlastD)
  have "dir_at self (view s1) (butlast old @ [last old]) = Some q" using q ne by simp
  then obtain par where par: "dir_at self (view s1) (butlast old) = Some par" "child_at self (view s1) par (last old) = Some q"
    unfolding dir_at_snoc [OF inv self names(1,2)] by (auto simp: bind_eq_Some_conv)
  have none: "child_at self (view s1) par' (last new) = None"
    using missing par' dir_at_snoc [OF inv self names(3,4)] ne by simp
  note short = dir_at_short(1) [OF inv self names(1) par(1)] dir_at_short(1,2) [OF inv self names(3) par']
  have can: "can_rename self (view s1) par (last old) par' (last new) q"
    using self short names par none by (simp add: can_rename_def)
  let ?s2 = "kv_set (dir_kv env) (name_key self par' (last new)) q s1"
  have look: "lookup_dir self (view s1) (butlast old) = Some (par, butlast old)"
    using dir_at_lookup [OF inv self names(1)] par(1) by simp
  have "short (nodes_prefix self)" using self by (simp add: wf_layer_def)
  from walk_keeps [OF dir_invD(3) [OF inv] keeps_named [OF can dir_invD(3) [OF inv]] this _ look [unfolded lookup_dir_def]]
  have "lookup_dir self (view ?s2) (butlast old) = Some (par, butlast old)"
    using names(1) by (simp add: view_set lookup_dir_def names_ok_def)
  from remove_from_parent_clears [OF self this removed] have "s' = kv_clear (dir_kv env) (name_key self par (last old)) ?s2" .
  then have "view s' = renamed self (view s1) par (last old) par' (last new) q"
    by (simp add: view_clear view_set renamed_def)
  with par(1) can show ?thesis by blast
qed

lemma move_to_moves:
  assumes self: "wf_layer self" and inv: "dir_inv self (view s) A" and old: "names_ok old" and new: "names_ok new"
    and result: "move_to_internal env self old new s = Some (Inr (out, s'))"
  shows "\<exists>q layer. dir_entry self (view s) old = Some (q, layer) \<and> dir_at self (view s) new = None \<and>
    dir_at self (view s) (butlast new) \<noteq> None \<and> \<not> below old new \<and>
    out = DirectorySubspace (ds_new (to_absolute_path self new) q self layer) \<and>
    dir_inv self (view s') A \<and>
    (\<forall>k. \<not> starts_with k (nodes_prefix self) \<longrightarrow> view s' k = view s k) \<and>
    (\<forall>ns. names_ok ns \<longrightarrow> ns \<noteq> [] \<longrightarrow>
       dir_entry self (view s') ns = Option.bind (before_move old new ns) (dir_entry self (view s)))"
proof -
  from result obtain u s1 found found' where check: "check_version env self True s = Some (Inr (u, s1))"
    and cond: "\<not> (length old \<le> length new \<and> compare_slice old (take (length old) new) = Equal)"
    and finds: "dir_find env self old s1 = Inr found" "dir_find env self new s1 = Inr found'"
    and rest: "(case found of None \<Rightarrow> dir_fail PathDoesNotExists s1
      | Some old_node \<Rightarrow>
          let old_in = is_in_partition old_node False
          in case found' of
               Some new_node \<Rightarrow>
                 let new_in = is_in_partition new_node False
                 in if old_in \<or> new_in
                    then if \<not> old_in \<or> \<not> new_in \<or> current_path old_node \<noteq> current_path new_node
                         then dir_fail CannotMoveBetweenPartition s1
                         else dir_bind (dir_lift (get_contents new_node)) (\<lambda>contents.
                           output_move_to (\<lambda>layer old new trx. move_to_internal env layer old new trx)
                             contents (node_subpath old_node) (node_subpath new_node)) s1
                    else dir_fail DirAlreadyExists s1
             | None \<Rightarrow>
                 if old_in then dir_fail CannotMoveBetweenPartition s1
                 else if new = [] then dir_fail DirAlreadyExists s1
                 else
                   dir_bind (dir_read (\<lambda>trx. bind_result (dir_find env self (butlast new) trx)
                     (ok_or ParentDirDoesNotExists))) (\<lambda>parent_node.
                   dir_bind (dir_lift (map_err DirPack (subspace_unpack unpack_bytes
                     (node_subspace self) (prefix (node_sub old_node))))) (\<lambda>v.
                   dir_bind (dir_write (kv_set (dir_kv env)
                     (child_key (node_sub parent_node) (last new)) v)) (\<lambda>_.
                   dir_bind (remove_from_parent env self old) (\<lambda>_.
                     dir_lift (contents_of_node self (node_sub old_node) new
                       (node_layer old_node)))))) s1) = Some (Inr (out, s'))"
    by (auto simp: move_to_internal.simps dir_bind_Inr dir_read_Inr split: if_splits)
  have apart: "\<not> below old new"
  proof
    assume "below old new"
    then have "length old \<le> length new" "take (length old) new = old" by (auto simp: below_append)
    with cond show False by (simp add: compare_slice_Equal)
  qed
  from check_version_grown [OF self inv check]
  have g: "grown self (view s) A (view s1) A {}"
    and ch: "\<forall>p n. short p \<longrightarrow> short n \<longrightarrow> child_at self (view s1) p n = child_at self (view s) p n" by blast+
  have inv1: "dir_inv self (view s1) A" by (rule grownD(2) [OF g])
  note same = dir_entry_same [OF self inv grownD(3) [OF g] ch]
  note find_old = find_dir [OF self inv1 old finds(1)] and find_new = find_dir [OF self inv1 new finds(2)]
  from rest find_old obtain q where q: "dir_at self (view s1) old = Some q" by (cases "dir_at self (view s1) old") auto
  have ne: "old \<noteq> []" using apart by (auto simp: below_def)
  note qs = dir_at_short [OF inv1 self old q]
  have missing: "dir_at self (view s1) new = None"
    using rest find_old find_new q by (cases "dir_at self (view s1) new") (auto simp: is_in_partition_def Let_def)
  then have "new \<noteq> []" by auto
  have names: "names_ok (butlast new)" using new by (rule names_ok_butlast)
  from rest find_old find_new q missing \<open>new \<noteq> []\<close> qs(1)
  obtain parent u' where parent: "bind_result (dir_find env self (butlast new) s1) (ok_or ParentDirDoesNotExists) = Inr parent"
    and removed: "remove_from_parent env self old
      (kv_set (dir_kv env) (child_key (node_sub parent) (last new)) q s1) = Some (Inr (u', s'))"
    and out: "contents_of_node self (node_with_prefix self q) new (layer_at self (view s1) q) = Inr out"
    by (auto simp: is_in_partition_def Let_def dir_bind_Inr dir_read_Inr dir_lift_Inr dir_write_Inr
        prefix_node unpack_node)
  from parent obtain par' where par': "dir_at self (view s1) (butlast new) = Some par'"
    and node: "node_sub parent = node_with_prefix self par'"
    using find_dir [OF self inv1 names] by (cases "dir_at self (view s1) (butlast new)")
      (auto simp: bind_result_eq_Inr ok_or_def split: option.splits)
  from move_writes [OF self inv1 old new apart q missing par' removed [unfolded node name_key_def [symmetric]]]
  obtain par where par: "dir_at self (view s1) (butlast old) = Some par"
    and can: "can_rename self (view s1) par (last old) par' (last new) q"
    and view: "view s' = renamed self (view s1) par (last old) par' (last new) q" by blast
  note r = can_renameD [OF can]
  have inv': "dir_inv self (view s') A" unfolding view by (rule inv_renamed [OF can inv1])
  have dirs: "dir_at self (view s') ns = Option.bind (before_move old new ns) (dir_at self (view s1))" if "names_ok ns" for ns
    using dir_at_renamed [OF can inv1 names_ok_butlast [OF old] par names par' _ that] apart ne \<open>new \<noteq> []\<close>
    by (simp add: view)
  have layers: "layer_at self (view s') x = layer_at self (view s1) x" if "short x" for x
    using layer_renamed [OF can that] by (simp add: view layer_at_def)
  have "dir_entry self (view s') ns = Option.bind (before_move old new ns) (dir_entry self (view s))"
    if ns: "names_ok ns" "ns \<noteq> []" for ns
  proof (cases "before_move old new ns")
    case None
    then show ?thesis using dirs [OF ns(1)] by (simp add: dir_entry_def)
  next
    case (Some p)
    have p: "names_ok p" "p \<noteq> []"
      using Some ns old ne names_ok_drop [of ns] by (auto simp: before_move_def split: if_splits)
    have "dir_entry self (view s') ns = dir_entry self (view s1) p"
      using dirs [OF ns(1)] Some layers dir_at_short(1) [OF inv1 self p(1)]
      by (cases "dir_at self (view s1) p") (simp_all add: dir_entry_def)
    with Some same(2) [OF p] show ?thesis by simp
  qed
  moreover have "view s' k = view s k" if "\<not> starts_with k (nodes_prefix self)" for k
  proof -
    have "view s' k = view s1 k"
      using that nodes_prefix_start(4) [OF self r(2,3)] nodes_prefix_start(4) [OF self r(4,5)] by (auto simp: view renamed_def)
    then show ?thesis using grownD(4) [OF g that] by simp
  qed
  moreover have "out = DirectorySubspace (ds_new (to_absolute_path self new) q self (layer_at self (view s1) q))"
    using out contents_of_plain_node [OF qs(1) qs(3) [OF ne]] by simp
  moreover have "dir_entry self (view s) old = Some (q, layer_at self (view s1) q)"
    using same(2) [OF old ne] q by (simp add: dir_entry_def)
  moreover have "dir_at self (view s) new = None" "dir_at self (view s) (butlast new) \<noteq> None"
    unfolding same(1) [OF new, symmetric] same(1) [OF names, symmetric] using missing par' by simp_all
  ultimately show ?thesis using inv' apart by blast
qed

end

end
