(* ===== verification/Directory_Remove.thy ===== *)
theory Directory_Remove
  imports Directory_Move
begin

text \<open>
  Removing a directory: the rows of the prefixes and the nodes of its subtree are cleared, and
  everything else stays.
\<close>

section \<open>Cleared keys\<close>

text \<open>The directories of a tree, those below a prefix, and the keys that removing one clears.\<close>

definition is_child :: "directory_layer \<Rightarrow> (bytes \<rightharpoonup> bytes) \<Rightarrow> bytes \<Rightarrow> bytes \<Rightarrow> bool" where
  "is_child self m p c \<longleftrightarrow> (\<exists>n. short n \<and> child_at self m p n = Some c)"

definition dirs :: "directory_layer \<Rightarrow> (bytes \<rightharpoonup> bytes) \<Rightarrow> bytes set" where
  "dirs self m = {c. \<exists>p. short p \<and> is_child self m p c}"

inductive reach :: "directory_layer \<Rightarrow> (bytes \<rightharpoonup> bytes) \<Rightarrow> bytes \<Rightarrow> bytes \<Rightarrow> bool" for self m p where
  reach_refl: "reach self m p p"
| reach_child: "reach self m p q \<Longrightarrow> is_child self m q c \<Longrightarrow> reach self m p c"

definition closed :: "directory_layer \<Rightarrow> (bytes \<rightharpoonup> bytes) \<Rightarrow> bytes set \<Rightarrow> bool" where
  "closed self m D \<longleftrightarrow> (\<forall>d c. d \<in> D \<longrightarrow> is_child self m d c \<longrightarrow> c \<in> D)"

definition cleared :: "directory_layer \<Rightarrow> bytes \<Rightarrow> bytes \<Rightarrow> bool" where
  "cleared self d k \<longleftrightarrow> d \<le> k \<and> k < strinc d \<or>
     nodes_prefix self @ bytes_enc d @ [0] \<le> k \<and> k < nodes_prefix self @ bytes_enc d @ [0xff]"

definition wipe :: "directory_layer \<Rightarrow> (bytes \<rightharpoonup> bytes) \<Rightarrow> bytes set \<Rightarrow> bytes \<rightharpoonup> bytes" where
  "wipe self m D = (\<lambda>k. if \<exists>d \<in> D. cleared self d k then None else m k)"

lemma closedD: "closed self m D \<Longrightarrow> d \<in> D \<Longrightarrow> is_child self m d c \<Longrightarrow> c \<in> D"
  unfolding closed_def by blast

lemma closed_reach: "reach self m p q \<Longrightarrow> closed self m D \<Longrightarrow> p \<in> D \<Longrightarrow> q \<in> D"
  by (induction rule: reach.induct) (auto dest: closedD)

lemma reach_step: "is_child self m p c \<Longrightarrow> reach self m c q \<Longrightarrow> reach self m p q"
  by (rotate_tac, induction rule: reach.induct) (auto intro: reach.intros)

lemma dirs_facts:
  assumes "dir_inv self m A" and "d \<in> dirs self m"
  shows "short d" "in_use self m d" "d \<noteq> nodes_prefix self" "m (layer_key self d) \<noteq> None"
    "layer_at self m d \<noteq> PARTITION_LAYER"
proof -
  from assms(2) obtain p n where c: "short p" "short n" "child_at self m p n = Some d"
    by (auto simp: dirs_def is_child_def)
  from wf_childrenD [OF dir_invD(3) [OF assms(1)] c] one_parentD(1) [OF dir_invD(4) [OF assms(1)] c]
  show "short d" "in_use self m d" "d \<noteq> nodes_prefix self" "m (layer_key self d) \<noteq> None"
    "layer_at self m d \<noteq> PARTITION_LAYER"
    using in_use_layer by auto
qed

lemma node_range:
  "nodes_prefix self @ bytes_enc d @ [0] \<le> k \<and> k < nodes_prefix self @ bytes_enc d @ [0xff] \<longleftrightarrow>
   (\<exists>b r. k = nodes_prefix self @ bytes_enc d @ b # r \<and> b \<noteq> 0xff)"
proof
  assume range: "nodes_prefix self @ bytes_enc d @ [0] \<le> k \<and> k < nodes_prefix self @ bytes_enc d @ [0xff]"
  obtain r where r: "k = (nodes_prefix self @ bytes_enc d) @ r" "[0] \<le> r" "r < [0xff]"
    using between_appended [of "nodes_prefix self @ bytes_enc d" "[0]" k "[0xff]"] range by auto
  then obtain b r' where "r = b # r'" "b < 0xff" by (auto simp: single_le less_single)
  with r(1) show "\<exists>b r. k = nodes_prefix self @ bytes_enc d @ b # r \<and> b \<noteq> 0xff" by auto
next
  assume "\<exists>b r. k = nodes_prefix self @ bytes_enc d @ b # r \<and> b \<noteq> 0xff"
  then show "nodes_prefix self @ bytes_enc d @ [0] \<le> k \<and> k < nodes_prefix self @ bytes_enc d @ [0xff]"
    using byte_less_ff by (auto simp: single_le word_gt_0)
qed

text \<open>Removing a directory clears no key of another node, and no row of another directory.\<close>

lemma cleared_node_key:
  assumes inv: "dir_inv self m A" and d: "d \<in> dirs self m" and "b \<noteq> 0xff"
  shows "cleared self d (nodes_prefix self @ bytes_enc p @ b # r) \<longleftrightarrow> d = p"
proof -
  let ?k = "nodes_prefix self @ bytes_enc p @ b # r"
  note f = dirs_facts [OF inv d]
  have "\<not> (d \<le> ?k \<and> ?k < strinc d)"
  proof
    assume range: "d \<le> ?k \<and> ?k < strinc d"
    then have "strinc d \<noteq> []" by auto
    with range strinc_range have "starts_with ?k d" by blast
    moreover have "starts_with ?k (nodes_prefix self)" by (simp add: starts_with_append)
    ultimately have "starts_with d (nodes_prefix self) \<or> starts_with (nodes_prefix self) d" by (rule starts_both)
    with f(2,3) dir_invD(2) [OF inv] show False unfolding isolated_def in_use_def by metis
  qed
  moreover have "(\<exists>b' r'. ?k = nodes_prefix self @ bytes_enc d @ b' # r' \<and> b' \<noteq> 0xff) \<longleftrightarrow> d = p"
  proof
    assume "\<exists>b' r'. ?k = nodes_prefix self @ bytes_enc d @ b' # r' \<and> b' \<noteq> 0xff"
    then obtain b' r' where eq: "bytes_enc p @ b # r = bytes_enc d @ b' # r'" and b': "b' \<noteq> 0xff" by auto
    have "no_escape (b # r)" by (simp add: no_escape_def ESCAPE_def \<open>b \<noteq> 0xff\<close>)
    moreover have "no_escape (b' # r')" by (simp add: no_escape_def ESCAPE_def b')
    ultimately show "d = p" using enc_inject(1) [of "b # r" "b' # r'" p d] eq by simp
  next
    assume "d = p"
    with \<open>b \<noteq> 0xff\<close> show "\<exists>b' r'. ?k = nodes_prefix self @ bytes_enc d @ b' # r' \<and> b' \<noteq> 0xff" by blast
  qed
  ultimately show ?thesis unfolding cleared_def node_range by (simp only: simp_thms)
qed

lemma cleared_other:
  assumes inv: "dir_inv self m A" and d: "d \<in> dirs self m" and k: "\<not> starts_with k (nodes_prefix self)"
  shows "cleared self d k \<longleftrightarrow> strinc d \<noteq> [] \<and> starts_with k d"
proof -
  have "\<not> (\<exists>b r. k = nodes_prefix self @ bytes_enc d @ b # r \<and> b \<noteq> 0xff)"
    using k by (auto simp: starts_with_append)
  moreover have "d \<le> k \<and> k < strinc d \<longleftrightarrow> strinc d \<noteq> [] \<and> starts_with k d"
    using strinc_range [of d k] by (cases "strinc d = []") auto
  ultimately show ?thesis unfolding cleared_def node_range by blast
qed

lemma wipe_node_key:
  assumes inv: "dir_inv self m A" and D: "D \<subseteq> dirs self m" and "b \<noteq> 0xff"
  shows "wipe self m D (nodes_prefix self @ bytes_enc p @ b # r) =
    (if p \<in> D then None else m (nodes_prefix self @ bytes_enc p @ b # r))"
proof -
  have "cleared self d (nodes_prefix self @ bytes_enc p @ b # r) \<longleftrightarrow> d = p" if "d \<in> D" for d
    using cleared_node_key [OF inv _ \<open>b \<noteq> 0xff\<close>] that D by blast
  then have "(\<exists>d \<in> D. cleared self d (nodes_prefix self @ bytes_enc p @ b # r)) \<longleftrightarrow> p \<in> D" by blast
  then show ?thesis by (simp add: wipe_def)
qed

lemma wipe_tree:
  assumes inv: "dir_inv self m A" and D: "D \<subseteq> dirs self m" and "short p"
  shows "short n \<Longrightarrow> child_at self (wipe self m D) p n = (if p \<in> D then None else child_at self m p n)"
    and "wipe self m D (layer_key self p) = (if p \<in> D then None else m (layer_key self p))"
proof -
  show "short n \<Longrightarrow> child_at self (wipe self m D) p n = (if p \<in> D then None else child_at self m p n)"
    using wipe_node_key [OF inv D, of INTZERO p "str_enc n"] assms(3)
    by (simp add: child_at_def key_eqs INTZERO_def)
  show "wipe self m D (layer_key self p) = (if p \<in> D then None else m (layer_key self p))"
    using wipe_node_key [OF inv D, of BYTES p "escape LAYER_SUFFIX @ [NIL]"] assms(3)
    by (simp add: key_eqs BYTES_def bytes_enc_def)
qed

text \<open>A state of a removal: the directories of \<open>D\<close>, and with them all below, are gone.\<close>

definition wiped :: "directory_layer \<Rightarrow> (bytes \<rightharpoonup> bytes) \<Rightarrow> bytes set \<Rightarrow> (bytes \<rightharpoonup> bytes) \<Rightarrow> bool" where
  "wiped self m D m' \<longleftrightarrow> m' = wipe self m D \<and> D \<subseteq> dirs self m \<and> closed self m D"

lemma wiped_refl: "wiped self m {} m"
  by (simp add: wiped_def wipe_def closed_def)

lemma wiped_insert:
  assumes "wiped self m D m'" and "p \<in> dirs self m" and "\<And>c. is_child self m p c \<Longrightarrow> c \<in> D"
  shows "wiped self m (insert p D) (\<lambda>k. if cleared self p k then None else m' k)"
  using assms by (auto simp: wiped_def wipe_def closed_def)

lemma is_child_dirs: "p \<in> dirs self m \<Longrightarrow> dir_inv self m A \<Longrightarrow> is_child self m p c \<Longrightarrow> c \<in> dirs self m"
  using dirs_facts(1) unfolding dirs_def by blast

section \<open>The stream of children\<close>

abbreviation sub_key :: "directory_layer \<Rightarrow> bytes \<Rightarrow> bytes" where
  "sub_key self p \<equiv> nodes_prefix self @ bytes_enc p @ [INTZERO]"

definition sub_range :: "directory_layer \<Rightarrow> bytes \<Rightarrow> range_option \<Rightarrow> bool" where
  "sub_range self p opt \<longleftrightarrow> plain opt \<and> limit opt = None \<and> \<not> rev_order opt \<and>
     (\<forall>k. selected opt k \<longrightarrow> starts_with k (sub_key self p))"

lemma sub_range_start:
  assumes "short p"
  shows "sub_range self p (range_of_subspace (sub_dirs (node_with_prefix self p)))"
    and "short n \<Longrightarrow> selected (range_of_subspace (sub_dirs (node_with_prefix self p))) (name_key self p n)"
proof -
  let ?p = "sub_key self p" and ?opt = "range_of_subspace (sub_dirs (node_with_prefix self p))"
  have sel: "selected ?opt k \<longleftrightarrow> ?p @ [0] \<le> k \<and> k < ?p @ [0xff]" for k
    using assms by (simp add: range_of_subspace_def range_from_keys_def subspace_range_def selected_def
        default_range_def first_greater_or_equal_def ks_new_def prefix_sub_dirs prefix_node)
  have "starts_with k ?p" if "selected ?opt k" for k
    using between_appended [of ?p "[0]" k "[0xff]"] that sel by (auto simp: starts_with_append)
  then show "sub_range self p ?opt"
    by (simp add: sub_range_def plain_def range_of_subspace_def range_from_keys_def subspace_range_def
        default_range_def first_greater_or_equal_def ks_new_def)
  show "selected ?opt (name_key self p n)" if "short n"
    using that assms by (simp add: sel key_eqs str_enc_def STRING_def)
qed

lemma next_range_sub:
  assumes sub: "sub_range self p opt" and next_opt: "next_range opt page = Some opt'"
    and first: "\<forall>(k, v) \<in> set (fst page). selected opt k"
  shows "sub_range self p opt'"
proof -
  from next_opt have ne: "fst page \<noteq> []" and opt': "opt' = opt\<lparr>ro_begin := make_first_greater_than (fst (last (fst page))) (ro_begin opt)\<rparr>"
    using sub by (auto simp: next_range_def sub_range_def Let_def split: if_splits)
  have "last (fst page) \<in> set (fst page)" using ne by simp
  then have "selected opt (fst (last (fst page)))" using first by (auto simp: case_prod_beta)
  then have "selected opt k" if "selected opt' k" for k
    using that by (auto simp: selected_def opt' make_first_greater_than_def split: if_splits)
  then show ?thesis
    using sub by (simp add: sub_range_def opt' plain_def make_first_greater_than_def)
qed

text \<open>What is in a batch of the children of \<open>p\<close>, and where the others are.\<close>

context dir_store
begin

lemma child_batch:
  assumes inv: "dir_inv self m A" and p: "short p" and D: "D \<subseteq> dirs self m" and view: "view s = wipe self m D"
    and opt: "sub_range self p opt" and page: "kv_get_range (dir_kv env) s opt i = Inr page"
  shows "\<forall>row \<in> set (fst page). \<exists>n. short n \<and> child_at self m p n = Some (snd row)"
    and "\<And>opt'. next_range opt page = Some opt' \<Longrightarrow> sub_range self p opt'"
    and "\<And>n c. \<lbrakk>short n; child_at self m p n = Some c; p \<notin> D; selected opt (name_key self p n)\<rbrakk> \<Longrightarrow>
      c \<in> snd ` set (fst page) \<or> (\<exists>opt'. next_range opt page = Some opt' \<and> selected opt' (name_key self p n))"
proof -
  obtain kvs has_more where pg: "page = (kvs, has_more)" by (cases page)
  have opts: "plain opt" "limit opt = None" using opt by (simp_all add: sub_range_def)
  note scan = next_range_scan [OF opts(1) page [unfolded pg]]
  have split: "case next_range opt page of None \<Rightarrow> rows (view s) opt = kvs
      | Some opt' \<Rightarrow> rows (view s) opt = kvs @ rows (view s) opt' \<and> sub_range self p opt'"
  proof (cases "next_range opt page")
    case None
    then show ?thesis using scan opts(2) by (simp add: pg scan_rows_def)
  next
    case (Some opt')
    have "set kvs \<subseteq> set (rows (view s) opt)"
      using range_ok [OF opts(1) page [unfolded pg]] by auto
    then have "\<forall>(k, v) \<in> set (fst page). selected opt k"
      using rows_value [OF view_finite] by (fastforce simp: pg)
    from next_range_sub [OF opt Some this] have "sub_range self p opt'" .
    moreover from this have "limit opt' = None" by (simp add: sub_range_def)
    ultimately show ?thesis using Some scan opts(2) by (simp add: pg scan_rows_def)
  qed
  then have sub: "set kvs \<subseteq> set (rows (view s) opt)" by (auto split: option.splits)
  show "\<forall>row \<in> set (fst page). \<exists>n. short n \<and> child_at self m p n = Some (snd row)"
  proof
    fix row :: "bytes \<times> bytes"
    obtain k v where row1: "row = (k, v)" by (cases row) blast
    assume "row \<in> set (fst page)"
    with row1 sub have row: "row = (k, v)" "(k, v) \<in> set (rows (view s) opt)" by (auto simp: pg)
    from rows_value [OF view_finite row(2)] have v: "view s k = Some v" "selected opt k" by simp_all
    with opt obtain r where k: "k = nodes_prefix self @ bytes_enc p @ INTZERO # r"
      by (auto simp: sub_range_def starts_with_append)
    with v(1) view have m: "m k = Some v" by (auto simp: wipe_def split: if_splits)
    with wf_namesD [OF dir_invD(5) [OF inv] p] k obtain n where n: "short n" "r = str_enc n" by auto
    with k m p row(1) show "\<exists>n. short n \<and> child_at self m p n = Some (snd row)"
      by (auto simp: child_at_def key_eqs)
  qed
  show "sub_range self p opt'" if "next_range opt page = Some opt'" for opt'
    using split that by simp
  show "c \<in> snd ` set (fst page) \<or> (\<exists>opt'. next_range opt page = Some opt' \<and> selected opt' (name_key self p n))"
    if c: "short n" "child_at self m p n = Some c" "p \<notin> D" "selected opt (name_key self p n)" for n c
  proof -
    have "view s (name_key self p n) = Some c"
      using wipe_tree(1) [OF inv D p c(1)] c(2,3) by (simp add: view child_at_def)
    then have "name_key self p n \<in> fst ` set (rows (view s) opt)"
      unfolding rows_keys [OF view_finite] using c(4) by auto
    then obtain v where kv: "(name_key self p n, v) \<in> set (rows (view s) opt)" by auto
    have "v = c" using rows_value [OF view_finite kv] \<open>view s (name_key self p n) = Some c\<close> by simp
    with kv have "c \<in> snd ` set kvs \<or> (\<exists>opt'. next_range opt page = Some opt' \<and> (name_key self p n, c) \<in> set (rows (view s) opt'))"
      using split by (cases "next_range opt page") force+
    then show ?thesis using rows_value [OF view_finite] by (auto simp: pg)
  qed
qed

lemma clear_node:
  assumes "short p"
  shows "view (clear_subspace_range (dir_kv env) (node_with_prefix self p) (kv_clear_range (dir_kv env) p (strinc p) s)) =
    (\<lambda>k. if cleared self p k then None else view s k)"
  using assms
  by (auto simp: clear_subspace_range_def subspace_range_def view_clear_range prefix_node cleared_def)

lemma remove_wipes:
  assumes inv: "dir_inv self m A"
  shows "(\<forall>p s s' u D. remove_recursive fuel env self (node_with_prefix self p) s = Some (Inr (u, s')) \<longrightarrow>
      p \<in> dirs self m \<longrightarrow> wiped self m D (view s) \<longrightarrow>
      (\<exists>D'. wiped self m D' (view s') \<and> insert p D \<subseteq> D' \<and> D' \<subseteq> D \<union> {q. reach self m p q})) \<and>
    (\<forall>p i maybe_opt items s s' u D.
      remove_children fuel env self i maybe_opt items s = Some (Inr (u, s')) \<longrightarrow>
      p \<in> dirs self m \<longrightarrow> wiped self m D (view s) \<longrightarrow>
      (\<forall>row \<in> set items. is_child self m p (snd row)) \<longrightarrow>
      (\<forall>opt. maybe_opt = Some opt \<longrightarrow> sub_range self p opt) \<longrightarrow>
      (\<forall>n c. short n \<longrightarrow> child_at self m p n = Some c \<longrightarrow> c \<in> D \<or> c \<in> snd ` set items \<or>
        (\<exists>opt. maybe_opt = Some opt \<and> selected opt (name_key self p n))) \<longrightarrow>
      (\<exists>D'. wiped self m D' (view s') \<and> D \<subseteq> D' \<and> D' \<subseteq> D \<union> {q. reach self m p q} \<and>
        (\<forall>c. is_child self m p c \<longrightarrow> c \<in> D')))"
    (is "?R fuel \<and> ?C fuel")
proof (induction fuel)
  case 0
  show ?case by (simp add: remove_recursive.simps remove_children.simps)
next
  case (Suc fuel)
  note R = Suc.IH [THEN conjunct1] and C = Suc.IH [THEN conjunct2]
  show ?case
  proof (intro conjI allI impI)
    fix p s s' u D
    assume run: "remove_recursive (Suc fuel) env self (node_with_prefix self p) s = Some (Inr (u, s'))"
      and p: "p \<in> dirs self m" and w: "wiped self m D (view s)"
    have short: "short p" using dirs_facts(1) [OF inv p] .
    let ?opt = "range_of_subspace (sub_dirs (node_with_prefix self p))"
    from run short obtain a s1 where loop: "remove_children fuel env self 1 (Some ?opt) [] s = Some (Inr (a, s1))"
      and s': "s' = clear_subspace_range (dir_kv env) (node_with_prefix self p) (kv_clear_range (dir_kv env) p (strinc p) s1)"
      by (simp only: remove_recursive.simps Let_def dir_bind_Inr dir_lift_Inr dir_write_Inr prefix_node unpack_node
          map_err_simps sum.inject) blast
    have "\<exists>D'. wiped self m D' (view s1) \<and> D \<subseteq> D' \<and> D' \<subseteq> D \<union> {q. reach self m p q} \<and>
        (\<forall>c. is_child self m p c \<longrightarrow> c \<in> D')"
      by (rule C [rule_format, OF loop p w]) (use sub_range_start [OF short] in simp_all)
    then obtain D' where D': "wiped self m D' (view s1)" "D \<subseteq> D'" "D' \<subseteq> D \<union> {q. reach self m p q}"
      "\<And>c. is_child self m p c \<Longrightarrow> c \<in> D'" by blast
    have "wiped self m (insert p D') (view s')"
      unfolding s' clear_node [OF short] by (rule wiped_insert [OF D'(1) p D'(4)])
    with D'(2,3) show "\<exists>D'. wiped self m D' (view s') \<and> insert p D \<subseteq> D' \<and> D' \<subseteq> D \<union> {q. reach self m p q}"
      using reach_refl by (intro exI [of _ "insert p D'"]) blast
  next
    fix p i maybe_opt items s s' u D
    assume run: "remove_children (Suc fuel) env self i maybe_opt items s = Some (Inr (u, s'))"
      and p: "p \<in> dirs self m" and w: "wiped self m D (view s)"
      and items: "\<forall>row \<in> set items. is_child self m p (snd row)"
      and opt: "\<forall>opt. maybe_opt = Some opt \<longrightarrow> sub_range self p opt"
      and pending: "\<forall>n c. short n \<longrightarrow> child_at self m p n = Some c \<longrightarrow> c \<in> D \<or> c \<in> snd ` set items \<or>
        (\<exists>opt. maybe_opt = Some opt \<and> selected opt (name_key self p n))"
    show "\<exists>D'. wiped self m D' (view s') \<and> D \<subseteq> D' \<and> D' \<subseteq> D \<union> {q. reach self m p q} \<and>
        (\<forall>c. is_child self m p c \<longrightarrow> c \<in> D')"
    proof (cases items)
      case (Cons row rest)
      with run obtain s1 where one: "remove_recursive fuel env self (node_with_prefix self (snd row)) s = Some (Inr ((), s1))"
        and more: "remove_children fuel env self i maybe_opt rest s1 = Some (Inr (u, s'))"
        by (auto simp: remove_children.simps Let_def dir_bind_Inr)
      have row: "is_child self m p (snd row)" using items Cons by simp
      have "snd row \<in> dirs self m" by (rule is_child_dirs [OF p inv row])
      from R [rule_format, OF one this w] obtain D1 where
        D1: "wiped self m D1 (view s1)" "insert (snd row) D \<subseteq> D1" "D1 \<subseteq> D \<union> {q. reach self m (snd row) q}" by blast
      have "\<exists>D'. wiped self m D' (view s') \<and> D1 \<subseteq> D' \<and> D' \<subseteq> D1 \<union> {q. reach self m p q} \<and>
          (\<forall>c. is_child self m p c \<longrightarrow> c \<in> D')"
      proof (rule C [rule_format, OF more p D1(1)])
        show "c \<in> D1 \<or> c \<in> snd ` set rest \<or> (\<exists>opt. maybe_opt = Some opt \<and> selected opt (name_key self p n))"
          if "short n" "child_at self m p n = Some c" for n c
          using pending [rule_format, OF that] Cons D1(2) by auto
        show "is_child self m p (snd r)" if "r \<in> set rest" for r using items Cons that by simp
        show "sub_range self p opt'" if "maybe_opt = Some opt'" for opt' using opt that by simp
      qed
      then obtain D' where D': "wiped self m D' (view s')" "D1 \<subseteq> D'" "D' \<subseteq> D1 \<union> {q. reach self m p q}"
        "\<forall>c. is_child self m p c \<longrightarrow> c \<in> D'" by blast
      have "{q. reach self m (snd row) q} \<subseteq> {q. reach self m p q}" using reach_step [OF row] by blast
      with D1(2,3) D'(2,3) have "D \<subseteq> D'" "D' \<subseteq> D \<union> {q. reach self m p q}" by auto
      with D'(1,4) show ?thesis by blast
    next
      case Nil
      show ?thesis
      proof (cases maybe_opt)
        case None
        with Nil run have "s' = s" by (simp add: remove_children.simps dir_ok_Inr)
        with w pending None Nil show ?thesis by (auto simp: is_child_def)
      next
        case (Some opt0)
        with Nil run obtain page where page: "kv_get_range (dir_kv env) s opt0 i = Inr page"
          and more: "remove_children fuel env self (i + 1) (next_range opt0 page) (fst page) s = Some (Inr (u, s'))"
          by (auto simp: remove_children.simps split: sum.splits)
        have sub: "sub_range self p opt0" using opt Some by simp
        have D: "D \<subseteq> dirs self m" "view s = wipe self m D" "closed self m D" using w by (simp_all add: wiped_def)
        note batch = child_batch [OF inv dirs_facts(1) [OF inv p] D(1,2) sub page]
        show ?thesis
        proof (rule C [rule_format, OF more p w])
          show "is_child self m p (snd row)" if "row \<in> set (fst page)" for row
            using batch(1) that by (auto simp: is_child_def)
          show "c \<in> D \<or> c \<in> snd ` set (fst page) \<or>
              (\<exists>opt. next_range opt0 page = Some opt \<and> selected opt (name_key self p n))"
            if "short n" "child_at self m p n = Some c" for n c
          proof (cases "p \<in> D")
            case True
            then show ?thesis using closedD [OF D(3)] that by (auto simp: is_child_def)
          next
            case False
            then show ?thesis using batch(3) [OF that False] pending that Some Nil by auto
          qed
        qed (rule batch(2))
      qed
    qed
  qed
qed

end

section \<open>The tree after a removal\<close>

lemma inv_submap:
  assumes self: "wf_layer self" and inv: "dir_inv self m A" and sub: "\<And>k v. m' k = Some v \<Longrightarrow> m k = Some v"
    and layers: "\<And>p n c. short p \<Longrightarrow> short n \<Longrightarrow> child_at self m' p n = Some c \<Longrightarrow> m' (layer_key self c) = m (layer_key self c)"
    and hca: "\<And>k. starts_with k (hca_prefix self) \<Longrightarrow> m' k = m k"
  shows "dir_inv self m' A"
proof -
  note i = dir_invD [OF inv]
  have some: "m k \<noteq> None" if "m' k \<noteq> None" for k using that sub by (cases "m' k") auto
  have child: "child_at self m p n = Some c" if "child_at self m' p n = Some c" for p n c
    using that sub by (simp add: child_at_def)
  have "wf_nodes self m'" using i(1) some unfolding wf_nodes_def by blast
  moreover have "in_use self m p" if "in_use self m' p" for p
    using that some unfolding in_use_def used_def by blast
  then have "isolated self m'" using i(2) unfolding isolated_def by blast
  moreover have "wf_children self m'"
    unfolding wf_children_def
  proof (intro allI impI)
    fix p n c
    assume c: "short p" "short n" "child_at self m' p n = Some c"
    from wf_childrenD [OF i(3) c(1,2) child [OF c(3)]] layers [OF c]
    show "short c \<and> m' (layer_key self c) \<noteq> None \<and> layer_at self m' c \<noteq> PARTITION_LAYER"
      by (simp add: layer_at_def)
  qed
  moreover have "one_parent self m'"
    unfolding one_parent_def using child one_parentD [OF i(4)] by blast
  moreover have "wf_names self m'" using i(5) some unfolding wf_names_def by blast
  moreover have "plain_root self m'"
    using i(7) some unfolding plain_root_def by blast
  moreover have "hca_inv (allocator self) m' A"
    using i(6) hca_inv_agree [of _ m' m A] self hca by (simp add: hca_prefix_def wf_layer_def)
  ultimately show ?thesis by (simp add: dir_inv_def)
qed

text \<open>What is below a prefix is what the longer paths lead to.\<close>

lemma reach_paths:
  assumes inv: "dir_inv self m A" and self: "wf_layer self" and path: "names_ok path" "dir_at self m path = Some q"
  shows "reach self m q x \<longleftrightarrow> (\<exists>ns. below path ns \<and> names_ok ns \<and> dir_at self m ns = Some x)"
proof
  assume "reach self m q x"
  then show "\<exists>ns. below path ns \<and> names_ok ns \<and> dir_at self m ns = Some x"
  proof (induction rule: reach.induct)
    case reach_refl
    then show ?case using path by (intro exI [of _ path]) (simp add: below_def)
  next
    case (reach_child y c)
    then obtain ns n where ns: "below path ns" "names_ok ns" "dir_at self m ns = Some y"
      "short n" "child_at self m y n = Some c" by (auto simp: is_child_def)
    then have "dir_at self m (ns @ [n]) = Some c" by (simp add: dir_at_snoc [OF inv self])
    with ns show ?case by (intro exI [of _ "ns @ [n]"]) (simp add: below_snoc)
  qed
next
  assume "\<exists>ns. below path ns \<and> names_ok ns \<and> dir_at self m ns = Some x"
  then obtain r where r: "names_ok r" "dir_at self m (path @ r) = Some x" by (auto simp: below_append)
  then show "reach self m q x"
  proof (induction r arbitrary: x rule: rev_induct)
    case Nil
    then show ?case using path(2) reach_refl by simp
  next
    case (snoc n r)
    then have "Option.bind (dir_at self m (path @ r)) (\<lambda>y. child_at self m y n) = Some x"
      using dir_at_snoc [OF inv self, of "path @ r" n] path(1) by simp
    then obtain y where "dir_at self m (path @ r) = Some y" "child_at self m y n = Some x"
      by (auto simp: bind_eq_Some_conv)
    moreover then have "is_child self m y x" using snoc.prems(1) by (auto simp: is_child_def)
    ultimately show ?case using reach_child [of self m q y x] snoc.IH [of y] snoc.prems(1) by simp
  qed
qed

definition removed_tree ::
    "directory_layer \<Rightarrow> (bytes \<rightharpoonup> bytes) \<Rightarrow> bytes \<Rightarrow> bytes \<Rightarrow> bytes \<Rightarrow> bytes \<rightharpoonup> bytes" where
  "removed_tree self m par name q = (wipe self m {x. reach self m q x})(name_key self par name := None)"

lemma removed:
  assumes self: "wf_layer self" and inv: "dir_inv self m A" and path: "names_ok ns" "short name"
    and par: "dir_at self m ns = Some par" and q: "child_at self m par name = Some q"
  defines "D \<equiv> {x. reach self m q x}" and "m' \<equiv> removed_tree self m par name q"
  shows "D \<subseteq> dirs self m" and "par \<notin> D" and "dir_inv self m' A"
    and "\<And>p n. short p \<Longrightarrow> short n \<Longrightarrow>
      child_at self m' p n = (if p \<in> D \<or> p = par \<and> n = name then None else child_at self m p n)"
    and "\<And>p. short p \<Longrightarrow> p \<notin> D \<Longrightarrow> layer_at self m' p = layer_at self m p"
    and "\<And>r. names_ok r \<Longrightarrow> dir_at self m r = Some par \<Longrightarrow> r = ns"
proof -
  have q_at: "dir_at self m (ns @ [name]) = Some q" using dir_at_snoc [OF inv self path] par q by simp
  have short: "short par" using dir_at_short [OF inv self path(1) par] by simp
  have names: "names_ok (ns @ [name])" using path by simp
  note below_q = reach_paths [OF inv self names q_at]
  have "q \<in> dirs self m" using q short path(2) by (auto simp: dirs_def is_child_def)
  moreover have "x \<in> dirs self m" if "reach self m q x" for x
    using that calculation by (induction rule: reach.induct) (auto intro: is_child_dirs [OF _ inv])
  ultimately show D: "D \<subseteq> dirs self m" by (auto simp: D_def)
  show only: "r = ns" if "names_ok r" "dir_at self m r = Some par" for r
    using dir_at_inj [OF inv self that(1) path(1) that(2) par] .
  show par_D: "par \<notin> D"
  proof
    assume "par \<in> D"
    then obtain r where "below (ns @ [name]) r" "names_ok r" "dir_at self m r = Some par"
      using below_q by (auto simp: D_def)
    with only show False by (auto simp: below_append)
  qed
  show child: "child_at self m' p n = (if p \<in> D \<or> p = par \<and> n = name then None else child_at self m p n)"
    if "short p" "short n" for p n
    using wipe_tree(1) [OF inv D that] keys_inject(2) [OF that(1) short that(2) path(2), of self]
    by (auto simp: m'_def removed_tree_def child_at_def D_def)
  have layer: "m' (layer_key self p) = m (layer_key self p)" if "short p" "p \<notin> D" for p
    using wipe_tree(2) [OF inv D that(1)] that keys_inject(3) [OF that(1) short path(2), of self]
    by (simp add: m'_def removed_tree_def D_def)
  then show "\<And>p. short p \<Longrightarrow> p \<notin> D \<Longrightarrow> layer_at self m' p = layer_at self m p" by (simp add: layer_at_def)
  show "dir_inv self m' A"
  proof (rule inv_submap [OF self inv])
    show "m k = Some v" if "m' k = Some v" for k v
      using that by (auto simp: m'_def removed_tree_def wipe_def split: if_splits)
    show "m' (layer_key self c) = m (layer_key self c)" if c: "short p" "short n" "child_at self m' p n = Some c" for p n c
    proof -
      from c have p: "p \<notin> D" "\<not> (p = par \<and> n = name)" "child_at self m p n = Some c"
        using child by (auto split: if_splits)
      note parent = one_parentD(2) [OF dir_invD(4) [OF inv]]
      have "c \<notin> D"
      proof
        assume "c \<in> D"
        then have "reach self m q c" by (simp add: D_def)
        then show False
        proof (cases rule: reach.cases)
          case reach_refl
          with parent [OF short path(2) q c(1,2)] p show False by simp
        next
          case (reach_child y)
          then obtain n' where "short n'" "child_at self m y n' = Some c" by (auto simp: is_child_def)
          moreover have "y \<in> D" using reach_child by (simp add: D_def)
          moreover from this D have "short y" using dirs_facts(1) [OF inv] by blast
          ultimately show False using parent [OF c(1,2) p(3)] p(1) by blast
        qed
      qed
      moreover have "short c" using wf_childrenD(1) [OF dir_invD(3) [OF inv] c(1,2) p(3)] .
      ultimately show ?thesis using layer by simp
    qed
    show "m' k = m k" if hk: "starts_with k (hca_prefix self)" for k
    proof -
      obtain r where k: "k = nodes_prefix self @ bytes_enc (nodes_prefix self) @ 1 # r"
        using hk by (auto simp: starts_with_append key_eqs(4) [OF self] bytes_enc_constants)
      have "nodes_prefix self \<notin> D" using D dirs_facts(3) [OF inv] by blast
      then have "wipe self m D k = m k" using wipe_node_key [OF inv D, of 1] by (simp add: k)
      moreover have "k \<noteq> name_key self par name" using not_hca_key(2) [OF self short path(2)] hk by auto
      ultimately show ?thesis by (simp add: m'_def removed_tree_def D_def)
    qed
  qed
qed

text \<open>A walk that meets no removed directory is as before.\<close>

lemma walk_wiped:
  assumes inv: "dir_inv self m A" and D: "D \<subseteq> dirs self m"
  shows "\<lbrakk>walk self m p w path = Some r; short p; names_ok path;
    \<And>k x w'. walk self m p w (take k path) = Some (x, w') \<Longrightarrow> x \<notin> D\<rbrakk> \<Longrightarrow>
    walk self (wipe self m D) p w path = Some r"
proof (induction path arbitrary: p w)
  case (Cons n path)
  have n: "short n" "names_ok path" using Cons.prems(3) by simp_all
  from Cons.prems(1) obtain c where c: "child_at self m p n = Some c" by (auto split: option.splits)
  note child = wf_childrenD [OF dir_invD(3) [OF inv] Cons.prems(2) n(1) c]
  have "p \<notin> D" using Cons.prems(4) [of 0 p w] by simp
  moreover have next_not: "x \<notin> D" if "walk self m c (w @ [n]) (take k path) = Some (x, w')" for k x w'
    using Cons.prems(4) [of "Suc k" x w'] that c child(3) by simp
  moreover have "c \<notin> D" using next_not [of 0] by simp
  ultimately show ?case
    using wipe_tree [OF inv D] Cons.IH [OF _ child(1) n(2), of "w @ [n]"] Cons.prems(1,2) n(1) c child
    by (simp add: layer_at_def)
qed simp

lemma dir_at_removed:
  assumes self: "wf_layer self" and inv: "dir_inv self m A" and path: "names_ok ns" "short name"
    and par: "dir_at self m ns = Some par" and q: "child_at self m par name = Some q"
  shows "names_ok r \<Longrightarrow> dir_at self (removed_tree self m par name q) r =
    (if below (ns @ [name]) r then None else dir_at self m r)"
proof (induction r rule: rev_induct)
  case (snoc n r)
  let ?m = "removed_tree self m par name q"
  note rm = removed [OF self inv path par q]
  have names: "names_ok r" "short n" using snoc.prems by simp_all
  note step = dir_at_snoc [OF rm(3) self names] and step0 = dir_at_snoc [OF inv self names] and IH = snoc.IH [OF names(1)]
  show ?case
  proof (cases "below (ns @ [name]) r \<or> dir_at self m r = None")
    case True
    with step step0 IH show ?thesis by (auto simp: below_snoc)
  next
    case False
    then obtain x where x: "dir_at self m r = Some x" "\<not> below (ns @ [name]) r" by auto
    have "dir_at self m (ns @ [name]) = Some q" using dir_at_snoc [OF inv self path] par q by simp
    from reach_paths [OF inv self _ this] path have "\<not> reach self m q x"
      using x dir_at_inj [OF inv self names(1) _ x(1)] by auto
    moreover have "x = par \<longleftrightarrow> r = ns" using rm(6) [OF names(1)] x(1) par by auto
    moreover have "short x" using dir_at_short [OF inv self names(1) x(1)] by simp
    ultimately show ?thesis
      using step step0 IH x rm(4) [of x n] names(2) by (auto simp: below_snoc)
  qed
qed (simp add: below_def)

context dir_store
begin

lemma remove_removes:
  assumes self: "wf_layer self" and inv: "dir_inv self (view s) A" and path: "names_ok path"
    and result: "remove_internal fuel env self path must s = Some (Inr (b, s'))"
  shows "path \<noteq> [] \<and> dir_inv self (view s') A \<and> (b \<longleftrightarrow> dir_at self (view s) path \<noteq> None) \<and> (must \<longrightarrow> b) \<and>
    (\<forall>ns. names_ok ns \<longrightarrow> ns \<noteq> [] \<longrightarrow>
       dir_entry self (view s') ns = (if below path ns then None else dir_entry self (view s) ns)) \<and>
    (\<forall>k. \<not> starts_with k (nodes_prefix self) \<longrightarrow>
       view s' k = (if \<exists>ns x. below path ns \<and> names_ok ns \<and> dir_at self (view s) ns = Some x \<and>
           strinc x \<noteq> [] \<and> starts_with k x then None else view s k))"
proof -
  from result obtain u s1 found where check: "check_version env self True s = Some (Inr (u, s1))"
    and ne: "path \<noteq> []" and find: "dir_find env self path s1 = Inr found"
    and rest: "(case found of
           None \<Rightarrow> if must then dir_fail DirectoryDoesNotExists s1 else dir_ok False s1
         | Some node \<Rightarrow>
             if is_in_partition node False
             then dir_bind (dir_lift (get_contents node)) (\<lambda>contents trx.
                    case contents of
                      DirectorySubspace _ \<Rightarrow> dir_panic trx
                    | DirectoryPartition d \<Rightarrow>
                        remove_internal fuel env (ds_directory_layer (dp_subspace d)) (node_subpath node)
                          must trx) s1
             else dir_bind (remove_recursive fuel env self (node_sub node)) (\<lambda>_.
                  dir_bind (remove_from_parent env self path) (\<lambda>_. dir_ok True)) s1) = Some (Inr (b, s'))"
    by (auto simp: remove_internal.simps dir_bind_Inr dir_read_Inr split: if_splits)
  from check_version_grown [OF self inv check]
  have g: "grown self (view s) A (view s1) A {}"
    and ch: "\<forall>p n. short p \<longrightarrow> short n \<longrightarrow> child_at self (view s1) p n = child_at self (view s) p n" by blast+
  have inv1: "dir_inv self (view s1) A" by (rule grownD(2) [OF g])
  note same = dir_entry_same [OF self inv grownD(3) [OF g] ch]
  note found = find_dir [OF self inv1 path find]
  show ?thesis
  proof (cases "dir_at self (view s1) path")
    case None
    with found rest have b: "\<not> b" "\<not> must" "s' = s1" by (auto simp: dir_ok_Inr split: if_splits)
    have gone: "dir_at self (view s) ns = None" if "below path ns" for ns
      using None same(1) [OF path] below_None that by metis
    with b None same ne inv1 grownD(4) [OF g] path show ?thesis
      by (auto simp: dir_entry_def)
  next
    case (Some q)
    obtain ns name where path_eq: "path = ns @ [name]" using ne by (cases path rule: rev_cases) auto
    with path have names: "names_ok ns" "short name" by simp_all
    have "Option.bind (dir_at self (view s1) ns) (\<lambda>p. child_at self (view s1) p name) = Some q"
      using Some dir_at_snoc [OF inv1 self names] path_eq by simp
    then obtain par where par: "dir_at self (view s1) ns = Some par" "child_at self (view s1) par name = Some q"
      by (auto simp: bind_eq_Some_conv)
    have short: "short par" using dir_at_short [OF inv1 self names(1) par(1)] by simp
    have q: "q \<in> dirs self (view s1)" using par(2) short names(2) by (auto simp: dirs_def is_child_def)
    from rest found Some obtain u1 s2 u2 where rec: "remove_recursive fuel env self (node_with_prefix self q) s1 = Some (Inr (u1, s2))"
      and parent: "remove_from_parent env self path s2 = Some (Inr (u2, s'))" and b: b
      by (auto simp: is_in_partition_def dir_bind_Inr dir_ok_Inr)
    from remove_wipes [OF inv1, THEN conjunct1, rule_format, OF rec q wiped_refl] obtain D where
      D: "wiped self (view s1) D (view s2)" "q \<in> D" "D \<subseteq> {x. reach self (view s1) q x}" by blast
    have "D = {x. reach self (view s1) q x}" using D closed_reach by (auto simp: wiped_def)
    then have s2: "view s2 = wipe self (view s1) {x. reach self (view s1) q x}" using D(1) by (simp add: wiped_def)
    note rm = removed [OF self inv1 names par]
    have at_q: "dir_at self (view s1) path = Some q" by (rule Some)
    note below_q = reach_paths [OF inv1 self path at_q]
    have ancestors: "x \<notin> {x. reach self (view s1) q x}"
      if "walk self (view s1) (nodes_prefix self) [] (take k ns) = Some (x, w')" for k x w'
    proof
      assume "x \<in> {x. reach self (view s1) q x}"
      then obtain r where r: "below path r" "names_ok r" "dir_at self (view s1) r = Some x" using below_q by auto
      have "dir_at self (view s1) (take k ns) = Some x" using that by (simp add: dir_at_def lookup_dir_def)
      moreover have "names_ok (take k ns)" using names(1) by (auto simp: names_ok_def dest: in_set_takeD)
      ultimately have "take k ns = r" using dir_at_inj [OF inv1 self _ r(2) _ r(3)] by blast
      with r(1) path_eq have "length (ns @ [name]) \<le> length (take k ns)" by (auto simp: below_append)
      then show False by simp
    qed
    have "lookup_dir self (view s2) ns = Some (par, ns)"
      unfolding s2 lookup_dir_def
      by (rule walk_wiped [OF inv1 rm(1) _ _ names(1) ancestors])
        (use dir_at_lookup [OF inv1 self names(1)] par(1) self in \<open>simp_all add: lookup_dir_def wf_layer_def\<close>)
    with remove_from_parent_clears [OF self _ parent] path_eq have "s' = kv_clear (dir_kv env) (name_key self par name) s2"
      by simp
    then have view: "view s' = removed_tree self (view s1) par name q"
      by (simp add: view_clear s2 removed_tree_def)
    have "dir_entry self (view s') r = (if below path r then None else dir_entry self (view s) r)"
      if r: "names_ok r" "r \<noteq> []" for r
    proof (cases "below path r")
      case True
      then show ?thesis
        using dir_at_removed [OF self inv1 names par r(1)] path_eq by (simp add: dir_entry_def view)
    next
      case False
      have "dir_entry self (view s') r = dir_entry self (view s1) r"
      proof (cases "dir_at self (view s1) r")
        case None
        then show ?thesis using dir_at_removed [OF self inv1 names par r(1)] False path_eq by (simp add: dir_entry_def view)
      next
        case (Some x)
        then have "\<not> reach self (view s1) q x"
          using below_q dir_at_inj [OF inv1 self r(1) _ Some] False by auto
        moreover have "short x" using dir_at_short [OF inv1 self r(1) Some] by simp
        ultimately show ?thesis
          using dir_at_removed [OF self inv1 names par r(1)] False path_eq rm(5) Some by (simp add: dir_entry_def view)
      qed
      with same(2) [OF r] False show ?thesis by simp
    qed
    moreover have "view s' k = (if \<exists>ns x. below path ns \<and> names_ok ns \<and> dir_at self (view s) ns = Some x \<and>
           strinc x \<noteq> [] \<and> starts_with k x then None else view s k)" if k: "\<not> starts_with k (nodes_prefix self)" for k
    proof -
      have "view s1 k = view s k" by (rule grownD(4) [OF g k])
      moreover have "k \<noteq> name_key self par name" using nodes_prefix_start(4) [OF self short names(2)] k by auto
      ultimately have "view s' k = (if \<exists>x. reach self (view s1) q x \<and> cleared self x k then None else view s k)"
        by (auto simp: view removed_tree_def wipe_def)
      moreover have "(\<exists>x. reach self (view s1) q x \<and> cleared self x k) \<longleftrightarrow>
          (\<exists>ns x. below path ns \<and> names_ok ns \<and> dir_at self (view s) ns = Some x \<and> strinc x \<noteq> [] \<and> starts_with k x)"
      proof -
        have "cleared self x k \<longleftrightarrow> strinc x \<noteq> [] \<and> starts_with k x" if "reach self (view s1) q x" for x
          using cleared_other [OF inv1 _ k] rm(1) that by blast
        then show ?thesis using below_q same(1) by (metis (no_types, lifting))
      qed
      ultimately show ?thesis by (simp only:)
    qed
    moreover have "dir_inv self (view s') A" using rm(3) by (simp add: view)
    moreover have "dir_at self (view s) path \<noteq> None" unfolding same(1) [OF path, symmetric] using Some by simp
    ultimately show ?thesis using ne b by simp
  qed
qed

end

end
