(* ===== verification/Directory_List.thy ===== *)
theory Directory_List
  imports Directory_Remove
begin

text \<open>
  Listing a directory and asking whether a path exists: both read the tree and leave it alone.
\<close>

section \<open>Names in keys\<close>

lemma unpack_name:
  assumes "short p"
    and "subspace_unpack (unpack_tuple (field_cons (unpack_ix :: u64 unpacker) (field_last unpack_str)))
      (node_with_prefix self p) (nodes_prefix self @ bytes_enc p @ INTZERO # str_enc n) = Inr (i, name)"
  shows "name = n"
proof -
  have zero: "(unpack_ix :: u64 unpacker) d (INTZERO # r) = Inr (r, 0)" for d r
    using unpack_ix_int_enc(1) [of 0, where 'a = 64] by (simp add: int_enc_def int_head_def int_len_def byte_len_def MAX_SZ_def)
  from assms show ?thesis
    using unescape_escape [of "[]" n]
    by (auto simp: subspace_unpack_def unpack_root_def unpack_tuple_def field_cons_def field_last_def prefix_node
        is_start_of_def starts_with_def zero unpack_str_def str_enc_def parse_string_def parse_slice_eq parse_code_def
        bind_result_eq_Inr split: if_splits)
qed

lemma str_enc_less: "str_enc u < str_enc v \<longleftrightarrow> u < v"
proof -
  have less: "str_enc u < str_enc v" if "u < v" for u v
    using escape_less [OF that, of "[]" "[]"] by (simp add: str_enc_def)
  then show ?thesis by (metis less_asym not_less_iff_gr_or_eq)
qed

lemma try_collect_Inr: "try_collect (map Inr rs) = Inr rs"
  by (induction rs) simp_all

lemma try_collect_delivers: "delivers rs items \<Longrightarrow> try_collect items = Inr found \<Longrightarrow> found = rs"
proof -
  have "try_collect (map Inr xs @ [Inl e]) = Inl (DirFdb e)" for xs :: "(bytes \<times> bytes) list" and e
    by (induction xs) simp_all
  then show "delivers rs items \<Longrightarrow> try_collect items = Inr found \<Longrightarrow> found = rs"
    by (auto simp: delivers_def try_collect_Inr)
qed

lemma sub_folder_names_keys:
  assumes "short p" and "sub_folder_names (node_with_prefix self p) rs = Inr names"
    and "\<forall>(k, v) \<in> set rs. \<exists>n. short n \<and> k = name_key self p n"
  shows "map fst rs = map (name_key self p) names \<and> (\<forall>n \<in> set names. short n)"
  using assms(2,3)
proof (induction rs arbitrary: names)
  case (Cons row rs)
  obtain k v where row: "row = (k, v)" by (cases row)
  with Cons.prems(2) obtain n where n: "short n" "k = name_key self p n" by auto
  from Cons.prems(1) row obtain i name rest where
    key: "subspace_unpack (unpack_tuple (field_cons (unpack_ix :: u64 unpacker) (field_last unpack_str)))
      (node_with_prefix self p) k = Inr (i, name)"
    and rest: "sub_folder_names (node_with_prefix self p) rs = Inr rest" "names = name # rest"
    by (auto simp: bind_result_eq_Inr map_err_def split: sum.splits)
  have "name = n" using unpack_name [OF assms(1)] key n assms(1) by (simp add: key_eqs)
  with Cons.IH [OF rest(1)] Cons.prems(2) n row rest(2) show ?case by simp
qed simp

lemma sorted_names:
  assumes "short p" and "\<forall>n \<in> set names. short n" and "sorted_wrt (<) (map (name_key self p) names)"
  shows "sorted_wrt (<) names"
  using assms(2,3) by (induction names) (auto simp: key_eqs assms(1) str_enc_less)

section \<open>The tree as it is read\<close>

context dir_store
begin

lemma exists_reads:
  assumes self: "wf_layer self" and inv: "dir_inv self (view s) A" and path: "names_ok path"
    and result: "exists_internal env self path s = Some (Inr (b, s'))"
  shows "s' = s \<and> (b \<longleftrightarrow> dir_at self (view s) path \<noteq> None)"
proof -
  from result obtain u t found where check: "check_version env self False s = Some (Inr (u, t))"
    and find: "dir_find env self path t = Inr found"
    and rest: "(case found of
         None \<Rightarrow> dir_ok False t
       | Some node \<Rightarrow>
           if is_in_partition node False
           then dir_bind (dir_lift (get_contents node)) (\<lambda>contents.
                  output_exists (\<lambda>layer sub trx. exists_internal env layer sub trx) contents (node_subpath node)) t
           else dir_ok True t) = Some (Inr (b, s'))"
    by (auto simp: exists_internal.simps dir_bind_Inr dir_read_Inr)
  from check_version_read [OF check] have t: "t = s" .
  from find_dir [OF self inv path find [unfolded t]] rest show ?thesis
    by (cases "dir_at self (view s) path") (auto simp: t dir_ok_Inr is_in_partition_def)
qed

lemma list_reads:
  assumes self: "wf_layer self" and inv: "dir_inv self (view s) A" and path: "names_ok path"
    and result: "list_internal env self path s = Some (Inr (names, s'))"
  shows "s' = s \<and> dir_at self (view s) path \<noteq> None \<and>
    names = sorted_list_of_set {n. short n \<and> dir_at self (view s) (path @ [n]) \<noteq> None}"
proof -
  from result obtain u t where check: "check_version env self False s = Some (Inr (u, t))"
    by (auto simp: list_internal.simps split: option.splits sum.splits)
  from check_version_read [OF check] have t: "t = s" .
  define use where "use node = (if is_in_partition node True
      then (case get_contents node of
              Inl e \<Rightarrow> Some (Inl e)
            | Inr (DirectorySubspace _) \<Rightarrow> None
            | Inr (DirectoryPartition directory_partition) \<Rightarrow>
                list_internal env (ds_directory_layer (dp_subspace directory_partition)) (node_subpath node) s)
      else list_sub_folders env node s)" for node
  have "(case bind_result (dir_find env self path s) (ok_or PathDoesNotExists) of
      Inl e \<Rightarrow> Some (Inl e) | Inr node \<Rightarrow> use node) = Some (Inr (names, s'))"
    using result check unfolding use_def t list_internal.simps [of env self path s] by simp
  then obtain node where "bind_result (dir_find env self path s) (ok_or PathDoesNotExists) = Inr node"
    and rest: "use node = Some (Inr (names, s'))" by (auto split: sum.splits)
  then have find: "dir_find env self path s = Inr (Some node)"
    by (auto simp: bind_result_eq_Inr ok_or_def split: option.splits)
  from find_dir [OF self inv path find] obtain q where q: "dir_at self (view s) path = Some q"
    and node: "node = \<lparr>node_sub = node_with_prefix self q, current_path = path, target_path = path,
      node_directory_layer = self, node_layer = layer_at self (view s) q\<rparr>"
    by (cases "dir_at self (view s) path") auto
  note short = dir_at_short [OF inv self path q]
  have "layer_at self (view s) q \<noteq> PARTITION_LAYER"
    using short(3) q dir_invD(7) [OF inv] by (cases "path = []") (auto simp: plain_root_def layer_at_def PARTITION_LAYER_def)
  with rest have "list_sub_folders env node s = Some (Inr (names, s'))" by (simp add: use_def node is_in_partition_def)
  then obtain items rs where items: "get_ranges_keyvalues (dir_kv env) s (range_of_subspace (sub_dirs (node_with_prefix self q))) = Some items"
    and rs: "try_collect items = Inr rs" and names: "sub_folder_names (node_with_prefix self q) rs = Inr names" "s' = s"
    by (auto simp: list_sub_folders_def node bind_eq_Some_conv dir_lift_Inr bind_result_eq_Inr)
  let ?opt = "range_of_subspace (sub_dirs (node_with_prefix self q))"
  note sub = sub_range_start [OF short(1)]
  have opt: "plain ?opt" "limit ?opt = None" "\<not> rev_order ?opt" using sub(1) by (simp_all add: sub_range_def)
  from get_ranges_keyvalues_scan [OF opt(1), of s] items rs try_collect_delivers
  have rows: "rs = rows (view s) ?opt" by (auto simp: scan_rows_def opt(2))
  have child: "\<exists>n. short n \<and> k = name_key self q n" if "view s k \<noteq> None" "selected ?opt k" for k
  proof -
    from sub(1) that(2) obtain r where k: "k = nodes_prefix self @ bytes_enc q @ INTZERO # r"
      by (auto simp: sub_range_def starts_with_append)
    with wf_namesD [OF dir_invD(5) [OF inv] short(1)] that(1) obtain n where "short n" "r = str_enc n" by auto
    with k short(1) show ?thesis by (auto simp: key_eqs)
  qed
  have keys: "map fst rs = map (name_key self q) names" "\<forall>n \<in> set names. short n"
    using sub_folder_names_keys [OF short(1) names(1)] child rows_value [OF view_finite] rows by fastforce+
  have "sorted_wrt (<) (map fst rs)"
    using opt(3) by (simp add: rows rows_def comp_def)
  then have sorted: "sorted_wrt (<) names"
    using keys sorted_names [OF short(1)] by simp
  have "n \<in> set names \<longleftrightarrow> short n \<and> dir_at self (view s) (path @ [n]) \<noteq> None" for n
  proof -
    have "short n \<Longrightarrow> dir_at self (view s) (path @ [n]) = child_at self (view s) q n"
      using dir_at_snoc [OF inv self path] q by simp
    moreover have "n \<in> set names \<longleftrightarrow> short n \<and> child_at self (view s) q n \<noteq> None"
    proof -
      have "n \<in> set names \<longleftrightarrow> short n \<and> name_key self q n \<in> set (map fst rs)"
        using keys keys_inject(2) [OF short(1,1), of n _ self] by auto
      also have "\<dots> \<longleftrightarrow> short n \<and> child_at self (view s) q n \<noteq> None"
        using rows_keys [OF view_finite, of s ?opt] sub(2) [of n self] by (auto simp: rows child_at_def)
      finally show ?thesis .
    qed
    ultimately show ?thesis by auto
  qed
  then have "set names = {n. short n \<and> dir_at self (view s) (path @ [n]) \<noteq> None}" by blast
  with sorted have "names = sorted_list_of_set {n. short n \<and> dir_at self (view s) (path @ [n]) \<noteq> None}"
    by (metis List.finite_set sorted_list_of_set.idem_if_sorted_distinct strict_sorted_iff)
  with q names(2) show ?thesis by simp
qed

end

end
