(* ===== verification/Directory_Fuel.thy ===== *)
theory Directory_Fuel
  imports Directory_List
begin

text \<open>
  Removing a directory ends: no path of the tree is longer than the number of stored keys, and
  every turn of the loop over children takes a row of the node.
\<close>

section \<open>The depth of the tree\<close>

lemma dir_at_take: "dir_at self m path = Some q \<Longrightarrow> dir_at self m (take k path) \<noteq> None"
  using dir_at_append_None [of self m "take k path" "drop k path"] by auto

lemma path_length:
  assumes inv: "dir_inv self m A" and self: "wf_layer self" and path: "names_ok path" "dir_at self m path = Some q"
    and finite: "finite (dom m)"
  shows "length path \<le> card (dom m)"
proof -
  define p where "p k = the (dir_at self m (take k path))" for k
  let ?key = "\<lambda>k. name_key self (p k) (path ! k)"
  have p: "dir_at self m (take k path) = Some (p k)" for k
    using dir_at_take [OF path(2), of k] by (simp add: p_def option.expand)
  have names: "names_ok (take k path)" for k
    using path(1) by (auto simp: names_ok_def dest: in_set_takeD)
  have name: "short (path ! k)" if "k < length path" for k
    using path(1) that by (simp add: names_ok_def)
  have short: "short (p k)" for k using dir_at_short(1) [OF inv self names p] .
  have "?key ` {..<length path} \<subseteq> dom m"
  proof
    fix x
    assume "x \<in> ?key ` {..<length path}"
    then obtain k where k: "k < length path" "x = ?key k" by auto
    have "dir_at self m (take k path @ [path ! k]) = Some (p (Suc k))"
      using p [of "Suc k"] k(1) by (simp add: take_Suc_conv_app_nth)
    then have "child_at self m (p k) (path ! k) = Some (p (Suc k))"
      using dir_at_snoc [OF inv self names name [OF k(1)]] p [of k] by simp
    then show "x \<in> dom m" using k(2) by (auto simp: child_at_def)
  qed
  moreover have "inj_on ?key {..<length path}"
  proof (rule inj_onI)
    fix i j
    assume ij: "i \<in> {..<length path}" "j \<in> {..<length path}" and eq: "?key i = ?key j"
    have "short (path ! i)" "short (path ! j)" using ij name by simp_all
    from keys_inject(2) [OF short [of i] short [of j] this, of self] eq have same: "p i = p j" by simp
    have "take i path = take j path"
      by (rule dir_at_inj [OF inv self names names p p [of j, folded same]])
    then have "length (take i path) = length (take j path)" by simp
    with ij show "i = j" by simp
  qed
  ultimately have "card {..<length path} \<le> card (dom m)" using card_inj_on_le [OF _ _ finite] by blast
  then show ?thesis by simp
qed

section \<open>The turns of the loop\<close>

lemma dir_bind_None: "dir_bind m f trx = None \<longleftrightarrow>
    m trx = None \<or> (\<exists>a t. m trx = Some (Inr (a, t)) \<and> f a t = None)"
  by (auto simp: dir_bind_def split: option.splits sum.splits)

lemma dir_returns [simp]:
  "dir_lift r trx \<noteq> None" "dir_write f trx \<noteq> None" "dir_ok a trx \<noteq> None" "dir_fail e trx \<noteq> None"
  "dir_read g trx \<noteq> None"
  by (simp_all add: dir_lift_def dir_write_def dir_ok_def dir_fail_def dir_read_def)

lemma length_rows: "length (rows m opt) = card {k \<in> dom m. selected opt k}"
  by (simp add: rows_def)

lemma rows_wipe:
  assumes "finite (dom m)" and "D \<subseteq> D'"
  shows "length (rows (wipe self m D') opt) \<le> length (rows (wipe self m D) opt)"
    and "length (rows (wipe self m D) opt) \<le> card (dom m)"
proof -
  have dom: "dom (wipe self m D') \<subseteq> dom (wipe self m D)" "dom (wipe self m D) \<subseteq> dom m"
    using assms(2) by (fastforce simp: wipe_def split: if_splits)+
  then have "finite (dom (wipe self m D))" using assms(1) finite_subset by blast
  with dom(1) show "length (rows (wipe self m D') opt) \<le> length (rows (wipe self m D) opt)"
    unfolding length_rows by (intro card_mono) auto
  show "length (rows (wipe self m D) opt) \<le> card (dom m)"
    unfolding length_rows using dom(2) assms(1) by (intro card_mono) auto
qed

definition turns_left :: "(bytes \<rightharpoonup> bytes) \<Rightarrow> range_option option \<Rightarrow> (bytes \<times> bytes) list \<Rightarrow> nat" where
  "turns_left m maybe_opt items = length items +
     (case maybe_opt of None \<Rightarrow> 0 | Some opt \<Rightarrow> 2 * length (rows m opt) + 1)"

context dir_store
begin

lemma page_turns:
  assumes opt: "sub_range self p opt" and page: "kv_get_range (dir_kv env) s opt i = Inr page"
  shows "turns_left (view s) (next_range opt page) (fst page) < turns_left (view s) (Some opt) []"
proof -
  obtain kvs has_more where pg: "page = (kvs, has_more)" by (cases page)
  have o: "plain opt" "limit opt = None" using opt by (simp_all add: sub_range_def)
  note scan = next_range_scan [OF o(1) page [unfolded pg]]
  show ?thesis
  proof (cases "next_range opt page")
    case None
    then show ?thesis using scan o(2) by (simp add: turns_left_def pg scan_rows_def)
  next
    case (Some opt')
    then have "limit opt' = None" using o(2) by (auto simp: next_range_def Let_def split: if_splits)
    with Some scan o(2) have len: "length (rows (view s) opt) = length kvs + length (rows (view s) opt')"
      "length (rows (view s) opt') < length (rows (view s) opt)"
      by (auto simp: pg scan_rows_def)
    then have "0 < length kvs" by linarith
    with len(1) Some show ?thesis by (simp add: turns_left_def pg)
  qed
qed

lemma children_end:
  assumes inv: "dir_inv self m A" and p: "p \<in> dirs self m" and finite: "finite (dom m)"
    and child: "\<And>c f s D. is_child self m p c \<Longrightarrow> wiped self m D (view s) \<Longrightarrow> need \<le> f \<Longrightarrow>
      remove_recursive f env self (node_with_prefix self c) s \<noteq> None"
  shows "\<lbrakk>wiped self m D (view s); \<forall>row \<in> set items. is_child self m p (snd row);
    \<forall>opt. maybe_opt = Some opt \<longrightarrow> sub_range self p opt; turns_left (view s) maybe_opt items + need < f\<rbrakk> \<Longrightarrow>
    remove_children f env self i maybe_opt items s \<noteq> None"
proof (induction f arbitrary: s D items maybe_opt i)
  case (Suc f)
  show ?case
  proof (cases items)
    case (Cons row rest)
    have row: "is_child self m p (snd row)" using Suc.prems(2) Cons by simp
    have turns: "turns_left (view s) maybe_opt items = Suc (turns_left (view s) maybe_opt rest)"
      by (simp add: turns_left_def Cons)
    have one: "remove_recursive f env self (node_with_prefix self (snd row)) s \<noteq> None"
      using child [OF row Suc.prems(1)] Suc.prems(4) turns by simp
    moreover have "remove_children f env self i maybe_opt rest t \<noteq> None"
      if "remove_recursive f env self (node_with_prefix self (snd row)) s = Some (Inr (a, t))" for a t
    proof -
      from remove_wipes [OF inv, THEN conjunct1, rule_format, OF that is_child_dirs [OF p inv row] Suc.prems(1)]
      obtain D' where D': "wiped self m D' (view t)" "insert (snd row) D \<subseteq> D'" by blast
      have "turns_left (view t) maybe_opt rest \<le> turns_left (view s) maybe_opt rest"
        using rows_wipe(1) [OF finite, of D D'] D' Suc.prems(1)
        by (auto simp: turns_left_def wiped_def split: option.splits)
      with Suc.prems(4) turns have "turns_left (view t) maybe_opt rest + need < f" by simp
      with Suc.IH [OF D'(1) _ Suc.prems(3)] Suc.prems(2) Cons show ?thesis by simp
    qed
    ultimately show ?thesis by (simp add: Cons remove_children.simps dir_bind_None del: not_None_eq)
  next
    case Nil
    show ?thesis
    proof (cases maybe_opt)
      case None
      with Nil show ?thesis by (simp add: remove_children.simps)
    next
      case (Some opt)
      have sub: "sub_range self p opt" using Suc.prems(3) Some by simp
      have "remove_children f env self (i + 1) (next_range opt page) (fst page) s \<noteq> None"
        if page: "kv_get_range (dir_kv env) s opt i = Inr page" for page
      proof (rule Suc.IH [OF Suc.prems(1)])
        have "D \<subseteq> dirs self m" "view s = wipe self m D" using Suc.prems(1) by (simp_all add: wiped_def)
        note batch = child_batch [OF inv dirs_facts(1) [OF inv p] this sub page]
        show "\<forall>row \<in> set (fst page). is_child self m p (snd row)" using batch(1) by (simp add: is_child_def)
        show "\<forall>o'. next_range opt page = Some o' \<longrightarrow> sub_range self p o'" using batch(2) by blast
        show "turns_left (view s) (next_range opt page) (fst page) + need < f"
          using page_turns [OF sub page] Suc.prems(4) Some Nil by simp
      qed
      then show ?thesis by (simp add: Nil Some remove_children.simps del: not_None_eq split: sum.split)
    qed
  qed
qed simp

lemma node_ends:
  assumes inv: "dir_inv self m A" and p: "p \<in> dirs self m" and finite: "finite (dom m)" and N: "card (dom m) \<le> N"
    and child: "\<And>c f s D. is_child self m p c \<Longrightarrow> wiped self m D (view s) \<Longrightarrow> need \<le> f \<Longrightarrow>
      remove_recursive f env self (node_with_prefix self c) s \<noteq> None"
    and wiped: "wiped self m D (view s)" and fuel: "2 * N + 2 + need < f"
  shows "remove_recursive f env self (node_with_prefix self p) s \<noteq> None"
proof -
  let ?opt = "range_of_subspace (sub_dirs (node_with_prefix self p))"
  obtain f' where f: "f = Suc f'" using fuel by (cases f) auto
  have short: "short p" using dirs_facts(1) [OF inv p] .
  have "length (rows (view s) ?opt) \<le> card (dom m)"
    using rows_wipe(2) [OF finite, of D D self] wiped by (simp add: wiped_def)
  with N fuel f have turns: "turns_left (view s) (Some ?opt) [] + need < f'" by (simp add: turns_left_def)
  have "remove_children f' env self 1 (Some ?opt) [] s \<noteq> None"
  proof (rule children_end [OF inv p finite _ wiped _ _ turns])
    show "remove_recursive f env self (node_with_prefix self c) s \<noteq> None"
      if "is_child self m p c" "wiped self m D (view s)" "need \<le> f" for c f s D
      using child [OF that] .
  qed (use sub_range_start(1) [OF short] in simp_all)
  then show ?thesis by (simp add: f remove_recursive.simps Let_def dir_bind_None del: not_None_eq)
qed

lemma remove_ends:
  assumes inv: "dir_inv self m A" and self: "wf_layer self" and finite: "finite (dom m)" and N: "card (dom m) \<le> N"
  shows "\<lbrakk>names_ok ns; dir_at self m ns = Some p; p \<in> dirs self m; N \<le> length ns + L;
    wiped self m D (view s); (2 * N + 3) * (L + 1) \<le> f\<rbrakk> \<Longrightarrow>
    remove_recursive f env self (node_with_prefix self p) s \<noteq> None"
proof (induction L arbitrary: ns p f s D)
  case (0 ns p f s D)
  have "\<not> is_child self m p c" for c
  proof
    assume "is_child self m p c"
    then obtain n where n: "short n" "dir_at self m (ns @ [n]) = Some c"
      using dir_at_snoc [OF inv self 0(1)] 0(2) by (auto simp: is_child_def)
    with path_length [OF inv self _ n(2) finite] 0(1,4) N show False by simp
  qed
  then show ?case by (intro node_ends [OF inv 0(3) finite N _ 0(5), where need = 0]) (use 0(6) in auto)
next
  case (Suc L ns p f s D)
  let ?need = "(2 * N + 3) * (L + 1)"
  show ?case
  proof (rule node_ends [OF inv Suc.prems(3) finite N _ Suc.prems(5), where need = ?need])
    show "2 * N + 2 + ?need < f" using Suc.prems(6) by (simp add: algebra_simps)
    fix c f s D
    assume c: "is_child self m p c" and rest: "wiped self m D (view s)" "?need \<le> f"
    then obtain n where n: "short n" "dir_at self m (ns @ [n]) = Some c"
      using dir_at_snoc [OF inv self Suc.prems(1)] Suc.prems(2) by (auto simp: is_child_def)
    show "remove_recursive f env self (node_with_prefix self c) s \<noteq> None"
      using Suc.IH [OF _ n(2) is_child_dirs [OF Suc.prems(3) inv c] _ rest] Suc.prems(1,4) n(1) by simp
  qed
qed

lemma remove_returns:
  assumes self: "wf_layer self" and inv: "dir_inv self (view s) A" and path: "names_ok path"
    and fuel: "(2 * N + 3) * (N + 1) \<le> fuel" and N: "card (dom (view s)) < N"
  shows "remove_internal fuel env self path must s \<noteq> None"
proof -
  have check: "check_version env self True s \<noteq> None"
    by (auto simp: check_version_def dir_bind_None initialize_directory_def Let_def simp del: not_None_eq split: option.splits)
  show ?thesis
  proof
    assume "remove_internal fuel env self path must s = None"
    with check obtain u s1 found where at: "check_version env self True s = Some (Inr (u, s1))" and ne: "path \<noteq> []"
      and find: "dir_find env self path s1 = Inr found"
      and rest: "(case found of
           None \<Rightarrow> if must then dir_fail DirectoryDoesNotExists s1 else dir_ok False s1
         | Some node \<Rightarrow>
             if is_in_partition node False
             then dir_bind (dir_lift (get_contents node)) (\<lambda>contents trx.
                    case contents of
                      DirectorySubspace _ \<Rightarrow> dir_panic trx
                    | DirectoryPartition d \<Rightarrow>
                        remove_internal fuel env (ds_directory_layer (dp_subspace d)) (node_subpath node)
                          must trx) s1
             else dir_bind (remove_recursive fuel env self (node_sub node)) (\<lambda>_.
                  dir_bind (remove_from_parent env self path) (\<lambda>_. dir_ok True)) s1) = None"
      by (auto simp: remove_internal.simps [of fuel env self path must s] dir_bind_None dir_read_Inr
          simp del: not_None_eq split: if_splits)
    from check_version_grown [OF self inv at] have g: "grown self (view s) A (view s1) A {}" by blast
    have inv1: "dir_inv self (view s1) A" by (rule grownD(2) [OF g])
    have card: "card (dom (view s1)) \<le> N"
    proof -
      from check_version_view [OF at] have "dom (view s1) \<subseteq> insert (version_key self) (dom (view s))" by auto
      then have "card (dom (view s1)) \<le> card (insert (version_key self) (dom (view s)))"
        using view_finite by (intro card_mono) auto
      also have "\<dots> \<le> Suc (card (dom (view s)))" by (simp add: card_insert_if view_finite)
      finally show ?thesis using N by simp
    qed
    show False
    proof (cases "dir_at self (view s1) path")
      case None
      with find_dir [OF self inv1 path find] rest show ?thesis by (auto split: if_splits)
    next
      case (Some q)
      obtain ns name where path_eq: "path = ns @ [name]" using ne by (cases path rule: rev_cases) auto
      have "Option.bind (dir_at self (view s1) ns) (\<lambda>p. child_at self (view s1) p name) = Some q"
        using Some dir_at_snoc [OF inv1 self, of ns name] path path_eq by simp
      then obtain par where par: "dir_at self (view s1) ns = Some par" "child_at self (view s1) par name = Some q"
        by (auto simp: bind_eq_Some_conv)
      have "short par" using dir_at_short [OF inv1 self _ par(1)] path path_eq by simp
      with par(2) path path_eq have q: "q \<in> dirs self (view s1)" by (auto simp: dirs_def is_child_def)
      have "remove_recursive fuel env self (node_with_prefix self q) s1 \<noteq> None"
        by (rule remove_ends [OF inv1 self view_finite card path Some q, where L = N and D = "{}"])
          (use fuel in \<open>simp_all add: wiped_refl\<close>)
      moreover have "remove_from_parent env self path t \<noteq> None" for t
        by (simp add: remove_from_parent_def dir_bind_None del: not_None_eq split: option.split)
      ultimately show ?thesis
        using find_dir [OF self inv1 path find] Some rest
        by (simp add: is_in_partition_def dir_bind_None del: not_None_eq)
    qed
  qed
qed

end

end
