(* ===== verification/Directory_Outputs.thy ===== *)
theory Directory_Outputs
  imports Directory_Fuel
begin

text \<open>
  The outputs of the directory layer, in any tree, with partitions or without: their kind, their
  path and the layer they work on.  No promise of the client is used.
\<close>

section \<open>What a node is found with\<close>

lemma dir_find_loop_current:
  "dir_find_loop env self sub walked layer loaded path trx = Inr (Some (sub', walked', layer', loaded')) \<Longrightarrow>
   (\<exists>n. walked' = walked @ take n path) \<and>
   (walked' = walked @ path \<or> layer' = PARTITION_LAYER \<and> loaded')"
proof (induction path arbitrary: sub walked layer loaded)
  case (Cons name path)
  then obtain found s l where step: "dir_get env (child_key sub name) trx = Inr found"
    "node_with_optional_prefix self found = Some s" "load_metadata env s trx = Inr l"
    and rest: "(if l = PARTITION_LAYER then Inr (Some (s, walked @ [name], l, True))
      else dir_find_loop env self s (walked @ [name]) l True path trx) = Inr (Some (sub', walked', layer', loaded'))"
    by (auto simp: Let_def bind_result_eq_Inr split: option.splits)
  show ?case
  proof (cases "l = PARTITION_LAYER")
    case False
    with rest have "dir_find_loop env self s (walked @ [name]) l True path trx = Inr (Some (sub', walked', layer', loaded'))"
      by simp
    from Cons.IH [OF this] obtain n where "walked' = (walked @ [name]) @ take n path"
      and or: "walked' = (walked @ [name]) @ path \<or> layer' = PARTITION_LAYER \<and> loaded'" by blast
    then have "walked' = walked @ take (Suc n) (name # path)" by simp
    with or show ?thesis unfolding append_assoc append.simps by blast
  next
    case True
    with rest have "walked' = walked @ take (Suc 0) (name # path)" "layer' = PARTITION_LAYER" loaded' by simp_all
    then show ?thesis by blast
  qed
qed auto

lemma dir_find_current:
  assumes "dir_find env self path trx = Inr (Some node)"
  shows "current_path node @ node_subpath node = path"
    and "\<not> is_in_partition node False \<Longrightarrow> current_path node = path"
proof -
  from assms obtain found where loop: "dir_find_loop env self (root_node self) [] [] False path trx = Inr found"
    and rest: "(case found of
         None \<Rightarrow> Inr None
       | Some (sub, walked, layer, loaded) \<Rightarrow>
           bind_result (if \<not> loaded then load_metadata env sub trx else Inr layer) (\<lambda>layer.
             Inr (Some \<lparr>node_sub = sub, current_path = walked, target_path = path,
               node_directory_layer = self, node_layer = layer\<rparr>))) = Inr (Some node)"
    by (auto simp: dir_find_def bind_result_eq_Inr)
  from rest obtain sub w l loaded where found: "found = Some (sub, w, l, loaded)" by (cases found) auto
  with rest have node: "current_path node = w" "target_path node = path" "loaded \<Longrightarrow> node_layer node = l"
    by (auto simp: bind_result_eq_Inr split: if_splits)
  from dir_find_loop_current [OF loop [unfolded found]] obtain n where
    w: "w = take n path" "w = path \<or> l = PARTITION_LAYER \<and> loaded" unfolding append_Nil by blast
  have "w @ drop (length w) path = path" unfolding w(1) by (metis append_take_drop_id length_take min.cobounded1 min_def take_all)
  then show whole: "current_path node @ node_subpath node = path" by (simp add: node node_subpath_def)
  show "current_path node = path" if "\<not> is_in_partition node False"
  proof (cases "w = path")
    case False
    with w node that have "length path \<le> length w" by (simp add: is_in_partition_def)
    with whole node(1) have "length (node_subpath node) = 0" by (metis add_le_same_cancel1 le_zero_eq length_append)
    with whole show ?thesis by simp
  qed (simp add: node)
qed

section \<open>Well-formed outputs\<close>

text \<open>An output lies in its layer, and a partition in its parent, of which it is another root.\<close>

fun wf_output :: "directory_output \<Rightarrow> bool" where
  "wf_output (DirectorySubspace d) \<longleftrightarrow> ds_layer d \<noteq> PARTITION_LAYER \<and>
     below (dl_path (ds_directory_layer d)) (ds_path d)"
| "wf_output (DirectoryPartition d) \<longleftrightarrow> ds_layer (dp_subspace d) = PARTITION_LAYER \<and>
     dl_path (ds_directory_layer (dp_subspace d)) = ds_path (dp_subspace d) \<and>
     allow_manual_prefixes (ds_directory_layer (dp_subspace d)) = False \<and>
     below (dl_path (parent_directory_layer d)) (ds_path (dp_subspace d))"

lemma contents_wf:
  assumes "contents_of_node self sub path layer = Inr out"
  shows "wf_output out \<and> output_path out = dl_path self @ path \<and> output_layer out = layer"
  using assms
  by (auto simp: contents_of_node_def bind_result_eq_Inr dp_new_def ds_new_def dl_new_with_path_def Let_def
      to_absolute_path_def below_append output_path_def output_layer_def split: if_splits)

lemma outputs_wf:
  "create_or_open_internal env self path p layer ac ao s = Some (Inr (out, s')) \<Longrightarrow>
   wf_output out \<and> output_path out = dl_path self @ path"
proof (induction path arbitrary: self s out s' rule: length_induct)
  case (1 path)
  from "1.prems" obtain t found where find: "dir_find env self path t = Inr found"
    and rest: "(case found of
          Some node \<Rightarrow>
            if is_in_partition node False
            then let sub_path = node_subpath node
              in dir_bind (dir_lift (get_contents node)) (\<lambda>contents trx.
                   case contents of
                     DirectorySubspace _ \<Rightarrow> dir_panic trx
                   | DirectoryPartition directory_partition \<Rightarrow>
                       create_or_open_internal env (ds_directory_layer (dp_subspace directory_partition))
                         sub_path p layer ac ao trx) t
            else open_internal self layer node ao t
        | None \<Rightarrow> create_internal env self path layer p ac t) = Some (Inr (out, s'))"
    by (auto simp: create_or_open_internal.simps dir_bind_Inr dir_read_Inr split: if_splits)
  show ?case
  proof (cases found)
    case None
    with rest have "create_internal env self path layer p ac t = Some (Inr (out, s'))" by simp
    then obtain node l where "contents_of_node self node path l = Inr out"
      by (auto simp: create_internal.simps Let_def dir_Inr split: if_splits)
    from contents_wf [OF this] show ?thesis by simp
  next
    case (Some node)
    with find have find: "dir_find env self path t = Inr (Some node)" by simp
    note current = dir_find_current [OF find] and layer = dir_find_path(3) [OF find]
    show ?thesis
    proof (cases "is_in_partition node False")
      case False
      with rest Some have "get_contents node = Inr out"
        by (auto simp: open_internal_def dir_lift_Inr bind_result_eq_Inr split: if_splits)
      then have "contents_of_node self (node_sub node) path (node_layer node) = Inr out"
        using current(2) [OF False] layer by (simp add: get_contents_def)
      from contents_wf [OF this] show ?thesis by simp
    next
      case True
      with rest Some obtain contents where c: "get_contents node = Inr contents"
        and run: "(case contents of DirectorySubspace _ \<Rightarrow> dir_panic t
          | DirectoryPartition directory_partition \<Rightarrow>
              create_or_open_internal env (ds_directory_layer (dp_subspace directory_partition))
                (node_subpath node) p layer ac ao t) = Some (Inr (out, s'))"
        by (auto simp: Let_def dir_bind_Inr dir_lift_Inr)
      then obtain d where d: "get_contents node = Inr (DirectoryPartition d)"
        and nested: "create_or_open_internal env (ds_directory_layer (dp_subspace d)) (node_subpath node) p layer ac ao t =
          Some (Inr (out, s'))"
        by (cases contents) auto
      have "path \<noteq> []" using True dir_find_path(1) [OF find] by (auto simp: is_in_partition_def)
      then have "length (node_subpath node) < length path" by (rule dir_find_path(2) [OF find])
      with "1.IH" nested have "wf_output out \<and>
          output_path out = dl_path (ds_directory_layer (dp_subspace d)) @ node_subpath node" by blast
      moreover have "dl_path (ds_directory_layer (dp_subspace d)) = dl_path self @ current_path node"
        using contents_wf [of "node_directory_layer node" "node_sub node" "current_path node" "node_layer node"] d layer
        by (simp add: get_contents_def output_path_def)
      ultimately show ?thesis using current(1) by simp
    qed
  qed
qed

text \<open>An operation on an output is one of its layer, on the path below the layer.\<close>

lemma subpath_below:
  "below (dl_path (ds_directory_layer d)) (ds_path d) \<Longrightarrow>
   ds_partition_subpath d path None = Inr (drop (length (dl_path (ds_directory_layer d))) (ds_path d) @ path)"
  by (auto simp: ds_partition_subpath_def below_append)

lemma partition_subpath_below:
  "below (dl_path (dp_layer_for_path d path)) (ds_path (dp_subspace d)) \<Longrightarrow>
   dp_partition_subpath d path (Some (dp_layer_for_path d path)) =
     Inr (drop (length (dl_path (dp_layer_for_path d path))) (ds_path (dp_subspace d)) @ path)"
  by (auto simp: dp_partition_subpath_def below_append)


lemma moved_wf:
  "move_to_internal env self old new s = Some (Inr (out, s')) \<Longrightarrow>
   wf_output out \<and> output_path out = dl_path self @ new"
proof (induction old arbitrary: self new s out s' rule: length_induct)
  case (1 old)
  from "1.prems" [unfolded move_to_internal.simps [of env self old new s]]
  obtain t found_old found where find_old: "dir_find env self old t = Inr found_old"
    and find_new: "dir_find env self new t = Inr found"
    and rest: "(case found_old of
        None \<Rightarrow> dir_fail PathDoesNotExists t
      | Some old_node \<Rightarrow>
          let old_in = is_in_partition old_node False
          in case found of
               Some new_node \<Rightarrow>
                 let new_in = is_in_partition new_node False
                 in if old_in \<or> new_in
                    then if \<not> old_in \<or> \<not> new_in \<or> current_path old_node \<noteq> current_path new_node
                         then dir_fail CannotMoveBetweenPartition t
                         else dir_bind (dir_lift (get_contents new_node)) (\<lambda>contents.
                           output_move_to (\<lambda>layer old new trx. move_to_internal env layer old new trx)
                             contents (node_subpath old_node) (node_subpath new_node)) t
                    else dir_fail DirAlreadyExists t
             | None \<Rightarrow>
                 if old_in then dir_fail CannotMoveBetweenPartition t
                 else if new = [] then dir_fail DirAlreadyExists t
                 else
                   dir_bind (dir_read (\<lambda>trx. bind_result (dir_find env self (butlast new) trx)
                     (ok_or ParentDirDoesNotExists))) (\<lambda>parent_node.
                   dir_bind (dir_lift (map_err DirPack (subspace_unpack unpack_bytes
                     (node_subspace self) (prefix (node_sub old_node))))) (\<lambda>v.
                   dir_bind (dir_write (kv_set (dir_kv env)
                     (child_key (node_sub parent_node) (last new)) v)) (\<lambda>_.
                   dir_bind (remove_from_parent env self old) (\<lambda>_.
                     dir_lift (contents_of_node self (node_sub old_node) new
                       (node_layer old_node)))))) t) = Some (Inr (out, s'))"
    by (auto simp: dir_bind_Inr dir_read_Inr simp del: move_to_internal.simps split: if_splits)
  from rest obtain old_node where old_node: "found_old = Some old_node" by (cases found_old) auto
  with find_old have old: "dir_find env self old t = Inr (Some old_node)" by simp
  show ?case
  proof (cases found)
    case None
    with rest old_node obtain sub layer where "contents_of_node self sub new layer = Inr out"
      by (auto simp: Let_def dir_Inr simp del: move_to_internal.simps split: if_splits)
    from contents_wf [OF this] show ?thesis by simp
  next
    case (Some new_node)
    with rest old_node obtain contents t' where parts: "is_in_partition old_node False" "is_in_partition new_node False"
      and contents: "get_contents new_node = Inr contents"
      and run: "output_move_to (\<lambda>layer old new trx. move_to_internal env layer old new trx) contents
          (node_subpath old_node) (node_subpath new_node) t' = Some (Inr (out, s'))"
      by (auto simp: Let_def dir_bind_Inr dir_lift_Inr simp del: move_to_internal.simps split: if_splits)
    from find_new Some have find: "dir_find env self new t = Inr (Some new_node)" by simp
    have layer: "node_layer new_node = PARTITION_LAYER" using parts(2) by (simp add: is_in_partition_def)
    obtain p where d: "contents = DirectoryPartition (dp_new
        (to_absolute_path (node_directory_layer new_node) (current_path new_node)) p (node_directory_layer new_node))"
      by (rule get_contents_partition [OF contents layer])
    let ?layer = "ds_directory_layer (dp_subspace (dp_new (to_absolute_path self (current_path new_node)) p self))"
    from run d have "move_to_internal env ?layer (node_subpath old_node) (node_subpath new_node) t' = Some (Inr (out, s'))"
      by (simp add: output_move_to_def dp_move_to_def ds_move_to_def ds_partition_subpath_def dir_Inr dir_find_path(3) [OF find]
        del: move_to_internal.simps)
    moreover have "old \<noteq> []" using parts(1) dir_find_path(1) [OF old] by (auto simp: is_in_partition_def)
    then have "length (node_subpath old_node) < length old" by (rule dir_find_path(2) [OF old])
    ultimately have "wf_output out \<and> output_path out = dl_path ?layer @ node_subpath new_node"
      using "1.IH" by blast
    then show ?thesis using dir_find_current(1) [OF find] by (simp add: to_absolute_path_def)
  qed
qed

lemma check_path_prefix_ok: "check_path_prefix ps new = Inr u \<Longrightarrow> new = ps @ drop (length ps) new"
  by (induction ps new rule: check_path_prefix.induct) (auto split: if_splits)

text \<open>The calls on an output: their result lies below it, at the path of the call.\<close>

lemma below_path: "below q p \<Longrightarrow> q @ drop (length q) p = p"
  by (auto simp: below_append)

lemma output_calls_wf:
  assumes d: "wf_output d"
  shows "output_create_or_open env d path p layer s = Some (Inr (out, s')) \<Longrightarrow>
      wf_output out \<and> output_path out = output_path d @ path"
    and "output_create env d path p layer s = Some (Inr (out, s')) \<Longrightarrow>
      wf_output out \<and> output_path out = output_path d @ path"
    and "output_open env d path layer s = Some (Inr (out, s')) \<Longrightarrow>
      wf_output out \<and> output_path out = output_path d @ path"
    and "output_move_to (dl_move_to env) d old new s = Some (Inr (out, s')) \<Longrightarrow>
      wf_output out \<and> output_path out = output_path d @ new"
    and "output_move_directory env d new s = Some (Inr (out, s')) \<Longrightarrow>
      wf_output out \<and> output_path out = new"
proof -
  define sub where "sub = (case d of DirectorySubspace d \<Rightarrow> d | DirectoryPartition d \<Rightarrow> dp_subspace d)"
  have sub: "below (dl_path (ds_directory_layer sub)) (ds_path sub)" and at: "output_path d = ds_path sub"
    using d by (cases d; auto simp: sub_def output_path_def below_def)+
  have rel: "dl_path (ds_directory_layer sub) @ drop (length (dl_path (ds_directory_layer sub))) (ds_path sub) @ path =
      output_path d @ path" for path
    using below_path [OF sub] at by (metis append_assoc)
  note calls = output_create_or_open_def output_create_def output_open_def output_move_to_def dp_create_or_open_def
    dp_create_def dp_open_def dp_move_to_def ds_create_or_open_def ds_create_def ds_open_def ds_move_to_def
    dl_create_or_open_def dl_create_def dl_open_def dl_move_to_def dir_Inr subpath_below [OF sub]
  show "wf_output out \<and> output_path out = output_path d @ path"
    if "output_create_or_open env d path p layer s = Some (Inr (out, s'))"
  proof -
    from that have "ds_create_or_open env sub path p layer s = Some (Inr (out, s'))"
      by (cases d) (simp_all add: output_create_or_open_def dp_create_or_open_def sub_def)
    then show ?thesis using outputs_wf rel by (fastforce simp: calls)
  qed
  show "wf_output out \<and> output_path out = output_path d @ path"
    if "output_create env d path p layer s = Some (Inr (out, s'))"
  proof -
    from that have "ds_create env sub path p layer s = Some (Inr (out, s'))"
      by (cases d) (simp_all add: output_create_def dp_create_def sub_def)
    then show ?thesis using outputs_wf rel by (fastforce simp: calls)
  qed
  show "wf_output out \<and> output_path out = output_path d @ path"
    if "output_open env d path layer s = Some (Inr (out, s'))"
  proof -
    from that have "ds_open env sub path layer s = Some (Inr (out, s'))"
      by (cases d) (simp_all add: output_open_def dp_open_def sub_def)
    then show ?thesis using outputs_wf rel by (fastforce simp: calls)
  qed
  show "wf_output out \<and> output_path out = output_path d @ new"
    if "output_move_to (dl_move_to env) d old new s = Some (Inr (out, s'))"
  proof -
    from that have "ds_move_to (dl_move_to env) sub old new s = Some (Inr (out, s'))"
      by (cases d) (simp_all add: output_move_to_def dp_move_to_def sub_def)
    then show ?thesis using moved_wf rel by (fastforce simp: calls simp del: move_to_internal.simps)
  qed
  show "wf_output out \<and> output_path out = new" if "output_move_directory env d new s = Some (Inr (out, s'))"
  proof -
    from that obtain l o1 t where new: "new = dl_path l @ drop (length (dl_path l)) new"
      and "move_to_internal env l o1 (drop (length (dl_path l)) new) t = Some (Inr (out, s'))"
      by (cases d) (auto simp: output_move_directory_def ds_move_directory_def dp_move_directory_def Let_def dl_move_to_def
          dir_Inr simp del: move_to_internal.simps dest: check_path_prefix_ok split: if_splits)
    with moved_wf show ?thesis by metis
  qed
qed

end
