(* ===== verification/Directory_Sample.thy ===== *)
theory Directory_Sample
  imports Directory_Outputs
begin

text \<open>
  A small tree in memory, on which the properties of the directory layer are exercised: one
  directory \<^verbatim>\<open>a\<close> with the prefix 5, in a layer that takes manual prefixes.
\<close>

section \<open>Searching in memory\<close>

lemma unpack_element_bytes:
  "no_escape rest \<Longrightarrow> unpack_element (Suc 0) (bytes_enc p @ rest) = Inr (rest, EBytes p)"
  using unescape_escape [of rest p]
  by (simp add: bytes_enc_def unpack_element_Suc unpack_bytes_def parse_slice_eq map_value_def parse_code_def)

lemma unpack_elements_of_bytes:
  "unpack_elements_of s (prefix s @ bytes_enc p @ bytes_enc q) = Some (Inr [EBytes p, EBytes q])"
proof -
  have q: "unpack_elements (Suc 0) False (bytes_enc q) = Inr ([], [EBytes q])"
    using unpack_element_bytes [of "[]" q] by (simp add: bytes_enc_def)
  have "unpack_elements (Suc 0) False (bytes_enc p @ bytes_enc q) = Inr ([], [EBytes p, EBytes q])"
    using unpack_element_bytes [of "bytes_enc q" p] q by (simp add: bytes_enc_def)
  then have "unpack_vec unpack_element 0 (bytes_enc p @ bytes_enc q) = Some (Inr ([], [EBytes p, EBytes q]))"
    by (simp add: unpack_vec_element_root)
  then show ?thesis by (simp add: unpack_elements_of_def is_start_of_def starts_with_def)
qed


lemma mem_find_loop: "\<exists>r. dir_find_loop (mem_env n) self sub walked layer loaded path s = Inr r"
  by (induction path arbitrary: sub walked layer loaded)
    (auto simp: Let_def mem_dir_get load_metadata_def split: option.split)

lemma mem_find:
  assumes "wf_layer self" and "dir_inv self (map_of s) A" and "names_ok path"
  shows "dir_find (mem_env n) self path s = Inr (map_option (\<lambda>q. \<lparr>node_sub = node_with_prefix self q,
      current_path = path, target_path = path, node_directory_layer = self,
      node_layer = layer_at self (map_of s) q\<rparr>) (dir_at self (map_of s) path))"
proof -
  obtain r where "dir_find_loop (mem_env n) self (root_node self) [] [] False path s = Inr r"
    using mem_find_loop by blast
  then have "\<exists>r. dir_find (mem_env n) self path s = Inr r"
    by (auto simp: dir_find_def mem_dir_get load_metadata_def split: option.split)
  then obtain r where r: "dir_find (mem_env n) self path s = Inr r" by blast
  with mem_dir.find_dir [OF assms(1,2,3) r] show ?thesis by simp
qed

lemma mem_writes [simp]:
  "kv_set (dir_kv (mem_env n)) = (\<lambda>k v s. (k, v) # s)"
  "kv_clear (dir_kv (mem_env n)) = (\<lambda>k. filter (\<lambda>p. fst p \<noteq> k))"
  "kv_clear_range (dir_kv (mem_env n)) = (\<lambda>lo hi. filter (\<lambda>p. \<not> (lo \<le> fst p \<and> fst p < hi)))"
  by (simp_all add: mem_env_def mem_kv_def)

section \<open>The tree\<close>

definition sample_layer :: directory_layer where
  "sample_layer = dl_new (subspace_of DEFAULT_NODE_PREFIX) subspace_all True"

definition sample_tree :: "(bytes \<times> bytes) list" where
  "sample_tree = [(layer_key sample_layer [5], []), (name_key sample_layer [0xFE] [97], [5]),
     (version_key sample_layer, to_le_bytes MAJOR_VERSION @ to_le_bytes MINOR_VERSION @ to_le_bytes PATCH_VERSION)]"

lemma sample_layer_eqs [simp]:
  "nodes_prefix sample_layer = [0xFE]" "wf_layer sample_layer" "short_content sample_layer"
  "allow_manual_prefixes sample_layer" "dl_path sample_layer = []"
proof -
  have "subspace_of DEFAULT_NODE_PREFIX = \<lparr>prefix = [0xFE], versionstamp_offset = VNone 1\<rparr>"
    by (simp add: subspace_of_def from_bytes_def DEFAULT_NODE_PREFIX_def)
  then show "nodes_prefix sample_layer = [0xFE]" "wf_layer sample_layer" "short_content sample_layer"
    "allow_manual_prefixes sample_layer" "dl_path sample_layer = []"
    using wf_layer_new [of "subspace_of DEFAULT_NODE_PREFIX" subspace_all True]
    by (simp_all add: sample_layer_def dl_new_def Let_def short_def short_content_def subspace_all_def)
qed

lemma sample_dir_keys:
  "layer_key sample_layer [b] = 0xFE # bytes_enc [b] @ [1, 108, 97, 121, 101, 114, 0]"
  "name_key sample_layer [0xFE] [c] = 0xFE # bytes_enc [0xFE] @ 0x14 # str_enc [c]"
  "version_key sample_layer = 0xFE # bytes_enc [0xFE] @ [1, 118, 101, 114, 115, 105, 111, 110, 0]"
  by (simp_all add: key_eqs short_def bytes_enc_constants INTZERO_def)

lemma sample_names [simp]: "short [b]" "names_ok [[b]]" "short (b # [c])"
  by (simp_all add: short_def)

text \<open>The tree is the empty one with a version and then a node.\<close>

lemma version_only:
  "dir_inv sample_layer [version_key sample_layer \<mapsto> v] {}"
  "in_use sample_layer [version_key sample_layer \<mapsto> v] q \<longleftrightarrow> q = [0xFE]"
  "short p \<Longrightarrow> short n \<Longrightarrow> child_at sample_layer [version_key sample_layer \<mapsto> v] p n = None"
  using version_write [OF sample_layer_eqs(2) dir_inv_empty [OF sample_layer_eqs(2)], where v = v]
  by (auto simp: in_use_def used_def child_at_def)

lemma sample_map:
  "map_of sample_tree = with_node sample_layer
     [version_key sample_layer \<mapsto> to_le_bytes MAJOR_VERSION @ to_le_bytes MINOR_VERSION @ to_le_bytes PATCH_VERSION]
     [0xFE] [97] [5] []"
  by (simp add: sample_tree_def with_node_def)

lemma sample_room:
  "room_for sample_layer [version_key sample_layer \<mapsto> v] [0xFE] [97] [5]"
  by (simp add: room_for_def apart_from_used_def version_only starts_with_def)

lemma sample_inv: "dir_inv sample_layer (map_of sample_tree) {}"
  unfolding sample_map by (rule inv_with_node [OF sample_room version_only(1)]) (simp add: PARTITION_LAYER_def)

lemma sample_dir_at:
  assumes "names_ok ns"
  shows "dir_at sample_layer (map_of sample_tree) ns =
    (if ns = [] then Some [0xFE] else if ns = [[97]] then Some [5] else None)"
proof -
  let ?m = "[version_key sample_layer \<mapsto> to_le_bytes MAJOR_VERSION @ to_le_bytes MINOR_VERSION @ to_le_bytes PATCH_VERSION]"
  have "lookup_dir sample_layer (map_of sample_tree) ns =
      (if ns = [] @ [[97]] then Some ([5], ns) else lookup_dir sample_layer ?m ns)"
    unfolding sample_map
    by (rule lookup_with_node [OF sample_room version_only(1)])
      (use assms in \<open>simp_all add: PARTITION_LAYER_def names_ok_def\<close>)
  moreover have "lookup_dir sample_layer ?m ns = (if ns = [] then Some ([0xFE], []) else None)"
    using assms version_only(3) by (cases ns) (simp_all add: lookup_dir_def)
  ultimately show ?thesis by (simp add: dir_at_def)
qed

lemma sample_layer_at: "layer_at sample_layer (map_of sample_tree) [5] = []"
  unfolding sample_map by (rule new_with_node(2) [OF sample_room])

lemma sample_entry:
  "dir_entry sample_layer (map_of sample_tree) [[97]] = Some ([5], [])"
  by (simp add: dir_entry_def sample_dir_at sample_layer_at)

lemma version_bytes:
  "check_versions (to_le_bytes (M :: u32) @ to_le_bytes (mi :: u32) @ to_le_bytes (pa :: u32)) b =
     (if 1 < M then Inl (Version (CannotLoad M mi pa))
      else if 0 < mi \<and> b then Inl (Version (ReadOnlyVersion M mi pa)) else Inr ())"
proof -
  have "from_le_bytes (to_le_bytes x) = x" for x :: u32 by (rule from_to_le_bytes) simp
  moreover have "size_of x = 4" for x :: u32 by (simp add: size_of_def)
  ultimately show ?thesis
    by (simp add: check_versions_def Let_def MAJOR_VERSION_def MINOR_VERSION_def)
qed

lemma sample_version: "check_version (mem_env n) sample_layer b sample_tree = Some (Inr ((), sample_tree))"
proof -
  have "map_of sample_tree (version_key sample_layer) =
      Some (to_le_bytes MAJOR_VERSION @ to_le_bytes MINOR_VERSION @ to_le_bytes PATCH_VERSION)"
    by (simp add: sample_tree_def sample_dir_keys bytes_enc_def str_enc_def code_defs)
  then show ?thesis
    using version_bytes [of MAJOR_VERSION MINOR_VERSION PATCH_VERSION b]
    by (simp add: check_version_def dir_bind_def dir_read_def dir_lift_def get_version_value_def mem_dir_get
        version_key_def [symmetric] MAJOR_VERSION_def MINOR_VERSION_def)
qed

section \<open>Calls on the tree\<close>

lemmas dir_steps = dir_bind_def dir_read_def dir_lift_def dir_ok_def dir_fail_def dir_write_def

lemma sample_find:
  "names_ok path \<Longrightarrow> dir_find (mem_env n) sample_layer path sample_tree =
     Inr (if path = [] \<or> path = [[97]]
       then Some \<lparr>node_sub = node_with_prefix sample_layer (if path = [] then [0xFE] else [5]), current_path = path,
         target_path = path, node_directory_layer = sample_layer, node_layer = []\<rparr>
       else None)"
  using mem_find [OF sample_layer_eqs(2) sample_inv, of path n] sample_layer_at dir_invD(7) [OF sample_inv]
  by (auto simp: sample_dir_at plain_root_def layer_at_def)

lemma sample_contents:
  "short q \<Longrightarrow> contents_of_node sample_layer (node_with_prefix sample_layer q) path [] =
     Inr (DirectorySubspace (ds_new path q sample_layer []))"
  using contents_of_plain_node [of q "[]" sample_layer path]
  by (simp add: PARTITION_LAYER_def to_absolute_path_def)

lemma sample_open:
  "create_or_open_internal (mem_env n) sample_layer [[97]] None None ac True sample_tree =
     Some (Inr (DirectorySubspace (ds_new [[97]] [5] sample_layer []), sample_tree))"
  by (simp add: create_or_open_internal.simps sample_version sample_find is_in_partition_def open_internal_def
      PARTITION_LAYER_def get_contents_def sample_contents dir_steps)

lemma sample_unpack: "unpack_elements_of (node_subspace sample_layer) (layer_key sample_layer [5]) =
    Some (Inr [EBytes [5], EBytes LAYER_SUFFIX])"
proof -
  have "layer_key sample_layer [5] = nodes_prefix sample_layer @ bytes_enc [5] @ bytes_enc LAYER_SUFFIX"
    by (rule key_eqs(1)) simp
  then show ?thesis by (simp only: unpack_elements_of_bytes)
qed

lemma sample_free: "is_prefix_free (mem_env n) sample_layer [6] sample_tree = Some (Inr (True, sample_tree))"
  using sample_unpack
  unfolding sample_tree_def sample_dir_keys
  by (simp add: is_prefix_free_def node_containing_key_def mem_dir_first mem_rows_def selected_def
      subspace_range_def range_from_keys_def default_range_def first_greater_or_equal_def ks_new_def
      pack_in_eq short_def bytes_enc_def str_enc_def code_defs starts_with_def strinc_def dir_steps)

definition sample_created :: "(bytes \<times> bytes) list" where
  "sample_created = (layer_key sample_layer [6], []) # (name_key sample_layer [0xFE] [98], [6]) # sample_tree"

lemma sample_create:
  "create_or_open_internal (mem_env n) sample_layer [[98]] (Some [6]) None True ao sample_tree =
     Some (Inr (DirectorySubspace (ds_new [[98]] [6] sample_layer []), sample_created))"
proof -
  have root: "root_node sample_layer = node_with_prefix sample_layer [0xFE]"
    using sample_layer_eqs(1,2) by (simp add: wf_layer_def)
  then show ?thesis
    by (simp add: sample_contents create_or_open_internal.simps create_internal.simps get_parent_node.simps sample_version sample_find
        get_prefix_def sample_free root sample_created_def name_key_def layer_key_def dir_steps)
qed

lemma sample_children:
  "mem_get_range n sample_tree (range_of_subspace (sub_dirs (node_with_prefix sample_layer [0xFE]))) i =
     Inr ([(name_key sample_layer [0xFE] [97], [5])], False)"
  "mem_get_range n sample_tree (range_of_subspace (sub_dirs (node_with_prefix sample_layer [5]))) i = Inr ([], False)"
  unfolding sample_tree_def sample_dir_keys
  by (simp_all add: mem_get_range_def mem_rows_def range_of_subspace_def range_from_keys_def subspace_range_def selected_def
      default_range_def first_greater_or_equal_def ks_new_def prefix_sub_dirs prefix_node bytes_enc_def str_enc_def
      code_defs short_def)

lemma sample_list: "list_internal (mem_env n) sample_layer [] sample_tree = Some (Inr ([[97]], sample_tree))"
proof -
  have page: "kv_get_range (dir_kv (mem_env n)) sample_tree (range_of_subspace (sub_dirs (node_with_prefix sample_layer [0xFE]))) i =
      Inr ([(name_key sample_layer [0xFE] [97], [5])], False)" for i
    using sample_children(1) [of n i] by (simp add: mem_env_def mem_kv_def)
  have none: "get_ranges (dir_kv (mem_env n)) sample_tree i None = Some []" for i by (simp add: get_ranges.simps)
  have items: "get_ranges_keyvalues (dir_kv (mem_env n)) sample_tree (range_of_subspace (sub_dirs (node_with_prefix sample_layer [0xFE]))) =
      Some [Inr (name_key sample_layer [0xFE] [97], [5])]"
    by (simp add: get_ranges_keyvalues_def get_ranges.simps [of _ _ _ "Some opt" for opt] page none next_range_def)
  have key: "name_key sample_layer [0xFE] [97] = 0xFE # bytes_enc [0xFE] @ INTZERO # str_enc [97]"
    by (simp add: sample_dir_keys INTZERO_def)
  have zero: "(unpack_ix :: u64 unpacker) d (INTZERO # r) = Inr (r, 0)" for d r
    using unpack_ix_int_enc(1) [of 0, where 'a = 64] by (simp add: int_enc_def int_head_def int_len_def byte_len_def MAX_SZ_def)
  have "subspace_unpack (unpack_tuple (field_cons (unpack_ix :: u64 unpacker) (field_last unpack_str)))
      (node_with_prefix sample_layer [0xFE]) (name_key sample_layer [0xFE] [97]) = Inr (0, [97])"
    using unescape_escape [of "[]" "[97]"]
    by (simp add: key subspace_unpack_def unpack_root_def unpack_tuple_def field_cons_def field_last_def prefix_node
        is_start_of_def starts_with_def zero unpack_str_def str_enc_def parse_string_def parse_slice_eq parse_code_def)
  then show ?thesis
    by (simp add: list_internal.simps sample_version sample_find ok_or_def is_in_partition_def PARTITION_LAYER_def
        list_sub_folders_def items dir_steps)
qed

section \<open>Moving and removing\<close>

definition sample_moved :: "(bytes \<times> bytes) list" where
  "sample_moved = [(name_key sample_layer [0xFE] [98], [5]), (layer_key sample_layer [5], []),
     (version_key sample_layer, to_le_bytes MAJOR_VERSION @ to_le_bytes MINOR_VERSION @ to_le_bytes PATCH_VERSION)]"

lemma sample_root [simp]: "root_node sample_layer = node_with_prefix sample_layer [0xFE]"
  using sample_layer_eqs(1,2) by (simp add: wf_layer_def)

lemma sample_find_root:
  "dir_find (mem_env n) sample_layer [] ((name_key sample_layer [0xFE] [98], v) # sample_tree) =
     Inr (Some \<lparr>node_sub = node_with_prefix sample_layer [0xFE], current_path = [], target_path = [],
       node_directory_layer = sample_layer, node_layer = []\<rparr>)"
proof -
  have "the (subspace_pack pack_bytes (node_with_prefix sample_layer [0xFE]) LAYER_SUFFIX) = layer_key sample_layer [0xFE]"
    by (simp add: layer_key_def pack_in_def)
  then show ?thesis
    by (simp add: dir_find_def load_metadata_def mem_dir_get sample_tree_def sample_dir_keys bytes_enc_def str_enc_def code_defs)
qed

lemma sample_move:
  "move_to_internal (mem_env n) sample_layer [[97]] [[98]] sample_tree =
     Some (Inr (DirectorySubspace (ds_new [[98]] [5] sample_layer []), sample_moved))"
proof -
  have cmp: "compare_slice [[97 :: byte]] [[98]] \<noteq> Equal" by (simp add: compare_slice_Equal)
  have moved: "filter (\<lambda>p. fst p \<noteq> name_key sample_layer [0xFE] [97])
      ((name_key sample_layer [0xFE] [98], [5]) # sample_tree) = sample_moved"
    by (simp add: sample_moved_def sample_tree_def sample_dir_keys bytes_enc_def str_enc_def code_defs)
  have v: "subspace_unpack unpack_bytes (node_subspace sample_layer) (prefix (node_with_prefix sample_layer [5])) = Inr [5]"
    using unpack_node [of sample_layer "[5]"] by (simp add: prefix_node short_def)
  show ?thesis
    using moved
    by (simp add: move_to_internal.simps sample_version sample_find cmp is_in_partition_def PARTITION_LAYER_def ok_or_def v
      remove_from_parent_def sample_find_root sample_contents name_key_def [symmetric] map_err_def dir_steps)
qed

definition sample_removed :: "(bytes \<times> bytes) list" where
  "sample_removed =
     [(version_key sample_layer, to_le_bytes MAJOR_VERSION @ to_le_bytes MINOR_VERSION @ to_le_bytes PATCH_VERSION)]"

lemma sample_page:
  "kv_get_range (dir_kv (mem_env n)) sample_tree (range_of_subspace (sub_dirs (node_with_prefix sample_layer [5]))) i =
     Inr ([], False)"
  using sample_children(2) [of n i] by (simp add: mem_env_def mem_kv_def)

lemma sample_clears:
  "filter (\<lambda>p. [5] \<le> fst p \<longrightarrow> \<not> fst p < [6]) sample_tree = sample_tree"
  "clear_subspace_range (dir_kv (mem_env n)) (node_with_prefix sample_layer [5]) sample_tree =
     (name_key sample_layer [0xFE] [97], [5]) # sample_removed"
  by (simp_all add: clear_subspace_range_def subspace_range_def prefix_node short_def
      sample_tree_def sample_removed_def sample_dir_keys bytes_enc_def str_enc_def code_defs)

lemma sample_recursive:
  "remove_recursive (Suc (Suc (Suc k))) (mem_env n) sample_layer (node_with_prefix sample_layer [5]) sample_tree =
     Some (Inr ((), (name_key sample_layer [0xFE] [97], [5]) # sample_removed))"
  using unpack_node [of sample_layer "[5]"]
  by (simp add: remove_recursive.simps remove_children.simps Let_def sample_page next_range_def prefix_node short_def
      map_err_def strinc_def sample_clears dir_steps)

lemma sample_removed_root:
  "dir_find (mem_env n) sample_layer [] ((name_key sample_layer [0xFE] [97], v) # sample_removed) =
     Inr (Some \<lparr>node_sub = node_with_prefix sample_layer [0xFE], current_path = [], target_path = [],
       node_directory_layer = sample_layer, node_layer = []\<rparr>)"
proof -
  have "the (subspace_pack pack_bytes (node_with_prefix sample_layer [0xFE]) LAYER_SUFFIX) = layer_key sample_layer [0xFE]"
    by (simp add: layer_key_def pack_in_def)
  then show ?thesis
    by (simp add: dir_find_def load_metadata_def mem_dir_get sample_removed_def sample_dir_keys bytes_enc_def str_enc_def code_defs)
qed

lemma sample_remove:
  "remove_internal (Suc (Suc (Suc k))) (mem_env n) sample_layer [[97]] must sample_tree = Some (Inr (True, sample_removed))"
proof -
  have "filter (\<lambda>p. fst p \<noteq> name_key sample_layer [0xFE] [97]) ((name_key sample_layer [0xFE] [97], [5]) # sample_removed) =
      sample_removed"
    by (simp add: sample_removed_def sample_dir_keys bytes_enc_def str_enc_def code_defs)
  then show ?thesis
    by (simp add: remove_internal.simps sample_version sample_find is_in_partition_def PARTITION_LAYER_def
      sample_recursive remove_from_parent_def sample_removed_root name_key_def [symmetric] dir_steps)
qed

definition newer_tree :: "u32 \<Rightarrow> u32 \<Rightarrow> (bytes \<times> bytes) list" where
  "newer_tree M mi = [(version_key sample_layer, to_le_bytes M @ to_le_bytes mi @ to_le_bytes (0 :: u32))]"

end
