(* ===== verification/Directory_Properties.thy ===== *)
theory Directory_Properties
  imports Directory_Sample
begin

text \<open>
  The properties of the directory layer that the other theories prepare.
\<close>

section \<open>Contents\<close>

lemma partition_refuses_content:
  "output_bytes (DirectoryPartition p) = Inl CannotOpenDirectoryPartition"
  "output_subspace pack (DirectoryPartition p) t = Inl CannotOpenDirectoryPartition"
  "output_pack pack (DirectoryPartition p) t = Inl CannotPackDirectoryPartition"
  "output_unpack unpack (DirectoryPartition p) key = Inl CannotPackDirectoryPartition"
  "output_range (DirectoryPartition p) = Inl CannotRangeDirectoryPartition"
  by (simp_all add: output_bytes_def output_subspace_def output_pack_def output_unpack_def output_range_def)

section \<open>Opening again\<close>

definition version_ok :: "directory_layer \<Rightarrow> (bytes \<rightharpoonup> bytes) \<Rightarrow> bool" where
  "version_ok self m \<longleftrightarrow> (case m (version_key self) of None \<Rightarrow> True | Some v \<Rightarrow> check_versions v False = Inr ())"

lemma check_current_version: "check_versions current_version False = Inr ()"
  by (simp only: current_version_def version_bytes) (simp add: MAJOR_VERSION_def)

context dir_store
begin

lemma created_entry:
  assumes self: "wf_layer self" and content: "short_content self" and inv: "dir_inv self (view s) A"
    and names: "names_ok path" and layer: "layer \<noteq> Some PARTITION_LAYER" and p: "prefix_ok self (view s) path p"
    and result: "create_or_open_internal env self path p layer ac ao s = Some (Inr (out, s'))"
  shows "\<exists>A' q l. A \<subseteq> A' \<and> dir_inv self (view s') A' \<and> dir_entry self (view s') path = Some (q, l) \<and>
    out = DirectorySubspace (ds_new (to_absolute_path self path) q self l) \<and>
    (\<forall>k. \<not> starts_with k (nodes_prefix self) \<longrightarrow> view s' k = view s k) \<and>
    (\<forall>ns. names_ok ns \<longrightarrow> dir_entry self (view s') ns = dir_entry self (view s) ns \<or>
       dir_at self (view s) ns = None \<and> below ns path) \<and>
    (if dir_at self (view s) path \<noteq> None
     then ao \<and> view s' = view s \<and> (layer_of layer \<noteq> [] \<longrightarrow> l = layer_of layer)
     else ac \<and> l = layer_of layer \<and> fresh_dir self (view s) A (view s') A' p q)"
proof -
  from create_or_open_opened [OF self content result inv _ layer p] names
  obtain A' q where o: "opened self (view s) A (view s') A' path p layer ac ao q out"
    unfolding names_ok_def by blast
  note o' = o [unfolded opened_def]
  from o' have g: "grown self (view s) A (view s') A' (set_option p)" by (rule conjunct1)
  note g' = grownD [OF g]
  have entry: "dir_entry self (view s') path = Some (q, layer_at self (view s') q)"
    using o' by (simp add: dir_entry_def dir_at_def)
  have others: "dir_entry self (view s') ns = dir_entry self (view s) ns \<or>
       dir_at self (view s) ns = None \<and> below ns path" if ns: "names_ok ns" for ns
  proof (cases "dir_at self (view s) ns")
    case None
    moreover have "lookup_dir self (view s') ns = lookup_dir self (view s) ns \<or>
        lookup_dir self (view s) ns = None \<and> (\<exists>k. ns = take k path)"
      using o' ns unfolding adds_paths_def names_ok_def by blast
    moreover have "\<exists>k. ns = take k path \<Longrightarrow> below ns path" by (auto simp: below_append intro: append_take_drop_id [symmetric])
    ultimately show ?thesis by (auto simp: dir_entry_def dir_at_def)
  next
    case (Some r)
    note at = dir_at_keeps [OF self inv g'(3) ns Some]
    show ?thesis
    proof (cases "ns = []")
      case True
      have "layer_at self (view s) (nodes_prefix self) = []" "layer_at self (view s') (nodes_prefix self) = []"
        using dir_invD(7) [OF inv] dir_invD(7) [OF g'(2)] by (simp_all add: plain_root_def layer_at_def)
      moreover from True Some have "r = nodes_prefix self" by (simp add: dir_at_def lookup_dir_def)
      ultimately show ?thesis using at(1) Some by (simp add: dir_entry_def)
    qed (use at Some in \<open>simp add: dir_entry_def\<close>)
  qed
  have "lookup_dir self (view s) path \<noteq> None \<longleftrightarrow> dir_at self (view s) path \<noteq> None" by (simp add: dir_at_def)
  with o' have last: "if dir_at self (view s) path \<noteq> None
     then ao \<and> view s' = view s \<and> (layer_of layer \<noteq> [] \<longrightarrow> layer_at self (view s') q = layer_of layer)
     else ac \<and> layer_at self (view s') q = layer_of layer \<and> fresh_dir self (view s) A (view s') A' p q"
    by (auto simp del: not_None_eq split: if_splits)
  from o' have out: "out = DirectorySubspace (ds_new (to_absolute_path self path) q self (layer_at self (view s') q))"
    by blast
  show ?thesis using g'(1,2,4) entry out others last by blast
qed

text \<open>The version that a successful call accepts is accepted by the next one.\<close>

lemma created_version:
  assumes self: "wf_layer self" and content: "short_content self" and inv: "dir_inv self (view s) A"
    and names: "names_ok path" and layer: "layer \<noteq> Some PARTITION_LAYER" and p: "prefix_ok self (view s) path p"
    and result: "create_or_open_internal env self path p layer ac ao s = Some (Inr (out, s'))"
  shows "version_ok self (view s')"
proof -
  from create_or_open_opened [OF self content result inv _ layer p] names
  obtain A' q where "opened self (view s) A (view s') A' path p layer ac ao q out"
    unfolding names_ok_def by blast
  then have "grown self (view s) A (view s') A' (set_option p)" by (simp add: opened_def)
  then have version: "version_step self (view s) (view s')" by (rule grownD(7))
  from result obtain u t where "check_version env self False s = Some (Inr (u, t))"
    by (auto simp: create_or_open_internal.simps dir_bind_Inr)
  then have "version_ok self (view s)"
    using get_ok by (auto simp: check_version_def dir_Inr get_version_value_def dir_get_def version_ok_def
        version_key_def split: option.splits)
  with version show ?thesis
    by (auto simp: version_ok_def version_step_def check_current_version)
qed

lemma dir_get_fails: "dir_get env key s = Inl e \<Longrightarrow> \<exists>f. e = DirFdb f"
  by (cases "kv_get (dir_kv env) s key") (auto simp: dir_get_def)

lemma dir_get_Inr: "dir_get env key s = Inr found \<Longrightarrow> found = view s key"
  using get_ok by (auto simp: dir_get_def)

lemma load_metadata_fails: "load_metadata env sub s = Inl e \<Longrightarrow> \<exists>f. e = DirFdb f"
  unfolding load_metadata_def
  by (cases "dir_get env (the (subspace_pack pack_bytes sub LAYER_SUFFIX)) s") (auto dest: dir_get_fails)

lemma find_loop_fails:
  "dir_find_loop env self sub walked layer loaded path s = Inl e \<Longrightarrow> \<exists>f. e = DirFdb f"
  by (induction path arbitrary: sub walked layer loaded)
    (auto simp: Let_def bind_result_def split: sum.splits option.splits if_splits
      dest: dir_get_fails load_metadata_fails)

lemma dir_find_fails: "dir_find env self path s = Inl e \<Longrightarrow> \<exists>f. e = DirFdb f"
  by (auto simp: dir_find_def bind_result_def split: sum.splits option.splits if_splits
      dest: find_loop_fails load_metadata_fails)

lemma check_version_fails:
  "version_ok self (view s) \<Longrightarrow> check_version env self False s = Some (Inl e) \<Longrightarrow> \<exists>f. e = DirFdb f"
  by (cases "dir_get env (version_key self) s")
    (auto simp: check_version_def dir_bind_def dir_read_def dir_lift_def dir_ok_def get_version_value_def
      version_ok_def version_key_def split: option.splits sum.splits dest: dir_get_fails dir_get_Inr)

lemma open_existing:
  assumes self: "wf_layer self" and inv: "dir_inv self (view s) A" and names: "names_ok path" "path \<noteq> []"
    and entry: "dir_entry self (view s) path = Some (q, l)" and version: "version_ok self (view s)"
  shows "create_or_open_internal env self path None None ac True s =
      Some (Inr (DirectorySubspace (ds_new (to_absolute_path self path) q self l), s)) \<or>
    (\<exists>e. create_or_open_internal env self path None None ac True s = Some (Inl (DirFdb e)))"
proof -
  from entry have at: "dir_at self (view s) path = Some q" and l: "l = layer_at self (view s) q"
    by (auto simp: dir_entry_def)
  note q = dir_at_short [OF inv self names(1) at]
  have check: "check_version env self False s \<noteq> None"
    by (auto simp: check_version_def dir_bind_None initialize_directory_def Let_def simp del: not_None_eq split: option.splits)
  then consider e where "check_version env self False s = Some (Inl e)"
    | u t where "check_version env self False s = Some (Inr (u, t))"
    by (cases "check_version env self False s") (auto simp: sum.split_sel elim!: sumE)
  then show ?thesis
  proof cases
    case 1
    with check_version_fails [OF version] show ?thesis
      by (auto simp: create_or_open_internal.simps dir_bind_def)
  next
    case (2 u t)
    from check_version_read [OF 2] have t: "t = s" .
    show ?thesis
    proof (cases "dir_find env self path s")
      case (Inl e)
      with 2 t names dir_find_fails [OF Inl] show ?thesis
        by (auto simp: create_or_open_internal.simps dir_bind_def dir_read_def dir_lift_def)
    next
      case (Inr found)
      from find_dir [OF self inv names(1) Inr] at q(3) names(2) 2 t Inr l
      show ?thesis
        by (simp add: create_or_open_internal.simps is_in_partition_def open_internal_def get_contents_def
          contents_of_plain_node [OF q(1)] dir_steps)
    qed
  qed
qed

end

section \<open>Properties\<close>

text \<open>
  The end of the range of a prefix is exact: unless every byte of the prefix is 255, the keys
  from the prefix to strinc of it are the keys that start with it, and strinc has no more bytes
  than its argument; of a prefix of such bytes it is the empty string.
\<close>

theorem strinc_ends_prefix:
  "if set p \<subseteq> {0xff} then strinc p = []
   else length (strinc p) \<le> length p \<and> {k. p \<le> k \<and> k < strinc p} = {k. starts_with k p}"
  using strinc_range [of p] strinc_empty_iff [of p] length_strinc [of p] by auto

text \<open>
  The free check is exact: it accepts a prefix exactly when it is not empty and no prefix in use
  starts it or starts with it, whichever batches the client cuts, and it leaves the state alone.
\<close>

theorem prefix_free_exact:
  assumes "dir_store env view" and "wf_nodes self (view trx)" and "prefix_free_nodes self (view trx)"
    and "short (p @ [0])" and "p \<noteq> [] \<longrightarrow> strinc p \<noteq> []" and "used self (view trx) (nodes_prefix self)"
    and "is_prefix_free env self p trx = Some (Inr (b, trx'))"
  shows "trx' = trx \<and> (b \<longleftrightarrow> p \<noteq> [] \<and>
    (\<forall>q. used self (view trx) q \<longrightarrow> \<not> starts_with p q \<and> \<not> starts_with q p))"
  by (rule dir_store.is_prefix_free_iff [OF assms])

lemma dl_default_eqs:
  "nodes_prefix dl_default = [0xFE]" "wf_layer dl_default" "prefix (content_subspace dl_default) = []"
  "allow_manual_prefixes dl_default = False" "dl_path dl_default = []"
proof -
  have "subspace_of DEFAULT_NODE_PREFIX = \<lparr>prefix = [0xFE], versionstamp_offset = VNone 1\<rparr>"
    by (simp add: subspace_of_def from_bytes_def DEFAULT_NODE_PREFIX_def)
  then show "nodes_prefix dl_default = [0xFE]" "wf_layer dl_default" "prefix (content_subspace dl_default) = []"
    "allow_manual_prefixes dl_default = False" "dl_path dl_default = []"
    using wf_layer_new [of "subspace_of DEFAULT_NODE_PREFIX" subspace_all False]
    by (simp_all add: dl_default_def dl_new_def Let_def short_def subspace_all_def)
qed

lemma default_keys:
  "layer_key dl_default [5] = [0xFE, 1, 5, 0, 1, 108, 97, 121, 101, 114, 0]"
  "version_key dl_default = [0xFE, 1, 0xFE, 0, 1, 118, 101, 114, 115, 105, 111, 110, 0]"
  by (simp_all add: key_eqs dl_default_eqs short_def bytes_enc_def code_defs LAYER_SUFFIX_def VERSION_KEY_def)

theorem prefix_free_exact_witness:
  "let s = [(layer_key dl_default [5], []), (version_key dl_default, [])] in
   is_prefix_free (mem_env 0) dl_default [5, 1] s = Some (Inr (False, s)) \<and>
   s = s \<and> (False \<longleftrightarrow> [5, 1] \<noteq> ([] :: bytes) \<and>
    (\<forall>q. used dl_default (map_of s) q \<longrightarrow> \<not> starts_with [5, 1] q \<and> \<not> starts_with q [5, 1]))"
proof -
  define s :: "(bytes \<times> bytes) list" where "s = [(layer_key dl_default [5], []), (version_key dl_default, [])]"
  let ?p = "[5, 1] :: bytes"
  have m: "map_of s = Map.empty(nodes_prefix dl_default @ bytes_enc [0xFE] @ bytes_enc VERSION_KEY \<mapsto> [],
      nodes_prefix dl_default @ bytes_enc [5] @ bytes_enc LAYER_SUFFIX \<mapsto> [])"
    by (simp add: s_def key_eqs dl_default_eqs short_def)
  have "used dl_default (map_of s) q \<longleftrightarrow> q = [5] \<or> q = [0xFE]" for q
    unfolding m by (simp add: node_update(1) short_def) (auto simp: used_def)
  moreover have "wf_nodes dl_default (map_of s)"
    unfolding m by (intro node_update(2)) (simp_all add: short_def wf_nodes_def)
  moreover have "unpack_elements_of (node_subspace dl_default) (layer_key dl_default [5]) = Some (Inr [EBytes [5], EBytes LAYER_SUFFIX])"
    unfolding key_eqs(1) [of "[5]" dl_default, simplified short_def, simplified] by (rule unpack_elements_of_bytes)
  then have result: "is_prefix_free (mem_env 0) dl_default ?p s = Some (Inr (False, s))"
    unfolding s_def default_keys
    by (simp add: dir_lift_def is_prefix_free_def node_containing_key_def mem_dir_first mem_rows_def selected_def
        subspace_range_def range_from_keys_def default_range_def first_greater_or_equal_def ks_new_def
        pack_in_eq short_def bytes_enc_def code_defs dl_default_eqs dir_bind_def dir_ok_def starts_with_def)
  ultimately show ?thesis
    using prefix_free_exact [OF mem_dir_store [of 0], where self = dl_default and trx = s and p = ?p and b = False and trx' = s]
    unfolding Let_def s_def [symmetric]
    by (simp add: prefix_free_nodes_def short_def strinc_def dl_default_eqs starts_with_def)
qed

text \<open>
  C5.  Creating or opening a directory.  In a tree that satisfies the invariant, when the call succeeds
  the path leads to a directory afterwards and the output describes that directory; the invariant
  holds again, no key outside the metadata is touched, and every other path has the directory it
  had, unless it had none and is a parent of the new one.  If the path had a directory, opening was
  allowed, nothing was written, and a layer that was asked for is its layer.  If it had none,
  creating was allowed, the layer is the one given, and the prefix is the given one, or the key of a
  value that the allocator had not given yet below which nothing is stored; no prefix in use
  starts it or starts with it and the directory has no children.
\<close>

theorem directory_created:
  assumes "dir_store env view" and "wf_layer self" and "short_content self" and "dir_inv self (view s) A"
    and "names_ok path" and "layer \<noteq> Some PARTITION_LAYER" and "prefix_ok self (view s) path p"
    and "create_or_open_internal env self path p layer allow_create allow_open s = Some (Inr (out, s'))"
  shows "\<exists>A' q l. A \<subseteq> A' \<and> dir_inv self (view s') A' \<and> dir_entry self (view s') path = Some (q, l) \<and>
    out = DirectorySubspace (ds_new (to_absolute_path self path) q self l) \<and>
    (\<forall>k. \<not> starts_with k (nodes_prefix self) \<longrightarrow> view s' k = view s k) \<and>
    (\<forall>ns. names_ok ns \<longrightarrow> dir_entry self (view s') ns = dir_entry self (view s) ns \<or>
       dir_at self (view s) ns = None \<and> below ns path) \<and>
    (if dir_at self (view s) path \<noteq> None
     then allow_open \<and> view s' = view s \<and> (layer_of layer \<noteq> [] \<longrightarrow> l = layer_of layer)
     else allow_create \<and> l = layer_of layer \<and> fresh_dir self (view s) A (view s') A' p q)"
  by (rule dir_store.created_entry [OF assms])

theorem directory_created_witness:
  "create_or_open_internal (mem_env 0) sample_layer [[98]] (Some [6]) None True True sample_tree =
     Some (Inr (DirectorySubspace (ds_new [[98]] [6] sample_layer []), sample_created)) \<and>
   (\<exists>A'. dir_inv sample_layer (map_of sample_created) A') \<and>
   dir_entry sample_layer (map_of sample_created) [[98]] = Some ([6], []) \<and>
   dir_entry sample_layer (map_of sample_created) [[97]] = Some ([5], [])"
proof -
  have p: "prefix_ok sample_layer (map_of sample_tree) [[98]] (Some [6])"
    by (simp add: prefix_ok_def short_def strinc_def lookup_dir_def)
  from directory_created [OF mem_dir_store sample_layer_eqs(2,3) sample_inv _ _ p sample_create [of 0 True]]
  obtain A' q l where created: "dir_inv sample_layer (map_of sample_created) A'"
      "dir_entry sample_layer (map_of sample_created) [[98]] = Some (q, l)" "l = []"
      "fresh_dir sample_layer (map_of sample_tree) {} (map_of sample_created) A' (Some [6]) q"
    and others: "\<forall>ns. names_ok ns \<longrightarrow> dir_entry sample_layer (map_of sample_created) ns = dir_entry sample_layer (map_of sample_tree) ns \<or>
       dir_at sample_layer (map_of sample_tree) ns = None \<and> below ns [[98]]"
    by (auto simp: sample_dir_at layer_of_def)
  from others [rule_format, of "[[97]]"] have "dir_entry sample_layer (map_of sample_created) [[97]] = Some ([5], [])"
    by (simp add: sample_entry sample_dir_at)
  with created sample_create [of 0 True] show ?thesis by (auto simp: fresh_dir_def)
qed

text \<open>
  C6.  Two directories.  After a path and then another were created or opened, opening the first one
  gives exactly what the first call gave and writes nothing, unless a read of the client fails: the
  only errors are its own, handed on as \<^verbatim>\<open>FdbError\<close>.  And the prefixes of different paths
  are apart: neither starts with the other, so no key lies in both directories.
\<close>

theorem directories_apart:
  assumes "dir_store env view" and "wf_layer self" and "short_content self" and "dir_inv self (view s) A"
    and "names_ok path" and "layer \<noteq> Some PARTITION_LAYER" and "prefix_ok self (view s) path p"
    and "dl_create_or_open env self path p layer s = Some (Inr (out, s1))"
    and "names_ok path'" and "layer' \<noteq> Some PARTITION_LAYER" and "prefix_ok self (view s1) path' p'"
    and "dl_create_or_open env self path' p' layer' s1 = Some (Inr (out', s2))"
  shows "(dl_open env self path None s2 = Some (Inr (out, s2)) \<or>
      (\<exists>e. dl_open env self path None s2 = Some (Inl (DirFdb e)))) \<and>
    (\<exists>q q'. output_bytes out = Inr q \<and> output_bytes out' = Inr q' \<and>
       (path \<noteq> path' \<longrightarrow> \<not> starts_with q q' \<and> \<not> starts_with q' q))"
proof -
  note store = assms(1) and self = assms(2)
  from dir_store.created_entry [OF assms(1-7) assms(8) [unfolded dl_create_or_open_def]]
  obtain A1 q l where inv1: "dir_inv self (view s1) A1" and entry1: "dir_entry self (view s1) path = Some (q, l)"
    and out: "out = DirectorySubspace (ds_new (to_absolute_path self path) q self l)" by blast
  from dir_store.created_entry [OF assms(1-3) inv1 assms(9-11) assms(12) [unfolded dl_create_or_open_def]]
  obtain A2 q' l' where inv2: "dir_inv self (view s2) A2" and entry2: "dir_entry self (view s2) path' = Some (q', l')"
    and out': "out' = DirectorySubspace (ds_new (to_absolute_path self path') q' self l')"
    and others: "dir_entry self (view s2) path = dir_entry self (view s1) path \<or>
       dir_at self (view s1) path = None \<and> below path path'"
    using assms(5) by blast
  have entry: "dir_entry self (view s2) path = Some (q, l)"
    using others entry1 by (auto simp: dir_entry_def)
  have ne: "path \<noteq> []" using assms(8)
    by (auto simp: dl_create_or_open_def create_or_open_internal.simps dir_Inr split: if_splits)
  have at: "dir_at self (view s2) path = Some q" "dir_at self (view s2) path' = Some q'"
    using entry entry2 by (auto simp: dir_entry_def)
  note q = dir_at_short [OF inv2 self assms(5) at(1)] and q' = dir_at_short [OF inv2 self assms(9) at(2)]
  have apart: "\<not> starts_with q q' \<and> \<not> starts_with q' q" if "path \<noteq> path'"
  proof -
    have "q \<noteq> q'" using dir_at_inj [OF inv2 self assms(5,9) at(1)] at(2) that by auto
    then show ?thesis using dir_invD(2) [OF inv2] q(2) q'(2) unfolding isolated_def by blast
  qed
  have "output_bytes out = Inr q" "output_bytes out' = Inr q'"
    unfolding out out' using q(1) q'(1) by (simp_all add: output_bytes_ds_new)
  moreover have "version_ok self (view s2)"
    by (rule dir_store.created_version [OF assms(1-3) inv1 assms(9-11) assms(12) [unfolded dl_create_or_open_def]])
  ultimately show ?thesis
    using apart dir_store.open_existing [OF store self inv2 assms(5) ne entry, of False]
    unfolding dl_open_def out by blast
qed

theorem directories_apart_witness:
  "dl_create_or_open (mem_env 0) sample_layer [[97]] None None sample_tree =
     Some (Inr (DirectorySubspace (ds_new [[97]] [5] sample_layer []), sample_tree)) \<and>
   dl_create_or_open (mem_env 0) sample_layer [[98]] (Some [6]) None sample_tree =
     Some (Inr (DirectorySubspace (ds_new [[98]] [6] sample_layer []), sample_created)) \<and>
   (dl_open (mem_env 0) sample_layer [[97]] None sample_created =
      Some (Inr (DirectorySubspace (ds_new [[97]] [5] sample_layer []), sample_created)) \<or>
    (\<exists>e. dl_open (mem_env 0) sample_layer [[97]] None sample_created = Some (Inl (DirFdb e)))) \<and>
   \<not> starts_with [5 :: byte] [6] \<and> \<not> starts_with [6 :: byte] [5]"
proof -
  have p: "prefix_ok sample_layer (map_of sample_tree) [[98]] (Some [6])"
    by (simp add: prefix_ok_def short_def strinc_def lookup_dir_def)
  have calls: "dl_create_or_open (mem_env 0) sample_layer [[97]] None None sample_tree =
      Some (Inr (DirectorySubspace (ds_new [[97]] [5] sample_layer []), sample_tree))"
    "dl_create_or_open (mem_env 0) sample_layer [[98]] (Some [6]) None sample_tree =
      Some (Inr (DirectorySubspace (ds_new [[98]] [6] sample_layer []), sample_created))"
    by (simp_all add: dl_create_or_open_def sample_open sample_create)
  have "prefix_ok sample_layer (map_of sample_tree) [[97]] None" by (simp add: prefix_ok_def)
  from directories_apart [OF mem_dir_store sample_layer_eqs(2,3) sample_inv _ _ this calls(1) _ _ p calls(2)]
  show ?thesis using calls by (simp add: output_bytes_ds_new)
qed

text \<open>
  C7.  A move is a renaming of paths.  When it succeeds, the old path had a directory, the new one had
  none, its parent had one and it is not below the old path; afterwards a path has the directory,
  with its prefix and its layer, that the path before the move had: what was below the old path is
  below the new one, and nothing is below the old path.  No content is written.
\<close>

theorem move_moves_subtree:
  assumes "dir_store env view" and "wf_layer self" and "dir_inv self (view s) A" and "names_ok old" and "names_ok new"
    and "dl_move_to env self old new s = Some (Inr (out, s'))"
  shows "\<exists>q layer. dir_entry self (view s) old = Some (q, layer) \<and> dir_at self (view s) new = None \<and>
    dir_at self (view s) (butlast new) \<noteq> None \<and> \<not> below old new \<and>
    out = DirectorySubspace (ds_new (to_absolute_path self new) q self layer) \<and>
    dir_inv self (view s') A \<and>
    (\<forall>k. \<not> starts_with k (nodes_prefix self) \<longrightarrow> view s' k = view s k) \<and>
    (\<forall>ns. names_ok ns \<longrightarrow> ns \<noteq> [] \<longrightarrow>
       dir_entry self (view s') ns = Option.bind (before_move old new ns) (dir_entry self (view s)))"
  by (rule dir_store.move_to_moves [OF assms(1-5) assms(6) [unfolded dl_move_to_def]])

theorem move_moves_subtree_witness:
  "dl_move_to (mem_env 0) sample_layer [[97]] [[98]] sample_tree =
     Some (Inr (DirectorySubspace (ds_new [[98]] [5] sample_layer []), sample_moved)) \<and>
   dir_entry sample_layer (map_of sample_moved) [[98]] = Some ([5], []) \<and>
   dir_entry sample_layer (map_of sample_moved) [[97]] = None \<and> dir_inv sample_layer (map_of sample_moved) {}"
proof -
  have call: "dl_move_to (mem_env 0) sample_layer [[97]] [[98]] sample_tree =
      Some (Inr (DirectorySubspace (ds_new [[98]] [5] sample_layer []), sample_moved))"
    by (simp add: dl_move_to_def sample_move)
  from move_moves_subtree [OF mem_dir_store sample_layer_eqs(2) sample_inv _ _ call]
  have moved: "\<forall>ns. names_ok ns \<longrightarrow> ns \<noteq> [] \<longrightarrow> dir_entry sample_layer (map_of sample_moved) ns =
      Option.bind (before_move [[97]] [[98]] ns) (dir_entry sample_layer (map_of sample_tree))"
    and inv: "dir_inv sample_layer (map_of sample_moved) {}" by auto
  from moved [rule_format, of "[[97]]"] moved [rule_format, of "[[98]]"] inv call
  show ?thesis by (simp add: before_move_def below_def sample_entry)
qed

text \<open>
  C8.  Removing clears the subtree and nothing else.  When it succeeds, it returns whether the path had a
  directory (with remove, it had); afterwards no path at or below it has one and every other path
  has the one it had; of the keys that are not metadata, those that start with the prefix of a
  removed directory are gone and the others are unchanged.
\<close>

theorem remove_clears_subtree:
  assumes "dir_store env view" and "wf_layer self" and "dir_inv self (view s) A" and "names_ok path"
    and "remove_internal fuel env self path fail_on_nonexistent s = Some (Inr (b, s'))"
  shows "path \<noteq> [] \<and> dir_inv self (view s') A \<and> (b \<longleftrightarrow> dir_at self (view s) path \<noteq> None) \<and>
    (fail_on_nonexistent \<longrightarrow> b) \<and>
    (\<forall>ns. names_ok ns \<longrightarrow> ns \<noteq> [] \<longrightarrow>
       dir_entry self (view s') ns = (if below path ns then None else dir_entry self (view s) ns)) \<and>
    (\<forall>k. \<not> starts_with k (nodes_prefix self) \<longrightarrow>
       view s' k = (if \<exists>ns x. below path ns \<and> names_ok ns \<and> dir_at self (view s) ns = Some x \<and>
           strinc x \<noteq> [] \<and> starts_with k x then None else view s k))"
  by (rule dir_store.remove_removes [OF assms])

theorem remove_clears_subtree_witness:
  "remove_internal 3 (mem_env 0) sample_layer [[97]] True sample_tree = Some (Inr (True, sample_removed)) \<and>
   dir_inv sample_layer (map_of sample_removed) {} \<and>
   dir_entry sample_layer (map_of sample_removed) [[97]] = None \<and>
   dir_entry sample_layer (map_of sample_removed) [[97], [98]] = None"
proof -
  have call: "remove_internal 3 (mem_env 0) sample_layer [[97]] True sample_tree = Some (Inr (True, sample_removed))"
    using sample_remove [of 0] by (simp add: eval_nat_numeral)
  from remove_clears_subtree [OF mem_dir_store sample_layer_eqs(2) sample_inv _ call]
  have gone: "\<forall>ns. names_ok ns \<longrightarrow> ns \<noteq> [] \<longrightarrow> dir_entry sample_layer (map_of sample_removed) ns =
      (if below [[97]] ns then None else dir_entry sample_layer (map_of sample_tree) ns)"
    and inv: "dir_inv sample_layer (map_of sample_removed) {}" by auto
  from gone [rule_format, of "[[97]]"] gone [rule_format, of "[[97], [98]]"] inv call
  show ?thesis by (simp add: below_def)
qed

text \<open>
  C35.  Removing ends.  With fewer than N keys stored, (2 N + 3) (N + 1) nested calls and turns of the loops
  are enough, whatever batches the client cuts: the call returns a result or an error.
\<close>

theorem removal_ends:
  assumes "dir_store env view" and "wf_layer self" and "dir_inv self (view s) A" and "names_ok path"
    and "card (dom (view s)) < N" and "(2 * N + 3) * (N + 1) \<le> fuel"
  shows "\<exists>r. remove_internal fuel env self path fail_on_nonexistent s = Some r"
  using dir_store.remove_returns [OF assms(1-4) assms(6,5)] by blast

theorem removal_ends_witness: "\<exists>r. remove_internal 55 (mem_env 0) sample_layer [[97]] True sample_tree = Some r"
proof -
  have "card (dom (map_of sample_tree)) \<le> 3"
    using card_length [of "map fst sample_tree"] by (simp add: dom_map_of_conv_image_fst sample_tree_def)
  then show ?thesis by (intro removal_ends [OF mem_dir_store sample_layer_eqs(2) sample_inv, where N = 4]) simp_all
qed

text \<open>
  C36.  Reading the tree.  Neither call changes the state; exists tells whether the path has a directory,
  and list gives the names of its children, all of them, once each, in order.
\<close>

theorem list_and_exists:
  assumes "dir_store env view" and "wf_layer self" and "dir_inv self (view s) A" and "names_ok path"
  shows "(\<forall>b s'. dl_exists env self path s = Some (Inr (b, s')) \<longrightarrow>
      s' = s \<and> (b \<longleftrightarrow> dir_at self (view s) path \<noteq> None)) \<and>
    (\<forall>names s'. dl_list env self path s = Some (Inr (names, s')) \<longrightarrow>
      s' = s \<and> dir_at self (view s) path \<noteq> None \<and>
      names = sorted_list_of_set {n. short n \<and> dir_at self (view s) (path @ [n]) \<noteq> None})"
  unfolding dl_exists_def dl_list_def
  using dir_store.exists_reads [OF assms] dir_store.list_reads [OF assms] by blast

theorem list_and_exists_witness:
  "dl_exists (mem_env 0) sample_layer [[97]] sample_tree = Some (Inr (True, sample_tree)) \<and>
   dl_list (mem_env 0) sample_layer [] sample_tree = Some (Inr ([[97]], sample_tree)) \<and>
   [[97]] = sorted_list_of_set {n. short n \<and> dir_at sample_layer (map_of sample_tree) ([] @ [n]) \<noteq> None}"
proof -
  have e: "dl_exists (mem_env 0) sample_layer [[97]] sample_tree = Some (Inr (True, sample_tree))"
    by (simp add: dl_exists_def exists_internal.simps sample_version sample_find is_in_partition_def PARTITION_LAYER_def dir_steps)
  have l: "dl_list (mem_env 0) sample_layer [] sample_tree = Some (Inr ([[97]], sample_tree))"
    by (simp add: dl_list_def sample_list)
  show ?thesis
    using e l list_and_exists [OF mem_dir_store sample_layer_eqs(2) sample_inv, of "[]" 0] by simp
qed

text \<open>
  Versions.  On a tree written with a newer major version every operation is refused with the
  versions in the error and changes nothing; with a newer minor version creating, moving and
  removing are refused, and reading is not; otherwise the check passes.
\<close>

theorem newer_versions_refused:
  assumes "get_version_value env self s = Inr (Some (to_le_bytes M @ to_le_bytes mi @ to_le_bytes pa))"
  shows "if 1 < M then
       create_or_open_internal env self path p layer ac ao s = Some (Inl (Version (CannotLoad M mi pa))) \<and>
       exists_internal env self path s = Some (Inl (Version (CannotLoad M mi pa))) \<and>
       list_internal env self path s = Some (Inl (Version (CannotLoad M mi pa))) \<and>
       move_to_internal env self path path' s = Some (Inl (Version (CannotLoad M mi pa))) \<and>
       remove_internal fuel env self path must s = Some (Inl (Version (CannotLoad M mi pa)))
     else if 0 < mi then
       create_internal env self (path @ [n]) layer p True s = Some (Inl (Version (ReadOnlyVersion M mi pa))) \<and>
       move_to_internal env self path path' s = Some (Inl (Version (ReadOnlyVersion M mi pa))) \<and>
       remove_internal fuel env self path must s = Some (Inl (Version (ReadOnlyVersion M mi pa))) \<and>
       check_version env self False s = Some (Inr ((), s))
     else check_version env self b s = Some (Inr ((), s))"
proof -
  have check: "check_version env self b s = (if 1 < M then Some (Inl (Version (CannotLoad M mi pa)))
      else if 0 < mi \<and> b then Some (Inl (Version (ReadOnlyVersion M mi pa))) else Some (Inr ((), s)))" for b
    using assms by (simp add: check_version_def version_bytes dir_steps)
  show ?thesis
    by (simp add: check dir_bind_def create_or_open_internal.simps create_internal.simps exists_internal.simps
      list_internal.simps move_to_internal.simps remove_internal.simps Let_def)
qed

theorem newer_versions_refused_witness:
  "create_or_open_internal (mem_env 0) sample_layer [[97]] None None True True (newer_tree 2 0) =
     Some (Inl (Version (CannotLoad 2 0 0))) \<and>
   remove_internal 9 (mem_env 0) sample_layer [[97]] True (newer_tree 1 1) =
     Some (Inl (Version (ReadOnlyVersion 1 1 0)))"
proof -
  have v: "get_version_value (mem_env 0) sample_layer (newer_tree M mi) =
      Inr (Some (to_le_bytes M @ to_le_bytes mi @ to_le_bytes (0 :: u32)))" for M mi
    by (simp add: get_version_value_def mem_dir_get version_key_def newer_tree_def)
  show ?thesis
    using newer_versions_refused [OF v [of 2 0]] newer_versions_refused [OF v [of 1 1], where fuel = 9]
    by (simp only: word_less_nat_alt) simp
qed

text \<open>
  C37.  Outputs are well formed.  Whatever the tree and whatever the client answers, partitions
  included, a directory that creating, opening or moving returns has the path that was asked for,
  below the path of its layer; it is a partition exactly when its layer is the partition layer, and
  the layer of a partition has the path of the partition and takes no manual prefixes.  That holds of
  the calls on a layer, the moves among them, and then of the calls on any directory that such a call
  returned: their result is at the path of that directory followed by the path of the call, and a
  directory that moves itself is at the absolute path that it is given.
\<close>

theorem outputs_well_typed:
  assumes "wf_output d"
  shows "(create_or_open_internal env self path p layer allow_create allow_open s = Some (Inr (out, s')) \<longrightarrow>
      wf_output out \<and> output_path out = dl_path self @ path) \<and>
    (move_to_internal env self old new s = Some (Inr (out, s')) \<longrightarrow>
      wf_output out \<and> output_path out = dl_path self @ new) \<and>
    (output_create_or_open env d path p layer s = Some (Inr (out, s')) \<longrightarrow>
      wf_output out \<and> output_path out = output_path d @ path) \<and>
    (output_create env d path p layer s = Some (Inr (out, s')) \<longrightarrow>
      wf_output out \<and> output_path out = output_path d @ path) \<and>
    (output_open env d path layer s = Some (Inr (out, s')) \<longrightarrow>
      wf_output out \<and> output_path out = output_path d @ path) \<and>
    (output_move_to (dl_move_to env) d old new s = Some (Inr (out, s')) \<longrightarrow>
      wf_output out \<and> output_path out = output_path d @ new) \<and>
    (output_move_directory env d new s = Some (Inr (out, s')) \<longrightarrow>
      wf_output out \<and> output_path out = new)"
  by (intro conjI impI) (blast dest: outputs_wf moved_wf output_calls_wf [OF assms])+

theorem outputs_well_typed_witness:
  "output_open (mem_env 0) (DirectorySubspace (ds_new [[97]] [5] sample_layer [])) [] None sample_tree =
     Some (Inr (DirectorySubspace (ds_new [[97]] [5] sample_layer []), sample_tree)) \<and>
   move_to_internal (mem_env 0) sample_layer [[97]] [[98]] sample_tree =
     Some (Inr (DirectorySubspace (ds_new [[98]] [5] sample_layer []), sample_moved)) \<and>
   wf_output (DirectorySubspace (ds_new [[98]] [5] sample_layer []))"
proof -
  have d: "wf_output (DirectorySubspace (ds_new [[97]] [5] sample_layer []))"
    using sample_open [of 0 True] by (auto dest: outputs_wf)
  have "output_open (mem_env 0) (DirectorySubspace (ds_new [[97]] [5] sample_layer [])) [] None sample_tree =
     Some (Inr (DirectorySubspace (ds_new [[97]] [5] sample_layer []), sample_tree))"
    using sample_open [of 0 False]
    by (simp add: output_open_def ds_open_def dl_open_def ds_partition_subpath_def ds_new_def dir_bind_def dir_lift_def)
  moreover have "wf_output (DirectorySubspace (ds_new [[98]] [5] sample_layer []))"
    using outputs_well_typed [OF d, where env = "mem_env 0" and self = sample_layer and old = "[[97]]" and new = "[[98]]"
        and s = sample_tree] sample_move [of 0] by blast
  ultimately show ?thesis using sample_move [of 0] by blast
qed

end
