(* ===== verification/Conflict_Ranges.thy ===== *)
theory Conflict_Ranges
  imports Range_Scan
begin

text \<open>
  The conflict ranges of a transaction (\<^verbatim>\<open>transaction.rs\<close>): the parser of the boundary markers of
  the special keyspaces, and the loop that reads a keyspace page after page.
\<close>

section \<open>The parser\<close>

record conflict_range =
  range_begin :: bytes
  range_end :: bytes

record conflict_range_parser =
  prefix_len :: nat
  parsed_ranges :: "conflict_range list"
  open_begin :: "bytes option"

definition parser_new :: "bytes \<Rightarrow> conflict_range_parser" where
  "parser_new p = \<lparr>prefix_len = length p, parsed_ranges = [], open_begin = None\<rparr>"

definition BEGIN_MARKER :: bytes where "BEGIN_MARKER = [0x31]"
definition END_MARKER :: bytes where "END_MARKER = [0x30]"

definition feed_row :: "conflict_range_parser \<Rightarrow> bytes \<times> bytes \<Rightarrow> conflict_range_parser" where
  "feed_row self row =
     (let key = drop (prefix_len self) (fst row)
      in if snd row = BEGIN_MARKER then self\<lparr>open_begin := Some key\<rparr>
         else if snd row = END_MARKER then
           (case open_begin self of
              Some b \<Rightarrow> self\<lparr>open_begin := None,
                parsed_ranges := parsed_ranges self @ [\<lparr>range_begin = b, range_end = key\<rparr>]\<rparr>
            | None \<Rightarrow> self)
         else self)"

definition parser_feed :: "conflict_range_parser \<Rightarrow> (bytes \<times> bytes) list \<Rightarrow> conflict_range_parser" where
  "parser_feed self batch = foldl feed_row self batch"

definition parser_finish :: "conflict_range_parser \<Rightarrow> conflict_range list" where
  "parser_finish self = parsed_ranges self"

section \<open>Reading a keyspace\<close>

text \<open>\<open>None\<close> stands for a loop that never ends.\<close>

partial_function (option) conflict_range_loop ::
    "'s kv \<Rightarrow> 's \<Rightarrow> nat \<Rightarrow> range_option option \<Rightarrow> conflict_range_parser \<Rightarrow>
     (fdb_error + conflict_range list) option" where
  "conflict_range_loop kv s iteration maybe_opt parser =
     (case maybe_opt of
        None \<Rightarrow> Some (Inr (parser_finish parser))
      | Some opt \<Rightarrow>
          (case kv_get_range kv s opt iteration of
             Inl e \<Rightarrow> Some (Inl e)
           | Inr page \<Rightarrow>
               conflict_range_loop kv s (iteration + 1) (next_range opt page) (parser_feed parser (fst page))))"

definition read_conflict_range_keyspace ::
    "'s kv \<Rightarrow> 's \<Rightarrow> bytes \<Rightarrow> bytes \<Rightarrow> (fdb_error + conflict_range list) option" where
  "read_conflict_range_keyspace kv s p e =
     conflict_range_loop kv s 1 (Some (range_from_keys (p, e))) (parser_new p)"

text \<open>
  The prefixes are \<^verbatim>\<open>\xff\xff/transaction/conflicting_keys/\<close> and those of the read and the write
  conflict ranges; the ends have two more bytes 255.
\<close>

definition TRANSACTION_MODULE :: bytes where
  "TRANSACTION_MODULE = [0xff, 0xff, 0x2f, 0x74, 0x72, 0x61, 0x6e, 0x73, 0x61, 0x63, 0x74, 0x69, 0x6f, 0x6e, 0x2f]"

definition CONFLICTING_KEYS_PREFIX :: bytes where
  "CONFLICTING_KEYS_PREFIX = TRANSACTION_MODULE @
     [0x63, 0x6f, 0x6e, 0x66, 0x6c, 0x69, 0x63, 0x74, 0x69, 0x6e, 0x67, 0x5f, 0x6b, 0x65, 0x79, 0x73, 0x2f]"

definition CONFLICTING_KEYS_END :: bytes where
  "CONFLICTING_KEYS_END = CONFLICTING_KEYS_PREFIX @ [0xff, 0xff]"

definition READ_CONFLICT_RANGE_PREFIX :: bytes where
  "READ_CONFLICT_RANGE_PREFIX = TRANSACTION_MODULE @ [0x72, 0x65, 0x61, 0x64, 0x5f, 0x63, 0x6f, 0x6e, 0x66, 0x6c,
     0x69, 0x63, 0x74, 0x5f, 0x72, 0x61, 0x6e, 0x67, 0x65, 0x2f]"

definition READ_CONFLICT_RANGE_END :: bytes where
  "READ_CONFLICT_RANGE_END = READ_CONFLICT_RANGE_PREFIX @ [0xff, 0xff]"

definition WRITE_CONFLICT_RANGE_PREFIX :: bytes where
  "WRITE_CONFLICT_RANGE_PREFIX = TRANSACTION_MODULE @ [0x77, 0x72, 0x69, 0x74, 0x65, 0x5f, 0x63, 0x6f, 0x6e, 0x66,
     0x6c, 0x69, 0x63, 0x74, 0x5f, 0x72, 0x61, 0x6e, 0x67, 0x65, 0x2f]"

definition WRITE_CONFLICT_RANGE_END :: bytes where
  "WRITE_CONFLICT_RANGE_END = WRITE_CONFLICT_RANGE_PREFIX @ [0xff, 0xff]"

definition conflicting_keys :: "'s kv \<Rightarrow> 's \<Rightarrow> (fdb_error + conflict_range list) option" where
  "conflicting_keys kv s = read_conflict_range_keyspace kv s CONFLICTING_KEYS_PREFIX CONFLICTING_KEYS_END"

definition read_conflict_ranges :: "'s kv \<Rightarrow> 's \<Rightarrow> (fdb_error + conflict_range list) option" where
  "read_conflict_ranges kv s = read_conflict_range_keyspace kv s READ_CONFLICT_RANGE_PREFIX READ_CONFLICT_RANGE_END"

definition write_conflict_ranges :: "'s kv \<Rightarrow> 's \<Rightarrow> (fdb_error + conflict_range list) option" where
  "write_conflict_ranges kv s = read_conflict_range_keyspace kv s WRITE_CONFLICT_RANGE_PREFIX WRITE_CONFLICT_RANGE_END"

section \<open>What the markers say\<close>

text \<open>
  The ranges of a keyspace: of its markers in order, each begin marker that an end marker follows
  directly.
\<close>

definition is_marker :: "bytes \<times> bytes \<Rightarrow> bool" where
  "is_marker row \<longleftrightarrow> snd row = BEGIN_MARKER \<or> snd row = END_MARKER"

definition marked_ranges :: "nat \<Rightarrow> (bytes \<times> bytes) list \<Rightarrow> conflict_range list" where
  "marked_ranges n kvs =
     (let ms = filter is_marker kvs
      in map (\<lambda>(b, e). \<lparr>range_begin = drop n (fst b), range_end = drop n (fst e)\<rparr>)
           (filter (\<lambda>(b, e). snd b = BEGIN_MARKER \<and> snd e = END_MARKER) (zip ms (tl ms))))"

lemma markers_differ [simp]: "BEGIN_MARKER \<noteq> END_MARKER" "END_MARKER \<noteq> BEGIN_MARKER"
  by (simp_all add: BEGIN_MARKER_def END_MARKER_def)

lemma feed_append: "parser_feed self (xs @ ys) = parser_feed (parser_feed self xs) ys"
  by (simp add: parser_feed_def)

lemma marked_ranges_simps [simp]:
  "marked_ranges n [] = []"
  "marked_ranges n [(k, BEGIN_MARKER)] = []"
  "marked_ranges n ((k, END_MARKER) # kvs) = marked_ranges n kvs"
  "marked_ranges n ((k, BEGIN_MARKER) # (k', BEGIN_MARKER) # kvs) = marked_ranges n ((k', BEGIN_MARKER) # kvs)"
  "marked_ranges n ((k, BEGIN_MARKER) # (k', END_MARKER) # kvs) =
     \<lparr>range_begin = drop n k, range_end = drop n k'\<rparr> # marked_ranges n kvs"
proof -
  show "marked_ranges n ((k, END_MARKER) # kvs) = marked_ranges n kvs"
    by (cases "filter is_marker kvs") (simp_all add: marked_ranges_def is_marker_def)
  then show "marked_ranges n ((k, BEGIN_MARKER) # (k', END_MARKER) # kvs) =
     \<lparr>range_begin = drop n k, range_end = drop n k'\<rparr> # marked_ranges n kvs"
    by (cases "filter is_marker kvs") (simp_all add: marked_ranges_def is_marker_def)
qed (simp_all add: marked_ranges_def is_marker_def)

lemma marked_ranges_other:
  assumes "\<not> is_marker row"
  shows "marked_ranges n (row # kvs) = marked_ranges n kvs"
    and "marked_ranges n (row' # row # kvs) = marked_ranges n (row' # kvs)"
  using assms by (simp_all add: marked_ranges_def)

lemma marked_ranges_key:
  "drop n k = drop n k' \<Longrightarrow> marked_ranges n ((k, BEGIN_MARKER) # kvs) = marked_ranges n ((k', BEGIN_MARKER) # kvs)"
  by (cases "filter is_marker kvs") (auto simp: marked_ranges_def is_marker_def)

text \<open>An open range is a begin marker before the rows to come.\<close>

definition opened_by :: "conflict_range_parser \<Rightarrow> (bytes \<times> bytes) list" where
  "opened_by self = (case open_begin self of None \<Rightarrow> []
     | Some b \<Rightarrow> [(replicate (prefix_len self) 0 @ b, BEGIN_MARKER)])"

lemma feed_row_open:
  "prefix_len (feed_row self row) = prefix_len self"
  "parsed_ranges (feed_row self row) @ marked_ranges (prefix_len self) (opened_by (feed_row self row) @ kvs) =
     parsed_ranges self @ marked_ranges (prefix_len self) (opened_by self @ row # kvs)"
proof -
  obtain k v where row: "row = (k, v)" by fastforce
  show "prefix_len (feed_row self row) = prefix_len self"
    by (simp add: feed_row_def Let_def split: option.split)
  consider "v = BEGIN_MARKER" | "v = END_MARKER" | "\<not> is_marker row" by (auto simp: is_marker_def row)
  then show "parsed_ranges (feed_row self row) @ marked_ranges (prefix_len self) (opened_by (feed_row self row) @ kvs) =
     parsed_ranges self @ marked_ranges (prefix_len self) (opened_by self @ row # kvs)"
  proof cases
    case 1
    have "marked_ranges (prefix_len self) ((replicate (prefix_len self) 0 @ drop (prefix_len self) k, BEGIN_MARKER) # kvs) =
        marked_ranges (prefix_len self) ((k, BEGIN_MARKER) # kvs)"
      by (rule marked_ranges_key) simp
    with 1 show ?thesis by (simp add: row feed_row_def opened_by_def split: option.split)
  next
    case 2
    then show ?thesis by (simp add: row feed_row_def opened_by_def split: option.split)
  next
    case 3
    then have "v \<noteq> BEGIN_MARKER" "v \<noteq> END_MARKER" by (auto simp: is_marker_def row)
    then have "feed_row self row = self" by (simp add: feed_row_def row)
    with 3 show ?thesis by (simp add: opened_by_def marked_ranges_other split: option.split)
  qed
qed

lemma feed_marked: "parsed_ranges (parser_feed self kvs) = parsed_ranges self @ marked_ranges (prefix_len self) (opened_by self @ kvs)"
proof (induction kvs arbitrary: self)
  case Nil
  show ?case by (simp add: parser_feed_def opened_by_def split: option.split)
next
  case (Cons row kvs)
  have "parser_feed self (row # kvs) = parser_feed (feed_row self row) kvs" by (simp add: parser_feed_def)
  with Cons.IH [of "feed_row self row"] feed_row_open(1) [of self row] feed_row_open(2) [of self row kvs]
  show ?case by simp
qed

lemma finish_feed: "parser_finish (parser_feed (parser_new p) kvs) = marked_ranges (length p) kvs"
  by (simp add: parser_finish_def feed_marked parser_new_def opened_by_def)

section \<open>The loop\<close>

context kv_store
begin

lemma conflict_loop:
  assumes "plain opt" and "limit opt = None"
  shows "conflict_range_loop kv s i (Some opt) parser = Some (Inr (parser_finish (parser_feed parser (rows (view s) opt)))) \<or>
    (\<exists>e. conflict_range_loop kv s i (Some opt) parser = Some (Inl e))"
  using assms
proof (induction "length (rows (view s) opt)" arbitrary: opt i parser rule: less_induct)
  case less
  show ?case
  proof (cases "kv_get_range kv s opt i")
    case (Inl e)
    then show ?thesis by (simp add: conflict_range_loop.simps [of _ _ _ "Some opt"])
  next
    case (Inr page)
    obtain kvs has_more where page: "page = (kvs, has_more)" by (cases page)
    note step = next_range_scan [OF less.prems(1) Inr [unfolded page]]
    have scan: "scan_rows (view s) opt = rows (view s) opt" using less.prems(2) by (simp add: scan_rows_def)
    show ?thesis
    proof (cases "next_range opt (kvs, has_more)")
      case None
      with step Inr page scan show ?thesis
        by (simp add: conflict_range_loop.simps [of _ _ _ "Some opt"] conflict_range_loop.simps [of _ _ _ None])
    next
      case (Some opt')
      then have lim: "limit opt' = None"
        using less.prems(2) by (auto simp: next_range_def Let_def split: if_splits)
      from Some step have opt': "plain opt'" "length (rows (view s) opt') < length (rows (view s) opt)"
        and eq: "rows (view s) opt = kvs @ rows (view s) opt'" using scan lim by (auto simp: scan_rows_def)
      from less.hyps [OF opt'(2,1) lim, of "i + 1" "parser_feed parser kvs"] Some Inr page show ?thesis
        by (simp add: conflict_range_loop.simps [of _ _ _ "Some opt"] eq feed_append)
    qed
  qed
qed

end

section \<open>Order\<close>

definition apart_ranges :: "conflict_range list \<Rightarrow> bool" where
  "apart_ranges rs \<longleftrightarrow> (\<forall>r \<in> set rs. range_begin r < range_end r) \<and>
     sorted_wrt (\<lambda>r r'. range_end r < range_begin r') rs"

text \<open>The rows that markers of ranges come from.\<close>

definition boundary_rows :: "bytes \<Rightarrow> conflict_range list \<Rightarrow> (bytes \<times> bytes) list" where
  "boundary_rows p rs = concat (map (\<lambda>r. [(p @ range_begin r, BEGIN_MARKER), (p @ range_end r, END_MARKER)]) rs)"

lemma marked_boundary: "marked_ranges (length p) (boundary_rows p rs) = rs"
  by (induction rs) (simp_all add: boundary_rows_def)

definition stripped_less :: "nat \<Rightarrow> bytes \<times> bytes \<Rightarrow> bytes \<times> bytes \<Rightarrow> bool" where
  "stripped_less n a b \<longleftrightarrow> drop n (fst a) < drop n (fst b)"

lemma marked_apart:
  "sorted_wrt (stripped_less n) kvs \<Longrightarrow> apart_ranges (marked_ranges n kvs) \<and>
    (\<forall>r \<in> set (marked_ranges n kvs). \<exists>x \<in> set kvs. range_begin r = drop n (fst x))"
proof (induction kvs rule: length_induct)
  case (1 kvs)
  have hyp: "apart_ranges (marked_ranges n ys) \<and> (\<forall>r \<in> set (marked_ranges n ys). \<exists>x \<in> set ys. range_begin r = drop n (fst x))"
    if "length ys < length kvs" "sorted_wrt (stripped_less n) ys" for ys using 1 that by blast
  show ?case
  proof (cases kvs)
    case Nil
    then show ?thesis by (simp add: apart_ranges_def)
  next
    case (Cons x ys)
    obtain k v where x: "x = (k, v)" by fastforce
    have ys: "length ys < length kvs" "sorted_wrt (stripped_less n) ys" using "1.prems" Cons by auto
    note rest = hyp [OF ys]
    show ?thesis
    proof (cases "v = BEGIN_MARKER")
      case False
      then have "marked_ranges n kvs = marked_ranges n ys"
        by (cases "v = END_MARKER") (simp_all add: Cons x marked_ranges_other(1) is_marker_def)
      with rest show ?thesis using Cons by auto
    next
      case True
      show ?thesis
      proof (cases ys)
        case Nil
        then show ?thesis by (simp add: Cons x True apart_ranges_def)
      next
        case (Cons y zs)
        obtain k' w where y: "y = (k', w)" by fastforce
        have kvs: "kvs = (k, BEGIN_MARKER) # (k', w) # zs" using \<open>kvs = x # ys\<close> Cons x y True by simp
        have less: "drop n k < drop n k'" "\<forall>z \<in> set zs. drop n k' < drop n (fst z)"
          using "1.prems" by (auto simp: kvs stripped_less_def)
        consider "w = BEGIN_MARKER" | "w = END_MARKER" | "\<not> is_marker (k', w)" by (auto simp: is_marker_def)
        then show ?thesis
        proof cases
          case 1
          with rest kvs Cons y show ?thesis by auto
        next
          case 2
          have "length zs < length kvs" "sorted_wrt (stripped_less n) zs" using ys Cons by auto
          note zs = hyp [OF this]
          have after: "\<forall>r \<in> set (marked_ranges n zs). drop n k' < range_begin r"
            using zs [THEN conjunct2] less(2) by fastforce
          have eq: "marked_ranges n kvs = \<lparr>range_begin = drop n k, range_end = drop n k'\<rparr> # marked_ranges n zs"
            using 2 by (simp add: kvs)
          have "apart_ranges (marked_ranges n kvs)"
            using zs [THEN conjunct1] after less(1) unfolding eq apart_ranges_def by simp
          moreover have "\<forall>r \<in> set (marked_ranges n kvs). \<exists>x \<in> set kvs. range_begin r = drop n (fst x)"
          proof -
            have "\<exists>x \<in> set kvs. drop n k = drop n (fst x)" by (simp add: kvs)
            moreover have "\<exists>x \<in> set kvs. range_begin r = drop n (fst x)" if "r \<in> set (marked_ranges n zs)" for r
              using zs [THEN conjunct2, rule_format, OF that] by (auto simp: kvs)
            ultimately show ?thesis unfolding eq by simp
          qed
          ultimately show ?thesis by blast
        next
          case 3
          then have eq: "marked_ranges n kvs = marked_ranges n ((k, BEGIN_MARKER) # zs)"
            by (simp add: kvs marked_ranges_other(2))
          have "length ((k, BEGIN_MARKER) # zs) < length kvs" "sorted_wrt (stripped_less n) ((k, BEGIN_MARKER) # zs)"
            using "1.prems" by (auto simp: kvs)
          from hyp [OF this] show ?thesis unfolding eq by (auto simp: kvs)
        qed
      qed
    qed
  qed
qed

lemma between_prefix:
  fixes k p :: "'a :: linorder list"
  assumes "p \<le> k" and "k < p @ e"
  shows "\<exists>r. k = p @ r"
  using assms
proof (induction p arbitrary: k)
  case (Cons a p)
  then obtain b k' where k: "k = b # k'" by (cases k) auto
  with Cons.prems have "b = a" "p \<le> k'" "k' < p @ e" by auto
  with Cons.IH [of k'] k show ?case by auto
qed simp

lemma keyspace_stripped:
  assumes "finite (dom m)"
  shows "sorted_wrt (stripped_less (length p)) (rows m (range_from_keys (p, p @ e)))"
proof -
  let ?A = "{k \<in> dom m. p \<le> k \<and> k < p @ e}"
  have rows: "rows m (range_from_keys (p, p @ e)) = map (\<lambda>k. (k, the (m k))) (sorted_list_of_set ?A)"
    by (simp add: rows_def range_from_keys_def default_range_def selected_def first_greater_or_equal_def ks_new_def)
  have strip: "\<exists>r. k = p @ r" if "p \<le> k" "k < p @ e" for k
    using that between_prefix by blast
  have "sorted_wrt (<) (sorted_list_of_set ?A)" by (rule strict_sorted_list_of_set)
  then have "sorted_wrt (\<lambda>a b. drop (length p) a < drop (length p) b) (sorted_list_of_set ?A)"
  proof (rule sorted_wrt_mono_rel [rotated])
    fix a b assume "a \<in> set (sorted_list_of_set ?A)" "b \<in> set (sorted_list_of_set ?A)" "a < b"
    moreover have "set (sorted_list_of_set ?A) = ?A" using assms by simp
    ultimately obtain x y where "a = p @ x" "b = p @ y" using strip by blast
    with \<open>a < b\<close> show "drop (length p) a < drop (length p) b" by simp
  qed
  then show ?thesis by (simp add: rows sorted_wrt_map stripped_less_def)
qed

section \<open>Property\<close>

text \<open>
  C38.  Reading the conflict ranges of a transaction ends, whichever batches the client cuts, with an
  error of the client or with the ranges that the markers stored in the keyspace give: of the
  markers in order, each begin marker that an end marker follows directly.  The ranges are not
  empty, in order and apart, and a keyspace that was written from ranges gives these ranges back.
\<close>

theorem conflict_ranges_read:
  assumes "kv_store kv view"
  shows "(\<exists>e. read_conflict_range_keyspace kv s p (p @ [0xff, 0xff]) = Some (Inl e)) \<or>
    (\<exists>rs. read_conflict_range_keyspace kv s p (p @ [0xff, 0xff]) = Some (Inr rs) \<and>
      rs = marked_ranges (length p) (rows (view s) (range_from_keys (p, p @ [0xff, 0xff]))) \<and>
      apart_ranges rs \<and>
      (\<forall>xs. rows (view s) (range_from_keys (p, p @ [0xff, 0xff])) = boundary_rows p xs \<longrightarrow> rs = xs))"
proof -
  let ?opt = "range_from_keys (p, p @ [0xff, 0xff])"
  have opt: "plain ?opt" "limit ?opt = None"
    by (simp_all add: range_from_keys_def plain_def default_range_def first_greater_or_equal_def ks_new_def)
  have "apart_ranges (marked_ranges (length p) (rows (view s) ?opt))"
    using marked_apart [OF keyspace_stripped] kv_store.view_finite [OF assms] by blast
  with kv_store.conflict_loop [OF assms opt, of s 1 "parser_new p"] show ?thesis
    unfolding read_conflict_range_keyspace_def finish_feed using marked_boundary by metis
qed

theorem conflict_ranges_read_witness:
  "let s = [(CONFLICTING_KEYS_PREFIX @ [97], BEGIN_MARKER), (CONFLICTING_KEYS_PREFIX @ [98], END_MARKER)]
   in (\<exists>e. conflicting_keys (mem_kv 0) s = Some (Inl e)) \<or>
      conflicting_keys (mem_kv 0) s = Some (Inr [\<lparr>range_begin = [97], range_end = [98]\<rparr>])"
proof -
  let ?p = "CONFLICTING_KEYS_PREFIX" and ?rs = "[\<lparr>range_begin = [97], range_end = [98]\<rparr>]"
  define s :: "(bytes \<times> bytes) list" where "s = [(?p @ [97], BEGIN_MARKER), (?p @ [98], END_MARKER)]"
  have "{k \<in> dom (map_of s). selected (range_from_keys (?p, ?p @ [0xff, 0xff])) k} = {?p @ [97], ?p @ [98]}"
    by (auto simp: s_def selected_def range_from_keys_def default_range_def first_greater_or_equal_def ks_new_def le_less)
  then have "rows (map_of s) (range_from_keys (?p, ?p @ [0xff, 0xff])) = boundary_rows ?p ?rs"
    by (simp add: rows_def boundary_rows_def range_from_keys_def default_range_def s_def le_less)
  with conflict_ranges_read [OF mem_kv_store [of 0], of s ?p] show ?thesis
    unfolding Let_def s_def [symmetric] conflicting_keys_def CONFLICTING_KEYS_END_def by (elim disjE exE conjE) auto
qed

end
