(* ===== verification/Attempt_Usage.thy ===== *)
theory Attempt_Usage
  imports Retry_Runner "HOL-Library.Multiset"
begin

text \<open>
  The accounting of transaction attempts and the client-side budget (\<^verbatim>\<open>budget.rs\<close>), with the clocks
  they read (\<^verbatim>\<open>env.rs\<close>) and the keys of application metrics (\<^verbatim>\<open>metrics.rs\<close>).

  A \<^verbatim>\<open>Duration\<close> is its nanoseconds.  A counter is a word of 64 bits, which \<^verbatim>\<open>fetch_add\<close> wraps.  An
  \<^verbatim>\<open>Arc<AttemptUsage>\<close> is an address of a store of usages, so that operations in flight keep
  recording into the generation they were issued in.
\<close>

section \<open>Clocks\<close>

text \<open>
  What time is read from: \<^verbatim>\<open>Instant::now\<close> and the clocks of the application, at the current state of
  the world.
\<close>

record ('w, 'c) time_source =
  instant_now :: "'w \<Rightarrow> nat"
  custom_monotonic :: "'c \<Rightarrow> 'w \<Rightarrow> nat"

text \<open>A wall clock measures from its anchor.\<close>

datatype 'c dyn_clock = WallClock (anchor: nat) | CustomClock 'c

definition wall_clock_new :: "('w, 'c) time_source \<Rightarrow> 'w \<Rightarrow> 'c dyn_clock" where
  "wall_clock_new src w = WallClock (instant_now src w)"

definition monotonic :: "('w, 'c) time_source \<Rightarrow> 'c dyn_clock \<Rightarrow> 'w \<Rightarrow> nat" where
  "monotonic src self w =
     (case self of WallClock a \<Rightarrow> instant_now src w - a | CustomClock c \<Rightarrow> custom_monotonic src c w)"

definition as_millis_u64 :: "nat \<Rightarrow> u64" where
  "as_millis_u64 d = word_of_nat (d div 1000000)"

section \<open>Keys of application metrics\<close>

text \<open>A \<^verbatim>\<open>String\<close> is its UTF-8 bytes, whose order is the order of strings; the sort is stable.\<close>

type_synonym labels = "(bytes \<times> bytes) list"

record metric_key =
  metric_name :: bytes
  metric_labels :: labels

definition metric_key_new :: "bytes \<Rightarrow> labels \<Rightarrow> metric_key" where
  "metric_key_new n labels = \<lparr>metric_name = n, metric_labels = sort_key fst labels\<rparr>"

section \<open>Usage of an attempt\<close>

record 'c attempt_usage =
  usage_clock :: "'c dyn_clock"
  started_at :: nat
  bytes_read :: u64
  bytes_written :: u64
  keys_values_fetched :: u64
  call_get :: u64
  call_get_range :: u64
  call_set :: u64
  call_clear :: u64
  call_clear_range :: u64
  call_atomic_op :: u64
  custom :: "(metric_key \<rightharpoonup> u64) option"

definition usage_with_clock :: "('w, 'c) time_source \<Rightarrow> 'w \<Rightarrow> 'c dyn_clock option \<Rightarrow> 'c attempt_usage" where
  "usage_with_clock src w opt =
     (let c = (case opt of Some c \<Rightarrow> c | None \<Rightarrow> wall_clock_new src w)
      in \<lparr>usage_clock = c, started_at = monotonic src c w, bytes_read = 0, bytes_written = 0,
          keys_values_fetched = 0, call_get = 0, call_get_range = 0, call_set = 0, call_clear = 0,
          call_clear_range = 0, call_atomic_op = 0, custom = None\<rparr>)"

definition usage_new :: "('w, 'c) time_source \<Rightarrow> 'w \<Rightarrow> 'c attempt_usage" where
  "usage_new src w = usage_with_clock src w None"

definition usage_elapsed :: "('w, 'c) time_source \<Rightarrow> 'w \<Rightarrow> 'c attempt_usage \<Rightarrow> nat" where
  "usage_elapsed src w self = monotonic src (usage_clock self) w - started_at self"

record usage_snapshot =
  snap_elapsed :: nat
  snap_bytes_read :: u64
  snap_bytes_written :: u64
  snap_keys_values_fetched :: u64
  snap_call_get :: u64
  snap_call_get_range :: u64
  snap_call_set :: u64
  snap_call_clear :: u64
  snap_call_clear_range :: u64
  snap_call_atomic_op :: u64

definition snapshot_default :: usage_snapshot where
  "snapshot_default = \<lparr>snap_elapsed = 0, snap_bytes_read = 0, snap_bytes_written = 0,
     snap_keys_values_fetched = 0, snap_call_get = 0, snap_call_get_range = 0, snap_call_set = 0,
     snap_call_clear = 0, snap_call_clear_range = 0, snap_call_atomic_op = 0\<rparr>"

definition usage_snapshot_of :: "('w, 'c) time_source \<Rightarrow> 'w \<Rightarrow> 'c attempt_usage \<Rightarrow> usage_snapshot" where
  "usage_snapshot_of src w self = \<lparr>snap_elapsed = usage_elapsed src w self, snap_bytes_read = bytes_read self,
     snap_bytes_written = bytes_written self, snap_keys_values_fetched = keys_values_fetched self,
     snap_call_get = call_get self, snap_call_get_range = call_get_range self, snap_call_set = call_set self,
     snap_call_clear = call_clear self, snap_call_clear_range = call_clear_range self,
     snap_call_atomic_op = call_atomic_op self\<rparr>"

definition record_get :: "u64 \<Rightarrow> u64 \<Rightarrow> 'c attempt_usage \<Rightarrow> 'c attempt_usage" where
  "record_get bs kvs self = self\<lparr>bytes_read := bytes_read self + bs,
     keys_values_fetched := keys_values_fetched self + kvs, call_get := call_get self + 1\<rparr>"

definition record_get_range :: "u64 \<Rightarrow> u64 \<Rightarrow> 'c attempt_usage \<Rightarrow> 'c attempt_usage" where
  "record_get_range bs kvs self = self\<lparr>bytes_read := bytes_read self + bs,
     keys_values_fetched := keys_values_fetched self + kvs, call_get_range := call_get_range self + 1\<rparr>"

definition record_set :: "u64 \<Rightarrow> 'c attempt_usage \<Rightarrow> 'c attempt_usage" where
  "record_set bs self = self\<lparr>bytes_written := bytes_written self + bs, call_set := call_set self + 1\<rparr>"

definition record_clear :: "u64 \<Rightarrow> 'c attempt_usage \<Rightarrow> 'c attempt_usage" where
  "record_clear bs self = self\<lparr>bytes_written := bytes_written self + bs, call_clear := call_clear self + 1\<rparr>"

definition record_clear_range :: "u64 \<Rightarrow> 'c attempt_usage \<Rightarrow> 'c attempt_usage" where
  "record_clear_range bs self = self\<lparr>bytes_written := bytes_written self + bs,
     call_clear_range := call_clear_range self + 1\<rparr>"

definition record_atomic_op :: "u64 \<Rightarrow> 'c attempt_usage \<Rightarrow> 'c attempt_usage" where
  "record_atomic_op bs self = self\<lparr>bytes_written := bytes_written self + bs,
     call_atomic_op := call_atomic_op self + 1\<rparr>"

text \<open>The map is allocated on first use.\<close>

definition with_custom ::
    "((metric_key \<rightharpoonup> u64) \<Rightarrow> (metric_key \<rightharpoonup> u64)) \<Rightarrow> 'c attempt_usage \<Rightarrow> 'c attempt_usage" where
  "with_custom f self =
     self\<lparr>custom := Some (f (case custom self of Some m \<Rightarrow> m | None \<Rightarrow> Map.empty))\<rparr>"

definition set_custom :: "metric_key \<Rightarrow> u64 \<Rightarrow> 'c attempt_usage \<Rightarrow> 'c attempt_usage" where
  "set_custom k v = with_custom (\<lambda>m. m(k \<mapsto> v))"

text \<open>The addition wraps, as in a release build; a debug build panics on overflow.\<close>

definition increment_custom :: "metric_key \<Rightarrow> u64 \<Rightarrow> 'c attempt_usage \<Rightarrow> 'c attempt_usage" where
  "increment_custom k amount =
     with_custom (\<lambda>m. m(k \<mapsto> (case m k of Some v \<Rightarrow> v | None \<Rightarrow> 0) + amount))"

definition custom_metrics :: "'c attempt_usage \<Rightarrow> metric_key \<rightharpoonup> u64" where
  "custom_metrics self = (case custom self of Some m \<Rightarrow> m | None \<Rightarrow> Map.empty)"

section \<open>The budget\<close>

record 'c client_budget =
  time_limit :: "nat option"
  max_bytes_read :: "u64 option"
  max_bytes_written :: "u64 option"
  budget_clock :: "'c dyn_clock option"

definition budget_default :: "'c client_budget" where
  "budget_default = \<lparr>time_limit = None, max_bytes_read = None, max_bytes_written = None, budget_clock = None\<rparr>"

definition with_clock :: "'c \<Rightarrow> 'c client_budget \<Rightarrow> 'c client_budget" where
  "with_clock c self = self\<lparr>budget_clock := Some (CustomClock c)\<rparr>"

datatype budget_kind = TimeLimit | BytesRead | BytesWritten

record budget_exceeded =
  exceeded_kind :: budget_kind
  exceeded_used :: u64
  exceeded_limit :: u64

text \<open>One limit: nothing when it is not set or not exceeded.\<close>

definition over_limit :: "budget_kind \<Rightarrow> u64 \<Rightarrow> u64 option \<Rightarrow> budget_exceeded option" where
  "over_limit kind used opt =
     (case opt of
        None \<Rightarrow> None
      | Some lim \<Rightarrow>
          if used > lim then Some \<lparr>exceeded_kind = kind, exceeded_used = used, exceeded_limit = lim\<rparr> else None)"

definition budget_check ::
    "('w, 'c) time_source \<Rightarrow> 'w \<Rightarrow> 'c client_budget \<Rightarrow> 'c attempt_usage \<Rightarrow> budget_exceeded + unit" where
  "budget_check src w self usage =
     (case over_limit TimeLimit (as_millis_u64 (usage_elapsed src w usage)) (map_option as_millis_u64 (time_limit self)) of
        Some e \<Rightarrow> Inl e
      | None \<Rightarrow>
          (case over_limit BytesRead (bytes_read usage) (max_bytes_read self) of
             Some e \<Rightarrow> Inl e
           | None \<Rightarrow>
               (case over_limit BytesWritten (bytes_written usage) (max_bytes_written self) of
                  Some e \<Rightarrow> Inl e
                | None \<Rightarrow> Inr ())))"

section \<open>Facts\<close>

lemma filter_key:
  "distinct (map fst xs) \<Longrightarrow> p \<in> set xs \<Longrightarrow> filter (\<lambda>x. fst p = fst x) xs = [p]"
  by (induction xs) (auto simp: filter_empty_conv image_iff)

lemma sort_key_perm:
  fixes xs ys :: "('k :: linorder \<times> 'v) list"
  assumes "mset xs = mset ys" and "distinct (map fst xs)"
  shows "sort_key fst xs = sort_key fst ys"
proof (rule properties_for_sort_key)
  show "mset (sort_key fst ys) = mset xs" using assms(1) by simp
  show "sorted (map fst (sort_key fst ys))" by simp
  fix p assume p: "p \<in> set (sort_key fst ys)"
  have "mset (map fst xs) = mset (map fst (sort_key fst ys))" using assms(1) by simp
  then have "distinct (map fst (sort_key fst ys))" using assms(2) by (metis mset_eq_imp_distinct_iff)
  moreover have "set xs = set (sort_key fst ys)" using assms(1) by (metis mset_sort set_mset_mset)
  ultimately show "filter (\<lambda>x. fst p = fst x) (sort_key fst ys) = filter (\<lambda>x. fst p = fst x) xs"
    using filter_key assms(2) p by metis
qed

end
