(* ===== verification/Transaction_Metrics.thy ===== *)
theory Transaction_Metrics
  imports Attempt_Usage Conflict_Ranges
begin

text \<open>
  The metrics of a run (\<^verbatim>\<open>metrics.rs\<close>): the report, with one entry per attempt, and the attempt
  that is being recorded.  A \<^verbatim>\<open>TransactionMetrics\<close> is what its handles share; an
  \<^verbatim>\<open>Arc<AttemptUsage>\<close> is its address.
\<close>

section \<open>The report\<close>

datatype attempt_outcome = AttemptCommitted | AttemptRetried (cause: fdb_error) | AttemptFailed

datatype conflict_keys = NotRequested | Available "conflict_range list" | ReadFailed fdb_error

definition conflict_keys_ranges :: "conflict_keys \<Rightarrow> conflict_range list" where
  "conflict_keys_ranges self =
     (case self of Available ranges \<Rightarrow> ranges | NotRequested \<Rightarrow> [] | ReadFailed _ \<Rightarrow> [])"

type_synonym version = "64 word"

record attempt_metrics =
  am_index :: nat
  am_usage :: usage_snapshot
  am_custom_metrics :: "metric_key \<rightharpoonup> u64"
  am_duration :: "nat option"
  am_commit_duration :: "nat option"
  am_grv_duration :: "nat option"
  am_on_error_duration :: "nat option"
  am_outcome :: attempt_outcome
  am_conflicting_keys :: conflict_keys
  am_read_version :: "version option"

record transaction_info =
  info_retries :: u64
  conflict_count :: u64
  info_read_version :: "version option"
  commit_version :: "version option"

record metrics_report =
  report_attempts :: "attempt_metrics list"
  total_duration :: "nat option"
  report_transaction :: transaction_info

definition report_default :: metrics_report where
  "report_default = \<lparr>report_attempts = [], total_duration = None, report_transaction =
     \<lparr>info_retries = 0, conflict_count = 0, info_read_version = None, commit_version = None\<rparr>\<rparr>"

text \<open>
  A \<^verbatim>\<open>Duration\<close> holds 64 bits of seconds; an addition past that panics.  The counters wrap, as in a
  release build.
\<close>

definition MAX_DURATION :: nat where
  "MAX_DURATION = (2 ^ 64 - 1) * 1000000000 + 999999999"

definition duration_add :: "nat \<Rightarrow> nat \<Rightarrow> nat option" where
  "duration_add a b = (if a + b \<le> MAX_DURATION then Some (a + b) else None)"

definition add_usage :: "usage_snapshot \<Rightarrow> usage_snapshot \<Rightarrow> usage_snapshot option" where
  "add_usage sum_so_far usage =
     map_option (\<lambda>elapsed. \<lparr>snap_elapsed = elapsed,
       snap_bytes_read = snap_bytes_read sum_so_far + snap_bytes_read usage,
       snap_bytes_written = snap_bytes_written sum_so_far + snap_bytes_written usage,
       snap_keys_values_fetched = snap_keys_values_fetched sum_so_far + snap_keys_values_fetched usage,
       snap_call_get = snap_call_get sum_so_far + snap_call_get usage,
       snap_call_get_range = snap_call_get_range sum_so_far + snap_call_get_range usage,
       snap_call_set = snap_call_set sum_so_far + snap_call_set usage,
       snap_call_clear = snap_call_clear sum_so_far + snap_call_clear usage,
       snap_call_clear_range = snap_call_clear_range sum_so_far + snap_call_clear_range usage,
       snap_call_atomic_op = snap_call_atomic_op sum_so_far + snap_call_atomic_op usage\<rparr>)
     (duration_add (snap_elapsed sum_so_far) (snap_elapsed usage))"

definition total_usage :: "metrics_report \<Rightarrow> usage_snapshot option" where
  "total_usage self =
     foldl (\<lambda>acc a. Option.bind acc (\<lambda>t. add_usage t (am_usage a))) (Some snapshot_default) (report_attempts self)"

definition last_attempt_of :: "metrics_report \<Rightarrow> attempt_metrics option" where
  "last_attempt_of self = (if report_attempts self = [] then None else Some (last (report_attempts self)))"

section \<open>The collector\<close>

record open_attempt =
  open_usage :: "nat option"
  open_duration :: "nat option"
  open_commit_duration :: "nat option"
  open_grv_duration :: "nat option"
  open_conflicting_keys :: conflict_keys
  open_read_version :: "version option"

definition open_default :: open_attempt where
  "open_default = \<lparr>open_usage = None, open_duration = None, open_commit_duration = None,
     open_grv_duration = None, open_conflicting_keys = NotRequested, open_read_version = None\<rparr>"

record transaction_metrics =
  metrics_data :: metrics_report
  open_scratch :: open_attempt

definition metrics_new :: transaction_metrics where
  "metrics_new = \<lparr>metrics_data = report_default, open_scratch = open_default\<rparr>"

text \<open>The two parts behind their locks.\<close>

definition on_open :: "(open_attempt \<Rightarrow> open_attempt) \<Rightarrow> transaction_metrics \<Rightarrow> transaction_metrics" where
  "on_open f self = self\<lparr>open_scratch := f (open_scratch self)\<rparr>"

definition on_info :: "(transaction_info \<Rightarrow> transaction_info) \<Rightarrow> transaction_metrics \<Rightarrow> transaction_metrics" where
  "on_info f self = self\<lparr>metrics_data := (metrics_data self)\<lparr>report_transaction :=
     f (report_transaction (metrics_data self))\<rparr>\<rparr>"

definition begin_attempt :: "nat \<Rightarrow> transaction_metrics \<Rightarrow> transaction_metrics" where
  "begin_attempt usage = on_open (\<lambda>_. open_default\<lparr>open_usage := Some usage\<rparr>)"

text \<open>\<open>elapsed\<close> reads the elapsed time of the usage at an address.\<close>

definition freeze_duration :: "(nat \<Rightarrow> nat) \<Rightarrow> open_attempt \<Rightarrow> open_attempt" where
  "freeze_duration elapsed opn =
     (if open_duration opn = None then opn\<lparr>open_duration := map_option elapsed (open_usage opn)\<rparr> else opn)"

definition mark_attempt_end :: "(nat \<Rightarrow> nat) \<Rightarrow> transaction_metrics \<Rightarrow> transaction_metrics" where
  "mark_attempt_end elapsed = on_open (freeze_duration elapsed)"

definition record_commit :: "(nat \<Rightarrow> nat) \<Rightarrow> nat \<Rightarrow> transaction_metrics \<Rightarrow> transaction_metrics" where
  "record_commit elapsed d = on_open (\<lambda>opn. freeze_duration elapsed (opn\<lparr>open_commit_duration := Some d\<rparr>))"

definition record_grv :: "nat \<Rightarrow> nat \<Rightarrow> version option \<Rightarrow> transaction_metrics \<Rightarrow> transaction_metrics" where
  "record_grv usage d ver self =
     (if open_usage (open_scratch self) \<noteq> Some usage then self
      else
        let self = on_open (\<lambda>opn. if open_grv_duration opn = None then opn\<lparr>open_grv_duration := Some d\<rparr> else opn) self
        in case ver of
             None \<Rightarrow> self
           | Some v \<Rightarrow>
               on_info (\<lambda>info. info\<lparr>info_read_version := Some v\<rparr>) (on_open (\<lambda>opn. opn\<lparr>open_read_version := Some v\<rparr>) self))"

text \<open>\<open>usages\<close> is the store of usages, \<open>src\<close> and \<open>w\<close> what their clocks read.\<close>

definition finish_attempt ::
    "('w, 'c) time_source \<Rightarrow> 'w \<Rightarrow> (nat \<Rightarrow> 'c attempt_usage) \<Rightarrow> attempt_outcome \<Rightarrow>
     transaction_metrics \<Rightarrow> transaction_metrics" where
  "finish_attempt src w usages outcome self =
     (case open_usage (open_scratch self) of
        None \<Rightarrow> self
      | Some a \<Rightarrow>
          let usage = usages a;
              opn = open_scratch self;
              report = metrics_data self;
              entry = \<lparr>am_index = length (report_attempts report), am_usage = usage_snapshot_of src w usage,
                am_custom_metrics = custom_metrics usage,
                am_duration = (case open_duration opn of Some d \<Rightarrow> Some d | None \<Rightarrow> Some (usage_elapsed src w usage)),
                am_commit_duration = open_commit_duration opn, am_grv_duration = open_grv_duration opn,
                am_on_error_duration = None, am_outcome = outcome,
                am_conflicting_keys = open_conflicting_keys opn, am_read_version = open_read_version opn\<rparr>;
              self = self\<lparr>open_scratch := open_default,
                metrics_data := report\<lparr>report_attempts := report_attempts report @ [entry]\<rparr>\<rparr>
          in case outcome of
               AttemptRetried _ \<Rightarrow> on_info (\<lambda>info. info\<lparr>info_retries := info_retries info + 1\<rparr>) self
             | _ \<Rightarrow> self)"

definition set_on_error_duration :: "nat \<Rightarrow> transaction_metrics \<Rightarrow> transaction_metrics" where
  "set_on_error_duration d self =
     (let report = metrics_data self; attempts = report_attempts report
      in if attempts = [] then self
         else self\<lparr>metrics_data := report\<lparr>report_attempts :=
           butlast attempts @ [(last attempts)\<lparr>am_on_error_duration := Some d\<rparr>]\<rparr>\<rparr>)"

definition set_total_duration :: "nat \<Rightarrow> transaction_metrics \<Rightarrow> transaction_metrics" where
  "set_total_duration d self = self\<lparr>metrics_data := (metrics_data self)\<lparr>total_duration := Some d\<rparr>\<rparr>"

definition set_read_version_of :: "version \<Rightarrow> transaction_metrics \<Rightarrow> transaction_metrics" where
  "set_read_version_of v self =
     on_info (\<lambda>info. info\<lparr>info_read_version := Some v\<rparr>) (on_open (\<lambda>opn. opn\<lparr>open_read_version := Some v\<rparr>) self)"

definition set_commit_version :: "version \<Rightarrow> transaction_metrics \<Rightarrow> transaction_metrics" where
  "set_commit_version v = on_info (\<lambda>info. info\<lparr>commit_version := Some v\<rparr>)"

definition set_conflicting_keys :: "conflict_keys \<Rightarrow> transaction_metrics \<Rightarrow> transaction_metrics" where
  "set_conflicting_keys ks = on_open (\<lambda>opn. opn\<lparr>open_conflicting_keys := ks\<rparr>)"

definition increment_conflict_count :: "transaction_metrics \<Rightarrow> transaction_metrics" where
  "increment_conflict_count = on_info (\<lambda>info. info\<lparr>conflict_count := conflict_count info + 1\<rparr>)"

definition get_retries :: "transaction_metrics \<Rightarrow> u64" where
  "get_retries self = info_retries (report_transaction (metrics_data self))"

definition get_metrics_data :: "transaction_metrics \<Rightarrow> metrics_report" where
  "get_metrics_data self = metrics_data self"

definition get_transaction_info :: "transaction_metrics \<Rightarrow> transaction_info" where
  "get_transaction_info self = report_transaction (metrics_data self)"

end
