(* ===== verification/Transaction_Handle.thy ===== *)
theory Transaction_Handle
  imports Transaction_Metrics
begin

text \<open>
  The transaction object (\<^verbatim>\<open>transaction.rs\<close>): what the bindings keep beside the native transaction,
  which is the accounting of attempts, the budget, the user versions and the metrics collector, and
  the calls that change it.  The native calls are parameters.
\<close>

section \<open>The object\<close>

text \<open>
  \<open>usages\<close> is the store of \<^verbatim>\<open>Arc<AttemptUsage>\<close>, \<open>usage_slot\<close> the address in the \<^verbatim>\<open>UsageSlot\<close>;
  \<open>collectors\<close> are the \<^verbatim>\<open>TransactionMetrics\<close> of the program, and a handle is the number of one.
\<close>

record ('w, 'c) transaction =
  inner :: 'w
  usages :: "nat \<Rightarrow> 'c attempt_usage"
  next_usage :: nat
  usage_slot :: nat
  trx_budget :: "'c client_budget"
  user_version :: u32
  metrics_handle :: "nat option"
  collectors :: "nat \<Rightarrow> transaction_metrics"

definition transaction_new ::
    "('w, 'c) time_source \<Rightarrow> 'w \<Rightarrow> (nat \<Rightarrow> transaction_metrics) \<Rightarrow> ('w, 'c) transaction" where
  "transaction_new src w cs = \<lparr>inner = w, usages = \<lambda>_. usage_new src w, next_usage = 1, usage_slot = 0,
     trx_budget = budget_default, user_version = 0, metrics_handle = None, collectors = cs\<rparr>"

text \<open>\<^verbatim>\<open>UsageSlot::begin\<close>: a new generation; the old one is left to those who hold it.\<close>

definition slot_begin ::
    "('w, 'c) time_source \<Rightarrow> 'c dyn_clock option \<Rightarrow> ('w, 'c) transaction \<Rightarrow> ('w, 'c) transaction" where
  "slot_begin src clk t = t\<lparr>
     usages := (usages t)(next_usage t := usage_with_clock src (inner t) clk),
     usage_slot := next_usage t, next_usage := next_usage t + 1\<rparr>"

text \<open>\<^verbatim>\<open>UsageSlot::current\<close>, read through.\<close>

definition current_usage :: "('w, 'c) transaction \<Rightarrow> 'c attempt_usage" where
  "current_usage t = usages t (usage_slot t)"

definition record_at ::
    "nat \<Rightarrow> ('c attempt_usage \<Rightarrow> 'c attempt_usage) \<Rightarrow> ('w, 'c) transaction \<Rightarrow> ('w, 'c) transaction" where
  "record_at a f t = t\<lparr>usages := (usages t)(a := f (usages t a))\<rparr>"

definition on_collector ::
    "nat \<Rightarrow> (transaction_metrics \<Rightarrow> transaction_metrics) \<Rightarrow> ('w, 'c) transaction \<Rightarrow> ('w, 'c) transaction" where
  "on_collector h f t = t\<lparr>collectors := (collectors t)(h := f (collectors t h))\<rparr>"

definition with_metrics ::
    "(transaction_metrics \<Rightarrow> transaction_metrics) \<Rightarrow> ('w, 'c) transaction \<Rightarrow> ('w, 'c) transaction" where
  "with_metrics f t = (case metrics_handle t of None \<Rightarrow> t | Some h \<Rightarrow> on_collector h f t)"

definition open_metrics_attempt :: "('w, 'c) transaction \<Rightarrow> ('w, 'c) transaction" where
  "open_metrics_attempt t = with_metrics (begin_attempt (usage_slot t)) t"

definition attach_metrics :: "nat \<Rightarrow> ('w, 'c) transaction \<Rightarrow> ('w, 'c) transaction" where
  "attach_metrics h t =
     (if metrics_handle t = None then open_metrics_attempt (t\<lparr>metrics_handle := Some h\<rparr>) else t)"

definition elapsed_at :: "('w, 'c) time_source \<Rightarrow> ('w, 'c) transaction \<Rightarrow> nat \<Rightarrow> nat" where
  "elapsed_at src t a = usage_elapsed src (inner t) (usages t a)"

definition trx_mark_attempt_end :: "('w, 'c) time_source \<Rightarrow> ('w, 'c) transaction \<Rightarrow> ('w, 'c) transaction" where
  "trx_mark_attempt_end src t = with_metrics (mark_attempt_end (elapsed_at src t)) t"

definition end_attempt ::
    "('w, 'c) time_source \<Rightarrow> attempt_outcome \<Rightarrow> ('w, 'c) transaction \<Rightarrow> ('w, 'c) transaction" where
  "end_attempt src outcome t = with_metrics (finish_attempt src (inner t) (usages t) outcome) t"

definition begin_attempt_with_clock ::
    "('w, 'c) time_source \<Rightarrow> 'c dyn_clock option \<Rightarrow> ('w, 'c) transaction \<Rightarrow> ('w, 'c) transaction" where
  "begin_attempt_with_clock src clk t = open_metrics_attempt (slot_begin src clk t)"

definition begin_attempt_usage :: "('w, 'c) time_source \<Rightarrow> ('w, 'c) transaction \<Rightarrow> ('w, 'c) transaction" where
  "begin_attempt_usage src t = begin_attempt_with_clock src (budget_clock (trx_budget t)) t"

section \<open>Budget and user versions\<close>

definition attempt_usage_of :: "('w, 'c) time_source \<Rightarrow> ('w, 'c) transaction \<Rightarrow> usage_snapshot" where
  "attempt_usage_of src t = usage_snapshot_of src (inner t) (current_usage t)"

definition set_client_budget ::
    "('w, 'c) time_source \<Rightarrow> 'c client_budget \<Rightarrow> ('w, 'c) transaction \<Rightarrow> ('w, 'c) transaction" where
  "set_client_budget src b t = begin_attempt_with_clock src (budget_clock b) (t\<lparr>trx_budget := b\<rparr>)"

definition clear_client_budget :: "('w, 'c) transaction \<Rightarrow> ('w, 'c) transaction" where
  "clear_client_budget t = t\<lparr>trx_budget := budget_default\<rparr>"

definition check_client_budget :: "('w, 'c) time_source \<Rightarrow> ('w, 'c) transaction \<Rightarrow> budget_exceeded + unit" where
  "check_client_budget src t = budget_check src (inner t) (trx_budget t) (current_usage t)"

definition allocate_user_version :: "('w, 'c) transaction \<Rightarrow> (binding_error + u16) \<times> ('w, 'c) transaction" where
  "allocate_user_version t =
     (let v = user_version t
      in if v \<le> 0xFFFF then (Inr (ucast v), t\<lparr>user_version := v + 1\<rparr>) else (Inl UserVersionExhausted, t))"

definition reset_user_version_allocator :: "('w, 'c) transaction \<Rightarrow> ('w, 'c) transaction" where
  "reset_user_version_allocator t = t\<lparr>user_version := 0\<rparr>"

section \<open>Writes\<close>

text \<open>The lengths handed to the native client are \<^verbatim>\<open>c_int\<close>; a longer slice panics, here \<open>None\<close>.\<close>

definition fdb_len :: "nat \<Rightarrow> nat option" where
  "fdb_len n = (if n \<le> 2 ^ 31 - 1 then Some n else None)"

definition fits_len :: "bytes \<Rightarrow> bool" where
  "fits_len bs \<longleftrightarrow> fdb_len (length bs) \<noteq> None"

definition trx_set :: "'w kv \<Rightarrow> bytes \<Rightarrow> bytes \<Rightarrow> ('w, 'c) transaction \<Rightarrow> ('w, 'c) transaction option" where
  "trx_set kv key val t =
     (if fits_len key \<and> fits_len val
      then Some (record_at (usage_slot t) (record_set (word_of_nat (length key + length val)))
        (t\<lparr>inner := kv_set kv key val (inner t)\<rparr>))
      else None)"

definition trx_clear :: "'w kv \<Rightarrow> bytes \<Rightarrow> ('w, 'c) transaction \<Rightarrow> ('w, 'c) transaction option" where
  "trx_clear kv key t =
     (if fits_len key
      then Some (record_at (usage_slot t) (record_clear (word_of_nat (length key)))
        (t\<lparr>inner := kv_clear kv key (inner t)\<rparr>))
      else None)"

definition trx_clear_range ::
    "'w kv \<Rightarrow> bytes \<Rightarrow> bytes \<Rightarrow> ('w, 'c) transaction \<Rightarrow> ('w, 'c) transaction option" where
  "trx_clear_range kv lo hi t =
     (if fits_len lo \<and> fits_len hi
      then Some (record_at (usage_slot t) (record_clear_range (word_of_nat (length lo + length hi)))
        (t\<lparr>inner := kv_clear_range kv lo hi (inner t)\<rparr>))
      else None)"

text \<open>\<open>atomic\<close> is the native mutation with its type.\<close>

definition trx_atomic_op ::
    "(bytes \<Rightarrow> bytes \<Rightarrow> 'w \<Rightarrow> 'w) \<Rightarrow> bytes \<Rightarrow> bytes \<Rightarrow> ('w, 'c) transaction \<Rightarrow> ('w, 'c) transaction option" where
  "trx_atomic_op atomic key param t =
     (if fits_len key \<and> fits_len param
      then Some (record_at (usage_slot t) (record_atomic_op (word_of_nat (length key + length param)))
        (t\<lparr>inner := atomic key param (inner t)\<rparr>))
      else None)"

section \<open>Reads\<close>

text \<open>
  A read takes hold of the usage when it is issued and records into it when it resolves; in between
  anything can happen to the transaction.
\<close>

record pending_read =
  read_usage :: nat
  read_key_len :: nat

definition issue_read :: "bytes \<Rightarrow> ('w, 'c) transaction \<Rightarrow> pending_read option" where
  "issue_read key t =
     (if fits_len key then Some \<lparr>read_usage = usage_slot t, read_key_len = length key\<rparr> else None)"

definition issue_range :: "range_option \<Rightarrow> ('w, 'c) transaction \<Rightarrow> nat option" where
  "issue_range opt t =
     (if fits_len (ks_key (ro_begin opt)) \<and> fits_len (ks_key (ro_end opt)) then Some (usage_slot t) else None)"

definition get_resolved :: "pending_read \<Rightarrow> fdb_error + bytes option \<Rightarrow> ('w, 'c) transaction \<Rightarrow> ('w, 'c) transaction" where
  "get_resolved p result t =
     (case result of
        Inl _ \<Rightarrow> t
      | Inr val \<Rightarrow>
          let (bytes_count, kv_fetched) =
                (case val of
                   Some vs \<Rightarrow> (word_of_nat (read_key_len p + length vs), 1)
                 | None \<Rightarrow> (word_of_nat (read_key_len p), 0))
          in record_at (read_usage p) (record_get bytes_count kv_fetched) t)"

definition get_key_resolved :: "pending_read \<Rightarrow> fdb_error + bytes \<Rightarrow> ('w, 'c) transaction \<Rightarrow> ('w, 'c) transaction" where
  "get_key_resolved p result t =
     (case result of
        Inl _ \<Rightarrow> t
      | Inr resolved_key \<Rightarrow>
          record_at (read_usage p) (record_get (word_of_nat (read_key_len p + length resolved_key)) 0) t)"

definition row_bytes :: "bytes \<times> bytes \<Rightarrow> u64" where
  "row_bytes row = word_of_nat (length (fst row) + length (snd row))"

text \<open>The usage is \<open>None\<close> for the reads of the bindings themselves.\<close>

definition get_range_resolved :: "nat option \<Rightarrow> fdb_error + page \<Rightarrow> ('w, 'c) transaction \<Rightarrow> ('w, 'c) transaction" where
  "get_range_resolved opt result t =
     (case result of
        Inl _ \<Rightarrow> t
      | Inr page \<Rightarrow>
          (case opt of
             None \<Rightarrow> t
           | Some a \<Rightarrow>
               record_at a (record_get_range (foldl (\<lambda>n row. n + row_bytes row) 0 (fst page))
                 (word_of_nat (length (fst page)))) t))"

text \<open>A mapped row: the parent pair and the pairs that were looked up with it.\<close>

type_synonym mapped_page = "((bytes \<times> bytes) \<times> (bytes \<times> bytes) list) list \<times> bool"

definition get_mapped_range_resolved ::
    "nat \<Rightarrow> fdb_error + mapped_page \<Rightarrow> ('w, 'c) transaction \<Rightarrow> ('w, 'c) transaction" where
  "get_mapped_range_resolved a result t =
     (case result of
        Inl _ \<Rightarrow> t
      | Inr page \<Rightarrow>
          let (bytes_count, kv_fetched) =
                foldl (\<lambda>(n, k) (parent, kvs).
                    foldl (\<lambda>(n, k) row. (n + row_bytes row, k + 1)) (n + row_bytes parent, k + 1) kvs)
                  (0, 0) (fst page)
          in record_at a (record_get_range bytes_count kv_fetched) t)"

section \<open>Ends of attempts\<close>

text \<open>\<open>commit\<close> is the native commit; it gives an error or nothing.\<close>

definition trx_commit ::
    "('w, 'c) time_source \<Rightarrow> ('w \<Rightarrow> fdb_error option \<times> 'w) \<Rightarrow> ('w, 'c) transaction \<Rightarrow>
     fdb_error option \<times> ('w, 'c) transaction" where
  "trx_commit src commit t =
     (let now = instant_now src (inner t);
          (r, w) = commit (inner t);
          t = t\<lparr>inner := w\<rparr>;
          t = with_metrics (record_commit (elapsed_at src t) (instant_now src w - now)) t
      in case r of None \<Rightarrow> (None, end_attempt src AttemptCommitted t) | Some e \<Rightarrow> (Some e, t))"

text \<open>\<open>retry\<close> is the native \<^verbatim>\<open>on_error\<close>.\<close>

definition on_error_with_transaction ::
    "('w, 'c) time_source \<Rightarrow> (fdb_error \<Rightarrow> 'w \<Rightarrow> fdb_error option \<times> 'w) \<Rightarrow> fdb_error \<Rightarrow> ('w, 'c) transaction \<Rightarrow>
     fdb_error option \<times> ('w, 'c) transaction" where
  "on_error_with_transaction src retry err t =
     (let t = trx_mark_attempt_end src t;
          (r, w) = retry err (inner t);
          t = t\<lparr>inner := w\<rparr>
      in case r of
           None \<Rightarrow> (None, reset_user_version_allocator
             (begin_attempt_usage src (end_attempt src (AttemptRetried err) t)))
         | Some e \<Rightarrow> (Some e, t))"

definition trx_reset :: "('w, 'c) time_source \<Rightarrow> ('w \<Rightarrow> 'w) \<Rightarrow> ('w, 'c) transaction \<Rightarrow> ('w, 'c) transaction" where
  "trx_reset src native_reset t =
     reset_user_version_allocator (begin_attempt_usage src (t\<lparr>inner := native_reset (inner t)\<rparr>))"

section \<open>Metrics of the application and versions\<close>

definition set_custom_metric ::
    "bytes \<Rightarrow> u64 \<Rightarrow> labels \<Rightarrow> ('w, 'c) transaction \<Rightarrow> ('w, 'c) transaction" where
  "set_custom_metric n v labels t = record_at (usage_slot t) (set_custom (metric_key_new n labels) v) t"

definition increment_custom_metric ::
    "bytes \<Rightarrow> u64 \<Rightarrow> labels \<Rightarrow> ('w, 'c) transaction \<Rightarrow> ('w, 'c) transaction" where
  "increment_custom_metric n amount labels t =
     record_at (usage_slot t) (increment_custom (metric_key_new n labels) amount) t"

text \<open>What \<^verbatim>\<open>get_read_version\<close> holds until it resolves: collector, usage and the time it was issued.\<close>

definition issue_read_version :: "('w, 'c) time_source \<Rightarrow> ('w, 'c) transaction \<Rightarrow> (nat \<times> nat \<times> nat) option" where
  "issue_read_version src t = map_option (\<lambda>h. (h, usage_slot t, instant_now src (inner t))) (metrics_handle t)"

definition read_version_resolved ::
    "('w, 'c) time_source \<Rightarrow> (nat \<times> nat \<times> nat) option \<Rightarrow> fdb_error + version \<Rightarrow> ('w, 'c) transaction \<Rightarrow>
     ('w, 'c) transaction" where
  "read_version_resolved src recording result t =
     (case recording of
        None \<Rightarrow> t
      | Some (h, a, now) \<Rightarrow>
          on_collector h (record_grv a (instant_now src (inner t) - now)
            (case result of Inr v \<Rightarrow> Some v | Inl _ \<Rightarrow> None)) t)"

text \<open>\<^verbatim>\<open>get_metadata_version\<close> of what the read resolved to: the first 8 bytes, big endian.\<close>

definition metadata_version_of :: "fdb_error + bytes option \<Rightarrow> fdb_error + version option" where
  "metadata_version_of result =
     (case result of
        Inl e \<Rightarrow> Inl e
      | Inr None \<Rightarrow> Inr None
      | Inr (Some val) \<Rightarrow>
          Inr (if length val < 8 then None else Some (word_of_nat (be_nat (take 8 val)))))"

lemma with_metrics_sel [simp]:
  "inner (with_metrics f t) = inner t" "usages (with_metrics f t) = usages t"
  "next_usage (with_metrics f t) = next_usage t" "usage_slot (with_metrics f t) = usage_slot t"
  "trx_budget (with_metrics f t) = trx_budget t" "user_version (with_metrics f t) = user_version t"
  "metrics_handle (with_metrics f t) = metrics_handle t"
  by (simp_all add: with_metrics_def on_collector_def split: option.split)

end
