(* ===== verification/Usage_Accounting.thy ===== *)
theory Usage_Accounting
  imports Transaction_Handle
begin

text \<open>
  What the accounting of a transaction amounts to: any sequence of its calls, with reads that
  resolve whenever they do, counts for an attempt exactly the calls that were issued in it.
\<close>

section \<open>Calls\<close>

text \<open>
  The calls that count or that end an attempt; a read has a ticket by which it resolves later.
  \<open>Elapse\<close> is whatever else happens to the native transaction and the clocks.
\<close>

datatype 'c usage_call =
    CallSet bytes bytes
  | CallClear bytes
  | CallClearRange bytes bytes
  | CallAtomicOp bytes bytes
  | IssueRead nat bytes
  | ResolveGet nat "fdb_error + bytes option"
  | ResolveGetKey nat "fdb_error + bytes"
  | ResolveGetRange nat "fdb_error + page"
  | SetBudget "'c client_budget"
  | ClearBudget
  | OnError fdb_error
  | Reset

text \<open>The native side: writes, atomic mutations, \<^verbatim>\<open>on_error\<close>, \<^verbatim>\<open>reset\<close> and the passing of time.\<close>

record 'w native =
  native_kv :: "'w kv"
  native_atomic :: "bytes \<Rightarrow> bytes \<Rightarrow> 'w \<Rightarrow> 'w"
  native_on_error :: "fdb_error \<Rightarrow> 'w \<Rightarrow> fdb_error option \<times> 'w"
  native_reset :: "'w \<Rightarrow> 'w"

type_synonym ('w, 'c) issued = "('w, 'c) transaction \<times> (nat \<rightharpoonup> pending_read)"

definition resolve ::
    "nat \<Rightarrow> (pending_read \<Rightarrow> ('w, 'c) transaction \<Rightarrow> ('w, 'c) transaction) \<Rightarrow> ('w, 'c) issued \<Rightarrow> ('w, 'c) issued" where
  "resolve i f x = (case snd x i of None \<Rightarrow> x | Some p \<Rightarrow> (f p (fst x), (snd x)(i := None)))"

fun usage_step ::
    "('w, 'c) time_source \<Rightarrow> 'w native \<Rightarrow> 'c usage_call \<Rightarrow> ('w, 'c) issued \<Rightarrow> ('w, 'c) issued option" where
  "usage_step src nv (CallSet k v) (t, ps) = map_option (\<lambda>t. (t, ps)) (trx_set (native_kv nv) k v t)"
| "usage_step src nv (CallClear k) (t, ps) = map_option (\<lambda>t. (t, ps)) (trx_clear (native_kv nv) k t)"
| "usage_step src nv (CallClearRange lo hi) (t, ps) = map_option (\<lambda>t. (t, ps)) (trx_clear_range (native_kv nv) lo hi t)"
| "usage_step src nv (CallAtomicOp k p) (t, ps) = map_option (\<lambda>t. (t, ps)) (trx_atomic_op (native_atomic nv) k p t)"
| "usage_step src nv (IssueRead i k) (t, ps) = map_option (\<lambda>p. (t, ps(i \<mapsto> p))) (issue_read k t)"
| "usage_step src nv (ResolveGet i r) x = Some (resolve i (\<lambda>p. get_resolved p r) x)"
| "usage_step src nv (ResolveGetKey i r) x = Some (resolve i (\<lambda>p. get_key_resolved p r) x)"
| "usage_step src nv (ResolveGetRange i r) x = Some (resolve i (\<lambda>p. get_range_resolved (Some (read_usage p)) r) x)"
| "usage_step src nv (SetBudget b) (t, ps) = Some (set_client_budget src b t, ps)"
| "usage_step src nv ClearBudget (t, ps) = Some (clear_client_budget t, ps)"
| "usage_step src nv (OnError e) (t, ps) = Some (snd (on_error_with_transaction src (native_on_error nv) e t), ps)"
| "usage_step src nv Reset (t, ps) = Some (trx_reset src (native_reset nv) t, ps)"

fun usage_run ::
    "('w, 'c) time_source \<Rightarrow> 'w native \<Rightarrow> 'c usage_call list \<Rightarrow> ('w, 'c) issued \<Rightarrow> ('w, 'c) issued option" where
  "usage_run src nv [] x = Some x"
| "usage_run src nv (c # cs) x = Option.bind (usage_step src nv c x) (usage_run src nv cs)"

section \<open>The account of an attempt\<close>

text \<open>
  The abstract account has no generations: the reads issued in the attempt, with the length of
  their key, and what was counted in it, in plain numbers.
\<close>

record account =
  own_reads :: "nat \<rightharpoonup> nat"
  read_total :: nat
  written_total :: nat
  fetched_total :: nat
  gets :: nat
  get_ranges_count :: nat
  sets :: nat
  clears :: nat
  clear_ranges :: nat
  atomic_ops :: nat

definition account_new :: account where
  "account_new = \<lparr>own_reads = Map.empty, read_total = 0, written_total = 0, fetched_total = 0, gets = 0,
     get_ranges_count = 0, sets = 0, clears = 0, clear_ranges = 0, atomic_ops = 0\<rparr>"

definition pair_len :: "bytes \<times> bytes \<Rightarrow> nat" where
  "pair_len row = length (fst row) + length (snd row)"

definition count_get :: "fdb_error + nat \<times> nat \<Rightarrow> account \<Rightarrow> account" where
  "count_get r acc =
     (case r of
        Inl _ \<Rightarrow> acc
      | Inr (n, k) \<Rightarrow> acc\<lparr>read_total := read_total acc + n, fetched_total := fetched_total acc + k, gets := gets acc + 1\<rparr>)"

definition count_range :: "fdb_error + page \<Rightarrow> account \<Rightarrow> account" where
  "count_range r acc =
     (case r of
        Inl _ \<Rightarrow> acc
      | Inr page \<Rightarrow> acc\<lparr>read_total := read_total acc + sum_list (map pair_len (fst page)),
          fetched_total := fetched_total acc + length (fst page), get_ranges_count := get_ranges_count acc + 1\<rparr>)"

text \<open>Only reads of the attempt itself count.\<close>

definition count_own :: "nat \<Rightarrow> (nat \<Rightarrow> account \<Rightarrow> account) \<Rightarrow> account \<Rightarrow> account" where
  "count_own i f acc =
     (case own_reads acc i of
        None \<Rightarrow> acc
      | Some l \<Rightarrow> f l (acc\<lparr>own_reads := (own_reads acc)(i := None)\<rparr>))"

definition get_size :: "nat \<Rightarrow> fdb_error + bytes option \<Rightarrow> fdb_error + nat \<times> nat" where
  "get_size l r = (case r of Inl e \<Rightarrow> Inl e | Inr None \<Rightarrow> Inr (l, 0) | Inr (Some vs) \<Rightarrow> Inr (l + length vs, 1))"

definition get_key_size :: "nat \<Rightarrow> fdb_error + bytes \<Rightarrow> fdb_error + nat \<times> nat" where
  "get_key_size l r = (case r of Inl e \<Rightarrow> Inl e | Inr k \<Rightarrow> Inr (l + length k, 0))"

text \<open>\<open>accepted\<close> tells whether the native client accepts to retry.\<close>

fun account_step :: "bool \<Rightarrow> 'c usage_call \<Rightarrow> account \<Rightarrow> account" where
  "account_step accepted (CallSet k v) acc =
     acc\<lparr>written_total := written_total acc + (length k + length v), sets := sets acc + 1\<rparr>"
| "account_step accepted (CallClear k) acc =
     acc\<lparr>written_total := written_total acc + length k, clears := clears acc + 1\<rparr>"
| "account_step accepted (CallClearRange lo hi) acc =
     acc\<lparr>written_total := written_total acc + (length lo + length hi), clear_ranges := clear_ranges acc + 1\<rparr>"
| "account_step accepted (CallAtomicOp k p) acc =
     acc\<lparr>written_total := written_total acc + (length k + length p), atomic_ops := atomic_ops acc + 1\<rparr>"
| "account_step accepted (IssueRead i k) acc = acc\<lparr>own_reads := (own_reads acc)(i \<mapsto> length k)\<rparr>"
| "account_step accepted (ResolveGet i r) acc = count_own i (\<lambda>l. count_get (get_size l r)) acc"
| "account_step accepted (ResolveGetKey i r) acc = count_own i (\<lambda>l. count_get (get_key_size l r)) acc"
| "account_step accepted (ResolveGetRange i r) acc = count_own i (\<lambda>l. count_range r) acc"
| "account_step accepted (SetBudget b) acc = account_new"
| "account_step accepted ClearBudget acc = acc"
| "account_step accepted (OnError e) acc = (if accepted then account_new else acc)"
| "account_step accepted Reset acc = account_new"

definition accepts :: "'w native \<Rightarrow> ('w, 'c) transaction \<Rightarrow> 'c usage_call \<Rightarrow> bool" where
  "accepts nv t c = (case c of OnError e \<Rightarrow> fst (native_on_error nv e (inner t)) = None | _ \<Rightarrow> False)"

fun account_run ::
    "('w, 'c) time_source \<Rightarrow> 'w native \<Rightarrow> 'c usage_call list \<Rightarrow> ('w, 'c) issued \<Rightarrow> account \<Rightarrow> account" where
  "account_run src nv [] x acc = acc"
| "account_run src nv (c # cs) x acc =
     (case usage_step src nv c x of
        None \<Rightarrow> acc
      | Some x' \<Rightarrow> account_run src nv cs x' (account_step (accepts nv (fst x) c) c acc))"

section \<open>Refinement\<close>

text \<open>The counters of a usage are the numbers of an account, modulo the width of a counter.\<close>

definition counts :: "account \<Rightarrow> 'c attempt_usage \<Rightarrow> bool" where
  "counts acc u \<longleftrightarrow>
     bytes_read u = word_of_nat (read_total acc) \<and> bytes_written u = word_of_nat (written_total acc) \<and>
     keys_values_fetched u = word_of_nat (fetched_total acc) \<and> call_get u = word_of_nat (gets acc) \<and>
     call_get_range u = word_of_nat (get_ranges_count acc) \<and> call_set u = word_of_nat (sets acc) \<and>
     call_clear u = word_of_nat (clears acc) \<and> call_clear_range u = word_of_nat (clear_ranges acc) \<and>
     call_atomic_op u = word_of_nat (atomic_ops acc)"

definition own_pending :: "('w, 'c) issued \<Rightarrow> nat \<rightharpoonup> nat" where
  "own_pending x i = Option.bind (snd x i) (\<lambda>p. if read_usage p = usage_slot (fst x) then Some (read_key_len p) else None)"

definition accounts_for :: "('w, 'c) issued \<Rightarrow> account \<Rightarrow> bool" where
  "accounts_for x acc \<longleftrightarrow> counts acc (current_usage (fst x)) \<and> own_reads acc = own_pending x \<and>
     usage_slot (fst x) < next_usage (fst x) \<and>
     (\<forall>i p. snd x i = Some p \<longrightarrow> read_usage p < next_usage (fst x))"

lemma new_generation:
  assumes "accounts_for (t, ps) acc"
  shows "accounts_for (begin_attempt_with_clock src clk t, ps) account_new"
proof -
  have "own_pending (begin_attempt_with_clock src clk t, ps) = Map.empty"
  proof
    fix i
    have "ps i = Some p \<Longrightarrow> read_usage p < next_usage t" for p using assms by (simp add: accounts_for_def)
    then show "own_pending (begin_attempt_with_clock src clk t, ps) i = None"
      by (cases "ps i")
        (auto simp: own_pending_def begin_attempt_with_clock_def open_metrics_attempt_def slot_begin_def)
  qed
  with assms show ?thesis
    by (auto simp: accounts_for_def counts_def current_usage_def begin_attempt_with_clock_def open_metrics_attempt_def
        slot_begin_def usage_with_clock_def account_new_def less_Suc_eq Let_def)
qed

text \<open>What does not touch the usages or the slot keeps the account.\<close>

lemma accounts_same:
  assumes "accounts_for (t, ps) acc" and "usages t' = usages t" and "usage_slot t' = usage_slot t"
    and "next_usage t' = next_usage t"
  shows "accounts_for (t', ps) acc"
proof -
  have "own_pending (t', ps) = own_pending (t, ps)" using assms(3) by (simp add: own_pending_def fun_eq_iff)
  with assms show ?thesis by (simp add: accounts_for_def current_usage_def)
qed

text \<open>Recording into the current generation, and into another one.\<close>

lemma record_own:
  assumes "accounts_for (t, ps) acc" and "counts acc' (f (current_usage t))" and "own_reads acc' = own_reads acc"
  shows "accounts_for (record_at (usage_slot t) f t, ps) acc'"
proof -
  have "own_pending (record_at (usage_slot t) f t, ps) = own_pending (t, ps)"
    by (simp add: own_pending_def record_at_def fun_eq_iff)
  with assms show ?thesis by (simp add: accounts_for_def current_usage_def record_at_def)
qed

lemma record_other:
  assumes "accounts_for (t, ps) acc" and "a \<noteq> usage_slot t"
  shows "accounts_for (record_at a f t, ps) acc"
proof -
  have "own_pending (record_at a f t, ps) = own_pending (t, ps)"
    by (simp add: own_pending_def record_at_def fun_eq_iff)
  with assms show ?thesis by (simp add: accounts_for_def current_usage_def record_at_def)
qed

lemma drop_ticket:
  assumes "accounts_for (t, ps) acc"
  shows "accounts_for (t, ps(i := None)) (acc\<lparr>own_reads := (own_reads acc)(i := None)\<rparr>)"
proof -
  have "own_pending (t, ps(i := None)) = (own_pending (t, ps))(i := None)"
    by (simp add: own_pending_def fun_eq_iff)
  with assms show ?thesis by (simp add: accounts_for_def counts_def)
qed

lemma resolve_account:
  assumes acc: "accounts_for (t, ps) acc"
    and other: "\<And>p. read_usage p \<noteq> usage_slot t \<Longrightarrow> \<exists>f. f_of p t = record_at (read_usage p) f t \<or> f_of p t = t"
    and own: "\<And>p. ps i = Some p \<Longrightarrow> read_usage p = usage_slot t \<Longrightarrow>
      \<exists>f. (f_of p t = record_at (usage_slot t) f t \<or> f_of p t = t \<and> f = id) \<and>
        counts (g (read_key_len p) (acc\<lparr>own_reads := (own_reads acc)(i := None)\<rparr>)) (f (current_usage t)) \<and>
        own_reads (g (read_key_len p) (acc\<lparr>own_reads := (own_reads acc)(i := None)\<rparr>)) = (own_reads acc)(i := None)"
  shows "accounts_for (resolve i f_of (t, ps))
    (count_own i g acc)"
proof (cases "ps i")
  case None
  then have "own_reads acc i = None" using acc by (simp add: accounts_for_def own_pending_def)
  with None acc show ?thesis by (simp add: resolve_def count_own_def)
next
  case (Some p)
  note drop = drop_ticket [OF acc, of i]
  show ?thesis
  proof (cases "read_usage p = usage_slot t")
    case True
    then have l: "own_reads acc i = Some (read_key_len p)" using acc Some by (simp add: accounts_for_def own_pending_def)
    from own [OF Some True] obtain f where f: "f_of p t = record_at (usage_slot t) f t \<or> f_of p t = t \<and> f = id"
      and c: "counts (g (read_key_len p) (acc\<lparr>own_reads := (own_reads acc)(i := None)\<rparr>)) (f (current_usage t))"
      and o: "own_reads (g (read_key_len p) (acc\<lparr>own_reads := (own_reads acc)(i := None)\<rparr>)) = (own_reads acc)(i := None)" by blast
    from record_own [OF drop, where f = f, OF c] o have "accounts_for (record_at (usage_slot t) f t, ps(i := None))
        (g (read_key_len p) (acc\<lparr>own_reads := (own_reads acc)(i := None)\<rparr>))" by simp
    moreover have "record_at (usage_slot t) id t = t" by (simp add: record_at_def)
    ultimately show ?thesis using f l Some by (auto simp: resolve_def count_own_def)
  next
    case False
    then have l: "own_reads acc i = None" using acc Some by (simp add: accounts_for_def own_pending_def)
    then have "acc\<lparr>own_reads := (own_reads acc)(i := None)\<rparr> = acc" by (simp add: fun_upd_idem)
    with drop have "accounts_for (t, ps(i := None)) acc" by simp
    with other [OF False] record_other [OF this False] l Some show ?thesis by (auto simp: resolve_def count_own_def)
  qed
qed

lemma page_bytes: "foldl (\<lambda>n row. n + row_bytes row) (word_of_nat m) kvs = word_of_nat (m + sum_list (map pair_len kvs))"
  by (induction kvs arbitrary: m) (simp_all add: row_bytes_def pair_len_def add.assoc flip: of_nat_add)


lemma get_counts:
  assumes "counts acc (current_usage t)" and "read_usage p = usage_slot t"
  shows "\<exists>f. (get_resolved p r t = record_at (usage_slot t) f t \<or> get_resolved p r t = t \<and> f = id) \<and>
    counts (count_get (get_size (read_key_len p) r) (acc\<lparr>own_reads := m\<rparr>)) (f (current_usage t)) \<and>
    own_reads (count_get (get_size (read_key_len p) r) (acc\<lparr>own_reads := m\<rparr>)) = m"
proof (cases r)
  case (Inl e)
  then show ?thesis using assms
    by (intro exI [of _ id]) (simp add: get_resolved_def counts_def count_get_def get_size_def)
next
  case (Inr val)
  then show ?thesis using assms
    by (intro exI [of _ "case val of None \<Rightarrow> record_get (word_of_nat (read_key_len p)) 0
        | Some vs \<Rightarrow> record_get (word_of_nat (read_key_len p + length vs)) 1"])
      (cases val; simp add: get_resolved_def counts_def record_get_def count_get_def get_size_def)
qed

lemma get_key_counts:
  assumes "counts acc (current_usage t)" and "read_usage p = usage_slot t"
  shows "\<exists>f. (get_key_resolved p r t = record_at (usage_slot t) f t \<or> get_key_resolved p r t = t \<and> f = id) \<and>
    counts (count_get (get_key_size (read_key_len p) r) (acc\<lparr>own_reads := m\<rparr>)) (f (current_usage t)) \<and>
    own_reads (count_get (get_key_size (read_key_len p) r) (acc\<lparr>own_reads := m\<rparr>)) = m"
proof (cases r)
  case (Inl e)
  then show ?thesis using assms
    by (intro exI [of _ id]) (simp add: get_key_resolved_def counts_def count_get_def get_key_size_def)
next
  case (Inr k)
  then show ?thesis using assms
    by (intro exI [of _ "record_get (word_of_nat (read_key_len p + length k)) 0"])
      (simp add: get_key_resolved_def counts_def record_get_def count_get_def get_key_size_def)
qed

lemma get_range_counts:
  assumes "counts acc (current_usage t)" and "read_usage p = usage_slot t"
  shows "\<exists>f. (get_range_resolved (Some (read_usage p)) r t = record_at (usage_slot t) f t \<or>
      get_range_resolved (Some (read_usage p)) r t = t \<and> f = id) \<and>
    counts (count_range r (acc\<lparr>own_reads := m\<rparr>)) (f (current_usage t)) \<and>
    own_reads (count_range r (acc\<lparr>own_reads := m\<rparr>)) = m"
proof (cases r)
  case (Inl e)
  then show ?thesis using assms
    by (intro exI [of _ id]) (simp add: get_range_resolved_def counts_def count_range_def)
next
  case (Inr page)
  let ?n = "foldl (\<lambda>n row. n + row_bytes row) 0 (fst page)"
  have "?n = word_of_nat (sum_list (map pair_len (fst page)))" using page_bytes [of 0 "fst page"] by simp
  then show ?thesis using assms Inr
    by (intro exI [of _ "record_get_range ?n (word_of_nat (length (fst page)))"])
      (simp add: get_range_resolved_def counts_def record_get_range_def count_range_def)
qed

lemma usage_step_accounts:
  assumes acc: "accounts_for (t, ps) acc" and step: "usage_step src nv c (t, ps) = Some x'"
  shows "accounts_for x' (account_step (accepts nv t c) c acc)"
proof -
  have counts: "counts acc (current_usage t)" using acc by (simp add: accounts_for_def)
  have inner: "accounts_for (t\<lparr>inner := w\<rparr>, ps) acc" for w by (rule accounts_same [OF acc]) simp_all
  show ?thesis
  proof (cases c)
    case (CallSet k v)
    with step show ?thesis
      using record_own [OF inner, of "acc\<lparr>written_total := written_total acc + (length k + length v), sets := sets acc + 1\<rparr>"
          "record_set (word_of_nat (length k + length v))"] counts
      by (auto simp: trx_set_def counts_def record_set_def current_usage_def split: if_splits)
  next
    case (CallClear k)
    with step show ?thesis
      using record_own [OF inner, of "acc\<lparr>written_total := written_total acc + length k, clears := clears acc + 1\<rparr>"
          "record_clear (word_of_nat (length k))"] counts
      by (auto simp: trx_clear_def counts_def record_clear_def current_usage_def split: if_splits)
  next
    case (CallClearRange lo hi)
    with step show ?thesis
      using record_own [OF inner, of "acc\<lparr>written_total := written_total acc + (length lo + length hi), clear_ranges := clear_ranges acc + 1\<rparr>"
          "record_clear_range (word_of_nat (length lo + length hi))"] counts
      by (auto simp: trx_clear_range_def counts_def record_clear_range_def current_usage_def split: if_splits)
  next
    case (CallAtomicOp k p)
    with step show ?thesis
      using record_own [OF inner, of "acc\<lparr>written_total := written_total acc + (length k + length p), atomic_ops := atomic_ops acc + 1\<rparr>"
          "record_atomic_op (word_of_nat (length k + length p))"] counts
      by (auto simp: trx_atomic_op_def counts_def record_atomic_op_def current_usage_def split: if_splits)
  next
    case (IssueRead i k)
    with step have x': "x' = (t, ps(i \<mapsto> \<lparr>read_usage = usage_slot t, read_key_len = length k\<rparr>))"
      by (auto simp: issue_read_def split: if_splits)
    have "own_pending x' = (own_pending (t, ps))(i \<mapsto> length k)" by (simp add: own_pending_def fun_eq_iff x')
    with acc show ?thesis by (auto simp: accounts_for_def IssueRead x' counts_def)
  next
    case (ResolveGet i r)
    have "accounts_for (resolve i (\<lambda>p. get_resolved p r) (t, ps)) (count_own i (\<lambda>l. count_get (get_size l r)) acc)"
    proof (rule resolve_account [OF acc])
      show "\<exists>f. get_resolved p r t = record_at (read_usage p) f t \<or> get_resolved p r t = t" for p
        by (auto simp: get_resolved_def Let_def split: sum.split option.split)
    qed (rule get_counts [OF counts])
    with step show ?thesis by (auto simp: ResolveGet)
  next
    case (ResolveGetKey i r)
    have "accounts_for (resolve i (\<lambda>p. get_key_resolved p r) (t, ps)) (count_own i (\<lambda>l. count_get (get_key_size l r)) acc)"
    proof (rule resolve_account [OF acc])
      show "\<exists>f. get_key_resolved p r t = record_at (read_usage p) f t \<or> get_key_resolved p r t = t" for p
        by (auto simp: get_key_resolved_def split: sum.split)
    qed (rule get_key_counts [OF counts])
    with step show ?thesis by (auto simp: ResolveGetKey)
  next
    case (ResolveGetRange i r)
    have "accounts_for (resolve i (\<lambda>p. get_range_resolved (Some (read_usage p)) r) (t, ps)) (count_own i (\<lambda>l. count_range r) acc)"
    proof (rule resolve_account [OF acc])
      show "\<exists>f. get_range_resolved (Some (read_usage p)) r t = record_at (read_usage p) f t \<or>
          get_range_resolved (Some (read_usage p)) r t = t" for p
        by (auto simp: get_range_resolved_def split: sum.split)
    qed (rule get_range_counts [OF counts])
    with step show ?thesis by (auto simp: ResolveGetRange)
  next
    case (SetBudget b)
    have "accounts_for (t\<lparr>trx_budget := b\<rparr>, ps) acc" by (rule accounts_same [OF acc]) simp_all
    from new_generation [OF this] step show ?thesis by (auto simp: SetBudget set_client_budget_def)
  next
    case ClearBudget
    have "accounts_for (clear_client_budget t, ps) acc" by (rule accounts_same [OF acc]) (simp_all add: clear_client_budget_def)
    with step show ?thesis by (auto simp: ClearBudget)
  next
    case (OnError e)
    obtain r w where r: "native_on_error nv e (inner t) = (r, w)" by fastforce
    let ?t = "(trx_mark_attempt_end src t)\<lparr>inner := w\<rparr>"
    have same: "accounts_for (?t, ps) acc" by (rule accounts_same [OF acc]) (simp_all add: trx_mark_attempt_end_def)
    show ?thesis
    proof (cases r)
      case None
      let ?t' = "begin_attempt_usage src (end_attempt src (AttemptRetried e) ?t)"
      have "accounts_for (end_attempt src (AttemptRetried e) ?t, ps) acc"
        by (rule accounts_same [OF same]) (simp_all add: end_attempt_def)
      from new_generation [OF this] have "accounts_for (?t', ps) account_new" by (simp add: begin_attempt_usage_def)
      from accounts_same [OF this, of "reset_user_version_allocator ?t'"] step None r show ?thesis
        by (auto simp: OnError on_error_with_transaction_def accepts_def reset_user_version_allocator_def
            trx_mark_attempt_end_def)
    next
      case (Some e')
      with same step r show ?thesis
        by (auto simp: OnError on_error_with_transaction_def accepts_def trx_mark_attempt_end_def)
    qed
  next
    case Reset
    let ?t = "t\<lparr>inner := native_reset nv (inner t)\<rparr>"
    from new_generation [OF inner] have "accounts_for (begin_attempt_usage src ?t, ps) account_new"
      by (simp add: begin_attempt_usage_def)
    from accounts_same [OF this, of "trx_reset src (native_reset nv) t"] step show ?thesis
      by (auto simp: Reset trx_reset_def reset_user_version_allocator_def)
  qed
qed

lemma usage_run_accounts:
  "accounts_for x acc \<Longrightarrow> usage_run src nv cs x = Some x' \<Longrightarrow> accounts_for x' (account_run src nv cs x acc)"
proof (induction cs arbitrary: x acc)
  case (Cons c cs)
  then obtain x1 where x1: "usage_step src nv c x = Some x1" "usage_run src nv cs x1 = Some x'"
    by (auto simp: bind_eq_Some_conv)
  obtain t ps where x: "x = (t, ps)" by fastforce
  from usage_step_accounts [of t ps acc src nv c x1] Cons.prems(1) x1(1)
  have "accounts_for x1 (account_step (accepts nv t c) c acc)" by (simp add: x)
  from Cons.IH [OF this x1(2)] x1(1) show ?case by (simp add: x)
qed simp

lemma new_accounts: "accounts_for (transaction_new src w cs, Map.empty) account_new"
  by (simp add: accounts_for_def counts_def current_usage_def transaction_new_def usage_new_def usage_with_clock_def
      account_new_def own_pending_def fun_eq_iff Let_def)

section \<open>The budget\<close>

definition within :: "u64 option \<Rightarrow> nat \<Rightarrow> bool" where
  "within opt n \<longleftrightarrow> (case opt of None \<Rightarrow> True | Some l \<Rightarrow> n \<le> unat l)"

lemma over_limit_cases:
  "over_limit kind used opt = None \<longleftrightarrow> within opt (unat used)"
  "over_limit kind used opt = Some e \<longleftrightarrow> \<not> within opt (unat used) \<and>
     e = \<lparr>exceeded_kind = kind, exceeded_used = used, exceeded_limit = the opt\<rparr>"
  by (auto simp: over_limit_def within_def word_le_nat_alt word_less_nat_alt split: option.split)

definition elapsed_millis :: "('w, 'c) time_source \<Rightarrow> ('w, 'c) transaction \<Rightarrow> u64" where
  "elapsed_millis src t = as_millis_u64 (usage_elapsed src (inner t) (current_usage t))"

section \<open>Handing out user versions\<close>

fun allocate_many :: "nat \<Rightarrow> ('w, 'c) transaction \<Rightarrow> (binding_error + u16) list \<times> ('w, 'c) transaction" where
  "allocate_many 0 t = ([], t)"
| "allocate_many (Suc n) t =
     (let (r, t) = allocate_user_version t; (rs, t) = allocate_many n t in (r # rs, t))"

lemma allocate_many_from:
  assumes "unat (user_version t) = m" and "m \<le> 65536"
  shows "fst (allocate_many n t) = map (\<lambda>i. if i < 65536 then Inr (word_of_nat i) else Inl UserVersionExhausted) [m..<m + n]"
  using assms
proof (induction n arbitrary: t m)
  case (Suc n)
  have upt: "[m..<m + Suc n] = m # [Suc m..<Suc m + n]" by (simp add: upt_conv_Cons)
  show ?case
  proof (cases "m < 65536")
    case True
    let ?t = "t\<lparr>user_version := user_version t + 1\<rparr>"
    have "unat (user_version t + 1) = Suc m" using Suc.prems True by (simp add: unat_word_ariths)
    with Suc.IH [of ?t "Suc m"] True
    have rest: "fst (allocate_many n ?t) = map (\<lambda>i. if i < 65536 then Inr (word_of_nat i) else Inl UserVersionExhausted) [Suc m..<Suc m + n]"
      by simp
    have "user_version t \<le> 0xFFFF" using Suc.prems True by (simp add: word_le_nat_alt)
    moreover have "ucast (user_version t) = (word_of_nat m :: u16)" using Suc.prems(1) by (simp flip: Suc.prems(1))
    ultimately have "allocate_user_version t = (Inr (word_of_nat m), ?t)" by (simp add: allocate_user_version_def Let_def)
    with rest True show ?thesis unfolding upt by (simp add: case_prod_unfold Let_def)
  next
    case False
    then have m: "m = 65536" using Suc.prems by simp
    then have "\<not> user_version t \<le> 0xFFFF" using Suc.prems by (simp add: word_le_nat_alt)
    then have step: "allocate_user_version t = (Inl UserVersionExhausted, t)" by (simp add: allocate_user_version_def Let_def)
    have "map (\<lambda>i. if i < 65536 then Inr (word_of_nat i) else Inl UserVersionExhausted) [65536..<65536 + n] =
        map (\<lambda>i. if i < 65536 then Inr (word_of_nat i) else Inl UserVersionExhausted :: binding_error + u16) [Suc 65536..<Suc 65536 + n]"
      by (rule nth_equalityI) simp_all
    with step Suc.IH [OF Suc.prems] m show ?thesis unfolding upt by (simp add: case_prod_unfold Let_def)
  qed
qed simp

section \<open>Properties\<close>

text \<open>
  C12.  The accounting of an attempt.  After any sequence of calls, with reads that resolve in any
  order and at any time and attempts that restart in between, the counters of the transaction are
  those of the calls issued in its current attempt that have completed, modulo the width of a
  counter: what was issued in an earlier attempt never counts.
\<close>

theorem attempt_accounting:
  assumes "usage_run src nv cs (transaction_new src w cols, Map.empty) = Some (t, ps)"
  shows "counts (account_run src nv cs (transaction_new src w cols, Map.empty) account_new) (current_usage t)"
  using usage_run_accounts [OF new_accounts assms] by (simp add: accounts_for_def)

text \<open>
  C39.  The budget check is exact.  As long as the bytes of the attempt fit a counter, the check
  passes exactly when the elapsed milliseconds, the bytes read and the bytes written in the
  attempt are within the limits that are set; otherwise it reports the first limit that is
  exceeded, in that order, with what was used of it.
\<close>

theorem budget_exact:
  assumes "usage_run src nv cs (transaction_new src w cols, Map.empty) = Some (t, ps)"
    and "acc = account_run src nv cs (transaction_new src w cols, Map.empty) account_new"
    and "read_total acc < 2 ^ 64" and "written_total acc < 2 ^ 64"
  shows "check_client_budget src t =
    (if \<not> within (map_option as_millis_u64 (time_limit (trx_budget t))) (unat (elapsed_millis src t))
     then Inl \<lparr>exceeded_kind = TimeLimit, exceeded_used = elapsed_millis src t,
       exceeded_limit = as_millis_u64 (the (time_limit (trx_budget t)))\<rparr>
     else if \<not> within (max_bytes_read (trx_budget t)) (read_total acc)
     then Inl \<lparr>exceeded_kind = BytesRead, exceeded_used = word_of_nat (read_total acc),
       exceeded_limit = the (max_bytes_read (trx_budget t))\<rparr>
     else if \<not> within (max_bytes_written (trx_budget t)) (written_total acc)
     then Inl \<lparr>exceeded_kind = BytesWritten, exceeded_used = word_of_nat (written_total acc),
       exceeded_limit = the (max_bytes_written (trx_budget t))\<rparr>
     else Inr ())"
proof -
  have "counts acc (current_usage t)"
    using usage_run_accounts [OF new_accounts assms(1)] assms(2) by (simp add: accounts_for_def)
  then have u: "bytes_read (current_usage t) = word_of_nat (read_total acc)"
    "bytes_written (current_usage t) = word_of_nat (written_total acc)" by (simp_all add: counts_def)
  have "unat (word_of_nat (read_total acc) :: u64) = read_total acc"
    "unat (word_of_nat (written_total acc) :: u64) = written_total acc"
    using assms(3,4) by (simp_all add: unat_of_nat take_bit_nat_eq_self)
  moreover have "\<not> within (map_option as_millis_u64 x) n \<Longrightarrow> the (map_option as_millis_u64 x) = as_millis_u64 (the x)" for x n
    by (cases x) (simp_all add: within_def)
  ultimately show ?thesis
    by (auto simp: check_client_budget_def budget_check_def u elapsed_millis_def over_limit_cases
        split: option.split)
qed

text \<open>
  User versions.  The calls of an attempt, from zero on, hand out the 65536 user versions in order,
  each once, and fail after that.
\<close>

theorem user_versions_in_order:
  assumes "user_version t = 0"
  shows "fst (allocate_many n t) = map (\<lambda>i. if i < 65536 then Inr (word_of_nat i) else Inl UserVersionExhausted) [0..<n] \<and>
    inj_on (word_of_nat :: nat \<Rightarrow> u16) {i. i < 65536}"
proof
  show "inj_on (word_of_nat :: nat \<Rightarrow> u16) {i. i < 65536}"
    by (rule inj_on_inverseI [of _ unat]) (simp add: unat_of_nat take_bit_nat_eq_self)
qed (use allocate_many_from [of t 0 n] assms in simp)

text \<open>
  Metric keys.  When no label name occurs twice, two keys are equal exactly when they have the same
  name and the same labels in any order.
\<close>

theorem metric_key_unordered:
  assumes "distinct (map fst xs)"
  shows "metric_key_new n xs = metric_key_new m ys \<longleftrightarrow> n = m \<and> mset xs = mset ys"
proof -
  have "sort_key fst xs = sort_key fst ys \<longleftrightarrow> mset xs = mset ys"
  proof
    assume "sort_key fst xs = sort_key fst ys"
    then have "mset (sort_key fst xs) = mset (sort_key fst ys)" by simp
    then show "mset xs = mset ys" by simp
  qed (rule sort_key_perm [OF _ assms])
  then show ?thesis by (simp add: metric_key_new_def)
qed

section \<open>An example\<close>

text \<open>
  A store in memory whose clock runs with its size.  A read is issued, the attempt restarts, the
  read resolves late.
\<close>

definition example_source :: "((bytes \<times> bytes) list, unit) time_source" where
  "example_source = \<lparr>instant_now = length, custom_monotonic = \<lambda>_ s. 0\<rparr>"

definition example_native :: "(bytes \<times> bytes) list native" where
  "example_native = \<lparr>native_kv = mem_kv 0, native_atomic = \<lambda>k p s. s, native_on_error = \<lambda>e s. (None, s), native_reset = \<lambda>s. []\<rparr>"

definition example_calls :: "unit usage_call list" where
  "example_calls = [SetBudget \<lparr>time_limit = None, max_bytes_read = Some 2, max_bytes_written = Some 2, budget_clock = None\<rparr>,
     IssueRead 0 [1], CallSet [1] [2, 3], OnError (FdbError 1020), CallSet [4] [5], ResolveGet 0 (Inr (Some [6, 7]))]"

lemmas example_defs = example_source_def example_native_def example_calls_def issue_read_def fits_len_def fdb_len_def
  trx_set_def resolve_def get_resolved_def set_client_budget_def begin_attempt_with_clock_def open_metrics_attempt_def
  slot_begin_def on_error_with_transaction_def begin_attempt_usage_def end_attempt_def trx_mark_attempt_end_def
  reset_user_version_allocator_def with_metrics_def record_at_def record_set_def record_get_def current_usage_def
  usage_with_clock_def usage_new_def transaction_new_def mem_kv_def

definition example_start :: "((bytes \<times> bytes) list, unit) transaction" where
  "example_start = transaction_new example_source [] (\<lambda>_. metrics_new)"

lemma example_run:
  obtains t ps where "usage_run example_source example_native example_calls (example_start, Map.empty) = Some (t, ps)"
    "trx_budget t = \<lparr>time_limit = None, max_bytes_read = Some 2, max_bytes_written = Some 2, budget_clock = None\<rparr>"
    "account_run example_source example_native example_calls (example_start, Map.empty) account_new =
       account_new\<lparr>written_total := 2, sets := 1\<rparr>"
proof -
  have "\<exists>t ps. usage_run example_source example_native example_calls (example_start, Map.empty) = Some (t, ps) \<and>
      trx_budget t = \<lparr>time_limit = None, max_bytes_read = Some 2, max_bytes_written = Some 2, budget_clock = None\<rparr> \<and>
      account_run example_source example_native example_calls (example_start, Map.empty) account_new =
        account_new\<lparr>written_total := 2, sets := 1\<rparr>"
    by (simp add: example_defs example_start_def accepts_def account_new_def count_own_def Let_def)
  then show ?thesis using that by blast
qed

theorem attempt_accounting_witness:
  "\<exists>t ps. usage_run example_source example_native example_calls (example_start, Map.empty) = Some (t, ps) \<and>
    bytes_written (current_usage t) = 2 \<and> call_set (current_usage t) = 1 \<and> bytes_read (current_usage t) = 0"
proof (rule example_run)
  fix t ps
  assume run: "usage_run example_source example_native example_calls (example_start, Map.empty) = Some (t, ps)"
    and acc: "account_run example_source example_native example_calls (example_start, Map.empty) account_new =
       account_new\<lparr>written_total := 2, sets := 1\<rparr>"
  from attempt_accounting [OF run [unfolded example_start_def]] acc run show ?thesis
    by (auto simp: example_start_def counts_def account_new_def)
qed

theorem budget_exact_witness:
  "\<exists>t ps. usage_run example_source example_native example_calls (example_start, Map.empty) = Some (t, ps) \<and>
    check_client_budget example_source t = Inr ()"
proof (rule example_run)
  fix t ps
  assume run: "usage_run example_source example_native example_calls (example_start, Map.empty) = Some (t, ps)"
    and b: "trx_budget t = \<lparr>time_limit = None, max_bytes_read = Some 2, max_bytes_written = Some 2, budget_clock = None\<rparr>"
    and acc: "account_run example_source example_native example_calls (example_start, Map.empty) account_new =
       account_new\<lparr>written_total := 2, sets := 1\<rparr>"
  from budget_exact [OF run [unfolded example_start_def] acc [unfolded example_start_def, symmetric]] b run show ?thesis
    by (auto simp: example_start_def account_new_def within_def)
qed

theorem user_versions_in_order_witness:
  "fst (allocate_many 3 example_start) = [Inr 0, Inr 1, Inr 2]"
proof -
  have "user_version example_start = 0" by (simp add: example_start_def transaction_new_def)
  from user_versions_in_order [OF this, of 3] show ?thesis by (simp add: upt_rec)
qed

theorem metric_key_unordered_witness:
  "metric_key_new [1] [([7], [8]), ([5], [6])] = metric_key_new [1] [([5], [6]), ([7], [8])] \<and>
   metric_key_new [1] [([7], [8]), ([5], [6])] \<noteq> metric_key_new [1] [([5], [9]), ([7], [8])]"
  using metric_key_unordered [of "[([7], [8]), ([5], [6])]" "[1]" "[1]" "[([5], [6]), ([7], [8])]"]
    metric_key_unordered [of "[([7], [8]), ([5], [6])]" "[1]" "[1]" "[([5], [9]), ([7], [8])]"]
  by (simp add: add_mset_eq_single add_eq_conv_ex)

end
