(* ===== verification/Metered_Run.thy ===== *)
theory Metered_Run
  imports Transaction_Handle Retry_Properties
begin

text \<open>
  The hooks that collect the metrics of a run (\<^verbatim>\<open>MetricsHooks\<close> of \<^verbatim>\<open>runner.rs\<close>), on the
  transaction of \<^verbatim>\<open>transaction.rs\<close>: the runner, the accounting and the collector together.
\<close>

section \<open>The hooks\<close>

text \<open>
  \<open>h\<close> is the handle of the collector and \<open>start\<close> the time the hooks were made.  Reading the
  conflicting keys ends, as \<open>conflict_ranges_read\<close> shows; \<open>version_of\<close> is the native committed
  version.
\<close>

definition metrics_hooks ::
    "('w, 'c) time_source \<Rightarrow> 'w kv \<Rightarrow> ('w \<Rightarrow> fdb_error + version) \<Rightarrow> nat \<Rightarrow> nat \<Rightarrow> ('w, 'c) transaction hooks" where
  "metrics_hooks src kv version_of h start = no_hooks\<lparr>
     on_attempt_start := \<lambda>_ t. attach_metrics h t,
     on_commit_error := \<lambda>err _ t.
       let t = (if err = NOT_COMMITTED then on_collector h increment_conflict_count t else t)
       in case the (conflicting_keys kv (inner t)) of
            Inr ranges \<Rightarrow> (None, on_collector h (set_conflicting_keys (Available ranges)) t)
          | Inl read_error \<Rightarrow> (Some read_error, on_collector h (set_conflicting_keys (ReadFailed read_error)) t),
     on_error_duration := \<lambda>duration_ms _ t. on_collector h (set_on_error_duration (unat duration_ms * 1000000)) t,
     on_commit_success := \<lambda>_ _ t.
       case version_of (inner t) of Inr v \<Rightarrow> on_collector h (set_commit_version v) t | Inl _ \<Rightarrow> t,
     on_complete := \<lambda>t. on_collector h (\<lambda>m. set_total_duration (instant_now src (inner t) - start)
       (finish_attempt src (inner t) (usages t) AttemptFailed m)) t\<rparr>"

text \<open>The transaction as the client of the runner.\<close>

definition transaction_client ::
    "('w, 'c) time_source \<Rightarrow> ('w \<Rightarrow> fdb_error option \<times> 'w) \<Rightarrow> (fdb_error \<Rightarrow> 'w \<Rightarrow> fdb_error option \<times> 'w) \<Rightarrow>
     (bool \<Rightarrow> ('w, 'c) transaction \<Rightarrow> ('w, 'c) transaction) \<Rightarrow>
     (bool \<Rightarrow> ('w, 'c) transaction \<Rightarrow> ('e + 'v) \<times> bool \<times> ('w, 'c) transaction) \<Rightarrow> (fdb_error \<Rightarrow> bool) \<Rightarrow>
     ('e \<Rightarrow> retry_decision) \<Rightarrow> (binding_error \<Rightarrow> 'e) \<Rightarrow> (('w, 'c) transaction, 'v, 'e) client" where
  "transaction_client src commit retry called closure uncertain_error decision binding = \<lparr>
     call_closure = called, run_closure = closure, commit_native = trx_commit src commit,
     on_error_native = on_error_with_transaction src retry,
     is_maybe_committed = uncertain_error, retry_decision_of = decision, from_binding = binding,
     instant = \<lambda>t. instant_now src (inner t)\<rparr>"

section \<open>Calls through a shared reference\<close>

text \<open>
  What can happen to a transaction from outside: the world changes, reads resolve and record.
\<close>

inductive outside :: "('w, 'c) time_source \<Rightarrow> ('w, 'c) transaction \<Rightarrow> ('w, 'c) transaction \<Rightarrow> bool" for src where
  world: "outside src t (t\<lparr>inner := w\<rparr>)"
| recorded: "outside src t (record_at a f t)"
| read_version: "outside src t (read_version_resolved src recording result t)"

text \<open>What a closure or hook that holds \<^verbatim>\<open>&Transaction\<close> can do.\<close>

inductive shared_call :: "('w, 'c) time_source \<Rightarrow> ('w, 'c) transaction \<Rightarrow> ('w, 'c) transaction \<Rightarrow> bool" for src where
  from_outside: "outside src t t' \<Longrightarrow> shared_call src t t'"
| set_budget: "shared_call src t (set_client_budget src b t)"
| clear_budget: "shared_call src t (clear_client_budget t)"
| allocate_version: "shared_call src t (snd (allocate_user_version t))"

abbreviation outsides :: "('w, 'c) time_source \<Rightarrow> ('w, 'c) transaction \<Rightarrow> ('w, 'c) transaction \<Rightarrow> bool" where
  "outsides src \<equiv> (outside src)\<^sup>*\<^sup>*"

abbreviation shared_calls :: "('w, 'c) time_source \<Rightarrow> ('w, 'c) transaction \<Rightarrow> ('w, 'c) transaction \<Rightarrow> bool" where
  "shared_calls src \<equiv> (shared_call src)\<^sup>*\<^sup>*"

lemma calls_are_shared:
  "trx_set kv k v t = Some t' \<Longrightarrow> shared_calls src t t'"
  "trx_clear kv k t = Some t' \<Longrightarrow> shared_calls src t t'"
  "trx_clear_range kv lo hi t = Some t' \<Longrightarrow> shared_calls src t t'"
  "trx_atomic_op atomic k v t = Some t' \<Longrightarrow> shared_calls src t t'"
  "shared_calls src t (get_resolved p found t)"
  "shared_calls src t (set_custom_metric n x labels t)"
  "shared_calls src t (increment_custom_metric n x labels t)"
proof -
  have two: "shared_calls src t (record_at a f (t\<lparr>inner := w\<rparr>))" for a f w
  proof -
    have "shared_call src t (t\<lparr>inner := w\<rparr>)" by (intro shared_call.intros outside.intros)
    moreover have "shared_call src (t\<lparr>inner := w\<rparr>) (record_at a f (t\<lparr>inner := w\<rparr>))" by (intro shared_call.intros outside.intros)
    ultimately show ?thesis by simp
  qed
  have one: "shared_calls src t (record_at a f t)" for a f
    by (intro r_into_rtranclp shared_call.intros outside.intros)
  show "trx_set kv k v t = Some t' \<Longrightarrow> shared_calls src t t'" "trx_clear kv k t = Some t' \<Longrightarrow> shared_calls src t t'"
    "trx_clear_range kv lo hi t = Some t' \<Longrightarrow> shared_calls src t t'"
    "trx_atomic_op atomic k v t = Some t' \<Longrightarrow> shared_calls src t t'"
    using two by (auto simp: trx_set_def trx_clear_def trx_clear_range_def trx_atomic_op_def split: if_splits)
  show "shared_calls src t (get_resolved p found t)" "shared_calls src t (set_custom_metric n x labels t)"
    "shared_calls src t (increment_custom_metric n x labels t)"
    using one by (auto simp: get_resolved_def set_custom_metric_def increment_custom_metric_def Let_def split: sum.split option.split)
qed

text \<open>Hooks of the program: the first two see the transaction, the others do not.\<close>

definition ordinary_hooks :: "('w, 'c) time_source \<Rightarrow> ('w, 'c) transaction hooks \<Rightarrow> bool" where
  "ordinary_hooks src h \<longleftrightarrow>
     (\<forall>i t. shared_calls src t (on_attempt_start h i t)) \<and> (\<forall>i t. shared_calls src t (snd (before_commit h i t))) \<and>
     (\<forall>e i t. outsides src t (on_hook_error h e i t)) \<and> (\<forall>d i t. outsides src t (on_commit_success h d i t)) \<and>
     (\<forall>e i t. outsides src t (snd (on_commit_error h e i t))) \<and> (\<forall>e i t. outsides src t (on_closure_error h e i t)) \<and>
     (\<forall>d i t. outsides src t (on_error_duration h d i t)) \<and> (\<forall>i t. outsides src t (on_retry h i t)) \<and>
     (\<forall>t. outsides src t (on_complete h t))"

section \<open>Phases of a run\<close>

text \<open>
  A rule for runs: \<open>A\<close> holds between attempts, \<open>B\<close> in an attempt, \<open>K e\<close> right after its commit
  failed with \<open>e\<close>, \<open>D\<close> after it committed.
\<close>

definition keeps_phases ::
    "('s, 'v, 'e) client \<Rightarrow> 's hooks \<Rightarrow> ('s \<Rightarrow> bool) \<Rightarrow> ('s \<Rightarrow> bool) \<Rightarrow> (fdb_error \<Rightarrow> 's \<Rightarrow> bool) \<Rightarrow> ('s \<Rightarrow> bool) \<Rightarrow> bool" where
  "keeps_phases c h A B K D \<longleftrightarrow>
     (\<forall>f s. A s \<longrightarrow> A (call_closure c f s)) \<and>
     (\<forall>i s. A s \<longrightarrow> B (on_attempt_start h i s)) \<and>
     (\<forall>f s. B s \<longrightarrow> B (snd (snd (run_closure c f s)))) \<and>
     (\<forall>i s. B s \<longrightarrow> B (snd (before_commit h i s))) \<and> (\<forall>e i s. B s \<longrightarrow> B (on_hook_error h e i s)) \<and>
     (\<forall>s s'. B s \<longrightarrow> commit_native c s = (None, s') \<longrightarrow> D s') \<and>
     (\<forall>e s s'. B s \<longrightarrow> commit_native c s = (Some e, s') \<longrightarrow> K e s') \<and>
     (\<forall>e i s. K e s \<longrightarrow> B (snd (on_commit_error h e i s))) \<and>
     (\<forall>e i s. B s \<longrightarrow> B (on_closure_error h e i s)) \<and>
     (\<forall>e s s'. B s \<longrightarrow> on_error_native c e s = (None, s') \<longrightarrow> A s') \<and>
     (\<forall>e e' s s'. B s \<longrightarrow> on_error_native c e s = (Some e', s') \<longrightarrow> B s') \<and>
     (\<forall>d i s. A s \<longrightarrow> A (on_error_duration h d i s)) \<and> (\<forall>i s. A s \<longrightarrow> A (on_retry h i s)) \<and>
     (\<forall>d i s. D s \<longrightarrow> D (on_commit_success h d i s))"

lemma keeps_phasesD:
  assumes "keeps_phases c h A B K D"
  shows "A s \<Longrightarrow> B (on_attempt_start h i s)" "B s \<Longrightarrow> run_closure c f s = (r, k, s') \<Longrightarrow> B s'"
    "B s \<Longrightarrow> B (report_hook h i (before_commit h i s))"
    "B s \<Longrightarrow> commit_native c s = (None, s') \<Longrightarrow> D s'" "B s \<Longrightarrow> commit_native c s = (Some e, s') \<Longrightarrow> K e s'"
    "K e s \<Longrightarrow> B (report_hook h i (on_commit_error h e i s))" "B s \<Longrightarrow> B (on_closure_error h e i s)"
    "B s \<Longrightarrow> on_error_native c e s = (None, s') \<Longrightarrow> A s'"
    "B s \<Longrightarrow> on_error_native c e s = (Some e', s') \<Longrightarrow> B s'"
    "A s \<Longrightarrow> A (on_error_duration h d i s)" "A s \<Longrightarrow> A (on_retry h i s)" "D s \<Longrightarrow> D (on_commit_success h d i s)"
    "A s \<Longrightarrow> A (call_closure c f s)"
proof -
  have report: "B (snd x) \<Longrightarrow> B (report_hook h i x)" for x
    using assms by (cases x) (auto simp: keeps_phases_def report_hook_def split: option.split)
  show "B s \<Longrightarrow> B (report_hook h i (before_commit h i s))" "K e s \<Longrightarrow> B (report_hook h i (on_commit_error h e i s))"
    by (rule report, use assms in \<open>simp add: keeps_phases_def\<close>)+
  show "B s \<Longrightarrow> run_closure c f s = (r, k, s') \<Longrightarrow> B s'"
    using assms unfolding keeps_phases_def by (metis snd_conv)
qed (use assms in \<open>simp_all add: keeps_phases_def\<close>)

definition phase_after :: "('s \<Rightarrow> bool) \<Rightarrow> ('s \<Rightarrow> bool) \<Rightarrow> 'e + 'v \<Rightarrow> 's \<Rightarrow> bool" where
  "phase_after B D r s \<longleftrightarrow> (case r of Inl _ \<Rightarrow> B s | Inr _ \<Rightarrow> D s)"

lemma turn_phases:
  assumes keeps: "keeps_phases c h A B K D" and "A s" and turn: "retry_turn c h policy i f s = (t, s')"
  shows "case t of Return r \<Rightarrow> phase_after B D r s' | Again _ \<Rightarrow> A s'"
proof -
  note D = keeps_phasesD [OF keeps]
  have error: "case t of Return r \<Rightarrow> phase_after B D r s' | Again _ \<Rightarrow> A s'"
    if "B s1" "turn_on_error c h i mc refused now (on_error_native c e s1) = (t, s')" for mc refused now e s1
  proof (cases "on_error_native c e s1")
    case (Pair r s2)
    with that D(8,9) [OF that(1), of e] D(10,11) show ?thesis
      by (cases r) (auto simp: turn_on_error_def phase_after_def)
  qed
  obtain a s1 where a: "run_attempt c h f i (call_closure c f s) = (a, s1)" by fastforce
  obtain r k s2 where cl: "run_closure c f (on_attempt_start h i (call_closure c f s)) = (r, k, s2)" by (metis prod_cases3)
  have s2: "B s2" by (rule D(2) [OF D(1) [OF D(13) [OF \<open>A s\<close>]] cl])
  show ?thesis
  proof (cases r)
    case (Inl err)
    with a cl have a': "a = ClosureFailed \<lparr>rt_shared = k\<rparr> err" "s1 = s2" by (simp_all add: run_attempt_def)
    have closure: "closure_failed c h policy i f \<lparr>rt_shared = k\<rparr> err s2 = (t, s')"
      using turn a a' by (simp add: retry_turn_def)
    show ?thesis
    proof (cases "decided (policy (ClosureFailure err) (retry_decision_of c err) i)")
      case None
      with closure s2 show ?thesis by (auto simp: closure_failed_alt phase_after_def)
    next
      case (Some e)
      have b: "B (on_closure_error h e i s2)" by (rule D(7) [OF s2])
      show ?thesis
      proof (cases k)
        case True
        with closure Some b show ?thesis
          by (auto simp: closure_failed_alt phase_after_def retryable_on_error_def retryable_take_def)
      next
        case False
        with closure Some
        have "turn_on_error c h i (f \<or> uncertain c (retry_decision_of c err)) (\<lambda>_. err)
            (instant c (on_closure_error h e i s2)) (on_error_native c e (on_closure_error h e i s2)) = (t, s')"
          by (auto simp: closure_failed_alt retryable_on_error_def retryable_take_def case_prod_unfold Let_def)
        from error [OF b this] show ?thesis .
      qed
    qed
  next
    case (Inr v)
    let ?s = "report_hook h i (before_commit h i s2)"
    have b: "B ?s" by (rule D(3) [OF s2])
    show ?thesis
    proof (cases k)
      case True
      with a cl Inr have "a = BindingFailed ReferenceToTransactionKept" "s1 = ?s"
        by (auto simp: run_attempt_def retryable_commit_def retryable_take_def)
      with turn a b show ?thesis by (auto simp: retry_turn_def phase_after_def)
    next
      case False
      obtain x s3 where commit: "commit_native c ?s = (x, s3)" by fastforce
      show ?thesis
      proof (cases x)
        case None
        with a cl Inr False commit have "\<exists>d. a = Committed v d" "s1 = s3"
          by (auto simp: run_attempt_def retryable_commit_def retryable_take_def)
        with turn a D(12) [OF D(4) [OF b commit [unfolded None]]] show ?thesis
          by (auto simp: retry_turn_def phase_after_def)
      next
        case (Some e)
        with a cl Inr False commit have "a = CommitFailed e" "s1 = s3"
          by (auto simp: run_attempt_def retryable_commit_def retryable_take_def)
        with turn a have failed: "commit_failed c h policy i f e s3 = (t, s')" by (simp add: retry_turn_def)
        have b: "B (report_hook h i (on_commit_error h e i s3))" by (rule D(6) [OF D(5) [OF b commit [unfolded Some]]])
        show ?thesis
        proof (cases "decided (policy (CommitFailure e) (Fdb e) i)")
          case None
          with failed b show ?thesis by (auto simp: commit_failed_def phase_after_def)
        next
          case (Some e')
          with failed error [OF b] show ?thesis by (simp add: commit_failed_def Let_def)
        qed
      qed
    qed
  qed
qed

lemma run_phases:
  assumes keeps: "keeps_phases c h A B K D" and "A s" and "retry_loop n c h policy i f s = Some (r, s')"
  shows "phase_after B D r s'"
  using assms(2,3)
proof (induction n arbitrary: i f s)
  case (Suc n)
  obtain t s1 where t: "retry_turn c h policy i f s = (t, s1)" by fastforce
  from turn_phases [OF keeps Suc.prems(1) t] Suc t show ?case by (cases t) auto
qed simp

section \<open>What the collector counts\<close>

text \<open>The outcomes of the attempts that a log shows, and the commits that conflicted.\<close>

definition ended_by :: "run_event \<Rightarrow> attempt_outcome list" where
  "ended_by ev = (case ev of OnErrorRan e None \<Rightarrow> [AttemptRetried e] | CommitRan None \<Rightarrow> [AttemptCommitted] | _ \<Rightarrow> [])"

definition outcomes :: "run_event list \<Rightarrow> attempt_outcome list" where
  "outcomes evs = concat (map ended_by evs)"

definition conflicts :: "run_event list \<Rightarrow> nat" where
  "conflicts evs = count_list evs (CommitRan (Some NOT_COMMITTED))"

definition is_retried :: "attempt_outcome \<Rightarrow> bool" where
  "is_retried oc \<longleftrightarrow> (case oc of AttemptRetried _ \<Rightarrow> True | _ \<Rightarrow> False)"

text \<open>What is compared of a collector, and what a recording transaction is.\<close>

definition core :: "nat \<Rightarrow> ('w, 'c) transaction \<Rightarrow> attempt_metrics list \<times> u64 \<times> u64" where
  "core h t = (report_attempts (metrics_data (collectors t h)),
     info_retries (report_transaction (metrics_data (collectors t h))),
     conflict_count (report_transaction (metrics_data (collectors t h))))"

definition recording :: "nat \<Rightarrow> ('w, 'c) transaction \<Rightarrow> bool" where
  "recording h t \<longleftrightarrow> metrics_handle t = Some h \<and> open_usage (open_scratch (collectors t h)) = Some (usage_slot t)"

definition tallied :: "nat \<Rightarrow> u64 \<Rightarrow> ('w, 'c) transaction logged \<Rightarrow> bool" where
  "tallied h k x \<longleftrightarrow> (case core h (fst x) of (attempts, retries, conflicted) \<Rightarrow>
     map am_outcome attempts = outcomes (snd x) \<and> map am_index attempts = [0..<length attempts] \<and>
     retries = word_of_nat (length (filter is_retried (outcomes (snd x)))) \<and>
     conflicted + k = word_of_nat (conflicts (snd x)))"

definition phase_A :: "nat \<Rightarrow> ('w, 'c) transaction logged \<Rightarrow> bool" where
  "phase_A h x \<longleftrightarrow> tallied h 0 x \<and> (metrics_handle (fst x) = None \<or> recording h (fst x))"

definition phase_B :: "nat \<Rightarrow> ('w, 'c) transaction logged \<Rightarrow> bool" where
  "phase_B h x \<longleftrightarrow> tallied h 0 x \<and> recording h (fst x)"

definition phase_K :: "nat \<Rightarrow> fdb_error \<Rightarrow> ('w, 'c) transaction logged \<Rightarrow> bool" where
  "phase_K h e x \<longleftrightarrow> tallied h (if e = NOT_COMMITTED then 1 else 0) x \<and> recording h (fst x)"

definition phase_D :: "nat \<Rightarrow> ('w, 'c) transaction logged \<Rightarrow> bool" where
  "phase_D h x \<longleftrightarrow> tallied h 0 x \<and> metrics_handle (fst x) = Some h \<and>
     open_usage (open_scratch (collectors (fst x) h)) = None"

lemmas phase_defs = phase_A_def phase_B_def phase_K_def phase_D_def

lemma record_grv_core [simp]:
  "report_attempts (metrics_data (record_grv a d ver m)) = report_attempts (metrics_data m)"
  "info_retries (report_transaction (metrics_data (record_grv a d ver m))) = info_retries (report_transaction (metrics_data m))"
  "conflict_count (report_transaction (metrics_data (record_grv a d ver m))) = conflict_count (report_transaction (metrics_data m))"
  "open_usage (open_scratch (record_grv a d ver m)) = open_usage (open_scratch m)"
  by (auto simp: record_grv_def on_open_def on_info_def Let_def split: option.split)

lemma begin_attempt_core [simp]:
  "report_attempts (metrics_data (begin_attempt a m)) = report_attempts (metrics_data m)"
  "info_retries (report_transaction (metrics_data (begin_attempt a m))) = info_retries (report_transaction (metrics_data m))"
  "conflict_count (report_transaction (metrics_data (begin_attempt a m))) = conflict_count (report_transaction (metrics_data m))"
  "open_usage (open_scratch (begin_attempt a m)) = Some a"
  by (simp_all add: begin_attempt_def on_open_def)

lemma outsides_same:
  assumes "outsides src t t'"
  shows "core h t' = core h t" "metrics_handle t' = metrics_handle t" "usage_slot t' = usage_slot t"
    "open_usage (open_scratch (collectors t' h)) = open_usage (open_scratch (collectors t h))"
proof -
  have "core h t' = core h t \<and> metrics_handle t' = metrics_handle t \<and> usage_slot t' = usage_slot t \<and>
      open_usage (open_scratch (collectors t' h)) = open_usage (open_scratch (collectors t h))"
    using assms
  proof (induction rule: rtranclp_induct)
    case (step y z)
    from step(2) have "core h z = core h y \<and> metrics_handle z = metrics_handle y \<and> usage_slot z = usage_slot y \<and>
        open_usage (open_scratch (collectors z h)) = open_usage (open_scratch (collectors y h))"
      by cases (auto simp: core_def record_at_def read_version_resolved_def on_collector_def split: option.split prod.split)
    with step(3) show ?case by simp
  qed simp
  then show "core h t' = core h t" "metrics_handle t' = metrics_handle t" "usage_slot t' = usage_slot t"
    "open_usage (open_scratch (collectors t' h)) = open_usage (open_scratch (collectors t h))" by blast+
qed

lemma outsides_recording: "outsides src t t' \<Longrightarrow> recording h t' \<longleftrightarrow> recording h t"
  using outsides_same(2,3) [of src t t'] outsides_same(4) [of src t t' h] by (simp add: recording_def)

lemma begin_with_clock_core:
  "core h (begin_attempt_with_clock src clk t) = core h t"
  "metrics_handle (begin_attempt_with_clock src clk t) = metrics_handle t"
  "metrics_handle t = Some h \<Longrightarrow> recording h (begin_attempt_with_clock src clk t)"
  by (auto simp: begin_attempt_with_clock_def open_metrics_attempt_def slot_begin_def with_metrics_def
      on_collector_def core_def recording_def split: option.split)

lemma shared_same:
  assumes "shared_calls src t t'"
  shows "core h t' = core h t" "metrics_handle t' = metrics_handle t" "recording h t \<Longrightarrow> recording h t'"
proof -
  have "core h t' = core h t \<and> metrics_handle t' = metrics_handle t \<and> (recording h t \<longrightarrow> recording h t')"
    using assms
  proof (induction rule: rtranclp_induct)
    case (step y z)
    from step(2) have "core h z = core h y \<and> metrics_handle z = metrics_handle y \<and> (recording h y \<longrightarrow> recording h z)"
    proof cases
      case from_outside
      then have "outsides src y z" by blast
      from outsides_same(2,3) [OF this] outsides_same(1,4) [OF this, of h] show ?thesis by (simp add: recording_def)
    next
      case (set_budget b)
      have "core h (y\<lparr>trx_budget := b\<rparr>) = core h y" by (simp add: core_def)
      with begin_with_clock_core(1,3) [where h = h and src = src and clk = "budget_clock b" and t = "y\<lparr>trx_budget := b\<rparr>"]
        begin_with_clock_core(2) [where src = src and clk = "budget_clock b" and t = "y\<lparr>trx_budget := b\<rparr>"] show ?thesis
        by (auto simp: set_budget set_client_budget_def recording_def)
    next
      case clear_budget
      then show ?thesis by (simp add: clear_client_budget_def core_def recording_def)
    next
      case allocate_version
      then show ?thesis by (auto simp: allocate_user_version_def core_def recording_def Let_def)
    qed
    with step(3) show ?case by simp
  qed simp
  then show "core h t' = core h t" "metrics_handle t' = metrics_handle t" "recording h t \<Longrightarrow> recording h t'" by blast+
qed

text \<open>Events that end no attempt leave the tally as it is.\<close>

lemma tallied_quiet:
  assumes "tallied h k (t, l)" and "core h t' = core h t" and "ended_by ev = []" and "ev \<noteq> CommitRan (Some NOT_COMMITTED)"
  shows "tallied h k (t', l @ [ev])"
  using assms by (simp add: tallied_def outcomes_def conflicts_def)

lemma outcomes_snoc: "outcomes (l @ [ev]) = outcomes l @ ended_by ev" "conflicts (l @ [ev]) =
    conflicts l + (if ev = CommitRan (Some NOT_COMMITTED) then 1 else 0)"
  by (simp_all add: outcomes_def conflicts_def)

lemma attach_starts:
  assumes "phase_A h (t, l)"
  shows "core h (attach_metrics h t) = core h t" "recording h (attach_metrics h t)"
proof -
  show "core h (attach_metrics h t) = core h t"
    by (simp add: attach_metrics_def open_metrics_attempt_def with_metrics_def on_collector_def core_def split: option.split)
  show "recording h (attach_metrics h t)"
    using assms by (auto simp: attach_metrics_def open_metrics_attempt_def with_metrics_def on_collector_def recording_def phase_A_def)
qed

text \<open>Ending an attempt pushes one entry.\<close>

lemma finish_attempt_core:
  assumes "open_usage (open_scratch m) = Some a"
  shows "map am_outcome (report_attempts (metrics_data (finish_attempt src w us oc m))) =
      map am_outcome (report_attempts (metrics_data m)) @ [oc]"
    "map am_index (report_attempts (metrics_data m)) = [0..<length (report_attempts (metrics_data m))] \<Longrightarrow>
      map am_index (report_attempts (metrics_data (finish_attempt src w us oc m))) =
        [0..<length (report_attempts (metrics_data (finish_attempt src w us oc m)))]"
    "info_retries (report_transaction (metrics_data (finish_attempt src w us oc m))) =
      info_retries (report_transaction (metrics_data m)) + (if is_retried oc then 1 else 0)"
    "conflict_count (report_transaction (metrics_data (finish_attempt src w us oc m))) =
      conflict_count (report_transaction (metrics_data m))"
    "open_usage (open_scratch (finish_attempt src w us oc m)) = None"
  using assms
  by (cases oc; simp add: finish_attempt_def on_info_def is_retried_def open_default_def Let_def)+

lemma finished_tally:
  assumes "tallied h 0 (t, l)" and "recording h t" and "outcomes l' = outcomes l @ [oc]" and "conflicts l' = conflicts l"
    and "collectors t' h = finish_attempt src w us oc (collectors t h)"
  shows "tallied h 0 (t', l')"
proof -
  obtain a where "open_usage (open_scratch (collectors t h)) = Some a" using assms(2) by (simp add: recording_def)
  note f = finish_attempt_core [OF this, of src w us oc]
  show ?thesis
    using assms(1,3,4) f unfolding tallied_def core_def assms(5) fst_conv snd_conv prod.case by (auto simp: is_retried_def)
qed

lemma frozen_core:
  "core h (with_metrics (mark_attempt_end el) t) = core h t" "core h (with_metrics (record_commit el d) t) = core h t"
  "recording h (with_metrics (mark_attempt_end el) t) = recording h t"
  "recording h (with_metrics (record_commit el d) t) = recording h t"
  by (auto simp: with_metrics_def on_collector_def core_def recording_def mark_attempt_end_def record_commit_def
      on_open_def freeze_duration_def split: option.split)

lemma commit_phases:
  assumes "phase_B h (t, l)" and commit: "trx_commit src commit t = (r, t')"
  shows "r = None \<Longrightarrow> phase_D h (t', l @ [CommitRan r])" "r = Some e \<Longrightarrow> phase_K h e (t', l @ [CommitRan r])"
proof -
  obtain r' w where native: "commit (inner t) = (r', w)" by fastforce
  let ?t = "t\<lparr>inner := w\<rparr>"
  let ?c = "with_metrics (record_commit (elapsed_at src ?t) (instant_now src w - instant_now src (inner t))) ?t"
  have same: "core h ?c = core h t" "recording h ?c"
    using assms(1) frozen_core(2,4) [of h _ _ ?t] by (simp_all add: phase_B_def) (simp_all add: core_def recording_def)
  have tally: "tallied h 0 (t, l)" using assms(1) by (simp add: phase_B_def)
  show "phase_D h (t', l @ [CommitRan r])" if "r = None"
  proof -
    have t': "t' = end_attempt src AttemptCommitted ?c" using commit that native
      by (auto simp: trx_commit_def Let_def split: option.splits)
    have coll: "collectors t' h = finish_attempt src (inner ?c) (usages ?c) AttemptCommitted (collectors ?c h)"
      "metrics_handle t' = Some h"
      using same(2) by (simp_all add: t' end_attempt_def with_metrics_def on_collector_def recording_def)
    have "tallied h 0 (?c, l)" using tally same(1) by (simp add: tallied_def)
    from finished_tally [OF this same(2) _ _ coll(1), of "l @ [CommitRan r]"]
    have "tallied h 0 (t', l @ [CommitRan r])" by (simp add: outcomes_snoc ended_by_def that)
    moreover obtain a where "open_usage (open_scratch (collectors ?c h)) = Some a" using same(2) by (simp add: recording_def)
    ultimately show ?thesis using coll finish_attempt_core(5) by (simp add: phase_D_def)
  qed
  show "phase_K h e (t', l @ [CommitRan r])" if "r = Some e"
  proof -
    have t': "t' = ?c" using commit that native by (auto simp: trx_commit_def Let_def split: option.splits)
    show ?thesis
      using tally same that
      by (auto simp: phase_K_def t' tallied_def outcomes_snoc ended_by_def)
  qed
qed

lemma on_error_phases:
  assumes "phase_B h (t, l)" and retry: "on_error_with_transaction src retry e t = (r, t')"
  shows "r = None \<Longrightarrow> phase_A h (t', l @ [OnErrorRan e r])" "r = Some e' \<Longrightarrow> phase_B h (t', l @ [OnErrorRan e r])"
proof -
  let ?m = "trx_mark_attempt_end src t"
  obtain r' w where native: "retry e (inner ?m) = (r', w)" by fastforce
  let ?t = "?m\<lparr>inner := w\<rparr>"
  have same: "core h ?t = core h t" "recording h ?t"
    using assms(1) frozen_core(1,3) [of h _ t] by (simp_all add: phase_B_def trx_mark_attempt_end_def) (simp_all add: core_def recording_def)
  have tally: "tallied h 0 (t, l)" using assms(1) by (simp add: phase_B_def)
  show "phase_A h (t', l @ [OnErrorRan e r])" if "r = None"
  proof -
    let ?e = "end_attempt src (AttemptRetried e) ?t"
    have t': "t' = reset_user_version_allocator (begin_attempt_usage src ?e)"
      using retry that native by (auto simp: on_error_with_transaction_def Let_def split: option.splits)
    have coll: "collectors ?e h = finish_attempt src (inner ?t) (usages ?t) (AttemptRetried e) (collectors ?t h)"
      "metrics_handle ?e = Some h"
      using same(2) by (simp_all add: end_attempt_def with_metrics_def on_collector_def recording_def)
    have "tallied h 0 (?t, l)" using tally same(1) by (simp add: tallied_def)
    from finished_tally [OF this same(2) _ _ coll(1), of "l @ [OnErrorRan e r]"]
    have "tallied h 0 (?e, l @ [OnErrorRan e r])" by (simp add: outcomes_snoc ended_by_def that)
    moreover have "core h t' = core h ?e" "recording h t'"
      using begin_with_clock_core(1,3) [where h = h and src = src and clk = "budget_clock (trx_budget ?e)" and t = ?e] coll(2)
      by (simp_all add: t' begin_attempt_usage_def reset_user_version_allocator_def)
        (simp_all add: core_def recording_def)
    ultimately show ?thesis by (simp add: phase_A_def tallied_def)
  qed
  show "phase_B h (t', l @ [OnErrorRan e r])" if "r = Some e'"
  proof -
    have t': "t' = ?t" using retry that native by (auto simp: on_error_with_transaction_def Let_def split: option.splits)
    show ?thesis using tally same that by (simp add: phase_B_def t' tallied_def outcomes_snoc ended_by_def)
  qed
qed

section \<open>Runs with the metrics hooks\<close>

lemma shared_phase_B:
  assumes "phase_B h (t, l)" and "shared_calls src t t'" and "ended_by ev = []" and "ev \<noteq> CommitRan (Some NOT_COMMITTED)"
  shows "phase_B h (t', l @ [ev])"
  using assms tallied_quiet [OF _ shared_same(1) [OF assms(2)] assms(3,4)] shared_same(3) [OF assms(2)]
  by (simp add: phase_B_def)

lemma shared_phase_A:
  assumes "phase_A h (t, l)" and "shared_calls src t t'" and "ended_by ev = []" and "ev \<noteq> CommitRan (Some NOT_COMMITTED)"
  shows "phase_A h (t', l @ [ev])"
  using assms tallied_quiet [OF _ shared_same(1) [OF assms(2)] assms(3,4)] shared_same(2,3) [OF assms(2)]
  by (auto simp: phase_A_def)

lemma outside_phases:
  assumes "outsides src t t'" and "ended_by ev = []" and "ev \<noteq> CommitRan (Some NOT_COMMITTED)"
  shows "phase_A h (t, l) \<Longrightarrow> phase_A h (t', l @ [ev])" "phase_B h (t, l) \<Longrightarrow> phase_B h (t', l @ [ev])"
    "phase_D h (t, l) \<Longrightarrow> phase_D h (t', l @ [ev])"
  using tallied_quiet [OF _ outsides_same(1) [OF assms(1)] assms(2,3)] outsides_same(2,3) [OF assms(1)]
    outsides_same(4) [OF assms(1), of h] outsides_recording [OF assms(1), of h]
  by (simp_all add: phase_defs)

text \<open>A change of the collector that leaves its core alone.\<close>

lemma collector_phases:
  assumes "core h (on_collector h f t) = core h t"
    and "open_usage (open_scratch (f (collectors t h))) = open_usage (open_scratch (collectors t h))"
  shows "phase_A h (t, l) \<Longrightarrow> phase_A h (on_collector h f t, l)" "phase_B h (t, l) \<Longrightarrow> phase_B h (on_collector h f t, l)"
    "phase_D h (t, l) \<Longrightarrow> phase_D h (on_collector h f t, l)"
  using assms by (auto simp: phase_defs tallied_def recording_def on_collector_def)

lemma map_butlast_last: "xs \<noteq> [] \<Longrightarrow> map f (butlast xs) @ [f (last xs)] = map f xs"
  by (induction xs rule: rev_induct) simp_all

text \<open>The duration of \<open>on_error\<close> changes no outcome and no index.\<close>

lemma on_error_duration_tallied:
  "tallied h k (on_collector h (set_on_error_duration d) t, l) = tallied h k (t, l)"
  "recording h (on_collector h (set_on_error_duration d) t) = recording h t"
  "metrics_handle (on_collector h (set_on_error_duration d) t) = metrics_handle t"
proof -
  show "tallied h k (on_collector h (set_on_error_duration d) t, l) = tallied h k (t, l)"
    by (auto simp: map_butlast_last tallied_def core_def on_collector_def set_on_error_duration_def Let_def)
  show "recording h (on_collector h (set_on_error_duration d) t) = recording h t"
    "metrics_handle (on_collector h (set_on_error_duration d) t) = metrics_handle t"
    by (simp_all add: recording_def on_collector_def set_on_error_duration_def Let_def)
qed

text \<open>The conflict is counted by the hook that follows the failed commit.\<close>

lemma conflict_counted:
  assumes "phase_K h e (t, l)"
  shows "phase_B h (snd (on_commit_error (metrics_hooks src kv version_of h start) e i t), l)"
proof -
  let ?t = "if e = NOT_COMMITTED then on_collector h increment_conflict_count t else t"
  have "phase_B h (?t, l)"
    using assms by (auto simp: phase_K_def phase_B_def tallied_def core_def recording_def on_collector_def
        increment_conflict_count_def on_info_def)
  moreover have "phase_B h (?t, l) \<Longrightarrow> phase_B h (on_collector h (set_conflicting_keys ks) ?t, l)" for ks
    by (rule collector_phases(2)) (simp_all add: core_def on_collector_def set_conflicting_keys_def on_open_def)
  ultimately show ?thesis
    unfolding metrics_hooks_def Let_def by (cases "the (conflicting_keys kv (inner ?t))") simp_all
qed

lemma ended_by_quiet [simp]:
  "ended_by (ClosureCalled f) = []" "ended_by (AttemptStart i) = []" "ended_by (ClosureRan f d) = []" "ended_by (BeforeCommit i) = []"
  "ended_by (HookError e i) = []" "ended_by (CommitSuccess i) = []" "ended_by (CommitErrorSeen e i) = []"
  "ended_by (ClosureErrorSeen e i) = []" "ended_by (ErrorDuration i) = []" "ended_by (Retried i) = []"
  "ended_by Completed = []"
  by (simp_all add: ended_by_def)

lemma metrics_hooks_sel:
  "on_attempt_start (metrics_hooks src kv version_of h start) i t = attach_metrics h t"
  "before_commit (metrics_hooks src kv version_of h start) i t = (None, t)"
  "on_hook_error (metrics_hooks src kv version_of h start) e i t = t"
  "on_closure_error (metrics_hooks src kv version_of h start) e i t = t"
  "on_error_duration (metrics_hooks src kv version_of h start) d i t =
     on_collector h (set_on_error_duration (unat d * 1000000)) t"
  "on_retry (metrics_hooks src kv version_of h start) i t = t"
  by (simp_all add: metrics_hooks_def no_hooks_def)

lemma pair_hooks_sel:
  "on_attempt_start (pair_hooks a b) i s = on_attempt_start b i (on_attempt_start a i s)"
  "before_commit (pair_hooks a b) i = and_hooks (before_commit a i) (before_commit b i)"
  "on_hook_error (pair_hooks a b) e i s = on_hook_error b e i (on_hook_error a e i s)"
  "on_commit_success (pair_hooks a b) d i s = on_commit_success b d i (on_commit_success a d i s)"
  "on_commit_error (pair_hooks a b) e i = and_hooks (on_commit_error a e i) (on_commit_error b e i)"
  "on_closure_error (pair_hooks a b) e i s = on_closure_error b e i (on_closure_error a e i s)"
  "on_error_duration (pair_hooks a b) d i s = on_error_duration b d i (on_error_duration a d i s)"
  "on_retry (pair_hooks a b) i s = on_retry b i (on_retry a i s)"
  "on_complete (pair_hooks a b) s = on_complete b (on_complete a s)"
  by (simp_all add: pair_hooks_def)

lemma snd_and_hooks: "snd (and_hooks f g s) = snd (g (snd (f s)))"
  by (simp add: and_hooks_def case_prod_unfold Let_def)

lemma ordinary_hooksD:
  assumes "ordinary_hooks src h"
  shows "shared_calls src t (on_attempt_start h i t)" "shared_calls src t (snd (before_commit h i t))"
    "outsides src t (on_hook_error h e i t)" "outsides src t (on_commit_success h d i t)"
    "outsides src t (snd (on_commit_error h e i t))" "outsides src t (on_closure_error h e i t)"
    "outsides src t (on_error_duration h d i t)" "outsides src t (on_retry h i t)" "outsides src t (on_complete h t)"
  using assms by (simp_all add: ordinary_hooks_def)

lemma metered_phases:
  fixes closure :: "bool \<Rightarrow> ('w, 'c) transaction \<Rightarrow> ('e + 'v) \<times> bool \<times> ('w, 'c) transaction"
  assumes called: "\<And>b t. shared_calls src t (called b t)"
    and closure: "\<And>b t. shared_calls src t (snd (snd (closure b t)))" and other: "ordinary_hooks src other"
  shows "keeps_phases (logged_client (transaction_client src commit retry called closure ue dec bnd))
    (logged_hooks (pair_hooks (metrics_hooks src kv version_of h start) other))
    (phase_A h) (phase_B h) (phase_K h) (phase_D h)"
proof -
  let ?c = "transaction_client src commit retry called closure ue dec bnd"
  let ?h = "pair_hooks (metrics_hooks src kv version_of h start) other"
  note ord = ordinary_hooksD [OF other]
  have s1: "phase_B h (on_attempt_start (logged_hooks ?h) i (t, l))" if "phase_A h (t, l)" for i t l
  proof -
    have "phase_B h (attach_metrics h t, l)" using that attach_starts [OF that] by (simp add: phase_defs tallied_def)
    from shared_phase_B [OF this ord(1)] show ?thesis by (simp add: logged_hooks_def pair_hooks_sel metrics_hooks_sel)
  qed
  have s0: "phase_A h (call_closure (logged_client ?c) f (t, l))" if "phase_A h (t, l)" for f t l
    using shared_phase_A [OF that called] by (simp add: logged_client_def transaction_client_def)
  have s2: "phase_B h (snd (snd (run_closure (logged_client ?c) f (t, l))))" if "phase_B h (t, l)" for f t l
  proof -
    obtain r k t' where cl: "closure f t = (r, k, t')" by (metis prod_cases3)
    with closure [of t f] have "shared_calls src t t'" by simp
    from shared_phase_B [OF that this] cl show ?thesis by (simp add: logged_client_def transaction_client_def)
  qed
  have s3: "phase_B h (snd (before_commit (logged_hooks ?h) i (t, l)))" if "phase_B h (t, l)" for i t l
    using shared_phase_B [OF that ord(2)]
    by (simp add: logged_hooks_def pair_hooks_sel case_prod_unfold Let_def snd_and_hooks metrics_hooks_sel)
  have s4: "phase_B h (on_hook_error (logged_hooks ?h) e i (t, l))" if "phase_B h (t, l)" for e i t l
    using outside_phases(2) [OF ord(3) _ _ that] by (simp add: logged_hooks_def pair_hooks_sel metrics_hooks_sel)
  have s5: "phase_D h x'" if "phase_B h (t, l)" "commit_native (logged_client ?c) (t, l) = (None, x')" for t l x'
    using that commit_phases(1) [OF that(1) surjective_pairing]
    by (auto simp: logged_client_def transaction_client_def case_prod_unfold Let_def)
  have s6: "phase_K h e x'" if "phase_B h (t, l)" "commit_native (logged_client ?c) (t, l) = (Some e, x')" for t l x' e
    using that commit_phases(2) [OF that(1) surjective_pairing]
    by (auto simp: logged_client_def transaction_client_def case_prod_unfold Let_def)
  have s7: "phase_B h (snd (on_commit_error (logged_hooks ?h) e i (t, l)))" if "phase_K h e (t, l)" for e i t l
    using outside_phases(2) [OF ord(5) _ _ conflict_counted [OF that]]
    by (simp add: logged_hooks_def pair_hooks_sel case_prod_unfold Let_def snd_and_hooks)
  have s8: "phase_B h (on_closure_error (logged_hooks ?h) e i (t, l))" if "phase_B h (t, l)" for e i t l
    using outside_phases(2) [OF ord(6) _ _ that] by (simp add: logged_hooks_def pair_hooks_sel metrics_hooks_sel)
  have s9: "phase_A h x'" if "phase_B h (t, l)" "on_error_native (logged_client ?c) e (t, l) = (None, x')" for t l e x'
    using that on_error_phases(1) [OF that(1) surjective_pairing]
    by (auto simp: logged_client_def transaction_client_def case_prod_unfold Let_def)
  have s10: "phase_B h x'" if "phase_B h (t, l)" "on_error_native (logged_client ?c) e (t, l) = (Some e', x')" for t l e e' x'
    using that on_error_phases(2) [OF that(1) surjective_pairing]
    by (auto simp: logged_client_def transaction_client_def case_prod_unfold Let_def)
  have s11: "phase_A h (on_error_duration (logged_hooks ?h) d i (t, l))" if "phase_A h (t, l)" for d i t l
  proof -
    have "phase_A h (on_collector h (set_on_error_duration (unat d * 1000000)) t, l)"
      using that by (simp add: phase_A_def on_error_duration_tallied)
    from outside_phases(1) [OF ord(7) _ _ this] show ?thesis by (simp add: logged_hooks_def pair_hooks_sel metrics_hooks_sel)
  qed
  have s12: "phase_A h (on_retry (logged_hooks ?h) i (t, l))" if "phase_A h (t, l)" for i t l
    using outside_phases(1) [OF ord(8) _ _ that] by (simp add: logged_hooks_def pair_hooks_sel metrics_hooks_sel)
  have s13: "phase_D h (on_commit_success (logged_hooks ?h) d i (t, l))" if "phase_D h (t, l)" for d i t l
  proof -
    have "phase_D h (on_collector h (set_commit_version v) t, l)" for v
      using that by (rule collector_phases(3) [rotated -1]) (simp_all add: core_def on_collector_def set_commit_version_def on_info_def)
    with that have "phase_D h (on_commit_success (metrics_hooks src kv version_of h start) d i t, l)"
      by (simp add: metrics_hooks_def split: sum.split)
    from outside_phases(3) [OF ord(4) _ _ this] show ?thesis by (simp add: logged_hooks_def pair_hooks_sel)
  qed
  show ?thesis
    unfolding keeps_phases_def split_paired_All
    by (intro conjI allI impI; erule s0 s1 s2 s3 s4 s5 s6 s7 s8 s9 s10 s11 s12 s13; assumption?)
qed

lemma outcomes_simps [simp]: "outcomes [] = []" "outcomes (ev # evs) = ended_by ev @ outcomes evs"
  "outcomes (xs @ ys) = outcomes xs @ outcomes ys"
  by (simp_all add: outcomes_def)

lemma hook_errors_outcomes: "hook_errors i l \<Longrightarrow> outcomes l = [] \<and> closure_runs l = 0"
  by (auto simp: hook_errors_def closure_runs_def)

lemma attempt_outcomes:
  "retried_attempt c i f evs f' \<Longrightarrow> \<exists>e. outcomes evs = [AttemptRetried e] \<and> closure_runs evs = 1"
  "last_attempt c i f evs r \<Longrightarrow>
     outcomes evs = (case r of Inr _ \<Rightarrow> [AttemptCommitted] | Inl _ \<Rightarrow> []) \<and> closure_runs evs = 1"
  by (erule retried_attempt.cases last_attempt.cases;
      auto simp: hook_errors_outcomes ended_by_def closure_runs_def dest!: hook_errors_outcomes)+

lemma protocol_outcomes:
  "protocol c i f evs r \<Longrightarrow> \<exists>es. outcomes evs = map AttemptRetried es @ (case r of Inr _ \<Rightarrow> [AttemptCommitted] | Inl _ \<Rightarrow> []) \<and>
     closure_runs evs = length es + 1"
proof (induction rule: protocol.induct)
  case (last_turn i f evs r)
  from attempt_outcomes(2) [OF this] show ?case by (intro exI [of _ "[]"]) simp
next
  case (next_turn i f evs f' evs' r)
  from next_turn.IH obtain es where "outcomes evs' = map AttemptRetried es @ (case r of Inr _ \<Rightarrow> [AttemptCommitted] | Inl _ \<Rightarrow> [])"
    "closure_runs evs' = length es + 1" by blast
  moreover from attempt_outcomes(1) [OF next_turn.hyps(1)] obtain e where
    "outcomes evs = [AttemptRetried e]" "closure_runs evs = 1" by blast
  ultimately show ?case by (intro exI [of _ "e # es"]) simp
qed

lemma outsides_total: "outsides src t t' \<Longrightarrow> total_duration (metrics_data (collectors t' h)) = total_duration (metrics_data (collectors t h))"
proof (induction rule: rtranclp_induct)
  case (step y z)
  have "total_duration (metrics_data (record_grv a d ver m)) = total_duration (metrics_data m)" for a d ver m
    by (auto simp: record_grv_def on_open_def on_info_def Let_def split: option.split)
  with step(2) have "total_duration (metrics_data (collectors z h)) = total_duration (metrics_data (collectors y h))"
    by cases (auto simp: record_at_def read_version_resolved_def on_collector_def split: option.split prod.split)
  with step.IH show ?case by simp
qed simp

text \<open>The completion hook closes an attempt that is still open as failed.\<close>

lemma completion:
  assumes after: "phase_after (phase_B h) (phase_D h) r (t, l)" and other: "ordinary_hooks src other"
    and t': "t' = on_complete (pair_hooks (metrics_hooks src kv version_of h start) other) t"
    and oc: "outcomes l = map AttemptRetried es @ (case r of Inr _ \<Rightarrow> [AttemptCommitted] | Inl _ \<Rightarrow> [])"
  shows "map am_outcome (report_attempts (metrics_data (collectors t' h))) =
      map AttemptRetried es @ [case r of Inr _ \<Rightarrow> AttemptCommitted | Inl _ \<Rightarrow> AttemptFailed] \<and>
    map am_index (report_attempts (metrics_data (collectors t' h))) = [0..<length es + 1] \<and>
    info_retries (report_transaction (metrics_data (collectors t' h))) = word_of_nat (length es) \<and>
    conflict_count (report_transaction (metrics_data (collectors t' h))) = word_of_nat (conflicts l) \<and>
    total_duration (metrics_data (collectors t' h)) \<noteq> None"
proof -
  let ?m = "collectors t h" and ?f = "finish_attempt src (inner t) (usages t) AttemptFailed"
  let ?t = "on_complete (metrics_hooks src kv version_of h start) t"
  have out: "outsides src ?t t'" unfolding t' pair_hooks_sel by (rule ordinary_hooksD(9) [OF other])
  have m: "collectors ?t h = set_total_duration (instant_now src (inner t) - start) (?f ?m)"
    by (simp add: metrics_hooks_def on_collector_def)
  have total: "total_duration (metrics_data (collectors t' h)) \<noteq> None"
    by (simp add: outsides_total [OF out] m set_total_duration_def)
  have retried: "filter is_retried (map AttemptRetried es) = map AttemptRetried es" by (induction es) (simp_all add: is_retried_def)
  have tally: "tallied h 0 (t, l)" using after by (auto simp: phase_after_def phase_defs split: sum.splits)
  then have atts: "map am_outcome (report_attempts (metrics_data ?m)) = outcomes l"
    "map am_index (report_attempts (metrics_data ?m)) = [0..<length (report_attempts (metrics_data ?m))]"
    "info_retries (report_transaction (metrics_data ?m)) = word_of_nat (length (filter is_retried (outcomes l)))"
    "conflict_count (report_transaction (metrics_data ?m)) = word_of_nat (conflicts l)"
    by (simp_all add: tallied_def core_def)
  have "map am_outcome (report_attempts (metrics_data (?f ?m))) =
      map AttemptRetried es @ [case r of Inr _ \<Rightarrow> AttemptCommitted | Inl _ \<Rightarrow> AttemptFailed] \<and>
    map am_index (report_attempts (metrics_data (?f ?m))) = [0..<length (report_attempts (metrics_data (?f ?m)))] \<and>
    info_retries (report_transaction (metrics_data (?f ?m))) = word_of_nat (length es) \<and>
    conflict_count (report_transaction (metrics_data (?f ?m))) = word_of_nat (conflicts l)"
  proof (cases r)
    case (Inl e)
    with after obtain a where "open_usage (open_scratch ?m) = Some a"
      by (auto simp: phase_after_def phase_B_def recording_def)
    note f = finish_attempt_core [OF this, of src "inner t" "usages t" AttemptFailed]
    show ?thesis using f(1) f(2) [OF atts(2)] f(3,4) atts oc Inl retried by (simp add: is_retried_def)
  next
    case (Inr v)
    with after have "open_usage (open_scratch ?m) = None" by (simp add: phase_after_def phase_D_def)
    then have "?f ?m = ?m" by (simp add: finish_attempt_def)
    with atts oc Inr retried show ?thesis by (simp add: is_retried_def)
  qed
  moreover have "core h t' = core h ?t" by (rule outsides_same(1) [OF out])
  then have "report_attempts (metrics_data (collectors t' h)) = report_attempts (metrics_data (?f ?m))"
    "info_retries (report_transaction (metrics_data (collectors t' h))) = info_retries (report_transaction (metrics_data (?f ?m)))"
    "conflict_count (report_transaction (metrics_data (collectors t' h))) = conflict_count (report_transaction (metrics_data (?f ?m)))"
    by (simp_all add: core_def m set_total_duration_def)
  moreover have "length (report_attempts (metrics_data (?f ?m))) = length es + 1"
    using calculation(1) [THEN conjunct1, THEN arg_cong [where f = length]] by simp
  ultimately show ?thesis using total by simp
qed

section \<open>Property\<close>

text \<open>
  C11.  The report of a run with metrics.  The closure, in its call and in its future, and the other
  hooks call what they like on the shared transaction, budgets and late reads included; when the run
  is over its report has exactly one entry per run of the closure, numbered in order: one for each
  error that was retried, with this error, and a last one that says whether the run committed.  The
  retries are counted, and the duration of the run is there.  The conflict count is that of the
  commits that failed with \<^verbatim>\<open>not_committed\<close>, also of a last one that was not retried; the
  documentation of the field speaks of the retries such commits cause.
\<close>

theorem metered_run_report:
  fixes closure :: "bool \<Rightarrow> ('w, 'c) transaction \<Rightarrow> ('e + 'v) \<times> bool \<times> ('w, 'c) transaction"
  assumes "\<forall>b t. shared_calls src t (called b t) \<and> shared_calls src t (snd (snd (closure b t)))"
    and "ordinary_hooks src other"
    and "metrics_handle t = None" and "collectors t h = metrics_new"
    and "c = transaction_client src commit retry called closure ue dec bnd"
    and "hs = pair_hooks (metrics_hooks src kv version_of h start) other"
    and "run_with_hooks n (logged_client c) (logged_hooks hs) policy (t, []) = Some (r, t', evs)"
    and "report = get_metrics_data (collectors t' h)"
  shows "\<exists>es. outcomes evs = map AttemptRetried es @ (case r of Inr _ \<Rightarrow> [AttemptCommitted] | Inl _ \<Rightarrow> []) \<and>
    map am_outcome (report_attempts report) =
      map AttemptRetried es @ [case r of Inr _ \<Rightarrow> AttemptCommitted | Inl _ \<Rightarrow> AttemptFailed] \<and>
    map am_index (report_attempts report) = [0..<closure_runs evs] \<and>
    info_retries (report_transaction report) = word_of_nat (length es) \<and>
    conflict_count (report_transaction report) = word_of_nat (conflicts evs) \<and>
    total_duration report \<noteq> None"
proof -
  obtain t1 l where loop: "retry_loop n (logged_client c) (logged_hooks hs) policy 0 False (t, []) = Some (r, t1, l)"
    and t': "t' = on_complete hs t1" and evs: "evs = l @ [Completed]"
    using assms(7) by (auto simp: run_with_hooks_def logged_hooks_sel)
  have start: "phase_A h (t, [])"
    using assms(3,4) by (simp add: phase_A_def tallied_def core_def metrics_new_def report_default_def conflicts_def)
  have after: "phase_after (phase_B h) (phase_D h) r (t1, l)"
    by (rule run_phases [OF metered_phases [OF assms(1) [rule_format, THEN conjunct1] assms(1) [rule_format, THEN conjunct2] assms(2)] start loop [unfolded assms(5,6)]])
  have "retry_loop n c hs policy 0 False t = Some (r, t1)"
    using loop_erase [of n c hs policy 0 False t "[]"] loop by simp
  from loop_ok [OF this, of "[]"] loop have "protocol c 0 False l r" by auto
  from protocol_outcomes [OF this] obtain es where
    es: "outcomes l = map AttemptRetried es @ (case r of Inr _ \<Rightarrow> [AttemptCommitted] | Inl _ \<Rightarrow> [])" "closure_runs l = length es + 1" by blast
  have runs: "closure_runs evs = length es + 1" "conflicts evs = conflicts l" "outcomes evs = outcomes l"
    using es(2) by (simp_all add: evs closure_runs_def conflicts_def)
  from completion [OF after assms(2) t' [unfolded assms(6)] es(1)] es(1) show ?thesis
    unfolding assms(8) get_metrics_data_def runs by blast
qed

section \<open>An example\<close>

text \<open>Every attempt writes a key; the first commit conflicts.\<close>

definition blank_kv :: "(bytes \<times> bytes) list kv" where
  "blank_kv = \<lparr>kv_get = \<lambda>s k. Inr None, kv_get_range = \<lambda>s opt i. Inr ([], False), kv_set = \<lambda>k v s. (k, v) # s,
     kv_clear = \<lambda>k s. s, kv_clear_range = \<lambda>lo hi s. s\<rparr>"

definition metered_source :: "((bytes \<times> bytes) list, unit) time_source" where
  "metered_source = \<lparr>instant_now = length, custom_monotonic = \<lambda>_ s. 0\<rparr>"

definition writing_closure ::
    "bool \<Rightarrow> ((bytes \<times> bytes) list, unit) transaction \<Rightarrow> (nat + nat) \<times> bool \<times> ((bytes \<times> bytes) list, unit) transaction" where
  "writing_closure b t = (Inr 7, False, record_at (usage_slot t) (record_set 2) (t\<lparr>inner := ([1], [2]) # inner t\<rparr>))"

definition metered_client :: "(((bytes \<times> bytes) list, unit) transaction, nat, nat) client" where
  "metered_client = transaction_client metered_source
     (\<lambda>w. (if length w \<le> 1 then Some NOT_COMMITTED else None, w)) (\<lambda>e w. (None, w))
     (\<lambda>b t. t) writing_closure (\<lambda>e. False) (\<lambda>e. Fatal) (\<lambda>e. 0)"

definition metered_start :: "((bytes \<times> bytes) list, unit) transaction" where
  "metered_start = transaction_new metered_source [] (\<lambda>_. metrics_new)"

lemma no_hooks_ordinary: "ordinary_hooks src no_hooks"
  by (simp add: ordinary_hooks_def no_hooks_def)

lemma writing_shared: "shared_calls src t (snd (snd (writing_closure b t)))"
proof -
  have "fits_len [1 :: byte]" "fits_len [2 :: byte]" by (simp_all add: fits_len_def fdb_len_def)
  then have "trx_set blank_kv [1] [2] t = Some (snd (snd (writing_closure b t)))"
    by (simp add: trx_set_def writing_closure_def blank_kv_def)
  then show ?thesis by (rule calls_are_shared(1))
qed

lemma no_conflicting_keys: "conflicting_keys blank_kv s = Some (Inr [])"
  by (simp add: conflicting_keys_def read_conflict_range_keyspace_def blank_kv_def conflict_range_loop.simps [of _ _ _ "Some opt" for opt]
      conflict_range_loop.simps [of _ _ _ None] next_range_def parser_finish_def parser_feed_def parser_new_def)

definition metered_hooks :: "((bytes \<times> bytes) list, unit) transaction hooks" where
  "metered_hooks = pair_hooks (metrics_hooks metered_source blank_kv (\<lambda>s. Inr 42) 0 0) no_hooks"

lemma metered_inner [simp]:
  "inner (on_collector h f t) = inner t" "inner (attach_metrics h t) = inner t" "inner (record_at a g t) = inner t"
  "inner (open_metrics_attempt t) = inner t" "inner (end_attempt src oc t) = inner t"
  "inner (begin_attempt_usage src t) = inner t" "inner (trx_mark_attempt_end src t) = inner t"
  "inner (reset_user_version_allocator t) = inner t"
  by (simp_all add: on_collector_def attach_metrics_def record_at_def open_metrics_attempt_def end_attempt_def
      begin_attempt_usage_def begin_attempt_with_clock_def slot_begin_def trx_mark_attempt_end_def
      reset_user_version_allocator_def)

text \<open>What the steps of the example do to the number of writes.\<close>

definition written :: "((bytes \<times> bytes) list, unit) transaction \<Rightarrow> nat" where
  "written t = length (inner t)"

lemma metered_written [simp]:
  "written (on_collector h f t) = written t" "written (attach_metrics h t) = written t" "written (record_at a g t) = written t"
  "written (end_attempt src oc t) = written t" "written (begin_attempt_usage src t) = written t"
  "written (trx_mark_attempt_end src t) = written t" "written (reset_user_version_allocator t) = written t"
  "written (with_metrics f t) = written t" "written (t\<lparr>inner := w\<rparr>) = length w"
  by (simp_all add: written_def)

lemma written_inner [simp]: "length (inner t) = written t"
  by (simp add: written_def)

lemma metered_steps:
  "\<exists>t'. run_closure metered_client b t = (Inr 7, False, t') \<and> written t' = Suc (written t)"
  "\<exists>t'. commit_native metered_client t = (if written t \<le> 1 then Some NOT_COMMITTED else None, t') \<and> written t' = written t"
  "\<exists>t'. on_error_native metered_client e t = (None, t') \<and> written t' = written t"
  "\<exists>t'. on_commit_error metered_hooks e i t = (None, t') \<and> written t' = written t"
  "call_closure metered_client b t = t" "before_commit metered_hooks i t = (None, t)" "retry_decision_of metered_client x = Fatal"
  by (simp_all add: metered_client_def transaction_client_def writing_closure_def trx_commit_def on_error_with_transaction_def
      metered_hooks_def pair_hooks_def metrics_hooks_def no_hooks_def and_hooks_def no_conflicting_keys Let_def)

lemma metered_quiet [simp]:
  "written (on_attempt_start metered_hooks i t) = written t" "written (on_error_duration metered_hooks d i t) = written t"
  "written (on_retry metered_hooks i t) = written t"
  by (simp_all add: metered_hooks_def pair_hooks_def metrics_hooks_def no_hooks_def)

lemmas metered_turn_simps = retry_turn_def run_attempt_def retryable_commit_def retryable_take_def logged_simps
  report_hook_def commit_failed_def turn_on_error_def decided_def native_retry_policy_def metered_steps(5,6) Let_def

lemma metered_first:
  assumes "written t = 0"
  shows "\<exists>t'. retry_turn (logged_client metered_client) (logged_hooks metered_hooks) native_retry_policy 0 False (t, l) =
      (Again (is_maybe_committed metered_client NOT_COMMITTED), t', l @ [ClosureCalled False, AttemptStart 0, ClosureRan False None, BeforeCommit 0,
        CommitRan (Some NOT_COMMITTED), CommitErrorSeen NOT_COMMITTED 0, OnErrorRan NOT_COMMITTED None, ErrorDuration 0, Retried 0]) \<and>
    written t' = 1"
proof -
  obtain t1 where t1: "run_closure metered_client False (on_attempt_start metered_hooks 0 t) = (Inr 7, False, t1)" "written t1 = 1"
    using metered_steps(1) [of False "on_attempt_start metered_hooks 0 t"] assms by auto
  obtain t2 where t2: "commit_native metered_client t1 = (Some NOT_COMMITTED, t2)" "written t2 = 1"
    using metered_steps(2) [of t1] t1(2) by auto
  obtain t3 where t3: "on_commit_error metered_hooks NOT_COMMITTED 0 t2 = (None, t3)" "written t3 = 1"
    using metered_steps(4) [of NOT_COMMITTED 0 t2] t2(2) by auto
  obtain t4 where t4: "on_error_native metered_client NOT_COMMITTED t3 = (None, t4)" "written t4 = 1"
    using metered_steps(3) [of NOT_COMMITTED t3] t3(2) by auto
  show ?thesis by (simp add: metered_turn_simps t1 t2 t3 t4)
qed

lemma metered_second:
  assumes "written t = 1"
  shows "\<exists>t'. retry_turn (logged_client metered_client) (logged_hooks metered_hooks) native_retry_policy 1 f (t, l) =
      (Return (Inr 7), t', l @ [ClosureCalled f, AttemptStart 1, ClosureRan f None, BeforeCommit 1, CommitRan None, CommitSuccess 1])"
proof -
  obtain t1 where t1: "run_closure metered_client f (on_attempt_start metered_hooks 1 t) = (Inr 7, False, t1)" "written t1 = 2"
    using metered_steps(1) [of f "on_attempt_start metered_hooks 1 t"] assms by auto
  obtain t2 where t2: "commit_native metered_client t1 = (None, t2)"
    using metered_steps(2) [of t1] t1(2) by auto
  show ?thesis using t1(1) t2 by (simp add: metered_turn_simps)
qed

lemma metered_example:
  "\<exists>t' evs. run_with_hooks 2 (logged_client metered_client) (logged_hooks metered_hooks) native_retry_policy (metered_start, []) =
      Some (Inr 7, t', evs) \<and>
    outcomes evs = [AttemptRetried NOT_COMMITTED, AttemptCommitted] \<and> closure_runs evs = 2 \<and> conflicts evs = 1"
proof -
  let ?f = "is_maybe_committed metered_client NOT_COMMITTED"
  let ?l = "[ClosureCalled False, AttemptStart 0, ClosureRan False None, BeforeCommit 0, CommitRan (Some NOT_COMMITTED),
     CommitErrorSeen NOT_COMMITTED 0, OnErrorRan NOT_COMMITTED None, ErrorDuration 0, Retried 0]"
  have "written metered_start = 0" by (simp add: metered_start_def transaction_new_def written_def)
  from metered_first [OF this, of "[]"] obtain t1 where
    t1: "retry_turn (logged_client metered_client) (logged_hooks metered_hooks) native_retry_policy 0 False (metered_start, []) =
      (Again ?f, t1, ?l)" "written t1 = 1" by auto
  obtain t2 where
    t2: "retry_turn (logged_client metered_client) (logged_hooks metered_hooks) native_retry_policy 1 ?f (t1, ?l) =
      (Return (Inr 7), t2, ?l @ [ClosureCalled ?f, AttemptStart 1, ClosureRan ?f None, BeforeCommit 1, CommitRan None, CommitSuccess 1])"
    using metered_second [OF t1(2)] by blast
  show ?thesis
    using t2 by (simp add: run_with_hooks_def numeral_2_eq_2 t1(1) logged_hooks_sel outcomes_def ended_by_def
        conflicts_def closure_runs_def)
qed

theorem metered_run_report_witness:
  "\<exists>t' evs. run_with_hooks 2 (logged_client metered_client) (logged_hooks metered_hooks) native_retry_policy (metered_start, []) =
      Some (Inr 7, t', evs) \<and>
    map am_outcome (report_attempts (get_metrics_data (collectors t' 0))) = [AttemptRetried NOT_COMMITTED, AttemptCommitted] \<and>
    map am_index (report_attempts (get_metrics_data (collectors t' 0))) = [0, 1] \<and>
    info_retries (report_transaction (get_metrics_data (collectors t' 0))) = 1 \<and>
    conflict_count (report_transaction (get_metrics_data (collectors t' 0))) = 1"
proof -
  obtain t' evs where
    run: "run_with_hooks 2 (logged_client metered_client) (logged_hooks metered_hooks) native_retry_policy (metered_start, []) = Some (Inr 7, t', evs)"
    and evs: "outcomes evs = [AttemptRetried NOT_COMMITTED, AttemptCommitted]" "closure_runs evs = 2" "conflicts evs = 1"
    using metered_example by blast
  have "metrics_handle metered_start = None" "collectors metered_start 0 = metrics_new"
    by (simp_all add: metered_start_def transaction_new_def)
  note report = metered_run_report [OF _ no_hooks_ordinary this metered_client_def metered_hooks_def run refl]
  from report [unfolded evs] writing_shared
  obtain es where es: "[AttemptRetried NOT_COMMITTED, AttemptCommitted] = map AttemptRetried es @ [AttemptCommitted]"
    "map am_outcome (report_attempts (get_metrics_data (collectors t' 0))) = map AttemptRetried es @ [AttemptCommitted]"
    "map am_index (report_attempts (get_metrics_data (collectors t' 0))) = [0..<2]"
    "info_retries (report_transaction (get_metrics_data (collectors t' 0))) = word_of_nat (length es)"
    "conflict_count (report_transaction (get_metrics_data (collectors t' 0))) = word_of_nat 1"
    unfolding sum.case by blast
  from es(1) have "es = [NOT_COMMITTED]" by (cases es) auto
  with es run show ?thesis by (auto simp: upt_rec)
qed

end
