(* ===== verification/Timekeeper.thy ===== *)
theory Timekeeper
  imports Retry_Runner
begin

text \<open>
  The lookup of versions by time (\<^verbatim>\<open>timekeeper.rs\<close>): one row of the time keeper's map, found with a
  range read of limit one, over the tuple encoding of timestamps.
\<close>

section \<open>The lookup\<close>

text \<open>\<^verbatim>\<open>\xff\x02/timeKeeper/map/\<close>\<close>

definition TIME_KEEPER_PREFIX :: bytes where
  "TIME_KEEPER_PREFIX = [0xff, 0x02, 0x2f, 0x74, 0x69, 0x6d, 0x65, 0x4b, 0x65, 0x65, 0x70, 0x65, 0x72, 0x2f,
     0x6d, 0x61, 0x70, 0x2f]"

datatype hint_mode = BeforeTimestamp | AfterTimestamp

definition start_key_bytes :: "u64 \<Rightarrow> bytes option" where
  "start_key_bytes unix_timestamp = map_option (\<lambda>bs. TIME_KEEPER_PREFIX @ bs) (pack_to_vec pack_ux unix_timestamp)"

definition hint_range :: "bytes \<Rightarrow> hint_mode \<Rightarrow> range_option" where
  "hint_range start_bytes hint =
     (let start_key = first_greater_or_equal start_bytes;
          end_key = first_greater_than (TIME_KEEPER_PREFIX @ [0xff]);
          range_opt = (case hint of
              AfterTimestamp \<Rightarrow> range_from_selectors (start_key, end_key)
            | BeforeTimestamp \<Rightarrow>
                (range_from_selectors (first_greater_than TIME_KEEPER_PREFIX, start_key))\<lparr>rev_order := True\<rparr>)
      in range_opt\<lparr>limit := Some 1\<rparr>)"

text \<open>
  \<open>apply_option\<close> sets a native option by its name, with the error it may end with.  The outer
  \<open>None\<close> stands for a call that does not return or panics.
\<close>

datatype read_option = ReadSystemKeys | ReadLockAware

definition hint_version_from_timestamp ::
    "'s kv \<Rightarrow> (read_option \<Rightarrow> 's \<Rightarrow> fdb_error option \<times> 's) \<Rightarrow> u64 \<Rightarrow> hint_mode \<Rightarrow> 's \<Rightarrow>
     (binding_error + u64 option) option" where
  "hint_version_from_timestamp kv apply_option unix_timestamp hint s =
     (case apply_option ReadSystemKeys s of
        (Some e, s) \<Rightarrow> Some (Inl (NonRetryableFdbError e))
      | (None, s) \<Rightarrow>
          (case apply_option ReadLockAware s of
             (Some e, s) \<Rightarrow> Some (Inl (NonRetryableFdbError e))
           | (None, s) \<Rightarrow>
               Option.bind (start_key_bytes unix_timestamp) (\<lambda>start_bytes.
               Option.bind (get_ranges_keyvalues kv s (hint_range start_bytes hint)) (\<lambda>items.
                 case items of
                   [] \<Rightarrow> Some (Inr None)
                 | Inl e # _ \<Rightarrow> Some (Inl (NonRetryableFdbError e))
                 | Inr row # _ \<Rightarrow>
                     (case unpack_root unpack_ux (snd row) of
                        Inl e \<Rightarrow> Some (Inl (BindingPackError (DynOther None)))
                      | Inr found \<Rightarrow> Some (Inr (Some found)))))))"

section \<open>The map of the time keeper\<close>

text \<open>\<open>m\<close> gives the version that was recorded at a timestamp, and the rows are these entries.\<close>

definition time_key :: "u64 \<Rightarrow> bytes" where
  "time_key ts = TIME_KEEPER_PREFIX @ int_enc (uint ts)"

definition keeps_time :: "(u64 \<rightharpoonup> u64) \<Rightarrow> (bytes \<rightharpoonup> bytes) \<Rightarrow> bool" where
  "keeps_time m store \<longleftrightarrow>
     (\<forall>k. TIME_KEEPER_PREFIX \<le> k \<longrightarrow> k \<le> TIME_KEEPER_PREFIX @ [0xff] \<longrightarrow>
        (\<forall>val. store k = Some val \<longleftrightarrow> (\<exists>ts v. m ts = Some v \<and> k = time_key ts \<and> val = int_enc (uint v))))"

text \<open>The nearest entry: the first one at or after the time, the last one before it.\<close>

definition nearest :: "(u64 \<rightharpoonup> u64) \<Rightarrow> hint_mode \<Rightarrow> u64 \<Rightarrow> u64 option" where
  "nearest m hint ts =
     (let near = {t \<in> dom m. case hint of AfterTimestamp \<Rightarrow> ts \<le> t | BeforeTimestamp \<Rightarrow> t < ts}
      in if near = {} then None
         else m (case hint of AfterTimestamp \<Rightarrow> Min near | BeforeTimestamp \<Rightarrow> Max near))"

lemma start_key: "start_key_bytes ts = Some (time_key ts)"
  by (simp add: start_key_bytes_def time_key_def pack_to_vec_def pack_into_vec_def pack_ux_eq byte_sized_def)

lemma unpack_version: "unpack_root unpack_ux (int_enc (uint v)) = Inr (v :: u64)"
proof -
  have "unpack_ux 0 (int_enc (uint v) @ []) = Inr ([], v)"
    using unpack_ux_int_enc(1) [where 'a = 64, of "uint v" 0 "[]"] uint_lt2p [of v] int_len_word_less(1) [of v] by (simp add: byte_sized_def)
  then show ?thesis by (simp add: unpack_root_def)
qed

lemma time_key_less: "time_key t < time_key t' \<longleftrightarrow> t < t'"
proof -
  have len: "int_len (uint x) < 256" for x :: u64 by (rule int_len_word_less(1)) (simp add: byte_sized_def)
  have less: "t < t' \<Longrightarrow> time_key t < time_key t'" for t t' :: u64
    using int_enc_less [OF _ len len, of t t' "[]" "[]"] by (simp add: time_key_def word_less_def)
  show ?thesis using less [of t t'] less [of t' t] by (metis less_asym linorder_neqE)
qed

lemma time_key_le: "time_key t \<le> time_key t' \<longleftrightarrow> t \<le> t'"
  using time_key_less [of t' t] by (simp add: not_less [symmetric])

lemma time_key_inj [simp]: "time_key t = time_key t' \<longleftrightarrow> t = t'"
  by (metis order_antisym order_refl time_key_le)

lemma time_key_between: "TIME_KEEPER_PREFIX < time_key t" "time_key t < TIME_KEEPER_PREFIX @ [0xff]"
proof -
  have len: "int_len (uint t) < 256" by (rule int_len_word_less(1)) (simp add: byte_sized_def)
  obtain b bs where enc: "int_enc (uint t) = b # bs" "b \<le> POSINTEND"
    using hd_int_enc [OF len] by (cases "int_enc (uint t)") auto
  then have "b < 0xff" by (auto simp: POSINTEND_def word_le_nat_alt word_less_nat_alt)
  with enc show "TIME_KEEPER_PREFIX < time_key t" "time_key t < TIME_KEEPER_PREFIX @ [0xff]"
    by (simp_all add: time_key_def)
qed


lemma sorted_image:
  fixes f :: "'a::linorder \<Rightarrow> 'b::linorder"
  assumes "finite A" and "\<And>x y. x < y \<Longrightarrow> f x < f y"
  shows "sorted_list_of_set (f ` A) = map f (sorted_list_of_set A)"
proof -
  have "sorted_wrt (<) (map f (sorted_list_of_set A))"
    unfolding sorted_wrt_map using strict_sorted_list_of_set [of A] by (rule sorted_wrt_mono_rel [rotated]) (use assms(2) in simp)
  moreover have "set (map f (sorted_list_of_set A)) = f ` A" using assms(1) by simp
  ultimately show ?thesis by (metis sorted_list_of_set.idem_if_sorted_distinct strict_sorted_iff)
qed

lemma sorted_ends:
  fixes A :: "'a::linorder set"
  assumes "finite A" and "A \<noteq> {}"
  shows "hd (sorted_list_of_set A) = Min A" and "last (sorted_list_of_set A) = Max A"
proof -
  have "sorted_list_of_set A \<noteq> []" using assms by simp
  moreover have "x \<le> last xs" if "sorted xs" "x \<in> set xs" for x :: 'a and xs
    using that by (induction xs) (auto simp: last_in_set)
  ultimately show "last (sorted_list_of_set A) = Max A"
    using assms(1) by (intro Max_eqI [symmetric]) (metis set_sorted_list_of_set sorted_sorted_list_of_set last_in_set)+
  show "hd (sorted_list_of_set A) = Min A" by (simp add: sorted_list_of_set_nonempty [OF assms])
qed

definition near_entries :: "(u64 \<rightharpoonup> u64) \<Rightarrow> hint_mode \<Rightarrow> u64 \<Rightarrow> u64 set" where
  "near_entries m hint ts = {t \<in> dom m. case hint of AfterTimestamp \<Rightarrow> ts \<le> t | BeforeTimestamp \<Rightarrow> t < ts}"

lemma hint_selected:
  assumes "keeps_time m store"
  shows "{k \<in> dom store. selected (hint_range (time_key ts) hint) k} = time_key ` near_entries m hint ts"
proof (rule set_eqI)
  fix k
  note between = time_key_between [of ts]
  have sel: "selected (hint_range (time_key ts) hint) k \<longleftrightarrow> (case hint of
      AfterTimestamp \<Rightarrow> time_key ts \<le> k \<and> k \<le> TIME_KEEPER_PREFIX @ [0xff]
    | BeforeTimestamp \<Rightarrow> TIME_KEEPER_PREFIX < k \<and> k < time_key ts)"
    by (simp add: selected_def hint_range_def range_from_selectors_def default_range_def first_greater_or_equal_def
        first_greater_than_def ks_new_def Let_def split: hint_mode.split)
  have store: "k \<in> dom store \<longleftrightarrow> (\<exists>t. t \<in> dom m \<and> k = time_key t)"
    if "TIME_KEEPER_PREFIX \<le> k" "k \<le> TIME_KEEPER_PREFIX @ [0xff]"
    using assms that unfolding keeps_time_def by blast
  show "k \<in> {k \<in> dom store. selected (hint_range (time_key ts) hint) k} \<longleftrightarrow> k \<in> time_key ` near_entries m hint ts"
  proof (cases "TIME_KEEPER_PREFIX \<le> k \<and> k \<le> TIME_KEEPER_PREFIX @ [0xff]")
    case True
    have "k \<in> {k \<in> dom store. selected (hint_range (time_key ts) hint) k} \<longleftrightarrow>
        (\<exists>t. t \<in> dom m \<and> k = time_key t \<and> selected (hint_range (time_key ts) hint) (time_key t))"
      using store True by blast
    moreover have "selected (hint_range (time_key ts) hint) (time_key t) \<longleftrightarrow>
        (case hint of AfterTimestamp \<Rightarrow> ts \<le> t | BeforeTimestamp \<Rightarrow> t < ts)" if "k = time_key t" for t
      using sel True time_key_between(1) [of t] unfolding that by (cases hint) (auto simp: time_key_less time_key_le)
    ultimately show ?thesis unfolding near_entries_def by blast
  next
    case False
    then have "\<not> selected (hint_range (time_key ts) hint) k" using sel between by (cases hint) auto
    moreover have "k \<noteq> time_key t" for t using False time_key_between [of t] by auto
    ultimately show ?thesis by blast
  qed
qed

lemma hint_rows:
  assumes "keeps_time m store"
  shows "scan_rows store (hint_range (time_key ts) hint) = (case nearest m hint ts of
      None \<Rightarrow> []
    | Some v \<Rightarrow> [(time_key (case hint of AfterTimestamp \<Rightarrow> Min (near_entries m hint ts)
        | BeforeTimestamp \<Rightarrow> Max (near_entries m hint ts)), int_enc (uint v))])"
proof -
  let ?near = "near_entries m hint ts"
  define t where "t = (case hint of AfterTimestamp \<Rightarrow> Min ?near | BeforeTimestamp \<Rightarrow> Max ?near)"
  have fin: "finite ?near" by simp
  have order: "rev_order (hint_range (time_key ts) hint) \<longleftrightarrow> hint = BeforeTimestamp" "limit (hint_range (time_key ts) hint) = Some 1"
    by (simp_all add: hint_range_def range_from_selectors_def default_range_def Let_def split: hint_mode.split)
  have keys: "sorted_list_of_set (time_key ` ?near) = map time_key (sorted_list_of_set ?near)"
    by (rule sorted_image [OF fin]) (simp add: time_key_less)
  have first: "take 1 ((if hint = BeforeTimestamp then rev else id) (sorted_list_of_set ?near)) = (if ?near = {} then [] else [t])"
  proof (cases "?near = {}")
    case False
    then have ne: "sorted_list_of_set ?near \<noteq> []" using fin by simp
    have "hd (sorted_list_of_set ?near) = Min ?near" "last (sorted_list_of_set ?near) = Max ?near"
      using sorted_ends [OF fin False] by simp_all
    with ne False show ?thesis by (cases hint) (simp_all add: t_def take_Suc hd_rev)
  qed simp
  have rows: "scan_rows store (hint_range (time_key ts) hint) =
      map (\<lambda>t. (time_key t, the (store (time_key t)))) (if ?near = {} then [] else [t])"
    unfolding scan_rows_def rows_def order hint_selected [OF assms] keys first [symmetric]
    by (auto simp: take_map rev_map)
  show ?thesis
  proof (cases "?near = {}")
    case True
    then show ?thesis using rows by (simp add: nearest_def near_entries_def Let_def)
  next
    case False
    have "t \<in> ?near" using False fin by (cases hint) (simp_all add: t_def)
    then obtain v where v: "m t = Some v" by (auto simp: near_entries_def)
    have "store (time_key t) = Some (int_enc (uint v))"
      using assms v time_key_between [of t] unfolding keeps_time_def by (auto simp: less_imp_le)
    moreover have "nearest m hint ts = Some v"
      using False v by (simp add: nearest_def near_entries_def [symmetric] t_def)
    ultimately show ?thesis using rows False by (simp add: t_def)
  qed
qed

section \<open>Property\<close>

text \<open>
  C24.  Looking up a version by time.  On a store that holds the map of the time keeper, the lookup
  returns the version recorded at the first timestamp at or after the one asked for, or at the last
  one that is before it, and nothing when there is none.  Its only errors are those of the client: when
  the scan that it asks for begins with an error instead of a row, that error is returned.  (The
  comments of \<^verbatim>\<open>timekeeper.rs\<close> say after and greater than, but the code asks for
  \<^verbatim>\<open>first_greater_or_equal\<close>, so a timestamp that is recorded itself is returned.)
\<close>

theorem hint_is_nearest:
  assumes "kv_store kv view" and "keeps_time m (view s2)"
    and "apply_option ReadSystemKeys s = (None, s1)" and "apply_option ReadLockAware s1 = (None, s2)"
  shows "hint_version_from_timestamp kv apply_option ts hint s = Some (Inr (nearest m hint ts)) \<or>
    (\<exists>e rest. get_ranges_keyvalues kv s2 (hint_range (time_key ts) hint) = Some (Inl e # rest) \<and>
       hint_version_from_timestamp kv apply_option ts hint s = Some (Inl (NonRetryableFdbError e)))"
proof -
  let ?opt = "hint_range (time_key ts) hint"
  let ?rows = "scan_rows (view s2) ?opt"
  have "plain ?opt" by (simp add: plain_def hint_range_def range_from_selectors_def default_range_def
      first_greater_or_equal_def first_greater_than_def ks_new_def Let_def split: hint_mode.split)
  from kv_store.get_ranges_keyvalues_scan [OF assms(1) this, of s2] obtain items where
    items: "get_ranges_keyvalues kv s2 ?opt = Some items" "delivers ?rows items" by blast
  then have first: "items = map Inr ?rows \<or> (\<exists>n e. items = map Inr (take n ?rows) @ [Inl e])" by (simp add: delivers_def)
  have run: "hint_version_from_timestamp kv apply_option ts hint s = (case items of [] \<Rightarrow> Some (Inr None)
      | Inl e # _ \<Rightarrow> Some (Inl (NonRetryableFdbError e))
      | Inr row # _ \<Rightarrow> (case unpack_root unpack_ux (snd row) of
            Inl e \<Rightarrow> Some (Inl (BindingPackError (DynOther None))) | Inr found \<Rightarrow> Some (Inr (Some found))))"
    using items(1) by (simp add: hint_version_from_timestamp_def assms(3,4) start_key)
  show ?thesis
  proof (cases "nearest m hint ts")
    case None
    then have "?rows = []" using hint_rows [OF assms(2)] by simp
    with first None items(1) show ?thesis by (auto simp: run)
  next
    case (Some v)
    then obtain k where "?rows = [(k, int_enc (uint v))]" using hint_rows [OF assms(2), of ts hint] by auto
    with first consider "\<exists>rest. items = Inr (k, int_enc (uint v)) # rest" | "\<exists>e rest. items = Inl e # rest"
      by (fastforce simp: take_Cons split: nat.splits)
    then show ?thesis using Some unpack_version [of v] items(1) by cases (auto simp: run)
  qed
qed

theorem hint_is_nearest_witness:
  "let store = [(time_key 20, int_enc 8), (time_key 10, int_enc 7)];
       look = (\<lambda>hint. hint_version_from_timestamp (mem_kv 0) (\<lambda>opt s. (None, s)) 15 hint store)
   in (look BeforeTimestamp = Some (Inr (Some 7)) \<or> (\<exists>e. look BeforeTimestamp = Some (Inl (NonRetryableFdbError e)))) \<and>
      (look AfterTimestamp = Some (Inr (Some 8)) \<or> (\<exists>e. look AfterTimestamp = Some (Inl (NonRetryableFdbError e))))"
proof -
  define store where "store = [(time_key 20, int_enc 8), (time_key 10, int_enc 7)]"
  let ?m = "[10 \<mapsto> 7, 20 \<mapsto> 8] :: u64 \<rightharpoonup> u64"
  have keeps: "keeps_time ?m (map_of store)"
    by (auto simp: keeps_time_def store_def split: if_splits)
  have "{t \<in> dom ?m. t < 15} = {10}" "{t \<in> dom ?m. 15 \<le> t} = {20}" by auto
  then have near: "nearest ?m BeforeTimestamp 15 = Some 7" "nearest ?m AfterTimestamp 15 = Some 8"
    by (simp_all add: nearest_def)
  show ?thesis
    using hint_is_nearest [OF mem_kv_store keeps, of "\<lambda>opt s. (None, s)" store store 0 15 BeforeTimestamp]
      hint_is_nearest [OF mem_kv_store keeps, of "\<lambda>opt s. (None, s)" store store 0 15 AfterTimestamp]
    unfolding Let_def store_def [symmetric] near by blast
qed

end
