(* ===== verification/Seeded_Random.thy ===== *)
theory Seeded_Random
  imports Attempt_Usage
begin

text \<open>
  The generator of random values and the environment of a program (\<^verbatim>\<open>env.rs\<close>).
\<close>

unbundle bit_operations_syntax

section \<open>The generator\<close>

record seeded_rng =
  rng_state :: u64

definition SPLITMIX_GAMMA :: u64 where
  "SPLITMIX_GAMMA = 0x9E3779B97F4A7C15"

definition rng_new :: "u64 \<Rightarrow> seeded_rng" where
  "rng_new seed = \<lparr>rng_state = seed\<rparr>"

definition next_u64 :: "seeded_rng \<Rightarrow> u64 \<times> seeded_rng" where
  "next_u64 self =
     (let z = rng_state self;
          self = self\<lparr>rng_state := rng_state self + SPLITMIX_GAMMA\<rparr>;
          z = (z XOR drop_bit 30 z) * 0xBF58476D1CE4E5B9;
          z = (z XOR drop_bit 27 z) * 0x94D049BB133111EB
      in (z XOR drop_bit 31 z, self))"

definition next_u32 :: "seeded_rng \<Rightarrow> u32 \<times> seeded_rng" where
  "next_u32 self = (let (v, self) = next_u64 self in (ucast v, self))"

record ('c, 'r) environment =
  env_clock :: "'c dyn_clock"
  env_rng :: 'r

definition env_new :: "'c dyn_clock \<Rightarrow> 'r \<Rightarrow> ('c, 'r) environment" where
  "env_new c r = \<lparr>env_clock = c, env_rng = r\<rparr>"

definition env_with_seed :: "('w, 'c) time_source \<Rightarrow> 'w \<Rightarrow> u64 \<Rightarrow> ('c, seeded_rng) environment" where
  "env_with_seed src w seed = env_new (wall_clock_new src w) (rng_new seed)"

text \<open>What a program draws in a row.\<close>

fun draws :: "(seeded_rng \<Rightarrow> 'v \<times> seeded_rng) \<Rightarrow> nat \<Rightarrow> seeded_rng \<Rightarrow> 'v list" where
  "draws draw 0 self = []"
| "draws draw (Suc n) self = (let (v, self) = draw self in v # draws draw n self)"

section \<open>Facts\<close>

definition splitmix :: "u64 \<Rightarrow> u64" where
  "splitmix z = fst (next_u64 (rng_new z))"

lemma next_u64_eq: "next_u64 self = (splitmix (rng_state self), rng_new (rng_state self + SPLITMIX_GAMMA))"
  by (simp add: next_u64_def splitmix_def rng_new_def Let_def)

lemma next_u32_eq: "next_u32 self = (ucast (splitmix (rng_state self)), rng_new (rng_state self + SPLITMIX_GAMMA))"
  by (simp add: next_u32_def next_u64_eq)

lemma draws_nth:
  assumes "\<And>self. draw self = (f (rng_state self), rng_new (rng_state self + SPLITMIX_GAMMA))" and "i < n"
  shows "draws draw n (rng_new seed) ! i = f (seed + word_of_nat i * SPLITMIX_GAMMA)"
  using assms(2)
proof (induction n arbitrary: seed i)
  case (Suc n)
  show ?case
  proof (cases i)
    case 0
    then show ?thesis by (simp add: assms(1) rng_new_def)
  next
    case (Suc j)
    with Suc.IH [of j "seed + SPLITMIX_GAMMA"] Suc.prems show ?thesis
      by (simp add: assms(1) rng_new_def algebra_simps)
  qed
qed simp

lemma length_draws [simp]: "length (draws draw n self) = n"
  by (induction n arbitrary: self) (auto split: prod.split)

lemma xorshift_inj:
  fixes x y :: u64
  assumes "0 < k" and "x XOR drop_bit k x = y XOR drop_bit k y"
  shows "x = y"
proof (rule bit_word_eqI)
  fix n assume "n < LENGTH(64)"
  have step: "bit x n = bit y n" if "bit x (n + k) = bit y (n + k)" for n
  proof -
    have "bit (x XOR drop_bit k x) n = bit (y XOR drop_bit k y) n" using assms(2) by simp
    with that show ?thesis by (cases "bit y (n + k)") (simp_all add: bit_simps add.commute)
  qed
  show "bit x n = bit y n"
  proof (induction "64 - n" arbitrary: n rule: less_induct)
    case less
    show ?case
    proof (cases "n < 64")
      case True
      with assms(1) have "64 - (n + k) < 64 - n" by arith
      then have "bit x (n + k) = bit y (n + k)" by (rule less)
      then show ?thesis by (rule step)
    next
      case False
      then show ?thesis using bit_imp_le_length [of x n] bit_imp_le_length [of y n] by auto
    qed
  qed
qed

lemma times_inj:
  fixes a b x y :: u64
  assumes "a * b = 1" and "x * a = y * a"
  shows "x = y"
proof -
  have "x * (a * b) = y * (a * b)" by (simp only: mult.assoc [symmetric] assms(2))
  then show ?thesis by (simp only: assms(1) mult.right_neutral)
qed

lemma step_inj:
  fixes a :: u64
  assumes "0 < k" and "a * b = 1"
  shows "inj (\<lambda>z. (z XOR drop_bit k z) * a)"
proof (rule injI)
  fix x y :: u64
  assume "(x XOR drop_bit k x) * a = (y XOR drop_bit k y) * a"
  then have "x XOR drop_bit k x = y XOR drop_bit k y" by (rule times_inj [OF assms(2)])
  then show "x = y" by (rule xorshift_inj [OF assms(1)])
qed

lemma splitmix_inj: "inj splitmix"
proof -
  let ?f = "\<lambda>z :: u64. (z XOR drop_bit 30 z) * 0xBF58476D1CE4E5B9"
  let ?g = "\<lambda>z :: u64. (z XOR drop_bit 27 z) * 0x94D049BB133111EB"
  let ?h = "\<lambda>z :: u64. z XOR drop_bit 31 z"
  have "inj ?f" by (rule step_inj [where b = "0x96DE1B173F119089"]) simp_all
  moreover have "inj ?g" by (rule step_inj [where b = "0x319642B2D24D8EC3"]) simp_all
  moreover have "inj ?h" by (rule injI, rule xorshift_inj [of 31]) simp_all
  ultimately have "inj (?h \<circ> ?g \<circ> ?f)" by (intro inj_compose)
  moreover have "splitmix = ?h \<circ> ?g \<circ> ?f"
    by (rule ext) (simp only: splitmix_def next_u64_def rng_new_def Let_def fst_conv seeded_rng.select_convs o_apply)
  ultimately show ?thesis by (simp only:)
qed

lemma gamma_inj: "inj_on (\<lambda>i. seed + word_of_nat i * SPLITMIX_GAMMA) {..<2 ^ 64}"
proof (rule inj_onI)
  fix i j :: nat
  assume ij: "i \<in> {..<2 ^ 64}" "j \<in> {..<2 ^ 64}"
    and "seed + word_of_nat i * SPLITMIX_GAMMA = seed + word_of_nat j * SPLITMIX_GAMMA"
  then have "word_of_nat i * SPLITMIX_GAMMA = word_of_nat j * SPLITMIX_GAMMA" by simp
  moreover have "SPLITMIX_GAMMA * 0xF1DE83E19937733D = 1" by (simp add: SPLITMIX_GAMMA_def)
  ultimately have "(word_of_nat i :: u64) = word_of_nat j" by (rule times_inj [rotated])
  with ij show "i = j" by (simp add: word_of_nat_eq_iff take_bit_nat_eq_self)
qed

lemma draws_all:
  fixes seed :: u64
  defines "xs \<equiv> draws next_u64 (2 ^ 64) (rng_new seed)"
  shows "distinct xs" and "set xs = UNIV"
proof -
  have nth: "xs ! i = splitmix (seed + word_of_nat i * SPLITMIX_GAMMA)" if "i < 2 ^ 64" for i
    unfolding xs_def by (rule draws_nth [OF next_u64_eq that])
  have len: "length xs = 2 ^ 64" by (simp add: xs_def)
  show "distinct xs"
  proof (unfold distinct_conv_nth len, intro allI impI)
    fix i j :: nat
    assume ij: "i < 2 ^ 64" "j < 2 ^ 64" "i \<noteq> j"
    show "xs ! i \<noteq> xs ! j"
    proof
      assume "xs ! i = xs ! j"
      then have "seed + word_of_nat i * SPLITMIX_GAMMA = seed + word_of_nat j * SPLITMIX_GAMMA"
        unfolding nth [OF ij(1)] nth [OF ij(2)] by (rule injD [OF splitmix_inj])
      from inj_onD [OF gamma_inj this] ij show False by simp
    qed
  qed
  then have "card (set xs) = 2 ^ 64" by (simp only: distinct_card len)
  then show "set xs = UNIV" by (intro card_subset_eq) (simp_all add: card_word)
qed

lemma draws_u32: "draws next_u32 n self = map ucast (draws next_u64 n self)"
  by (induction n arbitrary: self) (simp_all add: next_u32_eq next_u64_eq)

lemma unat_small: "m < 2 ^ 64 \<Longrightarrow> unat (word_of_nat m :: u64) = m"
  by (simp add: unsigned_of_nat take_bit_nat_eq_self)

lemma card_ucast: "card {x :: u64. (ucast x :: u32) = v} = 2 ^ 32"
proof -
  have low: "(ucast x :: u32) = v \<longleftrightarrow> unat x mod 2 ^ 32 = unat v" for x :: u64
    by (simp add: word_unat_eq_iff unsigned_ucast_eq take_bit_eq_mod)
  define f :: "nat \<Rightarrow> u64" where "f k = word_of_nat (k * 2 ^ 32 + unat v)" for k
  have v: "unat v < 2 ^ 32" using unsigned_less [of v] by simp
  have unat: "unat (f k) = k * 2 ^ 32 + unat v" if "k < 2 ^ 32" for k
    unfolding f_def by (rule unat_small) (use that v in simp)
  have "bij_betw f {..<2 ^ 32} {x. (ucast x :: u32) = v}"
  proof (rule bij_betw_byWitness [where f' = "\<lambda>x. unat x div 2 ^ 32"])
    show "\<forall>k\<in>{..<2 ^ 32}. unat (f k) div 2 ^ 32 = k"
      using v by (simp add: unat)
    show "f ` {..<2 ^ 32} \<subseteq> {x. (ucast x :: u32) = v}"
      using v by (auto simp: low unat)
    show "\<forall>x\<in>{x :: u64. (ucast x :: u32) = v}. f (unat x div 2 ^ 32) = x"
    proof
      fix x :: u64 assume "x \<in> {x. (ucast x :: u32) = v}"
      then have "unat x div 2 ^ 32 * 2 ^ 32 + unat v = unat x"
        using div_mult_mod_eq [of "unat x" "2 ^ 32"] by (simp only: mem_Collect_eq low)
      then show "f (unat x div 2 ^ 32) = x" unfolding f_def by (simp only: of_nat_unat ucast_id)
    qed
    show "(\<lambda>x. unat x div 2 ^ 32) ` {x :: u64. (ucast x :: u32) = v} \<subseteq> {..<2 ^ 32}"
    proof
      fix k assume "k \<in> (\<lambda>x. unat x div 2 ^ 32) ` {x :: u64. (ucast x :: u32) = v}"
      then obtain x :: u64 where "k = unat x div 2 ^ 32" by blast
      with unsigned_less [where 'a = nat, of x] show "k \<in> {..<2 ^ 32}" by (simp add: less_mult_imp_div_less)
    qed
  qed
  from bij_betw_same_card [OF this] show ?thesis by simp
qed

lemma count_all:
  assumes "distinct xs" and "set xs = UNIV"
  shows "count_list (map f xs) v = card {x. f x = v}"
proof -
  have "count_list (map f xs) v = length (filter (\<lambda>x. f x = v) xs)"
    by (induction xs) auto
  also have "\<dots> = card {x. f x = v}"
    using distinct_card [of "filter (\<lambda>x. f x = v) xs"] assms by simp
  finally show ?thesis .
qed

section \<open>Property\<close>

text \<open>
  C40.  The generator is uniform.  From any seed, 2 to the 64 draws of \<^verbatim>\<open>next_u64\<close> give every value of
  64 bits exactly once, so that concurrent callers never get the same value twice, and as many
  draws of \<^verbatim>\<open>next_u32\<close> give every value of 32 bits equally often.
\<close>

theorem rng_uniform:
  "count_list (draws next_u64 (2 ^ 64) (rng_new seed)) x = 1 \<and>
   count_list (draws next_u32 (2 ^ 64) (rng_new seed)) y = 2 ^ 32"
proof
  show "count_list (draws next_u64 (2 ^ 64) (rng_new seed)) x = 1"
    using count_all [OF draws_all, where f = "\<lambda>x. x"] by simp
  show "count_list (draws next_u32 (2 ^ 64) (rng_new seed)) y = 2 ^ 32"
    unfolding draws_u32 count_all [OF draws_all] by (rule card_ucast)
qed

end
