(* ===== verification/Network_Lifecycle.thy ===== *)
theory Network_Lifecycle
  imports Range_Scan
begin

text \<open>
  The life of the network thread (\<^verbatim>\<open>api.rs\<close>): the state machine behind the process-wide lock, the
  public calls and the hook that runs when the process exits.  The native calls are parameters.
\<close>

section \<open>The native calls\<close>

text \<open>
  Each may fail with an error, for a type \<open>'w\<close> of states of the world and \<open>'o\<close> of network options.
  A thread is its handle; \<open>None\<close> is a thread that cannot be spawned, which panics.
\<close>

record ('w, 'o) network_native =
  fdb_select_api_version :: "u32 \<Rightarrow> 'w \<Rightarrow> fdb_error option \<times> 'w"
  apply_network_option :: "'o \<Rightarrow> 'w \<Rightarrow> fdb_error option \<times> 'w"
  fdb_setup_network :: "'w \<Rightarrow> fdb_error option \<times> 'w"
  libc_atexit :: "'w \<Rightarrow> bool \<times> 'w"
  spawn_thread :: "'w \<Rightarrow> nat option \<times> 'w"
  fdb_stop_network :: "'w \<Rightarrow> fdb_error option \<times> 'w"
  join_thread :: "nat \<Rightarrow> 'w \<Rightarrow> 'w"

section \<open>The state machine\<close>

datatype network_lifecycle =
    Uninitialized
  | ApiVersionSelected u32
  | Running u32 nat
  | Stopped u32

text \<open>\<open>None\<close> is \<^verbatim>\<open>Ok(())\<close>; a call may also panic.\<close>

datatype call_result = Returned "fdb_error option" | Panicked

definition ERR_API_VERSION_UNSET :: fdb_error where "ERR_API_VERSION_UNSET = FdbError 2200"
definition ERR_API_VERSION_ALREADY_SET :: fdb_error where "ERR_API_VERSION_ALREADY_SET = FdbError 2201"
definition ERR_NETWORK_ALREADY_SETUP :: fdb_error where "ERR_NETWORK_ALREADY_SETUP = FdbError 2009"
definition ERR_NETWORK_CANNOT_BE_RESTARTED :: fdb_error where "ERR_NETWORK_CANNOT_BE_RESTARTED = FdbError 2025"

definition select_api_version ::
    "('w, 'o) network_native \<Rightarrow> u32 \<Rightarrow> network_lifecycle \<times> 'w \<Rightarrow> fdb_error option \<times> network_lifecycle \<times> 'w" where
  "select_api_version nv v st =
     (let (self, w) = st;
          selected = (\<lambda>api_version.
            (if api_version = v then None else Some ERR_API_VERSION_ALREADY_SET, self, w))
      in case self of
           Uninitialized \<Rightarrow>
             (case fdb_select_api_version nv v w of
                (Some e, w) \<Rightarrow> (Some e, self, w)
              | (None, w) \<Rightarrow> (None, ApiVersionSelected v, w))
         | ApiVersionSelected api_version \<Rightarrow> selected api_version
         | Running api_version _ \<Rightarrow> selected api_version
         | Stopped api_version \<Rightarrow> selected api_version)"

definition set_network_option ::
    "('w, 'o) network_native \<Rightarrow> 'o \<Rightarrow> network_lifecycle \<times> 'w \<Rightarrow> fdb_error option \<times> network_lifecycle \<times> 'w" where
  "set_network_option nv opt st =
     (let (self, w) = st
      in case self of
           Uninitialized \<Rightarrow> (Some ERR_API_VERSION_UNSET, self, w)
         | ApiVersionSelected _ \<Rightarrow> let (r, w) = apply_network_option nv opt w in (r, self, w)
         | Running _ _ \<Rightarrow> (Some ERR_NETWORK_ALREADY_SETUP, self, w)
         | Stopped _ \<Rightarrow> (Some ERR_NETWORK_CANNOT_BE_RESTARTED, self, w))"

text \<open>The version of the headers the bindings were built for is \<open>header\<close>.\<close>

definition start_selected ::
    "('w, 'o) network_native \<Rightarrow> network_lifecycle \<times> 'w \<Rightarrow> call_result \<times> network_lifecycle \<times> 'w" where
  "start_selected nv st =
     (let (self, w) = st
      in case self of
           Uninitialized \<Rightarrow> (Panicked, self, w)
         | ApiVersionSelected api_version \<Rightarrow>
             (case fdb_setup_network nv w of
                (Some e, w) \<Rightarrow> (Returned (Some e), self, w)
              | (None, w) \<Rightarrow>
                  let (_, w) = libc_atexit nv w
                  in case spawn_thread nv w of
                       (None, w) \<Rightarrow> (Panicked, self, w)
                     | (Some handle, w) \<Rightarrow> (Returned None, Running api_version handle, w))
         | Running _ _ \<Rightarrow> (Returned None, self, w)
         | Stopped _ \<Rightarrow> (Returned (Some ERR_NETWORK_CANNOT_BE_RESTARTED), self, w))"

definition start_network ::
    "('w, 'o) network_native \<Rightarrow> u32 \<Rightarrow> network_lifecycle \<times> 'w \<Rightarrow> call_result \<times> network_lifecycle \<times> 'w" where
  "start_network nv header st =
     (if fst st = Uninitialized
      then (case select_api_version nv header st of
              (Some e, st) \<Rightarrow> (Returned (Some e), st)
            | (None, st) \<Rightarrow> start_selected nv st)
      else start_selected nv st)"

definition stop_network ::
    "('w, 'o) network_native \<Rightarrow> network_lifecycle \<times> 'w \<Rightarrow> fdb_error option \<times> network_lifecycle \<times> 'w" where
  "stop_network nv st =
     (let (self, w) = st
      in case self of
           Uninitialized \<Rightarrow> (None, self, w)
         | ApiVersionSelected api_version \<Rightarrow> (None, Stopped api_version, w)
         | Running api_version handle \<Rightarrow>
             (case fdb_stop_network nv w of
                (Some e, w) \<Rightarrow> (Some e, self, w)
              | (None, w) \<Rightarrow> (None, Stopped api_version, join_thread nv handle w))
         | Stopped _ \<Rightarrow> (None, self, w))"

section \<open>The process\<close>

record network_process =
  network :: network_lifecycle
  stop_on_exit :: bool
  run_error_code :: u32
  aborted :: bool

definition network_process_new :: network_process where
  "network_process_new = \<lparr>network = Uninitialized, stop_on_exit = True, run_error_code = 0, aborted = False\<rparr>"

text \<open>The end of the network thread: what \<^verbatim>\<open>fdb_run_network\<close> returned is stored.\<close>

definition run_network_thread :: "fdb_error option \<Rightarrow> network_process \<Rightarrow> network_process" where
  "run_network_thread r p = (case r of None \<Rightarrow> p | Some e \<Rightarrow> p\<lparr>run_error_code := error_code e\<rparr>)"

definition network_run_error :: "network_process \<Rightarrow> fdb_error option" where
  "network_run_error p = (if run_error_code p = 0 then None else Some (FdbError (run_error_code p)))"

definition disable_stop_on_exit :: "network_process \<Rightarrow> network_process" where
  "disable_stop_on_exit p = p\<lparr>stop_on_exit := False\<rparr>"

definition network_atexit_hook :: "('w, 'o) network_native \<Rightarrow> network_process \<times> 'w \<Rightarrow> network_process \<times> 'w" where
  "network_atexit_hook nv st =
     (let (p, w) = st
      in if \<not> stop_on_exit p then (p, w)
         else case stop_network nv (network p, w) of
                (None, n, w) \<Rightarrow> (p\<lparr>network := n\<rparr>, w)
              | (Some e, n, w) \<Rightarrow> (p\<lparr>network := n, aborted := True\<rparr>, w))"

text \<open>
  The public calls, each under the lock: \<^verbatim>\<open>FdbApiBuilder::build\<close> with its version,
  \<^verbatim>\<open>NetworkBuilder::set_option\<close> and \<^verbatim>\<open>boot\<close>, \<^verbatim>\<open>ensure_network_started\<close>, \<^verbatim>\<open>stop_network\<close>; and what else
  happens to the process.
\<close>

datatype 'o network_call =
    Build u32
  | SetOption 'o
  | Boot
  | EnsureStarted
  | StopNetwork
  | DisableStopOnExit
  | ThreadEnded "fdb_error option"
  | AtExit

definition locked ::
    "(network_lifecycle \<times> 'w \<Rightarrow> 'r \<times> network_lifecycle \<times> 'w) \<Rightarrow> network_process \<times> 'w \<Rightarrow> 'r \<times> network_process \<times> 'w" where
  "locked f st = (let (p, w) = st; (r, n, w) = f (network p, w) in (r, p\<lparr>network := n\<rparr>, w))"

definition network_do ::
    "('w, 'o) network_native \<Rightarrow> u32 \<Rightarrow> 'o network_call \<Rightarrow> network_process \<times> 'w \<Rightarrow> call_result \<times> network_process \<times> 'w" where
  "network_do nv header call st =
     (case call of
        Build v \<Rightarrow> apfst Returned (locked (select_api_version nv v) st)
      | SetOption opt \<Rightarrow> apfst Returned (locked (set_network_option nv opt) st)
      | Boot \<Rightarrow> locked (start_network nv header) st
      | EnsureStarted \<Rightarrow> locked (start_network nv header) st
      | StopNetwork \<Rightarrow> apfst Returned (locked (stop_network nv) st)
      | DisableStopOnExit \<Rightarrow> (Returned None, apfst disable_stop_on_exit st)
      | ThreadEnded r \<Rightarrow> (Returned None, apfst (run_network_thread r) st)
      | AtExit \<Rightarrow> (Returned None, network_atexit_hook nv st))"

text \<open>A sequence of calls; an aborted process makes no more.\<close>

fun network_history ::
    "('w, 'o) network_native \<Rightarrow> u32 \<Rightarrow> 'o network_call list \<Rightarrow> network_process \<times> 'w \<Rightarrow> call_result list \<times> network_process \<times> 'w" where
  "network_history nv header [] st = ([], st)"
| "network_history nv header (call # calls) st =
     (if aborted (fst st) then ([], st)
      else let (r, st) = network_do nv header call st; (rs, st) = network_history nv header calls st in (r # rs, st))"

section \<open>The order the client demands\<close>

text \<open>The native calls with whether they succeeded, as a log in the state of the world.\<close>

datatype native_event =
    SelectCalled u32 bool
  | OptionApplied bool
  | SetupCalled bool
  | AtexitRegistered bool
  | ThreadSpawned "nat option"
  | StopCalled bool
  | ThreadJoined nat

definition logged_native :: "('w, 'o) network_native \<Rightarrow> ('w \<times> native_event list, 'o) network_native" where
  "logged_native nv = \<lparr>
     fdb_select_api_version = \<lambda>v (w, l). let (r, w) = fdb_select_api_version nv v w in (r, w, l @ [SelectCalled v (r = None)]),
     apply_network_option = \<lambda>opt (w, l). let (r, w) = apply_network_option nv opt w in (r, w, l @ [OptionApplied (r = None)]),
     fdb_setup_network = \<lambda>(w, l). let (r, w) = fdb_setup_network nv w in (r, w, l @ [SetupCalled (r = None)]),
     libc_atexit = \<lambda>(w, l). let (ok, w) = libc_atexit nv w in (ok, w, l @ [AtexitRegistered ok]),
     spawn_thread = \<lambda>(w, l). let (h, w) = spawn_thread nv w in (h, w, l @ [ThreadSpawned h]),
     fdb_stop_network = \<lambda>(w, l). let (r, w) = fdb_stop_network nv w in (r, w, l @ [StopCalled (r = None)]),
     join_thread = \<lambda>h (w, l). (join_thread nv h w, l @ [ThreadJoined h])\<rparr>"

text \<open>
  Select a version once, then options, then set the network up once, register the hook and start
  the thread, stop once, and join the thread; a call that fails may be repeated.  A thread that
  cannot be spawned is the exception that the comment on \<^verbatim>\<open>lock_network\<close> names: the machine
  stays where it was, so the network may be set up again.
\<close>

datatype phase = Fresh | Chosen u32 | SetUp u32 | Hooked u32 | Live u32 nat | Halting u32 nat | Over u32

fun legal_step :: "phase \<Rightarrow> native_event \<Rightarrow> phase option" where
  "legal_step Fresh (SelectCalled v ok) = Some (if ok then Chosen v else Fresh)"
| "legal_step (Chosen v) (OptionApplied ok) = Some (Chosen v)"
| "legal_step (Chosen v) (SetupCalled ok) = Some (if ok then SetUp v else Chosen v)"
| "legal_step (SetUp v) (AtexitRegistered ok) = Some (Hooked v)"
| "legal_step (Hooked v) (ThreadSpawned (Some h)) = Some (Live v h)"
| "legal_step (Hooked v) (ThreadSpawned None) = Some (Chosen v)"
| "legal_step (Live v h) (StopCalled ok) = Some (if ok then Halting v h else Live v h)"
| "legal_step (Halting v h) (ThreadJoined h') = (if h = h' then Some (Over v) else None)"
| "legal_step _ _ = None"

fun phase_after_log :: "phase \<Rightarrow> native_event list \<Rightarrow> phase option" where
  "phase_after_log q [] = Some q"
| "phase_after_log q (ev # evs) = Option.bind (legal_step q ev) (\<lambda>q. phase_after_log q evs)"

lemma phase_after_append:
  "phase_after_log q (l @ l') = Option.bind (phase_after_log q l) (\<lambda>q. phase_after_log q l')"
  by (induction l arbitrary: q) (auto split: Option.bind_split)

fun selected_version :: "phase \<Rightarrow> u32 option" where
  "selected_version Fresh = None"
| "selected_version (Chosen v) = Some v"
| "selected_version (SetUp v) = Some v"
| "selected_version (Hooked v) = Some v"
| "selected_version (Live v h) = Some v"
| "selected_version (Halting v h) = Some v"
| "selected_version (Over v) = Some v"

text \<open>The phase of the client that a state of the machine stands for.\<close>

definition in_phase :: "network_lifecycle \<Rightarrow> native_event list \<Rightarrow> bool" where
  "in_phase n l \<longleftrightarrow> (case n of
     Uninitialized \<Rightarrow> phase_after_log Fresh l = Some Fresh
   | ApiVersionSelected v \<Rightarrow> phase_after_log Fresh l = Some (Chosen v)
   | Running v h \<Rightarrow> phase_after_log Fresh l = Some (Live v h)
   | Stopped v \<Rightarrow> phase_after_log Fresh l = Some (Chosen v) \<or> phase_after_log Fresh l = Some (Over v))"

text \<open>The version a state of the machine has.\<close>

definition machine_version :: "network_lifecycle \<Rightarrow> u32 option" where
  "machine_version n = (case n of
     Uninitialized \<Rightarrow> None | ApiVersionSelected v \<Rightarrow> Some v | Running v _ \<Rightarrow> Some v | Stopped v \<Rightarrow> Some v)"

lemma select_phase:
  assumes "in_phase n l" and "select_api_version (logged_native nv) v (n, w, l) = (r, n', w', l')"
  shows "in_phase n' l'" and "r = None \<Longrightarrow> machine_version n' = Some v"
    and "machine_version n = Some u \<Longrightarrow> machine_version n' = Some u"
  using assms
  by (auto simp: select_api_version_def in_phase_def machine_version_def logged_native_def phase_after_append Let_def
      split: network_lifecycle.splits option.splits prod.splits if_splits)

lemma option_phase:
  assumes "in_phase n l" and "set_network_option (logged_native nv) opt (n, w, l) = (r, n', w', l')"
  shows "in_phase n' l'" and "n' = n"
  using assms
  by (auto simp: set_network_option_def in_phase_def logged_native_def phase_after_append Let_def
      split: network_lifecycle.splits option.splits prod.splits if_splits)

lemma selected_phase:
  assumes "in_phase n l" and "start_selected (logged_native nv) (n, w, l) = (r, n', w', l')"
  shows "in_phase n' l'" and "machine_version n = Some u \<Longrightarrow> machine_version n' = Some u"
  using assms
  by (auto simp: start_selected_def in_phase_def machine_version_def logged_native_def phase_after_append Let_def
      split: network_lifecycle.splits option.splits prod.splits if_splits)

lemma start_phase:
  assumes "in_phase n l" and "start_network (logged_native nv) header (n, w, l) = (r, n', w', l')"
  shows "in_phase n' l'" and "machine_version n = Some u \<Longrightarrow> machine_version n' = Some u"
proof -
  show "in_phase n' l'"
  proof (cases "n = Uninitialized")
    case True
    obtain e n1 w1 l1 where sel: "select_api_version (logged_native nv) header (n, w, l) = (e, n1, w1, l1)"
      by (metis prod_cases4)
    note one = select_phase(1) [OF assms(1) sel]
    show ?thesis
    proof (cases e)
      case None
      with assms(2) True sel have "start_selected (logged_native nv) (n1, w1, l1) = (r, n', w', l')"
        by (simp add: start_network_def)
      from selected_phase(1) [OF one this] show ?thesis .
    next
      case (Some a)
      with assms(2) True sel one show ?thesis by (simp add: start_network_def)
    qed
  next
    case False
    with assms(2) have "start_selected (logged_native nv) (n, w, l) = (r, n', w', l')" by (simp add: start_network_def)
    from selected_phase(1) [OF assms(1) this] show ?thesis .
  qed
  assume v: "machine_version n = Some u"
  then have "n \<noteq> Uninitialized" by (auto simp: machine_version_def)
  with assms(2) have "start_selected (logged_native nv) (n, w, l) = (r, n', w', l')" by (simp add: start_network_def)
  from selected_phase(2) [OF assms(1) this v] show "machine_version n' = Some u" .
qed

lemma stop_phase:
  assumes "in_phase n l" and "stop_network (logged_native nv) (n, w, l) = (r, n', w', l')"
  shows "in_phase n' l'" and "machine_version n = Some u \<Longrightarrow> machine_version n' = Some u"
    and "r = None \<Longrightarrow> n' \<noteq> Running v h"
  using assms
  by (auto simp: stop_network_def in_phase_def machine_version_def logged_native_def phase_after_append Let_def
      split: network_lifecycle.splits option.splits prod.splits if_splits)

text \<open>What every call keeps, and what the calls are for.\<close>

lemma do_phase:
  assumes phase: "in_phase (network p) l" and step: "network_do (logged_native nv) header call (p, w, l) = (r, p', w', l')"
  shows "in_phase (network p') l'" and "machine_version (network p) = Some u \<Longrightarrow> machine_version (network p') = Some u"
    and "call = Build v \<Longrightarrow> r = Returned None \<Longrightarrow> machine_version (network p') = Some v"
    and "call = AtExit \<Longrightarrow> stop_on_exit p' \<Longrightarrow> \<not> aborted p' \<Longrightarrow> network p' \<noteq> Running v h"
proof -
  let ?n = "logged_native nv"
  have "in_phase (network p') l' \<and> (machine_version (network p) = Some u \<longrightarrow> machine_version (network p') = Some u) \<and>
    (call = Build v \<longrightarrow> r = Returned None \<longrightarrow> machine_version (network p') = Some v) \<and>
    (call = AtExit \<longrightarrow> stop_on_exit p' \<longrightarrow> \<not> aborted p' \<longrightarrow> network p' \<noteq> Running v h)"
  proof (cases call)
    case (Build v')
    obtain e n' w1 l1 where sel: "select_api_version ?n v' (network p, w, l) = (e, n', w1, l1)" by (metis prod_cases4)
    with step Build have "r = Returned e" "p' = p\<lparr>network := n'\<rparr>" "l' = l1" by (auto simp: network_do_def locked_def)
    with select_phase [OF phase sel] Build show ?thesis by auto
  next
    case (SetOption opt)
    obtain e n' w1 l1 where set: "set_network_option ?n opt (network p, w, l) = (e, n', w1, l1)" by (metis prod_cases4)
    with step SetOption have "p' = p\<lparr>network := n'\<rparr>" "l' = l1" by (auto simp: network_do_def locked_def)
    with option_phase [OF phase set] SetOption show ?thesis by auto
  next
    case Boot
    obtain e n' w1 l1 where start: "start_network ?n header (network p, w, l) = (e, n', w1, l1)" by (metis prod_cases4)
    with step Boot have "r = e" "p' = p\<lparr>network := n'\<rparr>" "l' = l1" by (auto simp: network_do_def locked_def)
    with start_phase [OF phase start] Boot show ?thesis by auto
  next
    case EnsureStarted
    obtain e n' w1 l1 where start: "start_network ?n header (network p, w, l) = (e, n', w1, l1)" by (metis prod_cases4)
    with step EnsureStarted have "r = e" "p' = p\<lparr>network := n'\<rparr>" "l' = l1" by (auto simp: network_do_def locked_def)
    with start_phase [OF phase start] EnsureStarted show ?thesis by auto
  next
    case StopNetwork
    obtain e n' w1 l1 where stop: "stop_network ?n (network p, w, l) = (e, n', w1, l1)" by (metis prod_cases4)
    with step StopNetwork have "p' = p\<lparr>network := n'\<rparr>" "l' = l1" by (auto simp: network_do_def locked_def)
    with stop_phase [OF phase stop] StopNetwork show ?thesis by auto
  next
    case AtExit
    obtain e n' w1 l1 where stop: "stop_network ?n (network p, w, l) = (e, n', w1, l1)" by (metis prod_cases4)
    with step AtExit phase stop_phase [OF phase stop] show ?thesis
      by (auto simp: network_do_def network_atexit_hook_def split: if_splits option.splits)
  qed (use step phase in \<open>auto simp: network_do_def disable_stop_on_exit_def run_network_thread_def split: option.splits\<close>)
  then show "in_phase (network p') l'" "machine_version (network p) = Some u \<Longrightarrow> machine_version (network p') = Some u"
    "call = Build v \<Longrightarrow> r = Returned None \<Longrightarrow> machine_version (network p') = Some v"
    "call = AtExit \<Longrightarrow> stop_on_exit p' \<Longrightarrow> \<not> aborted p' \<Longrightarrow> network p' \<noteq> Running v h" by blast+
qed

lemma history_phase:
  assumes "in_phase (network p) l"
    and "network_history (logged_native nv) header calls (p, w, l) = (rs, p', w', l')"
  shows "in_phase (network p') l' \<and> (machine_version (network p) = Some u \<longrightarrow> machine_version (network p') = Some u) \<and>
    (\<forall>v. (Build v, Returned None) \<in> set (zip calls rs) \<longrightarrow> machine_version (network p') = Some v) \<and>
    (calls \<noteq> [] \<longrightarrow> last calls = AtExit \<longrightarrow> stop_on_exit p' \<longrightarrow> \<not> aborted p' \<longrightarrow> (\<forall>v h. network p' \<noteq> Running v h))"
  using assms
proof (induction calls arbitrary: p w l rs u p' w' l')
  case Nil
  then show ?case by auto
next
  case (Cons call calls)
  show ?case
  proof (cases "aborted p")
    case True
    with Cons.prems show ?thesis by auto
  next
    case False
    obtain r p1 w1 l1 where step: "network_do (logged_native nv) header call (p, w, l) = (r, p1, w1, l1)" by (metis prod_cases4)
    obtain rs1 p2 w2 l2 where
      rest: "network_history (logged_native nv) header calls (p1, w1, l1) = (rs1, p2, w2, l2)" by (metis prod_cases4)
    from Cons.prems(2) False step rest have eq: "rs = r # rs1" "p' = p2" "l' = l2" by auto
    note one = do_phase [OF Cons.prems(1) step]
    note IH = Cons.IH [OF one(1) rest]
    have version: "machine_version (network p1) = Some u \<longrightarrow> machine_version (network p2) = Some u" for u
      using IH [of u] by blast
    have builds: "machine_version (network p2) = Some v" if "(Build v, Returned None) \<in> set (zip (call # calls) rs)" for v
    proof (cases "call = Build v \<and> r = Returned None")
      case True
      with one(3) version show ?thesis by blast
    next
      case False
      with that eq have "(Build v, Returned None) \<in> set (zip calls rs1)" by auto
      with IH show ?thesis by blast
    qed
    have exit: "network p2 \<noteq> Running v h" if "last (call # calls) = AtExit" "stop_on_exit p2" "\<not> aborted p2" for v h
    proof (cases "calls = []")
      case True
      with rest have "p2 = p1" by simp
      with that True one(4) show ?thesis by simp
    next
      case False
      with that IH show ?thesis by auto
    qed
    show ?thesis unfolding eq using IH builds exit one(2) version by (metis eq(1))
  qed
qed

lemma machine_phase:
  assumes "in_phase n l"
  shows "\<exists>q. phase_after_log Fresh l = Some q \<and> machine_version n = selected_version q \<and>
    (\<forall>v h. n = Running v h \<longleftrightarrow> q = Live v h)"
  using assms by (cases n) (auto simp: in_phase_def machine_version_def)

text \<open>Every panic is a thread that could not be spawned, and the other way round.\<close>

lemma select_spawns:
  assumes "select_api_version (logged_native nv) v (n, w, l) = (r, n', w', l')"
  shows "count_list l' (ThreadSpawned None) = count_list l (ThreadSpawned None)" and "r = None \<Longrightarrow> n' \<noteq> Uninitialized"
  using assms
  by (auto simp: select_api_version_def logged_native_def Let_def split: network_lifecycle.splits option.splits prod.splits)

lemma selected_spawns:
  assumes "start_selected (logged_native nv) (n, w, l) = (r, n', w', l')" and "n \<noteq> Uninitialized"
  shows "count_list l' (ThreadSpawned None) = count_list l (ThreadSpawned None) + count_list [r] Panicked"
  using assms
  by (auto simp: start_selected_def logged_native_def Let_def split: network_lifecycle.splits option.splits prod.splits)

lemma start_spawns:
  assumes "start_network (logged_native nv) header (n, w, l) = (r, n', w', l')"
  shows "count_list l' (ThreadSpawned None) = count_list l (ThreadSpawned None) + count_list [r] Panicked"
proof (cases "n = Uninitialized")
  case True
  obtain e n1 w1 l1 where sel: "select_api_version (logged_native nv) header (n, w, l) = (e, n1, w1, l1)"
    by (metis prod_cases4)
  with assms True have rest: "(case e of Some e \<Rightarrow> (Returned (Some e), n1, w1, l1)
      | None \<Rightarrow> start_selected (logged_native nv) (n1, w1, l1)) = (r, n', w', l')"
    by (auto simp: start_network_def split: option.splits)
  show ?thesis
  proof (cases e)
    case None
    with rest have "start_selected (logged_native nv) (n1, w1, l1) = (r, n', w', l')" by simp
    from selected_spawns [OF this select_spawns(2) [OF sel None]] select_spawns(1) [OF sel] show ?thesis by simp
  next
    case (Some a)
    with rest select_spawns(1) [OF sel] show ?thesis by auto
  qed
next
  case False
  with assms have "start_selected (logged_native nv) (n, w, l) = (r, n', w', l')" by (simp add: start_network_def)
  from selected_spawns [OF this False] show ?thesis .
qed

lemma other_spawns:
  "set_network_option (logged_native nv) opt (n, w, l) = (e, n', w', l') \<Longrightarrow>
     count_list l' (ThreadSpawned None) = count_list l (ThreadSpawned None)"
  "stop_network (logged_native nv) (n, w, l) = (e, n', w', l') \<Longrightarrow>
     count_list l' (ThreadSpawned None) = count_list l (ThreadSpawned None)"
  by (auto simp: set_network_option_def stop_network_def logged_native_def Let_def
      split: network_lifecycle.splits option.splits prod.splits)

lemma do_spawns:
  assumes "network_do (logged_native nv) header call (p, w, l) = (r, p', w', l')"
  shows "count_list l' (ThreadSpawned None) = count_list l (ThreadSpawned None) + count_list [r] Panicked"
proof (cases call)
  case AtExit
  with assms show ?thesis
    by (auto simp: network_do_def network_atexit_hook_def dest: other_spawns split: if_splits prod.splits option.splits)
qed (use assms in \<open>auto simp: network_do_def locked_def apfst_def map_prod_def dest: select_spawns(1) other_spawns start_spawns
    split: prod.splits\<close>)

lemma history_spawns:
  "network_history (logged_native nv) header calls (p, w, l) = (rs, p', w', l') \<Longrightarrow>
   count_list l' (ThreadSpawned None) = count_list l (ThreadSpawned None) + count_list rs Panicked"
proof (induction calls arbitrary: p w l rs p' w' l')
  case (Cons call calls)
  show ?case
  proof (cases "aborted p")
    case True
    with Cons.prems show ?thesis by auto
  next
    case False
    obtain r p1 w1 l1 where step: "network_do (logged_native nv) header call (p, w, l) = (r, p1, w1, l1)" by (metis prod_cases4)
    obtain rs1 p2 w2 l2 where
      rest: "network_history (logged_native nv) header calls (p1, w1, l1) = (rs1, p2, w2, l2)" by (metis prod_cases4)
    from Cons.prems False step rest have "rs = r # rs1" "l' = l2" by auto
    with Cons.IH [OF rest] do_spawns [OF step] show ?thesis by (simp split: if_splits)
  qed
qed simp

text \<open>Between two set-ups that succeed a thread could not be spawned.\<close>

definition set_up :: "phase \<Rightarrow> nat" where
  "set_up q = (case q of Fresh \<Rightarrow> 0 | Chosen _ \<Rightarrow> 0 | _ \<Rightarrow> 1)"

lemma setups_counted:
  "phase_after_log q l = Some q' \<Longrightarrow>
   set_up q + count_list l (SetupCalled True) = set_up q' + count_list l (ThreadSpawned None)"
proof (induction l arbitrary: q)
  case (Cons ev l)
  then obtain q1 where step: "legal_step q ev = Some q1" and rest: "phase_after_log q1 l = Some q'"
    by (auto simp: bind_eq_Some_conv)
  have "set_up q + count_list [ev] (SetupCalled True) = set_up q1 + count_list [ev] (ThreadSpawned None)"
    using step by (cases "(q, ev)" rule: legal_step.cases) (auto simp: set_up_def split: if_splits)
  with Cons.IH [OF rest] show ?case by (simp split: if_splits)
qed simp

section \<open>Property\<close>

text \<open>
  C23.  The life of the network.  Whatever the calls of the process and whichever native calls fail, the
  native calls come in the order the client demands: one version is selected, options are set
  only before the network is set up, the exit hook is registered before the thread starts, the
  network is stopped only while the thread runs, and the thread is joined once.  The network is
  set up successfully at most once, and once more for every thread that could not be spawned: such a
  spawn, and nothing else, makes a call panic, and as the comment on \<^verbatim>\<open>lock_network\<close> says
  (\<^verbatim>\<open>api.rs\<close> 83-88) the state then stays as before the start, so that a retry asks the client
  again, which may refuse.  Every build that succeeds got the version that was selected, and after
  the exit hook the thread does not run, unless the process aborted or turned the hook off.
\<close>

theorem network_calls_legal:
  assumes "network_history (logged_native nv) header calls (network_process_new, w, []) = (rs, p, w', log)"
  shows "\<exists>q. phase_after_log Fresh log = Some q \<and>
    count_list rs Panicked = count_list log (ThreadSpawned None) \<and>
    count_list log (SetupCalled True) \<le> 1 + count_list rs Panicked \<and>
    (\<forall>v. (Build v, Returned None) \<in> set (zip calls rs) \<longrightarrow> selected_version q = Some v) \<and>
    (\<forall>v h. network p = Running v h \<longleftrightarrow> q = Live v h) \<and>
    (calls \<noteq> [] \<longrightarrow> last calls = AtExit \<longrightarrow> stop_on_exit p \<longrightarrow> \<not> aborted p \<longrightarrow> (\<forall>v h. q \<noteq> Live v h))"
proof -
  have "in_phase (network network_process_new) []" by (simp add: in_phase_def network_process_new_def)
  note history = history_phase [OF this assms]
  then have "in_phase (network p) log" by blast
  from machine_phase [OF this] obtain q where q: "phase_after_log Fresh log = Some q"
    "machine_version (network p) = selected_version q" "\<forall>v h. network p = Running v h \<longleftrightarrow> q = Live v h" by blast
  have spawns: "count_list log (ThreadSpawned None) = count_list rs Panicked" using history_spawns [OF assms] by simp
  have "set_up q \<le> 1" by (simp add: set_up_def split: phase.split)
  with setups_counted [OF q(1)] spawns have "count_list log (SetupCalled True) \<le> 1 + count_list rs Panicked"
    by (simp add: set_up_def)
  with history q spawns show ?thesis by auto
qed

definition steady_native :: "(unit, unit) network_native" where
  "steady_native = \<lparr>fdb_select_api_version = \<lambda>v w. (None, w), apply_network_option = \<lambda>opt w. (None, w),
     fdb_setup_network = \<lambda>w. (None, w), libc_atexit = \<lambda>w. (True, w), spawn_thread = \<lambda>w. (Some 3, w),
     fdb_stop_network = \<lambda>w. (None, w), join_thread = \<lambda>h w. w\<rparr>"

theorem network_calls_legal_witness:
  "\<exists>rs p log. network_history (logged_native steady_native) 740
      [Build 710, SetOption (), EnsureStarted, Build 620, AtExit] (network_process_new, (), []) = (rs, p, (), log) \<and>
    rs = [Returned None, Returned None, Returned None, Returned (Some ERR_API_VERSION_ALREADY_SET), Returned None] \<and>
    phase_after_log Fresh log = Some (Over 710) \<and> (\<forall>v h. network p \<noteq> Running v h)"
proof -
  let ?log = "[SelectCalled 710 True, OptionApplied True, SetupCalled True, AtexitRegistered True, ThreadSpawned (Some 3),
     StopCalled True, ThreadJoined 3]"
  let ?rs = "[Returned None, Returned None, Returned None, Returned (Some ERR_API_VERSION_ALREADY_SET), Returned None]"
  let ?calls = "[Build 710, SetOption (), EnsureStarted, Build 620, AtExit]"
  let ?p = "network_process_new\<lparr>network := Stopped 710\<rparr>"
  have run: "network_history (logged_native steady_native) 740 ?calls (network_process_new, (), []) = (?rs, ?p, (), ?log)"
    by (simp add: network_do_def locked_def select_api_version_def set_network_option_def start_network_def start_selected_def
        stop_network_def network_atexit_hook_def logged_native_def steady_native_def network_process_new_def)
  from network_calls_legal [OF run] obtain q where q: "phase_after_log Fresh ?log = Some q"
    "\<forall>v h. network ?p = Running v h \<longleftrightarrow> q = Live v h" by auto
  have over: "phase_after_log Fresh ?log = Some (Over 710)" by simp
  with q(1) have "q = Over 710" by simp
  with q(2) have "\<forall>v h. network ?p \<noteq> Running v h" by simp
  with run over show ?thesis by blast
qed

end
