(* ===== verification/Native_Future.thy ===== *)
theory Native_Future
  imports Range_Scan
begin

text \<open>
  The future of a native operation (\<^verbatim>\<open>future.rs\<close>): one poll, the callback of the network thread and
  the waker they share, in every interleaving of the two threads.
\<close>

section \<open>The state\<close>

text \<open>
  The native future is ready or not, with an error or what its conversion gives, and calls a
  callback that was set once, after it is ready.
\<close>

datatype callback_slot = CallbackUnset | CallbackSet | CallbackRan

text \<open>
  \<open>waker\<close> is the \<^verbatim>\<open>Option<Arc<AtomicWaker>>\<close>: none yet, or a cell with at most one registered task.
  \<open>raw_refs\<close> counts the references to the cell that are handed to the native client and not yet taken
  back.  \<open>woken\<close> are the tasks that were woken since they last began to poll, \<open>waiter\<close> is the task whose
  poll, the last one, returned \<^verbatim>\<open>Pending\<close>.
\<close>

record 'r future_state =
  native_ready :: bool
  native_error :: "fdb_error option"
  native_value :: "fdb_error + 'r"
  callback :: callback_slot
  has_handle :: bool
  waker :: "nat option option"
  raw_refs :: int
  woken :: "nat set"
  waiter :: "nat option"

definition future_new :: "fdb_error option \<Rightarrow> fdb_error + 'r \<Rightarrow> 'r future_state" where
  "future_new err val = \<lparr>native_ready = False, native_error = err, native_value = val, callback = CallbackUnset,
     has_handle = True, waker = None, raw_refs = 0, woken = {}, waiter = None\<rparr>"

section \<open>The parts of a poll\<close>

datatype 'r poll_outcome = Pending | Ready "fdb_error + 'r" | PollPanics

text \<open>The ready future: an error leaves the handle, a value takes it out.\<close>

definition poll_resolved :: "'r future_state \<Rightarrow> 'r poll_outcome \<times> 'r future_state" where
  "poll_resolved s =
     (case native_error s of
        Some e \<Rightarrow> (Ready (Inl e), s)
      | None \<Rightarrow> (Ready (native_value s), s\<lparr>has_handle := False\<rparr>))"

definition wake :: "'r future_state \<Rightarrow> 'r future_state" where
  "wake s = (case waker s of
     Some (Some t) \<Rightarrow> s\<lparr>waker := Some None, woken := insert t (woken s)\<rparr>
   | _ \<Rightarrow> s)"

text \<open>The callback takes its reference to the cell back and wakes; \<open>hook\<close> is the executor of a simulation.\<close>

definition fdb_future_callback ::
    "('r future_state \<Rightarrow> 'r future_state) option \<Rightarrow> 'r future_state \<Rightarrow> 'r future_state" where
  "fdb_future_callback hook s =
     (let s = wake (s\<lparr>raw_refs := raw_refs s - 1\<rparr>)
      in case hook of None \<Rightarrow> s | Some poll_pending_tasks \<Rightarrow> poll_pending_tasks s)"

text \<open>The native \<^verbatim>\<open>fdb_future_set_callback\<close>: on a ready future the callback runs at once.\<close>

definition set_callback ::
    "('r future_state \<Rightarrow> 'r future_state) option \<Rightarrow> 'r future_state \<Rightarrow> 'r future_state" where
  "set_callback hook s =
     (let s = s\<lparr>raw_refs := raw_refs s + 1\<rparr>
      in if native_ready s then fdb_future_callback hook (s\<lparr>callback := CallbackRan\<rparr>)
         else s\<lparr>callback := CallbackSet\<rparr>)"

definition register_waker :: "nat \<Rightarrow> 'r future_state \<Rightarrow> bool \<times> 'r future_state" where
  "register_waker t s = (waker s = None, s\<lparr>waker := Some (Some t)\<rparr>)"

text \<open>A poll that nothing comes in between.\<close>

definition future_poll ::
    "('r future_state \<Rightarrow> 'r future_state) option \<Rightarrow> nat \<Rightarrow> 'r future_state \<Rightarrow> 'r poll_outcome \<times> 'r future_state" where
  "future_poll hook t s =
     (if \<not> has_handle s then (PollPanics, s)
      else if \<not> native_ready s
      then let (register, s) = register_waker t s
           in (Pending, if register then set_callback hook s else s)
      else poll_resolved s)"

section \<open>Interleavings\<close>

text \<open>Where the polling thread is: between its steps the network thread can run.\<close>

datatype poll_point = Between | SawPending nat | Registered nat

text \<open>The tasks in \<open>T\<close> poll the future, one poll at a time.\<close>

inductive future_step :: "nat set \<Rightarrow> 'r future_state \<times> poll_point \<Rightarrow> 'r future_state \<times> poll_point \<Rightarrow> bool" for T where
  resolve: "t \<in> T \<Longrightarrow> has_handle s \<Longrightarrow> native_ready s \<Longrightarrow>
    future_step T (s, Between) ((snd (poll_resolved s))\<lparr>waiter := None\<rparr>, Between)"
| check: "t \<in> T \<Longrightarrow> has_handle s \<Longrightarrow> \<not> native_ready s \<Longrightarrow>
    future_step T (s, Between) (s\<lparr>woken := woken s - {t}, waiter := None\<rparr>, SawPending t)"
| register_first: "register_waker t s = (True, s') \<Longrightarrow> future_step T (s, SawPending t) (s', Registered t)"
| register_again: "register_waker t s = (False, s') \<Longrightarrow>
    future_step T (s, SawPending t) (s'\<lparr>waiter := Some t\<rparr>, Between)"
| arm: "future_step T (s, Registered t) ((set_callback None s)\<lparr>waiter := Some t\<rparr>, Between)"
| becomes_ready: "\<not> native_ready s \<Longrightarrow> future_step T (s, p) (s\<lparr>native_ready := True\<rparr>, p)"
| call_back: "native_ready s \<Longrightarrow> callback s = CallbackSet \<Longrightarrow>
    future_step T (s, p) (fdb_future_callback None (s\<lparr>callback := CallbackRan\<rparr>), p)"

abbreviation future_reaches :: "nat set \<Rightarrow> 'r future_state \<times> poll_point \<Rightarrow> 'r future_state \<times> poll_point \<Rightarrow> bool" where
  "future_reaches T \<equiv> (future_step T)\<^sup>*\<^sup>*"

text \<open>Nothing is under way: no poll, and the native client has called back.\<close>

definition settled :: "'r future_state \<times> poll_point \<Rightarrow> bool" where
  "settled x \<longleftrightarrow> snd x = Between \<and> native_ready (fst x) \<and> callback (fst x) \<noteq> CallbackSet"

text \<open>An uninterrupted poll is a run of the steps.\<close>

lemma poll_is_steps:
  assumes "t \<in> T" and "future_poll None t s = (Pending, s')"
  shows "future_reaches T (s, Between) (s'\<lparr>woken := woken s - {t}, waiter := Some t\<rparr>, Between)"
proof -
  have s: "has_handle s" "\<not> native_ready s"
    using assms(2) by (auto simp: future_poll_def poll_resolved_def split: if_splits option.splits)
  let ?s1 = "s\<lparr>woken := woken s - {t}, waiter := None\<rparr>"
  let ?s2 = "?s1\<lparr>waker := Some (Some t)\<rparr>"
  let ?stop = "(s'\<lparr>woken := woken s - {t}, waiter := Some t\<rparr>, Between)"
  have one: "future_step T (s, Between) (?s1, SawPending t)" by (rule future_step.check [OF assms(1) s])
  show ?thesis
  proof (cases "waker s = None")
    case True
    have "register_waker t ?s1 = (True, ?s2)" by (simp add: register_waker_def True)
    then have two: "future_step T (?s1, SawPending t) (?s2, Registered t)" by (rule future_step.register_first)
    have "s' = s\<lparr>waker := Some (Some t), raw_refs := raw_refs s + 1, callback := CallbackSet\<rparr>"
      using assms(2) s True by (simp add: future_poll_def register_waker_def set_callback_def)
    then have last: "?stop = ((set_callback None ?s2)\<lparr>waiter := Some t\<rparr>, Between)"
      using s by (simp add: set_callback_def)
    have "future_step T (?s2, Registered t) ?stop" unfolding last by (rule future_step.arm)
    then have "future_reaches T (?s2, Registered t) ?stop" by (rule r_into_rtranclp)
    with two have "future_reaches T (?s1, SawPending t) ?stop" by (rule converse_rtranclp_into_rtranclp)
    with one show ?thesis by (rule converse_rtranclp_into_rtranclp)
  next
    case False
    have "register_waker t ?s1 = (False, ?s2)" by (simp add: register_waker_def False)
    then have two: "future_step T (?s1, SawPending t) (?s2\<lparr>waiter := Some t\<rparr>, Between)"
      by (rule future_step.register_again)
    have "s' = s\<lparr>waker := Some (Some t)\<rparr>"
      using assms(2) s False by (simp add: future_poll_def register_waker_def)
    then have "?stop = (?s2\<lparr>waiter := Some t\<rparr>, Between)" by simp
    with two have "future_step T (?s1, SawPending t) ?stop" by (simp only:)
    then have "future_reaches T (?s1, SawPending t) ?stop" by (rule r_into_rtranclp)
    with one show ?thesis by (rule converse_rtranclp_into_rtranclp)
  qed
qed

section \<open>The invariant\<close>

definition future_ok :: "fdb_error option \<Rightarrow> fdb_error + 'r \<Rightarrow> nat set \<Rightarrow> 'r future_state \<times> poll_point \<Rightarrow> bool" where
  "future_ok err val T x \<longleftrightarrow> (case x of (s, p) \<Rightarrow>
     native_error s = err \<and> native_value s = val \<and>
     raw_refs s = (if callback s = CallbackSet then 1 else 0) \<and>
     (callback s = CallbackRan \<longrightarrow> native_ready s \<and> woken s \<inter> T \<noteq> {}) \<and>
     (callback s = CallbackSet \<longrightarrow> (\<exists>v \<in> T. waker s = Some (Some v))) \<and>
     (case p of
        Between \<Rightarrow> (waker s = None \<longleftrightarrow> callback s = CallbackUnset) \<and>
          (\<forall>t. waiter s = Some t \<longrightarrow> t \<in> T \<and> waker s \<noteq> None \<and> has_handle s)
      | SawPending t \<Rightarrow> (waker s = None \<longleftrightarrow> callback s = CallbackUnset) \<and> t \<in> T \<and> has_handle s \<and> waiter s = None
      | Registered t \<Rightarrow> callback s = CallbackUnset \<and> waker s = Some (Some t) \<and> t \<in> T \<and> has_handle s \<and> waiter s = None))"

lemma future_ok_step:
  assumes "future_ok err val T x" and "future_step T x y"
  shows "future_ok err val T y"
  using assms(2)
proof cases
  case (resolve t s)
  with assms(1) show ?thesis
    by (cases "callback s") (auto simp: future_ok_def poll_resolved_def split: option.split)
next
  case (check t s)
  with assms(1) show ?thesis by (cases "callback s") (auto simp: future_ok_def)
next
  case (register_first t s s')
  with assms(1) show ?thesis by (auto simp: future_ok_def register_waker_def)
next
  case (register_again t s s')
  with assms(1) show ?thesis by (cases "callback s") (auto simp: future_ok_def register_waker_def)
next
  case (arm s t)
  with assms(1) show ?thesis
    by (auto simp: future_ok_def set_callback_def fdb_future_callback_def wake_def Let_def)
next
  case (becomes_ready s p)
  with assms(1) show ?thesis by (auto simp: future_ok_def split: poll_point.split)
next
  case (call_back s p)
  with assms(1) show ?thesis
    by (auto simp: future_ok_def fdb_future_callback_def wake_def Let_def split: poll_point.split)
qed

lemma future_ok_reaches:
  assumes "future_reaches T (future_new err val, Between) x"
  shows "future_ok err val T x"
  using assms
proof induction
  case base
  show ?case by (simp add: future_ok_def future_new_def)
qed (rule future_ok_step)

section \<open>Properties\<close>

text \<open>
  C22.  No wakeup is lost.  However the polls of one task interleave with the completion of the native
  future and its callback, once nothing is under way a task whose poll returned \<^verbatim>\<open>Pending\<close> has been
  woken, and its next poll returns the error or the value of the native future.  The reference to
  the waker that is handed to the client is out exactly while the callback is due.
\<close>

theorem no_lost_wakeup:
  assumes "future_reaches {t} (future_new err val, Between) (s, p)"
  shows "raw_refs s = (if callback s = CallbackSet then 1 else 0) \<and>
    (settled (s, p) \<longrightarrow> waiter s = Some t \<longrightarrow>
      t \<in> woken s \<and> fst (future_poll None t s) = Ready (case err of Some e \<Rightarrow> Inl e | None \<Rightarrow> val))"
proof -
  note ok = future_ok_reaches [OF assms, unfolded future_ok_def prod.case]
  have "t \<in> woken s \<and> fst (future_poll None t s) = Ready (case err of Some e \<Rightarrow> Inl e | None \<Rightarrow> val)"
    if "settled (s, p)" "waiter s = Some t"
  proof -
    from that(1) have p: "p = Between" "native_ready s" "callback s \<noteq> CallbackSet" by (simp_all add: settled_def)
    with ok that(2) have "waker s \<noteq> None" "has_handle s" "callback s \<noteq> CallbackUnset" by auto
    with p(3) have "callback s = CallbackRan" by (cases "callback s") simp_all
    with ok have "woken s \<inter> {t} \<noteq> {}" by blast
    moreover have "native_error s = err" "native_value s = val" using ok by simp_all
    ultimately show ?thesis using p(2) \<open>has_handle s\<close>
      by (simp add: future_poll_def poll_resolved_def split: option.split)
  qed
  with ok show ?thesis by blast
qed

text \<open>
  With several tasks a wakeup can be lost: the second poll sees a future that is not ready, the
  callback wakes the task of the first poll, and only then the second poll registers its task.
\<close>

theorem wakeup_can_be_lost:
  "\<exists>s. future_reaches {0, 1} (future_new err val, Between) (s, Between) \<and>
    settled (s, Between) \<and> waiter s = Some 1 \<and> 1 \<notin> woken s"
proof -
  let ?n = "future_new err val :: 'a future_state"
  let ?s1 = "?n\<lparr>waker := Some (Some 0), raw_refs := 1, callback := CallbackSet\<rparr>"
  have p1: "future_poll None 0 ?n = (Pending, ?s1)"
    by (simp add: future_poll_def future_new_def register_waker_def set_callback_def)
  let ?s2 = "?s1\<lparr>woken := {}, waiter := Some 0\<rparr>"
  have r1: "future_reaches {0, 1} (?n, Between) (?s2, Between)"
    using poll_is_steps [OF _ p1, of "{0, 1}"] by (simp add: future_new_def)
  let ?s3 = "?s2\<lparr>waiter := None\<rparr>"
  have "future_step {0, 1} (?s2, Between) (?s2\<lparr>woken := woken ?s2 - {1}, waiter := None\<rparr>, SawPending 1)"
    by (rule future_step.check) (simp_all add: future_new_def)
  then have r2: "future_step {0, 1} (?s2, Between) (?s3, SawPending 1)" by (simp add: future_new_def)
  let ?s4 = "?s3\<lparr>native_ready := True\<rparr>"
  have r3: "future_step {0, 1} (?s3, SawPending 1) (?s4, SawPending 1)"
    by (rule future_step.becomes_ready) (simp add: future_new_def)
  let ?s5 = "fdb_future_callback None (?s4\<lparr>callback := CallbackRan\<rparr>)"
  have r4: "future_step {0, 1} (?s4, SawPending 1) (?s5, SawPending 1)"
    by (rule future_step.call_back) (simp_all add: future_new_def)
  let ?s6 = "?s5\<lparr>waker := Some (Some 1)\<rparr>"
  have "register_waker 1 ?s5 = (False, ?s6)"
    by (simp add: register_waker_def fdb_future_callback_def wake_def future_new_def)
  then have r5: "future_step {0, 1} (?s5, SawPending 1) (?s6\<lparr>waiter := Some 1\<rparr>, Between)"
    by (rule future_step.register_again)
  have "future_reaches {0, 1} (?n, Between) (?s6\<lparr>waiter := Some 1\<rparr>, Between)"
    by (rule rtranclp.rtrancl_into_rtrancl [OF rtranclp.rtrancl_into_rtrancl [OF rtranclp.rtrancl_into_rtrancl
      [OF rtranclp.rtrancl_into_rtrancl [OF r1 r2] r3] r4] r5])
  moreover have "settled (?s6\<lparr>waiter := Some 1\<rparr>, Between)" "waiter (?s6\<lparr>waiter := Some 1\<rparr>) = Some 1"
    "1 \<notin> woken (?s6\<lparr>waiter := Some 1\<rparr>)"
    by (simp_all add: settled_def fdb_future_callback_def wake_def future_new_def)
  ultimately show ?thesis by blast
qed

theorem no_lost_wakeup_witness:
  "\<exists>s. future_reaches {4} (future_new None (Inr 5), Between) (s, Between) \<and> settled (s, Between) \<and>
    waiter s = Some 4 \<and> 4 \<in> woken s \<and> fst (future_poll None 4 s) = Ready (Inr (5 :: nat))"
proof -
  let ?n = "future_new None (Inr 5) :: nat future_state"
  let ?s1 = "?n\<lparr>waker := Some (Some 4), raw_refs := 1, callback := CallbackSet, woken := {}, waiter := Some 4\<rparr>"
  have p1: "future_poll None 4 ?n = (Pending, ?n\<lparr>waker := Some (Some 4), raw_refs := 1, callback := CallbackSet\<rparr>)"
    by (simp add: future_poll_def future_new_def register_waker_def set_callback_def)
  have r1: "future_reaches {4} (?n, Between) (?s1, Between)"
    using poll_is_steps [OF _ p1, of "{4}"] by (simp add: future_new_def)
  let ?s2 = "?s1\<lparr>native_ready := True\<rparr>"
  have r2: "future_step {4} (?s1, Between) (?s2, Between)"
    by (rule future_step.becomes_ready) (simp add: future_new_def)
  let ?s3 = "fdb_future_callback None (?s2\<lparr>callback := CallbackRan\<rparr>)"
  have r3: "future_step {4} (?s2, Between) (?s3, Between)"
    by (rule future_step.call_back) (simp_all add: future_new_def)
  have reach: "future_reaches {4} (?n, Between) (?s3, Between)"
    by (rule rtranclp.rtrancl_into_rtrancl [OF rtranclp.rtrancl_into_rtrancl [OF r1 r2] r3])
  have "settled (?s3, Between)" "waiter ?s3 = Some 4"
    by (simp_all add: settled_def fdb_future_callback_def wake_def future_new_def)
  with no_lost_wakeup [OF reach] reach show ?thesis by auto
qed

end
