(* ===== verification/Owned_Values.thy ===== *)
theory Owned_Values
  imports Range_Scan
begin

text \<open>
  The iterator over the pairs of a resolved future (\<^verbatim>\<open>FdbValuesIter\<close> of \<^verbatim>\<open>future.rs\<close>): it indexes an array
  of the native client without checks, from both ends.
\<close>

text \<open>The array is a list; \<open>iter_len\<close> is an \<^verbatim>\<open>i32\<close> of the client.\<close>

record 'a values_iter =
  keyvalues :: "'a list"
  iter_pos :: nat
  iter_len :: nat

definition values_into_iter :: "'a list \<Rightarrow> 'a values_iter" where
  "values_into_iter xs = \<lparr>keyvalues = xs, iter_pos = 0, iter_len = length xs\<rparr>"

definition pos_checked_add :: "nat \<Rightarrow> nat \<Rightarrow> nat option" where
  "pos_checked_add a b = (if a + b < 2 ^ 64 then Some (a + b) else None)"

text \<open>The unchecked access to the array.\<close>

definition array_at :: "'a values_iter \<Rightarrow> nat \<Rightarrow> 'a" where
  "array_at self i = keyvalues self ! i"

definition iter_nth :: "nat \<Rightarrow> 'a values_iter \<Rightarrow> 'a option \<times> 'a values_iter" where
  "iter_nth n self =
     (let exhausted = (None, self\<lparr>iter_pos := iter_len self\<rparr>)
      in case pos_checked_add (iter_pos self) n of
           Some p \<Rightarrow>
             if p < iter_len self then (Some (array_at self p), self\<lparr>iter_pos := p + 1\<rparr>) else exhausted
         | None \<Rightarrow> exhausted)"

definition iter_next :: "'a values_iter \<Rightarrow> 'a option \<times> 'a values_iter" where
  "iter_next = iter_nth 0"

definition iter_remaining :: "'a values_iter \<Rightarrow> nat" where
  "iter_remaining self = iter_len self - iter_pos self"

definition size_hint :: "'a values_iter \<Rightarrow> nat \<times> nat option" where
  "size_hint self = (let r = iter_len self - iter_pos self in (r, Some r))"

definition iter_nth_back :: "nat \<Rightarrow> 'a values_iter \<Rightarrow> 'a option \<times> 'a values_iter" where
  "iter_nth_back n self =
     (if n < iter_remaining self
      then let self = self\<lparr>iter_len := iter_len self - (1 + n)\<rparr> in (Some (array_at self (iter_len self)), self)
      else (None, self\<lparr>iter_pos := iter_len self\<rparr>))"

definition iter_next_back :: "'a values_iter \<Rightarrow> 'a option \<times> 'a values_iter" where
  "iter_next_back = iter_nth_back 0"

section \<open>A list consumed from both ends\<close>

datatype iter_call = Next | Nth nat | NextBack | NthBack nat

definition iter_do :: "iter_call \<Rightarrow> 'a values_iter \<Rightarrow> 'a option \<times> 'a values_iter" where
  "iter_do call = (case call of
     Next \<Rightarrow> iter_next | Nth n \<Rightarrow> iter_nth n | NextBack \<Rightarrow> iter_next_back | NthBack n \<Rightarrow> iter_nth_back n)"

definition list_nth :: "nat \<Rightarrow> 'a list \<Rightarrow> 'a option \<times> 'a list" where
  "list_nth n xs = (if n < length xs then (Some (xs ! n), drop (n + 1) xs) else (None, []))"

definition list_do :: "iter_call \<Rightarrow> 'a list \<Rightarrow> 'a option \<times> 'a list" where
  "list_do call xs = (case call of
     Next \<Rightarrow> list_nth 0 xs
   | Nth n \<Rightarrow> list_nth n xs
   | NextBack \<Rightarrow> apsnd rev (list_nth 0 (rev xs))
   | NthBack n \<Rightarrow> apsnd rev (list_nth n (rev xs)))"

definition left_over :: "'a values_iter \<Rightarrow> 'a list" where
  "left_over self = take (iter_len self - iter_pos self) (drop (iter_pos self) (keyvalues self))"

definition iter_ok :: "'a values_iter \<Rightarrow> bool" where
  "iter_ok self \<longleftrightarrow> iter_pos self \<le> iter_len self \<and> iter_len self \<le> length (keyvalues self) \<and> iter_len self < 2 ^ 31"

lemma length_left_over: "iter_ok self \<Longrightarrow> length (left_over self) = iter_remaining self"
  by (auto simp: iter_ok_def left_over_def iter_remaining_def)

lemma nth_step:
  assumes "iter_ok self"
  shows "iter_ok (snd (iter_nth n self))"
    and "list_nth n (left_over self) = apsnd left_over (iter_nth n self)"
proof -
  have len: "length (left_over self) = iter_len self - iter_pos self"
    using length_left_over [OF assms] by (simp add: iter_remaining_def)
  consider "iter_pos self + n < iter_len self" | "iter_len self \<le> iter_pos self + n" by linarith
  then show "iter_ok (snd (iter_nth n self))" "list_nth n (left_over self) = apsnd left_over (iter_nth n self)"
  proof (atomize (full), cases)
    case 1
    then have "pos_checked_add (iter_pos self) n = Some (iter_pos self + n)"
      using assms by (auto simp: pos_checked_add_def iter_ok_def)
    moreover have "left_over self ! n = array_at self (iter_pos self + n)"
      using 1 assms by (simp add: left_over_def array_at_def iter_ok_def)
    moreover have "drop (n + 1) (left_over self) = left_over (self\<lparr>iter_pos := iter_pos self + n + 1\<rparr>)"
      using 1 by (simp add: left_over_def drop_take add.commute)
    ultimately show "iter_ok (snd (iter_nth n self)) \<and> list_nth n (left_over self) = apsnd left_over (iter_nth n self)"
      using 1 assms len by (simp add: iter_nth_def list_nth_def iter_ok_def)
  next
    case 2
    then have "iter_nth n self = (None, self\<lparr>iter_pos := iter_len self\<rparr>)"
      by (auto simp: iter_nth_def pos_checked_add_def)
    with 2 assms len show "iter_ok (snd (iter_nth n self)) \<and> list_nth n (left_over self) = apsnd left_over (iter_nth n self)"
      by (simp add: list_nth_def iter_ok_def left_over_def)
  qed
qed

lemma nth_back_step:
  assumes "iter_ok self"
  shows "iter_ok (snd (iter_nth_back n self))"
    and "apsnd rev (list_nth n (rev (left_over self))) = apsnd left_over (iter_nth_back n self)"
proof -
  note len = length_left_over [OF assms]
  have "iter_ok (snd (iter_nth_back n self)) \<and>
    apsnd rev (list_nth n (rev (left_over self))) = apsnd left_over (iter_nth_back n self)"
  proof (cases "n < iter_remaining self")
    case True
    let ?k = "iter_len self - (1 + n)"
    have k: "iter_pos self \<le> ?k" "?k < iter_len self" using True by (auto simp: iter_remaining_def)
    have "rev (left_over self) ! n = left_over self ! (iter_remaining self - Suc n)"
      using True len by (simp add: rev_nth)
    also have "\<dots> = array_at self ?k"
      using True assms by (simp add: left_over_def array_at_def iter_ok_def iter_remaining_def)
    finally have item: "rev (left_over self) ! n = array_at self ?k" .
    have "rev (drop (n + 1) (rev (left_over self))) = take (iter_remaining self - (n + 1)) (left_over self)"
      using len by (simp add: rev_drop)
    also have "\<dots> = left_over (self\<lparr>iter_len := ?k\<rparr>)"
      using True by (simp add: left_over_def iter_remaining_def min_def) (simp add: algebra_simps)
    finally show ?thesis
      using True assms k item len by (simp add: iter_nth_back_def list_nth_def iter_ok_def array_at_def Let_def)
  next
    case False
    with assms len show ?thesis by (simp add: iter_nth_back_def list_nth_def iter_ok_def left_over_def)
  qed
  then show "iter_ok (snd (iter_nth_back n self))"
    "apsnd rev (list_nth n (rev (left_over self))) = apsnd left_over (iter_nth_back n self)" by blast+
qed

text \<open>
  Every call returns and leaves what it would on the list of the pairs that are left, and the announced
  size is what is left.
\<close>

theorem iterator_is_list:
  assumes "iter_ok self"
  shows "iter_ok (snd (iter_do call self)) \<and>
    list_do call (left_over self) = apsnd left_over (iter_do call self) \<and>
    size_hint self = (length (left_over self), Some (length (left_over self)))"
  using nth_step [OF assms] nth_back_step [OF assms] length_left_over [OF assms]
  by (cases call) (simp_all add: iter_do_def list_do_def iter_next_def iter_next_back_def size_hint_def iter_remaining_def Let_def)

theorem iterator_is_list_witness:
  "let self = values_into_iter [5, 6, 7 :: nat]; (item, self) = iter_do (Nth 1) self
   in item = Some 6 \<and> left_over self = [7] \<and> fst (iter_do NextBack self) = Some 7"
proof -
  let ?self = "values_into_iter [5, 6, 7 :: nat]"
  have ok: "iter_ok ?self" by (simp add: iter_ok_def values_into_iter_def)
  note one = iterator_is_list [OF ok, of "Nth 1"]
  then have "apsnd left_over (iter_do (Nth 1) ?self) = (Some 6, [7])"
    by (simp add: list_do_def list_nth_def left_over_def values_into_iter_def)
  moreover obtain item self where r: "iter_do (Nth 1) ?self = (item, self)" by fastforce
  ultimately have s: "item = Some 6" "left_over self = [7]" by simp_all
  have "fst (list_do NextBack (left_over self)) = fst (iter_do NextBack self)"
    using iterator_is_list [of self NextBack] one r by (metis fst_apsnd snd_conv)
  then have "fst (iter_do NextBack self) = Some 7" unfolding s(2) by (simp add: list_do_def list_nth_def)
  with r s show ?thesis by simp
qed

end
