(* ===== verification/Mapped_Ranges.thy ===== *)
theory Mapped_Ranges
  imports Transaction_Handle
begin

text \<open>
  The paging of mapped range reads (\<^verbatim>\<open>transaction.rs\<close>): \<^verbatim>\<open>next_mapped_range\<close> and \<^verbatim>\<open>get_mapped_ranges\<close>,
  which repeat the code of plain range reads for rows that carry the pairs looked up with them.
\<close>

section \<open>Paging\<close>

definition next_mapped_range :: "range_option \<Rightarrow> mapped_page \<Rightarrow> range_option option" where
  "next_mapped_range self kvs =
     (if \<not> snd kvs then None
      else if fst kvs = [] then None
      else
        let last_key = fst (fst (last (fst kvs)));
            continue = (\<lambda>self. if rev_order self
             then Some (self\<lparr>ro_end := make_first_greater_or_equal last_key (ro_end self)\<rparr>)
             else Some (self\<lparr>ro_begin := make_first_greater_than last_key (ro_begin self)\<rparr>))
        in case limit self of
             None \<Rightarrow> continue self
           | Some l \<Rightarrow>
               if l = 0 then continue self
               else let l' = l - length (fst kvs)
                    in if l' = 0 then None else continue (self\<lparr>limit := Some l'\<rparr>))"

text \<open>\<open>get_mapped_range\<close> is the native read, with the mapper; \<open>None\<close> is a stream that never ends.\<close>

partial_function (option) get_mapped_ranges ::
    "('s \<Rightarrow> range_option \<Rightarrow> bytes \<Rightarrow> nat \<Rightarrow> fdb_error + mapped_page) \<Rightarrow> 's \<Rightarrow> bytes \<Rightarrow> nat \<Rightarrow> range_option option \<Rightarrow>
     (fdb_error + mapped_page) list option" where
  "get_mapped_ranges get_mapped_range s mapper iteration maybe_opt =
     (case maybe_opt of
        None \<Rightarrow> Some []
      | Some opt \<Rightarrow>
          let maybe_values = get_mapped_range s opt mapper iteration;
              next_opt = (case maybe_values of
                  Inr values \<Rightarrow> next_mapped_range opt values
                | Inl _ \<Rightarrow> None)
          in Option.bind (get_mapped_ranges get_mapped_range s mapper (iteration + 1) next_opt) (\<lambda>rest.
               Some (maybe_values # rest)))"

section \<open>The rows\<close>

text \<open>A mapped page is a page of parent pairs, each with what the mapper finds for it.\<close>

definition parents :: "mapped_page \<Rightarrow> page" where
  "parents = apfst (map fst)"

definition parent_items :: "fdb_error + mapped_page \<Rightarrow> fdb_error + page" where
  "parent_items = map_sum id parents"

definition mapped_items :: "fdb_error + mapped_page \<Rightarrow> (fdb_error + (bytes \<times> bytes) \<times> (bytes \<times> bytes) list) list" where
  "mapped_items b = (case b of Inl e \<Rightarrow> [Inl e] | Inr values \<Rightarrow> map Inr (fst values))"

lemma next_mapped: "next_mapped_range opt page = next_range opt (parents page)"
  by (cases page) (simp add: next_mapped_range_def next_range_def parents_def last_map Let_def split: option.split)

text \<open>
  What the client promises of a mapped read: its parent pairs are a plain range read, and the rest is
  found by the mapper.
\<close>

definition maps_reads ::
    "'s kv \<Rightarrow> ('s \<Rightarrow> bytes \<Rightarrow> bytes \<times> bytes \<Rightarrow> (bytes \<times> bytes) list) \<Rightarrow>
     ('s \<Rightarrow> range_option \<Rightarrow> bytes \<Rightarrow> nat \<Rightarrow> fdb_error + mapped_page) \<Rightarrow> bool" where
  "maps_reads kv found get_mapped_range \<longleftrightarrow> (\<forall>s opt mapper i.
     parent_items (get_mapped_range s opt mapper i) = kv_get_range kv s opt i \<and>
     (\<forall>page. get_mapped_range s opt mapper i = Inr page \<longrightarrow>
        (\<forall>row \<in> set (fst page). snd row = found s mapper (fst row))))"

context kv_store
begin

lemma mapped_scan:
  assumes "maps_reads kv found get" and "plain opt"
  shows "\<exists>batches. get_mapped_ranges get s mapper i (Some opt) = Some batches \<and>
    (\<exists>items. delivers (scan_rows (view s) opt) items \<and>
      concat (map mapped_items batches) = map (map_sum id (\<lambda>row. (row, found s mapper row))) items)"
  using assms(2)
proof (induction "length (rows (view s) opt)" arbitrary: opt i rule: less_induct)
  case less
  have parent: "parent_items (get s opt mapper i) = kv_get_range kv s opt i"
    using assms(1) by (simp add: maps_reads_def)
  show ?case
  proof (cases "get s opt mapper i")
    case (Inl e)
    have "delivers (scan_rows (view s) opt) [Inl e]" unfolding delivers_def by (metis append_Nil list.map(1) take0)
    with Inl show ?thesis
      by (intro exI [of _ "[Inl e]"])
        (auto simp: get_mapped_ranges.simps [of _ _ _ _ "Some opt"] get_mapped_ranges.simps [of _ _ _ _ None] mapped_items_def
          intro!: exI [of _ "[Inl e]"])
  next
    case (Inr page)
    obtain rs has_more where page: "page = (rs, has_more)" by (cases page)
    from parent Inr page have plain: "kv_get_range kv s opt i = Inr (map fst rs, has_more)"
      by (simp add: parent_items_def parents_def)
    have "\<forall>row \<in> set rs. snd row = found s mapper (fst row)"
      using assms(1) Inr page unfolding maps_reads_def by (metis fst_conv)
    then have rs: "rs = map (\<lambda>row. (row, found s mapper row)) (map fst rs)"
      by (induction rs) auto
    have here: "mapped_items (Inr page) = map (map_sum id (\<lambda>row. (row, found s mapper row))) (map Inr (map fst rs))"
      unfolding page mapped_items_def by (subst rs) simp
    note step = next_range_scan [OF less.prems plain]
    have nxt: "next_mapped_range opt page = next_range opt (map fst rs, has_more)"
      by (simp add: next_mapped page parents_def)
    show ?thesis
    proof (cases "next_range opt (map fst rs, has_more)")
      case None
      with step have "delivers (scan_rows (view s) opt) (map Inr (map fst rs))" by (simp add: delivers_def)
      with None here Inr nxt show ?thesis
        by (intro exI [of _ "[Inr page]"])
          (auto simp: get_mapped_ranges.simps [of _ _ _ _ "Some opt"] get_mapped_ranges.simps [of _ _ _ _ None]
            simp del: map_map intro!: exI [of _ "map Inr (map fst rs)"])
    next
      case (Some opt')
      with step have opt': "plain opt'" "length (rows (view s) opt') < length (rows (view s) opt)"
        and eq: "scan_rows (view s) opt = map fst rs @ scan_rows (view s) opt'" by auto
      from less.hyps [OF opt'(2,1), of "i + 1"] obtain batches items where
        rest: "get_mapped_ranges get s mapper (i + 1) (Some opt') = Some batches"
        "delivers (scan_rows (view s) opt') items"
        "concat (map mapped_items batches) = map (map_sum id (\<lambda>row. (row, found s mapper row))) items" by blast
      have "get_mapped_ranges get s mapper i (Some opt) = Some (Inr page # batches)"
        using Inr nxt Some rest(1) by (simp add: get_mapped_ranges.simps [of _ _ _ _ "Some opt"])
      moreover have "delivers (scan_rows (view s) opt) (map Inr (map fst rs) @ items)"
        unfolding eq by (rule delivers_append [OF rest(2)])
      moreover have "concat (map mapped_items (Inr page # batches)) =
          map (map_sum id (\<lambda>row. (row, found s mapper row))) (map Inr (map fst rs) @ items)"
        using rest(3) by (simp only: list.map concat.simps here map_append)
      ultimately show ?thesis by blast
    qed
  qed
qed

end

text \<open>
  A mapped scan ends, whichever batches the client cuts, and delivers the rows of the range in order and
  up to its limit, each with what the mapper finds for it, or a first part of them and the error.
\<close>

theorem mapped_scan_delivers:
  assumes "kv_store kv view" and "maps_reads kv found get" and "plain opt"
  shows "\<exists>batches items. get_mapped_ranges get s mapper 1 (Some opt) = Some batches \<and>
    concat (map mapped_items batches) = map (map_sum id (\<lambda>row. (row, found s mapper row))) items \<and>
    (items = map Inr (scan_rows (view s) opt) \<or> (\<exists>n e. items = map Inr (take n (scan_rows (view s) opt)) @ [Inl e]))"
  using kv_store.mapped_scan [OF assms, of s mapper 1] unfolding delivers_def by blast

end
