(* ===== verification/Fenced_Leadership.thy ===== *)
theory Fenced_Leadership
  imports Leader_Lease
begin

text \<open>
  Leader election and ranked register together (\<^verbatim>\<open>ranked_register/mod.rs\<close>, "Composing with Leader
  Election", and the service of \<^verbatim>\<open>tests/leader_election_ranked_register.rs\<close>): a poll that leads reads
  the register under its fencing rank in the same transaction, and writes under that rank then or later.
\<close>

section \<open>The service\<close>

datatype service_error =
    PollFailed election_error
  | RegisterFailed register_error

text \<open>The closure of \<^verbatim>\<open>service_poll\<close>; \<open>None\<close>: the stream of the read does not end.\<close>

definition service_poll ::
    "'s kv \<Rightarrow> subspace \<Rightarrow> subspace \<Rightarrow> nat option \<Rightarrow> duration \<Rightarrow> participant_id \<Rightarrow> poll_input \<Rightarrow> bytes \<Rightarrow> 's \<Rightarrow>
     (service_error + (poll_result \<times> write_result option) \<times> 's) option" where
  "service_poll kv e s max_bytes lease p input val txn =
     (case map_err PollFailed (poll kv e lease p input txn) of
        Inl error \<Rightarrow> Some (Inl error)
      | Inr (result, txn) \<Rightarrow>
          (case outcome result of
             Leader rank _ \<Rightarrow>
               map_option (\<lambda>r.
                 bind_result (map_err RegisterFailed r) (\<lambda>(_, txn).
                 bind_result (map_err RegisterFailed (reg_write kv s rank val max_bytes txn)) (\<lambda>(res, txn).
                   Inr ((result, Some res), txn))))
                 (reg_read kv s rank txn)
           | Follower _ _ _ \<Rightarrow> Some (Inr ((result, None), txn))))"

section \<open>Histories\<close>

text \<open>
  Committed transactions, one after the other: a leader's poll with its read and write, a leader's
  poll with its read, a read or a write by whoever still holds the rank of some earlier lead, and a
  plain read.  Followers, resignations, failed transactions and other keys leave no event.
\<close>

datatype fenced_event =
    Served rank bytes write_result
  | Entered rank read_result
  | LateRead rank read_result
  | LateWrite rank bytes write_result
  | Looked "bytes option"

fun lead_rank_of :: "fenced_event \<Rightarrow> rank option" where
  "lead_rank_of (Served rank _ _) = Some rank"
| "lead_rank_of (Entered rank _) = Some rank"
| "lead_rank_of _ = None"

fun commit_of :: "fenced_event \<Rightarrow> (rank \<times> bytes) option" where
  "commit_of (Served rank v Committed) = Some (rank, v)"
| "commit_of (LateWrite rank v Committed) = Some (rank, v)"
| "commit_of _ = None"

definition led :: "fenced_event list \<Rightarrow> rank list" where
  "led es = List.map_filter lead_rank_of es"

definition commits :: "fenced_event list \<Rightarrow> (rank \<times> bytes) list" where
  "commits es = List.map_filter commit_of es"

definition newest :: "(rank \<times> bytes) list \<Rightarrow> rank \<times> bytes option" where
  "newest cs = (if cs = [] then (ZERO, None) else (fst (last cs), Some (snd (last cs))))"

fun served :: "poll_outcome \<Rightarrow> bytes \<Rightarrow> write_result option \<Rightarrow> fenced_event list" where
  "served (Leader rank _) v (Some w) = [Served rank v w]"
| "served _ v _ = []"

inductive fenced_history ::
    "'s kv \<Rightarrow> ('s \<Rightarrow> bytes \<rightharpoonup> bytes) \<Rightarrow> subspace \<Rightarrow> subspace \<Rightarrow> 's \<Rightarrow> fenced_event list \<Rightarrow> 's \<Rightarrow> bool"
  for kv view e s t0 where
  Fresh: "fenced_history kv view e s t0 [] t0"
| Serve: "fenced_history kv view e s t0 es t \<Longrightarrow> wf_participant p \<Longrightarrow> wf_lease lease \<Longrightarrow> length v < 2 ^ 64 \<Longrightarrow>
    service_poll kv e s max_bytes lease p input v t = Some (Inr ((result, w), t')) \<Longrightarrow>
    fenced_history kv view e s t0 (es @ served (outcome result) v w) t'"
| Enter: "fenced_history kv view e s t0 es t \<Longrightarrow> wf_participant p \<Longrightarrow> wf_lease lease \<Longrightarrow>
    poll kv e lease p input t = Inr (result, t') \<Longrightarrow> outcome result = Leader r tr \<Longrightarrow>
    reg_read kv s r t' = Some (Inr (res, t'')) \<Longrightarrow>
    fenced_history kv view e s t0 (es @ [Entered r res]) t''"
| Read_late: "fenced_history kv view e s t0 es t \<Longrightarrow> r \<in> set (led es) \<Longrightarrow>
    reg_read kv s r t = Some (Inr (res, t')) \<Longrightarrow>
    fenced_history kv view e s t0 (es @ [LateRead r res]) t'"
| Write_late: "fenced_history kv view e s t0 es t \<Longrightarrow> r \<in> set (led es) \<Longrightarrow> length v < 2 ^ 64 \<Longrightarrow>
    reg_write kv s r v max_bytes t = Inr (w, t') \<Longrightarrow>
    fenced_history kv view e s t0 (es @ [LateWrite r v w]) t'"
| Look: "fenced_history kv view e s t0 es t \<Longrightarrow> reg_value_of kv s t = Some (Inr found) \<Longrightarrow>
    fenced_history kv view e s t0 (es @ [Looked found]) t"
| Quit: "fenced_history kv view e s t0 es t \<Longrightarrow> resign kv e p r lease t = Inr (out, t') \<Longrightarrow>
    fenced_history kv view e s t0 es t'"
| Other: "fenced_history kv view e s t0 es t \<Longrightarrow> view t' (election_state_key e) = view t (election_state_key e) \<Longrightarrow>
    \<forall>k. own_key s k \<longrightarrow> view t' k = view t k \<Longrightarrow> fenced_history kv view e s t0 es t'"

text \<open>What each event must be after the history \<open>es\<close>.\<close>

definition answers :: "fenced_event list \<Rightarrow> read_result \<Rightarrow> bool" where
  "answers es res \<longleftrightarrow> (write_rank res, result_value res) = newest (commits es)"

definition fenced_ok :: "fenced_event list \<Rightarrow> fenced_event \<Rightarrow> bool" where
  "fenced_ok es ev \<longleftrightarrow>
     (case ev of
        Served r v w \<Rightarrow> (\<forall>q \<in> set (led es). q < r) \<and> w = Committed
      | Entered r res \<Rightarrow> (\<forall>q \<in> set (led es). q < r) \<and> answers es res
      | LateRead r res \<Rightarrow> answers es res
      | LateWrite r v w \<Rightarrow> w = Committed \<longleftrightarrow> r = last (led es) \<and> r \<notin> fst ` set (commits es)
      | Looked found \<Rightarrow> found = snd (newest (commits es)))"

section \<open>The logical register along a history\<close>

lemma history_projections [simp]:
  "led [] = []" "commits [] = []"
  "led (es @ evs) = led es @ led evs" "commits (es @ evs) = commits es @ commits evs"
  "led (ev # evs) = (case lead_rank_of ev of None \<Rightarrow> [] | Some r \<Rightarrow> [r]) @ led evs"
  "commits (ev # evs) = (case commit_of ev of None \<Rightarrow> [] | Some c \<Rightarrow> [c]) @ commits evs"
  by (simp_all add: led_def commits_def map_filter_def split: option.splits)

text \<open>The logical register sums up the ranks of the leads and the commits.\<close>

definition summary :: "rank list \<Rightarrow> (rank \<times> bytes) list \<Rightarrow> register_state \<Rightarrow> bool" where
  "summary rs cs st \<longleftrightarrow>
     sorted_wrt (<) (ZERO # rs) \<and> max_read_rank st = last (ZERO # rs) \<and>
     (max_write_rank st, reg_value st) = newest cs \<and>
     fst ` set cs \<subseteq> set rs \<and> (\<forall>q \<in> fst ` set cs. q \<le> max_write_rank st)"

lemma summary_start: "summary [] [] bottom_register"
  by (simp add: summary_def newest_def bottom_register_def)

lemma le_last:
  fixes rs :: "'a::linorder list"
  assumes "sorted_wrt (<) rs" and "r \<in> set rs"
  shows "r \<le> last rs"
  using assms by (cases rs rule: rev_cases) (auto simp: sorted_wrt_append)

lemma summary_write_rank:
  assumes "summary rs cs st"
  shows "max_write_rank st \<le> last (ZERO # rs)" and "max_write_rank st = ZERO \<or> max_write_rank st \<in> fst ` set cs"
proof -
  show *: "max_write_rank st = ZERO \<or> max_write_rank st \<in> fst ` set cs"
    using assms by (auto simp: summary_def newest_def split: if_splits)
  then have "max_write_rank st \<in> set (ZERO # rs)" using assms by (auto simp: summary_def)
  then show "max_write_rank st \<le> last (ZERO # rs)" using assms by (intro le_last) (simp_all add: summary_def)
qed

lemma summary_enter:
  assumes "summary rs cs st" and "\<forall>q \<in> set rs. q < r" and "ZERO < r"
  shows "(write_rank (fst (spec_read r st)), result_value (fst (spec_read r st))) = newest cs"
    and "summary (rs @ [r]) cs (snd (spec_read r st))"
proof -
  have "last (ZERO # rs) < r" using assms(2,3) by simp
  then show "summary (rs @ [r]) cs (snd (spec_read r st))"
    using assms by (auto simp: summary_def spec_read_def sorted_wrt_append max_def)
  show "(write_rank (fst (spec_read r st)), result_value (fst (spec_read r st))) = newest cs"
    using assms(1) by (simp add: summary_def spec_read_def)
qed

lemma summary_read:
  assumes "summary rs cs st" and "r \<in> set rs"
  shows "(write_rank (fst (spec_read r st)), result_value (fst (spec_read r st))) = newest cs"
    and "summary rs cs (snd (spec_read r st))"
proof -
  have "r \<le> max_read_rank st" using assms le_last [of "ZERO # rs" r] by (simp add: summary_def)
  then show "summary rs cs (snd (spec_read r st))"
    using assms(1) by (simp add: summary_def spec_read_def max_def)
  show "(write_rank (fst (spec_read r st)), result_value (fst (spec_read r st))) = newest cs"
    using assms(1) by (simp add: summary_def spec_read_def)
qed

lemma summary_write:
  assumes "summary rs cs st" and "r \<in> set rs"
  shows "fst (spec_write r v st) = Committed \<longleftrightarrow> r = last rs \<and> r \<notin> fst ` set cs"
    and "summary rs (cs @ (if fst (spec_write r v st) = Committed then [(r, v)] else [])) (snd (spec_write r v st))"
proof -
  have last: "r \<le> last rs" "last (ZERO # rs) = last rs" "ZERO < r" "max_read_rank st = last rs"
    using assms le_last [of rs r] by (auto simp: summary_def)
  have "max_write_rank st < r \<longleftrightarrow> r \<notin> fst ` set cs" if "r = last rs"
  proof
    assume "max_write_rank st < r"
    then show "r \<notin> fst ` set cs" using assms(1) by (auto simp: summary_def)
  next
    assume "r \<notin> fst ` set cs"
    with summary_write_rank [OF assms(1)] last that show "max_write_rank st < r" by (metis le_neq_trans)
  qed
  with last show "fst (spec_write r v st) = Committed \<longleftrightarrow> r = last rs \<and> r \<notin> fst ` set cs"
    by (auto simp: spec_write_def)
  show "summary rs (cs @ (if fst (spec_write r v st) = Committed then [(r, v)] else [])) (snd (spec_write r v st))"
    using assms by (auto simp: summary_def spec_write_def newest_def)
qed

definition fenced_inv :: "subspace \<Rightarrow> subspace \<Rightarrow> (bytes \<rightharpoonup> bytes) \<Rightarrow> fenced_event list \<Rightarrow> bool" where
  "fenced_inv e s m es \<longleftrightarrow>
     (\<exists>st rst. election_holds e m st \<and> (\<forall>r \<in> set (led es). as_u64 r \<le> revision st) \<and>
        represents s m rst \<and> summary (led es) (commits es) rst)"

definition fenced_all :: "fenced_event list \<Rightarrow> bool" where
  "fenced_all es \<longleftrightarrow> (\<forall>i < length es. fenced_ok (take i es) (es ! i))"

lemma fenced_all_simps [simp]:
  "fenced_all []" "fenced_all (es @ [ev]) \<longleftrightarrow> fenced_all es \<and> fenced_ok es ev"
  by (auto simp: fenced_all_def nth_append less_Suc_eq)

lemma election_holds_cong:
  "election_holds e m st \<Longrightarrow> m' (election_state_key e) = m (election_state_key e) \<Longrightarrow> election_holds e m' st"
  by (simp add: election_holds_def)

lemma service_poll_Inr:
  assumes "service_poll kv e s max_bytes lease p input v t = Some (Inr ((result, w), t'))"
  obtains (follows) "poll kv e lease p input t = Inr (result, t')" "\<not> is_leader (outcome result)" "w = None"
    | (leads) t1 r tr res t2 x where "poll kv e lease p input t = Inr (result, t1)" "outcome result = Leader r tr"
      "reg_read kv s r t1 = Some (Inr (res, t2))" "reg_write kv s r v max_bytes t2 = Inr (x, t')" "w = Some x"
proof -
  from assms obtain x t1 where poll: "poll kv e lease p input t = Inr (x, t1)"
    by (cases "poll kv e lease p input t") (auto simp: service_poll_def map_err_def)
  show ?thesis
  proof (cases "outcome x")
    case (Leader r tr)
    with assms poll obtain z where z: "reg_read kv s r t1 = Some z"
      "bind_result (map_err RegisterFailed z) (\<lambda>(_, txn).
         bind_result (map_err RegisterFailed (reg_write kv s r v max_bytes txn)) (\<lambda>(res, txn).
           Inr ((x, Some res), txn))) = Inr ((result, w), t')"
      by (auto simp: service_poll_def map_err_def)
    then obtain res t2 where "z = Inr (res, t2)" by (cases z) (auto simp: map_err_def)
    with z poll Leader show ?thesis
      by (cases "reg_write kv s r v max_bytes t2") (auto simp: map_err_def intro: leads)
  next
    case Follower
    with assms poll show ?thesis by (intro follows) (auto simp: service_poll_def map_err_def)
  qed
qed

context kv_store
begin

lemma poll_keeps_register:
  assumes "election_holds e (view t) st" and "wf_participant p" and "wf_lease lease"
    and "poll kv e lease p input t = Inr (result, t')"
    and "\<not> own_key s (election_state_key e)" and "represents s (view t) rst"
  shows "represents s (view t') rst"
proof -
  have "elsewhere_same e (view t) (view t')" using poll_refines [OF assms(1-4)] by blast
  then have "\<forall>k. own_key s k \<longrightarrow> view t' k = view t k" using assms(5) by (metis elsewhere_same_def)
  with assms(6) show ?thesis by (rule represents_cong)
qed

lemma lead_step:
  assumes "fenced_inv e s (view t) es" and "wf_participant p" and "wf_lease lease"
    and "\<not> own_key s (election_state_key e)" and "poll kv e lease p input t = Inr (result, t')"
    and "outcome result = Leader r tr"
  obtains st rst where "election_holds e (view t') st" "as_u64 r = revision st"
    "\<forall>q \<in> set (led es). q < r" "ZERO < r" "represents s (view t') rst" "summary (led es) (commits es) rst"
proof -
  from assms(1) obtain st rst where inv: "election_holds e (view t) st" "\<forall>q \<in> set (led es). as_u64 q \<le> revision st"
    "represents s (view t) rst" "summary (led es) (commits es) rst" by (auto simp: fenced_inv_def)
  from poll_refines [OF inv(1) assms(2,3,5)] obtain nxt where
    step: "poll_step st p lease input = Inr (result, nxt)" and holds: "election_holds e (view t') (advance st nxt)"
    by blast
  from step assms(6) obtain n where n: "unat n = unat (revision st) + 1"
    "nxt = Some \<lparr>revision = n, owner = Some p, lease_duration = Some lease\<rparr>" "r = Rank n"
    by (cases rule: poll_step_result) auto
  have less: "revision st < n" using n(1) by (simp add: word_less_nat_alt)
  have "represents s (view t') rst" by (rule poll_keeps_register [OF inv(1) assms(2,3,5,4) inv(3)])
  moreover have "\<forall>q \<in> set (led es). q < r" using inv(2) less n(3) by (force simp: less_rank_def)
  moreover have "ZERO < r" using less n(3) word_zero_le [of "revision st"]
    by (simp only: ZERO_def less_rank_def rank.sel)
  ultimately show ?thesis using holds inv(4) n by (intro that [of "advance st nxt" rst]) (simp_all add: advance_def)
qed

lemma keeps_election:
  "refines s m m' rst \<Longrightarrow> \<not> own_key s (election_state_key e) \<Longrightarrow> election_holds e m st \<Longrightarrow> election_holds e m' st"
  by (erule election_holds_cong) (simp add: refines_def)

lemma read_spec:
  assumes "represents s (view t) st" and "reg_read kv s r t = Some (Inr (res, t'))"
  shows "res = fst (spec_read r st)" and "refines s (view t) (view t') (snd (spec_read r st))"
  using read_represents [OF assms(1), of r] assms(2) by auto

lemma write_spec:
  assumes "represents s (view t) st" and "length v < 2 ^ 64" and "reg_write kv s r v max_bytes t = Inr (w, t')"
  shows "w = fst (spec_write r v st)" and "refines s (view t) (view t') (snd (spec_write r v st))"
proof -
  have "\<forall>lim. max_bytes = Some lim \<longrightarrow> length v \<le> lim"
    using assms(3) by (auto simp: reg_write_def split: if_splits)
  from write_represents [OF assms(1,2) this, of r] assms(3)
  show "w = fst (spec_write r v st)" and "refines s (view t) (view t') (snd (spec_write r v st))" by auto
qed

lemma read_inv:
  assumes "election_holds e (view t) st" and "\<forall>q \<in> set (led es'). as_u64 q \<le> revision st"
    and "\<not> own_key s (election_state_key e)" and "represents s (view t) rst"
    and "summary (led es') (commits es') (snd (spec_read r rst))"
    and "reg_read kv s r t = Some (Inr (res, t'))"
  shows "fenced_inv e s (view t') es'"
proof -
  note ref = read_spec(2) [OF assms(4,6)]
  then have "represents s (view t') (snd (spec_read r rst))" by (simp add: refines_def)
  with keeps_election [OF ref assms(3,1)] assms(2,5) show ?thesis unfolding fenced_inv_def by blast
qed

lemma write_inv:
  assumes "fenced_inv e s (view t) es" and "\<not> own_key s (election_state_key e)" and "r \<in> set (led es)"
    and "length v < 2 ^ 64" and "reg_write kv s r v max_bytes t = Inr (w, t')"
    and "led es' = led es" and "commits es' = commits es @ (if w = Committed then [(r, v)] else [])"
  shows "fenced_inv e s (view t') es'" and "fenced_ok es (LateWrite r v w)"
proof -
  from assms(1) obtain st rst where inv: "election_holds e (view t) st" "\<forall>q \<in> set (led es). as_u64 q \<le> revision st"
    "represents s (view t) rst" "summary (led es) (commits es) rst" by (auto simp: fenced_inv_def)
  note w = write_spec [OF inv(3) assms(4,5)] and sum = summary_write [OF inv(4) assms(3), of v]
  have "represents s (view t') (snd (spec_write r v rst))" using w(2) by (simp add: refines_def)
  moreover have "summary (led es') (commits es') (snd (spec_write r v rst))" using sum(2) w(1) assms(6,7) by simp
  ultimately show "fenced_inv e s (view t') es'"
    using keeps_election [OF w(2) assms(2) inv(1)] inv(2) assms(6) unfolding fenced_inv_def by metis
  show "fenced_ok es (LateWrite r v w)" using sum(1) w(1) by (simp add: fenced_ok_def)
qed

lemma enter_inv:
  assumes "fenced_inv e s (view t) es" and "wf_participant p" and "wf_lease lease"
    and "\<not> own_key s (election_state_key e)" and "poll kv e lease p input t = Inr (result, t')"
    and "outcome result = Leader r tr" and "reg_read kv s r t' = Some (Inr (res, t''))"
  shows "fenced_inv e s (view t'') (es @ [Entered r res])" and "fenced_ok es (Entered r res)"
proof -
  obtain st rst where inv: "election_holds e (view t') st" "as_u64 r = revision st"
    "\<forall>q \<in> set (led es). q < r" "ZERO < r" "represents s (view t') rst" "summary (led es) (commits es) rst"
    using lead_step [OF assms(1-6)] by blast
  note sum = summary_enter [OF inv(6,3,4)]
  have below: "\<forall>q \<in> set (led (es @ [Entered r res])). as_u64 q \<le> revision st"
    using inv(2,3) by (force simp: less_rank_def)
  from sum(2) have "summary (led (es @ [Entered r res])) (commits (es @ [Entered r res])) (snd (spec_read r rst))"
    by simp
  from read_inv [OF inv(1) below assms(4) inv(5) this assms(7)]
  show "fenced_inv e s (view t'') (es @ [Entered r res])" .
  show "fenced_ok es (Entered r res)"
    using inv(3) sum(1) read_spec(1) [OF inv(5) assms(7)] by (simp add: fenced_ok_def answers_def)
qed

lemma serve_inv:
  assumes "fenced_inv e s (view t) es" and "wf_participant p" and "wf_lease lease" and "length v < 2 ^ 64"
    and "\<not> own_key s (election_state_key e)" and "fenced_all es"
    and "service_poll kv e s max_bytes lease p input v t = Some (Inr ((result, w), t'))"
  shows "fenced_inv e s (view t') (es @ served (outcome result) v w) \<and> fenced_all (es @ served (outcome result) v w)"
  using assms(7)
proof (cases rule: service_poll_Inr)
  case follows
  from assms(1) obtain st rst where inv: "election_holds e (view t) st" "\<forall>q \<in> set (led es). as_u64 q \<le> revision st"
    "represents s (view t) rst" "summary (led es) (commits es) rst" by (auto simp: fenced_inv_def)
  from poll_refines [OF inv(1) assms(2,3) follows(1)] obtain nxt where
    step: "poll_step st p lease input = Inr (result, nxt)" and same: "nxt = None \<longrightarrow> t' = t" by blast
  from step follows(2) same have "t' = t" by (cases rule: poll_step_result) auto
  with assms(1,6) follows(2) show ?thesis by (cases "outcome result") auto
next
  case (leads t1 r tr res t2 x)
  let ?es = "es @ [Entered r res]" and ?es' = "es @ [Served r v x]"
  note enter = enter_inv [OF assms(1-3,5) leads(1-3)]
  have proj: "led ?es' = led ?es" "commits ?es' = commits ?es @ (if x = Committed then [(r, v)] else [])"
    by (cases x; simp)+
  note ok = write_inv [OF enter(1) assms(5) _ assms(4) leads(4) proj]
  from assms(1) have fresh: "fst ` set (commits es) \<subseteq> set (led es)" by (auto simp: fenced_inv_def summary_def)
  have less: "\<forall>q \<in> set (led es). q < r" using enter(2) by (simp add: fenced_ok_def)
  with fresh have "r \<notin> fst ` set (commits es)" by blast
  with ok(2) have "x = Committed" by (simp add: fenced_ok_def)
  with ok(1) less assms(6) leads(2,5) show ?thesis by (simp add: fenced_ok_def)
qed

lemma fenced_history_inv:
  assumes "fenced_history kv view e s t0 es t" and "\<not> own_key s (election_state_key e)"
    and "view t0 (election_state_key e) = None" and "represents s (view t0) bottom_register"
  shows "fenced_inv e s (view t) es \<and> fenced_all es"
  using assms(1)
proof induction
  case Fresh
  have "election_holds e (view t0) default_state" using assms(3) by (simp add: election_holds_def)
  with assms(4) summary_start have "fenced_inv e s (view t0) []"
    unfolding fenced_inv_def by (intro exI conjI) simp_all
  then show ?case by simp
next
  case (Serve es t p lease v max_bytes input result w t')
  with serve_inv assms(2) show ?case by blast
next
  case (Enter es t p lease input result t' r tr res t'')
  note enter = enter_inv [OF _ Enter(2,3) assms(2) Enter(4-6)]
  from enter Enter.IH show ?case by simp
next
  case (Read_late es t r res t')
  then obtain st rst where inv: "election_holds e (view t) st" "\<forall>q \<in> set (led es). as_u64 q \<le> revision st"
    "represents s (view t) rst" "summary (led es) (commits es) rst" by (auto simp: fenced_inv_def)
  note sum = summary_read [OF inv(4) Read_late(2)]
  have "fenced_inv e s (view t') (es @ [LateRead r res])"
    by (rule read_inv [OF inv(1) _ assms(2) inv(3) _ Read_late(3)]) (use inv(2) sum(2) in simp_all)
  with sum(1) read_spec(1) [OF inv(3) Read_late(3)] Read_late.IH show ?case
    by (simp add: fenced_ok_def answers_def)
next
  case (Write_late es t r v max_bytes w t')
  have proj: "led (es @ [LateWrite r v w]) = led es"
    "commits (es @ [LateWrite r v w]) = commits es @ (if w = Committed then [(r, v)] else [])"
    by (cases w; simp)+
  from write_inv [OF _ assms(2) Write_late(2-4) proj] Write_late.IH show ?case by simp
next
  case (Look es t found)
  then obtain rst where "represents s (view t) rst" "summary (led es) (commits es) rst"
    by (auto simp: fenced_inv_def)
  with value_represents [of s t rst] Look(2) have "found = snd (newest (commits es))"
    by (auto simp: summary_def dest: arg_cong [where f = snd])
  with Look.IH show ?case by (simp add: fenced_ok_def fenced_inv_def)
next
  case (Quit es t p r lease out t')
  then obtain st rst where inv: "election_holds e (view t) st" "\<forall>q \<in> set (led es). as_u64 q \<le> revision st"
    "represents s (view t) rst" "summary (led es) (commits es) rst" by (auto simp: fenced_inv_def)
  note q = resign_refines [OF inv(1) Quit(2)]
  have "represents s (view t') rst"
    using q assms(2) by (intro represents_cong [OF inv(3)]) (metis elsewhere_same_def)
  with q inv(2,4) have "fenced_inv e s (view t') es"
    unfolding fenced_inv_def by (intro exI [of _ "if out = Resigned then st\<lparr>owner := None\<rparr> else st"] exI [of _ rst])
      (auto split: if_splits)
  with Quit.IH show ?case by simp
next
  case (Other es t t')
  then show ?case
    unfolding fenced_inv_def using represents_cong election_holds_cong by blast
qed

end

section \<open>A concrete history\<close>

lemma mem_read_ok:
  "represents s (map_of t) st \<Longrightarrow> \<exists>res t'. reg_read (mem_kv n) s r t = Some (Inr (res, t'))"
  using mem.read_represents [of s t st n r] mem_no_fail(1) by blast

lemma mem_write_ok:
  "represents s (map_of t) st \<Longrightarrow> length v < 2 ^ 64 \<Longrightarrow> \<exists>w t'. reg_write (mem_kv n) s r v None t = Inr (w, t')"
  using mem.write_represents [of s t st v None n r] mem_no_fail(2) by blast

definition example_election :: subspace where
  "example_election = \<lparr>prefix = [1], versionstamp_offset = VNone 0\<rparr>"

lemma example_apart: "\<not> own_key subspace_all (election_state_key example_election)"
proof -
  have "election_state_key example_election = state_key example_election"
    by (simp add: election_state_key_def state_key_def ELECTION_STATE_PREFIX_def STATE_PREFIX_def)
  then have "election_state_key example_election = 1 # STRING # STATE_PREFIX @ [NIL]"
    by (simp add: state_key_eq example_election_def)
  then show ?thesis
    by (auto simp: own_key_def in_value_range_def state_key_eq prefix_value_subspace subspace_all_def STRING_def)
qed

lemma takes_over:
  assumes "election_holds s (map_of t) \<lparr>revision = 1, owner = Some q, lease_duration = Some lease\<rparr>"
    and "wf_participant p" and "wf_lease lease" and "p \<noteq> q"
  shows "\<exists>t'. poll (mem_kv 2) s lease p (PollObservation q (Rank 1) lease lease) t =
      Inr (\<lparr>outcome = Leader (Rank 2) TookOver, next_of = NextLeadership (Rank 2) lease\<rparr>, t')"
proof -
  obtain result t' where poll: "poll (mem_kv 2) s lease p (PollObservation q (Rank 1) lease lease) t = Inr (result, t')"
    using mem_poll [OF assms(1)] by fastforce
  from mem.poll_refines [OF assms(1-3) poll] poll assms(4) show ?thesis
    by (auto simp: poll_step_def decide_def same_record_def leader_result_def next_revision_def checked_add_def)
qed

text \<open>Alice serves and loses her lease to Bob; a write of hers arrives late.\<close>

lemma example_history:
  "\<exists>x res w t. fenced_history (mem_kv 2) map_of example_election subspace_all []
     [Served (Rank 1) [7] x, Entered (Rank 2) res, LateWrite (Rank 1) [8] w] t"
proof -
  let ?e = example_election and ?s = subspace_all
  have ten: "wf_lease 10" using example_wf(3) by (simp add: example_cluster_def)
  obtain result t1 where poll: "poll (mem_kv 2) ?e 10 alice PollUnknown [] = Inr (result, t1)"
    using mem_poll [OF empty_holds] by (fastforce simp: default_state_def)
  note result = acquire_empty [OF poll example_wf(1) ten]
  note rep = mem.poll_keeps_register [OF empty_holds example_wf(1) ten poll example_apart represents_empty]
  from mem_read_ok [OF rep] obtain res1 t2 where r1: "reg_read (mem_kv 2) ?s (Rank 1) t1 = Some (Inr (res1, t2))" by blast
  from mem.read_spec(2) [OF rep r1] obtain st2 where ref1: "refines ?s (map_of t1) (map_of t2) st2" by blast
  then have rep2: "represents ?s (map_of t2) st2" by (simp add: refines_def)
  have short: "length [v] < 2 ^ 64" for v :: "8 word" by simp
  from mem_write_ok [OF rep2 short] obtain x t3 where
    w1: "reg_write (mem_kv 2) ?s (Rank 1) [7] None t2 = Inr (x, t3)" by blast
  have serve: "service_poll (mem_kv 2) ?e ?s None 10 alice PollUnknown [7] [] = Some (Inr ((result, Some x), t3))"
    by (simp add: service_poll_def poll result(1) r1 w1 map_err_def)
  have 1: "fenced_history (mem_kv 2) map_of ?e ?s [] [Served (Rank 1) [7] x] t3"
    using Serve [OF Fresh example_wf(1) ten short serve] by (simp add: result(1))
  from mem.write_spec(2) [OF rep2 short w1] obtain st3 where ref2: "refines ?s (map_of t2) (map_of t3) st3" by blast
  then have rep3: "represents ?s (map_of t3) st3" by (simp add: refines_def)
  note holds = mem.keeps_election [OF ref2 example_apart mem.keeps_election [OF ref1 example_apart result(2)]]
  from takes_over [OF holds example_wf(2) ten] example_wf(4) obtain t4 where
    p2: "poll (mem_kv 2) ?e 10 bob (PollObservation alice (Rank 1) 10 10) t3 =
      Inr (\<lparr>outcome = Leader (Rank 2) TookOver, next_of = NextLeadership (Rank 2) 10\<rparr>, t4)" by metis
  note rep4 = mem.poll_keeps_register [OF holds example_wf(2) ten p2 example_apart rep3]
  from mem_read_ok [OF this] obtain res t5 where r2: "reg_read (mem_kv 2) ?s (Rank 2) t4 = Some (Inr (res, t5))" by blast
  have 2: "fenced_history (mem_kv 2) map_of ?e ?s [] [Served (Rank 1) [7] x, Entered (Rank 2) res] t5"
    using Enter [OF 1 example_wf(2) ten p2 _ r2] by simp
  from mem.read_spec(2) [OF rep4 r2] obtain st5 where "represents ?s (map_of t5) st5" by (auto simp: refines_def)
  from mem_write_ok [OF this short] obtain w t6 where
    w2: "reg_write (mem_kv 2) ?s (Rank 1) [8] None t5 = Inr (w, t6)" by blast
  have "fenced_history (mem_kv 2) map_of ?e ?s []
      ([Served (Rank 1) [7] x, Entered (Rank 2) res] @ [LateWrite (Rank 1) [8] w]) t6"
    by (rule Write_late [OF 2 _ short w2]) simp
  then show ?thesis by (intro exI) simp
qed

section \<open>Properties\<close>

text \<open>
  C4.  Leaders are fenced.  An election and a register start unused, with keys apart.  Then in every
  sequence of committed transactions, of any participants, leases and inputs: a poll that leads has a
  rank above all earlier leads'; the write of its own transaction commits; a later write under the rank
  of any lead commits exactly when that lead is the newest and its rank has not committed yet; and every
  read returns the rank and the value of the last committed write.
\<close>

theorem leaders_are_fenced:
  assumes "kv_store kv view" and "\<not> own_key s (election_state_key e)"
    and "view t0 (election_state_key e) = None" and "represents s (view t0) bottom_register"
    and "fenced_history kv view e s t0 es t"
  shows "\<forall>i < length es. fenced_ok (take i es) (es ! i)"
  using kv_store.fenced_history_inv [OF assms(1,5,2-4)] by (simp add: fenced_all_def)

theorem leaders_are_fenced_witness:
  "\<exists>res t. fenced_history (mem_kv 2) map_of example_election subspace_all []
     [Served (Rank 1) [7] Committed, Entered (Rank 2) res, LateWrite (Rank 1) [8] Aborted] t \<and>
     res = \<lparr>write_rank = Rank 1, result_value = Some [7]\<rparr>"
proof -
  from example_history obtain x res w t where
    h: "fenced_history (mem_kv 2) map_of example_election subspace_all []
     [Served (Rank 1) [7] x, Entered (Rank 2) res, LateWrite (Rank 1) [8] w] t" by blast
  let ?es = "[Served (Rank 1) [7] x, Entered (Rank 2) res, LateWrite (Rank 1) [8] w]"
  have ok: "\<forall>i < length ?es. fenced_ok (take i ?es) (?es ! i)"
    by (rule leaders_are_fenced [OF mem_kv_store example_apart _ represents_empty h]) simp
  have x: "x = Committed" using ok [rule_format, of 0] by (simp add: fenced_ok_def)
  have "answers [Served (Rank 1) [7] x] res" using ok [rule_format, of 1] by (simp add: fenced_ok_def)
  then have "res = \<lparr>write_rank = Rank 1, result_value = Some [7]\<rparr>" by (cases res) (simp add: answers_def x newest_def)
  moreover have "w \<noteq> Committed" using ok [rule_format, of 2] by (simp add: fenced_ok_def)
  then have "w = Aborted" by (cases w) simp_all
  ultimately show ?thesis using h x by blast
qed

end
