(* ===== verification/Spec2Isabelle.thy ===== *)
theory Spec2Isabelle
  imports Tuple_Properties Range_Scan Ranked_Register Leader_Properties
    Profile_Chunks Profile_Aggregate Retry_Properties Directory_Properties
    Conflict_Ranges Usage_Accounting Metered_Run Timekeeper
    Seeded_Random Network_Lifecycle Native_Future Owned_Values
    Mapped_Ranges Fenced_Leadership
begin

text \<open>
  A model of \<^verbatim>\<open>foundationdb-rs\<close>, the Rust bindings of FoundationDB, and of the logic they add to
  the native client: the tuple layer, range scans, the directory layer, the ranked register and
  leader election recipes, the reader of transaction profiles, the retry runner with the accounting
  and metrics of transactions, the life of the network thread and the futures of native operations.
  All paths are under \<^verbatim>\<open>src/\<close>.

  The native client is not part of the repository.  Where the code calls it, it is an argument of
  the definitions: the fields of \<open>kv\<close> (reads, writes and clears of a transaction), with what its
  documentation promises as the locale \<open>kv_store\<close> of \<open>Range_Scan\<close>, which is interpreted on a store
  in memory; the fields of \<open>client\<close> (closure, commit, \<open>on_error\<close>) in \<open>Retry_Runner\<close>; and those of
  \<open>network_native\<close> in \<open>Network_Lifecycle\<close>.  A \<^verbatim>\<open>Result\<close> is a sum with the error on the left, \<^verbatim>\<open>?\<close> is
  \<open>bind_result\<close>, a machine integer is a word or, where it only counts, a natural number.
  Asynchronous code is the sequence of its steps.  A panic, or a call that does not return, is \<open>None\<close>.

  Parts and theories, in the order they build on each other:

  \<^item> \<open>Prelude\<close>, \<open>Big_Endian\<close>: results, byte strings and their order, fixed-width integers as bytes.

  \<^item> The tuple layer (\<^verbatim>\<open>foundationdb-tuple\<close>): \<open>Tuple_Codes\<close> (\<^verbatim>\<open>lib.rs\<close>, \<^verbatim>\<open>pack.rs\<close>: codes, errors,
    versionstamp offsets, readers, byte strings), \<open>Tuple_Ints\<close> (integers), \<open>Tuple_Scalars\<close> (floats,
    strings, UUIDs, versionstamps), \<open>Tuple_Seq\<close> (tuples, vectors, options, entry points),
    \<open>Tuple_Element\<close> (\<^verbatim>\<open>element.rs\<close>), \<open>Tuple_Order\<close> (the order of encodings), \<open>Tuple_Subspace\<close>
    (\<^verbatim>\<open>subspace.rs\<close>), \<open>Tuple_Fields\<close> (the component types of tuples as data, for statements about
    tuples of any types) and \<open>Tuple_Properties\<close>.  Shown: every element, integer, float, string and
    tuple is read back from its encoding, with whatever follows it left over, and the reader of byte
    strings accepts nothing but encodings; the byte order of encodings
    is the order of the values; the recursive decoders end on every input; subspaces prepend their
    prefix, select exactly their keys, and account for versionstamp offsets.  Decoders recurse on the
    length of what is left, so no fuel is needed.

  \<^item> \<open>Range_Scan\<close> (\<^verbatim>\<open>foundationdb/src/keyselector.rs\<close>, \<^verbatim>\<open>transaction.rs\<close>): selectors, range options
    and the paging of \<^verbatim>\<open>get_ranges\<close>.  Shown: a scan delivers exactly the rows of its range, in
    order and up to its limit, in either direction, whatever the batches the store returns.  The
    stream is a \<open>partial_function\<close>, and shown to end.  \<open>Mapped_Ranges\<close> shows the same for the rows of
    mapped reads, \<open>Conflict_Ranges\<close> for the special keyspaces of conflict ranges and their parser.

  \<^item> \<open>Timekeeper\<close> (\<^verbatim>\<open>timekeeper.rs\<close>): the lookup of versions by time, a scan of limit one over packed
    timestamps.  Shown: it finds the nearest entry.

  \<^item> \<open>Allocator\<close> (\<^verbatim>\<open>tuple_ext/hca.rs\<close>): the high contention allocator, whose calls interleave on one
    transaction.  Shown: no value is given twice or was recorded before.  The two search loops are
    \<open>partial_function\<close>s over a stream of random draws, and shown to return when the draws are fair.

  \<^item> The directory layer (\<^verbatim>\<open>directory/\<close>): \<open>Directory_Layer\<close> (nodes, the version check, prefixes),
    \<open>Directory_Operations\<close> (create, open, move, remove, list, exists, partitions), \<open>Directory_Keys\<close>
    and \<open>Directory_State\<close> (the tree that a store holds), one theory per operation
    (\<open>Directory_Create\<close>, \<open>Directory_Move\<close>, \<open>Directory_Remove\<close>, \<open>Directory_List\<close>), \<open>Directory_Fuel\<close>,
    \<open>Directory_Outputs\<close>, \<open>Directory_Sample\<close> (a store to try them on) and \<open>Directory_Properties\<close>.
    Shown, on a store that represents a tree of paths with prefixes: each operation answers and
    updates as on the tree, directories have prefixes that do not contain each other, moving
    writes no content, removing clears exactly the subtree, newer versions are refused.  Removing
    takes fuel, one unit for a nested call or a turn of its loop; for a store of at most \<open>N\<close> keys
    \<open>(2 * N + 3) * (N + 1)\<close> is shown to be enough.  These theorems are on trees
    without partitions, and a manual prefix needs the parent of the path to exist; partitions are
    modelled, and covered by the property of outputs, which says of what kind and at which path the
    directories are that creating, opening and moving return.

  \<^item> \<open>Ranked_Register\<close> (\<^verbatim>\<open>recipes/ranked_register\<close>): the register and its chunked values.  Shown: it
    refines an abstract register, in every history of reads and writes a read that follows a
    committed write of a lower rank returns it or a later one, and committed ranks increase.

  \<^item> \<open>Leader_Election\<close>, \<open>Leader_Lease\<close>, \<open>Leader_Properties\<close> (\<^verbatim>\<open>recipes/leader_election\<close>): the durable
    record and its encoding, the poll, resign and state operations, and the timed system of
    participants, each with its own clock, that runs them.  The clocks run at one rate with constant
    skews, and each participant polls with one lease duration.  Shown: at most one participant holds an
    unexpired token that it has not asked to resign (it may keep a token until \<^verbatim>\<open>resign\<close>
    returns, when another one leads already); the ranks of leaders increase; an abandoned lease is
    taken over; the poll agrees with the earlier logic the tests keep; the record is read back and
    fits its limit.

  \<^item> \<open>Fenced_Leadership\<close>: both recipes on one store, as the guide of \<^verbatim>\<open>ranked_register/mod.rs\<close> composes
    them and the helper \<^verbatim>\<open>service_poll\<close> of \<^verbatim>\<open>tests/leader_election_ranked_register.rs\<close> runs them.  Shown:
    each lead outranks all earlier ones and fences their late writes, and reads return the last
    committed write.

  \<^item> \<open>Profile_Decode\<close>, \<open>Profile_Wire\<close> (\<^verbatim>\<open>foundationdb-profiling/src/event.rs\<close>, \<^verbatim>\<open>decode.rs\<close>): the events of
    a profiled transaction, their decoder, and a writer of everything a client may write.  Shown:
    the decoder inverts the writer, its errors name the place and what is wrong there, and a truncated blob
    never gives more events.  The loop over events ends because each reads at least four bytes.

  \<^item> \<open>Profile_Reader\<close>, \<open>Profile_Assembler\<close>, \<open>Profile_Pages\<close>, \<open>Profile_Chunks\<close> (\<^verbatim>\<open>reader.rs\<close>): cursors, the
    assembler of chunks, the cut of a page and the paging loop.  The abstract specification is
    \<open>core_run\<close>, the pending and complete transactions of a list of rows without what is reported as
    broken.  Shown: a page delivers what the rows before its resume position assemble to, with
    nothing pending there or reported as broken; pages end and together return each transaction
    once; interleaved chunks are joined; rows that break the contract are refused.  The loop over
    pages takes fuel; two pages per row and one more are enough.

  \<^item> \<open>Profile_Aggregate\<close> (\<^verbatim>\<open>aggregate.rs\<close>): counts, top lists and buckets.  Shown: counts are numbers of
    hits, top lists are the greatest entries in order, buckets partition the hits.

  \<^item> \<open>Retry_Runner\<close>, \<open>Retry_Properties\<close> (\<^verbatim>\<open>foundationdb/src/runner.rs\<close>, \<^verbatim>\<open>error.rs\<close>, \<^verbatim>\<open>database.rs\<close>): the
    classification of errors, hooks and policies, the retry loop and the older \<^verbatim>\<open>transact\<close>.  Shown:
    the steps come in one order with completion once (the closure is called before
    \<^verbatim>\<open>on_attempt_start\<close> fires and its future awaited afterwards, so the model of a closure has
    these two parts), the maybe-committed flag is exact, hooks only observe, a cap on the attempts
    ends the run, and \<^verbatim>\<open>transact\<close> does not repeat an uncertain commit.  The loops may run for ever, so they take fuel, one unit an attempt; with a
    cap or a retry limit of \<open>m\<close>, \<open>max m 1\<close> is shown to be enough.

  \<^item> \<open>Attempt_Usage\<close> (\<^verbatim>\<open>budget.rs\<close>, the clocks of \<^verbatim>\<open>env.rs\<close>), \<open>Transaction_Metrics\<close> (\<^verbatim>\<open>metrics.rs\<close>),
    \<open>Transaction_Handle\<close> (\<^verbatim>\<open>transaction.rs\<close>: the object and its calls), \<open>Usage_Accounting\<close>,
    \<open>Metered_Run\<close> (\<^verbatim>\<open>MetricsHooks\<close> of \<^verbatim>\<open>runner.rs\<close>).  A shared \<^verbatim>\<open>Arc\<close> is an address in a store.  Shown:
    after any calls, late reads and restarts the counters are those of the current attempt; the
    budget check is exact; user versions come in order; and the report of a run with metrics has
    one entry per attempt.  Counters wrap at 64 bits, as in a release build; a slice whose length
    does not fit a \<^verbatim>\<open>c_int\<close> panics.  The hook reads the conflicting keys with \<open>the\<close>, which
    \<open>conflict_ranges_read\<close> justifies: the read ends.

  \<^item> \<open>Seeded_Random\<close> (\<^verbatim>\<open>env.rs\<close>): SplitMix64.  Shown: a full period gives every value once.

  \<^item> \<open>Network_Lifecycle\<close> (\<^verbatim>\<open>api.rs\<close>): the state machine of the network.  Shown: whatever calls are made
    and fail, the native calls come in the order the client demands; a start whose thread cannot be
    spawned panics, and only then may the network be set up again.

  \<^item> \<open>Native_Future\<close>, \<open>Owned_Values\<close> (\<^verbatim>\<open>future.rs\<close>): a poll and the callback as interleaved steps, and
    the iterator over owned pairs.  Shown: no wakeup of a task is lost, the waker is handed out and
    taken back once; when several tasks poll, a wakeup can be lost (\<open>wakeup_can_be_lost\<close>); the iterator
    is a list consumed from both ends.  The atomic waker of the \<^verbatim>\<open>futures\<close> crate is a cell with one task.

  How the parts interact: the recipes and the directory layer read and write through
  \<open>Tuple_Subspace\<close> keys and \<open>kv_store\<close>, directories get their prefixes from the allocator, the
  register's value chunks go through \<open>Range_Scan\<close>; the reader of profiles decodes what its assembler
  joins, and the aggregator counts what the reader returns; the runner drives a transaction whose
  calls feed the usage of the attempt, and its hooks collect the usage into the report.

  Not modelled: the wrappers of the native client that only hand arguments on, views of native
  arrays and the dropping of futures; the arbitrary-precision integers of the optional \<^verbatim>\<open>num-bigint\<close>
  feature, which are a library; and generated bindings, macros, the options generator, the binding
  tester, simulation glue, examples and tests, which hold no logic of their own beyond driving the
  rest.
\<close>

end
